(* ===== verification/Prelude.thy ===== *)
theory Prelude
  imports Main "HOL-Library.Word"
begin

text \<open>
  The vocabulary every component shares: the machine integers of the Rust sources, the error type
  of src/src/error.rs with the result type of fallible operations, Rust's wrapping shifts, and the
  generic lemmas on words and lists that the component proofs use.

  \<^item> \<open>u64\<close>, \<open>u32\<close> and \<open>u8\<close> are words of that width; \<open>+\<close>, \<open>-\<close>, \<open>*\<close> on them are
    Rust's \<open>wrapping_*\<close> operations. An \<open>i64\<close> that carries data is the \<open>u64\<close> with the same
    bits, read with \<open>sint\<close>.
  \<^item> An \<open>i32\<close> that counts bytes, bits or slots is an \<open>int\<close>. Where such a number is a shift
    amount it only matters modulo 64, so a wrap-around at 32 bits makes no difference there; where
    a cast or a \<open>wrapping_*\<close> operation is applied outside a shift it is written out
    (\<open>as_u32\<close>, \<open>wrap_i32\<close>).
\<close>

unbundle bit_operations_syntax

type_synonym u8 = "8 word"
type_synonym u32 = "32 word"
type_synonym u64 = "64 word"
type_synonym i32 = int

named_theorems shift_simps \<open>unfolding of the wrapping shifts\<close>
named_theorems mask_simps \<open>facts on the byte-size masks\<close>

section \<open>Errors\<close>

datatype error =
    Lowlevel string
  | Recov string
  | Parse string
  | Decoder string
  | BadData string
  | Unimpl string i32
  | DataUnavail string
  | Evaluation string
  | Sleigh string
  | JumptableThunk string
  | ParamUnassigned string
  | DuplicateFunction string string

text \<open>A Rust panic is not an \<open>Error\<close>; operations that may panic have their own outcome.\<close>

type_synonym 'a result = "error + 'a"

fun explain :: "error \<Rightarrow> string" where
  "explain (Lowlevel m) = m"
| "explain (Recov m) = m"
| "explain (Parse m) = m"
| "explain (Decoder m) = m"
| "explain (BadData m) = m"
| "explain (Unimpl m _) = m"
| "explain (DataUnavail m) = m"
| "explain (Evaluation m) = m"
| "explain (Sleigh m) = m"
| "explain (JumptableThunk m) = m"
| "explain (ParamUnassigned m) = m"
| "explain (DuplicateFunction _ _) = ''Duplicate Function''"

fun is_lowlevel :: "error \<Rightarrow> bool" where
  "is_lowlevel (Decoder _) = False"
| "is_lowlevel _ = True"

fun is_recov :: "error \<Rightarrow> bool" where
  "is_recov (Recov _) = True"
| "is_recov (DuplicateFunction _ _) = True"
| "is_recov _ = False"

text \<open>The question-mark operator: stop at the first error.\<close>

definition rbind :: "'a result \<Rightarrow> ('a \<Rightarrow> 'b result) \<Rightarrow> 'b result" where
  "rbind r f = (case r of Inl e \<Rightarrow> Inl e | Inr x \<Rightarrow> f x)"

lemma rbind_simps [simp]:
  "rbind (Inr x) f = f x"
  "rbind (Inl e) f = Inl e"
  by (simp_all add: rbind_def)

lemma rbind_eq_Inr: "rbind r f = Inr y \<longleftrightarrow> (\<exists>x. r = Inr x \<and> f x = Inr y)"
  by (cases r) auto

lemma rbind_eq_Inl: "rbind r f = Inl e \<longleftrightarrow> r = Inl e \<or> (\<exists>x. r = Inr x \<and> f x = Inl e)"
  by (cases r) auto

section \<open>Orderings\<close>

datatype ordering = Less | Equal | Greater

text \<open>\<open>Ord::cmp\<close> on integers, and on byte slices: lexicographic, a proper prefix comes first.\<close>

definition cmp_int :: "int \<Rightarrow> int \<Rightarrow> ordering" where
  "cmp_int x y = (if x < y then Less else if y < x then Greater else Equal)"

definition byte_of :: "char \<Rightarrow> nat" where
  "byte_of c = of_char c"

lemma byte_of_inject [simp]: "byte_of c = byte_of d \<longleftrightarrow> c = d"
  by (simp add: byte_of_def)

fun cmp_bytes :: "string \<Rightarrow> string \<Rightarrow> ordering" where
  "cmp_bytes [] [] = Equal"
| "cmp_bytes [] (_ # _) = Less"
| "cmp_bytes (_ # _) [] = Greater"
| "cmp_bytes (x # xs) (y # ys) =
     (if byte_of x < byte_of y then Less
      else if byte_of y < byte_of x then Greater
      else cmp_bytes xs ys)"

lemma cmp_bytes_Equal [simp]: "cmp_bytes xs ys = Equal \<longleftrightarrow> xs = ys"
proof (induction xs ys rule: cmp_bytes.induct)
  case (4 x xs y ys)
  then show ?case by (cases "byte_of x" "byte_of y" rule: linorder_cases) auto
qed simp_all

lemma cmp_bytes_refl [simp]: "cmp_bytes xs xs = Equal"
  by simp

lemma cmp_bytes_Greater: "cmp_bytes xs ys = Greater \<longleftrightarrow> cmp_bytes ys xs = Less"
  by (induction xs ys rule: cmp_bytes.induct) auto

lemma cmp_bytes_trans: "cmp_bytes xs ys = Less \<Longrightarrow> cmp_bytes ys zs = Less \<Longrightarrow> cmp_bytes xs zs = Less"
proof (induction xs ys arbitrary: zs rule: cmp_bytes.induct)
  case (2 y ys)
  then show ?case by (cases zs) auto
next
  case (4 x xs y ys)
  show ?case
  proof (cases zs)
    case (Cons z zs')
    then show ?thesis using "4.prems" "4.IH" [of zs'] by (auto split: if_split_asm)
  qed (use "4.prems" in simp)
qed simp_all

section \<open>Casts and wrapping shifts\<close>

definition as_u32 :: "int \<Rightarrow> int" where
  "as_u32 x = x mod 2 ^ 32"

definition wrap_i32 :: "int \<Rightarrow> int" where
  "wrap_i32 x = (x + 2 ^ 31) mod 2 ^ 32 - 2 ^ 31"

text \<open>A signed value cast to \<open>u64\<close> (\<open>x as i64 as u64\<close>).\<close>

definition cxx_int :: "i32 \<Rightarrow> u64" where
  "cxx_int x = word_of_int x"

text \<open>
  Rust's \<open>wrapping_shl\<close>, \<open>wrapping_shr\<close> on \<open>u64\<close> and \<open>wrapping_shr\<close> on \<open>i64\<close>: the shift
  amount is taken modulo 64, so it is never out of range.
\<close>

definition wshl :: "u64 \<Rightarrow> int \<Rightarrow> u64" where
  [shift_simps]: "wshl v n = push_bit (nat (n mod 64)) v"

definition wshr :: "u64 \<Rightarrow> int \<Rightarrow> u64" where
  [shift_simps]: "wshr v n = drop_bit (nat (n mod 64)) v"

definition wsar :: "u64 \<Rightarrow> int \<Rightarrow> u64" where
  [shift_simps]: "wsar v n = signed_drop_bit (nat (n mod 64)) v"

definition of_flag :: "bool \<Rightarrow> u64" where
  "of_flag b = (if b then 1 else 0)"

lemma of_flag_simps [simp]:
  "of_flag True = 1" "of_flag False = 0"
  "of_flag b = 0 \<longleftrightarrow> \<not> b" "of_flag b = 1 \<longleftrightarrow> b" "of_flag a = of_flag b \<longleftrightarrow> a = b"
  by (auto simp: of_flag_def)

lemma wrap_i32_small: "- (2 ^ 31) \<le> x \<Longrightarrow> x < 2 ^ 31 \<Longrightarrow> wrap_i32 x = x"
  by (simp add: wrap_i32_def)

lemma shift_amount_small [simp]:
  "0 \<le> n \<Longrightarrow> n < 64 \<Longrightarrow> wshl v n = push_bit (nat n) v"
  "0 \<le> n \<Longrightarrow> n < 64 \<Longrightarrow> wshr v n = drop_bit (nat n) v"
  "0 \<le> n \<Longrightarrow> n < 64 \<Longrightarrow> wsar v n = signed_drop_bit (nat n) v"
  by (simp_all add: shift_simps)

section \<open>Words\<close>

lemma bit_u64_beyond [simp]: "64 \<le> n \<Longrightarrow> \<not> bit (v :: u64) n"
  using bit_imp_le_length [of v n] by auto

lemma bit_u64_lt: "bit (v :: u64) n \<Longrightarrow> n < 64"
  by (metis bit_u64_beyond not_le)

lemma u64_bit_eqI: "(\<And>n. n < 64 \<Longrightarrow> bit v n = bit w n) \<Longrightarrow> v = (w :: u64)"
  by (rule bit_word_eqI) simp

lemma bit_u64_push: "bit (push_bit k (v :: u64)) n \<longleftrightarrow> k \<le> n \<and> n < 64 \<and> bit v (n - k)"
  by (auto simp: bit_push_bit_iff)

lemma bit_u64_drop: "bit (drop_bit k (v :: u64)) n \<longleftrightarrow> bit v (n + k)"
  by (simp add: bit_drop_bit_eq add.commute)

lemma bit_word_sar:
  "bit (signed_drop_bit k (v :: 'a::len word)) n \<longleftrightarrow>
     n < LENGTH('a) \<and> bit v (if LENGTH('a) \<le> n + k then LENGTH('a) - 1 else n + k)"
  by (auto simp: bit_signed_drop_bit_iff add.commute not_le dest: bit_imp_le_length)

lemma bit_u64_sar:
  "bit (signed_drop_bit k (v :: u64)) n \<longleftrightarrow> n < 64 \<and> bit v (if 64 \<le> n + k then 63 else n + k)"
  using bit_word_sar [of k v n] by simp

lemma bit_u64_mask: "bit (mask k :: u64) n \<longleftrightarrow> n < k \<and> n < 64"
  by (auto simp: bit_mask_iff)

lemma bit_u64_take: "bit (take_bit k (v :: u64)) n \<longleftrightarrow> n < k \<and> bit v n"
  by (simp add: bit_take_bit_iff)

lemma bit_word_signed_take:
  "bit (signed_take_bit k (v :: 'a::len word)) n \<longleftrightarrow> n < LENGTH('a) \<and> bit v (min k n)"
  by (auto simp: bit_signed_take_bit_iff)

lemma bit_u64_signed_take:
  "bit (signed_take_bit k (v :: u64)) n \<longleftrightarrow> n < 64 \<and> bit v (min k n)"
  using bit_word_signed_take [of k v n] by simp

lemmas bit_u64 =
  bit_u64_push bit_u64_drop bit_u64_sar bit_u64_mask bit_u64_take bit_u64_signed_take
  bit_and_iff bit_or_iff bit_xor_iff

lemma and_mask_eq_take: "v AND mask n = take_bit n (v :: u64)"
  by (simp add: take_bit_eq_mask)

lemma le_mask_iff_take: "v \<le> mask n \<longleftrightarrow> take_bit n v = (v :: 'a::len word)"
proof
  assume le: "v \<le> mask n"
  show "take_bit n v = v"
  proof (cases "n < LENGTH('a)")
    case True
    have "uint v \<le> uint (mask n :: 'a word)" using le by (simp add: word_le_def)
    also have "\<dots> = mask n" using True by (simp add: uint_mask_eq)
    finally have "uint v < 2 ^ n" by (simp add: mask_eq_exp_minus_1)
    then show ?thesis
      by (simp add: word_uint_eq_iff unsigned_take_bit_eq take_bit_int_eq_self)
  qed (simp add: take_bit_word_eq_self)
next
  assume "take_bit n v = v"
  then have "v = v AND mask n" by (simp add: take_bit_eq_mask)
  then show "v \<le> mask n" by (metis word_and_le1)
qed

lemma u64_sar_push:
  assumes "k < 64"
  shows "signed_drop_bit k (push_bit k (v :: u64)) = signed_take_bit (63 - k) v"
proof (rule u64_bit_eqI)
  fix n :: nat
  assume "n < 64"
  show "bit (signed_drop_bit k (push_bit k v)) n = bit (signed_take_bit (63 - k) v) n"
  proof (cases "64 \<le> n + k")
    case True
    then have "min (63 - k) n = 63 - k" using assms by simp
    then show ?thesis using True assms \<open>n < 64\<close> by (simp add: bit_u64)
  next
    case False
    then have "min (63 - k) n = n" by simp
    then show ?thesis using False assms by (simp add: bit_u64)
  qed
qed

lemma u64_drop_push: "drop_bit k (push_bit k (v :: u64)) = take_bit (64 - k) v"
  by (rule u64_bit_eqI) (auto simp: bit_u64)

lemma u64_and_exp: "v AND 2 ^ k \<noteq> 0 \<longleftrightarrow> bit (v :: u64) k"
proof
  assume "bit v k"
  then have "k < 64" by (rule bit_u64_lt)
  then have "bit (v AND 2 ^ k) k" using \<open>bit v k\<close> by (simp add: bit_u64 bit_exp_iff)
  then show "v AND 2 ^ k \<noteq> 0" by auto
next
  assume "v AND 2 ^ k \<noteq> 0"
  then obtain n where "bit (v AND 2 ^ k) n" by (metis bit_eqI bit_0_eq bot_apply bot_bool_def)
  then show "bit v k" by (auto simp: bit_u64 bit_exp_iff)
qed

lemma u64_and_exp_eq: "v AND 2 ^ k = (if bit v k then 2 ^ k else (0 :: u64))"
  by (rule u64_bit_eqI) (auto simp: bit_and_iff bit_exp_iff)

lemma u64_drop_and_1: "drop_bit k (v :: u64) AND 1 = of_flag (bit v k)"
proof (rule u64_bit_eqI)
  show "bit (drop_bit k v AND 1) n = bit (of_flag (bit v k)) n" for n
    by (cases n) (auto simp: bit_u64 bit_1_iff of_flag_def)
qed

lemma u64_drop_eq_0: "64 \<le> k \<Longrightarrow> drop_bit k (v :: u64) = 0"
  by (rule u64_bit_eqI) (simp add: bit_u64)

end
