(* ===== verification/Bits.thy ===== *)
theory Bits
  imports Prelude
begin

text \<open>
  The bit-level helpers at the end of src/src/address.rs: byte-size masks, p-code shifts, sign and
  zero extension, byte swapping and bit scanning. Every other component computes with these. The
  lemmas describe each helper by the bits of its result or by an operation of the word library.
\<close>

section \<open>Definitions\<close>

definition UINTBMASKS :: "u64 list" where
  "UINTBMASKS = [0, 0xff, 0xffff, 0xffffff, 0xffffffff, 0xffffffffff, 0xffffffffffff,
     0xffffffffffffff, 0xffffffffffffffff]"

definition calc_mask :: "i32 \<Rightarrow> u64" where
  "calc_mask sz = UINTBMASKS ! (if as_u32 sz < 8 then nat sz else 8)"

definition calc_uint_max :: "i32 \<Rightarrow> u64" where
  "calc_uint_max sz = calc_mask sz"

definition calc_int_max :: "i32 \<Rightarrow> u64" where
  "calc_int_max sz = drop_bit 1 (calc_mask sz)"

definition calc_int_min :: "i32 \<Rightarrow> u64" where
  "calc_int_min sz = wshl 1 (sz * 8 - 1)"

definition pcode_right :: "u64 \<Rightarrow> i32 \<Rightarrow> u64" where
  "pcode_right val sa = (if \<not> (0 \<le> sa \<and> sa < 64) then 0 else drop_bit (nat sa) val)"

definition pcode_left :: "u64 \<Rightarrow> i32 \<Rightarrow> u64" where
  "pcode_left val sa = (if \<not> (0 \<le> sa \<and> sa < 64) then 0 else push_bit (nat sa) val)"

definition minimalmask :: "u64 \<Rightarrow> u64" where
  "minimalmask val =
     (if val > 0xffffffff then 0xffffffffffffffff
      else if val > 0xffff then 0xffffffff
      else if val > 0xff then 0xffff
      else 0xff)"

definition sign_extend :: "u64 \<Rightarrow> i32 \<Rightarrow> u64" where
  "sign_extend val bt = (let sa = 64 - (bt + 1) in wsar (wshl val sa) sa)"

definition zero_extend :: "u64 \<Rightarrow> i32 \<Rightarrow> u64" where
  "zero_extend val bt = (let sa = 64 - (bt + 1) in wshr (wshl val sa) sa)"

definition signbit_negative :: "u64 \<Rightarrow> i32 \<Rightarrow> bool" where
  "signbit_negative val sz = (val AND wshl 0x80 (8 * (sz - 1)) \<noteq> 0)"

definition uintb_negate :: "u64 \<Rightarrow> i32 \<Rightarrow> u64" where
  "uintb_negate input sz = NOT input AND calc_mask sz"

definition sign_extend_size :: "u64 \<Rightarrow> i32 \<Rightarrow> i32 \<Rightarrow> u64" where
  "sign_extend_size input sizein sizeout =
     (let sizein = (if as_u32 sizein < 8 then sizein else 8);
          sizeout = (if as_u32 sizeout < 8 then sizeout else 8);
          sval = wshl input ((8 - sizein) * 8);
          res = wsar sval ((sizeout - sizein) * 8)
      in wshr res ((8 - sizeout) * 8))"

definition extend_signbit :: "u64 \<Rightarrow> i32 \<Rightarrow> i32 \<Rightarrow> u64" where
  "extend_signbit val numbits sz =
     (if numbits < sz * 8
      then (let sa = 64 - numbits in wsar (wshl val sa) sa AND calc_mask sz)
      else val)"

text \<open>The \<open>while size > 0\<close> loops: \<open>sz\<close> iterations, none for a size that is not positive.\<close>

primrec byte_swap_loop :: "nat \<Rightarrow> u64 \<Rightarrow> u64 \<Rightarrow> u64" where
  "byte_swap_loop 0 val res = res"
| "byte_swap_loop (Suc n) val res = byte_swap_loop n (drop_bit 8 val) (push_bit 8 res OR (val AND 0xff))"

definition byte_swap :: "u64 \<Rightarrow> i32 \<Rightarrow> u64" where
  "byte_swap val sz = byte_swap_loop (nat sz) val 0"

primrec byte_swap_signed_loop :: "nat \<Rightarrow> u64 \<Rightarrow> u64 \<Rightarrow> u64" where
  "byte_swap_signed_loop 0 val res = res"
| "byte_swap_signed_loop (Suc n) val res =
     byte_swap_signed_loop n (signed_drop_bit 8 val) (push_bit 8 res OR (val AND 0xff))"

definition byte_swap_signed :: "u64 \<Rightarrow> i32 \<Rightarrow> u64" where
  "byte_swap_signed val sz = byte_swap_signed_loop (nat sz) val 0"

text \<open>Rust's \<open>trailing_zeros\<close>, \<open>leading_zeros\<close> and \<open>count_ones\<close> on \<open>u64\<close>.\<close>

definition trailing_zeros :: "u64 \<Rightarrow> nat" where
  "trailing_zeros v = length (takeWhile (\<lambda>i. \<not> bit v i) [0..<64])"

definition leading_zeros :: "u64 \<Rightarrow> nat" where
  "leading_zeros v = length (takeWhile (\<lambda>i. \<not> bit v (63 - i)) [0..<64])"

definition count_ones :: "u64 \<Rightarrow> nat" where
  "count_ones v = length (filter (\<lambda>i. bit v i) [0..<64])"

definition leastsigbit_set :: "u64 \<Rightarrow> i32" where
  "leastsigbit_set val = (if val = 0 then -1 else int (trailing_zeros val))"

definition mostsigbit_set :: "u64 \<Rightarrow> i32" where
  "mostsigbit_set val = (if val = 0 then -1 else 63 - int (leading_zeros val))"

definition popcount :: "u64 \<Rightarrow> i32" where
  "popcount val = int (count_ones val)"

definition count_leading_zeros :: "u64 \<Rightarrow> i32" where
  "count_leading_zeros val = int (leading_zeros val)"

text \<open>\<open>while sz < 64 { res |= res >> sz; sz <<= 1 }\<close> from \<open>sz = 1\<close>: after \<open>k\<close> rounds \<open>sz\<close> is \<open>2 ^ k\<close>.\<close>

function coveringmask_loop :: "nat \<Rightarrow> u64 \<Rightarrow> u64" where
  "coveringmask_loop k res =
     (if (2::nat) ^ k < 64 then coveringmask_loop (Suc k) (res OR drop_bit (2 ^ k) res) else res)"
  by pat_completeness auto
termination
  by (relation "measure (\<lambda>(k, res). 64 - 2 ^ k)") (auto intro!: diff_less_mono2)

declare coveringmask_loop.simps [simp del]

definition coveringmask :: "u64 \<Rightarrow> u64" where
  "coveringmask val = coveringmask_loop 0 val"

text \<open>The loop of \<open>bit_transitions\<close> over \<open>1..8 * sz\<close>, with its early exit once \<open>val\<close> is zero.\<close>

primrec bit_transitions_loop :: "nat \<Rightarrow> u64 \<Rightarrow> bool \<Rightarrow> i32 \<Rightarrow> i32" where
  "bit_transitions_loop 0 val prev res = res"
| "bit_transitions_loop (Suc n) val prev res =
     (let val = drop_bit 1 val; cur = bit val 0;
          res = (if cur \<noteq> prev then res + 1 else res)
      in if val = 0 then res else bit_transitions_loop n val cur res)"

definition bit_transitions :: "u64 \<Rightarrow> i32 \<Rightarrow> i32" where
  "bit_transitions val sz = bit_transitions_loop (nat (8 * sz - 1)) val (bit val 0) 0"

section \<open>Masks\<close>

text \<open>A size the sources call valid: one to eight bytes.\<close>

definition valid_size :: "i32 \<Rightarrow> bool" where
  "valid_size sz \<longleftrightarrow> 1 \<le> sz \<and> sz \<le> 8"

lemma valid_size_cases:
  assumes "valid_size s"
  obtains "s = 1" | "s = 2" | "s = 3" | "s = 4" | "s = 5" | "s = 6" | "s = 7" | "s = 8"
  using assms unfolding valid_size_def by linarith

lemma calc_mask_eq: "valid_size s \<Longrightarrow> calc_mask s = mask (8 * nat s)"
  by (erule valid_size_cases)
    (simp_all add: calc_mask_def UINTBMASKS_def as_u32_def mask_eq_exp_minus_1)

lemma calc_mask_big: "8 \<le> s \<Longrightarrow> s < 2 ^ 31 \<Longrightarrow> calc_mask s = mask 64"
  by (simp add: calc_mask_def UINTBMASKS_def as_u32_def mask_eq_exp_minus_1)

lemma clamp_size: "valid_size s \<Longrightarrow> (if as_u32 s < 8 then s else 8) = s"
  by (auto simp: valid_size_def as_u32_def)

lemma nat_size_bounds: "valid_size s \<Longrightarrow> 8 \<le> 8 * nat s \<and> 8 * nat s \<le> 64"
  by (auto simp: valid_size_def)

lemma and_calc_mask [mask_simps]: "valid_size s \<Longrightarrow> v AND calc_mask s = take_bit (8 * nat s) v"
  by (simp add: calc_mask_eq take_bit_eq_mask)

lemma le_calc_mask_iff [mask_simps]:
  "valid_size s \<Longrightarrow> v \<le> calc_mask s \<longleftrightarrow> take_bit (8 * nat s) v = v"
  by (simp add: calc_mask_eq le_mask_iff_take)

lemma bit_calc_mask: "valid_size s \<Longrightarrow> bit (calc_mask s) n \<longleftrightarrow> n < 8 * nat s"
  using nat_size_bounds [of s] by (auto simp: calc_mask_eq bit_u64_mask)

section \<open>Extension\<close>

lemma sign_extend_eq:
  assumes "0 \<le> b" "b < 64"
  shows "sign_extend v b = signed_take_bit (nat b) v"
proof -
  have "63 - nat (63 - b) = nat b" "nat (63 - b) < 64" using assms by auto
  then show ?thesis using assms by (simp add: sign_extend_def Let_def u64_sar_push)
qed

lemma zero_extend_eq:
  assumes "0 \<le> b" "b < 64"
  shows "zero_extend v b = take_bit (Suc (nat b)) v"
proof -
  have "64 - nat (63 - b) = Suc (nat b)" using assms by auto
  then show ?thesis using assms by (simp add: zero_extend_def Let_def u64_drop_push)
qed

lemma signbit_negative_iff:
  assumes "valid_size s"
  shows "signbit_negative v s \<longleftrightarrow> bit v (8 * nat s - 1)"
proof -
  have "wshl 0x80 (8 * (s - 1)) = 2 ^ (8 * nat s - 1)"
    using assms by (rule valid_size_cases) simp_all
  then show ?thesis by (simp add: signbit_negative_def u64_and_exp)
qed

lemma sign_extend_size_bits:
  assumes "valid_size si" "valid_size so" "si \<le> so"
  shows "sign_extend_size v si so = take_bit (8 * nat so) (signed_take_bit (8 * nat si - 1) v)"
proof -
  obtain a b where ab: "si = int a" "so = int b" "1 \<le> a" "a \<le> b" "b \<le> 8"
    using assms by (metis valid_size_def int_nat_eq nat_int zle_int zero_le_one order_trans of_nat_1
        of_nat_le_iff of_nat_numeral)
  have sh: "nat ((8 - int a) * 8 mod 64) = 64 - 8 * a" "nat ((int b - int a) * 8 mod 64) = 8 * b - 8 * a"
    "nat ((8 - int b) * 8 mod 64) = 64 - 8 * b"
    using ab by (subst mod_pos_pos_trivial; auto)+
  show ?thesis
  proof (rule u64_bit_eqI)
    fix n :: nat
    have lhs: "sign_extend_size v si so
        = drop_bit (64 - 8 * b) (signed_drop_bit (8 * b - 8 * a) (push_bit (64 - 8 * a) v))"
      by (simp only: sign_extend_size_def Let_def clamp_size [OF assms(1), unfolded ab]
          clamp_size [OF assms(2), unfolded ab] shift_simps ab(1,2) sh)
    have "(if 64 \<le> n + (64 - 8 * b) + (8 * b - 8 * a) then 63 else n + (64 - 8 * b) + (8 * b - 8 * a))
        - (64 - 8 * a) = min (8 * a - 1) n" using ab by auto
    then show "bit (sign_extend_size v si so) n
        = bit (take_bit (8 * nat so) (signed_take_bit (8 * nat si - 1) v)) n"
      unfolding lhs bit_u64 using ab by auto
  qed
qed

section \<open>Covering mask\<close>

lemma coveringmask_loop_bits:
  assumes "\<And>n. bit res n \<longleftrightarrow> (\<exists>m. n \<le> m \<and> m < n + 2 ^ k \<and> bit v m)"
  shows "bit (coveringmask_loop k res) n \<longleftrightarrow> (\<exists>m\<ge>n. bit (v :: u64) m)"
  using assms
proof (induction k res rule: coveringmask_loop.induct)
  case (1 k res)
  show ?case
  proof (cases "(2::nat) ^ k < 64")
    case True
    have "bit (res OR drop_bit (2 ^ k) res) n \<longleftrightarrow> (\<exists>m. n \<le> m \<and> m < n + 2 ^ Suc k \<and> bit v m)" for n
    proof -
      have "(n \<le> m \<and> m < n + 2 ^ Suc k) \<longleftrightarrow>
        (n \<le> m \<and> m < n + 2 ^ k) \<or> (n + 2 ^ k \<le> m \<and> m < n + 2 ^ k + 2 ^ k)" for m by auto
      then show ?thesis unfolding bit_or_iff bit_u64_drop "1.prems" by blast
    qed
    then show ?thesis
      using "1.IH" [OF True] True by (subst coveringmask_loop.simps) simp
  next
    case False
    have "m < n + 2 ^ k" if "bit v m" for m
      using that False by (metis bit_u64_beyond not_le le_add2 order_less_le_trans not_less)
    then show ?thesis
      using False "1.prems" [of n] by (subst coveringmask_loop.simps) auto
  qed
qed

lemma bit_coveringmask: "bit (coveringmask v) n \<longleftrightarrow> (\<exists>m\<ge>n. bit v m)"
  unfolding coveringmask_def
  by (rule coveringmask_loop_bits) (auto simp: less_Suc_eq_le)

section \<open>Byte swapping\<close>

lemma and_ff: "v AND 0xff = take_bit 8 (v :: u64)"
  using and_calc_mask [of 1 v] by (simp add: valid_size_def calc_mask_def UINTBMASKS_def as_u32_def)

lemma byte_swap_loop_bits:
  "k \<le> 8 \<Longrightarrow> bit (byte_swap_loop k v r) n \<longleftrightarrow>
     n < 64 \<and> (if n < 8 * k then bit v (8 * (k - 1 - n div 8) + n mod 8) else bit r (n - 8 * k))"
proof (induction k arbitrary: v r n)
  case 0
  then show ?case by (auto dest: bit_u64_lt)
next
  case (Suc k)
  consider "n < 8 * k" | "8 * k \<le> n" "n < 8 * Suc k" | "8 * Suc k \<le> n" by linarith
  then show ?case
  proof cases
    case 1
    then have "8 * (k - 1 - n div 8) + n mod 8 + 8 = 8 * (Suc k - 1 - n div 8) + n mod 8" by auto
    moreover have "n < 64" using 1 Suc.prems by simp
    ultimately show ?thesis using 1 Suc.prems Suc.IH [of "drop_bit 8 v" _ n]
      by (simp only: byte_swap_loop.simps bit_u64_drop) simp
  next
    case 2
    then obtain j where "n = 8 * k + j" "j < 8" by (metis le_Suc_ex mult_Suc_right add.commute nat_add_left_cancel_less)
    then have nk: "8 * (Suc k - 1 - n div 8) + n mod 8 = n - 8 * k" "n - 8 * k < 8" by auto
    have "n < 64" using 2 Suc.prems by simp
    then show ?thesis using 2 nk Suc.prems Suc.IH [of "drop_bit 8 v" _ n]
      by (simp only: byte_swap_loop.simps and_ff bit_u64) simp
  next
    case 3
    with Suc show ?thesis by (auto simp: bit_u64 and_ff add.commute [of 8])
  qed
qed

lemma bit_byte_swap:
  assumes "0 \<le> s" "s \<le> 8"
  shows "bit (byte_swap v s) n \<longleftrightarrow> n < 8 * nat s \<and> bit v (8 * (nat s - 1 - n div 8) + n mod 8)"
  using assms by (auto simp: byte_swap_def byte_swap_loop_bits)

lemma byte_swap_twice:
  assumes "valid_size s"
  shows "byte_swap (byte_swap v s) s = take_bit (8 * nat s) v"
proof (rule u64_bit_eqI)
  fix n :: nat
  obtain k where k: "nat s = k" "1 \<le> k" "k \<le> 8" using assms by (auto simp: valid_size_def)
  obtain q j where n: "n = 8 * q + j" "j < 8"
    by (metis mult_div_mod_eq mod_less_divisor zero_less_numeral)
  let ?m = "8 * (k - 1 - n div 8) + n mod 8"
  have "?m = 8 * (k - 1 - q) + j" using n by simp
  then have m: "?m div 8 = k - 1 - q" "?m mod 8 = j" "?m = 8 * (k - 1 - q) + j" using n by simp_all
  have "8 * (k - 1 - ?m div 8) + ?m mod 8 = n" "?m < 8 * k" if "n < 8 * k"
    unfolding m using that n by auto
  then show "bit (byte_swap (byte_swap v s) s) n = bit (take_bit (8 * nat s) v) n"
    using k by (cases "n < 8 * k") (simp_all add: bit_byte_swap bit_u64 valid_size_def)
qed

section \<open>Bit scans\<close>

lemma takeWhile_upt_first:
  assumes "length (takeWhile P [a..<b]) = k" "a + k < b"
  shows "\<not> P (a + k)" "\<And>i. a \<le> i \<Longrightarrow> i < a + k \<Longrightarrow> P i"
proof -
  show "\<not> P (a + k)"
    using nth_length_takeWhile [of P "[a..<b]"] assms by simp
  fix i assume i: "a \<le> i" "i < a + k"
  then have "P ([a..<b] ! (i - a))"
    using assms takeWhile_nth [of "i - a" P "[a..<b]"] nth_mem [of "i - a" "takeWhile P [a..<b]"]
      set_takeWhileD [of _ P "[a..<b]"] by (metis less_diff_conv2 add.commute)
  then show "P i" using i assms by simp
qed

lemma takeWhile_upt_short:
  assumes "a \<le> i" "i < b" "\<not> P i"
  shows "a + length (takeWhile P [a..<b]) < b"
proof (rule ccontr)
  assume "\<not> ?thesis"
  then have "length (takeWhile P [a..<b]) = length [a..<b]"
    using length_takeWhile_le [of P "[a..<b]"] by auto
  then have "takeWhile P [a..<b] = [a..<b]"
    by (metis takeWhile_eq_take take_all_iff order_refl)
  then have "P i" using assms by (metis atLeastLessThan_iff set_upt set_takeWhileD)
  then show False using assms by simp
qed

lemma u64_nonzero_bit: "v \<noteq> 0 \<Longrightarrow> \<exists>n<64. bit (v :: u64) n"
  by (metis bit_0_eq bot_apply bot_bool_def u64_bit_eqI)

lemma leastsigbit_set_lowest:
  assumes "v \<noteq> 0"
  shows "0 \<le> leastsigbit_set v" "leastsigbit_set v < 64" "bit v (nat (leastsigbit_set v))"
    "\<And>i. i < nat (leastsigbit_set v) \<Longrightarrow> \<not> bit v i"
proof -
  let ?l = "length (takeWhile (\<lambda>i. \<not> bit v i) [0..<64])"
  obtain n where "n < 64" "bit v n" using u64_nonzero_bit [OF assms] by auto
  then have l: "?l < 64" using takeWhile_upt_short [of 0 n 64 "\<lambda>i. \<not> bit v i"]
    by (simp del: upt_rec_numeral)
  have e: "leastsigbit_set v = int ?l" using assms by (simp add: leastsigbit_set_def trailing_zeros_def del: upt_rec_numeral)
  show "0 \<le> leastsigbit_set v" "leastsigbit_set v < 64" using e l by (simp_all del: upt_rec_numeral)
  have l': "0 + ?l < 64" using l by (simp only: add_0)
  note f = takeWhile_upt_first [OF refl l', unfolded add_0]
  show "bit v (nat (leastsigbit_set v))" using f(1) unfolding e nat_int not_not .
  show "\<not> bit v i" if "i < nat (leastsigbit_set v)" for i
    using f(2) [OF le0] that unfolding e nat_int .
qed

lemma mostsigbit_set_highest:
  assumes "v \<noteq> 0"
  shows "0 \<le> mostsigbit_set v" "mostsigbit_set v < 64" "bit v (nat (mostsigbit_set v))"
    "\<And>i. nat (mostsigbit_set v) < i \<Longrightarrow> \<not> bit v i"
proof -
  let ?l = "length (takeWhile (\<lambda>i. \<not> bit v (63 - i)) [0..<64])"
  obtain n where n: "n < 64" "bit v n" using u64_nonzero_bit [OF assms] by auto
  then have l: "?l < 64" using takeWhile_upt_short [of 0 "63 - n" 64 "\<lambda>i. \<not> bit v (63 - i)"]
    by (simp del: upt_rec_numeral)
  have e: "mostsigbit_set v = 63 - int ?l" using assms by (simp add: mostsigbit_set_def leading_zeros_def del: upt_rec_numeral)
  then have e': "nat (mostsigbit_set v) = 63 - ?l" by (simp del: upt_rec_numeral)
  show "0 \<le> mostsigbit_set v" "mostsigbit_set v < 64" using e l by (simp_all del: upt_rec_numeral)
  have l': "0 + ?l < 64" using l by (simp only: add_0)
  note f = takeWhile_upt_first [OF refl l', unfolded add_0]
  show "bit v (nat (mostsigbit_set v))" using f(1) unfolding e' not_not .
  fix i assume "nat (mostsigbit_set v) < i"
  then show "\<not> bit v i" using f(2) [OF le0, of "63 - i"] unfolding e'
    by (cases "i < 64") (auto simp del: upt_rec_numeral)
qed

section \<open>Bit transitions\<close>

lemma bit_transitions_loop_count:
  "bit_transitions_loop n v prev r =
     r + int (card {i. i < n \<and> bit v (Suc i) \<noteq> (if i = 0 then prev else bit v i)})"
proof (induction n arbitrary: v prev r)
  case (Suc n)
  let ?v = "drop_bit 1 v"
  let ?S = "{i. i < n \<and> bit ?v (Suc i) \<noteq> (if i = 0 then bit ?v 0 else bit ?v i)}"
  have S: "?S = {i. i < n \<and> bit v (Suc (Suc i)) \<noteq> bit v (Suc i)}"
    by (auto simp: bit_u64_drop)
  have "{i. i < Suc n \<and> bit v (Suc i) \<noteq> (if i = 0 then prev else bit v i)}
      = (if bit ?v 0 \<noteq> prev then {0} else {}) \<union> Suc ` ?S" (is "?L = ?R")
  proof (rule set_eqI)
    show "i \<in> ?L \<longleftrightarrow> i \<in> ?R" for i
      unfolding S by (cases i) (auto simp: bit_u64_drop)
  qed
  then have "card ?L = (if bit ?v 0 \<noteq> prev then 1 else 0) + card ?S"
    by (simp add: card_image card_Un_disjoint)
  moreover have "?S = {}" if "?v = 0" using that by simp
  ultimately show ?case
    using Suc.IH [of ?v "bit ?v 0"] by (auto simp: Let_def)
qed simp

lemma bit_transitions_count:
  "bit_transitions v s = int (card {i. Suc i < nat (8 * s) \<and> bit v (Suc i) \<noteq> bit v i})"
proof -
  have "{i. i < nat (8 * s - 1) \<and> bit v (Suc i) \<noteq> (if i = 0 then bit v 0 else bit v i)}
      = {i. Suc i < nat (8 * s) \<and> bit v (Suc i) \<noteq> bit v i}" by auto
  then show ?thesis by (simp add: bit_transitions_def bit_transitions_loop_count)
qed

section \<open>Words of a byte size as integers\<close>

lemma uint_take_word: "n \<le> LENGTH('a) \<Longrightarrow> uint (take_bit n (word_of_int k :: 'a::len word)) = k mod 2 ^ n"
  by (simp add: unsigned_take_bit_eq uint_word_of_int_eq min_def flip: take_bit_eq_mod)

lemma uint_take: "n \<le> 64 \<Longrightarrow> uint (take_bit n (word_of_int k :: u64)) = k mod 2 ^ n"
  using uint_take_word [where 'a = 64, of n k] by simp

lemma sint_signed_take:
  "m < LENGTH('a) \<Longrightarrow> sint (signed_take_bit m (a :: 'a::len word)) = signed_take_bit m (uint a)"
  by (rule bit_eqI)
    (auto simp: bit_sint_iff bit_signed_take_bit_iff bit_uint_iff min_def dest: bit_imp_le_length)

lemma le_calc_mask_uint:
  assumes "valid_size s"
  shows "v \<le> calc_mask s \<longleftrightarrow> uint v < 2 ^ (8 * nat s)"
proof -
  have "v \<le> calc_mask s \<longleftrightarrow> take_bit (8 * nat s) (uint v) = uint v"
    unfolding le_calc_mask_iff [OF assms] by (simp add: word_uint_eq_iff unsigned_take_bit_eq)
  also have "\<dots> \<longleftrightarrow> uint v < 2 ^ (8 * nat s)"
    by (simp add: take_bit_int_eq_self_iff)
  finally show ?thesis .
qed

lemma uint_and_calc_mask:
  "valid_size s \<Longrightarrow> uint (word_of_int k AND calc_mask s) = k mod 2 ^ (8 * nat s)"
  using nat_size_bounds [of s] by (simp add: and_calc_mask uint_take)

lemma word_arith_of_int:
  "(a :: u64) + b = word_of_int (uint a + uint b)"
  "a - b = word_of_int (uint a - uint b)"
  "a * b = word_of_int (uint a * uint b)"
  by (simp_all only: word_add_def word_sub_wi word_mult_def)

lemma size_pos: "valid_size s \<Longrightarrow> 0 < 8 * nat s"
  by (simp add: valid_size_def)

lemma bit_uint_u64: "bit (uint (a :: u64)) n \<longleftrightarrow> bit a n"
  by (auto simp: bit_uint_iff dest: bit_u64_lt)

lemma mod_sum_cases:
  assumes "0 \<le> x" "x < N" "0 \<le> y" "y < (N :: int)"
  shows "(x + y) mod N = (if N \<le> x + y then x + y - N else x + y)"
    "(x - y) mod N = (if x < y then x - y + N else x - y)"
  using assms mod_pos_pos_trivial [of "x + y - N" N] mod_pos_pos_trivial [of "x - y + N" N] by auto

lemma uint_mod_arith:
  assumes "valid_size s"
  shows "uint ((a :: u64) + b) mod 2 ^ (8 * nat s) = (uint a + uint b) mod 2 ^ (8 * nat s)"
    "uint (a - b) mod 2 ^ (8 * nat s) = (uint a - uint b) mod 2 ^ (8 * nat s)"
proof -
  have "uint (word_of_int k :: u64) mod 2 ^ (8 * nat s) = k mod 2 ^ (8 * nat s)" for k
    using uint_and_calc_mask [OF assms, of k] unfolding and_calc_mask [OF assms] unsigned_take_bit_eq
    by (simp only: take_bit_eq_mod)
  then show "uint (a + b) mod 2 ^ (8 * nat s) = (uint a + uint b) mod 2 ^ (8 * nat s)"
    "uint (a - b) mod 2 ^ (8 * nat s) = (uint a - uint b) mod 2 ^ (8 * nat s)"
    by (simp_all only: word_arith_of_int)
qed

lemma uint_drop: "uint (drop_bit k (a :: u64)) = uint a div 2 ^ k"
  by (rule bit_eqI) (simp add: bit_uint_u64 bit_u64_drop bit_drop_bit_eq add.commute flip: drop_bit_eq_div)

lemma and_eq_right_iff: "v AND w = w \<longleftrightarrow> (\<forall>i. bit w i \<longrightarrow> bit (v :: u64) i)"
proof
  assume "\<forall>i. bit w i \<longrightarrow> bit v i"
  then show "v AND w = w" by (intro u64_bit_eqI) (auto simp: bit_and_iff)
qed (metis bit_and_iff)

lemma u64_take_self_iff: "take_bit n v = v \<longleftrightarrow> (\<forall>i. bit (v :: u64) i \<longrightarrow> i < n)"
proof
  assume "\<forall>i. bit v i \<longrightarrow> i < n"
  then show "take_bit n v = v" by (intro u64_bit_eqI) (auto simp: bit_u64_take)
qed (metis bit_u64_take)

lemma take_bit_arith:
  assumes "valid_size s"
  shows "take_bit (8 * nat s) (take_bit (8 * nat s) u + w) = take_bit (8 * nat s) (u + w :: u64)"
    "take_bit (8 * nat s) (take_bit (8 * nat s) u - w) = take_bit (8 * nat s) (u - w)"
    "take_bit (8 * nat s) (u - take_bit (8 * nat s) w) = take_bit (8 * nat s) (u - w)"
proof -
  have t: "uint (take_bit (8 * nat s) x) = uint x mod 2 ^ (8 * nat s)" for x :: u64
    by (subst unsigned_take_bit_eq) (rule take_bit_eq_mod)
  show "take_bit (8 * nat s) (take_bit (8 * nat s) u + w) = take_bit (8 * nat s) (u + w :: u64)"
    "take_bit (8 * nat s) (take_bit (8 * nat s) u - w) = take_bit (8 * nat s) (u - w)"
    "take_bit (8 * nat s) (u - take_bit (8 * nat s) w) = take_bit (8 * nat s) (u - w)"
    by (simp_all only: word_uint_eq_iff t uint_mod_arith [OF assms]
        mod_add_left_eq mod_diff_left_eq mod_diff_right_eq)
qed

lemmas fits_iff = le_calc_mask_iff [unfolded u64_take_self_iff]

section \<open>Properties\<close>

text \<open>\<open>sign_extend_size\<close>, for input and output sizes of one to eight bytes with the input not
  wider than the output, reads the low \<open>sizein\<close> bytes as a two's complement number and returns that
  number modulo \<open>2 ^ (8 * sizeout)\<close>, whatever the bytes above \<open>sizein\<close> hold.\<close>

theorem sign_extend_size_correct:
  assumes "valid_size si" "valid_size so" "si \<le> so"
  shows "uint (sign_extend_size v si so) =
    signed_take_bit (8 * nat si - 1) (uint v) mod 2 ^ (8 * nat so)"
proof -
  have l: "8 * nat so \<le> LENGTH(64)" using nat_size_bounds [OF assms(2)] by simp
  show ?thesis
    unfolding sign_extend_size_bits [OF assms]
    by (rule bit_eqI)
      (use l in \<open>auto simp: bit_uint_iff bit_u64 bit_take_bit_iff bit_signed_take_bit_iff
         simp flip: take_bit_eq_mod dest: bit_u64_lt\<close>)
qed

theorem sign_extend_size_correct_witness:
  "uint (sign_extend_size 0x1280 1 2) = 0xff80"
  using sign_extend_size_correct [of 1 2 "0x1280"]
  by (simp add: valid_size_def signed_take_bit_def take_bit_eq_mod flip: minus_exp_eq_not_mask)

text \<open>\<open>byte_swap\<close> on one to eight bytes reverses them: byte \<open>i\<close> of the result is byte
  \<open>size - 1 - i\<close> of the input, nothing is set above the \<open>size\<close> bytes, and swapping a value of that
  size twice gives it back.\<close>

theorem byte_swap_reverses:
  assumes "valid_size s"
  shows "(\<forall>i < nat s. take_bit 8 (drop_bit (8 * i) (byte_swap v s))
              = take_bit 8 (drop_bit (8 * (nat s - 1 - i)) v))
    \<and> byte_swap v s \<le> calc_mask s
    \<and> (v \<le> calc_mask s \<longrightarrow> byte_swap (byte_swap v s) s = v)"
proof (intro conjI allI impI)
  fix i assume i: "i < nat s"
  have "(n + 8 * i) div 8 = i" "(n + 8 * i) mod 8 = n" if "n < 8" for n using that by auto
  then show "take_bit 8 (drop_bit (8 * i) (byte_swap v s))
      = take_bit 8 (drop_bit (8 * (nat s - 1 - i)) v)"
    using i assms
    by (intro u64_bit_eqI) (auto simp: bit_u64 bit_byte_swap valid_size_def add.commute)
next
  show "byte_swap v s \<le> calc_mask s"
    unfolding le_calc_mask_iff [OF assms] using assms
    by (intro u64_bit_eqI) (auto simp: bit_u64 bit_byte_swap valid_size_def)
next
  assume "v \<le> calc_mask s"
  then show "byte_swap (byte_swap v s) s = v"
    by (simp add: byte_swap_twice [OF assms] le_calc_mask_iff [OF assms])
qed

theorem byte_swap_reverses_witness:
  "valid_size 3 \<and> (0x112233 :: u64) \<le> calc_mask 3 \<and> byte_swap (byte_swap 0x112233 3) 3 = 0x112233"
proof -
  have "valid_size 3" "(0x112233 :: u64) \<le> calc_mask 3"
    by (simp_all add: valid_size_def calc_mask_def UINTBMASKS_def as_u32_def)
  then show ?thesis using byte_swap_reverses [of 3 "0x112233"] by blast
qed

text \<open>\<open>coveringmask\<close> returns the mask of all bits up to the highest set bit, the one
  \<open>mostsigbit_set\<close> finds (and zero for zero).\<close>

theorem coveringmask_correct: "coveringmask v = mask (nat (mostsigbit_set v + 1))"
proof (cases "v = 0")
  case True
  have "coveringmask 0 = 0" by (rule u64_bit_eqI) (simp add: bit_coveringmask)
  then show ?thesis using True by (simp add: mostsigbit_set_def)
next
  case False
  note h = mostsigbit_set_highest [OF False]
  have "nat (mostsigbit_set v + 1) = Suc (nat (mostsigbit_set v))" using h by simp
  moreover have "(\<exists>m\<ge>n. bit v m) \<longleftrightarrow> n \<le> nat (mostsigbit_set v)" for n
    using h(3,4) by (metis not_le order_trans)
  ultimately show ?thesis
    by (intro u64_bit_eqI) (simp add: bit_coveringmask bit_u64 less_Suc_eq_le)
qed

end
