(* ===== verification/Opcodes.thy ===== *)
theory Opcodes
  imports Prelude
begin

text \<open>
  The p-code operations of src/src/opcodes.rs: the enumeration with its discriminants, the table of
  names, the binary search that maps a name back to its operation, and the table of complementary
  comparisons. The search is shown to agree with a linear scan of the name table on every string.
\<close>

section \<open>Definitions\<close>

datatype (plugins only: code size) opcode =
     Blank | Copy | Load | Store | Branch | Cbranch | Branchind | Call | Callind | Callother |
     Return | IntEqual | IntNotequal | IntSless | IntSlessequal | IntLess | IntLessequal | IntZext
     | IntSext | IntAdd | IntSub | IntCarry | IntScarry | IntSborrow | Int2comp | IntNegate |
     IntXor | IntAnd | IntOr | IntLeft | IntRight | IntSright | IntMult | IntDiv | IntSdiv |
     IntRem | IntSrem | BoolNegate | BoolXor | BoolAnd | BoolOr | FloatEqual | FloatNotequal |
     FloatLess | FloatLessequal | Unused1 | FloatNan | FloatAdd | FloatDiv | FloatMult | FloatSub
     | FloatNeg | FloatAbs | FloatSqrt | FloatInt2float | FloatFloat2float | FloatTrunc |
     FloatCeil | FloatFloor | FloatRound | Multiequal | Indirect | Piece | Subpiece | Cast |
     Ptradd | Ptrsub | Segmentop | Cpoolref | New | Insert | Zpull | Popcount | Lzcount | Spull |
     MaxOp

text \<open>The discriminant, \<open>opc as usize\<close>.\<close>

primrec index :: "opcode \<Rightarrow> nat" where
  "index Blank = 0"
| "index Copy = 1"
| "index Load = 2"
| "index Store = 3"
| "index Branch = 4"
| "index Cbranch = 5"
| "index Branchind = 6"
| "index Call = 7"
| "index Callind = 8"
| "index Callother = 9"
| "index Return = 10"
| "index IntEqual = 11"
| "index IntNotequal = 12"
| "index IntSless = 13"
| "index IntSlessequal = 14"
| "index IntLess = 15"
| "index IntLessequal = 16"
| "index IntZext = 17"
| "index IntSext = 18"
| "index IntAdd = 19"
| "index IntSub = 20"
| "index IntCarry = 21"
| "index IntScarry = 22"
| "index IntSborrow = 23"
| "index Int2comp = 24"
| "index IntNegate = 25"
| "index IntXor = 26"
| "index IntAnd = 27"
| "index IntOr = 28"
| "index IntLeft = 29"
| "index IntRight = 30"
| "index IntSright = 31"
| "index IntMult = 32"
| "index IntDiv = 33"
| "index IntSdiv = 34"
| "index IntRem = 35"
| "index IntSrem = 36"
| "index BoolNegate = 37"
| "index BoolXor = 38"
| "index BoolAnd = 39"
| "index BoolOr = 40"
| "index FloatEqual = 41"
| "index FloatNotequal = 42"
| "index FloatLess = 43"
| "index FloatLessequal = 44"
| "index Unused1 = 45"
| "index FloatNan = 46"
| "index FloatAdd = 47"
| "index FloatDiv = 48"
| "index FloatMult = 49"
| "index FloatSub = 50"
| "index FloatNeg = 51"
| "index FloatAbs = 52"
| "index FloatSqrt = 53"
| "index FloatInt2float = 54"
| "index FloatFloat2float = 55"
| "index FloatTrunc = 56"
| "index FloatCeil = 57"
| "index FloatFloor = 58"
| "index FloatRound = 59"
| "index Multiequal = 60"
| "index Indirect = 61"
| "index Piece = 62"
| "index Subpiece = 63"
| "index Cast = 64"
| "index Ptradd = 65"
| "index Ptrsub = 66"
| "index Segmentop = 67"
| "index Cpoolref = 68"
| "index New = 69"
| "index Insert = 70"
| "index Zpull = 71"
| "index Popcount = 72"
| "index Lzcount = 73"
| "index Spull = 74"
| "index MaxOp = 75"

definition OPCODE_TABLE :: "opcode list" where
  "OPCODE_TABLE =
     [Blank, Copy, Load, Store, Branch, Cbranch, Branchind, Call, Callind, Callother, Return,
     IntEqual, IntNotequal, IntSless, IntSlessequal, IntLess, IntLessequal, IntZext, IntSext,
     IntAdd, IntSub, IntCarry, IntScarry, IntSborrow, Int2comp, IntNegate, IntXor, IntAnd, IntOr,
     IntLeft, IntRight, IntSright, IntMult, IntDiv, IntSdiv, IntRem, IntSrem, BoolNegate, BoolXor,
     BoolAnd, BoolOr, FloatEqual, FloatNotequal, FloatLess, FloatLessequal, Unused1, FloatNan,
     FloatAdd, FloatDiv, FloatMult, FloatSub, FloatNeg, FloatAbs, FloatSqrt, FloatInt2float,
     FloatFloat2float, FloatTrunc, FloatCeil, FloatFloor, FloatRound, Multiequal, Indirect, Piece,
     Subpiece, Cast, Ptradd, Ptrsub, Segmentop, Cpoolref, New, Insert, Zpull, Popcount, Lzcount,
     Spull, MaxOp]"

definition OPCODE_NAME :: "string list" where
  "OPCODE_NAME =
     [''BLANK'', ''COPY'', ''LOAD'', ''STORE'', ''BRANCH'', ''CBRANCH'', ''BRANCHIND'', ''CALL'',
     ''CALLIND'', ''CALLOTHER'', ''RETURN'', ''INT_EQUAL'', ''INT_NOTEQUAL'', ''INT_SLESS'',
     ''INT_SLESSEQUAL'', ''INT_LESS'', ''INT_LESSEQUAL'', ''INT_ZEXT'', ''INT_SEXT'', ''INT_ADD'',
     ''INT_SUB'', ''INT_CARRY'', ''INT_SCARRY'', ''INT_SBORROW'', ''INT_2COMP'', ''INT_NEGATE'',
     ''INT_XOR'', ''INT_AND'', ''INT_OR'', ''INT_LEFT'', ''INT_RIGHT'', ''INT_SRIGHT'',
     ''INT_MULT'', ''INT_DIV'', ''INT_SDIV'', ''INT_REM'', ''INT_SREM'', ''BOOL_NEGATE'',
     ''BOOL_XOR'', ''BOOL_AND'', ''BOOL_OR'', ''FLOAT_EQUAL'', ''FLOAT_NOTEQUAL'', ''FLOAT_LESS'',
     ''FLOAT_LESSEQUAL'', ''UNUSED1'', ''FLOAT_NAN'', ''FLOAT_ADD'', ''FLOAT_DIV'',
     ''FLOAT_MULT'', ''FLOAT_SUB'', ''FLOAT_NEG'', ''FLOAT_ABS'', ''FLOAT_SQRT'', ''INT2FLOAT'',
     ''FLOAT2FLOAT'', ''TRUNC'', ''CEIL'', ''FLOOR'', ''ROUND'', ''BUILD'', ''DELAY_SLOT'',
     ''PIECE'', ''SUBPIECE'', ''CAST'', ''LABEL'', ''CROSSBUILD'', ''SEGMENTOP'', ''CPOOLREF'',
     ''NEW'', ''INSERT'', ''EXTRACT'', ''POPCOUNT'', ''LZCOUNT'']"

definition OPCODE_INDICES :: "nat list" where
  "OPCODE_INDICES =
     [0, 39, 37, 40, 38, 4, 6, 60, 7, 8, 9, 64, 5, 57, 1, 68, 66, 61, 71, 55, 52, 47, 48, 41, 43,
     44, 49, 46, 51, 42, 53, 50, 58, 70, 54, 24, 19, 27, 21, 33, 11, 29, 15, 16, 32, 25, 12, 28,
     35, 30, 23, 22, 34, 18, 13, 14, 36, 31, 20, 26, 17, 65, 2, 73, 69, 62, 72, 10, 59, 67, 3, 63,
     56, 45]"

definition from_index :: "int \<Rightarrow> opcode option" where
  "from_index value =
     (if 0 \<le> value \<and> value \<le> 75 then Some (OPCODE_TABLE ! nat value) else None)"

definition get_opname :: "opcode \<Rightarrow> string" where
  "get_opname opc = (if index opc < length OPCODE_NAME then OPCODE_NAME ! index opc else [])"

text \<open>The \<open>while min <= max\<close> loop of \<open>get_opcode\<close>, with its early returns.\<close>

function get_opcode_loop :: "string \<Rightarrow> i32 \<Rightarrow> i32 \<Rightarrow> opcode" where
  "get_opcode_loop nm lo hi =
     (if lo \<le> hi then
        let cur = (lo + hi) div 2 in
        if nat cur < length OPCODE_INDICES then
          let ind = OPCODE_INDICES ! nat cur; candidate = OPCODE_NAME ! ind in
          case cmp_bytes candidate nm of
            Less \<Rightarrow> get_opcode_loop nm (cur + 1) hi
          | Greater \<Rightarrow> get_opcode_loop nm lo (cur - 1)
          | Equal \<Rightarrow> OPCODE_TABLE ! ind
        else Blank
      else Blank)"
  by pat_completeness auto
termination
  by (relation "measure (\<lambda>(nm, lo, hi). nat (hi + 1 - lo))") auto

declare get_opcode_loop.simps [simp del]

definition get_opcode :: "string \<Rightarrow> opcode" where
  "get_opcode nm = get_opcode_loop nm 1 (int (index MaxOp) - 1)"

fun get_booleanflip :: "opcode \<Rightarrow> (opcode \<times> bool) option" where
  "get_booleanflip opc = (case opc of
     IntEqual \<Rightarrow> Some (IntNotequal, False)
   | IntNotequal \<Rightarrow> Some (IntEqual, False)
   | IntSless \<Rightarrow> Some (IntSlessequal, True)
   | IntSlessequal \<Rightarrow> Some (IntSless, True)
   | IntLess \<Rightarrow> Some (IntLessequal, True)
   | IntLessequal \<Rightarrow> Some (IntLess, True)
   | BoolNegate \<Rightarrow> Some (Copy, False)
   | FloatEqual \<Rightarrow> Some (FloatNotequal, False)
   | FloatNotequal \<Rightarrow> Some (FloatEqual, False)
   | FloatLess \<Rightarrow> Some (FloatLessequal, True)
   | FloatLessequal \<Rightarrow> Some (FloatLess, True)
   | _ \<Rightarrow> None)"

section \<open>The tables\<close>

lemma table_lengths [simp]:
  "length OPCODE_TABLE = 76" "length OPCODE_NAME = 74" "length OPCODE_INDICES = 74"
  by (simp_all add: OPCODE_TABLE_def OPCODE_NAME_def OPCODE_INDICES_def)

lemma index_lt: "index opc < 76"
  by (cases opc) simp_all

lemma table_index: "OPCODE_TABLE ! index opc = opc"
  by (cases opc) (simp_all add: OPCODE_TABLE_def)

lemma map_index_table: "map index OPCODE_TABLE = [0..<76]"
  by code_simp

lemma index_table: "i < 76 \<Longrightarrow> index (OPCODE_TABLE ! i) = i"
  using arg_cong [OF map_index_table, of "\<lambda>xs. xs ! i"] by (simp del: upt_rec_numeral)

text \<open>The key the search compares at position \<open>i\<close>.\<close>

definition search_key :: "nat \<Rightarrow> string" where
  "search_key i = OPCODE_NAME ! (OPCODE_INDICES ! i)"

lemma keys_successively:
  "successively (\<lambda>a b. cmp_bytes a b = Less) (map ((!) OPCODE_NAME) OPCODE_INDICES)"
  by code_simp

lemma keys_sorted: "i < j \<Longrightarrow> j < 74 \<Longrightarrow> cmp_bytes (search_key i) (search_key j) = Less"
proof -
  assume ij: "i < j" "j < 74"
  have "sorted_wrt (\<lambda>a b. cmp_bytes a b = Less) (map ((!) OPCODE_NAME) OPCODE_INDICES)"
    using keys_successively cmp_bytes_trans
    by (subst (asm) successively_iff_sorted_wrt_strong) blast+
  then show ?thesis
    using ij sorted_wrt_nth_less [of _ "map ((!) OPCODE_NAME) OPCODE_INDICES" i j]
    by (simp add: search_key_def)
qed

lemma indices_sort: "sort OPCODE_INDICES = [0..<74]"
  by code_simp

lemma indices_set: "set OPCODE_INDICES = {0..<74}"
  by (metis indices_sort set_sort atLeastLessThan_upt)

lemma indices_hd: "OPCODE_INDICES ! 0 = 0"
  by (simp add: OPCODE_INDICES_def)

lemma search_key_inj: "i < 74 \<Longrightarrow> j < 74 \<Longrightarrow> search_key i = search_key j \<Longrightarrow> i = j"
  using keys_sorted cmp_bytes_Equal by (metis linorder_neqE_nat ordering.distinct(1))

section \<open>The binary search\<close>

lemma get_opcode_loop_hit:
  assumes "1 \<le> lo" "lo \<le> int i" "int i \<le> hi" "hi \<le> 74" "i < 74" "search_key i = nm"
  shows "get_opcode_loop nm lo hi = OPCODE_TABLE ! (OPCODE_INDICES ! i)"
  using assms
proof (induction nm lo hi rule: get_opcode_loop.induct)
  case (1 nm lo hi)
  let ?c = "(lo + hi) div 2"
  have c: "lo \<le> hi" "nat ?c < 74" "0 \<le> ?c" using "1.prems" by linarith+
  have step: "get_opcode_loop nm lo hi = (case cmp_bytes (search_key (nat ?c)) nm of
      Less \<Rightarrow> get_opcode_loop nm (?c + 1) hi
    | Greater \<Rightarrow> get_opcode_loop nm lo (?c - 1)
    | Equal \<Rightarrow> OPCODE_TABLE ! (OPCODE_INDICES ! nat ?c))"
    using c by (subst get_opcode_loop.simps) (simp add: Let_def search_key_def)
  consider "nat ?c < i" | "nat ?c = i" | "i < nat ?c" by linarith
  then show ?case
  proof cases
    case 1
    with "1.prems" have "cmp_bytes (search_key (nat ?c)) nm = Less" by (metis keys_sorted)
    moreover have "?c + 1 \<le> int i" "1 \<le> ?c + 1" using 1 c by linarith+
    ultimately show ?thesis
      using "1.IH"(1) [OF c(1) refl _ refl refl] c "1.prems" by (simp add: step search_key_def)
  next
    case 2
    then show ?thesis using "1.prems" by (simp add: step)
  next
    case 3
    with "1.prems" c have "cmp_bytes (search_key (nat ?c)) nm = Greater"
      by (metis keys_sorted cmp_bytes_Greater)
    moreover have "int i \<le> ?c - 1" "?c - 1 \<le> 74" using 3 c "1.prems" by linarith+
    ultimately show ?thesis
      using "1.IH"(2) [OF c(1) refl _ refl refl] c "1.prems" by (simp add: step search_key_def)
  qed
qed

lemma get_opcode_loop_miss:
  assumes "\<And>i. lo \<le> int i \<Longrightarrow> int i \<le> hi \<Longrightarrow> i < 74 \<Longrightarrow> search_key i \<noteq> nm" "1 \<le> lo"
  shows "get_opcode_loop nm lo hi = Blank"
  using assms
proof (induction nm lo hi rule: get_opcode_loop.induct)
  case (1 nm lo hi)
  let ?c = "(lo + hi) div 2"
  show ?case
  proof (cases "lo \<le> hi \<and> nat ?c < 74")
    case True
    then have c: "lo \<le> hi" "nat ?c < 74" "0 \<le> ?c" "lo \<le> int (nat ?c)" "int (nat ?c) \<le> hi"
      using "1.prems"(2) by auto
    have ne: "search_key (nat ?c) \<noteq> nm" by (rule "1.prems"(1)) (use c in auto)
    have lo': "1 \<le> ?c + 1" using c by simp
    have "get_opcode_loop nm (?c + 1) hi = Blank" if "cmp_bytes (search_key (nat ?c)) nm = Less"
      using "1.IH"(1) [OF c(1) refl _ refl refl] that c lo' "1.prems"(1)
      by (simp add: search_key_def)
    moreover have "get_opcode_loop nm lo (?c - 1) = Blank"
      if "cmp_bytes (search_key (nat ?c)) nm = Greater"
      using "1.IH"(2) [OF c(1) refl _ refl refl] that c "1.prems"
      by (simp add: search_key_def)
    ultimately show ?thesis using c ne
      by (subst get_opcode_loop.simps)
        (auto simp add: Let_def search_key_def [symmetric] split: ordering.split)
  qed (subst get_opcode_loop.simps; auto simp: Let_def)
qed

text \<open>The reference: scan the names in the order of the enumeration.\<close>

definition linear_opcode :: "string \<Rightarrow> opcode" where
  "linear_opcode nm =
     (case find (\<lambda>i. OPCODE_NAME ! i = nm) [1..<74] of
        Some i \<Rightarrow> OPCODE_TABLE ! i | None \<Rightarrow> Blank)"

lemma OPCODE_NAME_inj:
  assumes "i < 74" "j < 74" "OPCODE_NAME ! i = OPCODE_NAME ! j"
  shows "i = j"
proof -
  have "\<exists>p<74. OPCODE_INDICES ! p = k" if "k < 74" for k
    using that indices_set by (metis atLeastLessThan_iff in_set_conv_nth le0 table_lengths(3))
  then obtain p q where "p < 74" "OPCODE_INDICES ! p = i" "q < 74" "OPCODE_INDICES ! q = j"
    using assms by metis
  then show ?thesis using assms(3) search_key_inj [of p q] by (auto simp: search_key_def)
qed

lemma linear_opcode_hit:
  assumes "1 \<le> i" "i < 74"
  shows "linear_opcode (OPCODE_NAME ! i) = OPCODE_TABLE ! i"
proof -
  have other: "OPCODE_NAME ! Suc j \<noteq> OPCODE_NAME ! i" if "j < i - 1" for j
  proof -
    have "Suc j < 74" "Suc j \<noteq> i" using that assms by linarith+
    then show ?thesis using assms OPCODE_NAME_inj [of "Suc j" i] by blast
  qed
  have "find (\<lambda>k. OPCODE_NAME ! k = OPCODE_NAME ! i) [1..<74] = Some i"
    unfolding find_Some_iff
    using assms other by (intro exI [of _ "i - 1"]) (auto simp del: upt_rec_numeral)
  then show ?thesis by (simp add: linear_opcode_def del: upt_rec_numeral)
qed

lemma get_opcode_linear: "get_opcode nm = linear_opcode nm"
proof (cases "\<exists>i. 1 \<le> i \<and> i < 74 \<and> search_key i = nm")
  case True
  then obtain i where i: "1 \<le> i" "i < 74" "search_key i = nm" by blast
  have "OPCODE_INDICES ! i < 74" using i(2) indices_set by (metis atLeastLessThan_iff nth_mem table_lengths(3))
  moreover have "OPCODE_INDICES ! i \<noteq> 0"
    using i search_key_inj [of i 0] indices_hd by (metis search_key_def not_one_le_zero zero_less_numeral)
  ultimately have "linear_opcode nm = OPCODE_TABLE ! (OPCODE_INDICES ! i)"
    using i(3) linear_opcode_hit [of "OPCODE_INDICES ! i"] by (simp add: search_key_def)
  then show ?thesis using i by (simp add: get_opcode_def get_opcode_loop_hit [of 1 i])
next
  case False
  have "OPCODE_NAME ! k \<noteq> nm" if k: "1 \<le> k" "k < 74" for k
  proof -
    obtain p where p: "p < 74" "OPCODE_INDICES ! p = k"
      using k indices_set by (metis atLeastLessThan_iff in_set_conv_nth le0 table_lengths(3))
    then have "1 \<le> p" using k indices_hd by (cases p) auto
    then show ?thesis using False p by (auto simp: search_key_def)
  qed
  then have "find (\<lambda>k. OPCODE_NAME ! k = nm) [1..<74] = None"
    by (auto simp: find_None_iff simp del: upt_rec_numeral)
  then have "linear_opcode nm = Blank" by (simp add: linear_opcode_def del: upt_rec_numeral)
  moreover have "get_opcode nm = Blank"
    unfolding get_opcode_def by (rule get_opcode_loop_miss) (use False in auto)
  ultimately show ?thesis by simp
qed

lemma linear_opcode_cases:
  "linear_opcode nm = Blank \<or> (\<exists>i. 1 \<le> i \<and> i < 74 \<and> nm = OPCODE_NAME ! i \<and> linear_opcode nm = OPCODE_TABLE ! i)"
  by (auto simp: linear_opcode_def find_Some_iff simp del: upt_rec_numeral split: option.split)

lemma table_neq_Blank: "1 \<le> i \<Longrightarrow> i < 76 \<Longrightarrow> OPCODE_TABLE ! i \<noteq> Blank"
  using index_table [of i] by auto

lemma named_index: "index opc < 74 \<and> index opc \<noteq> 0 \<longleftrightarrow> opc \<noteq> Blank \<and> opc \<noteq> Spull \<and> opc \<noteq> MaxOp"
  by (cases opc) simp_all

section \<open>Properties\<close>

text \<open>\<open>get_opcode\<close> and \<open>get_opname\<close> are inverse on the named operations: the binary search
  finds operation \<open>opc\<close> (other than \<open>Blank\<close>) for exactly one byte string, its name, and it finds every
  operation except \<open>Spull\<close> and \<open>Max\<close>, for which the name table has no entry.\<close>

theorem get_opcode_iff:
  "(get_opcode nm = opc \<and> opc \<noteq> Blank) \<longleftrightarrow>
     (get_opname opc = nm \<and> opc \<noteq> Blank \<and> opc \<noteq> Spull \<and> opc \<noteq> MaxOp)"
proof -
  have hit: "linear_opcode (get_opname o') = o'" if "index o' < 74" "index o' \<noteq> 0" for o'
    using that linear_opcode_hit [of "index o'"] by (simp add: get_opname_def table_index)
  have "get_opname opc = nm \<and> index opc < 74 \<and> index opc \<noteq> 0"
    if a: "linear_opcode nm = opc" "opc \<noteq> Blank"
  proof -
    obtain i where "1 \<le> i" "i < 74" "nm = OPCODE_NAME ! i" "opc = OPCODE_TABLE ! i"
      using linear_opcode_cases [of nm] a by auto
    then show ?thesis by (simp add: get_opname_def index_table)
  qed
  then show ?thesis unfolding get_opcode_linear using hit [of opc] named_index [of opc] by metis
qed

end
