(* ===== verification/Op_Behavior.thy ===== *)
theory Op_Behavior
  imports Bits Opcodes "HOL-Library.Signed_Division"
begin

text \<open>
  The p-code arithmetic of src/src/opbehavior.rs. A behaviour (a value of a type implementing the
  trait \<open>OpBehavior\<close>) is the record of its methods; \<open>op_behavior_default\<close> holds the bodies the
  trait gives to methods that a behaviour does not define. The floating-point behaviours call methods
  of \<open>FloatFormat\<close> (src/src/float.rs, host arithmetic on \<open>f64\<close>), which are the fields of the
  parameter record \<open>float_ops\<close>. The lemmas relate the integer behaviours to arithmetic on
  mathematical integers and to their \<open>recover_input\<close> methods.
\<close>

section \<open>The behaviour trait\<close>

record op_behavior =
  ob_opcode :: opcode
  ob_special :: bool
  ob_unary :: bool
  evaluate_unary :: "i32 \<Rightarrow> i32 \<Rightarrow> u64 \<Rightarrow> u64 result"
  evaluate_binary :: "i32 \<Rightarrow> i32 \<Rightarrow> u64 \<Rightarrow> u64 \<Rightarrow> u64 result"
  evaluate_ternary :: "i32 \<Rightarrow> i32 \<Rightarrow> u64 \<Rightarrow> u64 \<Rightarrow> u64 \<Rightarrow> u64 result"
  recover_input_binary :: "i32 \<Rightarrow> i32 \<Rightarrow> u64 \<Rightarrow> i32 \<Rightarrow> u64 \<Rightarrow> u64 result"
  recover_input_unary :: "i32 \<Rightarrow> u64 \<Rightarrow> i32 \<Rightarrow> u64 result"

definition lossy_recovery :: error where
  "lossy_recovery = Lowlevel ''Cannot recover input parameter without loss of information''"

definition unary_unimplemented :: "opcode \<Rightarrow> error" where
  "unary_unimplemented opc = Lowlevel (''Unary emulation unimplemented for '' @ get_opname opc)"

definition binary_unimplemented :: "opcode \<Rightarrow> error" where
  "binary_unimplemented opc = Lowlevel (''Binary emulation unimplemented for '' @ get_opname opc)"

definition op_behavior_default :: "opcode \<Rightarrow> bool \<Rightarrow> op_behavior" where
  "op_behavior_default opc isunary =
     \<lparr>ob_opcode = opc, ob_special = False, ob_unary = isunary,
      evaluate_unary = (\<lambda>_ _ _. Inl (Lowlevel (''Unary emulation unimplemented for '' @ get_opname opc))),
      evaluate_binary = (\<lambda>_ _ _ _. Inl (Lowlevel (''Binary emulation unimplemented for '' @ get_opname opc))),
      evaluate_ternary = (\<lambda>_ _ _ _ _. Inl (Lowlevel (''Ternary emulation unimplemented for '' @ get_opname opc))),
      recover_input_binary = (\<lambda>_ _ _ _ _. Inl lossy_recovery),
      recover_input_unary = (\<lambda>_ _ _. Inl lossy_recovery)\<rparr>"

definition OpBehaviorGeneric_new :: "opcode \<Rightarrow> bool \<Rightarrow> op_behavior" where
  "OpBehaviorGeneric_new opc isunary = op_behavior_default opc isunary"

definition OpBehaviorGeneric_new_special :: "opcode \<Rightarrow> bool \<Rightarrow> bool \<Rightarrow> op_behavior" where
  "OpBehaviorGeneric_new_special opc isunary isspecial =
     (op_behavior_default opc isunary)\<lparr>ob_special := isspecial\<rparr>"

section \<open>Integer behaviours\<close>

definition OpBehaviorCopy :: op_behavior where
  "OpBehaviorCopy = (op_behavior_default Copy True)
     \<lparr>evaluate_unary := \<lambda>_ _ in1. Inr in1,
      recover_input_unary := \<lambda>_ out _. Inr out\<rparr>"

definition OpBehaviorEqual :: op_behavior where
  "OpBehaviorEqual = (op_behavior_default IntEqual False)
     \<lparr>evaluate_binary := \<lambda>_ _ in1 in2. Inr (of_flag (in1 = in2))\<rparr>"

definition OpBehaviorNotEqual :: op_behavior where
  "OpBehaviorNotEqual = (op_behavior_default IntNotequal False)
     \<lparr>evaluate_binary := \<lambda>_ _ in1 in2. Inr (of_flag (in1 \<noteq> in2))\<rparr>"

definition signed_less :: "i32 \<Rightarrow> u64 \<Rightarrow> u64 \<Rightarrow> bool \<Rightarrow> u64" where
  "signed_less sizein in1 in2 or_equal =
     (if sizein \<le> 0 then 0
      else let msk = wshl 0x80 (8 * (sizein - 1)); bit1 = in1 AND msk; bit2 = in2 AND msk in
        if bit1 \<noteq> bit2 then of_flag (bit1 \<noteq> 0)
        else if or_equal then of_flag (in1 \<le> in2)
        else of_flag (in1 < in2))"

definition OpBehaviorIntSless :: op_behavior where
  "OpBehaviorIntSless = (op_behavior_default IntSless False)
     \<lparr>evaluate_binary := \<lambda>_ sizein in1 in2. Inr (signed_less sizein in1 in2 False)\<rparr>"

definition OpBehaviorIntSlessEqual :: op_behavior where
  "OpBehaviorIntSlessEqual = (op_behavior_default IntSlessequal False)
     \<lparr>evaluate_binary := \<lambda>_ sizein in1 in2. Inr (signed_less sizein in1 in2 True)\<rparr>"

definition OpBehaviorIntLess :: op_behavior where
  "OpBehaviorIntLess = (op_behavior_default IntLess False)
     \<lparr>evaluate_binary := \<lambda>_ _ in1 in2. Inr (of_flag (in1 < in2))\<rparr>"

definition OpBehaviorIntLessEqual :: op_behavior where
  "OpBehaviorIntLessEqual = (op_behavior_default IntLessequal False)
     \<lparr>evaluate_binary := \<lambda>_ _ in1 in2. Inr (of_flag (in1 \<le> in2))\<rparr>"

definition zext_recover :: "i32 \<Rightarrow> u64 \<Rightarrow> i32 \<Rightarrow> u64 result" where
  "zext_recover sizeout out sizein =
     (let msk = calc_mask sizein in
      if msk AND out \<noteq> out then Inl (Evaluation ''Output is not in range of zext operation'')
      else Inr out)"

definition OpBehaviorIntZext :: op_behavior where
  "OpBehaviorIntZext = (op_behavior_default IntZext True)
     \<lparr>evaluate_unary := \<lambda>_ _ in1. Inr in1,
      recover_input_unary := zext_recover\<rparr>"

definition sext_recover :: "i32 \<Rightarrow> u64 \<Rightarrow> i32 \<Rightarrow> u64 result" where
  "sext_recover sizeout out sizein =
     (let masklong = calc_mask sizeout; maskshort = calc_mask sizein in
      if out AND (maskshort XOR drop_bit 1 maskshort) = 0 then
        (if out AND maskshort \<noteq> out
         then Inl (Evaluation ''Output is not in range of sext operation'')
         else Inr (out AND maskshort))
      else if out AND (masklong XOR maskshort) \<noteq> masklong XOR maskshort
         then Inl (Evaluation ''Output is not in range of sext operation'')
      else Inr (out AND maskshort))"

definition OpBehaviorIntSext :: op_behavior where
  "OpBehaviorIntSext = (op_behavior_default IntSext True)
     \<lparr>evaluate_unary := \<lambda>sizeout sizein in1. Inr (sign_extend_size in1 sizein sizeout),
      recover_input_unary := sext_recover\<rparr>"

definition OpBehaviorIntAdd :: op_behavior where
  "OpBehaviorIntAdd = (op_behavior_default IntAdd False)
     \<lparr>evaluate_binary := \<lambda>sizeout _ in1 in2. Inr ((in1 + in2) AND calc_mask sizeout),
      recover_input_binary := \<lambda>_ sizeout out _ input. Inr ((out - input) AND calc_mask sizeout)\<rparr>"

definition sub_recover :: "i32 \<Rightarrow> i32 \<Rightarrow> u64 \<Rightarrow> i32 \<Rightarrow> u64 \<Rightarrow> u64 result" where
  "sub_recover slot sizeout out sizein input =
     (let res = (if slot = 0 then input + out else input - out) in Inr (res AND calc_mask sizeout))"

definition OpBehaviorIntSub :: op_behavior where
  "OpBehaviorIntSub = (op_behavior_default IntSub False)
     \<lparr>evaluate_binary := \<lambda>sizeout _ in1 in2. Inr ((in1 - in2) AND calc_mask sizeout),
      recover_input_binary := sub_recover\<rparr>"

definition OpBehaviorIntCarry :: op_behavior where
  "OpBehaviorIntCarry = (op_behavior_default IntCarry False)
     \<lparr>evaluate_binary := \<lambda>_ sizein in1 in2.
        Inr (of_flag (in1 > ((in1 + in2) AND calc_mask sizein)))\<rparr>"

definition sign_bit_of :: "u64 \<Rightarrow> i32 \<Rightarrow> u32" where
  "sign_bit_of val sizein = ucast (wshr val (sizein * 8 - 1) AND 1)"

definition scarry_evaluate :: "i32 \<Rightarrow> i32 \<Rightarrow> u64 \<Rightarrow> u64 \<Rightarrow> u64 result" where
  "scarry_evaluate sizeout sizein in1 in2 =
     (let res = in1 + in2;
          first = sign_bit_of in1 sizein;
          second = sign_bit_of in2 sizein;
          r = sign_bit_of res sizein;
          r = r XOR first;
          first = first XOR second;
          first = first XOR 1;
          r = r AND first
      in Inr (ucast r))"

definition OpBehaviorIntScarry :: op_behavior where
  "OpBehaviorIntScarry = (op_behavior_default IntScarry False)\<lparr>evaluate_binary := scarry_evaluate\<rparr>"

definition sborrow_evaluate :: "i32 \<Rightarrow> i32 \<Rightarrow> u64 \<Rightarrow> u64 \<Rightarrow> u64 result" where
  "sborrow_evaluate sizeout sizein in1 in2 =
     (let res = in1 - in2;
          first = sign_bit_of in1 sizein;
          second = sign_bit_of in2 sizein;
          r = sign_bit_of res sizein;
          first = first XOR r;
          r = r XOR second;
          r = r XOR 1;
          first = first AND r
      in Inr (ucast first))"

definition OpBehaviorIntSborrow :: op_behavior where
  "OpBehaviorIntSborrow = (op_behavior_default IntSborrow False)\<lparr>evaluate_binary := sborrow_evaluate\<rparr>"

definition OpBehaviorInt2Comp :: op_behavior where
  "OpBehaviorInt2Comp = (op_behavior_default Int2comp True)
     \<lparr>evaluate_unary := \<lambda>_ sizein in1. Inr (uintb_negate (in1 - 1) sizein),
      recover_input_unary := \<lambda>_ out sizein. Inr (uintb_negate (out - 1) sizein)\<rparr>"

definition OpBehaviorIntNegate :: op_behavior where
  "OpBehaviorIntNegate = (op_behavior_default IntNegate True)
     \<lparr>evaluate_unary := \<lambda>_ sizein in1. Inr (uintb_negate in1 sizein),
      recover_input_unary := \<lambda>_ out sizein. Inr (uintb_negate out sizein)\<rparr>"

definition OpBehaviorIntXor :: op_behavior where
  "OpBehaviorIntXor = (op_behavior_default IntXor False)
     \<lparr>evaluate_binary := \<lambda>_ _ in1 in2. Inr (in1 XOR in2)\<rparr>"

definition OpBehaviorIntAnd :: op_behavior where
  "OpBehaviorIntAnd = (op_behavior_default IntAnd False)
     \<lparr>evaluate_binary := \<lambda>_ _ in1 in2. Inr (in1 AND in2)\<rparr>"

definition OpBehaviorIntOr :: op_behavior where
  "OpBehaviorIntOr = (op_behavior_default IntOr False)
     \<lparr>evaluate_binary := \<lambda>_ _ in1 in2. Inr (in1 OR in2)\<rparr>"

definition left_evaluate :: "i32 \<Rightarrow> i32 \<Rightarrow> u64 \<Rightarrow> u64 \<Rightarrow> u64 result" where
  "left_evaluate sizeout sizein in1 in2 =
     (if in2 \<ge> cxx_int (wrap_i32 (sizeout * 8)) then Inr 0
      else Inr (wshl in1 (as_u32 (uint in2)) AND calc_mask sizeout))"

definition left_recover :: "i32 \<Rightarrow> i32 \<Rightarrow> u64 \<Rightarrow> i32 \<Rightarrow> u64 \<Rightarrow> u64 result" where
  "left_recover slot sizeout out sizein input =
     (if slot \<noteq> 0 \<or> input \<ge> cxx_int (wrap_i32 (sizeout * 8)) then Inl lossy_recovery
      else let shift_amount = wrap_i32 (uint input);
               shifted = wshl out (sizeout * 8 - shift_amount) in
        if shifted AND calc_mask sizeout \<noteq> 0
        then Inl (Evaluation ''Output is not in range of left shift operation'')
        else Inr (wshr out shift_amount))"

definition OpBehaviorIntLeft :: op_behavior where
  "OpBehaviorIntLeft = (op_behavior_default IntLeft False)
     \<lparr>evaluate_binary := left_evaluate, recover_input_binary := left_recover\<rparr>"

definition right_evaluate :: "i32 \<Rightarrow> i32 \<Rightarrow> u64 \<Rightarrow> u64 \<Rightarrow> u64 result" where
  "right_evaluate sizeout sizein in1 in2 =
     (if in2 \<ge> cxx_int (wrap_i32 (sizeout * 8)) then Inr 0
      else Inr (wshr (in1 AND calc_mask sizeout) (as_u32 (uint in2))))"

definition right_recover :: "i32 \<Rightarrow> i32 \<Rightarrow> u64 \<Rightarrow> i32 \<Rightarrow> u64 \<Rightarrow> u64 result" where
  "right_recover slot sizeout out sizein input =
     (if slot \<noteq> 0 \<or> input \<ge> cxx_int (wrap_i32 (sizeout * 8)) then Inl lossy_recovery
      else let shift_amount = wrap_i32 (uint input) in
        if wshr out (sizein * 8 - shift_amount) \<noteq> 0
        then Inl (Evaluation ''Output is not in range of right shift operation'')
        else Inr (wshl out shift_amount))"

definition OpBehaviorIntRight :: op_behavior where
  "OpBehaviorIntRight = (op_behavior_default IntRight False)
     \<lparr>evaluate_binary := right_evaluate, recover_input_binary := right_recover\<rparr>"

definition sright_evaluate :: "i32 \<Rightarrow> i32 \<Rightarrow> u64 \<Rightarrow> u64 \<Rightarrow> u64 result" where
  "sright_evaluate sizeout sizein in1 in2 =
     (if in2 \<ge> cxx_int (wrap_i32 (sizeout * 8)) then
        Inr (if signbit_negative in1 sizein then calc_mask sizeout else 0)
      else let shift_amount = as_u32 (uint in2); res = wshr in1 shift_amount in
        if signbit_negative in1 sizein then
          let msk = calc_mask sizein in Inr (res OR (wshr msk shift_amount XOR msk))
        else Inr res)"

text \<open>The loop counting the set bits among the lowest \<open>n\<close> bits of \<open>testval\<close>.\<close>

primrec sright_count :: "nat \<Rightarrow> u64 \<Rightarrow> i32 \<Rightarrow> i32" where
  "sright_count 0 testval count = count"
| "sright_count (Suc n) testval count =
     sright_count n (drop_bit 1 testval) (if testval AND 1 \<noteq> 0 then count + 1 else count)"

definition sright_recover :: "i32 \<Rightarrow> i32 \<Rightarrow> u64 \<Rightarrow> i32 \<Rightarrow> u64 \<Rightarrow> u64 result" where
  "sright_recover slot sizeout out sizein input =
     (if slot \<noteq> 0 \<or> input \<ge> cxx_int (wrap_i32 (sizeout * 8)) then Inl lossy_recovery
      else let shift_amount = wrap_i32 (uint input);
               testval = wshr out (sizein * 8 - shift_amount - 1);
               count = sright_count (nat (shift_amount + 1)) testval 0 in
        if count \<noteq> shift_amount + 1
        then Inl (Evaluation ''Output is not in range of right shift operation'')
        else Inr (wshl out shift_amount))"

definition OpBehaviorIntSright :: op_behavior where
  "OpBehaviorIntSright = (op_behavior_default IntSright False)
     \<lparr>evaluate_binary := sright_evaluate, recover_input_binary := sright_recover\<rparr>"

definition OpBehaviorIntMult :: op_behavior where
  "OpBehaviorIntMult = (op_behavior_default IntMult False)
     \<lparr>evaluate_binary := \<lambda>sizeout _ in1 in2. Inr ((in1 * in2) AND calc_mask sizeout)\<rparr>"

definition OpBehaviorIntDiv :: op_behavior where
  "OpBehaviorIntDiv = (op_behavior_default IntDiv False)
     \<lparr>evaluate_binary := \<lambda>_ _ in1 in2.
        if in2 = 0 then Inl (Evaluation ''Divide by 0'') else Inr (in1 div in2)\<rparr>"

text \<open>\<open>i64::wrapping_div\<close> and \<open>i64::wrapping_rem\<close>: truncating division; only \<open>MIN / -1\<close> wraps.\<close>

definition i64_wrapping_div :: "u64 \<Rightarrow> u64 \<Rightarrow> u64" where
  "i64_wrapping_div a b = word_of_int (signed_divide (sint a) (sint b))"

definition i64_wrapping_rem :: "u64 \<Rightarrow> u64 \<Rightarrow> u64" where
  "i64_wrapping_rem a b = word_of_int (signed_modulo (sint a) (sint b))"

definition sdiv_evaluate :: "i32 \<Rightarrow> i32 \<Rightarrow> u64 \<Rightarrow> u64 \<Rightarrow> u64 result" where
  "sdiv_evaluate sizeout sizein in1 in2 =
     (if in2 = 0 then Inl (Evaluation ''Divide by 0'')
      else let num = sign_extend in1 (wrap_i32 (sizein * 8 - 1));
               denom = sign_extend in2 (wrap_i32 (sizein * 8 - 1)) in
        if denom = 0 then Inl (Evaluation ''Divide by 0'')
        else let sres = i64_wrapping_div num denom in
          Inr (zero_extend sres (wrap_i32 (sizeout * 8 - 1))))"

definition OpBehaviorIntSdiv :: op_behavior where
  "OpBehaviorIntSdiv = (op_behavior_default IntSdiv False)\<lparr>evaluate_binary := sdiv_evaluate\<rparr>"

definition OpBehaviorIntRem :: op_behavior where
  "OpBehaviorIntRem = (op_behavior_default IntRem False)
     \<lparr>evaluate_binary := \<lambda>_ _ in1 in2.
        if in2 = 0 then Inl (Evaluation ''Remainder by 0'') else Inr (in1 mod in2)\<rparr>"

definition srem_evaluate :: "i32 \<Rightarrow> i32 \<Rightarrow> u64 \<Rightarrow> u64 \<Rightarrow> u64 result" where
  "srem_evaluate sizeout sizein in1 in2 =
     (if in2 = 0 then Inl (Evaluation ''Remainder by 0'')
      else let val = sign_extend in1 (wrap_i32 (sizein * 8 - 1));
               modulus = sign_extend in2 (wrap_i32 (sizein * 8 - 1)) in
        if modulus = 0 then Inl (Evaluation ''Remainder by 0'')
        else let sres = i64_wrapping_rem val modulus in
          Inr (zero_extend sres (wrap_i32 (sizeout * 8 - 1))))"

definition OpBehaviorIntSrem :: op_behavior where
  "OpBehaviorIntSrem = (op_behavior_default IntSrem False)\<lparr>evaluate_binary := srem_evaluate\<rparr>"

definition OpBehaviorBoolNegate :: op_behavior where
  "OpBehaviorBoolNegate = (op_behavior_default BoolNegate True)
     \<lparr>evaluate_unary := \<lambda>_ _ in1. Inr (in1 XOR 1)\<rparr>"

definition OpBehaviorBoolXor :: op_behavior where
  "OpBehaviorBoolXor = (op_behavior_default BoolXor False)
     \<lparr>evaluate_binary := \<lambda>_ _ in1 in2. Inr (in1 XOR in2)\<rparr>"

definition OpBehaviorBoolAnd :: op_behavior where
  "OpBehaviorBoolAnd = (op_behavior_default BoolAnd False)
     \<lparr>evaluate_binary := \<lambda>_ _ in1 in2. Inr (in1 AND in2)\<rparr>"

definition OpBehaviorBoolOr :: op_behavior where
  "OpBehaviorBoolOr = (op_behavior_default BoolOr False)
     \<lparr>evaluate_binary := \<lambda>_ _ in1 in2. Inr (in1 OR in2)\<rparr>"

definition OpBehaviorPiece :: op_behavior where
  "OpBehaviorPiece = (op_behavior_default Piece False)
     \<lparr>evaluate_binary := \<lambda>sizeout sizein in1 in2.
        let shift_amount = (sizeout - sizein) * 8 in Inr (wshl in1 shift_amount OR in2)\<rparr>"

definition OpBehaviorSubpiece :: op_behavior where
  "OpBehaviorSubpiece = (op_behavior_default Subpiece False)
     \<lparr>evaluate_binary := \<lambda>sizeout _ in1 in2.
        if in2 \<ge> 8 then Inr 0
        else Inr (wshr in1 (as_u32 (uint (in2 * 8))) AND calc_mask sizeout)\<rparr>"

definition OpBehaviorPtradd :: op_behavior where
  "OpBehaviorPtradd = (op_behavior_default Ptradd False)
     \<lparr>evaluate_ternary := \<lambda>sizeout _ in1 in2 in3. Inr ((in1 + in2 * in3) AND calc_mask sizeout)\<rparr>"

definition OpBehaviorPtrsub :: op_behavior where
  "OpBehaviorPtrsub = (op_behavior_default Ptrsub False)
     \<lparr>evaluate_binary := \<lambda>sizeout _ in1 in2. Inr ((in1 + in2) AND calc_mask sizeout)\<rparr>"

definition OpBehaviorPopcount :: op_behavior where
  "OpBehaviorPopcount = (op_behavior_default Popcount True)
     \<lparr>evaluate_unary := \<lambda>_ _ in1. Inr (cxx_int (popcount in1))\<rparr>"

definition OpBehaviorLzcount :: op_behavior where
  "OpBehaviorLzcount = (op_behavior_default Lzcount True)
     \<lparr>evaluate_unary := \<lambda>_ sizein in1.
        let unused_bits = 8 * (8 - cxx_int sizein)
        in Inr (cxx_int (count_leading_zeros in1) - unused_bits)\<rparr>"

section \<open>Floating-point behaviours\<close>

text \<open>The methods of \<open>FloatFormat\<close> that the behaviours call, over an abstract type of formats.\<close>

record 'f float_ops =
  get_size :: "'f \<Rightarrow> i32"
  op_equal :: "'f \<Rightarrow> u64 \<Rightarrow> u64 \<Rightarrow> u64"
  op_not_equal :: "'f \<Rightarrow> u64 \<Rightarrow> u64 \<Rightarrow> u64"
  op_less :: "'f \<Rightarrow> u64 \<Rightarrow> u64 \<Rightarrow> u64"
  op_less_equal :: "'f \<Rightarrow> u64 \<Rightarrow> u64 \<Rightarrow> u64"
  op_add :: "'f \<Rightarrow> u64 \<Rightarrow> u64 \<Rightarrow> u64"
  op_div :: "'f \<Rightarrow> u64 \<Rightarrow> u64 \<Rightarrow> u64"
  op_mult :: "'f \<Rightarrow> u64 \<Rightarrow> u64 \<Rightarrow> u64"
  op_sub :: "'f \<Rightarrow> u64 \<Rightarrow> u64 \<Rightarrow> u64"
  op_nan :: "'f \<Rightarrow> u64 \<Rightarrow> u64"
  op_neg :: "'f \<Rightarrow> u64 \<Rightarrow> u64"
  op_abs :: "'f \<Rightarrow> u64 \<Rightarrow> u64"
  op_sqrt :: "'f \<Rightarrow> u64 \<Rightarrow> u64"
  op_ceil :: "'f \<Rightarrow> u64 \<Rightarrow> u64"
  op_floor :: "'f \<Rightarrow> u64 \<Rightarrow> u64"
  op_round :: "'f \<Rightarrow> u64 \<Rightarrow> u64"
  op_int2float :: "'f \<Rightarrow> u64 \<Rightarrow> i32 \<Rightarrow> u64"
  op_float2float :: "'f \<Rightarrow> u64 \<Rightarrow> 'f \<Rightarrow> u64"
  op_trunc :: "'f \<Rightarrow> u64 \<Rightarrow> i32 \<Rightarrow> u64"

definition get_float_format :: "'f float_ops \<Rightarrow> 'f list \<Rightarrow> i32 \<Rightarrow> 'f option" where
  "get_float_format ops formats sz = find (\<lambda>format. get_size ops format = sz) formats"

definition float_binary :: "'f float_ops \<Rightarrow> 'f list \<Rightarrow> opcode \<Rightarrow> ('f \<Rightarrow> u64 \<Rightarrow> u64 \<Rightarrow> u64) \<Rightarrow> op_behavior" where
  "float_binary ops formats opc m = (op_behavior_default opc False)
     \<lparr>evaluate_binary := \<lambda>_ sizein in1 in2.
        case get_float_format ops formats sizein of
          Some format \<Rightarrow> Inr (m format in1 in2)
        | None \<Rightarrow> Inl (binary_unimplemented opc)\<rparr>"

definition float_unary :: "'f float_ops \<Rightarrow> 'f list \<Rightarrow> opcode \<Rightarrow> ('f \<Rightarrow> u64 \<Rightarrow> u64) \<Rightarrow> op_behavior" where
  "float_unary ops formats opc m = (op_behavior_default opc True)
     \<lparr>evaluate_unary := \<lambda>_ sizein in1.
        case get_float_format ops formats sizein of
          Some format \<Rightarrow> Inr (m format in1)
        | None \<Rightarrow> Inl (unary_unimplemented opc)\<rparr>"

definition OpBehaviorFloatInt2Float :: "'f float_ops \<Rightarrow> 'f list \<Rightarrow> op_behavior" where
  "OpBehaviorFloatInt2Float ops formats = (op_behavior_default FloatInt2float True)
     \<lparr>evaluate_unary := \<lambda>sizeout sizein in1.
        case get_float_format ops formats sizeout of
          Some format \<Rightarrow> Inr (op_int2float ops format in1 sizein)
        | None \<Rightarrow> Inl (unary_unimplemented FloatInt2float)\<rparr>"

definition OpBehaviorFloatFloat2Float :: "'f float_ops \<Rightarrow> 'f list \<Rightarrow> op_behavior" where
  "OpBehaviorFloatFloat2Float ops formats = (op_behavior_default FloatFloat2float True)
     \<lparr>evaluate_unary := \<lambda>sizeout sizein in1.
        case get_float_format ops formats sizeout of
          None \<Rightarrow> Inl (unary_unimplemented FloatFloat2float)
        | Some formatout \<Rightarrow>
            (case get_float_format ops formats sizein of
               None \<Rightarrow> Inl (unary_unimplemented FloatFloat2float)
             | Some formatin \<Rightarrow> Inr (op_float2float ops formatin in1 formatout))\<rparr>"

definition OpBehaviorFloatTrunc :: "'f float_ops \<Rightarrow> 'f list \<Rightarrow> op_behavior" where
  "OpBehaviorFloatTrunc ops formats = (op_behavior_default FloatTrunc True)
     \<lparr>evaluate_unary := \<lambda>sizeout sizein in1.
        case get_float_format ops formats sizein of
          Some format \<Rightarrow> Inr (op_trunc ops format in1 sizeout)
        | None \<Rightarrow> Inl (unary_unimplemented FloatTrunc)\<rparr>"

section \<open>The instruction table\<close>

text \<open>The assignments \<open>inst[opcode.index()] = ...\<close> of \<open>register_instructions\<close>, in order.\<close>

definition register_table :: "'f float_ops \<Rightarrow> 'f list \<Rightarrow> (opcode \<times> op_behavior) list" where
  "register_table ops formats =
     (let special = (\<lambda>opc. (opc, OpBehaviorGeneric_new_special opc False True));
          plain = (\<lambda>opc. (opc, OpBehaviorGeneric_new opc False));
          fbin = (\<lambda>opc m. (opc, float_binary ops formats opc m));
          funa = (\<lambda>opc m. (opc, float_unary ops formats opc m)) in
      [(Copy, OpBehaviorCopy),
       special Load,
       special Store,
       special Branch,
       special Cbranch,
       special Branchind,
       special Call,
       special Callind,
       special Callother,
       special Return,
       special Multiequal,
       special Indirect,
       (Piece, OpBehaviorPiece),
       (Subpiece, OpBehaviorSubpiece),
       (IntEqual, OpBehaviorEqual),
       (IntNotequal, OpBehaviorNotEqual),
       (IntSless, OpBehaviorIntSless),
       (IntSlessequal, OpBehaviorIntSlessEqual),
       (IntLess, OpBehaviorIntLess),
       (IntLessequal, OpBehaviorIntLessEqual),
       (IntZext, OpBehaviorIntZext),
       (IntSext, OpBehaviorIntSext),
       (IntAdd, OpBehaviorIntAdd),
       (IntSub, OpBehaviorIntSub),
       (IntCarry, OpBehaviorIntCarry),
       (IntScarry, OpBehaviorIntScarry),
       (IntSborrow, OpBehaviorIntSborrow),
       (Int2comp, OpBehaviorInt2Comp),
       (IntNegate, OpBehaviorIntNegate),
       (IntXor, OpBehaviorIntXor),
       (IntAnd, OpBehaviorIntAnd),
       (IntOr, OpBehaviorIntOr),
       (IntLeft, OpBehaviorIntLeft),
       (IntRight, OpBehaviorIntRight),
       (IntSright, OpBehaviorIntSright),
       (IntMult, OpBehaviorIntMult),
       (IntDiv, OpBehaviorIntDiv),
       (IntSdiv, OpBehaviorIntSdiv),
       (IntRem, OpBehaviorIntRem),
       (IntSrem, OpBehaviorIntSrem),
       (BoolNegate, OpBehaviorBoolNegate),
       (BoolXor, OpBehaviorBoolXor),
       (BoolAnd, OpBehaviorBoolAnd),
       (BoolOr, OpBehaviorBoolOr),
       special Cast,
       plain Ptradd,
       plain Ptrsub,
       fbin FloatEqual (op_equal ops),
       fbin FloatNotequal (op_not_equal ops),
       fbin FloatLess (op_less ops),
       fbin FloatLessequal (op_less_equal ops),
       funa FloatNan (op_nan ops),
       fbin FloatAdd (op_add ops),
       fbin FloatDiv (op_div ops),
       fbin FloatMult (op_mult ops),
       fbin FloatSub (op_sub ops),
       funa FloatNeg (op_neg ops),
       funa FloatAbs (op_abs ops),
       funa FloatSqrt (op_sqrt ops),
       (FloatInt2float, OpBehaviorFloatInt2Float ops formats),
       (FloatFloat2float, OpBehaviorFloatFloat2Float ops formats),
       (FloatTrunc, OpBehaviorFloatTrunc ops formats),
       funa FloatCeil (op_ceil ops),
       funa FloatFloor (op_floor ops),
       funa FloatRound (op_round ops),
       special Segmentop,
       special Cpoolref,
       special New,
       plain Insert,
       plain Zpull,
       (Popcount, OpBehaviorPopcount),
       (Lzcount, OpBehaviorLzcount),
       plain Spull])"

definition register_instructions ::
  "op_behavior option list \<Rightarrow> 'f float_ops \<Rightarrow> 'f list \<Rightarrow> op_behavior option list" where
  "register_instructions inst ops formats =
     foldl (\<lambda>inst (opc, b). inst[index opc := Some b])
       (inst @ replicate (index MaxOp) None) (register_table ops formats)"

definition build_behaviors :: "'f float_ops \<Rightarrow> 'f list \<Rightarrow> op_behavior option list" where
  "build_behaviors ops formats = register_instructions [] ops formats"

end
