(* ===== verification/Op_Semantics.thy ===== *)
theory Op_Semantics
  imports Op_Behavior
begin

text \<open>
  What the behaviours of theory \<open>Op_Behavior\<close> compute, stated over mathematical integers. The
  reference \<open>pcode_ref\<close> gives each binary integer operation its two's complement meaning on \<open>n\<close>-bit
  operands; the instruction table refines it.
\<close>

section \<open>Signed readings\<close>

text \<open>The signed reading of an \<open>n\<close>-bit number.\<close>

definition sval :: "nat \<Rightarrow> int \<Rightarrow> int" where
  "sval n x = (if x < 2 ^ (n - 1) then x else x - 2 ^ n)"

lemma bit_top_iff:
  assumes "0 < n" "0 \<le> x" "x < 2 ^ n"
  shows "bit x (n - 1) \<longleftrightarrow> 2 ^ (n - 1) \<le> (x :: int)"
proof -
  obtain m where n: "n = Suc m" using assms by (cases n) auto
  have "x div 2 ^ m = (if 2 ^ m \<le> x then 1 else 0)"
    using assms n by (auto simp: int_div_pos_eq intro!: int_div_pos_eq [of _ _ 1 "x - 2 ^ m"])
  then show ?thesis using n by (simp add: bit_iff_odd)
qed

lemma sval_eq_signed_take:
  assumes "0 < n" "0 \<le> x" "x < 2 ^ n"
  shows "signed_take_bit (n - 1) x = sval n x"
  using assms bit_top_iff [OF assms]
  by (simp add: signed_take_bit_eq_take_bit_minus sval_def take_bit_int_eq_self)

lemma sval_bounds:
  assumes "0 < n" "0 \<le> x" "x < 2 ^ n"
  shows "- (2 ^ (n - 1)) \<le> sval n x \<and> sval n x < 2 ^ (n - 1)"
proof -
  obtain m where n: "n = Suc m" using assms by (cases n) auto
  show ?thesis using assms unfolding n by (auto simp: sval_def)
qed

lemma sval_mod: "0 < n \<Longrightarrow> 0 \<le> x \<Longrightarrow> x < 2 ^ n \<Longrightarrow> sval n x mod 2 ^ n = x"
  by (simp add: sval_def)

lemma signbit_negative_uint:
  assumes "valid_size s" "a \<le> calc_mask s"
  shows "signbit_negative a s \<longleftrightarrow> 2 ^ (8 * nat s - 1) \<le> uint a"
  using bit_top_iff [OF size_pos [OF assms(1)], of "uint a"] assms
  unfolding signbit_negative_iff [OF assms(1)] bit_uint_u64 [symmetric] le_calc_mask_uint [OF assms(1)]
  by simp

lemma sint_sign_extend:
  assumes "valid_size s" "a \<le> calc_mask s"
  shows "sint (sign_extend a (s * 8 - 1)) = sval (8 * nat s) (uint a)"
proof -
  have s: "nat (s * 8 - 1) = 8 * nat s - 1" "0 \<le> s * 8 - 1" "s * 8 - 1 < 64"
    using assms by (auto simp: valid_size_def)
  have "8 * nat s - 1 < LENGTH(64)" using nat_size_bounds [OF assms(1)] by auto
  note sint_signed_take [OF this, of a]
  moreover have "signed_take_bit (8 * nat s - 1) (uint a) = sval (8 * nat s) (uint a)"
    using size_pos [OF assms(1)] assms by (intro sval_eq_signed_take) (simp_all add: le_calc_mask_uint)
  ultimately show ?thesis by (simp only: sign_extend_eq [OF s(2,3)] s(1))
qed

section \<open>The reference semantics\<close>

definition flag :: "bool \<Rightarrow> int" where
  "flag b = (if b then 1 else 0)"

definition out_of_range :: "nat \<Rightarrow> int \<Rightarrow> bool" where
  "out_of_range n z \<longleftrightarrow> z < - (2 ^ (n - 1)) \<or> 2 ^ (n - 1) \<le> z"

text \<open>
  The value of a binary operation on unsigned \<open>n\<close>-bit operands \<open>x\<close> and \<open>y\<close>; \<open>None\<close> where the
  operation has no value (division by zero).
\<close>

definition pcode_ref :: "opcode \<Rightarrow> nat \<Rightarrow> int \<Rightarrow> int \<Rightarrow> int option" where
  "pcode_ref opc n x y = (let sx = sval n x; sy = sval n y in case opc of
     IntEqual \<Rightarrow> Some (flag (x = y))
   | IntNotequal \<Rightarrow> Some (flag (x \<noteq> y))
   | IntSless \<Rightarrow> Some (flag (sx < sy))
   | IntSlessequal \<Rightarrow> Some (flag (sx \<le> sy))
   | IntLess \<Rightarrow> Some (flag (x < y))
   | IntLessequal \<Rightarrow> Some (flag (x \<le> y))
   | IntAdd \<Rightarrow> Some ((x + y) mod 2 ^ n)
   | IntSub \<Rightarrow> Some ((x - y) mod 2 ^ n)
   | IntCarry \<Rightarrow> Some (flag (2 ^ n \<le> x + y))
   | IntScarry \<Rightarrow> Some (flag (out_of_range n (sx + sy)))
   | IntSborrow \<Rightarrow> Some (flag (out_of_range n (sx - sy)))
   | IntXor \<Rightarrow> Some (x XOR y)
   | IntAnd \<Rightarrow> Some (x AND y)
   | IntOr \<Rightarrow> Some (x OR y)
   | IntLeft \<Rightarrow> Some (x * 2 ^ nat y mod 2 ^ n)
   | IntRight \<Rightarrow> Some (x div 2 ^ nat y)
   | IntSright \<Rightarrow> Some (sx div 2 ^ nat y mod 2 ^ n)
   | IntMult \<Rightarrow> Some (x * y mod 2 ^ n)
   | IntDiv \<Rightarrow> (if y = 0 then None else Some (x div y))
   | IntSdiv \<Rightarrow> (if y = 0 then None else Some (signed_divide sx sy mod 2 ^ n))
   | IntRem \<Rightarrow> (if y = 0 then None else Some (x mod y))
   | IntSrem \<Rightarrow> (if y = 0 then None else Some (signed_modulo sx sy mod 2 ^ n))
   | _ \<Rightarrow> None)"

definition int_binary_ops :: "opcode list" where
  "int_binary_ops = [IntEqual, IntNotequal, IntSless, IntSlessequal, IntLess, IntLessequal, IntAdd,
     IntSub, IntCarry, IntScarry, IntSborrow, IntXor, IntAnd, IntOr, IntLeft, IntRight, IntSright,
     IntMult, IntDiv, IntSdiv, IntRem, IntSrem]"

text \<open>A behaviour's answer agrees with a reference value: the same number, or an error for none.\<close>

definition agrees :: "u64 result \<Rightarrow> int option \<Rightarrow> bool" where
  "agrees r ref = (case r of Inl _ \<Rightarrow> ref = None | Inr v \<Rightarrow> ref = Some (uint v))"

lemma agrees_simps [simp]:
  "agrees (Inr v) ref \<longleftrightarrow> ref = Some (uint v)"
  "agrees (Inl e) ref \<longleftrightarrow> ref = None"
  by (simp_all add: agrees_def)

lemma uint_of_flag [simp]: "uint (of_flag b) = flag b"
  by (simp add: of_flag_def flag_def)

section \<open>Each operation against the reference\<close>

lemma ref_arith:
  assumes "valid_size s" "a \<le> calc_mask s" "b \<le> calc_mask s"
  shows "uint ((a + b) AND calc_mask s) = (uint a + uint b) mod 2 ^ (8 * nat s)"
    "uint ((a - b) AND calc_mask s) = (uint a - uint b) mod 2 ^ (8 * nat s)"
    "uint ((a * b) AND calc_mask s) = (uint a * uint b) mod 2 ^ (8 * nat s)"
  by (simp_all only: word_arith_of_int uint_and_calc_mask [OF assms(1)])

lemma ref_carry:
  assumes "valid_size s" "a \<le> calc_mask s" "b \<le> calc_mask s"
  shows "(a > ((a + b) AND calc_mask s)) \<longleftrightarrow> 2 ^ (8 * nat s) \<le> uint a + uint b"
proof -
  let ?N = "2 ^ (8 * nat s) :: int"
  have ab: "0 \<le> uint a" "uint a < ?N" "0 \<le> uint b" "uint b < ?N"
    using assms by (simp_all add: le_calc_mask_uint)
  have "(uint a + uint b) mod ?N = (if ?N \<le> uint a + uint b then uint a + uint b - ?N else uint a + uint b)"
    using ab mod_pos_pos_trivial [of "uint a + uint b - ?N" ?N] by auto
  then show ?thesis
    using ab unfolding word_less_def ref_arith(1) [OF assms] by auto
qed

lemma ref_signed_less:
  assumes "valid_size s" "a \<le> calc_mask s" "b \<le> calc_mask s"
  shows "signed_less s a b oe =
    of_flag (if oe then sval (8 * nat s) (uint a) \<le> sval (8 * nat s) (uint b)
             else sval (8 * nat s) (uint a) < sval (8 * nat s) (uint b))"
proof -
  let ?m = "wshl 0x80 (8 * (s - 1)) :: u64" and ?h = "2 ^ (8 * nat s - 1) :: int"
  have sa: "a AND ?m \<noteq> 0 \<longleftrightarrow> ?h \<le> uint a" "b AND ?m \<noteq> 0 \<longleftrightarrow> ?h \<le> uint b"
    using signbit_negative_uint [OF assms(1)] assms by (simp_all add: signbit_negative_def)
  have m: "?m = 2 ^ (8 * nat s - 1)"
    using assms(1) by (rule valid_size_cases) simp_all
  have eq: "a AND ?m = b AND ?m \<longleftrightarrow> (?h \<le> uint a \<longleftrightarrow> ?h \<le> uint b)"
  proof -
    have "(2 :: u64) ^ (8 * nat s - 1) \<noteq> 0"
      using nat_size_bounds [OF assms(1)] by (simp add: exp_eq_zero_iff) linarith
    then show ?thesis using sa unfolding m u64_and_exp_eq by (auto split: if_splits)
  qed
  have N: "(2::int) ^ (8 * nat s) = 2 * ?h" using size_pos [OF assms(1)] by (cases "8 * nat s") auto
  obtain x y where xy: "uint a = x" "uint b = y" "x < 2 * ?h" "y < 2 * ?h" "0 \<le> x" "0 \<le> y" "\<not> s \<le> 0"
    using assms N by (simp add: le_calc_mask_uint valid_size_def)
  then show ?thesis
    unfolding signed_less_def Let_def eq sa sval_def N word_le_def word_less_def xy(1,2) by auto
qed

lemma sign_bit_of_uint:
  assumes "valid_size s"
  shows "sign_bit_of v s = (if 2 ^ (8 * nat s - 1) \<le> uint v mod 2 ^ (8 * nat s) then 1 else 0)"
proof -
  let ?n = "8 * nat s"
  have n: "nat ((s * 8 - 1) mod 64) = ?n - 1"
    using assms by (auto simp: valid_size_def)
  have "bit v (?n - 1) \<longleftrightarrow> bit (uint v mod 2 ^ ?n) (?n - 1)"
    using size_pos [OF assms] by (simp add: bit_take_bit_iff bit_uint_u64 flip: take_bit_eq_mod)
  also have "\<dots> \<longleftrightarrow> 2 ^ (?n - 1) \<le> uint v mod 2 ^ ?n"
    using size_pos [OF assms] by (intro bit_top_iff) simp_all
  finally show ?thesis
    by (simp add: sign_bit_of_def wshr_def n u64_drop_and_1 of_flag_def)
qed

text \<open>The operands of a byte size as integers, with half and full range.\<close>

lemma operands_int:
  assumes "valid_size s" "a \<le> calc_mask s" "b \<le> calc_mask s"
  obtains x y h :: int where "uint a = x" "uint b = y" "2 ^ (8 * nat s - 1) = h" "2 ^ (8 * nat s) = 2 * h"
    "0 \<le> x" "x < 2 * h" "0 \<le> y" "y < 2 * h" "0 < h" "h \<le> 2 ^ 63"
proof -
  have N: "(2::int) ^ (8 * nat s) = 2 * 2 ^ (8 * nat s - 1)"
    using size_pos [OF assms(1)] by (cases "8 * nat s") auto
  have "(2::int) ^ (8 * nat s - 1) \<le> 2 ^ 63"
    using nat_size_bounds [OF assms(1)] by (intro power_increasing) auto
  then show ?thesis
    using that [OF refl refl refl N] assms N by (simp add: le_calc_mask_uint)
qed

lemma ref_scarry:
  assumes "valid_size s" "a \<le> calc_mask s" "b \<le> calc_mask s"
  shows "scarry_evaluate so s a b =
    Inr (of_flag (out_of_range (8 * nat s) (sval (8 * nat s) (uint a) + sval (8 * nat s) (uint b))))"
proof (rule operands_int [OF assms])
  fix x y h :: int
  assume e: "uint a = x" "uint b = y" "2 ^ (8 * nat s - 1) = h" "2 ^ (8 * nat s) = 2 * h"
    and r: "0 \<le> x" "x < 2 * h" "0 \<le> y" "y < 2 * h" "0 < h" "h \<le> 2 ^ 63"
  have m: "x mod (2 * h) = x" "y mod (2 * h) = y" using r by simp_all
  have res: "uint (a + b) mod (2 * h) = (if 2 * h \<le> x + y then x + y - 2 * h else x + y)"
    using uint_mod_arith(1) [OF assms(1), of a b] unfolding e mod_sum_cases(1) [OF r(1-4)] .
  show ?thesis
    unfolding scarry_evaluate_def Let_def sign_bit_of_uint [OF assms(1)] out_of_range_def sval_def e m res
    using r by (cases "x < h"; cases "y < h"; cases "2 * h \<le> x + y") (simp_all add: of_flag_def)
qed

lemma ref_sborrow:
  assumes "valid_size s" "a \<le> calc_mask s" "b \<le> calc_mask s"
  shows "sborrow_evaluate so s a b =
    Inr (of_flag (out_of_range (8 * nat s) (sval (8 * nat s) (uint a) - sval (8 * nat s) (uint b))))"
proof (rule operands_int [OF assms])
  fix x y h :: int
  assume e: "uint a = x" "uint b = y" "2 ^ (8 * nat s - 1) = h" "2 ^ (8 * nat s) = 2 * h"
    and r: "0 \<le> x" "x < 2 * h" "0 \<le> y" "y < 2 * h" "0 < h" "h \<le> 2 ^ 63"
  have m: "x mod (2 * h) = x" "y mod (2 * h) = y" using r by simp_all
  have res: "uint (a - b) mod (2 * h) = (if x < y then x - y + 2 * h else x - y)"
    using uint_mod_arith(2) [OF assms(1), of a b] unfolding e mod_sum_cases(2) [OF r(1-4)] .
  show ?thesis
    unfolding sborrow_evaluate_def Let_def sign_bit_of_uint [OF assms(1)] out_of_range_def sval_def e m res
    using r by (cases "x < h"; cases "y < h"; cases "x < y") (auto simp add: of_flag_def)
qed

lemma shift_guard:
  assumes "valid_size s"
  shows "cxx_int (wrap_i32 (s * 8)) \<le> b \<longleftrightarrow> 8 * s \<le> uint b"
  using assms
  by (rule valid_size_cases) (simp_all add: cxx_int_def wrap_i32_def word_le_def)

lemma shift_amount_in_range:
  assumes "valid_size s" "\<not> 8 * s \<le> uint b"
  obtains k where "uint b = int k" "k < 8 * nat s" "k < 64" "as_u32 (uint b) mod 64 = int k"
    "wrap_i32 (uint b) = int k"
proof -
  obtain k where k: "uint b = int k" by (meson nonneg_int_cases uint_ge_0)
  then have "k < 64" "k < 8 * nat s" using assms by (auto simp: valid_size_def)
  with k show ?thesis by (intro that [of k]) (simp_all add: as_u32_def wrap_i32_def)
qed

lemma ref_left:
  assumes "valid_size s" "a \<le> calc_mask s"
  shows "agrees (left_evaluate s s a b) (Some (uint a * 2 ^ nat (uint b) mod 2 ^ (8 * nat s)))"
proof (cases "8 * s \<le> uint b")
  case True
  then have "8 * nat s \<le> nat (uint b)" by linarith
  then have "(2::int) ^ (8 * nat s) dvd uint a * 2 ^ nat (uint b)"
    by (simp add: dvd_mult le_imp_power_dvd)
  then show ?thesis using True by (simp add: left_evaluate_def shift_guard [OF assms(1)] mod_eq_0_iff_dvd)
next
  case False
  then obtain k where k: "uint b = int k" "as_u32 (uint b) mod 64 = int k"
    using shift_amount_in_range [OF assms(1)] by blast
  have "push_bit k a = word_of_int (uint a * 2 ^ k)"
    by (simp only: push_bit_eq_mult word_of_int_2p wi_hom_mult [symmetric] word_of_int_uint)
  then show ?thesis
    using False k uint_and_calc_mask [OF assms(1), of "uint a * 2 ^ k"]
    by (simp add: left_evaluate_def shift_guard [OF assms(1)] wshl_def)
qed

lemma ref_right:
  assumes "valid_size s" "a \<le> calc_mask s"
  shows "agrees (right_evaluate s s a b) (Some (uint a div 2 ^ nat (uint b)))"
proof (cases "8 * s \<le> uint b")
  case True
  then have "(2::int) ^ (8 * nat s) \<le> 2 ^ nat (uint b)" by (intro power_increasing) linarith+
  moreover have "uint a < 2 ^ (8 * nat s)" using assms by (simp add: le_calc_mask_uint)
  ultimately have "uint a div 2 ^ nat (uint b) = 0"
    by (intro div_pos_pos_trivial) (simp, erule (1) order.strict_trans2)
  then show ?thesis using True by (simp add: right_evaluate_def shift_guard [OF assms(1)])
next
  case False
  then obtain k where k: "uint b = int k" "as_u32 (uint b) mod 64 = int k"
    using shift_amount_in_range [OF assms(1)] by blast
  have "a AND calc_mask s = a"
    using assms by (simp add: and_calc_mask le_calc_mask_iff)
  then show ?thesis
    using False k
    by (simp add: right_evaluate_def shift_guard [OF assms(1)] wshr_def uint_drop)
qed

lemma bit_sar_int:
  assumes "0 < n"
  shows "bit (signed_take_bit (n - 1) x div 2 ^ k mod 2 ^ n) i \<longleftrightarrow> i < n \<and> bit (x :: int) (min (n - 1) (i + k))"
  by (simp add: bit_take_bit_iff bit_drop_bit_eq bit_signed_take_bit_iff add.commute
      flip: take_bit_eq_mod drop_bit_eq_div)

lemma bit_sright_evaluate:
  assumes "valid_size s" "a \<le> calc_mask s"
  shows "\<exists>r. sright_evaluate s s a b = Inr r \<and>
    (\<forall>i. bit r i \<longleftrightarrow> i < 8 * nat s \<and> bit a (min (8 * nat s - 1) (i + nat (uint b))))"
proof -
  let ?n = "8 * nat s"
  have a: "\<not> bit a i" if "?n \<le> i" for i
    using assms that by (metis bit_u64_take le_calc_mask_iff not_le)
  have mn: "min (?n - 1) j = (if j < ?n then j else ?n - 1)" for j by auto
  note neg = signbit_negative_iff [OF assms(1)] and cm = bit_calc_mask [OF assms(1)]
  show ?thesis
  proof (cases "8 * s \<le> uint b")
    case True
    then have "min (?n - 1) (i + nat (uint b)) = ?n - 1" for i by linarith
    then show ?thesis using True
      by (simp add: sright_evaluate_def shift_guard [OF assms(1)] neg cm)
  next
    case False
    then obtain k where k: "uint b = int k" "as_u32 (uint b) mod 64 = int k" "k < ?n"
      using shift_amount_in_range [OF assms(1)] by metis
    show ?thesis
    proof (cases "bit a (?n - 1)")
      case True
      have "bit (drop_bit k a OR (drop_bit k (calc_mask s) XOR calc_mask s)) i
          \<longleftrightarrow> i < ?n \<and> bit a (min (?n - 1) (i + k))" for i
        using True a [of "i + k"] by (cases "i + k < ?n") (auto simp: bit_u64 cm mn)
      then show ?thesis using False True k
        by (simp add: sright_evaluate_def shift_guard [OF assms(1)] neg wshr_def Let_def)
    next
      case f: False
      have "bit (drop_bit k a) i \<longleftrightarrow> i < ?n \<and> bit a (min (?n - 1) (i + k))" for i
        using f a [of "i + k"] by (cases "i + k < ?n") (auto simp: bit_u64 mn)
      then show ?thesis using False f k
        by (simp add: sright_evaluate_def shift_guard [OF assms(1)] neg wshr_def Let_def)
    qed
  qed
qed

lemma ref_sright:
  assumes "valid_size s" "a \<le> calc_mask s"
  shows "agrees (sright_evaluate s s a b)
    (Some (sval (8 * nat s) (uint a) div 2 ^ nat (uint b) mod 2 ^ (8 * nat s)))"
proof -
  obtain r where r: "sright_evaluate s s a b = Inr r"
    "\<And>i. bit r i \<longleftrightarrow> i < 8 * nat s \<and> bit a (min (8 * nat s - 1) (i + nat (uint b)))"
    using bit_sright_evaluate [OF assms(1,2)] by blast
  have "sval (8 * nat s) (uint a) = signed_take_bit (8 * nat s - 1) (uint a)"
    using assms size_pos [OF assms(1)]
    by (intro sval_eq_signed_take [symmetric]) (simp_all add: le_calc_mask_uint)
  then have "sval (8 * nat s) (uint a) div 2 ^ nat (uint b) mod 2 ^ (8 * nat s) = uint r"
    by (intro bit_eqI) (simp only: bit_sar_int [OF size_pos [OF assms(1)]] bit_uint_u64 r(2))
  then show ?thesis by (simp add: r(1))
qed

lemma sval_eq_0: "0 < n \<Longrightarrow> 0 \<le> x \<Longrightarrow> x < 2 ^ n \<Longrightarrow> sval n x = 0 \<longleftrightarrow> x = 0"
  by (auto simp: sval_def)

lemma ref_signed_division:
  assumes "valid_size s" "a \<le> calc_mask s" "b \<le> calc_mask s" "b \<noteq> 0"
  shows "sdiv_evaluate s s a b = Inr (take_bit (8 * nat s)
      (word_of_int (signed_divide (sval (8 * nat s) (uint a)) (sval (8 * nat s) (uint b)))))"
    "srem_evaluate s s a b = Inr (take_bit (8 * nat s)
      (word_of_int (signed_modulo (sval (8 * nat s) (uint a)) (sval (8 * nat s) (uint b)))))"
proof -
  have s: "wrap_i32 (s * 8 - 1) = s * 8 - 1" "0 \<le> s * 8 - 1" "s * 8 - 1 < 64"
    "Suc (nat (s * 8 - 1)) = 8 * nat s"
    using assms by (auto simp: valid_size_def wrap_i32_def)
  have "sval (8 * nat s) (uint b) \<noteq> 0"
    using assms sval_eq_0 [OF size_pos [OF assms(1)], of "uint b"]
    by (simp add: le_calc_mask_uint uint_0_iff)
  then have "sign_extend b (s * 8 - 1) \<noteq> 0"
    using sint_sign_extend [OF assms(1,3)] by auto
  then show "sdiv_evaluate s s a b = Inr (take_bit (8 * nat s)
      (word_of_int (signed_divide (sval (8 * nat s) (uint a)) (sval (8 * nat s) (uint b)))))"
    "srem_evaluate s s a b = Inr (take_bit (8 * nat s)
      (word_of_int (signed_modulo (sval (8 * nat s) (uint a)) (sval (8 * nat s) (uint b)))))"
    using assms(4)
    by (simp_all only: sdiv_evaluate_def srem_evaluate_def Let_def s if_False zero_extend_eq [OF s(2,3)]
        i64_wrapping_div_def i64_wrapping_rem_def sint_sign_extend [OF assms(1,2)]
        sint_sign_extend [OF assms(1,3)] refl)
qed

lemma ref_sdiv:
  assumes "valid_size s" "a \<le> calc_mask s" "b \<le> calc_mask s"
  shows "agrees (sdiv_evaluate s s a b) (if uint b = 0 then None
      else Some (signed_divide (sval (8 * nat s) (uint a)) (sval (8 * nat s) (uint b)) mod 2 ^ (8 * nat s)))"
    "agrees (srem_evaluate s s a b) (if uint b = 0 then None
      else Some (signed_modulo (sval (8 * nat s) (uint a)) (sval (8 * nat s) (uint b)) mod 2 ^ (8 * nat s)))"
  using ref_signed_division [OF assms] nat_size_bounds [OF assms(1)]
  by (cases "b = 0"; simp add: sdiv_evaluate_def srem_evaluate_def uint_take uint_0_iff)+

lemmas behavior_defs =
  OpBehaviorEqual_def OpBehaviorNotEqual_def OpBehaviorIntSless_def OpBehaviorIntSlessEqual_def
  OpBehaviorIntLess_def OpBehaviorIntLessEqual_def OpBehaviorIntAdd_def OpBehaviorIntSub_def
  OpBehaviorIntCarry_def OpBehaviorIntScarry_def OpBehaviorIntSborrow_def OpBehaviorIntXor_def
  OpBehaviorIntAnd_def OpBehaviorIntOr_def OpBehaviorIntLeft_def OpBehaviorIntRight_def
  OpBehaviorIntSright_def OpBehaviorIntMult_def OpBehaviorIntDiv_def OpBehaviorIntSdiv_def
  OpBehaviorIntRem_def OpBehaviorIntSrem_def

section \<open>The instruction table\<close>

lemma foldl_update_distinct:
  assumes "distinct (map fst kvs)" "(k, v) \<in> set kvs" "\<forall>k \<in> fst ` set kvs. f k < length inst" "inj_on f (fst ` set kvs)"
  shows "foldl (\<lambda>inst (k, v). inst[f k := Some v]) inst kvs ! f k = Some v"
  using assms
proof (induction kvs rule: rev_induct)
  case (snoc kv kvs)
  have len: "length (foldl (\<lambda>inst (k, v). inst[f k := Some v]) inst kvs) = length inst"
    by (induction kvs arbitrary: inst) auto
  obtain k' v' where kv: "kv = (k', v')" by (cases kv)
  show ?case
  proof (cases "k = k'")
    case True
    then have "v = v'" using snoc.prems kv by (force dest: image_eqI [of k fst])
    then show ?thesis using True snoc.prems kv len by simp
  next
    case False
    then have "f k \<noteq> f k'" "(k, v) \<in> set kvs"
      using snoc.prems kv by (auto simp: inj_on_def image_iff)
    then show ?thesis using snoc kv by (simp add: inj_on_def)
  qed
qed simp

lemma foldl_update_other:
  assumes "\<forall>kv \<in> set kvs. f (fst kv) \<noteq> i"
  shows "foldl (\<lambda>inst (k, v). inst[f k := Some v]) inst kvs ! i = inst ! i"
  using assms by (induction kvs arbitrary: inst) auto

lemma length_foldl_update: "length (foldl (\<lambda>inst (k, v). inst[f k := Some v]) inst kvs) = length inst"
  by (induction kvs arbitrary: inst) auto

lemma index_inj: "index x = index y \<longleftrightarrow> x = y"
  by (metis table_index)

lemma index_lt75: "opc \<noteq> MaxOp \<Longrightarrow> index opc < 75"
  by (cases opc) simp_all

lemma register_keys_index:
  "map (index \<circ> fst) (register_table ops formats) =
     [1, 2, 3, 4, 5, 6, 7, 8, 9, 10, 60, 61, 62, 63, 11, 12, 13, 14, 15, 16, 17, 18, 19, 20, 21, 22, 23,
      24, 25, 26, 27, 28, 29, 30, 31, 32, 33, 34, 35, 36, 37, 38, 39, 40, 64, 65, 66, 41, 42, 43, 44, 46,
      47, 48, 49, 50, 51, 52, 53, 54, 55, 56, 57, 58, 59, 67, 68, 69, 70, 71, 72, 73, 74]"
  by (simp add: register_table_def Let_def)

lemma register_keys_distinct: "distinct (map fst (register_table ops formats))"
proof -
  have "distinct (map (index \<circ> fst) (register_table ops formats))"
    unfolding register_keys_index by simp
  then show ?thesis by (simp add: distinct_map comp_inj_on_iff inj_on_def)
qed

lemma register_keys_set:
  "opc \<in> fst ` set (register_table ops formats) \<longleftrightarrow> opc \<noteq> Blank \<and> opc \<noteq> Unused1 \<and> opc \<noteq> MaxOp"
proof -
  have "set (map (index \<circ> fst) (register_table ops formats)) = set (filter (\<lambda>i. i \<noteq> 0 \<and> i \<noteq> 45) [0..<75])"
    unfolding register_keys_index by code_simp
  then have "index ` fst ` set (register_table ops formats) = {i. i < 75 \<and> i \<noteq> 0 \<and> i \<noteq> 45}"
    by (auto simp: image_comp simp del: upt_rec_numeral)
  then have "opc \<in> fst ` set (register_table ops formats) \<longleftrightarrow> index opc < 75 \<and> index opc \<noteq> 0 \<and> index opc \<noteq> 45"
    using inj_image_mem_iff [of index opc "fst ` set (register_table ops formats)"]
    by (simp add: inj_def index_inj)
  also have "\<dots> \<longleftrightarrow> opc \<noteq> Blank \<and> opc \<noteq> Unused1 \<and> opc \<noteq> MaxOp"
    by (cases opc) simp_all
  finally show ?thesis .
qed

lemma build_behaviors_lookup:
  assumes "(opc, b) \<in> set (register_table ops formats)"
  shows "build_behaviors ops formats ! index opc = Some b"
  unfolding build_behaviors_def register_instructions_def
proof (rule foldl_update_distinct [OF register_keys_distinct assms])
  show "\<forall>k \<in> fst ` set (register_table ops formats). index k < length ([] @ replicate (index MaxOp) None :: op_behavior option list)"
    using index_lt75 by (auto simp: register_keys_set)
qed (simp add: inj_on_def index_inj)

lemma register_opcode: "(opc, b) \<in> set (register_table ops formats) \<Longrightarrow> ob_opcode b = opc"
proof -
  have "\<forall>kv \<in> set (register_table ops formats). ob_opcode (snd kv) = fst kv"
    by (simp add: register_table_def Let_def op_behavior_default_def behavior_defs
        OpBehaviorGeneric_new_def OpBehaviorGeneric_new_special_def OpBehaviorCopy_def
        OpBehaviorIntZext_def OpBehaviorIntSext_def OpBehaviorInt2Comp_def OpBehaviorIntNegate_def
        OpBehaviorBoolNegate_def OpBehaviorBoolXor_def OpBehaviorBoolAnd_def OpBehaviorBoolOr_def
        OpBehaviorPiece_def OpBehaviorSubpiece_def OpBehaviorPopcount_def OpBehaviorLzcount_def
        float_binary_def float_unary_def OpBehaviorFloatInt2Float_def OpBehaviorFloatFloat2Float_def
        OpBehaviorFloatTrunc_def)
  then show "(opc, b) \<in> set (register_table ops formats) \<Longrightarrow> ob_opcode b = opc" by fastforce
qed

lemma registered_int:
  "(IntEqual, OpBehaviorEqual) \<in> set (register_table ops formats)"
  "(IntNotequal, OpBehaviorNotEqual) \<in> set (register_table ops formats)"
  "(IntSless, OpBehaviorIntSless) \<in> set (register_table ops formats)"
  "(IntSlessequal, OpBehaviorIntSlessEqual) \<in> set (register_table ops formats)"
  "(IntLess, OpBehaviorIntLess) \<in> set (register_table ops formats)"
  "(IntLessequal, OpBehaviorIntLessEqual) \<in> set (register_table ops formats)"
  "(IntAdd, OpBehaviorIntAdd) \<in> set (register_table ops formats)"
  "(IntSub, OpBehaviorIntSub) \<in> set (register_table ops formats)"
  "(IntCarry, OpBehaviorIntCarry) \<in> set (register_table ops formats)"
  "(IntScarry, OpBehaviorIntScarry) \<in> set (register_table ops formats)"
  "(IntSborrow, OpBehaviorIntSborrow) \<in> set (register_table ops formats)"
  "(IntXor, OpBehaviorIntXor) \<in> set (register_table ops formats)"
  "(IntAnd, OpBehaviorIntAnd) \<in> set (register_table ops formats)"
  "(IntOr, OpBehaviorIntOr) \<in> set (register_table ops formats)"
  "(IntLeft, OpBehaviorIntLeft) \<in> set (register_table ops formats)"
  "(IntRight, OpBehaviorIntRight) \<in> set (register_table ops formats)"
  "(IntSright, OpBehaviorIntSright) \<in> set (register_table ops formats)"
  "(IntMult, OpBehaviorIntMult) \<in> set (register_table ops formats)"
  "(IntDiv, OpBehaviorIntDiv) \<in> set (register_table ops formats)"
  "(IntSdiv, OpBehaviorIntSdiv) \<in> set (register_table ops formats)"
  "(IntRem, OpBehaviorIntRem) \<in> set (register_table ops formats)"
  "(IntSrem, OpBehaviorIntSrem) \<in> set (register_table ops formats)"
  by (simp_all add: register_table_def Let_def)

lemma agree_int:
  assumes "valid_size s" "a \<le> calc_mask s" "b \<le> calc_mask s"
  shows
    "agrees (evaluate_binary OpBehaviorEqual s s a b) (pcode_ref IntEqual (8 * nat s) (uint a) (uint b))"
    "agrees (evaluate_binary OpBehaviorNotEqual s s a b) (pcode_ref IntNotequal (8 * nat s) (uint a) (uint b))"
    "agrees (evaluate_binary OpBehaviorIntSless s s a b) (pcode_ref IntSless (8 * nat s) (uint a) (uint b))"
    "agrees (evaluate_binary OpBehaviorIntSlessEqual s s a b) (pcode_ref IntSlessequal (8 * nat s) (uint a) (uint b))"
    "agrees (evaluate_binary OpBehaviorIntLess s s a b) (pcode_ref IntLess (8 * nat s) (uint a) (uint b))"
    "agrees (evaluate_binary OpBehaviorIntLessEqual s s a b) (pcode_ref IntLessequal (8 * nat s) (uint a) (uint b))"
    "agrees (evaluate_binary OpBehaviorIntAdd s s a b) (pcode_ref IntAdd (8 * nat s) (uint a) (uint b))"
    "agrees (evaluate_binary OpBehaviorIntSub s s a b) (pcode_ref IntSub (8 * nat s) (uint a) (uint b))"
    "agrees (evaluate_binary OpBehaviorIntCarry s s a b) (pcode_ref IntCarry (8 * nat s) (uint a) (uint b))"
    "agrees (evaluate_binary OpBehaviorIntScarry s s a b) (pcode_ref IntScarry (8 * nat s) (uint a) (uint b))"
    "agrees (evaluate_binary OpBehaviorIntSborrow s s a b) (pcode_ref IntSborrow (8 * nat s) (uint a) (uint b))"
    "agrees (evaluate_binary OpBehaviorIntXor s s a b) (pcode_ref IntXor (8 * nat s) (uint a) (uint b))"
    "agrees (evaluate_binary OpBehaviorIntAnd s s a b) (pcode_ref IntAnd (8 * nat s) (uint a) (uint b))"
    "agrees (evaluate_binary OpBehaviorIntOr s s a b) (pcode_ref IntOr (8 * nat s) (uint a) (uint b))"
    "agrees (evaluate_binary OpBehaviorIntLeft s s a b) (pcode_ref IntLeft (8 * nat s) (uint a) (uint b))"
    "agrees (evaluate_binary OpBehaviorIntRight s s a b) (pcode_ref IntRight (8 * nat s) (uint a) (uint b))"
    "agrees (evaluate_binary OpBehaviorIntSright s s a b) (pcode_ref IntSright (8 * nat s) (uint a) (uint b))"
    "agrees (evaluate_binary OpBehaviorIntMult s s a b) (pcode_ref IntMult (8 * nat s) (uint a) (uint b))"
    "agrees (evaluate_binary OpBehaviorIntDiv s s a b) (pcode_ref IntDiv (8 * nat s) (uint a) (uint b))"
    "agrees (evaluate_binary OpBehaviorIntSdiv s s a b) (pcode_ref IntSdiv (8 * nat s) (uint a) (uint b))"
    "agrees (evaluate_binary OpBehaviorIntRem s s a b) (pcode_ref IntRem (8 * nat s) (uint a) (uint b))"
    "agrees (evaluate_binary OpBehaviorIntSrem s s a b) (pcode_ref IntSrem (8 * nat s) (uint a) (uint b))"
  using ref_arith [OF assms] ref_carry [OF assms] ref_signed_less [OF assms]
    ref_scarry [OF assms] ref_sborrow [OF assms] ref_left [OF assms(1,2)]
    ref_right [OF assms(1,2)] ref_sright [OF assms(1,2)] ref_sdiv [OF assms]
  by (simp_all add: behavior_defs op_behavior_default_def pcode_ref_def Let_def word_uint_eq_iff
      word_less_def word_le_def uint_and uint_or uint_xor uint_div uint_mod)

section \<open>Properties\<close>

text \<open>The table \<open>build_behaviors\<close> returns has one slot per operation, in the order of the
  enumeration; the slot of every operation holds a behaviour that reports that very operation, and only
  \<open>Blank\<close> and \<open>Unused1\<close> have an empty slot.\<close>

theorem build_behaviors_complete:
  "map (map_option ob_opcode) (build_behaviors ops formats) =
     map (\<lambda>opc. if opc = Blank \<or> opc = Unused1 then None else Some opc) (butlast OPCODE_TABLE)"
proof (rule nth_equalityI)
  have len: "length (build_behaviors ops formats) = 75"
    by (simp add: build_behaviors_def register_instructions_def length_foldl_update)
  then show "length (map (map_option ob_opcode) (build_behaviors ops formats)) =
      length (map (\<lambda>opc. if opc = Blank \<or> opc = Unused1 then None else Some opc) (butlast OPCODE_TABLE))"
    by simp
  fix i assume "i < length (map (map_option ob_opcode) (build_behaviors ops formats))"
  then have i: "i < 75" using len by simp
  let ?o = "OPCODE_TABLE ! i"
  have io: "index ?o = i" using i index_table by simp
  have "map_option ob_opcode (build_behaviors ops formats ! i) =
      (if ?o = Blank \<or> ?o = Unused1 then None else Some ?o)"
  proof (cases "?o = Blank \<or> ?o = Unused1")
    case True
    then have "?o \<notin> fst ` set (register_table ops formats)" by (auto simp: register_keys_set)
    then have "\<forall>kv \<in> set (register_table ops formats). index (fst kv) \<noteq> i"
      using io by (metis image_eqI index_inj)
    then show ?thesis using True i
      by (simp add: build_behaviors_def register_instructions_def foldl_update_other)
  next
    case False
    moreover have "?o \<noteq> MaxOp" using io i by auto
    ultimately obtain b where "(?o, b) \<in> set (register_table ops formats)"
      using register_keys_set [of ?o ops formats] by auto
    then have "build_behaviors ops formats ! i = Some b" "ob_opcode b = ?o"
      using build_behaviors_lookup [of ?o b] register_opcode [of ?o b] io by simp_all
    then show ?thesis using False by simp
  qed
  then show "map (map_option ob_opcode) (build_behaviors ops formats) ! i =
      map (\<lambda>opc. if opc = Blank \<or> opc = Unused1 then None else Some opc) (butlast OPCODE_TABLE) ! i"
    using i len by (simp add: nth_butlast)
qed

text \<open>The operations with a truth value, whose output has a size of its own, and the shifts, whose amount has.\<close>

definition flag_ops :: "opcode list" where
  "flag_ops = [IntEqual, IntNotequal, IntSless, IntSlessequal, IntLess, IntLessequal, IntCarry, IntScarry, IntSborrow]"

definition shift_ops :: "opcode list" where
  "shift_ops = [IntLeft, IntRight, IntSright]"

lemma flag_behavior_size:
  "evaluate_binary OpBehaviorEqual so s a b = evaluate_binary OpBehaviorEqual s s a b"
  "evaluate_binary OpBehaviorNotEqual so s a b = evaluate_binary OpBehaviorNotEqual s s a b"
  "evaluate_binary OpBehaviorIntSless so s a b = evaluate_binary OpBehaviorIntSless s s a b"
  "evaluate_binary OpBehaviorIntSlessEqual so s a b = evaluate_binary OpBehaviorIntSlessEqual s s a b"
  "evaluate_binary OpBehaviorIntLess so s a b = evaluate_binary OpBehaviorIntLess s s a b"
  "evaluate_binary OpBehaviorIntLessEqual so s a b = evaluate_binary OpBehaviorIntLessEqual s s a b"
  "evaluate_binary OpBehaviorIntCarry so s a b = evaluate_binary OpBehaviorIntCarry s s a b"
  "evaluate_binary OpBehaviorIntScarry so s a b = evaluate_binary OpBehaviorIntScarry s s a b"
  "evaluate_binary OpBehaviorIntSborrow so s a b = evaluate_binary OpBehaviorIntSborrow s s a b"
  by (simp_all add: behavior_defs op_behavior_default_def scarry_evaluate_def sborrow_evaluate_def)

lemma agree_shift:
  assumes "valid_size s" "a \<le> calc_mask s"
  shows "agrees (evaluate_binary OpBehaviorIntLeft s s a b) (pcode_ref IntLeft (8 * nat s) (uint a) (uint b))"
    "agrees (evaluate_binary OpBehaviorIntRight s s a b) (pcode_ref IntRight (8 * nat s) (uint a) (uint b))"
    "agrees (evaluate_binary OpBehaviorIntSright s s a b) (pcode_ref IntSright (8 * nat s) (uint a) (uint b))"
  using ref_left [OF assms] ref_right [OF assms] ref_sright [OF assms]
  by (simp_all add: behavior_defs op_behavior_default_def pcode_ref_def Let_def)

lemma binary_registered:
  assumes "valid_size s" "a \<le> calc_mask s" "b \<le> calc_mask s \<or> opc \<in> set shift_ops" "opc \<in> set int_binary_ops" "so = s \<or> opc \<in> set flag_ops"
  obtains bh where "(opc, bh) \<in> set (register_table ops formats)" "build_behaviors ops formats ! index opc = Some bh"
    "agrees (evaluate_binary bh so s a b) (pcode_ref opc (8 * nat s) (uint a) (uint b))"
proof -
  note reg = registered_int [of ops formats] and cases = list.set insert_iff empty_iff
  have "\<exists>bh. (opc, bh) \<in> set (register_table ops formats) \<and> agrees (evaluate_binary bh so s a b) (pcode_ref opc (8 * nat s) (uint a) (uint b))"
  proof (cases "opc \<in> set shift_ops")
    case True
    then have "so = s" using assms(5) by (auto simp: shift_ops_def flag_ops_def)
    then show ?thesis using True agree_shift [OF assms(1,2), of b] reg(15-17) by (auto simp: shift_ops_def)
  next
    case False
    then have b: "b \<le> calc_mask s" using assms(3) by simp
    note ag = agree_int [OF assms(1,2) b]
    show ?thesis
    proof (cases "opc \<in> set flag_ops")
      case True
      note flags = ag(1-6,9-11) [folded flag_behavior_size [of so s a b]]
      from True show ?thesis unfolding flag_ops_def cases
        by (elim disjE FalseE) (hypsubst, rule exI, rule conjI, rule reg, rule flags)+
    next
      case False
      then have "so = s" using assms(5) by simp
      from assms(4) show ?thesis unfolding int_binary_ops_def cases \<open>so = s\<close>
        by (elim disjE FalseE) (hypsubst, rule exI, rule conjI, rule reg, rule ag)+
    qed
  qed
  then show ?thesis using build_behaviors_lookup that by blast
qed

text \<open>C1: refinement of the integer reference by the instruction table. For every binary integer
  operation, every size of one to eight bytes and all operands of that size, the behaviour registered
  for the operation returns the number the two's complement reference \<open>pcode_ref\<close> gives, and returns
  an error exactly when the reference has no value (a division or remainder by zero). This covers
  comparisons, addition, subtraction, multiplication, carry, signed carry and borrow, the three shifts
  with any shift amount, bitwise operations, and signed and unsigned division.\<close>

theorem evaluate_binary_refines:
  assumes "valid_size s" "a \<le> calc_mask s" "b \<le> calc_mask s" "opc \<in> set int_binary_ops"
  shows "\<exists>bh. build_behaviors ops formats ! index opc = Some bh \<and>
    agrees (evaluate_binary bh s s a b) (pcode_ref opc (8 * nat s) (uint a) (uint b))"
  using binary_registered [OF assms(1,2) disjI1 [OF assms(3)] assms(4) disjI1 [OF refl], of ops formats] by blast

text \<open>A table with no floating-point formats never calls the parameter's functions.\<close>

definition no_float_ops :: "unit float_ops" where
  "no_float_ops = \<lparr>get_size = (\<lambda>_. 0), op_equal = (\<lambda>_ _ _. 0), op_not_equal = (\<lambda>_ _ _. 0),
     op_less = (\<lambda>_ _ _. 0), op_less_equal = (\<lambda>_ _ _. 0), op_add = (\<lambda>_ _ _. 0), op_div = (\<lambda>_ _ _. 0),
     op_mult = (\<lambda>_ _ _. 0), op_sub = (\<lambda>_ _ _. 0), op_nan = (\<lambda>_ _. 0), op_neg = (\<lambda>_ _. 0),
     op_abs = (\<lambda>_ _. 0), op_sqrt = (\<lambda>_ _. 0), op_ceil = (\<lambda>_ _. 0), op_floor = (\<lambda>_ _. 0),
     op_round = (\<lambda>_ _. 0), op_int2float = (\<lambda>_ _ _. 0), op_float2float = (\<lambda>_ _ _. 0),
     op_trunc = (\<lambda>_ _ _. 0)\<rparr>"

theorem evaluate_binary_refines_witness:
  "\<exists>bh. build_behaviors no_float_ops [] ! index IntSborrow = Some bh \<and>
    agrees (evaluate_binary bh 1 1 0x80 1) (Some 1)"
  using evaluate_binary_refines [of 1 "0x80" 1 IntSborrow no_float_ops "[]"]
  by (simp add: valid_size_def calc_mask_def UINTBMASKS_def as_u32_def int_binary_ops_def pcode_ref_def
      out_of_range_def sval_def flag_def Let_def)

end
