(* ===== verification/Op_Recover.thy ===== *)
theory Op_Recover
  imports Op_Semantics
begin

text \<open>
  The \<open>recover_input\<close> methods of src/src/opbehavior.rs: given an output, and the other input for a
  binary operation, they compute the missing input. They are related to the \<open>evaluate\<close> methods of the
  same behaviour. The last section treats the complementary comparisons of \<open>get_booleanflip\<close>.
\<close>

section \<open>Unary operations\<close>

lemma calc_mask_mono: "valid_size si \<Longrightarrow> valid_size so \<Longrightarrow> si \<le> so \<Longrightarrow> calc_mask si \<le> calc_mask so"
  unfolding le_calc_mask_iff by (intro u64_bit_eqI) (auto simp: bit_u64 bit_calc_mask)

lemma top_bit_mask:
  assumes "valid_size s"
  shows "calc_mask s XOR drop_bit 1 (calc_mask s) = 2 ^ (8 * nat s - 1)"
proof (rule u64_bit_eqI)
  fix n :: nat
  assume "n < 64"
  then show "bit (calc_mask s XOR drop_bit 1 (calc_mask s)) n = bit (2 ^ (8 * nat s - 1) :: u64) n"
    using assms nat_size_bounds [OF assms] by (auto simp: bit_u64 bit_calc_mask bit_exp_iff)
qed

lemma bit_sext:
  assumes "valid_size si" "valid_size so" "si \<le> so"
  shows "bit (sign_extend_size v si so) i \<longleftrightarrow> i < 8 * nat so \<and> bit v (min (8 * nat si - 1) i)"
  using nat_size_bounds [OF assms(2)] by (auto simp: sign_extend_size_bits [OF assms] bit_u64)

lemma sext_recover_eq:
  assumes "valid_size si" "valid_size so" "si \<le> so" "out \<le> calc_mask so"
  shows "sext_recover so out si =
    (if sign_extend_size (take_bit (8 * nat si) out) si so = out then Inr (take_bit (8 * nat si) out)
     else Inl (Evaluation ''Output is not in range of sext operation''))"
proof -
  let ?n = "8 * nat si" and ?m = "8 * nat so"
  have nm: "0 < ?n" "?n \<le> ?m" using assms by (auto simp: valid_size_def)
  have big: "\<not> bit out i" if "?m \<le> i" for i
    using assms(4) that unfolding le_calc_mask_iff [OF assms(2)] by (metis bit_u64_take not_le)
  have ext: "sign_extend_size (take_bit ?n out) si so = out \<longleftrightarrow>
      (\<forall>i. ?n \<le> i \<and> i < ?m \<longrightarrow> (bit out i \<longleftrightarrow> bit out (?n - 1)))"
  proof -
    have "bit (sign_extend_size (take_bit ?n out) si so) i \<longleftrightarrow>
        i < ?m \<and> bit out (if i < ?n then i else ?n - 1)" for i
    proof -
      have "min (?n - 1) i = (if i < ?n then i else ?n - 1)" "?n - 1 < ?n" using nm by auto
      then show ?thesis unfolding bit_sext [OF assms(1-3)] bit_u64_take by simp
    qed
    note b = this
    show ?thesis
    proof
      assume e: "sign_extend_size (take_bit ?n out) si so = out"
      show "\<forall>i. ?n \<le> i \<and> i < ?m \<longrightarrow> (bit out i \<longleftrightarrow> bit out (?n - 1))"
      proof (intro allI impI)
        show "bit out i \<longleftrightarrow> bit out (?n - 1)" if "?n \<le> i \<and> i < ?m" for i
          using b [of i] that unfolding e by (simp only: not_less [symmetric] if_False simp_thms)
      qed
    next
      assume a: "\<forall>i. ?n \<le> i \<and> i < ?m \<longrightarrow> (bit out i \<longleftrightarrow> bit out (?n - 1))"
      have "bit (sign_extend_size (take_bit ?n out) si so) i \<longleftrightarrow> bit out i" for i
        using a [rule_format, of i] big [of i] nm unfolding b by (cases "i < ?n"; cases "i < ?m") simp_all
      then show "sign_extend_size (take_bit ?n out) si so = out" by (simp add: bit_eq_iff)
    qed
  qed
  show ?thesis
  proof (cases "bit out (?n - 1)")
    case True
    have "out AND (calc_mask so XOR calc_mask si) = calc_mask so XOR calc_mask si \<longleftrightarrow>
        (\<forall>i. ?n \<le> i \<and> i < ?m \<longrightarrow> bit out i)"
    proof -
      have "bit (calc_mask so XOR calc_mask si) i \<longleftrightarrow> ?n \<le> i \<and> i < ?m" for i
        using nm by (auto simp: bit_u64 bit_calc_mask [OF assms(1)] bit_calc_mask [OF assms(2)])
      then show ?thesis by (simp add: and_eq_right_iff)
    qed
    moreover have "out AND 2 ^ (?n - 1) \<noteq> 0" using True by (simp only: u64_and_exp)
    ultimately show ?thesis
      using True unfolding ext sext_recover_def Let_def top_bit_mask [OF assms(1)]
      by (simp add: and_calc_mask [OF assms(1)])
  next
    case False
    have "take_bit ?n out = out \<longleftrightarrow> (\<forall>i. ?n \<le> i \<and> i < ?m \<longrightarrow> \<not> bit out i)"
      unfolding u64_take_self_iff using big by (meson not_le)
    moreover have "out AND 2 ^ (?n - 1) = 0" using False u64_and_exp [of out "?n - 1"] by blast
    ultimately show ?thesis
      using False unfolding ext sext_recover_def Let_def top_bit_mask [OF assms(1)]
      by (simp add: and_calc_mask [OF assms(1)])
  qed
qed

lemma sext_inverse:
  assumes "valid_size si" "valid_size so" "si \<le> so"
  shows "v \<le> calc_mask si \<and> sign_extend_size v si so = out \<longleftrightarrow>
    out \<le> calc_mask so \<and> sext_recover so out si = Inr v"
proof -
  have low: "take_bit (8 * nat si) (sign_extend_size v si so) = v"
    and fit: "sign_extend_size v si so \<le> calc_mask so" if "v \<le> calc_mask si"
  proof -
    have "bit (sign_extend_size v si so) i \<longleftrightarrow> bit v i" if "i < 8 * nat si" for i
    proof -
      have "min (8 * nat si - 1) i = i" "i < 8 * nat so" using that assms by (auto simp: valid_size_def)
      then show ?thesis by (simp add: bit_sext [OF assms])
    qed
    moreover have "bit v i \<Longrightarrow> i < 8 * nat si" for i
      using that unfolding le_calc_mask_iff [OF assms(1)] by (metis bit_u64_take)
    ultimately show "take_bit (8 * nat si) (sign_extend_size v si so) = v"
      unfolding bit_eq_iff by (auto simp: bit_u64_take)
    show "sign_extend_size v si so \<le> calc_mask so"
      unfolding le_calc_mask_iff [OF assms(2)]
      by (intro u64_bit_eqI) (auto simp: bit_u64 bit_sext [OF assms])
  qed
  have "take_bit (8 * nat si) out \<le> calc_mask si" by (simp add: le_calc_mask_iff [OF assms(1)])
  then show ?thesis
    using low fit sext_recover_eq [OF assms, of out] by (auto split: if_splits)
qed

lemma zext_inverse:
  assumes "valid_size si" "valid_size so" "si \<le> so"
  shows "v \<le> calc_mask si \<and> v = out \<longleftrightarrow> out \<le> calc_mask so \<and> zext_recover so out si = Inr v"
  using calc_mask_mono [OF assms]
  by (auto simp: zext_recover_def Let_def and.commute [of "calc_mask si"] and_calc_mask [OF assms(1)]
      le_calc_mask_iff [OF assms(1)] split: if_splits)
     (metis le_calc_mask_iff [OF assms(1)] order_trans)

lemma negate_take:
  assumes "valid_size s"
  shows "uintb_negate v s = take_bit (8 * nat s) (NOT v)"
    "uintb_negate (v - 1) s = take_bit (8 * nat s) (0 - v)"
  by (simp_all add: uintb_negate_def and_calc_mask [OF assms] not_eq_complement)

lemma negate_inverse:
  assumes "valid_size s"
  shows "v \<le> calc_mask s \<and> uintb_negate v s = out \<longleftrightarrow> out \<le> calc_mask s \<and> uintb_negate out s = v"
    "v \<le> calc_mask s \<and> uintb_negate (v - 1) s = out \<longleftrightarrow> out \<le> calc_mask s \<and> uintb_negate (out - 1) s = v"
  unfolding negate_take(2) [OF assms] unfolding negate_take(1) [OF assms] le_calc_mask_iff [OF assms]
  by (auto simp: take_bit_not_take_bit take_bit_arith(3) [OF assms] diff_diff_eq2 simp del: diff_0)

section \<open>Binary operations\<close>

lemma add_sub_recover:
  assumes "valid_size s" "out \<le> calc_mask s" "x \<le> calc_mask s"
  shows "(((out - x) AND calc_mask s) + x) AND calc_mask s = out"
    "(x + ((out - x) AND calc_mask s)) AND calc_mask s = out"
    "(((x + out) AND calc_mask s) - x) AND calc_mask s = out"
    "(x - ((x - out) AND calc_mask s)) AND calc_mask s = out"
proof -
  have f: "take_bit (8 * nat s) out = out" using assms by (simp add: le_calc_mask_iff)
  show "(((out - x) AND calc_mask s) + x) AND calc_mask s = out"
    "(x + ((out - x) AND calc_mask s)) AND calc_mask s = out"
    "(((x + out) AND calc_mask s) - x) AND calc_mask s = out"
    "(x - ((x - out) AND calc_mask s)) AND calc_mask s = out"
    by (simp_all add: and_calc_mask [OF assms(1)] take_bit_arith [OF assms(1)] f add.commute [of x])
qed

lemma left_recover_sound:
  assumes "valid_size s" "out \<le> calc_mask s" "left_recover 0 s out s x = Inr v"
  shows "left_evaluate s s v x = Inr out \<and> v \<le> calc_mask s"
proof -
  have g: "\<not> 8 * s \<le> uint x" and
    z: "wshl out (s * 8 - wrap_i32 (uint x)) AND calc_mask s = 0" and v: "v = wshr out (wrap_i32 (uint x))"
    using assms(3) by (auto simp: left_recover_def Let_def shift_guard [OF assms(1)] split: if_splits)
  obtain k where k: "k < 8 * nat s" "k < 64" "as_u32 (uint x) mod 64 = int k" "wrap_i32 (uint x) = int k"
    using shift_amount_in_range [OF assms(1) g] by metis
  have big: "\<not> bit out i" if "8 * nat s \<le> i" for i
    using assms(2) that unfolding le_calc_mask_iff [OF assms(1)] by (metis bit_u64_take not_le)
  have low: "\<not> bit out i" if "i < k" for i
  proof -
    let ?d = "nat ((s * 8 - int k) mod 64)"
    have d: "?d + k = 8 * nat s \<or> k = 0" using k assms(1) by (auto simp: valid_size_def)
    then have "bit (push_bit ?d out AND calc_mask s) (i + ?d) \<longleftrightarrow> bit out i"
      using that k nat_size_bounds [OF assms(1)]
      by (auto simp: bit_u64 bit_calc_mask [OF assms(1)])
    then show ?thesis using z k by (simp add: wshl_def)
  qed
  have "v = drop_bit k out" using v k by (simp add: wshr_def)
  moreover have "push_bit k (drop_bit k out) AND calc_mask s = out"
  proof (rule u64_bit_eqI)
    show "bit (push_bit k (drop_bit k out) AND calc_mask s) n = bit out n" if "n < 64" for n
      using low [of n] big [of n] that
      by (cases "n < k"; cases "n < 8 * nat s") (auto simp: bit_u64 bit_calc_mask [OF assms(1)])
  qed
  moreover have "drop_bit k out \<le> calc_mask s"
    using big unfolding fits_iff [OF assms(1)] bit_u64 by (meson le_add1 le_trans not_less)
  ultimately show ?thesis
    using g k by (simp add: left_evaluate_def shift_guard [OF assms(1)] wshl_def)
qed

lemma right_recover_sound:
  assumes "valid_size s" "out \<le> calc_mask s" "right_recover 0 s out s x = Inr v"
  shows "right_evaluate s s v x = Inr out \<and> v \<le> calc_mask s"
proof -
  have g: "\<not> 8 * s \<le> uint x" and
    z: "wshr out (s * 8 - wrap_i32 (uint x)) = 0" and v: "v = wshl out (wrap_i32 (uint x))"
    using assms(3) by (auto simp: right_recover_def Let_def shift_guard [OF assms(1)] split: if_splits)
  obtain k where k: "k < 8 * nat s" "k < 64" "as_u32 (uint x) mod 64 = int k" "wrap_i32 (uint x) = int k"
    using shift_amount_in_range [OF assms(1) g] by metis
  let ?d = "nat ((s * 8 - int k) mod 64)"
  have "(s * 8 - int k) mod 64 \<le> s * 8 - int k"
    using k assms(1) by (intro zmod_le_nonneg_dividend) (auto simp: valid_size_def)
  then have d: "?d \<le> 8 * nat s - k" using k assms(1) by (auto simp: valid_size_def)
  have high: "\<not> bit out i" if "8 * nat s - k \<le> i" for i
  proof -
    have "\<not> bit (drop_bit ?d out) (i - ?d)" using z k by (simp add: wshr_def)
    then show ?thesis using that d by (simp add: bit_u64)
  qed
  have "v = push_bit k out" using v k by (simp add: wshl_def)
  moreover have "drop_bit k (push_bit k out AND calc_mask s) = out"
  proof (rule u64_bit_eqI)
    show "bit (drop_bit k (push_bit k out AND calc_mask s)) n = bit out n" for n
      using high [of n] k nat_size_bounds [OF assms(1)]
      by (cases "n < 8 * nat s - k") (auto simp: bit_u64 bit_calc_mask [OF assms(1)])
  qed
  moreover have "push_bit k out \<le> calc_mask s"
  proof -
    have "n < 8 * nat s" if "k \<le> n" "bit out (n - k)" for n
      using that high [of "n - k"] by linarith
    then show ?thesis by (auto simp: fits_iff [OF assms(1)] bit_u64)
  qed
  ultimately show ?thesis
    using g k by (simp add: right_evaluate_def shift_guard [OF assms(1)] wshr_def)
qed

lemma sright_count_bound: "sright_count n t c \<le> c + int n"
proof (induction n arbitrary: t c)
  case (Suc n)
  show ?case using Suc [of "drop_bit 1 t" c] Suc [of "drop_bit 1 t" "c + 1"] by simp
qed simp

lemma and_1_iff: "(t :: u64) AND 1 \<noteq> 0 \<longleftrightarrow> bit t 0"
  using u64_and_exp [of t 0] by simp

lemma sright_count_all: "sright_count n t c = c + int n \<longleftrightarrow> (\<forall>i<n. bit t i)"
proof (induction n arbitrary: t c)
  case (Suc n)
  have "(\<forall>i<Suc n. bit t i) \<longleftrightarrow> bit t 0 \<and> (\<forall>i<n. bit (drop_bit 1 t) i)"
    by (auto simp: bit_u64_drop less_Suc_eq_0_disj)
  then show ?case
    using Suc [of "drop_bit 1 t" "c + 1"] sright_count_bound [of n "drop_bit 1 t" c] and_1_iff [of t] by auto
qed simp

lemma sright_recover_sound:
  assumes "valid_size s" "out \<le> calc_mask s" "sright_recover 0 s out s x = Inr v"
  shows "sright_evaluate s s v x = Inr out"
proof -
  let ?n = "8 * nat s"
  have g: "\<not> 8 * s \<le> uint x" using assms(3)
    by (auto simp: sright_recover_def Let_def shift_guard [OF assms(1)] split: if_splits)
  obtain k where k: "k < ?n" "k < 64" "as_u32 (uint x) mod 64 = int k" "wrap_i32 (uint x) = int k"
    using shift_amount_in_range [OF assms(1) g] by metis
  have sh: "nat ((s * 8 - int k - 1) mod 64) = ?n - k - 1"
    using k assms(1) by (auto simp: valid_size_def)
  have w: "wshr out (s * 8 - int k - 1) = drop_bit (?n - k - 1) out" by (simp only: wshr_def sh)
  have v: "v = push_bit k out" and "sright_count (Suc k) (drop_bit (?n - k - 1) out) 0 = 0 + int (Suc k)"
    using assms(3) g k
    by (simp_all add: sright_recover_def Let_def shift_guard [OF assms(1)] w nat_add_distrib
        del: sright_count.simps shift_amount_small split: if_split_asm) (simp_all add: wshl_def)
  then have ones: "bit out (i + (?n - k - 1))" if "i \<le> k" for i
    using that unfolding sright_count_all by (auto simp: bit_u64_drop)
  have ones': "bit out i" if "?n - k - 1 \<le> i" "i < ?n" for i
    using ones [of "i - (?n - k - 1)"] that by simp
  have big: "i < ?n" if "bit out i" for i
    using assms(2) that unfolding fits_iff [OF assms(1)] by blast
  have "signbit_negative v s"
    using ones' [of "?n - k - 1"] k nat_size_bounds [OF assms(1)]
    by (simp add: signbit_negative_iff [OF assms(1)] v bit_u64 diff_commute) linarith
  moreover have "drop_bit k (push_bit k out) OR (drop_bit k (calc_mask s) XOR calc_mask s) = out"
  proof (rule u64_bit_eqI)
    show "bit (drop_bit k (push_bit k out) OR (drop_bit k (calc_mask s) XOR calc_mask s)) i = bit out i" for i
      using ones' [of i] big [of i] k nat_size_bounds [OF assms(1)]
      by (cases "i < ?n - k"; cases "i < ?n") (auto simp: bit_u64 bit_calc_mask [OF assms(1)])
  qed
  ultimately show ?thesis
    using g k v by (simp add: sright_evaluate_def shift_guard [OF assms(1)] wshr_def Let_def)
qed

section \<open>Where recovery misses inputs\<close>

text \<open>A shift by zero of an eight-byte value is evaluated, but its recovery is rejected: the guard
  shifts by 64, which the wrapping shift reduces to a shift by zero.\<close>

lemma shift_zero_not_recovered:
  "left_evaluate 8 8 1 0 = Inr 1" "\<exists>e. left_recover 0 8 1 8 0 = Inl e"
  "right_evaluate 8 8 1 0 = Inr 1" "\<exists>e. right_recover 0 8 1 8 0 = Inl e"
  by (simp_all add: left_evaluate_def left_recover_def right_evaluate_def right_recover_def shift_simps
      cxx_int_def wrap_i32_def as_u32_def calc_mask_def UINTBMASKS_def)

text \<open>The signed right shift recovers negative outputs only, and does not truncate to the input size.\<close>

lemma sright_recover_gaps:
  "sright_evaluate 1 1 0x10 1 = Inr 8"
  "sright_recover 0 1 8 1 1 = Inl (Evaluation ''Output is not in range of right shift operation'')"
  "sright_recover 0 1 0xff 1 1 = Inr 0x1fe"
  by code_simp+

section \<open>Complementary comparisons\<close>

definition int_comparisons :: "opcode list" where
  "int_comparisons = [IntEqual, IntNotequal, IntSless, IntSlessequal, IntLess, IntLessequal]"

lemma comparison_values:
  assumes "valid_size s" "a \<le> calc_mask s" "b \<le> calc_mask s"
  shows "evaluate_binary OpBehaviorIntSless s s a b = Inr (of_flag (sval (8 * nat s) (uint a) < sval (8 * nat s) (uint b)))"
    "evaluate_binary OpBehaviorIntSlessEqual s s a b = Inr (of_flag (sval (8 * nat s) (uint a) \<le> sval (8 * nat s) (uint b)))"
  using ref_signed_less [OF assms] by (simp_all add: OpBehaviorIntSless_def OpBehaviorIntSlessEqual_def)

lemma of_flag_not: "of_flag (\<not> p) = 1 - of_flag p"
  by (simp add: of_flag_def)

section \<open>Properties\<close>

text \<open>C32: recovery inverts evaluation for the unary integer operations. For zero and sign extension
  from \<open>si\<close> to \<open>so\<close> bytes, and for copy, two's complement and bitwise negation at one size, a value
  \<open>v\<close> of the input size evaluates to \<open>out\<close> if and only if \<open>out\<close> is of the output size and
  \<open>recover_input_unary\<close> returns \<open>v\<close> for it; in particular recovery fails exactly on the outputs no input
  produces.\<close>

theorem recover_unary_inverse:
  assumes "valid_size si" "valid_size so" "si \<le> so"
    "bh = OpBehaviorIntZext \<or> bh = OpBehaviorIntSext \<or>
     (si = so \<and> (bh = OpBehaviorCopy \<or> bh = OpBehaviorInt2Comp \<or> bh = OpBehaviorIntNegate))"
  shows "v \<le> calc_mask si \<and> evaluate_unary bh so si v = Inr out \<longleftrightarrow>
    out \<le> calc_mask so \<and> recover_input_unary bh so out si = Inr v"
  using assms(4) zext_inverse [OF assms(1-3), of v out] sext_inverse [OF assms(1-3), of v out]
    negate_inverse [OF assms(1), of v out]
  by (elim disjE conjE)
    (auto simp: OpBehaviorIntZext_def OpBehaviorIntSext_def OpBehaviorCopy_def
      OpBehaviorInt2Comp_def OpBehaviorIntNegate_def)

theorem recover_unary_inverse_witness:
  "recover_input_unary OpBehaviorIntSext 4 0xffffff80 1 = Inr 0x80 \<and>
   (evaluate_unary OpBehaviorIntSext 4 1 0x80 = Inr 0xffffff80)"
proof -
  have "sext_recover 4 0xffffff80 1 = Inr 0x80"
    by (simp add: sext_recover_def calc_mask_def UINTBMASKS_def as_u32_def)
  then show ?thesis
    using recover_unary_inverse [of 1 4 OpBehaviorIntSext "0x80" "0xffffff80"]
    by (simp add: valid_size_def OpBehaviorIntSext_def calc_mask_def UINTBMASKS_def as_u32_def)
qed

text \<open>C28: recovery is sound for the binary integer operations. Whenever \<open>recover_input_binary\<close> of
  addition, subtraction (for either slot), left shift, right shift or signed right shift returns a value
  for an output and the other input of one size, evaluating the operation on that value and the other
  input gives the output back; addition and subtraction never fail.\<close>

theorem recover_binary_sound:
  assumes "valid_size s" "out \<le> calc_mask s" "x \<le> calc_mask s"
  shows "(\<exists>v. recover_input_binary OpBehaviorIntAdd slot s out s x = Inr v \<and>
            evaluate_binary OpBehaviorIntAdd s s v x = Inr out)
    \<and> (\<exists>v. recover_input_binary OpBehaviorIntSub 0 s out s x = Inr v \<and>
            evaluate_binary OpBehaviorIntSub s s v x = Inr out)
    \<and> (\<exists>v. recover_input_binary OpBehaviorIntSub 1 s out s x = Inr v \<and>
            evaluate_binary OpBehaviorIntSub s s x v = Inr out)
    \<and> (\<forall>bh v. bh = OpBehaviorIntLeft \<or> bh = OpBehaviorIntRight \<or> bh = OpBehaviorIntSright \<longrightarrow>
            recover_input_binary bh 0 s out s x = Inr v \<longrightarrow> evaluate_binary bh s s v x = Inr out)"
  using add_sub_recover [OF assms] left_recover_sound [OF assms(1,2)] right_recover_sound [OF assms(1,2)]
    sright_recover_sound [OF assms(1,2)]
  by (auto simp: OpBehaviorIntAdd_def OpBehaviorIntSub_def sub_recover_def OpBehaviorIntLeft_def
      OpBehaviorIntRight_def OpBehaviorIntSright_def)

theorem recover_binary_sound_witness:
  "recover_input_binary OpBehaviorIntLeft 0 1 0xf0 1 4 = Inr 0xf \<and>
   evaluate_binary OpBehaviorIntLeft 1 1 0xf 4 = Inr 0xf0"
proof -
  have "recover_input_binary OpBehaviorIntLeft 0 1 0xf0 1 4 = Inr 0xf"
    by (simp add: OpBehaviorIntLeft_def left_recover_def cxx_int_def wrap_i32_def calc_mask_def
        UINTBMASKS_def as_u32_def word_le_def)
  then show ?thesis
    using recover_binary_sound [of 1 "0xf0" 4 0]
    by (simp add: valid_size_def calc_mask_def UINTBMASKS_def as_u32_def)
qed

text \<open>\<open>get_booleanflip\<close> gives the complementary comparison. For every integer comparison it
  returns an operation and whether to swap the operands; on operands of any size of one to eight bytes,
  the registered behaviour of that operation, on the operands so ordered, returns one minus what the
  original comparison returns.\<close>

theorem booleanflip_complements:
  assumes "valid_size s" "a \<le> calc_mask s" "b \<le> calc_mask s" "opc \<in> set int_comparisons"
  shows "\<exists>opc' reorder bh bh' r. get_booleanflip opc = Some (opc', reorder) \<and>
    build_behaviors ops formats ! index opc = Some bh \<and>
    build_behaviors ops formats ! index opc' = Some bh' \<and>
    evaluate_binary bh s s a b = Inr r \<and> r \<le> 1 \<and>
    evaluate_binary bh' s s (if reorder then b else a) (if reorder then a else b) = Inr (1 - r)"
proof -
  have intro: ?thesis
    if "get_booleanflip opc = Some (opc', re)" "(opc, bh) \<in> set (register_table ops formats)"
      "(opc', bh') \<in> set (register_table ops formats)" "evaluate_binary bh s s a b = Inr (of_flag p)"
      "evaluate_binary bh' s s (if re then b else a) (if re then a else b) = Inr (of_flag (\<not> p))"
    for opc' re bh bh' p
    using that [unfolded of_flag_not] build_behaviors_lookup
    by (intro exI [of _ opc'] exI [of _ re] exI [of _ bh] exI [of _ bh'] exI [of _ "of_flag p"])
      (auto simp: of_flag_def)
  note reg = registered_int(1-6) [of ops formats]
  note vals = comparison_values [OF assms(1,2,3)] comparison_values [OF assms(1,3,2)]
  note defs = OpBehaviorEqual_def OpBehaviorNotEqual_def OpBehaviorIntLess_def OpBehaviorIntLessEqual_def
  consider "opc = IntEqual" | "opc = IntNotequal" | "opc = IntSless" | "opc = IntSlessequal"
    | "opc = IntLess" | "opc = IntLessequal"
    using assms(4) by (auto simp: int_comparisons_def)
  then show ?thesis
  proof cases
    case 1 then show ?thesis by (intro intro [OF _ _ reg(2)]) (use reg in \<open>auto simp: defs\<close>)
  next
    case 2 then show ?thesis by (intro intro [OF _ _ reg(1)]) (use reg in \<open>auto simp: defs\<close>)
  next
    case 3 then show ?thesis by (intro intro [OF _ _ reg(4)]) (use reg in \<open>auto simp: vals not_less\<close>)
  next
    case 4 then show ?thesis by (intro intro [OF _ _ reg(3)]) (use reg in \<open>auto simp: vals not_le\<close>)
  next
    case 5 then show ?thesis by (intro intro [OF _ _ reg(6)]) (use reg in \<open>auto simp: defs not_less\<close>)
  next
    case 6 then show ?thesis by (intro intro [OF _ _ reg(5)]) (use reg in \<open>auto simp: defs not_le\<close>)
  qed
qed

theorem booleanflip_complements_witness:
  "\<exists>opc' reorder bh bh' r. get_booleanflip IntSless = Some (opc', reorder) \<and>
    build_behaviors no_float_ops [] ! index IntSless = Some bh \<and>
    build_behaviors no_float_ops [] ! index opc' = Some bh' \<and>
    evaluate_binary bh 1 1 0xff 1 = Inr r \<and> r \<le> 1 \<and>
    evaluate_binary bh' 1 1 (if reorder then 1 else 0xff) (if reorder then 0xff else 1) = Inr (1 - r)"
  by (rule booleanflip_complements)
    (simp_all add: valid_size_def calc_mask_def UINTBMASKS_def as_u32_def int_comparisons_def)

end
