(* ===== verification/Circle_Range.thy ===== *)
theory Circle_Range
  imports Bits Opcodes
begin

text \<open>
  The definitions of \<open>CircleRange\<close> in src/src/rangeutil.rs: a set of integers modulo a byte size,
  given by a left bound, an excluded right bound and a stride, possibly wrapping around zero. A method
  that mutates \<open>self\<close> returns the new record, paired with its result where it has one. A stride is
  positive in every range the program builds except the initial empty one; the remainders below are
  only reached with a positive stride.
\<close>

section \<open>State and elementary operations\<close>

record circle_range =
  cr_left :: u64
  cr_right :: u64
  cr_mask :: u64
  cr_isempty :: bool
  cr_step :: i32

definition step_value :: "i32 \<Rightarrow> u64" where
  "step_value step = word_of_int step"

definition ARRANGE :: string where
  "ARRANGE = ''gcgbegdagggggggeggggcgbggggggggcdfgggggggegdggggbgggfggggcgbegda''"

definition cr_new :: circle_range where
  "cr_new = \<lparr>cr_left = 0, cr_right = 0, cr_mask = 0, cr_isempty = True, cr_step = 0\<rparr>"

definition new_range :: "u64 \<Rightarrow> u64 \<Rightarrow> i32 \<Rightarrow> i32 \<Rightarrow> circle_range" where
  "new_range lft rgt sz stp = (let m = calc_mask sz in
     \<lparr>cr_left = lft AND m, cr_right = rgt AND m, cr_mask = m, cr_isempty = False, cr_step = stp\<rparr>)"

definition new_bool :: "bool \<Rightarrow> circle_range" where
  "new_bool val =
     \<lparr>cr_left = (if val then 1 else 0), cr_right = of_flag val + 1, cr_mask = 0xff, cr_isempty = False, cr_step = 1\<rparr>"

definition new_single :: "u64 \<Rightarrow> i32 \<Rightarrow> circle_range" where
  "new_single val sz = (let m = calc_mask sz in
     \<lparr>cr_left = val, cr_right = (val + 1) AND m, cr_mask = m, cr_isempty = False, cr_step = 1\<rparr>)"

definition normalize :: "circle_range \<Rightarrow> circle_range" where
  "normalize r =
     (if cr_left r = cr_right r then
        let l = (if cr_step r \<noteq> 1 then cr_left r mod step_value (cr_step r) else 0)
        in r\<lparr>cr_left := l, cr_right := l\<rparr>
      else r)"

definition cr_complement :: "circle_range \<Rightarrow> circle_range" where
  "cr_complement r =
     (if cr_isempty r then r\<lparr>cr_left := 0, cr_right := 0, cr_isempty := False\<rparr>
      else if cr_left r = cr_right r then r\<lparr>cr_isempty := True\<rparr>
      else r\<lparr>cr_left := cr_right r, cr_right := cr_left r\<rparr>)"

definition contains :: "circle_range \<Rightarrow> u64 \<Rightarrow> bool" where
  "contains r val =
     (if cr_isempty r then False
      else if cr_step r \<noteq> 1 \<and> cr_left r mod step_value (cr_step r) \<noteq> val mod step_value (cr_step r) then False
      else if cr_left r < cr_right r then
        (if val < cr_left r then False else if cr_right r \<le> val then False else True)
      else if cr_right r < cr_left r then
        (if val < cr_right r then True else if val \<ge> cr_left r then True else False)
      else True)"

definition convert_to_boolean :: "circle_range \<Rightarrow> circle_range \<times> bool" where
  "convert_to_boolean r =
     (if cr_isempty r then (r, False)
      else let contains_zero = contains r 0; contains_one = contains r 1;
               r = r\<lparr>cr_mask := 0xff, cr_step := 1\<rparr> in
        if contains_zero \<and> contains_one then (r\<lparr>cr_left := 0, cr_right := 2, cr_isempty := False\<rparr>, True)
        else if contains_zero then (r\<lparr>cr_left := 0, cr_right := 1, cr_isempty := False\<rparr>, False)
        else if contains_one then (r\<lparr>cr_left := 1, cr_right := 2, cr_isempty := False\<rparr>, False)
        else (r\<lparr>cr_isempty := True\<rparr>, False))"

text \<open>The two helpers return their verdict (\<open>True\<close>: the restriction is empty) with the new bounds.\<close>

definition new_stride :: "u64 \<Rightarrow> i32 \<Rightarrow> i32 \<Rightarrow> u32 \<Rightarrow> u64 \<Rightarrow> u64 \<Rightarrow> bool \<times> u64 \<times> u64" where
  "new_stride m step old_step rem myleft myright =
     (if old_step \<noteq> 1 \<and> (ucast (myleft mod step_value old_step) :: u32) \<noteq> rem mod word_of_int old_step
      then (True, myleft, myright)
      else let orig_order = myleft < myright;
               left_rem = (ucast (myleft mod step_value step) :: u32);
               right_rem = (ucast (myright mod step_value step) :: u32);
               myleft = (if left_rem > rem then myleft + ucast (rem + word_of_int step - left_rem)
                         else myleft + ucast (rem - left_rem));
               myright = (if right_rem > rem then myright + ucast (rem + word_of_int step - right_rem)
                          else myright + ucast (rem - right_rem));
               myleft = myleft AND m;
               myright = myright AND m;
               new_order = myleft < myright
           in (orig_order \<noteq> new_order, myleft, myright))"

definition new_domain :: "u64 \<Rightarrow> i32 \<Rightarrow> u64 \<Rightarrow> u64 \<Rightarrow> bool \<times> u64 \<times> u64" where
  "new_domain new_mask new_step myleft myright =
     (let rem = (if new_step \<noteq> 1 then myleft mod step_value new_step else 0) in
      if myleft > new_mask \<and> myright > new_mask then
        (if myleft < myright then (True, myleft, myright) else (False, rem, rem))
      else let myleft = (if myleft > new_mask then rem else myleft);
               myright = (if myright > new_mask then rem else myright) in
        if myleft = myright then (False, rem, rem) else (False, myleft, myright))"

definition encode_range_overlaps :: "u64 \<Rightarrow> u64 \<Rightarrow> u64 \<Rightarrow> u64 \<Rightarrow> char" where
  "encode_range_overlaps op1left op1right op2left op2right =
     ARRANGE ! ((if op1left \<le> op1right then 0x20 else 0) + (if op1left \<le> op2left then 0x10 else 0)
       + (if op1left \<le> op2right then 8 else 0) + (if op1right \<le> op2left then 4 else 0)
       + (if op1right \<le> op2right then 2 else 0) + (if op2left \<le> op2right then 1 else 0))"

definition set_range :: "circle_range \<Rightarrow> u64 \<Rightarrow> u64 \<Rightarrow> i32 \<Rightarrow> i32 \<Rightarrow> circle_range" where
  "set_range r lft rgt sz step = (let m = calc_mask sz in
     r\<lparr>cr_mask := m, cr_left := lft AND m, cr_right := rgt AND m, cr_step := step, cr_isempty := False\<rparr>)"

definition set_range_single :: "circle_range \<Rightarrow> u64 \<Rightarrow> i32 \<Rightarrow> circle_range" where
  "set_range_single r val sz = (let m = calc_mask sz in
     r\<lparr>cr_mask := m, cr_step := 1, cr_left := val, cr_right := (val + 1) AND m, cr_isempty := False\<rparr>)"

definition set_full :: "circle_range \<Rightarrow> i32 \<Rightarrow> circle_range" where
  "set_full r sz =
     r\<lparr>cr_mask := calc_mask sz, cr_step := 1, cr_left := 0, cr_right := 0, cr_isempty := False\<rparr>"

definition is_full :: "circle_range \<Rightarrow> bool" where
  "is_full r \<longleftrightarrow> \<not> cr_isempty r \<and> cr_step r = 1 \<and> cr_left r = cr_right r"

definition is_single :: "circle_range \<Rightarrow> bool" where
  "is_single r \<longleftrightarrow> \<not> cr_isempty r \<and> cr_right r = (cr_left r + step_value (cr_step r)) AND cr_mask r"

definition get_max :: "circle_range \<Rightarrow> u64" where
  "get_max r = (cr_right r - step_value (cr_step r)) AND cr_mask r"

definition cr_get_size :: "circle_range \<Rightarrow> u64" where
  "cr_get_size r =
     (if cr_isempty r then 0
      else let step = step_value (cr_step r) in
        if cr_left r < cr_right r then (cr_right r - cr_left r) div step
        else let val = (cr_mask r - (cr_left r - cr_right r) + step) div step in
          if val = 0 then (if cr_step r > 1 then cr_mask r div step + 1 else cr_mask r)
          else val)"

definition get_max_info :: "circle_range \<Rightarrow> i32" where
  "get_max_info r =
     (let half_point = cr_mask r XOR drop_bit 1 (cr_mask r) in
      if contains r half_point then 64 - count_leading_zeros half_point
      else let size_left = (if half_point AND cr_left r = 0 then count_leading_zeros (cr_left r)
                            else count_leading_zeros (NOT (cr_left r) AND cr_mask r));
               size_right = (if half_point AND cr_right r = 0 then count_leading_zeros (cr_right r)
                             else count_leading_zeros (NOT (cr_right r) AND cr_mask r)) in
        64 - (if size_right < size_left then size_right else size_left))"

definition get_next :: "circle_range \<Rightarrow> u64 \<Rightarrow> u64 \<times> bool" where
  "get_next r val = (let val = (val + step_value (cr_step r)) AND cr_mask r in (val, val \<noteq> cr_right r))"

definition cr_eq :: "circle_range \<Rightarrow> circle_range \<Rightarrow> bool" where
  "cr_eq r op2 =
     (if cr_isempty r \<noteq> cr_isempty op2 then False
      else if cr_isempty r then True
      else cr_left r = cr_left op2 \<and> cr_right r = cr_right op2 \<and> cr_mask r = cr_mask op2
        \<and> cr_step r = cr_step op2)"

section \<open>Containment, intersection, union\<close>

definition contains_range :: "circle_range \<Rightarrow> circle_range \<Rightarrow> bool" where
  "contains_range r op2 =
     (if cr_isempty r then cr_isempty op2
      else if cr_isempty op2 then True
      else if cr_step r > cr_step op2 \<and> \<not> is_single op2 then False
      else if cr_left r = cr_right r then True
      else if cr_left op2 = cr_right op2 then False
      else if cr_left r mod step_value (cr_step r) \<noteq> cr_left op2 mod step_value (cr_step r) then False
      else if cr_left r = cr_left op2 \<and> cr_right r = cr_right op2 then True
      else let overlap_code = encode_range_overlaps (cr_left r) (cr_right r) (cr_left op2) (cr_right op2) in
        if overlap_code = CHR ''c'' then True
        else if overlap_code = CHR ''b'' \<and> cr_right r = cr_right op2 then True
        else False)"

text \<open>The match on the overlap code in \<open>intersect\<close>; \<open>None\<close> is the result 2, which leaves \<open>self\<close>.\<close>

definition bounds_or_empty :: "circle_range \<Rightarrow> u64 \<Rightarrow> u64 \<Rightarrow> circle_range" where
  "bounds_or_empty r l rt =
     (let r = r\<lparr>cr_left := l, cr_right := rt\<rparr> in if l = rt then r\<lparr>cr_isempty := True\<rparr> else r)"

definition intersect_code :: "circle_range \<Rightarrow> u64 \<Rightarrow> u64 \<Rightarrow> u64 \<Rightarrow> u64 \<Rightarrow> circle_range option" where
  "intersect_code r myleft myright op2left op2right =
     (let code = encode_range_overlaps myleft myright op2left op2right in
      if code = CHR ''a'' \<or> code = CHR ''f'' then Some (r\<lparr>cr_isempty := True\<rparr>)
      else if code = CHR ''b'' then Some (bounds_or_empty r op2left myright)
      else if code = CHR ''c'' then Some (r\<lparr>cr_left := op2left, cr_right := op2right\<rparr>)
      else if code = CHR ''d'' then Some (r\<lparr>cr_left := myleft, cr_right := myright\<rparr>)
      else if code = CHR ''e'' then Some (bounds_or_empty r myleft op2right)
      else if code = CHR ''g'' then
        (if myleft = op2right then Some (bounds_or_empty r op2left myright)
         else if op2left = myright then Some (bounds_or_empty r myleft op2right)
         else None)
      else None)"

definition intersect :: "circle_range \<Rightarrow> circle_range \<Rightarrow> circle_range \<times> i32" where
  "intersect r op2 =
     (if cr_isempty r then (r, 0)
      else if cr_isempty op2 then (r\<lparr>cr_isempty := True\<rparr>, 0)
      else let (new_step, (stop1, myleft, myright), (stop2, op2left, op2right)) =
             (if cr_step r < cr_step op2 then
                (cr_step op2,
                 new_stride (cr_mask r) (cr_step op2) (cr_step r)
                   (ucast (cr_left op2 mod step_value (cr_step op2))) (cr_left r) (cr_right r),
                 (False, cr_left op2, cr_right op2))
              else if cr_step op2 < cr_step r then
                (cr_step r, (False, cr_left r, cr_right r),
                 new_stride (cr_mask op2) (cr_step r) (cr_step op2)
                   (ucast (cr_left r mod step_value (cr_step r))) (cr_left op2) (cr_right op2))
              else (cr_step r, (False, cr_left r, cr_right r), (False, cr_left op2, cr_right op2))) in
        if stop1 \<or> stop2 then (r\<lparr>cr_isempty := True\<rparr>, 0)
        else let new_mask = cr_mask r AND cr_mask op2;
                 ((stop1, myleft, myright), (stop2, op2left, op2right)) =
                   (if cr_mask r \<noteq> new_mask
                    then (new_domain new_mask new_step myleft myright, (False, op2left, op2right))
                    else if cr_mask op2 \<noteq> new_mask
                    then ((False, myleft, myright), new_domain new_mask new_step op2left op2right)
                    else ((False, myleft, myright), (False, op2left, op2right))) in
          if stop1 \<or> stop2 then (r\<lparr>cr_isempty := True\<rparr>, 0)
          else if myleft = myright then
            (r\<lparr>cr_left := op2left, cr_right := op2right, cr_mask := new_mask, cr_step := new_step\<rparr>, 0)
          else if op2left = op2right then
            (r\<lparr>cr_left := myleft, cr_right := myright, cr_mask := new_mask, cr_step := new_step\<rparr>, 0)
          else case intersect_code r myleft myright op2left op2right of
              None \<Rightarrow> (r, 2)
            | Some r' \<Rightarrow> (r'\<lparr>cr_mask := new_mask, cr_step := new_step\<rparr>, 0))"

definition set_nz_mask :: "circle_range \<Rightarrow> u64 \<Rightarrow> i32 \<Rightarrow> circle_range \<times> bool" where
  "set_nz_mask r nzmask sz =
     (let trans = bit_transitions nzmask sz in
      if trans > 2 then (r, False)
      else let hasstep = (nzmask AND 1 = 0) in
        if \<not> hasstep \<and> trans = 2 then (r, False)
        else let r = r\<lparr>cr_isempty := False\<rparr> in
          if trans = 0 then
            (if hasstep
             then (r\<lparr>cr_mask := calc_mask sz, cr_step := 1, cr_left := 0, cr_right := 1\<rparr>, True)
             else (r\<lparr>cr_mask := calc_mask sz, cr_step := 1, cr_left := 0, cr_right := 0\<rparr>, True))
          else let shift = leastsigbit_set nzmask;
                   step = wrap_i32 (2 ^ nat (shift mod 32));
                   m = calc_mask sz in
            (r\<lparr>cr_step := step, cr_mask := m, cr_left := 0,
               cr_right := (nzmask + step_value step) AND m\<rparr>, True))"

text \<open>The match on the overlap code in \<open>circle_union\<close>: the bounds of the union, or the return code.\<close>

definition union_bounds :: "u64 \<Rightarrow> u64 \<Rightarrow> u64 \<Rightarrow> u64 \<Rightarrow> u64 \<Rightarrow> i32 + u64 \<times> u64" where
  "union_bounds rem left1 a_right left2 b_right =
     (let code = encode_range_overlaps left1 a_right left2 b_right in
      if code = CHR ''a'' \<or> code = CHR ''f'' then
        (if a_right = left2 then Inr (left1, b_right)
         else if left1 = b_right then Inr (left2, a_right)
         else Inl 2)
      else if code = CHR ''b'' then Inr (left1, b_right)
      else if code = CHR ''c'' then Inr (left1, a_right)
      else if code = CHR ''d'' then Inr (left2, b_right)
      else if code = CHR ''e'' then Inr (left2, a_right)
      else if code = CHR ''g'' then Inr (rem, rem)
      else Inl (-1))"

definition circle_union :: "circle_range \<Rightarrow> circle_range \<Rightarrow> circle_range \<times> i32" where
  "circle_union r op2 =
     (if cr_isempty op2 then (r, 0)
      else if cr_isempty r then (op2, 0)
      else if cr_mask r \<noteq> cr_mask op2 then (r, 2)
      else if cr_step r < cr_step op2 \<and> \<not> is_single r then (r, 2)
      else if cr_step op2 < cr_step r \<and> \<not> is_single op2 then (r, 2)
      else let new_step = (if cr_step r < cr_step op2 then cr_step op2 else cr_step r);
               a_right = (if cr_step r < cr_step op2
                          then (cr_left r + step_value new_step) AND cr_mask r else cr_right r);
               b_right = (if cr_step op2 < cr_step r
                          then (cr_left op2 + step_value new_step) AND cr_mask r else cr_right op2);
               rem = (if new_step \<noteq> 1 then cr_left r mod step_value new_step else 0) in
        if new_step \<noteq> 1 \<and> rem \<noteq> cr_left op2 mod step_value new_step then (r, 2)
        else if cr_left r = a_right \<or> cr_left op2 = b_right
        then (r\<lparr>cr_left := rem, cr_right := rem, cr_step := new_step\<rparr>, 0)
        else case union_bounds rem (cr_left r) a_right (cr_left op2) b_right of
            Inl code \<Rightarrow> (r, code)
          | Inr (l, rt) \<Rightarrow> (r\<lparr>cr_left := l, cr_right := rt, cr_step := new_step\<rparr>, 0))"

definition minimal_container :: "circle_range \<Rightarrow> circle_range \<Rightarrow> i32 \<Rightarrow> circle_range \<times> bool" where
  "minimal_container r op2 max_step =
     (let (lo, hi) = (if cr_left r < cr_left op2 then (cr_left r, cr_left op2) else (cr_left op2, cr_left r));
          diff = hi - lo in
      if is_single r \<and> is_single op2 \<and> diff > 0 \<and> diff \<le> step_value max_step
         \<and> leastsigbit_set diff = mostsigbit_set diff
      then let step = wrap_i32 (uint diff) in
        (r\<lparr>cr_step := step, cr_left := lo, cr_right := (hi + step_value step) AND cr_mask r\<rparr>, False)
      else let a_right = cr_right r - step_value (cr_step r) + 1;
               b_right = cr_right op2 - step_value (cr_step op2) + 1;
               r = r\<lparr>cr_step := 1, cr_mask := cr_mask r OR cr_mask op2\<rparr>;
               code = encode_range_overlaps (cr_left r) a_right (cr_left op2) b_right;
               r =
                 (if code = CHR ''a'' then
                    (let vacant_size1 = cr_left r + (cr_mask r - b_right) + 1; vacant_size2 = cr_left op2 - a_right in
                     if vacant_size1 < vacant_size2 then r\<lparr>cr_left := cr_left op2, cr_right := a_right\<rparr>
                     else r\<lparr>cr_right := b_right\<rparr>)
                  else if code = CHR ''f'' then
                    (let vacant_size1 = cr_left op2 + (cr_mask r - a_right) + 1; vacant_size2 = cr_left r - b_right in
                     if vacant_size1 < vacant_size2 then r\<lparr>cr_right := b_right\<rparr>
                     else r\<lparr>cr_left := cr_left op2, cr_right := a_right\<rparr>)
                  else if code = CHR ''b'' then r\<lparr>cr_right := b_right\<rparr>
                  else if code = CHR ''c'' then r\<lparr>cr_right := a_right\<rparr>
                  else if code = CHR ''d'' then r\<lparr>cr_left := cr_left op2, cr_right := b_right\<rparr>
                  else if code = CHR ''e'' then r\<lparr>cr_left := cr_left op2, cr_right := a_right\<rparr>
                  else if code = CHR ''g'' then r\<lparr>cr_left := 0, cr_right := 0\<rparr>
                  else r);
               r = normalize r
           in (r, cr_left r = cr_right r))"

definition invert :: "circle_range \<Rightarrow> circle_range \<times> i32" where
  "invert r = (let res = cr_step r in (cr_complement (r\<lparr>cr_step := 1\<rparr>), res))"

definition set_stride :: "circle_range \<Rightarrow> i32 \<Rightarrow> u64 \<Rightarrow> circle_range" where
  "set_stride r new_step rem =
     (let iseverything = \<not> cr_isempty r \<and> cr_left r = cr_right r in
      if new_step = cr_step r then r
      else let a_right = cr_right r - step_value (cr_step r); r = r\<lparr>cr_step := new_step\<rparr> in
        if new_step = 1 then r
        else let step = step_value new_step;
                 l = cr_left r - cr_left r mod step + rem;
                 a_right = a_right - a_right mod step + rem;
                 rt = a_right + step in
          r\<lparr>cr_left := l, cr_right := rt,
            cr_isempty := (if \<not> iseverything \<and> l = rt then True else cr_isempty r)\<rparr>)"

section \<open>Pulling a range back through an operation\<close>

definition pull_back_unary :: "circle_range \<Rightarrow> opcode \<Rightarrow> i32 \<Rightarrow> i32 \<Rightarrow> circle_range \<times> bool" where
  "pull_back_unary r opc in_size out_size =
     (if cr_isempty r then (r, True)
      else let step = step_value (cr_step r) in
        case opc of
          BoolNegate \<Rightarrow>
            (let (r, both) = convert_to_boolean r in
             if both then (r, True)
             else let l = cr_left r XOR 1 in (r\<lparr>cr_left := l, cr_right := l + 1\<rparr>, True))
        | Copy \<Rightarrow> (r, True)
        | Int2comp \<Rightarrow>
            (let val = (NOT (cr_left r) + 1 + step) AND cr_mask r in
             (r\<lparr>cr_left := (NOT (cr_right r) + 1 + step) AND cr_mask r, cr_right := val\<rparr>, True))
        | IntNegate \<Rightarrow>
            (let val = (NOT (cr_left r) + step) AND cr_mask r in
             (r\<lparr>cr_left := (NOT (cr_right r) + step) AND cr_mask r, cr_right := val\<rparr>, True))
        | IntZext \<Rightarrow>
            (let val = calc_mask in_size;
                 rem = cr_left r mod step;
                 zextrange = \<lparr>cr_left = rem, cr_right = val + 1 + rem, cr_mask = cr_mask r,
                              cr_isempty = False, cr_step = cr_step r\<rparr>;
                 (r, res) = intersect r zextrange in
             if 0 \<noteq> res then (r, False)
             else (r\<lparr>cr_left := cr_left r AND val, cr_right := cr_right r AND val,
                      cr_mask := cr_mask r AND val\<rparr>, True))
        | IntSext \<Rightarrow>
            (let val = calc_mask in_size;
                 rem = cr_left r AND step;
                 l = (val XOR drop_bit 1 val) + rem;
                 sextrange = \<lparr>cr_left = l, cr_right = sign_extend_size l in_size out_size,
                              cr_mask = cr_mask r, cr_isempty = False, cr_step = cr_step r\<rparr>;
                 (sextrange, res) = intersect sextrange r in
             if res \<noteq> 0 \<or> \<not> cr_isempty sextrange then (r, False)
             else (r\<lparr>cr_left := cr_left r AND val, cr_right := cr_right r AND val,
                      cr_mask := cr_mask r AND val\<rparr>, True))
        | _ \<Rightarrow> (r, False))"

text \<open>
  The comparisons of \<open>pull_back_binary\<close> share their frame: convert the range to booleans, take the
  mask of the input, stop when both truth values are possible, otherwise set the range of inputs on which
  the comparison holds and complement it when the comparison is to fail.
\<close>

definition pull_back_compare ::
  "circle_range \<Rightarrow> i32 \<Rightarrow> (circle_range \<Rightarrow> circle_range) \<Rightarrow> circle_range \<times> bool" where
  "pull_back_compare r in_size holds =
     (let (r, both_true_false) = convert_to_boolean r;
          r = r\<lparr>cr_mask := calc_mask in_size\<rparr> in
      if both_true_false then (r, True)
      else let yescomplement = (cr_left r = 0); r = holds r in
        (if yescomplement then cr_complement r else r, True))"

definition holds_equal :: "u64 \<Rightarrow> circle_range \<Rightarrow> circle_range" where
  "holds_equal val r = r\<lparr>cr_left := val, cr_right := (val + 1) AND cr_mask r\<rparr>"

definition holds_notequal :: "u64 \<Rightarrow> circle_range \<Rightarrow> circle_range" where
  "holds_notequal val r = r\<lparr>cr_left := (val + 1) AND cr_mask r, cr_right := val\<rparr>"

definition holds_less :: "u64 \<Rightarrow> i32 \<Rightarrow> circle_range \<Rightarrow> circle_range" where
  "holds_less val slot r =
     (if slot = 0 then
        (if val = 0 then r\<lparr>cr_isempty := True\<rparr> else r\<lparr>cr_left := 0, cr_right := val\<rparr>)
      else if val = cr_mask r then r\<lparr>cr_isempty := True\<rparr>
      else r\<lparr>cr_left := (val + 1) AND cr_mask r, cr_right := 0\<rparr>)"

definition holds_lessequal :: "u64 \<Rightarrow> i32 \<Rightarrow> circle_range \<Rightarrow> circle_range" where
  "holds_lessequal val slot r =
     (if slot = 0 then r\<lparr>cr_left := 0, cr_right := (val + 1) AND cr_mask r\<rparr>
      else r\<lparr>cr_left := val, cr_right := 0\<rparr>)"

definition holds_sless :: "u64 \<Rightarrow> i32 \<Rightarrow> circle_range \<Rightarrow> circle_range" where
  "holds_sless val slot r =
     (if slot = 0 then
        (if val = drop_bit 1 (cr_mask r) + 1 then r\<lparr>cr_isempty := True\<rparr>
         else r\<lparr>cr_left := drop_bit 1 (cr_mask r) + 1, cr_right := val\<rparr>)
      else if val = drop_bit 1 (cr_mask r) then r\<lparr>cr_isempty := True\<rparr>
      else r\<lparr>cr_left := (val + 1) AND cr_mask r, cr_right := drop_bit 1 (cr_mask r) + 1\<rparr>)"

definition holds_slessequal :: "u64 \<Rightarrow> i32 \<Rightarrow> circle_range \<Rightarrow> circle_range" where
  "holds_slessequal val slot r =
     (if slot = 0 then r\<lparr>cr_left := drop_bit 1 (cr_mask r) + 1, cr_right := (val + 1) AND cr_mask r\<rparr>
      else r\<lparr>cr_left := val, cr_right := drop_bit 1 (cr_mask r) + 1\<rparr>)"

definition holds_carry :: "u64 \<Rightarrow> circle_range \<Rightarrow> circle_range" where
  "holds_carry val r =
     (if val = 0 then r\<lparr>cr_isempty := True\<rparr>
      else r\<lparr>cr_left := (cr_mask r - val + 1) AND cr_mask r, cr_right := 0\<rparr>)"

definition pull_back_right :: "circle_range \<Rightarrow> u64 \<Rightarrow> i32 \<Rightarrow> circle_range" where
  "pull_back_right r val in_size =
     (let right_bound = wshr (calc_mask in_size) (as_u32 (uint val)) + 1 in
      if (cr_left r \<ge> right_bound \<and> cr_right r \<ge> right_bound \<and> cr_left r \<ge> cr_right r)
         \<or> (cr_left r = 0 \<and> cr_right r \<ge> right_bound) \<or> cr_left r = cr_right r
      then r\<lparr>cr_left := 0, cr_right := 0\<rparr>
      else let l = (if cr_left r > right_bound then right_bound else cr_left r);
               rt = (if cr_right r > right_bound then 0 else cr_right r);
               l = wshl l (as_u32 (uint val)) AND cr_mask r;
               rt = wshl rt (as_u32 (uint val)) AND cr_mask r in
        bounds_or_empty r l rt)"

definition pull_back_sright :: "circle_range \<Rightarrow> u64 \<Rightarrow> i32 \<Rightarrow> circle_range" where
  "pull_back_sright r val in_size =
     (let rightb = calc_mask in_size;
          leftb = wshr rightb (as_u32 (uint (val + 1)));
          rightb = rightb XOR leftb;
          leftb = leftb + 1 in
      if (cr_left r \<ge> leftb \<and> cr_left r \<le> rightb \<and> cr_right r \<ge> leftb \<and> cr_right r \<le> rightb
            \<and> cr_left r \<ge> cr_right r)
         \<or> cr_left r = cr_right r
      then r\<lparr>cr_left := 0, cr_right := 0\<rparr>
      else let l = (if cr_left r > leftb \<and> cr_left r < rightb then leftb else cr_left r);
               rt = (if cr_right r > leftb \<and> cr_right r < rightb then rightb else cr_right r);
               l = wshl l (as_u32 (uint val)) AND cr_mask r;
               rt = wshl rt (as_u32 (uint val)) AND cr_mask r in
        bounds_or_empty r l rt)"

definition pull_back_binary ::
  "circle_range \<Rightarrow> opcode \<Rightarrow> u64 \<Rightarrow> i32 \<Rightarrow> i32 \<Rightarrow> i32 \<Rightarrow> circle_range \<times> bool" where
  "pull_back_binary r opc val slot in_size out_size =
     (if cr_isempty r then (r, True)
      else case opc of
        IntEqual \<Rightarrow> pull_back_compare r in_size (holds_equal val)
      | IntNotequal \<Rightarrow> pull_back_compare r in_size (holds_notequal val)
      | IntLess \<Rightarrow> pull_back_compare r in_size (holds_less val slot)
      | IntLessequal \<Rightarrow> pull_back_compare r in_size (holds_lessequal val slot)
      | IntSless \<Rightarrow> pull_back_compare r in_size (holds_sless val slot)
      | IntSlessequal \<Rightarrow> pull_back_compare r in_size (holds_slessequal val slot)
      | IntCarry \<Rightarrow> pull_back_compare r in_size (holds_carry val)
      | IntAdd \<Rightarrow>
          (r\<lparr>cr_left := (cr_left r - val) AND cr_mask r, cr_right := (cr_right r - val) AND cr_mask r\<rparr>, True)
      | IntSub \<Rightarrow>
          (if slot = 0
           then (r\<lparr>cr_left := (cr_left r + val) AND cr_mask r,
                    cr_right := (cr_right r + val) AND cr_mask r\<rparr>, True)
           else (r\<lparr>cr_left := (val - cr_left r) AND cr_mask r,
                    cr_right := (val - cr_right r) AND cr_mask r\<rparr>, True))
      | IntRight \<Rightarrow> if cr_step r = 1 then (pull_back_right r val in_size, True) else (r, False)
      | IntSright \<Rightarrow> if cr_step r = 1 then (pull_back_sright r val in_size, True) else (r, False)
      | _ \<Rightarrow> (r, False))"

end
