(* ===== verification/Circle_Sets.thy ===== *)
theory Circle_Sets
  imports Circle_Range
begin

text \<open>
  The sets that circle ranges denote, and the set operations of \<open>CircleRange\<close>: membership,
  containment, complement, intersection and union. The bounds of a range describe an arc of the circle of
  integers; the stride selects the elements of the arc in one residue class. The case analysis on the
  six comparisons behind the overlap code is done once, on arcs.
\<close>

section \<open>Arcs\<close>

definition arc :: "u64 \<Rightarrow> u64 \<Rightarrow> u64 \<Rightarrow> bool" where
  "arc l r v = (if l < r then l \<le> v \<and> v < r else if r < l then v < r \<or> l \<le> v else True)"

lemma arc_refl [simp]: "arc l l v"
  by (simp add: arc_def)

lemma arc_simps:
  "l \<le> r \<Longrightarrow> l \<noteq> r \<Longrightarrow> arc l r v \<longleftrightarrow> l \<le> v \<and> v < r"
  "\<not> l \<le> r \<Longrightarrow> arc l r v \<longleftrightarrow> v < r \<or> l \<le> v"
  by (auto simp: arc_def)

lemma arc_swap: "l \<noteq> r \<Longrightarrow> arc r l v \<longleftrightarrow> \<not> arc l r v"
  by (auto simp: arc_def)

lemma arc_right: "l \<noteq> r \<Longrightarrow> \<not> arc l r r"
  by (auto simp: arc_def)

lemma arc_left: "arc l r l"
  by (auto simp: arc_def)

text \<open>Comparisons of words as comparisons of integers, where linear arithmetic applies.\<close>

lemmas word_order_int = word_le_def word_less_def word_uint_eq_iff

lemma intersect_code_arc:
  assumes "l1 \<noteq> r1" "l2 \<noteq> r2" "\<not> cr_isempty r"
  shows "case intersect_code r l1 r1 l2 r2 of None \<Rightarrow> True | Some r' \<Rightarrow>
    (\<not> cr_isempty r' \<and> arc (cr_left r') (cr_right r') v) \<longleftrightarrow> arc l1 r1 v \<and> arc l2 r2 v"
  using assms
  apply (cases "l1 \<le> r1"; cases "l1 \<le> l2"; cases "l1 \<le> r2"; cases "r1 \<le> l2"; cases "r1 \<le> r2"; cases "l2 \<le> r2")
  apply (simp_all add: intersect_code_def encode_range_overlaps_def ARRANGE_def bounds_or_empty_def Let_def arc_simps)
  apply (simp_all add: word_order_int)
  apply auto
  done

text \<open>When the overlap has no code for one arc, it holds both left ends and neither right end, and every arc through
  the left ends passes one of the right ends.\<close>

lemma intersect_code_gap:
  assumes "l1 \<noteq> r1" "l2 \<noteq> r2" "intersect_code r l1 r1 l2 r2 = None"
  shows "arc l1 r1 l2" "arc l2 r2 l1" "arc l rt l1 \<Longrightarrow> arc l rt l2 \<Longrightarrow> arc l rt r1 \<or> arc l rt r2"
proof -
  have "r2 \<noteq> l1 \<and> l2 \<noteq> r1 \<and> (l1 < r2 \<and> r2 \<le> l2 \<and> l2 < r1 \<or> r2 \<le> l2 \<and> l2 < r1 \<and> r1 \<le> l1 \<or>
      l2 < r1 \<and> r1 \<le> l1 \<and> l1 < r2 \<or> r1 \<le> l1 \<and> l1 < r2 \<and> r2 \<le> l2)"
    using assms
    apply (cases "l1 \<le> r1"; cases "l1 \<le> l2"; cases "l1 \<le> r2"; cases "r1 \<le> l2"; cases "r1 \<le> r2"; cases "l2 \<le> r2")
    apply (simp_all add: intersect_code_def encode_range_overlaps_def ARRANGE_def Let_def split: if_splits)
    apply (auto simp: word_order_int)
    done
  then show "arc l1 r1 l2" "arc l2 r2 l1" "arc l rt l1 \<Longrightarrow> arc l rt l2 \<Longrightarrow> arc l rt r1 \<or> arc l rt r2"
    unfolding arc_def word_order_int by (auto split: if_splits)
qed

lemma union_bounds_arc:
  assumes "l1 \<noteq> r1" "l2 \<noteq> r2"
  shows "case union_bounds rem l1 r1 l2 r2 of Inl code \<Rightarrow> code = 2 | Inr (l, r) \<Rightarrow>
    (arc l r v \<longleftrightarrow> arc l1 r1 v \<or> arc l2 r2 v) \<and> l \<in> {l1, l2, rem} \<and> r \<in> {r1, r2, rem}"
  using assms
  apply (cases "l1 \<le> r1"; cases "l1 \<le> l2"; cases "l1 \<le> r2"; cases "r1 \<le> l2"; cases "r1 \<le> r2"; cases "l2 \<le> r2")
  apply (simp_all add: union_bounds_def encode_range_overlaps_def ARRANGE_def Let_def arc_simps)
  apply (simp_all add: word_order_int)
  apply (auto simp: arc_def word_order_int)
  done

lemma contains_code_arc:
  assumes "l1 \<noteq> r1" "l2 \<noteq> r2" "\<not> (l1 = l2 \<and> r1 = r2)"
  shows "(encode_range_overlaps l1 r1 l2 r2 = CHR ''c'' \<or>
      (encode_range_overlaps l1 r1 l2 r2 = CHR ''b'' \<and> r1 = r2)) \<longleftrightarrow> arc l1 r1 l2 \<and> \<not> arc l2 r2 r1"
  using assms
  apply (cases "l1 \<le> r1"; cases "l1 \<le> l2"; cases "l1 \<le> r2"; cases "r1 \<le> l2"; cases "r1 \<le> r2"; cases "l2 \<le> r2")
  apply (simp_all add: encode_range_overlaps_def ARRANGE_def arc_simps)
  apply (simp_all add: word_order_int)
  done

section \<open>Membership\<close>

text \<open>The stride condition; for stride 1 every value satisfies it.\<close>

definition on_stride :: "circle_range \<Rightarrow> u64 \<Rightarrow> bool" where
  "on_stride r v \<longleftrightarrow> cr_left r mod step_value (cr_step r) = v mod step_value (cr_step r)"

lemma step_value_1 [simp]: "step_value 1 = 1"
  by (simp add: step_value_def)

lemma contains_iff: "contains r v \<longleftrightarrow> \<not> cr_isempty r \<and> on_stride r v \<and> arc (cr_left r) (cr_right r) v"
  by (auto simp: contains_def arc_def on_stride_def)

text \<open>
  A well-formed range for a size of \<open>s\<close> bytes: the mask of that size, bounds within it, a stride that
  is a power of two no larger than the modulus, and, unless it is empty, bounds in one residue class.
\<close>

definition cr_wf :: "i32 \<Rightarrow> circle_range \<Rightarrow> bool" where
  "cr_wf s r \<longleftrightarrow> valid_size s \<and> cr_mask r = calc_mask s \<and> cr_left r \<le> calc_mask s \<and> cr_right r \<le> calc_mask s
     \<and> (\<exists>k < 8 * nat s. k \<le> 30 \<and> cr_step r = 2 ^ k)
     \<and> (cr_isempty r \<or> cr_left r mod step_value (cr_step r) = cr_right r mod step_value (cr_step r))"

lemma cr_wf_step: "cr_wf s r \<Longrightarrow> 0 < cr_step r"
  by (auto simp: cr_wf_def)

section \<open>Containment\<close>

lemma contains_range_arc:
  assumes "\<not> cr_isempty r" "\<not> cr_isempty op2" "cr_step r = cr_step op2"
    "cr_left r mod step_value (cr_step r) = cr_left op2 mod step_value (cr_step r)"
  shows "contains_range r op2 \<longleftrightarrow>
    cr_left r = cr_right r \<or>
    (cr_left op2 \<noteq> cr_right op2 \<and> arc (cr_left r) (cr_right r) (cr_left op2)
      \<and> \<not> arc (cr_left op2) (cr_right op2) (cr_right r))"
proof (cases "cr_left r = cr_right r \<or> cr_left op2 = cr_right op2 \<or> (cr_left r = cr_left op2 \<and> cr_right r = cr_right op2)")
  case True
  then show ?thesis using assms by (auto simp: contains_range_def arc_left arc_right)
next
  case False
  then show ?thesis
    using assms contains_code_arc [of "cr_left r" "cr_right r" "cr_left op2" "cr_right op2"]
    by (auto simp: contains_range_def Let_def)
qed

lemma arc_subset:
  assumes "l1 \<noteq> r1" "l2 \<noteq> r2" "arc l1 r1 l2" "\<not> arc l2 r2 r1" "arc l2 r2 v"
  shows "arc l1 r1 v"
  using assms by (auto simp: arc_def word_order_int split: if_splits)

section \<open>Intersection\<close>

definition same_class :: "circle_range \<Rightarrow> circle_range \<Rightarrow> bool" where
  "same_class r op2 \<longleftrightarrow> cr_mask r = cr_mask op2 \<and> cr_step r = cr_step op2 \<and>
     (cr_isempty r \<or> cr_isempty op2 \<or>
      cr_left r mod step_value (cr_step r) = cr_left op2 mod step_value (cr_step r))"

lemma intersect_code_left:
  "intersect_code r l1 r1 l2 r2 = Some r' \<Longrightarrow>
     cr_mask r' = cr_mask r \<and> cr_step r' = cr_step r \<and> (cr_isempty r' \<or> cr_left r' = l1 \<or> cr_left r' = l2)"
  by (auto simp: intersect_code_def bounds_or_empty_def Let_def split: if_splits)

lemma intersect_empty:
  "cr_isempty r \<Longrightarrow> intersect r op2 = (r, 0)"
  "\<not> cr_isempty r \<Longrightarrow> cr_isempty op2 \<Longrightarrow> intersect r op2 = (r\<lparr>cr_isempty := True\<rparr>, 0)"
  by (simp_all add: intersect_def)

lemma intersect_same_class:
  assumes "same_class r op2" "\<not> cr_isempty r" "\<not> cr_isempty op2"
  shows "intersect r op2 =
    (if cr_left r = cr_right r then (r\<lparr>cr_left := cr_left op2, cr_right := cr_right op2\<rparr>, 0)
     else if cr_left op2 = cr_right op2 then (r, 0)
     else case intersect_code r (cr_left r) (cr_right r) (cr_left op2) (cr_right op2) of
       None \<Rightarrow> (r, 2) | Some r' \<Rightarrow> (r', 0))"
  using assms
  by (auto simp: intersect_def same_class_def Let_def dest: intersect_code_left split: option.split)

lemma intersect_contains:
  assumes "same_class r op2" "intersect r op2 = (r', 0)"
  shows "contains r' v \<longleftrightarrow> contains r v \<and> contains op2 v"
proof (cases "cr_isempty r \<or> cr_isempty op2")
  case True
  then show ?thesis
    using assms(2) by (cases "cr_isempty r") (auto simp: intersect_empty contains_iff)
next
  case False
  then have ne: "\<not> cr_isempty r" "\<not> cr_isempty op2" by auto
  have st: "on_stride r v \<longleftrightarrow> on_stride op2 v"
    using assms(1) ne by (auto simp: same_class_def on_stride_def)
  show ?thesis
  proof (cases "cr_left r = cr_right r \<or> cr_left op2 = cr_right op2")
    case True
    then show ?thesis
      using assms ne st unfolding intersect_same_class [OF assms(1) ne] contains_iff
      by (auto simp: on_stride_def same_class_def split: if_splits)
  next
    case False
    then have code: "intersect_code r (cr_left r) (cr_right r) (cr_left op2) (cr_right op2) = Some r'"
      using assms(2) unfolding intersect_same_class [OF assms(1) ne] by (auto split: option.splits)
    have "on_stride r' v \<longleftrightarrow> on_stride r v" if "\<not> cr_isempty r'"
      using intersect_code_left [OF code] that assms(1) ne by (auto simp: same_class_def on_stride_def)
    then show ?thesis
      using intersect_code_arc [of "cr_left r" "cr_right r" "cr_left op2" "cr_right op2" r v] False ne code st
      by (auto simp: contains_iff)
  qed
qed

lemma intersect_not_one_range:
  assumes "cr_wf s r" "cr_wf s op2" "same_class r op2" "intersect r op2 = (r', 2)" "cr_step q = cr_step r"
  shows "\<exists>v \<le> calc_mask s. contains q v \<noteq> (contains r v \<and> contains op2 v)"
proof (rule ccontr)
  assume "\<not> ?thesis"
  then have q: "contains q v \<longleftrightarrow> contains r v \<and> contains op2 v" if "v \<le> calc_mask s" for v using that by blast
  have ne: "\<not> cr_isempty r" "\<not> cr_isempty op2"
    using assms(4) by (auto simp: intersect_empty) (metis intersect_empty(2) intersect_empty(1) prod.inject zero_neq_numeral)
  have wf: "cr_left r \<le> calc_mask s" "cr_right r \<le> calc_mask s" "cr_left op2 \<le> calc_mask s" "cr_right op2 \<le> calc_mask s"
    "cr_left r mod step_value (cr_step r) = cr_right r mod step_value (cr_step r)"
    "cr_left op2 mod step_value (cr_step r) = cr_right op2 mod step_value (cr_step r)"
    "cr_left r mod step_value (cr_step r) = cr_left op2 mod step_value (cr_step r)" "cr_step op2 = cr_step r"
    using assms(1-3) ne by (auto simp: cr_wf_def same_class_def)
  have d: "cr_left r \<noteq> cr_right r" "cr_left op2 \<noteq> cr_right op2"
    and c: "intersect_code r (cr_left r) (cr_right r) (cr_left op2) (cr_right op2) = None"
    using assms(4) intersect_same_class [OF assms(3) ne] by (auto split: if_splits option.splits)
  note gap = intersect_code_gap [OF d c]
  have "contains q (cr_left r)" "contains q (cr_left op2)"
    using q wf ne gap(1,2) by (simp_all add: contains_iff on_stride_def arc_left)
  then have "contains q (cr_right r) \<or> contains q (cr_right op2)"
    using gap(3) [of "cr_left q" "cr_right q"] wf assms(5) by (auto simp: contains_iff on_stride_def)
  then show False using q wf d arc_right by (auto simp: contains_iff)
qed

section \<open>Union\<close>

lemma mod_eq_self_of_lt:
  fixes v l N :: int
  assumes "v mod 2 ^ k = l mod 2 ^ k" "0 \<le> v" "v < N" "0 \<le> l" "l < N" "2 ^ k dvd N"
    "\<bar>v - l\<bar> < 2 ^ k \<or> \<bar>v - l\<bar> > N - 2 ^ k"
  shows "v = l"
proof -
  have d: "2 ^ k dvd v - l" using assms(1) by (simp add: mod_eq_dvd_iff)
  show ?thesis
  proof (cases "\<bar>v - l\<bar> < 2 ^ k")
    case True
    then show ?thesis using d zdvd_imp_le [of "2 ^ k" "\<bar>v - l\<bar>"] by (cases "v = l") auto
  next
    case False
    then have "\<bar>v - l\<bar> > N - 2 ^ k" using assms(7) by simp
    moreover have "2 ^ k dvd N - \<bar>v - l\<bar>" using d assms(6) by (simp add: dvd_diff)
    moreover have "0 < N - \<bar>v - l\<bar>" using assms by auto
    ultimately show ?thesis using zdvd_imp_le [of "2 ^ k" "N - \<bar>v - l\<bar>"] by auto
  qed
qed

lemma uint_step: "k \<le> 30 \<Longrightarrow> uint (step_value (2 ^ k)) = 2 ^ k"
proof -
  assume "k \<le> 30"
  then have "(2::int) ^ k < 2 ^ 64" by (intro power_strict_increasing) auto
  then show ?thesis unfolding step_value_def by (simp only: uint_word_of_int) simp
qed

lemma stride_int:
  assumes "k \<le> 30"
  shows "l mod step_value (2 ^ k) = v mod step_value (2 ^ k) \<longleftrightarrow> uint l mod 2 ^ k = uint v mod 2 ^ k"
  by (simp add: word_uint_eq_iff uint_mod uint_step [OF assms])

lemma single_arc:
  assumes "valid_size s" "k < 8 * nat s" "k \<le> 30" "l \<le> calc_mask s" "v \<le> calc_mask s"
    "a = (l + step_value (2 ^ k)) AND calc_mask s"
  shows "l mod step_value (2 ^ k) = v mod step_value (2 ^ k) \<and> arc l a v \<longleftrightarrow> v = l"
proof -
  let ?N = "2 ^ (8 * nat s) :: int"
  have a: "uint a = (uint l + 2 ^ k) mod ?N"
    unfolding assms(6) word_arith_of_int uint_and_calc_mask [OF assms(1)] uint_step [OF assms(3)] ..
  have lt: "uint l < ?N" "uint v < ?N" "0 \<le> uint l" "0 \<le> uint v"
    using assms by (simp_all add: le_calc_mask_uint)
  have k: "(2::int) ^ k < ?N" "2 ^ k dvd ?N" using assms by (auto simp: le_imp_power_dvd)
  have m: "(uint l + 2 ^ k) mod ?N = (if uint l + 2 ^ k < ?N then uint l + 2 ^ k else uint l + 2 ^ k - ?N)"
    using mod_sum_cases(1) [of "uint l" ?N "2 ^ k"] lt k by (simp only: not_le [symmetric] split: if_split) simp
  have "v = l" if "uint l mod 2 ^ k = uint v mod 2 ^ k" "arc l a v"
  proof -
    have "uint v = uint l"
      using that(1) lt k that(2) unfolding arc_def word_order_int a m
      by (intro mod_eq_self_of_lt [of "uint v" k "uint l" ?N]) (auto split: if_splits)
    then show ?thesis by (simp add: word_uint_eq_iff)
  qed
  then show ?thesis using arc_left by (auto simp: stride_int [OF assms(3)])
qed

text \<open>A single value keeps its meaning under a larger stride with the end moved accordingly.\<close>

definition with_stride :: "circle_range \<Rightarrow> i32 \<Rightarrow> circle_range" where
  "with_stride r step =
     (if cr_step r < step
      then r\<lparr>cr_right := (cr_left r + step_value step) AND cr_mask r, cr_step := step\<rparr> else r)"

lemma with_stride_contains:
  assumes "cr_wf s r" "cr_wf s op2" "cr_step r < cr_step op2 \<longrightarrow> is_single r" "v \<le> calc_mask s"
  shows "contains (with_stride r (cr_step op2)) v \<longleftrightarrow> contains r v"
proof (cases "cr_step r < cr_step op2")
  case True
  have s: "valid_size s" "cr_mask r = calc_mask s" "cr_left r \<le> calc_mask s"
    using assms(1) by (simp_all add: cr_wf_def)
  obtain k where k: "k < 8 * nat s" "k \<le> 30" "cr_step r = 2 ^ k" using assms(1) by (auto simp: cr_wf_def)
  obtain m where m: "m < 8 * nat s" "m \<le> 30" "cr_step op2 = 2 ^ m" using assms(2) by (auto simp: cr_wf_def)
  have "is_single r" using assms(3) True by simp
  then have "contains r v \<longleftrightarrow> v = cr_left r"
    using single_arc [OF s(1) k(1,2) s(3) assms(4)] k s by (auto simp: contains_iff on_stride_def is_single_def)
  moreover have "contains (with_stride r (cr_step op2)) v \<longleftrightarrow> v = cr_left r"
    using single_arc [OF s(1) m(1,2) s(3) assms(4)] m s True \<open>is_single r\<close>
    by (auto simp: contains_iff on_stride_def is_single_def with_stride_def)
  ultimately show ?thesis by simp
qed (simp add: with_stride_def)

lemma circle_union_same_step:
  assumes "\<not> cr_isempty r" "\<not> cr_isempty op2" "cr_mask r = cr_mask op2"
    "cr_step r < cr_step op2 \<longrightarrow> is_single r" "cr_step op2 < cr_step r \<longrightarrow> is_single op2"
    "0 < cr_step r" "0 < cr_step op2"
  shows "circle_union r op2 = (let a = with_stride r (cr_step op2); b = with_stride op2 (cr_step r);
      st = cr_step a; rem = (if st \<noteq> 1 then cr_left r mod step_value st else 0) in
    if st \<noteq> 1 \<and> rem \<noteq> cr_left op2 mod step_value st then (r, 2)
    else if cr_left a = cr_right a \<or> cr_left b = cr_right b then (a\<lparr>cr_left := rem, cr_right := rem\<rparr>, 0)
    else case union_bounds rem (cr_left a) (cr_right a) (cr_left b) (cr_right b) of
        Inl code \<Rightarrow> (r, code) | Inr (l, rt) \<Rightarrow> (a\<lparr>cr_left := l, cr_right := rt\<rparr>, 0))"
  using assms
  by (cases r, cases "cr_step r" "cr_step op2" rule: linorder_cases)
    (auto simp add: circle_union_def with_stride_def Let_def split: sum.split)

section \<open>Well-formedness\<close>

lemma mask_and_le: "valid_size s \<Longrightarrow> x AND calc_mask s \<le> calc_mask s"
  by (simp add: word_and_le1)

lemma intersect_wf:
  assumes "cr_wf s r" "cr_wf s op2" "same_class r op2" "intersect r op2 = (r', c)"
  shows "cr_wf s r'"
proof (cases "cr_isempty r \<or> cr_isempty op2")
  case True
  then show ?thesis using assms by (cases "cr_isempty r") (auto simp: intersect_empty cr_wf_def)
next
  case False
  then have ne: "\<not> cr_isempty r" "\<not> cr_isempty op2" by auto
  show ?thesis
    using assms ne unfolding intersect_same_class [OF assms(3) ne]
    by (auto simp: intersect_code_def bounds_or_empty_def Let_def cr_wf_def same_class_def split: if_splits option.splits)
qed

lemma step_add_class:
  assumes "valid_size s" "k < 8 * nat s" "k \<le> 30"
  shows "((l + step_value (2 ^ k)) AND calc_mask s) mod step_value (2 ^ k) = l mod step_value (2 ^ k)"
proof -
  have "(2::int) ^ k dvd 2 ^ (8 * nat s)" using assms(2) by (simp add: le_imp_power_dvd)
  then have "(uint l + 2 ^ k) mod 2 ^ (8 * nat s) mod 2 ^ k = uint l mod 2 ^ k"
    by (simp add: mod_mod_cancel)
  then show ?thesis
    unfolding stride_int [OF assms(3)] word_arith_of_int uint_and_calc_mask [OF assms(1)] uint_step [OF assms(3)] .
qed

lemma with_stride_wf:
  assumes "cr_wf s r" "cr_wf s op2" "\<not> cr_isempty r"
  shows "cr_wf s (with_stride r (cr_step op2))"
  using assms step_add_class [of s] word_and_le1
  by (auto simp: with_stride_def cr_wf_def)

lemma rem_bound: "valid_size s \<Longrightarrow> l \<le> calc_mask s \<Longrightarrow> l mod w \<le> calc_mask s"
  by (auto simp: le_calc_mask_uint uint_mod) (metis uint_ge_0 order.strict_trans1 zmod_le_nonneg_dividend)

text \<open>The shape of a successful union of two non-empty ranges: one stride, bounds in its class, and the
  union of the two arcs.\<close>

lemma circle_union_form:
  assumes "cr_wf s r" "cr_wf s op2" "circle_union r op2 = (r', 0)" "\<not> cr_isempty r" "\<not> cr_isempty op2"
  defines "a \<equiv> with_stride r (cr_step op2)" and "b \<equiv> with_stride op2 (cr_step r)"
  obtains l rt where "r' = a\<lparr>cr_left := l, cr_right := rt\<rparr>" "l \<le> calc_mask s" "rt \<le> calc_mask s"
    "cr_left a mod step_value (cr_step a) = cr_left b mod step_value (cr_step a)"
    "l mod step_value (cr_step a) = cr_left a mod step_value (cr_step a)"
    "rt mod step_value (cr_step a) = cr_left a mod step_value (cr_step a)"
    "\<And>v. arc l rt v \<longleftrightarrow> arc (cr_left a) (cr_right a) v \<or> arc (cr_left b) (cr_right b) v"
    "cr_step r < cr_step op2 \<longrightarrow> is_single r" "cr_step op2 < cr_step r \<longrightarrow> is_single op2"
proof -
  have sg: "cr_step r < cr_step op2 \<longrightarrow> is_single r" "cr_step op2 < cr_step r \<longrightarrow> is_single op2"
    and mk: "cr_mask r = cr_mask op2"
    using assms(3-5) by (auto simp: circle_union_def split: if_splits)
  have wf: "cr_wf s a" "cr_wf s b" "valid_size s"
    using with_stride_wf assms(1,2,4,5) by (auto simp: a_def b_def cr_wf_def)
  have eqs: "cr_step b = cr_step a" "cr_left a = cr_left r" "cr_left b = cr_left op2"
    "\<not> cr_isempty a" "\<not> cr_isempty b" using assms(4,5) by (auto simp: with_stride_def a_def b_def)
  let ?st = "step_value (cr_step a)"
  let ?rem = "if cr_step a \<noteq> 1 then cr_left r mod ?st else 0"
  note U = circle_union_same_step [OF assms(4,5) mk sg cr_wf_step [OF assms(1)] cr_wf_step [OF assms(2)],
      folded a_def b_def]
  have rem: "cr_left r mod ?st = cr_left op2 mod ?st"
    using assms(3) unfolding U Let_def by (cases "cr_step a = 1") (auto split: if_splits)
  have rr: "?rem mod ?st = cr_left r mod ?st" by (simp add: word_uint_eq_iff uint_mod)
  have cls: "cr_right a mod ?st = cr_left a mod ?st" "cr_right b mod ?st = cr_left a mod ?st"
    using wf eqs rem by (auto simp: cr_wf_def)
  have bd: "cr_left a \<le> calc_mask s" "cr_right a \<le> calc_mask s" "cr_left b \<le> calc_mask s"
    "cr_right b \<le> calc_mask s" "?rem \<le> calc_mask s"
    using wf eqs rem_bound [OF wf(3), of "cr_left r" ?st] by (auto simp: cr_wf_def)
  show ?thesis
  proof (cases "cr_left a = cr_right a \<or> cr_left b = cr_right b")
    case True
    then have "r' = a\<lparr>cr_left := ?rem, cr_right := ?rem\<rparr>"
      using assms(3) unfolding U Let_def by (auto split: if_splits)
    then show ?thesis
      by (rule that) (use True bd rem rr eqs sg in auto)
  next
    case False
    note arcs = union_bounds_arc [of "cr_left a" "cr_right a" "cr_left b" "cr_right b", where rem = ?rem]
    obtain l rt where lr: "union_bounds ?rem (cr_left a) (cr_right a) (cr_left b) (cr_right b) = Inr (l, rt)"
      "r' = a\<lparr>cr_left := l, cr_right := rt\<rparr>"
      using assms(3) arcs False unfolding U Let_def by (auto split: if_splits sum.splits prod.splits)
    show ?thesis
      by (rule that [OF lr(2)]) (use arcs lr(1) False bd cls rem rr eqs sg in auto)
  qed
qed

lemma circle_union_contains:
  assumes "cr_wf s r" "cr_wf s op2" "circle_union r op2 = (r', 0)" "v \<le> calc_mask s"
  shows "contains r' v \<longleftrightarrow> contains r v \<or> contains op2 v"
proof (cases "cr_isempty r \<or> cr_isempty op2")
  case True
  then show ?thesis using assms(3) by (auto simp: circle_union_def contains_iff split: if_splits)
next
  case False
  let ?a = "with_stride r (cr_step op2)" and ?b = "with_stride op2 (cr_step r)"
  obtain l rt where f: "r' = ?a\<lparr>cr_left := l, cr_right := rt\<rparr>"
    "cr_left ?a mod step_value (cr_step ?a) = cr_left ?b mod step_value (cr_step ?a)"
    "l mod step_value (cr_step ?a) = cr_left ?a mod step_value (cr_step ?a)"
    "arc l rt v \<longleftrightarrow> arc (cr_left ?a) (cr_right ?a) v \<or> arc (cr_left ?b) (cr_right ?b) v"
    "cr_step r < cr_step op2 \<longrightarrow> is_single r" "cr_step op2 < cr_step r \<longrightarrow> is_single op2"
    using circle_union_form [OF assms(1-3)] False by metis
  have eqs: "cr_step ?b = cr_step ?a" "\<not> cr_isempty ?a" "\<not> cr_isempty ?b" using False by (auto simp: with_stride_def)
  have "contains r' v \<longleftrightarrow> contains ?a v \<or> contains ?b v"
    using f eqs by (auto simp: contains_iff on_stride_def)
  then show ?thesis
    using with_stride_contains [OF assms(1,2) f(5) assms(4)] with_stride_contains [OF assms(2,1) f(6) assms(4)]
    by simp
qed

lemma circle_union_wf:
  assumes "cr_wf s r" "cr_wf s op2" "circle_union r op2 = (r', c)"
  shows "cr_wf s r'"
proof (cases "cr_isempty r \<or> cr_isempty op2 \<or> c \<noteq> 0")
  case True
  then show ?thesis using assms
    by (auto simp: circle_union_def Let_def split: if_splits sum.splits)
next
  case False
  let ?a = "with_stride r (cr_step op2)"
  obtain l rt where "r' = ?a\<lparr>cr_left := l, cr_right := rt\<rparr>" "l \<le> calc_mask s" "rt \<le> calc_mask s"
    "l mod step_value (cr_step ?a) = rt mod step_value (cr_step ?a)"
    using circle_union_form [OF assms(1,2)] assms(3) False by metis
  moreover have "cr_wf s ?a" using with_stride_wf assms(1,2) False by auto
  ultimately show ?thesis by (auto simp: cr_wf_def)
qed

section \<open>Complement\<close>

lemma complement_contains:
  assumes "cr_step r = 1"
  shows "contains (cr_complement r) v \<longleftrightarrow> \<not> contains r v"
  using assms arc_swap [of "cr_left r" "cr_right r" v]
  by (auto simp: contains_iff cr_complement_def on_stride_def)

lemma complement_wf: "cr_wf s r \<Longrightarrow> cr_step r = 1 \<Longrightarrow> cr_wf s (cr_complement r)"
  by (auto simp: cr_wf_def cr_complement_def word_uint_eq_iff uint_mod)

section \<open>Where strides and masks go wrong\<close>

text \<open>Aligning a wrapping range to a coarser stride can carry its left bound past zero; \<open>new_stride\<close>
  takes the changed order of the bounds for emptiness and \<open>intersect\<close> loses the common element 1.\<close>

lemma intersect_stride_loses:
  "contains (new_range 254 3 1 1) 1" "contains (new_range 1 9 1 4) 1"
  "cr_isempty (fst (intersect (new_range 254 3 1 1) (new_range 1 9 1 4)))"
  by code_simp+

text \<open>A range that ends at the top of the wide domain and lies outside the narrow one is taken for the
  full narrow domain by \<open>new_domain\<close>.\<close>

lemma intersect_domain_gains:
  "\<not> contains (new_range 0x100 0 2 1) 3"
  "contains (fst (intersect (new_range 0x100 0 2 1) (new_range 3 5 1 1))) 3"
  by code_simp+

section \<open>Properties\<close>

text \<open>C12: \<open>intersect\<close> on two well-formed ranges of one size, one stride and one residue class returns
  0 or 2. With 0 the result is well-formed and contains exactly the common elements of the two ranges;
  with 2 the receiver is unchanged and the intersection is not one range: every range of that stride differs
  from it at some value of the size.\<close>

theorem intersect_exact:
  assumes "cr_wf s r" "cr_wf s op2" "same_class r op2"
  shows "case intersect r op2 of (r', c) \<Rightarrow> cr_wf s r' \<and>
    (c = 0 \<and> (\<forall>v. contains r' v \<longleftrightarrow> contains r v \<and> contains op2 v) \<or>
     c = 2 \<and> r' = r \<and> (\<forall>q. cr_step q = cr_step r \<longrightarrow> (\<exists>v \<le> calc_mask s. contains q v \<noteq> (contains r v \<and> contains op2 v))))"
proof -
  obtain r' c where i: "intersect r op2 = (r', c)" by (cases "intersect r op2")
  have "c = 0 \<or> c = 2 \<and> r' = r"
  proof (cases "cr_isempty r \<or> cr_isempty op2")
    case True
    then show ?thesis using i by (cases "cr_isempty r") (auto simp: intersect_empty)
  next
    case False
    then show ?thesis using i intersect_same_class [OF assms(3)] by (auto split: if_splits option.splits)
  qed
  then show ?thesis
    using i intersect_wf [OF assms i] intersect_contains [OF assms(3)] intersect_not_one_range [OF assms] by auto
qed

theorem intersect_exact_witness:
  "cr_wf 1 (new_range 250 10 1 1) \<and> cr_wf 1 (new_range 5 20 1 1) \<and>
   (\<forall>v. contains (fst (intersect (new_range 250 10 1 1) (new_range 5 20 1 1))) v \<longleftrightarrow>
      contains (new_range 250 10 1 1) v \<and> contains (new_range 5 20 1 1) v)"
proof -
  have wf: "cr_wf 1 (new_range 250 10 1 1)" "cr_wf 1 (new_range 5 20 1 1)"
    by (auto simp: cr_wf_def new_range_def calc_mask_def UINTBMASKS_def as_u32_def valid_size_def
        word_uint_eq_iff uint_mod intro!: exI [of _ 0])
  have "same_class (new_range 250 10 1 1) (new_range 5 20 1 1)"
    by (simp add: same_class_def new_range_def Let_def word_uint_eq_iff uint_mod)
  moreover have "snd (intersect (new_range 250 10 1 1) (new_range 5 20 1 1)) = 0" by code_simp
  ultimately show ?thesis using intersect_exact [OF wf] wf by (auto split: prod.splits)
qed

text \<open>C19: \<open>circle_union\<close> on two well-formed ranges of one size, with any strides, returns a well-formed
  range; when it returns 0, the result contains exactly the values of the size that one of the two ranges
  contains (including the case of a single value joined to a range of a coarser stride).\<close>

theorem circle_union_exact:
  assumes "cr_wf s r" "cr_wf s op2"
  shows "case circle_union r op2 of (r', c) \<Rightarrow> cr_wf s r' \<and>
    (c = 0 \<longrightarrow> (\<forall>v \<le> calc_mask s. contains r' v \<longleftrightarrow> contains r v \<or> contains op2 v))"
  using circle_union_wf [OF assms] circle_union_contains [OF assms] by (auto split: prod.split)

theorem circle_union_exact_witness:
  "cr_wf 1 (new_range 12 13 1 1) \<and> cr_wf 1 (new_range 0 12 1 4) \<and>
   snd (circle_union (new_range 12 13 1 1) (new_range 0 12 1 4)) = 0 \<and>
   contains (fst (circle_union (new_range 12 13 1 1) (new_range 0 12 1 4))) 12 \<and>
   contains (fst (circle_union (new_range 12 13 1 1) (new_range 0 12 1 4))) 4"
proof -
  have wf1: "cr_wf 1 (new_range 12 13 1 1)"
    by (auto simp: cr_wf_def new_range_def calc_mask_def UINTBMASKS_def as_u32_def valid_size_def
        word_uint_eq_iff uint_mod intro!: exI [of _ 0])
  have wf2: "cr_wf 1 (new_range 0 12 1 4)"
    by (auto simp: cr_wf_def new_range_def calc_mask_def UINTBMASKS_def as_u32_def valid_size_def
        step_value_def word_uint_eq_iff uint_mod intro!: exI [of _ 2])
  have "snd (circle_union (new_range 12 13 1 1) (new_range 0 12 1 4)) = 0" by code_simp
  moreover have "contains (new_range 12 13 1 1) 12" "contains (new_range 0 12 1 4) 4"
    "(12 :: u64) \<le> calc_mask 1" "(4 :: u64) \<le> calc_mask 1"
    by code_simp+
  ultimately show ?thesis using circle_union_exact [OF wf1 wf2] wf1 wf2 by (auto split: prod.splits)
qed

text \<open>\<open>contains_range\<close> decides set inclusion: for two well-formed ranges of one size with stride 1
  it returns true if and only if every value of the size in the second range is in the first.\<close>

theorem contains_range_correct:
  assumes "cr_wf s r" "cr_wf s op2" "cr_step r = 1" "cr_step op2 = 1"
  shows "contains_range r op2 \<longleftrightarrow> (\<forall>v \<le> calc_mask s. contains op2 v \<longrightarrow> contains r v)"
proof -
  have le: "cr_left op2 \<le> calc_mask s" "cr_right r \<le> calc_mask s" using assms by (simp_all add: cr_wf_def)
  have el: "contains op2 (cr_left op2)" if "\<not> cr_isempty op2" using that by (simp add: contains_iff on_stride_def arc_left)
  have c: "contains q v \<longleftrightarrow> \<not> cr_isempty q \<and> arc (cr_left q) (cr_right q) v" if "cr_step q = 1" for q v
    using that by (simp add: contains_iff on_stride_def)
  show ?thesis
  proof (cases "cr_isempty r \<or> cr_isempty op2")
    case True
    then show ?thesis using le el by (auto simp: contains_range_def contains_iff)
  next
    case False
    note A = contains_range_arc [of r op2]
    show ?thesis
    proof (cases "cr_left r = cr_right r \<or> cr_left op2 = cr_right op2")
      case True
      then show ?thesis using A assms False le arc_right [of "cr_left r" "cr_right r"] by (auto simp: c)
    next
      case b: False
      let ?A = "arc (cr_left r) (cr_right r)" and ?B = "arc (cr_left op2) (cr_right op2)"
      have "contains_range r op2 \<longleftrightarrow> ?A (cr_left op2) \<and> \<not> ?B (cr_right r)"
        using A assms False b by simp
      also have "\<dots> \<longleftrightarrow> (\<forall>v \<le> calc_mask s. ?B v \<longrightarrow> ?A v)"
        using b le arc_left arc_right arc_subset by blast
      finally show ?thesis using False by (simp add: c assms)
    qed
  qed
qed

theorem contains_range_correct_witness:
  "cr_wf 1 (new_range 250 10 1 1) \<and> cr_wf 1 (new_range 2 9 1 1) \<and>
   contains_range (new_range 250 10 1 1) (new_range 2 9 1 1) \<and> contains (new_range 250 10 1 1) 5"
proof -
  have wf: "cr_wf 1 (new_range 250 10 1 1)" "cr_wf 1 (new_range 2 9 1 1)"
    by (auto simp: cr_wf_def new_range_def calc_mask_def UINTBMASKS_def as_u32_def valid_size_def
        word_uint_eq_iff uint_mod intro!: exI [of _ 0])
  moreover have "contains_range (new_range 250 10 1 1) (new_range 2 9 1 1)" by code_simp
  moreover have "cr_step (new_range 250 10 1 1) = 1" "cr_step (new_range 2 9 1 1) = 1"
    by (simp_all add: new_range_def Let_def)
  moreover have "contains (new_range 2 9 1 1) 5" "(5 :: u64) \<le> calc_mask 1" by code_simp+
  ultimately show ?thesis using contains_range_correct [OF wf] by blast
qed

text \<open>\<open>invert\<close> on a well-formed range of stride 1 gives the well-formed range of exactly the other
  values, the empty and the full range included, and returns the stride.\<close>

theorem invert_complement:
  assumes "cr_wf s r" "cr_step r = 1"
  shows "case invert r of (r', st) \<Rightarrow> st = 1 \<and> cr_wf s r' \<and> (\<forall>v. contains r' v \<longleftrightarrow> \<not> contains r v)"
proof -
  have e: "r\<lparr>cr_step := 1\<rparr> = r" using assms(2) by (cases r) simp
  show ?thesis
    unfolding invert_def Let_def e
    using assms complement_wf [OF assms] complement_contains [OF assms(2)] by simp
qed

theorem invert_complement_witness:
  "\<forall>v. contains (fst (invert (new_range 250 10 1 1))) v \<longleftrightarrow> \<not> contains (new_range 250 10 1 1) v"
proof -
  have "cr_wf 1 (new_range 250 10 1 1)" "cr_step (new_range 250 10 1 1) = 1"
    by (auto simp: cr_wf_def new_range_def calc_mask_def UINTBMASKS_def as_u32_def valid_size_def
        word_uint_eq_iff uint_mod Let_def intro!: exI [of _ 0])
  from invert_complement [OF this] show ?thesis by (auto split: prod.splits)
qed

end
