(* ===== verification/Circle_Pull.thy ===== *)
theory Circle_Pull
  imports Circle_Sets Op_Semantics
begin

text \<open>
  Pulling a range of outputs back through a p-code operation (\<open>pull_back_unary\<close>,
  \<open>pull_back_binary\<close>): the range of inputs is compared with what the operation's behaviour of theory
  \<open>Op_Behavior\<close> computes. The locale \<open>exact_pull_back\<close> is the contract of one step; steps compose, and
  the operations of the model are its instances.
\<close>

section \<open>The contract of a pull-back step\<close>

locale exact_pull_back =
  fixes s_in s_out :: i32 and pull :: "circle_range \<Rightarrow> circle_range \<times> bool"
    and eval :: "u64 \<Rightarrow> u64" and ok :: "circle_range \<Rightarrow> bool"
  assumes eval_size: "x \<le> calc_mask s_in \<Longrightarrow> eval x \<le> calc_mask s_out"
    and pull_wf: "cr_wf s_out r \<Longrightarrow> ok r \<Longrightarrow> pull r = (r', True) \<Longrightarrow> cr_wf s_in r'"
    and pull_contains: "cr_wf s_out r \<Longrightarrow> ok r \<Longrightarrow> pull r = (r', True) \<Longrightarrow> x \<le> calc_mask s_in \<Longrightarrow>
      contains r' x \<longleftrightarrow> contains r (eval x)"
begin

lemma pull_preimage:
  assumes "cr_wf s_out r" "ok r" "pull r = (r', True)"
  shows "{x. x \<le> calc_mask s_in \<and> contains r' x} = {x. x \<le> calc_mask s_in \<and> contains r (eval x)}"
  using pull_contains [OF assms] by auto

end

text \<open>Two steps in a row: from the output of the outer operation to the input of the inner one.\<close>

locale exact_pull_back_pair =
  outer: exact_pull_back s_mid s_out pull1 eval1 ok1 + inner: exact_pull_back s_in s_mid pull0 eval0 ok0
  for s_in s_mid s_out :: i32 and pull1 pull0 eval1 eval0 ok1 ok0
begin

definition pull_both :: "circle_range \<Rightarrow> circle_range \<times> bool" where
  "pull_both r = (case pull1 r of (r1, b) \<Rightarrow> if b then pull0 r1 else (r1, False))"

sublocale both: exact_pull_back s_in s_out pull_both "eval1 \<circ> eval0"
  "\<lambda>r. ok1 r \<and> (\<forall>r1. pull1 r = (r1, True) \<longrightarrow> ok0 r1)"
proof
  show "(eval1 \<circ> eval0) x \<le> calc_mask s_out" if "x \<le> calc_mask s_in" for x
    using that inner.eval_size outer.eval_size by simp
  fix r r'
  assume a: "cr_wf s_out r" "ok1 r \<and> (\<forall>r1. pull1 r = (r1, True) \<longrightarrow> ok0 r1)" "pull_both r = (r', True)"
  then obtain r1 where r1: "pull1 r = (r1, True)" "pull0 r1 = (r', True)"
    by (auto simp: pull_both_def split: prod.splits if_splits)
  have wf: "cr_wf s_mid r1" using outer.pull_wf a r1 by blast
  then show "cr_wf s_in r'" using inner.pull_wf a r1 by blast
  show "contains r' x \<longleftrightarrow> contains r ((eval1 \<circ> eval0) x)" if "x \<le> calc_mask s_in" for x
    using that a r1 wf inner.pull_contains inner.eval_size outer.pull_contains by simp
qed

end

section \<open>Arcs as modular distances\<close>

lemma arc_mod:
  assumes "valid_size s" "l \<le> calc_mask s" "r \<le> calc_mask s" "v \<le> calc_mask s" "l \<noteq> r"
  shows "arc l r v \<longleftrightarrow> (uint v - uint l) mod 2 ^ (8 * nat s) < (uint r - uint l) mod 2 ^ (8 * nat s)"
proof -
  let ?N = "2 ^ (8 * nat s) :: int"
  obtain L R V N where e: "uint l = L" "uint r = R" "uint v = V" "?N = N"
    and b: "0 \<le> L" "L < N" "0 \<le> R" "R < N" "0 \<le> V" "V < N" "L \<noteq> R"
    using assms by (simp add: le_calc_mask_uint word_uint_eq_iff)
  show ?thesis
    unfolding arc_def word_less_def word_le_def e mod_sum_cases(2) [OF b(5,6,1,2)] mod_sum_cases(2) [OF b(3,4,1,2)]
    using b by auto
qed

lemma uint_masked:
  assumes "valid_size s"
  shows "uint ((a + b) AND calc_mask s) = (uint a + uint b) mod 2 ^ (8 * nat s)"
    "uint ((a - b) AND calc_mask s) = (uint a - uint b) mod 2 ^ (8 * nat s)"
  by (simp_all only: word_arith_of_int uint_and_calc_mask [OF assms])

lemma dvd_pow: "k < 8 * nat s \<Longrightarrow> (2::int) ^ k dvd 2 ^ (8 * nat s)"
  by (simp add: le_imp_power_dvd)

text \<open>Rotation: subtracting a constant from the bounds is adding it to the value.\<close>

lemma rotate_arc:
  assumes "valid_size s" "l \<le> calc_mask s" "r \<le> calc_mask s" "x \<le> calc_mask s"
  shows "arc ((l - c) AND calc_mask s) ((r - c) AND calc_mask s) x \<longleftrightarrow> arc l r ((x + c) AND calc_mask s)"
proof (cases "l = r")
  case False
  let ?N = "2 ^ (8 * nat s) :: int"
  have "(l - c) AND calc_mask s \<noteq> (r - c) AND calc_mask s"
  proof
    assume "(l - c) AND calc_mask s = (r - c) AND calc_mask s"
    then have "(uint l - uint c) mod ?N = (uint r - uint c) mod ?N"
      using uint_masked(2) [OF assms(1), of l c] uint_masked(2) [OF assms(1), of r c] by simp
    then have "uint l mod ?N = uint r mod ?N" by (simp add: mod_eq_dvd_iff)
    then show False using False assms by (simp add: le_calc_mask_uint word_uint_eq_iff)
  qed
  note M = arc_mod [OF assms(1) mask_and_le [OF assms(1)] mask_and_le [OF assms(1)] assms(4) this]
  have "arc ((l - c) AND calc_mask s) ((r - c) AND calc_mask s) x \<longleftrightarrow>
      (uint x - (uint l - uint c)) mod ?N < (uint r - uint c - (uint l - uint c)) mod ?N"
    unfolding M uint_masked [OF assms(1)] mod_diff_right_eq mod_diff_left_eq ..
  also have "\<dots> \<longleftrightarrow> (uint x + uint c - uint l) mod ?N < (uint r - uint l) mod ?N"
    by (simp add: algebra_simps)
  also have "\<dots> \<longleftrightarrow> arc l r ((x + c) AND calc_mask s)"
    unfolding arc_mod [OF assms(1-3) mask_and_le [OF assms(1)] False] uint_masked [OF assms(1)]
      mod_diff_left_eq ..
  finally show ?thesis .
qed simp

lemma rotate_class:
  assumes "valid_size s" "k < 8 * nat s" "k \<le> 30"
  shows "((l - c) AND calc_mask s) mod step_value (2 ^ k) = x mod step_value (2 ^ k) \<longleftrightarrow>
    l mod step_value (2 ^ k) = ((x + c) AND calc_mask s) mod step_value (2 ^ k)"
  unfolding stride_int [OF assms(3)] uint_masked [OF assms(1)] mod_mod_cancel [OF dvd_pow [OF assms(2)]]
  by (simp add: mod_eq_dvd_iff algebra_simps)

text \<open>Reflection: \<open>x \<mapsto> c - x\<close> maps an aligned arc to an aligned arc with the bounds exchanged.\<close>

lemma mod_diff3: "(a mod N - b mod N - k) mod N = (a - b - k) mod (N :: int)"
  by (metis mod_diff_eq mod_diff_left_eq)

lemma reflect_mod:
  fixes d y st N :: int
  assumes "0 < st" "st dvd N" "st dvd d" "st dvd y" "0 < d" "d < N" "0 \<le> y" "y < N"
  shows "y < d \<longleftrightarrow> (d - y - st) mod N < d"
proof (cases "y < d")
  case True
  then have "st \<le> d - y" using assms by (intro zdvd_imp_le) auto
  then have "(d - y - st) mod N = d - y - st" using assms by (intro mod_pos_pos_trivial) auto
  then show ?thesis using True assms by simp
next
  case False
  have "st \<le> N - y" using assms by (intro zdvd_imp_le) auto
  then have "(d - y - st + N) mod N = d - y - st + N" using False assms by (intro mod_pos_pos_trivial) auto
  then show ?thesis using False \<open>st \<le> N - y\<close> by simp
qed

lemma reflect_arc:
  assumes "valid_size s" "k < 8 * nat s" "l \<le> calc_mask s" "r \<le> calc_mask s" "x \<le> calc_mask s" "y \<le> calc_mask s"
    and "uint y = (c - uint x) mod 2 ^ (8 * nat s)"
    and "uint l' = (c - uint r + 2 ^ k) mod 2 ^ (8 * nat s)" "uint r' = (c - uint l + 2 ^ k) mod 2 ^ (8 * nat s)"
    and "uint l mod 2 ^ k = uint r mod 2 ^ k" "uint l mod 2 ^ k = uint y mod 2 ^ k"
  shows "arc l' r' x \<longleftrightarrow> arc l r y"
proof -
  let ?N = "2 ^ (8 * nat s) :: int"
  have le: "l' \<le> calc_mask s" "r' \<le> calc_mask s" using assms by (simp_all add: le_calc_mask_uint)
  show ?thesis
  proof (cases "l = r")
    case True
    then have "l' = r'" using assms by (simp add: word_uint_eq_iff)
    then show ?thesis using True by simp
  next
    case False
    let ?d = "(uint r - uint l) mod ?N" and ?y = "(uint y - uint l) mod ?N"
    have ne: "l' \<noteq> r'"
    proof
      assume "l' = r'"
      then have "(c - uint r + 2 ^ k) mod ?N = (c - uint l + 2 ^ k) mod ?N" using assms by simp
      then have "uint l mod ?N = uint r mod ?N" by (simp add: mod_eq_dvd_iff)
      then show False using False assms by (simp add: le_calc_mask_uint word_uint_eq_iff)
    qed
    have dv: "(2::int) ^ k dvd ?d" "(2::int) ^ k dvd ?y"
      using assms(10,11) [symmetric] dvd_pow [OF assms(2)]
      by (simp_all add: dvd_mod_iff) (simp_all add: mod_eq_dvd_iff)
    have "?d \<noteq> 0"
      using False assms by (simp add: mod_eq_dvd_iff [symmetric] mod_eq_0_iff_dvd le_calc_mask_uint word_uint_eq_iff)
    moreover have "0 \<le> ?d" by simp
    ultimately have "0 < ?d" by linarith
    then have d: "0 < ?d" "?d < ?N" "0 \<le> ?y" "?y < ?N" by simp_all
    have "(uint r' - uint l') mod ?N = ?d"
      unfolding assms(8,9) mod_diff_eq by (simp add: algebra_simps)
    moreover have "(uint x - uint l') mod ?N = (?d - ?y - 2 ^ k) mod ?N"
    proof -
      have "(?d - ?y - 2 ^ k) mod ?N = ((uint r - uint l) - ((c - uint x) - uint l) - 2 ^ k) mod ?N"
        unfolding assms(7) mod_diff_left_eq mod_diff3 ..
      moreover have "(uint x - uint l') mod ?N = (uint x - (c - uint r + 2 ^ k)) mod ?N"
        unfolding assms(8) mod_diff_right_eq ..
      ultimately show ?thesis by (simp add: algebra_simps)
    qed
    ultimately show ?thesis
      unfolding arc_mod [OF assms(1) le assms(5) ne] arc_mod [OF assms(1,3,4,6) False]
      using reflect_mod [OF _ dvd_pow [OF assms(2)] dv d] by (simp only: zero_less_power zero_less_numeral)
  qed
qed

section \<open>Arithmetic\<close>

lemma cr_wf_cases:
  assumes "cr_wf s r"
  obtains k where "valid_size s" "cr_mask r = calc_mask s" "cr_left r \<le> calc_mask s" "cr_right r \<le> calc_mask s"
    "k < 8 * nat s" "k \<le> 30" "cr_step r = 2 ^ k"
    "cr_isempty r \<or> cr_left r mod step_value (cr_step r) = cr_right r mod step_value (cr_step r)"
  using assms by (auto simp: cr_wf_def)

definition rotated :: "circle_range \<Rightarrow> u64 \<Rightarrow> circle_range" where
  "rotated r c = r\<lparr>cr_left := (cr_left r - c) AND cr_mask r, cr_right := (cr_right r - c) AND cr_mask r\<rparr>"

lemma rotated_contains:
  assumes "cr_wf s r" "x \<le> calc_mask s"
  shows "contains (rotated r c) x \<longleftrightarrow> contains r ((x + c) AND calc_mask s)"
proof (rule cr_wf_cases [OF assms(1)])
  fix k
  assume w: "valid_size s" "cr_mask r = calc_mask s" "cr_left r \<le> calc_mask s" "cr_right r \<le> calc_mask s"
    "k < 8 * nat s" "k \<le> 30" "cr_step r = 2 ^ k"
  show ?thesis
    using rotate_arc [OF w(1,3,4) assms(2), of c] rotate_class [OF w(1,5,6), of "cr_left r" c x] w
    by (simp add: rotated_def contains_iff on_stride_def)
qed

lemma class_diff:
  assumes "valid_size s" "k < 8 * nat s" "k \<le> 30" "l mod step_value (2 ^ k) = r mod step_value (2 ^ k)"
  shows "((l - c) AND calc_mask s) mod step_value (2 ^ k) = ((r - c) AND calc_mask s) mod step_value (2 ^ k)"
  using assms(4)
  unfolding stride_int [OF assms(3)] uint_masked [OF assms(1)] mod_mod_cancel [OF dvd_pow [OF assms(2)]]
  by (metis mod_diff_left_eq)

lemma rotated_wf: "cr_wf s r \<Longrightarrow> cr_wf s (rotated r c)"
  by (erule cr_wf_cases)
    (auto simp: cr_wf_def rotated_def mask_and_le intro: class_diff)

text \<open>Reflection at \<open>c\<close>: two's complement is \<open>c = 0\<close>, bitwise negation \<open>c = -1\<close>.\<close>

definition reflected :: "circle_range \<Rightarrow> u64 \<Rightarrow> circle_range" where
  "reflected r c = r\<lparr>cr_left := (c - cr_right r + step_value (cr_step r)) AND cr_mask r,
     cr_right := (c - cr_left r + step_value (cr_step r)) AND cr_mask r\<rparr>"

lemma uint_reflect:
  assumes "valid_size s" "k \<le> 30"
  shows "uint ((c - v + step_value (2 ^ k)) AND calc_mask s) = (uint c - uint v + 2 ^ k) mod 2 ^ (8 * nat s)"
proof -
  have "c - v + step_value (2 ^ k) = word_of_int (uint c - uint v + 2 ^ k)"
    by (simp add: step_value_def)
  then show ?thesis by (simp only: uint_and_calc_mask [OF assms(1)])
qed

lemma mirror_class: "(c - r) mod m = x mod m \<longleftrightarrow> r mod m = (c - x) mod (m :: int)"
proof -
  have "r - (c - x) = - (c - r - x)" by simp
  then show ?thesis by (simp only: mod_eq_dvd_iff dvd_minus_iff)
qed

lemma reflected_contains:
  assumes "cr_wf s r" "x \<le> calc_mask s"
  shows "contains (reflected r c) x \<longleftrightarrow> contains r ((c - x) AND calc_mask s)"
proof (cases "cr_isempty r")
  case False
  show ?thesis
  proof (rule cr_wf_cases [OF assms(1)])
    fix k
    let ?y = "(c - x) AND calc_mask s"
    let ?l = "(c - cr_right r + step_value (2 ^ k)) AND calc_mask s"
    let ?r = "(c - cr_left r + step_value (2 ^ k)) AND calc_mask s"
    assume w: "valid_size s" "cr_mask r = calc_mask s" "cr_left r \<le> calc_mask s" "cr_right r \<le> calc_mask s"
      "k < 8 * nat s" "k \<le> 30" "cr_step r = 2 ^ k"
      and e: "cr_isempty r \<or> cr_left r mod step_value (cr_step r) = cr_right r mod step_value (cr_step r)"
    have al: "uint (cr_left r) mod 2 ^ k = uint (cr_right r) mod 2 ^ k"
      using e False unfolding w(7) stride_int [OF w(6)] by simp
    have l: "uint ?l mod 2 ^ k = (uint c - uint (cr_right r)) mod 2 ^ k"
      unfolding uint_reflect [OF w(1,6)] mod_mod_cancel [OF dvd_pow [OF w(5)]] by simp
    have y: "uint ?y mod 2 ^ k = (uint c - uint x) mod 2 ^ k"
      unfolding uint_masked [OF w(1)] mod_mod_cancel [OF dvd_pow [OF w(5)]] ..
    have cls: "uint ?l mod 2 ^ k = uint x mod 2 ^ k \<longleftrightarrow> uint (cr_left r) mod 2 ^ k = uint ?y mod 2 ^ k"
      unfolding l y al by (rule mirror_class)
    have ar: "arc ?l ?r x \<longleftrightarrow> arc (cr_left r) (cr_right r) ?y"
      if "uint (cr_left r) mod 2 ^ k = uint ?y mod 2 ^ k"
      by (rule reflect_arc [OF w(1,5,3,4) assms(2) mask_and_le [OF w(1)] uint_masked(2) [OF w(1)]
            uint_reflect [OF w(1,6)] uint_reflect [OF w(1,6)] al that])
    have "contains (reflected r c) x \<longleftrightarrow> uint ?l mod 2 ^ k = uint x mod 2 ^ k \<and> arc ?l ?r x"
      using False by (simp add: reflected_def contains_iff on_stride_def w(2) w(7) stride_int [OF w(6)])
    moreover have "contains r ?y \<longleftrightarrow> uint (cr_left r) mod 2 ^ k = uint ?y mod 2 ^ k \<and> arc (cr_left r) (cr_right r) ?y"
      using False by (simp add: contains_iff on_stride_def w(7) stride_int [OF w(6)])
    ultimately show ?thesis using cls ar by blast
  qed
qed (simp add: reflected_def contains_iff)

lemma reflected_wf: "cr_wf s r \<Longrightarrow> cr_wf s (reflected r c)"
proof (erule cr_wf_cases)
  fix k
  assume w: "valid_size s" "cr_mask r = calc_mask s" "k < 8 * nat s" "k \<le> 30" "cr_step r = 2 ^ k"
    and e: "cr_isempty r \<or> cr_left r mod step_value (cr_step r) = cr_right r mod step_value (cr_step r)"
  have "(uint c - uint (cr_right r) + 2 ^ k) mod 2 ^ k = (uint c - uint (cr_left r) + 2 ^ k) mod 2 ^ k"
    if "uint (cr_left r) mod 2 ^ k = uint (cr_right r) mod 2 ^ k"
    using that by (metis mod_add_self2 mod_diff_right_eq)
  then show ?thesis
    using w e
    by (auto simp: cr_wf_def reflected_def mask_and_le stride_int uint_reflect mod_mod_cancel [OF dvd_pow])
qed

lemma pull_back_arith:
  assumes "\<not> cr_isempty r"
  shows "pull_back_binary r IntAdd val 0 s s = (rotated r val, True)"
    "pull_back_binary r IntSub val 0 s s = (rotated r (- val), True)"
    "pull_back_unary r Int2comp s s = (reflected r 0, True)"
    "pull_back_unary r IntNegate s s = (reflected r (- 1), True)"
    "pull_back_unary r Copy s s = (r, True)"
  using assms
  by (simp_all add: pull_back_binary_def pull_back_unary_def rotated_def reflected_def not_eq_complement algebra_simps Let_def)

section \<open>Comparisons\<close>

text \<open>The constants of the comparisons as integers: the mask, its half, the successor under the mask.\<close>

lemma compare_consts:
  assumes "valid_size s" "2 ^ (8 * nat s - 1) = h" "2 ^ (8 * nat s) = 2 * (h :: int)"
  shows "uint (calc_mask s) = 2 * h - 1" "uint (drop_bit 1 (calc_mask s)) = h - 1"
    "uint (drop_bit 1 (calc_mask s) + 1) = h"
    "v \<le> calc_mask s \<Longrightarrow> uint ((v + 1) AND calc_mask s) = (if uint v = 2 * h - 1 then 0 else uint v + 1)"
    "v \<le> calc_mask s \<Longrightarrow> v \<noteq> 0 \<Longrightarrow> uint ((calc_mask s - v + 1) AND calc_mask s) = 2 * h - uint v"
proof -
  have h: "0 < h" using assms(2) by auto
  show m: "uint (calc_mask s) = 2 * h - 1"
    using uint_and_calc_mask [OF assms(1), of "-1"] h unfolding assms(3) by (simp add: zmod_minus1)
  show d: "uint (drop_bit 1 (calc_mask s)) = h - 1"
    unfolding uint_drop m using h by simp
  have "h \<le> 2 ^ 63"
    unfolding assms(2) [symmetric] using nat_size_bounds [OF assms(1)] by (intro power_increasing) auto
  then show "uint (drop_bit 1 (calc_mask s) + 1) = h"
    using h by (simp only: uint_word_ariths d) (simp add: mod_pos_pos_trivial)
  have one: "uint (1 :: u64) = 1" by simp
  show "v \<le> calc_mask s \<Longrightarrow> uint ((v + 1) AND calc_mask s) = (if uint v = 2 * h - 1 then 0 else uint v + 1)"
    unfolding uint_masked [OF assms(1)] one le_calc_mask_uint [OF assms(1)] assms(3) using h
    by (auto simp: mod_pos_pos_trivial)
  have v: "calc_mask s - v + 1 = (calc_mask s + 1) - v" by simp
  show "v \<le> calc_mask s \<Longrightarrow> v \<noteq> 0 \<Longrightarrow> uint ((calc_mask s - v + 1) AND calc_mask s) = 2 * h - uint v"
  proof -
    assume a: "v \<le> calc_mask s" "v \<noteq> 0"
    have "(calc_mask s - v + 1) AND calc_mask s = word_of_int (2 * h - uint v) AND calc_mask s"
      using m by (metis (no_types, lifting) add_diff_cancel_right' diff_add_eq eq_diff_eq of_int_add of_int_diff of_int_1 word_of_int_uint)
    then have e: "uint ((calc_mask s - v + 1) AND calc_mask s) = (2 * h - uint v) mod (2 * h)"
      by (simp only: uint_and_calc_mask [OF assms(1)] assms(3))
    have "0 < uint v" "uint v < 2 * h"
      using a unfolding le_calc_mask_uint [OF assms(1)] assms(3) by (simp_all add: word_neq_0_conv word_less_def)
    then show ?thesis unfolding e by (intro mod_pos_pos_trivial) simp_all
  qed
qed

text \<open>
  What the range set by each comparison holds, on any range of the input mask with stride 1: the inputs on
  which the comparison of p-code is true.
\<close>

definition compare_holds :: "opcode \<Rightarrow> u64 \<Rightarrow> i32 \<Rightarrow> circle_range \<Rightarrow> circle_range" where
  "compare_holds opc val slot =
     (case opc of IntEqual \<Rightarrow> holds_equal val | IntNotequal \<Rightarrow> holds_notequal val
      | IntLess \<Rightarrow> holds_less val slot | IntLessequal \<Rightarrow> holds_lessequal val slot
      | IntSless \<Rightarrow> holds_sless val slot | IntSlessequal \<Rightarrow> holds_slessequal val slot
      | _ \<Rightarrow> holds_carry val)"

definition compare_ops :: "opcode set" where
  "compare_ops = {IntEqual, IntNotequal, IntLess, IntLessequal, IntSless, IntSlessequal, IntCarry}"

definition operands :: "i32 \<Rightarrow> u64 \<Rightarrow> u64 \<Rightarrow> u64 \<times> u64" where
  "operands slot val x = (if slot = 0 then (x, val) else (val, x))"

definition compare_ref :: "opcode \<Rightarrow> i32 \<Rightarrow> i32 \<Rightarrow> u64 \<Rightarrow> u64 \<Rightarrow> bool" where
  "compare_ref opc s slot val x =
     (pcode_ref opc (8 * nat s) (uint (fst (operands slot val x))) (uint (snd (operands slot val x))) = Some 1)"

lemma compare_holds_arc:
  assumes "valid_size s" "val \<le> calc_mask s" "x \<le> calc_mask s" "opc \<in> compare_ops"
    and "cr_mask r = calc_mask s" "\<not> cr_isempty r"
  shows "\<not> cr_isempty (compare_holds opc val slot r)
      \<and> arc (cr_left (compare_holds opc val slot r)) (cr_right (compare_holds opc val slot r)) x
    \<longleftrightarrow> compare_ref opc s slot val x"
proof -
  obtain X V h :: int where i: "uint x = X" "uint val = V" "2 ^ (8 * nat s - 1) = h" "2 ^ (8 * nat s) = 2 * h"
    and b: "0 \<le> X" "X < 2 * h" "0 \<le> V" "V < 2 * h" "0 < h"
    using operands_int [OF assms(1,3,2)] by metis
  have z: "uint (0 :: u64) = 0" by simp
  note c = compare_consts [OF assms(1) i(3,4)]
  note c' = c(4) [OF assms(2)] c(5) [OF assms(2)]
  note d = compare_holds_def compare_ref_def operands_def pcode_ref_def flag_def arc_def word_order_int i c(1-3) c' z
  consider "opc = IntEqual" | "opc = IntNotequal" | "opc = IntLess" | "opc = IntLessequal" | "opc = IntSless"
    | "opc = IntSlessequal" | "opc = IntCarry"
    using assms(4) by (auto simp: compare_ops_def)
  then show ?thesis
  proof cases
    case 1
    then show ?thesis using b by (simp add: d assms(5,6) holds_equal_def; presburger)
  next
    case 2
    then show ?thesis using b by (simp add: d assms(5,6) holds_notequal_def; presburger)
  next
    case 3
    then show ?thesis using b by (simp add: d assms(5,6) holds_less_def; presburger)
  next
    case 4
    then show ?thesis using b by (simp add: d assms(5,6) holds_lessequal_def; presburger)
  next
    case 5
    then show ?thesis using b by (simp add: d assms(5,6) holds_sless_def sval_def del: One_nat_def; presburger)
  next
    case 6
    then show ?thesis using b by (simp add: d assms(5,6) holds_slessequal_def sval_def del: One_nat_def; presburger)
  next
    case 7
    then show ?thesis using b by (simp add: d assms(5,6) holds_carry_def; presburger)
  qed
qed

lemma compare_holds_frame:
  assumes "opc \<in> compare_ops"
  shows "cr_mask (compare_holds opc val slot r) = cr_mask r" "cr_step (compare_holds opc val slot r) = cr_step r"
    "cr_isempty r \<Longrightarrow> cr_isempty (compare_holds opc val slot r)"
  using assms
  by (auto simp: compare_ops_def compare_holds_def holds_equal_def holds_notequal_def holds_less_def
      holds_lessequal_def holds_sless_def holds_slessequal_def holds_carry_def)

lemma half_mask_le:
  assumes "valid_size s"
  shows "drop_bit 1 (calc_mask s) + 1 \<le> calc_mask s"
proof -
  obtain h :: int where h: "2 ^ (8 * nat s - 1) = h" "2 ^ (8 * nat s) = 2 * h" "0 < h"
    using operands_int [OF assms mask_and_le [OF assms] mask_and_le [OF assms]] by metis
  show ?thesis unfolding word_le_def compare_consts [OF assms h(1,2)] using h(3) by simp
qed

lemma small_le_mask:
  assumes "valid_size s" "uint v < 256"
  shows "v \<le> calc_mask s"
proof -
  have "(2 :: int) ^ 8 \<le> 2 ^ (8 * nat s)"
    using assms(1) by (intro power_increasing) (auto simp: valid_size_def)
  then show ?thesis using assms by (simp add: le_calc_mask_uint)
qed

lemma compare_holds_bounds:
  assumes "opc \<in> compare_ops" "valid_size s" "cr_mask r = calc_mask s" "val \<le> calc_mask s"
    "cr_left r \<le> calc_mask s" "cr_right r \<le> calc_mask s"
  shows "cr_left (compare_holds opc val slot r) \<le> calc_mask s \<and> cr_right (compare_holds opc val slot r) \<le> calc_mask s"
  using assms half_mask_le [OF assms(2)]
  by (auto simp: compare_ops_def compare_holds_def holds_equal_def holds_notequal_def holds_less_def
      holds_lessequal_def holds_sless_def holds_slessequal_def holds_carry_def mask_and_le)

lemma wf_step1:
  assumes "valid_size s" "cr_mask r = calc_mask s" "cr_left r \<le> calc_mask s" "cr_right r \<le> calc_mask s" "cr_step r = 1"
  shows "cr_wf s r"
  using assms size_pos [OF assms(1)]
  by (auto simp: cr_wf_def word_uint_eq_iff uint_mod intro!: exI [of _ 0])

lemma pull_back_compare_op:
  "opc \<in> compare_ops \<Longrightarrow> \<not> cr_isempty r \<Longrightarrow>
     pull_back_binary r opc val slot si so = pull_back_compare r si (compare_holds opc val slot)"
  by (auto simp: compare_ops_def compare_holds_def pull_back_binary_def)

text \<open>
  The Boolean reading of an output range of one byte. When both truth values are possible the code keeps
  the range 0 to 2 under the input's mask, which is not the full input range; see the lemma at the end.
\<close>

definition decided :: "circle_range \<Rightarrow> bool" where
  "decided r \<longleftrightarrow> \<not> (contains r 0 \<and> contains r 1)"

lemma pull_back_compare_decided:
  assumes "\<not> cr_isempty r" "decided r"
  shows "pull_back_compare r si H =
    (if contains r 0 then
       cr_complement (H (r\<lparr>cr_left := 0, cr_right := 1, cr_mask := calc_mask si, cr_step := 1, cr_isempty := False\<rparr>))
     else if contains r 1 then
       H (r\<lparr>cr_left := 1, cr_right := 2, cr_mask := calc_mask si, cr_step := 1, cr_isempty := False\<rparr>)
     else H (r\<lparr>cr_mask := calc_mask si, cr_step := 1, cr_isempty := True\<rparr>), True)"
proof -
  have "contains r 0" if "cr_left r = 0"
    using that assms(1) arc_left [of 0 "cr_right r"] by (simp add: contains_iff on_stride_def)
  then show ?thesis
    using assms by (cases r) (auto simp: pull_back_compare_def convert_to_boolean_def decided_def Let_def)
qed

lemma pull_back_compare_exact:
  assumes "opc \<in> compare_ops" "valid_size s" "val \<le> calc_mask s" "cr_left r \<le> calc_mask s" "cr_right r \<le> calc_mask s"
    and "\<not> cr_isempty r" "decided r" "pull_back_compare r s (compare_holds opc val slot) = (r', b)"
  shows "b \<and> cr_wf s r'"
    and "x \<le> calc_mask s \<Longrightarrow> contains r' x \<longleftrightarrow> contains r (of_flag (compare_ref opc s slot val x))"
proof -
  let ?H = "compare_holds opc val slot"
  let ?q = "\<lambda>l rt. r\<lparr>cr_left := l, cr_right := rt, cr_mask := calc_mask s, cr_step := 1, cr_isempty := False\<rparr>"
  let ?e = "r\<lparr>cr_mask := calc_mask s, cr_step := 1, cr_isempty := True\<rparr>"
  have le: "(0 :: u64) \<le> calc_mask s" "(1 :: u64) \<le> calc_mask s" "(2 :: u64) \<le> calc_mask s"
    using assms(2) by (simp_all add: small_le_mask)
  have wf: "cr_wf s (?H (?q 0 1))" "cr_wf s (?H (?q 1 2))" "cr_wf s (?H ?e)"
    using compare_holds_bounds [OF assms(1,2) _ assms(3)] le assms(2,4,5)
    by (auto intro!: wf_step1 simp: compare_holds_frame [OF assms(1)])
  have r': "b" "r' = (if contains r 0 then cr_complement (?H (?q 0 1)) else if contains r 1 then ?H (?q 1 2) else ?H ?e)"
    using assms(8) unfolding pull_back_compare_decided [OF assms(6,7)] by simp_all
  then show "b \<and> cr_wf s r'"
    using wf complement_wf [OF wf(1)] by (simp add: compare_holds_frame [OF assms(1)])
  assume x: "x \<le> calc_mask s"
  have c: "contains (?H (?q l rt)) x \<longleftrightarrow> compare_ref opc s slot val x" for l rt
    using compare_holds_arc [OF assms(2,3) x assms(1), of "?q l rt" slot]
    by (simp add: contains_iff on_stride_def compare_holds_frame [OF assms(1)])
  have "\<not> contains (?H ?e) x" using compare_holds_frame(3) [OF assms(1), of ?e] by (simp add: contains_iff)
  moreover have "contains (cr_complement (?H (?q 0 1))) x \<longleftrightarrow> \<not> compare_ref opc s slot val x"
    using complement_contains [of "?H (?q 0 1)"] c by (simp add: compare_holds_frame [OF assms(1)])
  ultimately show "contains r' x \<longleftrightarrow> contains r (of_flag (compare_ref opc s slot val x))"
    using c assms(7) unfolding r' decided_def by (auto simp: of_flag_def)
qed

section \<open>The operations of the model as instances\<close>

lemma calc_mask_mono_1: "valid_size s \<Longrightarrow> v \<le> calc_mask 1 \<Longrightarrow> v \<le> calc_mask s"
  using small_le_mask le_calc_mask_uint [of 1 v] by (simp add: valid_size_def)

interpretation pb_compare: exact_pull_back s 1 "\<lambda>r. pull_back_binary r opc val slot s 1"
  "\<lambda>x. of_flag (compare_ref opc s slot val x)"
  "\<lambda>r. opc \<in> compare_ops \<and> valid_size s \<and> val \<le> calc_mask s \<and> \<not> cr_isempty r \<and> decided r"
  for s opc val slot
proof
  show "of_flag (compare_ref opc s slot val x) \<le> calc_mask 1" for x
    by (rule small_le_mask) (simp_all add: valid_size_def flag_def)
  fix r r' x
  assume r: "cr_wf 1 r" "opc \<in> compare_ops \<and> valid_size s \<and> val \<le> calc_mask s \<and> \<not> cr_isempty r \<and> decided r"
    "pull_back_binary r opc val slot s 1 = (r', True)"
  then have p: "pull_back_compare r s (compare_holds opc val slot) = (r', True)"
    by (simp add: pull_back_compare_op)
  have le: "cr_left r \<le> calc_mask s" "cr_right r \<le> calc_mask s"
    using r calc_mask_mono_1 by (auto simp: cr_wf_def)
  show "cr_wf s r'" using pull_back_compare_exact(1) [OF _ _ _ le _ _ p] r by blast
  show "contains r' x \<longleftrightarrow> contains r (of_flag (compare_ref opc s slot val x))" if "x \<le> calc_mask s"
    using pull_back_compare_exact(2) [OF _ _ _ le _ _ p that] r by blast
qed

lemma pull_back_empty:
  "cr_isempty r \<Longrightarrow> pull_back_binary r opc val slot si so = (r, True)"
  "cr_isempty r \<Longrightarrow> pull_back_unary r opc si so = (r, True)"
  by (simp_all add: pull_back_binary_def pull_back_unary_def)

lemma not_minus: "NOT x = - 1 - (x :: u64)"
  by (simp add: not_eq_complement algebra_simps)

lemma exact_arith:
  assumes "\<And>r. \<not> cr_isempty r \<Longrightarrow> pull r = (f r, True)" "\<And>r. cr_isempty r \<Longrightarrow> pull r = (r, True)"
    "\<And>r. cr_wf s r \<Longrightarrow> cr_wf s (f r)" "\<And>x. eval x = g x AND calc_mask s"
    "\<And>r x. cr_wf s r \<Longrightarrow> x \<le> calc_mask s \<Longrightarrow> contains (f r) x \<longleftrightarrow> contains r (eval x)"
  shows "exact_pull_back s s pull eval (\<lambda>_. True)"
proof
  show "eval x \<le> calc_mask s" for x by (simp add: assms(4) word_and_le1)
  fix r r' x
  assume "cr_wf s r" "pull r = (r', True)"
  then show "cr_wf s r'" "x \<le> calc_mask s \<Longrightarrow> contains r' x \<longleftrightarrow> contains r (eval x)"
    using assms(1,2) [of r] assms(3,5) [of r] by (cases "cr_isempty r"; simp add: contains_iff)+
qed

interpretation pb_add: exact_pull_back s s "\<lambda>r. pull_back_binary r IntAdd c 0 s s" "\<lambda>x. (x + c) AND calc_mask s"
  "\<lambda>_. True" for s c
  by (rule exact_arith [OF pull_back_arith(1) pull_back_empty(1) rotated_wf refl rotated_contains])

interpretation pb_sub: exact_pull_back s s "\<lambda>r. pull_back_binary r IntSub c 0 s s" "\<lambda>x. (x - c) AND calc_mask s"
  "\<lambda>_. True" for s c
  by (rule exact_arith [OF pull_back_arith(2) pull_back_empty(1) rotated_wf refl]) (simp_all add: rotated_contains)

interpretation pb_2comp: exact_pull_back s s "\<lambda>r. pull_back_unary r Int2comp s s" "\<lambda>x. (- x) AND calc_mask s"
  "\<lambda>_. True" for s
  by (rule exact_arith [OF pull_back_arith(3) pull_back_empty(2) reflected_wf refl]) (simp_all add: reflected_contains)

interpretation pb_negate: exact_pull_back s s "\<lambda>r. pull_back_unary r IntNegate s s" "\<lambda>x. NOT x AND calc_mask s"
  "\<lambda>_. True" for s
  by (rule exact_arith [OF pull_back_arith(4) pull_back_empty(2) reflected_wf refl])
    (simp_all add: reflected_contains not_minus)

text \<open>The guard of a jump table: a comparison with a constant of the index plus an offset.\<close>

interpretation guard: exact_pull_back_pair s s 1
  "\<lambda>r. pull_back_binary r opc val slot s 1" "\<lambda>r. pull_back_binary r IntAdd c 0 s s"
  "\<lambda>x. of_flag (compare_ref opc s slot val x)" "\<lambda>x. (x + c) AND calc_mask s"
  "\<lambda>r. opc \<in> compare_ops \<and> valid_size s \<and> val \<le> calc_mask s \<and> \<not> cr_isempty r \<and> decided r"
  "\<lambda>_. True" for s opc val slot c
  ..

section \<open>Properties\<close>

lemma compare_behavior:
  assumes "valid_size s" "a \<le> calc_mask s" "b \<le> calc_mask s" "opc \<in> compare_ops"
  shows "\<exists>bh. build_behaviors ops formats ! index opc = Some bh \<and> evaluate_binary bh so s a b =
    Inr (of_flag (pcode_ref opc (8 * nat s) (uint a) (uint b) = Some 1))"
proof -
  let ?R = "\<lambda>opc. Inr (of_flag (pcode_ref opc (8 * nat s) (uint a) (uint b) = Some 1))"
  have "evaluate_binary OpBehaviorEqual so s a b = ?R IntEqual"
    "evaluate_binary OpBehaviorNotEqual so s a b = ?R IntNotequal"
    "evaluate_binary OpBehaviorIntLess so s a b = ?R IntLess"
    "evaluate_binary OpBehaviorIntLessEqual so s a b = ?R IntLessequal"
    "evaluate_binary OpBehaviorIntSless so s a b = ?R IntSless"
    "evaluate_binary OpBehaviorIntSlessEqual so s a b = ?R IntSlessequal"
    "evaluate_binary OpBehaviorIntCarry so s a b = ?R IntCarry"
    using ref_carry [OF assms(1-3)] ref_signed_less [OF assms(1-3)]
    by (simp_all add: behavior_defs op_behavior_default_def pcode_ref_def flag_def Let_def
        word_uint_eq_iff word_less_def word_le_def)
  then have "\<exists>bh. (opc, bh) \<in> set (register_table ops formats) \<and> evaluate_binary bh so s a b = ?R opc"
    using assms(4) registered_int [of ops formats] unfolding compare_ops_def by auto
  then show ?thesis using build_behaviors_lookup by blast
qed

text \<open>A range with both truth values is not pulled back: what is left is the range of the two truth values.\<close>

lemma pull_back_compare_undecided:
  assumes "opc \<in> compare_ops" "valid_size s" "\<not> cr_isempty r" "\<not> decided r"
  obtains r' where "pull_back_binary r opc val slot s 1 = (r', True)" "cr_wf s r'" "\<And>x. contains r' x \<longleftrightarrow> x \<le> 1"
proof -
  let ?r = "r\<lparr>cr_mask := calc_mask s, cr_step := 1, cr_left := 0, cr_right := 2, cr_isempty := False\<rparr>"
  have "pull_back_binary r opc val slot s 1 = (?r, True)"
    using assms(1,3,4) by (cases r)
      (auto simp: compare_ops_def pull_back_binary_def pull_back_compare_def convert_to_boolean_def decided_def Let_def)
  moreover have "cr_wf s ?r" using assms(2) by (intro wf_step1) (simp_all add: small_le_mask)
  moreover have "contains ?r x \<longleftrightarrow> x \<le> 1" for x by (auto simp: contains_def word_less_def word_le_def)
  ultimately show ?thesis by (rule that)
qed

text \<open>C15: what pulling an output range back through a comparison with a constant gives. For every comparison
  operation, either position of the constant, and any well-formed one-byte range, the pull-back succeeds. When the range
  does not hold both truth values, the result contains exactly the inputs for which the operation's
  registered behaviour returns a value of the output range; when it holds both (every input is possible), the
  result is the range of the two truth values 0 and 1, which is not the preimage. The result is
  well-formed for the input size unless the range was empty and is returned as it is.\<close>

theorem pull_back_compare_preimage:
  assumes "opc \<in> compare_ops" "valid_size s" "val \<le> calc_mask s" "cr_wf 1 r"
    "pull_back_binary r opc val slot s 1 = (r', ok)"
  shows "ok \<and> (if cr_isempty r then r' = r else cr_wf s r') \<and> (\<exists>bh. build_behaviors ops formats ! index opc = Some bh \<and>
    (\<forall>x \<le> calc_mask s. \<exists>y. evaluate_binary bh 1 s (fst (operands slot val x)) (snd (operands slot val x)) = Inr y
       \<and> (contains r' x \<longleftrightarrow> (if contains r 0 \<and> contains r 1 then x \<le> 1 else contains r y))))"
proof -
  obtain bh where bh: "build_behaviors ops formats ! index opc = Some bh"
    using compare_behavior [OF assms(2,3,3,1)] by blast
  have ev: "evaluate_binary bh 1 s (fst (operands slot val x)) (snd (operands slot val x)) =
      Inr (of_flag (compare_ref opc s slot val x))" if "x \<le> calc_mask s" for x
    using compare_behavior [OF assms(2) _ _ assms(1), where a = "fst (operands slot val x)"
        and b = "snd (operands slot val x)" and ops = ops and formats = formats and so = 1]
      bh that assms(3) by (auto simp: operands_def compare_ref_def)
  consider "cr_isempty r" | "\<not> cr_isempty r" "decided r" | "\<not> cr_isempty r" "\<not> decided r" by blast
  then show ?thesis
  proof cases
    case 1
    then have "r' = r" "ok" using assms(5) by (auto simp: pull_back_binary_def)
    then show ?thesis using 1 bh ev by (auto simp: contains_iff)
  next
    case 2
    have le: "cr_left r \<le> calc_mask s" "cr_right r \<le> calc_mask s"
      using assms(2,4) calc_mask_mono_1 by (auto simp: cr_wf_def)
    have ok: "ok"
      using pull_back_compare_exact(1) [OF assms(1-3) le 2] assms(1,5) 2 by (auto simp: pull_back_compare_op)
    then have p: "pull_back_binary r opc val slot s 1 = (r', True)" using assms(5) by simp
    have "cr_wf s r'" by (rule pb_compare.pull_wf [OF assms(4) _ p]) (use assms 2 in blast)
    moreover have "\<not> (contains r 0 \<and> contains r 1)" using 2 by (simp add: decided_def)
    ultimately show ?thesis using ok 2 bh ev pb_compare.pull_contains [OF assms(4) _ p] assms(1-3) by auto
  next
    case 3
    obtain q where "pull_back_binary r opc val slot s 1 = (q, True)" "cr_wf s q" "\<And>x. contains q x \<longleftrightarrow> x \<le> 1"
      by (rule pull_back_compare_undecided [OF assms(1,2) 3], rule that)
    then show ?thesis using 3 bh ev assms(5) by (auto simp: decided_def)
  qed
qed

lemma new_bool_range: "cr_wf 1 (new_bool b)" "\<not> cr_isempty (new_bool b)" "decided (new_bool b)"
  "contains (new_bool b) (of_flag c) \<longleftrightarrow> c = b"
proof -
  show "cr_wf 1 (new_bool b)"
    by (rule wf_step1) (simp_all add: new_bool_def valid_size_def calc_mask_def UINTBMASKS_def as_u32_def of_flag_def)
qed (auto simp: decided_def new_bool_def contains_def of_flag_def word_le_def)

theorem pull_back_compare_preimage_witness:
  "\<exists>bh. build_behaviors no_float_ops [] ! index IntSless = Some bh \<and>
    (\<exists>y. evaluate_binary bh 1 1 0x80 0xfe = Inr y \<and> contains (new_bool True) y)"
proof -
  let ?p = "pull_back_binary (new_bool True) IntSless 0xfe 0 1 1"
  have "(0xfe :: u64) \<le> calc_mask 1" "(0x80 :: u64) \<le> calc_mask 1" "contains (fst ?p) 0x80" by code_simp+
  then show ?thesis
    using pull_back_compare_preimage [of IntSless 1 "0xfe" "new_bool True" 0 "fst ?p" "snd ?p" no_float_ops "[]"]
      new_bool_range [of True] by (auto simp: compare_ops_def valid_size_def operands_def decided_def)
qed

text \<open>C33: the guard of a jump table. Pulling the outcome \<open>b\<close> of a comparison back to the compared value
  and from there through the addition of a constant succeeds, and the resulting well-formed range contains
  a value \<open>x\<close> of the size if and only if the comparison of \<open>x + c\<close>, reduced to the size, comes out as \<open>b\<close>.\<close>

theorem guard_range_exact:
  assumes "opc \<in> compare_ops" "valid_size s" "val \<le> calc_mask s" "x \<le> calc_mask s"
  shows "case pull_back_binary (new_bool b) opc val slot s 1 of (r1, ok1) \<Rightarrow>
    case pull_back_binary r1 IntAdd c 0 s s of (r2, ok2) \<Rightarrow>
      ok1 \<and> ok2 \<and> cr_wf s r2 \<and> (contains r2 x \<longleftrightarrow> compare_ref opc s slot val ((x + c) AND calc_mask s) = b)"
proof -
  obtain r1 ok1 where p1: "pull_back_binary (new_bool b) opc val slot s 1 = (r1, ok1)" by fastforce
  obtain r2 ok2 where p2: "pull_back_binary r1 IntAdd c 0 s s = (r2, ok2)" by fastforce
  have le: "cr_left (new_bool b) \<le> calc_mask s" "cr_right (new_bool b) \<le> calc_mask s"
    using assms(2) calc_mask_mono_1 new_bool_range(1) [of b] by (auto simp: cr_wf_def)
  have ok: "ok1"
    using pull_back_compare_exact(1) [OF assms(1-3) le new_bool_range(2,3)] p1 assms(1) new_bool_range(2)
    by (auto simp: pull_back_compare_op)
  moreover have "ok2" using p2 by (auto simp: pull_back_binary_def split: if_splits)
  ultimately have pb: "guard.pull_both opc val slot s c (new_bool b) = (r2, True)"
    using p1 p2 by (simp add: guard.pull_both_def)
  have g: "(opc \<in> compare_ops \<and> valid_size s \<and> val \<le> calc_mask s \<and> \<not> cr_isempty (new_bool b) \<and> decided (new_bool b)) \<and>
      (\<forall>r1. pull_back_binary (new_bool b) opc val slot s 1 = (r1, True) \<longrightarrow> True)"
    using assms new_bool_range by simp
  show ?thesis
    using guard.both.pull_wf [OF new_bool_range(1) g pb] guard.both.pull_contains [OF new_bool_range(1) g pb assms(4)]
      ok \<open>ok2\<close> p1 p2 by (simp add: new_bool_range(4))
qed

theorem guard_range_exact_witness:
  "contains (fst (pull_back_binary (fst (pull_back_binary (new_bool True) IntLess 10 0 1 1)) IntAdd 0xfe 0 1 1)) 2"
proof -
  have "(10 :: u64) \<le> calc_mask 1" "(2 :: u64) \<le> calc_mask 1" by code_simp+
  moreover have "compare_ref IntLess 1 0 10 ((2 + 0xfe) AND calc_mask 1)"
    by (simp add: compare_ref_def operands_def pcode_ref_def flag_def calc_mask_def UINTBMASKS_def as_u32_def)
  ultimately show ?thesis
    using guard_range_exact [where opc = IntLess and s = 1 and val = 10 and x = 2 and b = True and slot = 0 and c = "0xfe"]
    by (auto simp: compare_ops_def valid_size_def split: prod.splits)
qed

section \<open>Where pulling back goes wrong\<close>

text \<open>Both truth values possible: every input is possible, but the result is the range from 0 to 2.\<close>

lemma pull_back_both_loses:
  "contains (new_range 0 2 1 1) (of_flag (compare_ref IntLess 1 0 10 7)) \<and>
   \<not> contains (fst (pull_back_binary (new_range 0 2 1 1) IntLess 10 0 1 1)) 7"
proof
  show "contains (new_range 0 2 1 1) (of_flag (compare_ref IntLess 1 0 10 7))"
    by (cases "compare_ref IntLess 1 0 10 7"; simp; code_simp)
  show "\<not> contains (fst (pull_back_binary (new_range 0 2 1 1) IntLess 10 0 1 1)) 7" by code_simp
qed

text \<open>Subtraction from a constant: the bounds are negated but not exchanged, so \<open>10 - x \<in> {3, 4}\<close> is
  answered with the complement of what it should be.\<close>

lemma pull_back_sub_from_constant_wrong:
  "contains (new_range 3 5 1 1) (10 - 7) \<and>
   \<not> contains (fst (pull_back_binary (new_range 3 5 1 1) IntSub 10 1 1 1)) 6 \<and> contains (new_range 3 5 1 1) (10 - 6) \<and>
   contains (fst (pull_back_binary (new_range 3 5 1 1) IntSub 10 1 1 1)) 0 \<and> \<not> contains (new_range 3 5 1 1) (10 - 0)"
  by code_simp

text \<open>A right shift by zero at eight bytes: the bound on the outputs wraps to zero and the result is empty.\<close>

lemma pull_back_right_zero_empty:
  "cr_isempty (fst (pull_back_binary (new_range 3 5 8 1) IntRight 0 0 8 8)) \<and> contains (new_range 3 5 8 1) (wshr 3 0)"
  by code_simp

end
