(* ===== verification/Circle_Forward.thy ===== *)
theory Circle_Forward
  imports Circle_Pull
begin

text \<open>
  The forward direction of src/src/rangeutil.rs: pushing ranges of inputs through a p-code operation
  (\<open>push_forward_unary\<close>, \<open>push_forward_binary\<close>, \<open>push_forward_trinary\<close>), widening, translating a
  range into a comparison with a constant (\<open>translate2_op\<close>), and \<open>pull_back\<close> on an operation of the
  data-flow graph.

  A push overwrites the receiver; the model takes the receiver and returns it updated with the Boolean
  result. The stride loop of multiplication doubles an \<open>i32\<close> that can wrap to zero and then runs
  forever, so \<open>push_forward_binary\<close> has a value only when the loop ends.
\<close>

section \<open>Unary operations\<close>

definition full_bool :: "circle_range \<Rightarrow> circle_range" where
  "full_bool r = r\<lparr>cr_isempty := False, cr_mask := 0xff, cr_step := 1, cr_left := 0, cr_right := 2\<rparr>"

definition push_zext :: "circle_range \<Rightarrow> circle_range \<Rightarrow> i32 \<Rightarrow> circle_range \<times> bool" where
  "push_zext r in1 out_size =
     (let r = r\<lparr>cr_isempty := False, cr_step := cr_step in1, cr_mask := calc_mask out_size\<rparr>;
          step = step_value (cr_step in1) in
      if cr_left in1 = cr_right in1 then
        let l = cr_left in1 mod step in (r\<lparr>cr_left := l, cr_right := cr_mask in1 + 1 + l\<rparr>, True)
      else let r = r\<lparr>cr_left := cr_left in1, cr_right := (cr_right in1 - step) AND cr_mask in1\<rparr> in
        if cr_right r < cr_left r then (r, False)
        else (r\<lparr>cr_right := cr_right r + step\<rparr>, True))"

definition push_sext :: "circle_range \<Rightarrow> circle_range \<Rightarrow> i32 \<Rightarrow> i32 \<Rightarrow> circle_range \<times> bool" where
  "push_sext r in1 in_size out_size =
     (let m = calc_mask out_size;
          r = r\<lparr>cr_isempty := False, cr_step := cr_step in1, cr_mask := m\<rparr>;
          step = step_value (cr_step in1) in
      if cr_left in1 = cr_right in1 then
        let rem = cr_left in1 mod step; half = drop_bit 1 (calc_mask in_size) in
        (r\<lparr>cr_left := (m XOR half) + rem, cr_right := half + 1 + rem\<rparr>, True)
      else let r = r\<lparr>cr_left := sign_extend_size (cr_left in1) in_size out_size,
                     cr_right := sign_extend_size ((cr_right in1 - step) AND cr_mask in1) in_size out_size\<rparr> in
        if sint (cr_right r) < sint (cr_left r) then (r, False)
        else (r\<lparr>cr_right := (cr_right r + step) AND m\<rparr>, True))"

definition push_forward_unary ::
  "circle_range \<Rightarrow> opcode \<Rightarrow> circle_range \<Rightarrow> i32 \<Rightarrow> i32 \<Rightarrow> circle_range \<times> bool" where
  "push_forward_unary r opc in1 in_size out_size =
     (if cr_isempty in1 then (r\<lparr>cr_isempty := True\<rparr>, True)
      else let step = step_value (cr_step in1) in
        case opc of
          Cast \<Rightarrow> (in1, True)
        | Copy \<Rightarrow> (in1, True)
        | IntZext \<Rightarrow> push_zext r in1 out_size
        | IntSext \<Rightarrow> push_sext r in1 in_size out_size
        | Int2comp \<Rightarrow>
            (normalize (r\<lparr>cr_isempty := False, cr_step := cr_step in1, cr_mask := cr_mask in1,
               cr_right := (NOT (cr_left in1) + 1 + step) AND cr_mask in1,
               cr_left := (NOT (cr_right in1) + 1 + step) AND cr_mask in1\<rparr>), True)
        | IntNegate \<Rightarrow>
            (normalize (r\<lparr>cr_isempty := False, cr_step := cr_step in1, cr_mask := cr_mask in1,
               cr_left := (NOT (cr_right in1) + step) AND cr_mask in1,
               cr_right := (NOT (cr_left in1) + step) AND cr_mask in1\<rparr>), True)
        | BoolNegate \<Rightarrow> (full_bool r, True)
        | FloatNan \<Rightarrow> (full_bool r, True)
        | _ \<Rightarrow> (r, False))"

section \<open>Binary operations\<close>

definition min_step :: "circle_range \<Rightarrow> circle_range \<Rightarrow> i32" where
  "min_step in1 in2 = (if cr_step in1 < cr_step in2 then cr_step in1 else cr_step in2)"

text \<open>The length of the arc from \<open>l\<close> to \<open>rt\<close>, as addition computes it before and after.\<close>

definition arc_size :: "u64 \<Rightarrow> u64 \<Rightarrow> u64 \<Rightarrow> u64 \<Rightarrow> u64" where
  "arc_size m step l rt = (if l < rt then rt - l else m - (l - rt) + step)"

definition push_add :: "circle_range \<Rightarrow> circle_range \<Rightarrow> circle_range \<Rightarrow> circle_range" where
  "push_add r in1 in2 =
     (let m = cr_mask in1 OR cr_mask in2; r = r\<lparr>cr_isempty := False, cr_mask := m\<rparr> in
      if cr_left in1 = cr_right in1 \<or> cr_left in2 = cr_right in2 then
        let l = (cr_left in1 + cr_left in2) mod step_value (min_step in1 in2) in
        r\<lparr>cr_step := min_step in1 in2, cr_left := l, cr_right := l\<rparr>
      else if is_single in2 then
        r\<lparr>cr_step := cr_step in1, cr_left := (cr_left in1 + cr_left in2) AND m,
           cr_right := (cr_right in1 + cr_left in2) AND m\<rparr>
      else if is_single in1 then
        r\<lparr>cr_step := cr_step in2, cr_left := (cr_left in2 + cr_left in1) AND m,
           cr_right := (cr_right in2 + cr_left in1) AND m\<rparr>
      else
        let step = step_value (min_step in1 in2);
            size1 = arc_size (cr_mask in1) (step_value (cr_step in1)) (cr_left in1) (cr_right in1);
            l = (cr_left in1 + cr_left in2) AND m;
            rt = (cr_right in1 - step_value (cr_step in1) + cr_right in2 - step_value (cr_step in2) + step) AND m;
            sizenew = arc_size m step l rt in
        normalize (r\<lparr>cr_step := min_step in1 in2, cr_left := l, cr_right := (if sizenew < size1 then l else rt)\<rparr>))"

partial_function (option) mult_step :: "i32 \<Rightarrow> i32 \<Rightarrow> u32 \<Rightarrow> i32 option" where
  "mult_step max_step step tmp =
     (if step < max_step then
        if tmp AND 1 \<noteq> 0 then Some step else mult_step max_step (wrap_i32 (2 * step)) (drop_bit 1 tmp)
      else Some step)"

declare mult_step.simps [code]

definition push_mult_bounds :: "circle_range \<Rightarrow> circle_range \<Rightarrow> circle_range \<Rightarrow> u64 \<Rightarrow> circle_range" where
  "push_mult_bounds r in1 in2 const_val =
     (let m = cr_mask r; step = step_value (cr_step r); whole_size = 64 - count_leading_zeros m;
          lo = cr_left in1 * cr_left in2;
          hi = (cr_right in1 - step_value (cr_step in1)) * (cr_right in2 - step_value (cr_step in2)) in
      if get_max_info in1 + get_max_info in2 > whole_size then
        let l = lo mod step in normalize (r\<lparr>cr_left := l, cr_right := l\<rparr>)
      else if const_val AND (m XOR drop_bit 1 m) \<noteq> 0 then
        r\<lparr>cr_left := hi AND m, cr_right := (lo + step) AND m\<rparr>
      else r\<lparr>cr_left := lo AND m, cr_right := (hi + step) AND m\<rparr>)"

definition push_mult ::
  "circle_range \<Rightarrow> circle_range \<Rightarrow> circle_range \<Rightarrow> i32 \<Rightarrow> (circle_range \<times> bool) option" where
  "push_mult r in1 in2 max_step =
     (let r = r\<lparr>cr_isempty := False, cr_mask := cr_mask in1 OR cr_mask in2\<rparr> in
      case (if is_single in1 then Some (cr_left in1, cr_step in2)
            else if is_single in2 then Some (cr_left in2, cr_step in1) else None) of
        None \<Rightarrow> Some (r, False)
      | Some (const_val, st) \<Rightarrow>
          map_option (\<lambda>st. (push_mult_bounds (r\<lparr>cr_step := st\<rparr>) in1 in2 const_val, True))
            (mult_step max_step st (ucast const_val)))"

fun shift_step :: "i32 \<Rightarrow> i32 \<Rightarrow> nat \<Rightarrow> i32" where
  "shift_step max_step step 0 = step"
| "shift_step max_step step (Suc tmp) =
     (if step < max_step then shift_step max_step (wrap_i32 (2 * step)) tmp else step)"

definition push_left :: "circle_range \<Rightarrow> circle_range \<Rightarrow> circle_range \<Rightarrow> i32 \<Rightarrow> circle_range \<times> bool" where
  "push_left r in1 in2 max_step =
     (if \<not> is_single in2 then (r, False)
      else let m = cr_mask in1; sa = as_u32 (uint (cr_left in2));
               r = r\<lparr>cr_isempty := False, cr_mask := m, cr_step := shift_step max_step (cr_step in1) (nat sa),
                     cr_left := wshl (cr_left in1) sa AND m, cr_right := wshl (cr_right in1) sa AND m\<rparr>;
               whole_size = 64 - count_leading_zeros m in
        if as_u32 (as_u32 (get_max_info in1) + sa) > as_u32 whole_size
        then (normalize (r\<lparr>cr_right := cr_left r\<rparr>), True)
        else (r, True))"

definition push_subpiece :: "circle_range \<Rightarrow> circle_range \<Rightarrow> circle_range \<Rightarrow> i32 \<Rightarrow> circle_range \<times> bool" where
  "push_subpiece r in1 in2 out_size =
     (if \<not> is_single in2 then (r, False)
      else let sa = wrap_i32 (wrap_i32 (uint (cr_left in2)) * 8); m = calc_mask out_size;
               r = r\<lparr>cr_isempty := False, cr_mask := m, cr_step := (if sa = 0 then cr_step in1 else 1)\<rparr>;
               range = (if cr_right in1 < cr_left in1 then cr_left in1 - cr_right in1 else cr_right in1 - cr_left in1) in
        if range = 0 \<or> wshr range sa > m then (r\<lparr>cr_left := 0, cr_right := 0\<rparr>, True)
        else (normalize (r\<lparr>cr_left := wshr (cr_left in1) sa AND m,
                 cr_right := (wshr (cr_right in1 - step_value (cr_step in1)) sa + step_value (cr_step r)) AND m\<rparr>), True))"

definition nudge :: "circle_range \<Rightarrow> circle_range" where
  "nudge r = (if cr_left r = cr_right r then r\<lparr>cr_right := (cr_left r + 1) AND cr_mask r\<rparr> else r)"

definition push_right :: "circle_range \<Rightarrow> circle_range \<Rightarrow> circle_range \<Rightarrow> i32 \<Rightarrow> circle_range \<times> bool" where
  "push_right r in1 in2 out_size =
     (if \<not> is_single in2 then (r, False)
      else let sa = as_u32 (uint (cr_left in2));
               r = r\<lparr>cr_isempty := False, cr_mask := calc_mask out_size, cr_step := 1\<rparr> in
        (nudge (if cr_left in1 < cr_right in1
                then r\<lparr>cr_left := wshr (cr_left in1) sa,
                       cr_right := wshr (cr_right in1 - step_value (cr_step in1)) sa + 1\<rparr>
                else r\<lparr>cr_left := 0, cr_right := wshr (cr_mask in1) sa\<rparr>), True))"

definition push_sright :: "circle_range \<Rightarrow> circle_range \<Rightarrow> circle_range \<Rightarrow> i32 \<Rightarrow> i32 \<Rightarrow> circle_range \<times> bool" where
  "push_sright r in1 in2 in_size out_size =
     (if \<not> is_single in2 then (r, False)
      else let sa = as_u32 (uint (cr_left in2)); m = calc_mask out_size;
               r = r\<lparr>cr_isempty := False, cr_mask := m, cr_step := 1\<rparr>;
               bit_pos = 8 * in_size - 1;
               val_left = sign_extend (cr_left in1) bit_pos;
               val_right = sign_extend (cr_right in1) bit_pos;
               (val_left, val_right) =
                 (if sint val_left \<ge> sint val_right
                  then (sign_extend (drop_bit 1 m + 1) bit_pos, drop_bit 1 m) else (val_left, val_right)) in
        (nudge (r\<lparr>cr_left := wsar val_left sa AND m,
             cr_right := (wsar (val_right - cxx_int (cr_step in1)) sa + 1) AND m\<rparr>), True))"

definition bool_ops :: "opcode list" where
  "bool_ops = [IntEqual, IntNotequal, IntSless, IntSlessequal, IntLess, IntLessequal, IntCarry, IntScarry,
     IntSborrow, BoolXor, BoolAnd, BoolOr, FloatEqual, FloatNotequal, FloatLess, FloatLessequal]"

definition push_forward_binary ::
  "circle_range \<Rightarrow> opcode \<Rightarrow> circle_range \<Rightarrow> circle_range \<Rightarrow> i32 \<Rightarrow> i32 \<Rightarrow> i32 \<Rightarrow> (circle_range \<times> bool) option" where
  "push_forward_binary r opc in1 in2 in_size out_size max_step =
     (if cr_isempty in1 \<or> cr_isempty in2 then Some (r\<lparr>cr_isempty := True\<rparr>, True)
      else if opc = Ptrsub \<or> opc = IntAdd then Some (push_add r in1 in2, True)
      else if opc = IntMult then push_mult r in1 in2 max_step
      else if opc = IntLeft then Some (push_left r in1 in2 max_step)
      else if opc = Subpiece then Some (push_subpiece r in1 in2 out_size)
      else if opc = IntRight then Some (push_right r in1 in2 out_size)
      else if opc = IntSright then Some (push_sright r in1 in2 in_size out_size)
      else if opc \<in> set bool_ops then Some (full_bool r, True)
      else Some (r, False))"

definition push_forward_trinary ::
  "circle_range \<Rightarrow> opcode \<Rightarrow> circle_range \<Rightarrow> circle_range \<Rightarrow> circle_range \<Rightarrow> i32 \<Rightarrow> i32 \<Rightarrow> i32
    \<Rightarrow> (circle_range \<times> bool) option" where
  "push_forward_trinary r opc in1 in2 in3 in_size out_size max_step =
     (if opc \<noteq> Ptradd then Some (r, False)
      else case push_forward_binary cr_new IntMult in2 in3 in_size in_size max_step of
        None \<Rightarrow> None
      | Some (tmp_range, ok) \<Rightarrow>
          if \<not> ok then Some (r, False)
          else push_forward_binary r IntAdd in1 tmp_range in_size out_size max_step)"

section \<open>Widening and translation\<close>

definition widen :: "circle_range \<Rightarrow> circle_range \<Rightarrow> bool \<Rightarrow> circle_range" where
  "widen r op2 left_is_stable =
     normalize
       (if left_is_stable then
          let step = step_value (cr_step r); lmod = cr_left r mod step; modulus = cr_right op2 mod step in
          r\<lparr>cr_right := (if modulus \<le> lmod then cr_right op2 + (lmod - modulus)
                         else cr_right op2 - (modulus - lmod)) AND cr_mask r\<rparr>
        else r\<lparr>cr_left := cr_left op2 AND cr_mask r\<rparr>)"

text \<open>The return code, and on code 0 the operation, the constant and its slot.\<close>

definition translate2_op :: "circle_range \<Rightarrow> i32 \<times> (opcode \<times> u64 \<times> i32) option" where
  "translate2_op r =
     (if cr_isempty r then (3, None)
      else if cr_step r \<noteq> 1 then (2, None)
      else if cr_right r = (cr_left r + 1) AND cr_mask r then (0, Some (IntEqual, cr_left r, 0))
      else if cr_left r = (cr_right r + 1) AND cr_mask r then (0, Some (IntNotequal, cr_right r, 0))
      else if cr_left r = cr_right r then (1, None)
      else if cr_left r = 0 then (0, Some (IntLess, cr_right r, 1))
      else if cr_right r = 0 then (0, Some (IntLess, (cr_left r - 1) AND cr_mask r, 0))
      else if cr_left r = drop_bit 1 (cr_mask r) + 1 then (0, Some (IntSless, cr_right r, 1))
      else if cr_right r = drop_bit 1 (cr_mask r) + 1 then (0, Some (IntSless, (cr_left r - 1) AND cr_mask r, 0))
      else (2, None))"

section \<open>Pulling back through an operation of the data-flow graph\<close>

text \<open>
  What \<open>pull_back\<close> reads of a varnode and of an operation. The result is the input slot that the range
  now describes, with the slot of the constant that is to be recorded, if any.
\<close>

record vn_view =
  vn_constant :: bool
  vn_size :: i32
  vn_offset :: u64
  vn_nz_mask :: u64
  vn_symbol :: bool

record op_view =
  op_code :: opcode
  op_in :: "vn_view list"
  op_out_size :: i32

definition pull_back_nz :: "circle_range \<Rightarrow> bool \<Rightarrow> vn_view \<Rightarrow> circle_range" where
  "pull_back_nz r usenzmask vn =
     (if \<not> usenzmask then r
      else case set_nz_mask cr_new (vn_nz_mask vn) (vn_size vn) of
        (nzrange, ok) \<Rightarrow> if ok then fst (intersect r nzrange) else r)"

definition pull_back ::
  "circle_range \<Rightarrow> op_view \<Rightarrow> bool \<Rightarrow> circle_range \<times> (nat \<times> nat option) option" where
  "pull_back r op usenzmask =
     (case op_in op of
        [vn] \<Rightarrow>
          if vn_constant vn then (r, None)
          else (case pull_back_unary r (op_code op) (vn_size vn) (op_out_size op) of
            (r, ok) \<Rightarrow> if \<not> ok then (r, None) else (pull_back_nz r usenzmask vn, Some (0, None)))
      | [vn0, vn1] \<Rightarrow>
          if vn_constant vn0 = vn_constant vn1 then (r, None)
          else let slot = (if vn_constant vn0 then 1 else 0);
                   res = op_in op ! slot; constvn = op_in op ! (1 - slot);
                   val = vn_offset constvn; out_size = op_out_size op in
            case pull_back_binary r (op_code op) val (int slot) (vn_size res) out_size of
              (r, ok) \<Rightarrow>
                let nz = usenzmask \<and> op_code op = Subpiece \<and> val = 0 \<and>
                         \<not> out_size < (mostsigbit_set (vn_nz_mask res) + 8) div 8 in
                if \<not> ok \<and> \<not> nz then (r, None)
                else let r = (if ok then r else r\<lparr>cr_mask := calc_mask (vn_size res)\<rparr>) in
                  (pull_back_nz r usenzmask res, Some (slot, if vn_symbol constvn then Some (1 - slot) else None))
      | _ \<Rightarrow> (r, None))"

section \<open>Membership as a distance\<close>

lemma contains_dist:
  assumes "cr_wf s r" "\<not> cr_isempty r" "v \<le> calc_mask s" "cr_step r = 2 ^ k" "k \<le> 30"
  shows "contains r v \<longleftrightarrow> 2 ^ k dvd (uint v - uint (cr_left r)) mod 2 ^ (8 * nat s) \<and> (cr_left r = cr_right r \<or>
    (uint v - uint (cr_left r)) mod 2 ^ (8 * nat s) < (uint (cr_right r) - uint (cr_left r)) mod 2 ^ (8 * nat s))"
proof -
  have w: "valid_size s" "cr_left r \<le> calc_mask s" "cr_right r \<le> calc_mask s" and k: "k < 8 * nat s"
    using assms(1,4) by (auto simp: cr_wf_def)
  have d: "(2 :: int) ^ k dvd 2 ^ (8 * nat s)" by (rule dvd_pow [OF k])
  have "on_stride r v \<longleftrightarrow> 2 ^ k dvd uint v - uint (cr_left r)"
    unfolding on_stride_def assms(4) stride_int [OF assms(5)] by (metis mod_eq_dvd_iff dvd_diff_commute)
  also have "\<dots> \<longleftrightarrow> 2 ^ k dvd (uint v - uint (cr_left r)) mod 2 ^ (8 * nat s)"
    using d by (simp add: dvd_mod_iff)
  finally show ?thesis
    unfolding contains_iff using assms(2) arc_mod [OF w assms(3)] by (cases "cr_left r = cr_right r") auto
qed

lemma wf_dist:
  assumes "cr_wf s r" "\<not> cr_isempty r" "cr_step r = 2 ^ k" "k \<le> 30"
  shows "2 ^ k dvd (uint (cr_right r) - uint (cr_left r)) mod 2 ^ (8 * nat s)"
proof -
  have k: "k < 8 * nat s" using assms(1,3) by (auto simp: cr_wf_def)
  have "uint (cr_left r) mod 2 ^ k = uint (cr_right r) mod 2 ^ k"
    using assms by (auto simp: cr_wf_def stride_int)
  then have "2 ^ k dvd uint (cr_right r) - uint (cr_left r)" by (metis mod_eq_dvd_iff)
  then show ?thesis using dvd_pow [OF k] by (simp add: dvd_mod_iff)
qed

lemma word_mod_mod: "x mod w mod w = x mod (w :: u64)"
  by (simp add: word_uint_eq_iff uint_mod)

lemma normalize_contains: "contains (normalize r) v \<longleftrightarrow> contains r v"
  by (cases "cr_left r = cr_right r")
    (auto simp: normalize_def contains_iff on_stride_def Let_def word_mod_mod)

lemma normalize_wf:
  assumes "cr_wf s r"
  shows "cr_wf s (normalize r)"
proof -
  have "valid_size s" "cr_left r \<le> calc_mask s" using assms by (auto simp: cr_wf_def)
  then show ?thesis using assms rem_bound [of s "cr_left r"] by (auto simp: normalize_def cr_wf_def Let_def)
qed

lemma reflected_push:
  assumes "\<not> cr_isempty in1"
  shows "push_forward_unary r Int2comp in1 si so = (normalize (reflected in1 0), True)"
    "push_forward_unary r IntNegate in1 si so = (normalize (reflected in1 (- 1)), True)"
  using assms by (cases in1; cases r; simp add: push_forward_unary_def reflected_def not_eq_complement Let_def algebra_simps)+

section \<open>Translation into a comparison\<close>

lemma and_mask_self: "valid_size s \<Longrightarrow> v \<le> calc_mask s \<Longrightarrow> v AND calc_mask s = v"
  by (simp add: and_calc_mask le_calc_mask_iff)

lemma pred_mask:
  assumes "valid_size s" "v \<le> calc_mask s"
  shows "(((v - 1) AND calc_mask s) + 1) AND calc_mask s = v"
    "(v - 1) AND calc_mask s = calc_mask s \<Longrightarrow> v = 0"
    "(v - 1) AND calc_mask s = drop_bit 1 (calc_mask s) \<Longrightarrow> v = drop_bit 1 (calc_mask s) + 1"
proof -
  show v: "(((v - 1) AND calc_mask s) + 1) AND calc_mask s = v"
    using assms by (simp add: word_uint_eq_iff uint_masked le_calc_mask_uint mod_simps)
  have "uint ((calc_mask s + 1) AND calc_mask s) = 0"
    using operands_int [OF assms(1,2,2)] compare_consts(1,4) [OF assms(1)] by (metis order_refl)
  then show "(v - 1) AND calc_mask s = calc_mask s \<Longrightarrow> v = 0" using v by (simp add: uint_0_iff)
  show "(v - 1) AND calc_mask s = drop_bit 1 (calc_mask s) \<Longrightarrow> v = drop_bit 1 (calc_mask s) + 1"
    using v and_mask_self [OF assms(1) half_mask_le [OF assms(1)]] by simp
qed

definition holds_base :: "i32 \<Rightarrow> circle_range" where
  "holds_base s = \<lparr>cr_left = 1, cr_right = 2, cr_mask = calc_mask s, cr_isempty = False, cr_step = 1\<rparr>"

lemma pull_back_true:
  assumes "opc \<in> compare_ops"
  shows "pull_back_binary (new_bool True) opc val slot s 1 = (compare_holds opc val slot (holds_base s), True)"
  using assms new_bool_range(2-4) [of True] new_bool_range(4) [of True False] new_bool_range(4) [of True True]
  by (simp add: pull_back_compare_op pull_back_compare_decided) (simp add: new_bool_def holds_base_def)

lemma translate_roundtrip:
  assumes "cr_wf s r" "translate2_op r = (0, Some (opc, cval, cslot))"
  shows "opc \<in> compare_ops \<and> cval \<le> calc_mask s \<and> compare_holds opc cval (1 - cslot) (holds_base s) = r"
proof -
  have w: "valid_size s" "cr_mask r = calc_mask s" "cr_left r \<le> calc_mask s" "cr_right r \<le> calc_mask s"
    and k: "cr_step r = 1" "\<not> cr_isempty r"
    using assms by (auto simp: cr_wf_def translate2_op_def split: if_splits)
  have "cval \<le> calc_mask s" using assms(2) w by (auto simp: translate2_op_def mask_and_le split: if_splits)
  then show ?thesis
    using assms(2) w k pred_mask [OF w(1,3)]
    by (cases r) (auto simp: translate2_op_def compare_ops_def compare_holds_def holds_base_def holds_equal_def
        holds_notequal_def holds_less_def holds_sless_def split: if_splits)
qed

lemma arc_unique:
  assumes "l \<le> m" "r \<le> m" "l' \<le> m" "r' \<le> m" "l \<noteq> r" "\<And>x. x \<le> m \<Longrightarrow> arc l r x \<longleftrightarrow> arc l' r' x"
  shows "l' = l \<and> r' = r"
proof (cases "l' = r'")
  case True
  then show ?thesis using assms arc_right [OF assms(5)] by auto
next
  case False
  note pts = assms(6) [OF assms(1)] assms(6) [OF assms(2)] assms(6) [OF assms(3)] assms(6) [OF assms(4)]
    assms(6) [OF order_refl]
  consider "l \<le> r" "l' \<le> r'" | "l \<le> r" "\<not> l' \<le> r'" | "\<not> l \<le> r" "l' \<le> r'" | "\<not> l \<le> r" "\<not> l' \<le> r'" by blast
  then show ?thesis
  proof cases
    case 1
    show ?thesis using 1 pts(1-4) assms(5) False unfolding arc_simps(1) [OF 1(1) assms(5)] arc_simps(1) [OF 1(2) False]
      by (auto simp: word_order_int)
  next
    case 2
    then show ?thesis using pts(5) assms unfolding arc_simps(1) [OF 2(1) assms(5)] arc_simps(2) [OF 2(2)] by auto
  next
    case 3
    then show ?thesis using pts(5) assms unfolding arc_simps(2) [OF 3(1)] arc_simps(1) [OF 3(2) False] by auto
  next
    case 4
    show ?thesis using 4 pts(1-4) assms(5) False unfolding arc_simps(2) [OF 4(1)] arc_simps(2) [OF 4(2)]
      by (auto simp: word_order_int)
  qed
qed

lemma translate_complete:
  assumes "cr_wf s r" "cr_step r = 1" "translate2_op r = (2, t)"
    and "opc \<in> compare_ops" "val \<le> calc_mask s"
  shows "\<exists>x \<le> calc_mask s. contains r x \<noteq> compare_ref opc s slot val x"
proof (rule ccontr)
  let ?H = "compare_holds opc val slot (holds_base s)"
  assume "\<not> ?thesis"
  then have eq: "contains r x \<longleftrightarrow> compare_ref opc s slot val x" if "x \<le> calc_mask s" for x using that by blast
  have w: "valid_size s" "cr_mask r = calc_mask s" "cr_left r \<le> calc_mask s" "cr_right r \<le> calc_mask s"
    using assms by (auto simp: cr_wf_def)
  have ne: "\<not> cr_isempty r" "cr_left r \<noteq> cr_right r"
    using assms(2,3) by (auto simp: translate2_op_def split: if_splits)
  have b: "cr_mask (holds_base s) = calc_mask s" "\<not> cr_isempty (holds_base s)"
    "cr_left (holds_base s) \<le> calc_mask s" "cr_right (holds_base s) \<le> calc_mask s"
    using w(1) by (simp_all add: holds_base_def small_le_mask)
  have c: "arc (cr_left r) (cr_right r) x \<longleftrightarrow> \<not> cr_isempty ?H \<and> arc (cr_left ?H) (cr_right ?H) x"
    if "x \<le> calc_mask s" for x
    using eq [OF that] compare_holds_arc [OF w(1) assms(5) that assms(4) b(1,2)] ne assms(2)
    by (simp add: contains_iff on_stride_def)
  have "\<not> cr_isempty ?H" using c [OF w(3)] arc_left by blast
  then have "cr_left ?H = cr_left r \<and> cr_right ?H = cr_right r"
    using c compare_holds_bounds [OF assms(4) w(1) b(1) assms(5) b(3,4)] w ne by (intro arc_unique) auto
  then show False
    using assms(2-4) w(2) ne \<open>\<not> cr_isempty ?H\<close>
    by (auto simp: translate2_op_def compare_ops_def compare_holds_def holds_base_def holds_equal_def holds_carry_def
        holds_notequal_def holds_less_def holds_lessequal_def holds_sless_def holds_slessequal_def split: if_splits)
qed

section \<open>Soundness of the push\<close>

lemma u64_of_int: "0 \<le> k \<Longrightarrow> k < 2 ^ 64 \<Longrightarrow> uint (word_of_int k :: u64) = k"
  by (simp add: unsigned_of_int take_bit_int_eq_self)

lemma zext_full:
  assumes "valid_size s" "valid_size so" "s < so" "k < 8 * nat s" "k \<le> 30" "l \<le> calc_mask s"
  defines "rem \<equiv> l mod step_value (2 ^ k)"
  shows "uint (calc_mask s + 1 + rem) = 2 ^ (8 * nat s) + uint l mod 2 ^ k" "uint rem = uint l mod 2 ^ k"
    "2 ^ (8 * nat s) + uint l mod 2 ^ k < 2 ^ (8 * nat so)"
proof -
  let ?N = "2 ^ (8 * nat s) :: int" and ?M = "2 ^ (8 * nat so) :: int"
  show r: "uint rem = uint l mod 2 ^ k" by (simp add: rem_def uint_mod uint_step [OF assms(5)])
  have "uint l mod 2 ^ k \<le> uint l" by (simp add: zmod_le_nonneg_dividend)
  moreover have "uint l < ?N" using assms by (simp add: le_calc_mask_uint)
  moreover have "2 * ?N \<le> ?M"
  proof -
    have "Suc (8 * nat s) \<le> 8 * nat so" using assms(1-3) by (auto simp: valid_size_def)
    then have "(2::int) ^ Suc (8 * nat s) \<le> ?M" by (rule power_increasing) simp
    then show ?thesis by simp
  qed
  ultimately show lt: "?N + uint l mod 2 ^ k < ?M" by linarith
  have M: "?M \<le> 2 ^ 64" using assms(2) by (intro power_increasing) (auto simp: valid_size_def)
  obtain h where h: "2 ^ (8 * nat s - 1) = h" "?N = 2 * h" using operands_int [OF assms(1,6,6)] by metis
  have "calc_mask s + 1 + rem = word_of_int (?N + uint l mod 2 ^ k)"
    using compare_consts(1) [OF assms(1) h] r h(2)
    by (metis (no_types, opaque_lifting) diff_add_cancel of_int_1 of_int_add word_of_int_uint)
  then show "uint (calc_mask s + 1 + rem) = ?N + uint l mod 2 ^ k"
    using lt M u64_of_int [of "?N + uint l mod 2 ^ k"] by (simp only: zero_le_power add_nonneg_nonneg) simp
qed

lemma zext_arc:
  fixes S N l r x :: int
  assumes "0 < S" "S dvd N" "l mod S = r mod S" "l mod S = x mod S" "0 \<le> l" "l < N" "0 \<le> r" "r < N" "0 \<le> x" "x < N"
    and "l \<noteq> r" "l \<le> (r - S) mod N" "if l < r then l \<le> x \<and> x < r else x < r \<or> l \<le> x"
  shows "l \<le> x \<and> x < (r - S) mod N + S"
proof (cases "S \<le> r")
  case True
  then have "(r - S) mod N = r - S" using assms by (simp add: mod_pos_pos_trivial)
  then show ?thesis using assms True by (auto split: if_splits)
next
  case False
  have "S \<le> N" using assms by (intro zdvd_imp_le) auto
  then have e: "(r - S) mod N = r - S + N"
    using False assms mod_pos_pos_trivial [of "r - S + N" N] by simp
  have "r mod S = r" using False assms by simp
  then have "r \<le> x" "r \<le> l"
    using assms zmod_le_nonneg_dividend [of x S] zmod_le_nonneg_dividend [of l S] by auto
  then show ?thesis using assms e by (auto split: if_splits)
qed

text \<open>A range that does not wrap, from its integer bounds.\<close>

lemma linear_contains:
  assumes "valid_size s" "k < 8 * nat s" "k \<le> 30" "cr_mask r = calc_mask s" "cr_step r = 2 ^ k" "\<not> cr_isempty r"
    and "uint (cr_left r) = l" "uint (cr_right r) = rt" "rt < 2 ^ (8 * nat s)" "l \<le> uint x" "uint x < rt"
    and "l mod 2 ^ k = rt mod 2 ^ k" "l mod 2 ^ k = uint x mod 2 ^ k"
  shows "cr_wf s r \<and> contains r x"
proof -
  have "cr_left r \<le> calc_mask s" "cr_right r \<le> calc_mask s" using assms by (simp_all add: le_calc_mask_uint)
  then have "cr_wf s r" using assms by (auto simp: cr_wf_def stride_int)
  moreover have "contains r x"
    using assms by (auto simp: contains_iff on_stride_def stride_int arc_def word_less_def word_le_def)
  ultimately show ?thesis ..
qed

lemma push_zext_sound:
  assumes "cr_wf s in1" "\<not> cr_isempty in1" "valid_size so" "s < so" "push_zext r in1 so = (r', True)"
    and "x \<le> calc_mask s" "contains in1 x"
  shows "cr_wf so r' \<and> contains r' x"
proof (rule cr_wf_cases [OF assms(1)])
  fix k
  assume w: "valid_size s" "cr_mask in1 = calc_mask s" "cr_left in1 \<le> calc_mask s" "cr_right in1 \<le> calc_mask s"
    "k < 8 * nat s" "k \<le> 30" "cr_step in1 = 2 ^ k"
    and e: "cr_isempty in1 \<or> cr_left in1 mod step_value (cr_step in1) = cr_right in1 mod step_value (cr_step in1)"
  let ?l = "uint (cr_left in1)" and ?r = "uint (cr_right in1)" and ?N = "2 ^ (8 * nat s) :: int"
  have k: "k < 8 * nat so" using w(5) assms(4) w(1) by (auto simp: valid_size_def)
  have cl: "?l mod 2 ^ k = uint x mod 2 ^ k" "?l mod 2 ^ k = ?r mod 2 ^ k"
    using assms(2,7) e by (auto simp: contains_iff on_stride_def w(7) stride_int [OF w(6)])
  have b: "?l < ?N" "?r < ?N" "uint x < ?N" using w assms(6) by (simp_all add: le_calc_mask_uint)
  have dv: "(2 :: int) ^ k dvd ?N" by (rule dvd_pow [OF w(5)])
  show ?thesis
  proof (cases "cr_left in1 = cr_right in1")
    case True
    note z = zext_full [OF w(1) assms(3,4) w(5,6,3)]
    have f: "cr_left r' = cr_left in1 mod step_value (2 ^ k)" "cr_step r' = 2 ^ k" "cr_mask r' = calc_mask so"
      "cr_right r' = calc_mask s + 1 + cr_left in1 mod step_value (2 ^ k)" "\<not> cr_isempty r'"
      using assms(5) True w by (auto simp: push_zext_def Let_def)
    show ?thesis
    proof (rule linear_contains [OF assms(3) k w(6) f(3,2,5)])
      show "uint (cr_left r') = ?l mod 2 ^ k" "uint (cr_right r') = ?N + ?l mod 2 ^ k" using f z by simp_all
      show "?N + ?l mod 2 ^ k < 2 ^ (8 * nat so)" by (rule z(3))
      show "?l mod 2 ^ k \<le> uint x" unfolding cl(1) by (simp add: zmod_le_nonneg_dividend)
      have "0 \<le> ?l mod 2 ^ k" by simp
      then show "uint x < ?N + ?l mod 2 ^ k" using b(3) by linarith
      show "?l mod 2 ^ k mod 2 ^ k = (?N + ?l mod 2 ^ k) mod 2 ^ k"
        using dv by (metis add.commute dvd_imp_mod_0 mod_add_right_eq add.right_neutral mod_mod_trivial)
      show "?l mod 2 ^ k mod 2 ^ k = uint x mod 2 ^ k" using cl by simp
    qed
  next
    case False
    let ?t = "(cr_right in1 - step_value (2 ^ k)) AND calc_mask s"
    have t: "uint ?t = (?r - 2 ^ k) mod ?N" unfolding uint_masked [OF w(1)] uint_step [OF w(6)] ..
    have f: "cr_left r' = cr_left in1" "cr_step r' = 2 ^ k" "cr_mask r' = calc_mask so"
      "cr_right r' = ?t + step_value (2 ^ k)" "\<not> cr_isempty r'" "cr_left in1 \<le> ?t"
      using assms(5) False w by (auto simp: push_zext_def Let_def split: if_splits)
    have lt: "(?r - 2 ^ k) mod ?N < ?N" by simp
    have S: "(2 :: int) ^ k \<le> ?N" using dv by (simp add: zdvd_imp_le)
    have M: "2 * ?N \<le> 2 ^ (8 * nat so)" "(2 :: int) ^ (8 * nat so) \<le> 2 ^ 64"
    proof -
      have "Suc (8 * nat s) \<le> 8 * nat so" using w(1) assms(3,4) by (auto simp: valid_size_def)
      then have "(2::int) ^ Suc (8 * nat s) \<le> 2 ^ (8 * nat so)" by (rule power_increasing) simp
      then show "2 * ?N \<le> 2 ^ (8 * nat so)" by simp
      show "(2 :: int) ^ (8 * nat so) \<le> 2 ^ 64" using assms(3) by (intro power_increasing) (auto simp: valid_size_def)
    qed
    have u: "uint (?t + step_value (2 ^ k)) = (?r - 2 ^ k) mod ?N + 2 ^ k"
    proof -
      have "?t + step_value (2 ^ k) = word_of_int (uint ?t + uint (step_value (2 ^ k)))" by simp
      then have "?t + step_value (2 ^ k) = word_of_int ((?r - 2 ^ k) mod ?N + 2 ^ k)"
        by (simp only: t uint_step [OF w(6)])
      moreover have "0 \<le> (?r - 2 ^ k) mod ?N + 2 ^ k" by simp
      moreover have "(?r - 2 ^ k) mod ?N + 2 ^ k < 2 ^ 64" using lt S M by linarith
      ultimately show ?thesis by (simp only: u64_of_int)
    qed
    have arc: "if ?l < ?r then ?l \<le> uint x \<and> uint x < ?r else uint x < ?r \<or> ?l \<le> uint x"
      using assms(7) False unfolding contains_iff arc_def word_less_def word_le_def word_uint_eq_iff by (auto split: if_splits)
    have "?l \<le> (?r - 2 ^ k) mod ?N" using f(6) t by (simp add: word_le_def)
    note z = zext_arc [OF _ dv cl(2,1) _ b(1) _ b(2) _ b(3) _ this arc]
    show ?thesis
    proof (rule linear_contains [OF assms(3) k w(6) f(3,2,5) _ _ _ _ _ _ cl(1)])
      show "uint (cr_left r') = ?l" "uint (cr_right r') = (?r - 2 ^ k) mod ?N + 2 ^ k" using f u by simp_all
      show "(?r - 2 ^ k) mod ?N + 2 ^ k < 2 ^ (8 * nat so)" using lt S M by linarith
      show "?l \<le> uint x" "uint x < (?r - 2 ^ k) mod ?N + 2 ^ k" using z False by (simp_all add: word_uint_eq_iff)
      show "?l mod 2 ^ k = ((?r - 2 ^ k) mod ?N + 2 ^ k) mod 2 ^ k"
        using cl(2) dv by (simp add: mod_mod_cancel mod_add_left_eq [symmetric])
    qed
  qed
qed

section \<open>Soundness of addition\<close>

text \<open>
  The sum of two arcs as distances from their left bounds: \<open>d\<close> and \<open>D\<close> are the offset of an element and
  the length of the arc, \<open>S\<close> the finer stride. Either the sum of the lengths fits the modulus and the
  offset stays below it, or the length the code computes comes out shorter than the first arc.
\<close>

lemma add_dist:
  fixes N S s1 s2 D1 D2 d1 d2 :: int
  assumes "0 < S" "S \<le> s1" "S \<le> s2" "S dvd s1" "S dvd s2" "s1 dvd N" "s2 dvd N"
    and "0 < D1" "D1 < N" "0 < D2" "D2 < N" "s1 dvd D1" "s2 dvd D2"
    and "0 \<le> d1" "d1 < D1" "0 \<le> d2" "d2 < D2" "s1 dvd d1" "s2 dvd d2"
  defines "D \<equiv> (D1 - s1 + D2 - s2 + S) mod N"
  shows "(d1 + d2) mod N < D \<or> D + S - 1 < D1 \<or> D = 0"
proof -
  have m: "d + u \<le> E" if "u dvd d" "u dvd E" "d < E" for u d E :: int
    using that zdvd_imp_le [of u "E - d"] by simp
  have le: "d1 + s1 \<le> D1" "d2 + s2 \<le> D2" "D1 + s1 \<le> N" "D2 + s2 \<le> N" using assms by (auto intro!: m)
  let ?T = "D1 - s1 + D2 - s2 + S"
  show ?thesis
  proof (cases "?T < N")
    case True
    then have "D = ?T" "(d1 + d2) mod N = d1 + d2" using assms le by (simp_all add: D_def mod_pos_pos_trivial)
    then show ?thesis using assms(1) le by linarith
  next
    case False
    then have "D = ?T - N" using assms le mod_pos_pos_trivial [of "?T - N" N] by (simp add: D_def)
    then show ?thesis using assms(1-3) le by linarith
  qed
qed

lemma contains_offset:
  assumes "cr_wf s r" "\<not> cr_isempty r" "cr_left r \<noteq> cr_right r" "v \<le> calc_mask s" "contains r v"
    "cr_step r = 2 ^ k" "k \<le> 30"
  defines "N \<equiv> 2 ^ (8 * nat s)" and "l \<equiv> uint (cr_left r)"
  shows "2 ^ k dvd (uint v - l) mod N" "(uint v - l) mod N < (uint (cr_right r) - l) mod N"
    "2 ^ k dvd (uint (cr_right r) - l) mod N" "0 < (uint (cr_right r) - l) mod N"
proof -
  show "2 ^ k dvd (uint v - l) mod N" "2 ^ k dvd (uint (cr_right r) - l) mod N"
    and *: "(uint v - l) mod N < (uint (cr_right r) - l) mod N"
    using assms(3,5) contains_dist [OF assms(1,2,4,6,7)] wf_dist [OF assms(1,2,6,7)] by (simp_all add: N_def l_def)
  have "0 \<le> (uint v - l) mod N" by (simp add: N_def)
  then show "0 < (uint (cr_right r) - l) mod N" using * by linarith
qed

lemma single_left:
  assumes "cr_wf s r" "is_single r" "cr_left r \<noteq> cr_right r" "v \<le> calc_mask s" "contains r v"
  shows "v = cr_left r"
proof (rule cr_wf_cases [OF assms(1)])
  fix k
  let ?N = "2 ^ (8 * nat s) :: int" and ?l = "uint (cr_left r)"
  assume w: "valid_size s" "cr_mask r = calc_mask s" "cr_left r \<le> calc_mask s" "k < 8 * nat s" "k \<le> 30" "cr_step r = 2 ^ k"
  have ne: "\<not> cr_isempty r" using assms(2) by (simp add: is_single_def)
  note o = contains_offset [OF assms(1) ne assms(3,4,5) w(6,5)]
  have "uint (cr_right r) = (?l + 2 ^ k) mod ?N"
    using assms(2) unfolding is_single_def w(2,6) by (simp add: uint_masked [OF w(1)] uint_step [OF w(5)])
  then have "(uint (cr_right r) - ?l) mod ?N = 2 ^ k mod ?N" by (simp add: mod_diff_left_eq)
  also have "\<dots> = 2 ^ k" using w(4) by (simp add: mod_pos_pos_trivial)
  finally have "(uint v - ?l) mod ?N < 2 ^ k" using o(2) by simp
  then have "(uint v - ?l) mod ?N = 0" using o(1) zdvd_not_zless [of "(uint v - ?l) mod ?N" "2 ^ k"] by (auto simp: order_less_le)
  then have "uint v mod ?N = ?l mod ?N" by (simp add: mod_eq_dvd_iff mod_eq_0_iff_dvd)
  then show ?thesis using w(1,3) assms(4) by (simp add: le_calc_mask_uint word_uint_eq_iff)
qed

lemma arc_size_bounds:
  assumes "valid_size s" "k \<le> 30" "l \<le> calc_mask s" "rt \<le> calc_mask s" "l \<noteq> rt"
  defines "D \<equiv> (uint rt - uint l) mod 2 ^ (8 * nat s)"
  assumes "2 ^ k dvd D" "k < 8 * nat s"
  shows "D \<le> uint (arc_size (calc_mask s) (step_value (2 ^ k)) l rt)"
    "uint (arc_size (calc_mask s) (step_value (2 ^ k)) l rt) \<le> D + 2 ^ k - 1"
proof -
  obtain L R h :: int where i: "uint l = L" "uint rt = R" "2 ^ (8 * nat s - 1) = h" "2 ^ (8 * nat s) = 2 * h"
    and b: "0 \<le> L" "L < 2 * h" "0 \<le> R" "R < 2 * h" "0 < h" "h \<le> 2 ^ 63"
    using operands_int [OF assms(1,3,4)] by metis
  note m = compare_consts(1) [OF assms(1) i(3,4)]
  have p: "(1 :: int) \<le> 2 ^ k" by simp
  have "D \<le> uint (arc_size (calc_mask s) (step_value (2 ^ k)) l rt) \<and>
    uint (arc_size (calc_mask s) (step_value (2 ^ k)) l rt) \<le> D + 2 ^ k - 1"
  proof (cases "l < rt")
    case True
    then have "D = R - L" using b i by (simp add: D_def word_less_def mod_pos_pos_trivial)
    moreover have "uint (rt - l) = R - L"
      using True i b u64_of_int [of "R - L"] by (simp add: word_less_def) (metis word_of_int_uint of_int_diff)
    ultimately show ?thesis using True p by (simp add: arc_size_def)
  next
    case False
    then have lt: "R < L" using assms(5) i by (simp add: word_less_def word_uint_eq_iff)
    then have D: "D = R - L + 2 * h" using b mod_pos_pos_trivial [of "R - L + 2 * h" "2 * h"] by (simp add: D_def i)
    have "2 ^ k dvd 2 * h - D" using assms(7) dvd_pow [OF assms(8)] unfolding i(4) by (simp add: dvd_diff)
    then have "D + 2 ^ k \<le> 2 * h" using D lt zdvd_imp_le [of "2 ^ k" "2 * h - D"] by simp
    moreover have "calc_mask s - (l - rt) + step_value (2 ^ k) = word_of_int (D + 2 ^ k - 1)"
    proof -
      have "calc_mask s - (l - rt) + step_value (2 ^ k) =
          word_of_int (uint (calc_mask s) - (uint l - uint rt) + uint (step_value (2 ^ k)))" by simp
      also have "\<dots> = word_of_int (D + 2 ^ k - 1)"
        unfolding m i uint_step [OF assms(2)] D by (simp add: algebra_simps)
      finally show ?thesis .
    qed
    moreover have "0 \<le> D" using D b lt by simp
    ultimately have "uint (calc_mask s - (l - rt) + step_value (2 ^ k)) = D + 2 ^ k - 1"
      using u64_of_int [of "D + 2 ^ k - 1"] b p by simp
    then show ?thesis using False p by (simp add: arc_size_def)
  qed
  then show "D \<le> uint (arc_size (calc_mask s) (step_value (2 ^ k)) l rt)"
    "uint (arc_size (calc_mask s) (step_value (2 ^ k)) l rt) \<le> D + 2 ^ k - 1" by simp_all
qed

lemma full_contains:
  assumes "valid_size s" "k < 8 * nat s" "k \<le> 30" "cr_mask r = calc_mask s" "cr_step r = 2 ^ k" "\<not> cr_isempty r"
    and "cr_left r \<le> calc_mask s" "cr_right r = cr_left r" "uint (cr_left r) mod 2 ^ k = uint v mod 2 ^ k"
  shows "cr_wf s r \<and> contains r v"
  using assms by (auto simp: cr_wf_def contains_iff on_stride_def stride_int)

lemma add_class:
  assumes "k \<le> 30" "uint a mod 2 ^ k = uint x mod 2 ^ k" "uint b mod 2 ^ k = uint y mod 2 ^ k"
  shows "(uint a + uint b) mod 2 ^ k = (uint x + uint y) mod 2 ^ k"
  using assms(2,3) by (metis mod_add_eq)

lemma rotate_back:
  assumes "valid_size s" "x \<le> calc_mask s"
  shows "(((x + y) AND calc_mask s) - y) AND calc_mask s = x"
  using assms by (simp add: word_uint_eq_iff uint_masked le_calc_mask_uint mod_simps)

lemma reflect_back:
  assumes "valid_size s" "x \<le> calc_mask s"
  shows "(c - ((c - x) AND calc_mask s)) AND calc_mask s = x"
  using assms by (simp add: word_uint_eq_iff uint_masked le_calc_mask_uint mod_simps)

lemma push_add_single:
  assumes "cr_mask in1 = cr_mask in2" "\<not> cr_isempty in1" "\<not> cr_isempty in2" "cr_left in1 \<noteq> cr_right in1" "cr_left in2 \<noteq> cr_right in2"
  shows "is_single in2 \<Longrightarrow> push_add r in1 in2 = rotated in1 (- cr_left in2)"
    "\<not> is_single in2 \<Longrightarrow> is_single in1 \<Longrightarrow> push_add r in1 in2 = rotated in2 (- cr_left in1)"
  using assms by (cases in1; cases in2; cases r; simp add: push_add_def rotated_def Let_def)+

lemma step_dvd: "j \<le> k \<Longrightarrow> (2 :: int) ^ j dvd 2 ^ k" "j \<le> k \<Longrightarrow> (2 :: int) ^ j \<le> 2 ^ k"
  by (simp_all add: le_imp_power_dvd)

lemma sum_mod: "(p mod N - a + q mod N - b + c) mod N = (p - a + q - b + c) mod (N :: int)"
proof -
  have "(p mod N - a + q mod N - b + c) mod N = (p mod N + q mod N + (c - a - b)) mod N" by (simp add: algebra_simps)
  also have "\<dots> = (p + q + (c - a - b)) mod N" by (metis mod_add_eq mod_add_left_eq)
  finally show ?thesis by (simp add: algebra_simps)
qed

lemma push_add_arcs:
  assumes "cr_wf s in1" "cr_wf s in2" "\<not> cr_isempty in1" "\<not> cr_isempty in2"
    and "cr_left in1 \<noteq> cr_right in1" "cr_left in2 \<noteq> cr_right in2" "\<not> is_single in1" "\<not> is_single in2"
    and "x \<le> calc_mask s" "y \<le> calc_mask s" "contains in1 x" "contains in2 y"
  shows "cr_wf s (push_add r in1 in2) \<and> contains (push_add r in1 in2) ((x + y) AND calc_mask s)"
proof -
  obtain k1 where w1: "valid_size s" "cr_mask in1 = calc_mask s" "cr_left in1 \<le> calc_mask s" "cr_right in1 \<le> calc_mask s"
    "k1 < 8 * nat s" "k1 \<le> 30" "cr_step in1 = 2 ^ k1" using cr_wf_cases [OF assms(1)] by metis
  obtain k2 where w2: "cr_mask in2 = calc_mask s" "k2 < 8 * nat s" "k2 \<le> 30" "cr_step in2 = 2 ^ k2"
    using cr_wf_cases [OF assms(2)] by metis
  define k where "k = min k1 k2"
  define N where "N = (2 :: int) ^ (8 * nat s)"
  have k: "k \<le> 30" "k < 8 * nat s" "k \<le> k1" "k \<le> k2" using w1 w2 by (simp_all add: k_def)
  have ms: "min_step in1 in2 = 2 ^ k" by (simp add: min_step_def w1 w2 k_def min_def)
  define l where "l = (cr_left in1 + cr_left in2) AND calc_mask s"
  define rt where "rt = (cr_right in1 - step_value (2 ^ k1) + cr_right in2 - step_value (2 ^ k2) + step_value (2 ^ k)) AND calc_mask s"
  define z where "z = (x + y) AND calc_mask s"
  define D1 where "D1 = (uint (cr_right in1) - uint (cr_left in1)) mod N"
  define D2 where "D2 = (uint (cr_right in2) - uint (cr_left in2)) mod N"
  define d1 where "d1 = (uint x - uint (cr_left in1)) mod N"
  define d2 where "d2 = (uint y - uint (cr_left in2)) mod N"
  define D where "D = (D1 - 2 ^ k1 + D2 - 2 ^ k2 + 2 ^ k) mod N"
  note o1 = contains_offset [OF assms(1,3,5,9,11) w1(7,6), folded N_def, folded D1_def d1_def]
  note o2 = contains_offset [OF assms(2,4,6,10,12) w2(4,3), folded N_def, folded D2_def d2_def]
  have N: "2 ^ k1 dvd N" "2 ^ k2 dvd N" "2 ^ k dvd N" unfolding N_def using w1 w2 k by (auto intro: dvd_pow)
  have ul: "uint l = (uint (cr_left in1) + uint (cr_left in2)) mod N" by (simp only: l_def uint_masked [OF w1(1)] N_def)
  have urt: "uint rt = (uint (cr_right in1) - 2 ^ k1 + uint (cr_right in2) - 2 ^ k2 + 2 ^ k) mod N"
  proof -
    have "rt = word_of_int (uint (cr_right in1) - uint (step_value (2 ^ k1)) + uint (cr_right in2)
        - uint (step_value (2 ^ k2)) + uint (step_value (2 ^ k))) AND calc_mask s"
      by (simp add: rt_def)
    then show ?thesis by (simp only: uint_and_calc_mask [OF w1(1)] uint_step w1(6) w2(3) k(1) N_def)
  qed
  have uz: "uint z = (uint x + uint y) mod N" by (simp only: z_def uint_masked [OF w1(1)] N_def)
  have Dl: "(uint rt - uint l) mod N = D"
    unfolding ul urt D_def D1_def D2_def sum_mod mod_diff_eq by (simp add: algebra_simps)
  have dl: "(uint z - uint l) mod N = (d1 + d2) mod N"
    unfolding ul uz d1_def d2_def mod_diff_eq mod_add_eq by (simp add: algebra_simps)
  have le: "l \<le> calc_mask s" "rt \<le> calc_mask s" "z \<le> calc_mask s" by (simp_all add: l_def rt_def z_def mask_and_le [OF w1(1)])
  have dv: "2 ^ k dvd D" "2 ^ k dvd (d1 + d2) mod N"
    using o1 o2 N step_dvd(1) [OF k(3)] step_dvd(1) [OF k(4)]
    by (auto simp: D_def dvd_mod_iff intro!: dvd_add dvd_diff intro: dvd_trans)
  have bd: "D1 < N" "D2 < N" "0 \<le> d1" "0 \<le> d2" by (simp_all add: D1_def D2_def d1_def d2_def N_def)
  define st where "st = arc_size (calc_mask s) (step_value (2 ^ k1)) (cr_left in1) (cr_right in1)"
  define sn where "sn = arc_size (calc_mask s) (step_value (2 ^ k)) l rt"
  define q where "q = \<lparr>cr_left = l, cr_right = (if sn < st then l else rt), cr_mask = calc_mask s,
    cr_isempty = False, cr_step = 2 ^ k\<rparr>"
  have pa: "push_add r in1 in2 = normalize q"
    using assms(5-8) by (cases r) (simp add: push_add_def q_def l_def rt_def sn_def st_def Let_def w1 w2 ms)
  have "2 ^ k dvd uint rt - uint l" using dv(1) unfolding Dl [symmetric] dvd_mod_iff [OF N(3)] .
  then have al: "uint l mod 2 ^ k = uint rt mod 2 ^ k" by (simp only: mod_eq_dvd_iff [symmetric])
  have wf: "cr_wf s q"
    using w1(1) le k al by (auto simp: q_def cr_wf_def stride_int)
  have "cr_right q = l" if "\<not> (d1 + d2) mod N < D"
  proof -
    have "D + 2 ^ k - 1 < D1 \<or> D = 0"
      using that add_dist [OF zero_less_power [OF zero_less_numeral] step_dvd(2) [OF k(3)] step_dvd(2) [OF k(4)]
          step_dvd(1) [OF k(3)] step_dvd(1) [OF k(4)] N(1,2) o1(4) bd(1) o2(4) bd(2) o1(3) o2(3) bd(3) o1(2)
          bd(4) o2(2) o1(1) o2(1), folded D_def] by blast
    moreover have "l = rt" if "D = 0"
    proof -
      have "uint rt mod N = uint l mod N" using that Dl by (simp add: mod_eq_dvd_iff mod_eq_0_iff_dvd)
      then show ?thesis using le by (simp add: N_def le_calc_mask_uint [OF w1(1)] word_uint_eq_iff)
    qed
    moreover have "sn < st" if "D + 2 ^ k - 1 < D1" "l \<noteq> rt"
    proof -
      have "uint sn \<le> D + 2 ^ k - 1"
        using arc_size_bounds(2) [OF w1(1) k(1) le(1,2) that(2)] dv(1) k(2) Dl by (simp add: N_def sn_def)
      moreover have "D1 \<le> uint st"
        using arc_size_bounds(1) [OF w1(1,6,3,4) assms(5)] o1(3) w1(5) by (simp add: N_def st_def D1_def)
      ultimately show ?thesis using that(1) by (simp add: word_less_def)
    qed
    ultimately show ?thesis by (auto simp: q_def)
  qed
  then have "contains q z"
    using contains_dist [OF wf _ le(3), of k] k(1) dv(2) Dl dl by (auto simp: q_def N_def)
  then show ?thesis using normalize_wf [OF wf] normalize_contains pa by (simp add: z_def)
qed

lemma contains_class:
  assumes "contains r v" "cr_step r = 2 ^ k" "k \<le> 30" "j \<le> k"
  shows "uint (cr_left r) mod 2 ^ j = uint v mod 2 ^ j"
proof -
  have "uint (cr_left r) mod 2 ^ k = uint v mod 2 ^ k"
    using assms(1) by (simp add: contains_iff on_stride_def assms(2) stride_int [OF assms(3)])
  then have "uint (cr_left r) mod 2 ^ k mod 2 ^ j = uint v mod 2 ^ k mod 2 ^ j" by simp
  then show ?thesis by (simp only: mod_mod_cancel [OF step_dvd(1) [OF assms(4)]])
qed

lemma push_add_full:
  assumes "cr_wf s in1" "cr_wf s in2" "\<not> cr_isempty in1" "\<not> cr_isempty in2"
    and "cr_left in1 = cr_right in1 \<or> cr_left in2 = cr_right in2" "contains in1 x" "contains in2 y"
  shows "cr_wf s (push_add r in1 in2) \<and> contains (push_add r in1 in2) ((x + y) AND calc_mask s)"
proof -
  obtain k1 where w1: "valid_size s" "cr_mask in1 = calc_mask s" "k1 < 8 * nat s" "k1 \<le> 30" "cr_step in1 = 2 ^ k1"
    using cr_wf_cases [OF assms(1)] by metis
  obtain k2 where w2: "cr_mask in2 = calc_mask s" "k2 < 8 * nat s" "k2 \<le> 30" "cr_step in2 = 2 ^ k2"
    using cr_wf_cases [OF assms(2)] by metis
  define k where "k = min k1 k2"
  have k: "k \<le> 30" "k < 8 * nat s" "k \<le> k1" "k \<le> k2" using w1 w2 by (simp_all add: k_def)
  have ms: "min_step in1 in2 = 2 ^ k" by (simp add: min_step_def w1 w2 k_def min_def)
  let ?q = "push_add r in1 in2"
  have f: "cr_left ?q = (cr_left in1 + cr_left in2) mod step_value (2 ^ k)" "cr_right ?q = cr_left ?q"
    "cr_mask ?q = calc_mask s" "cr_step ?q = 2 ^ k" "\<not> cr_isempty ?q"
    using assms(5) by (auto simp: push_add_def Let_def ms w1 w2)
  have c: "uint (cr_left in1) mod 2 ^ k = uint x mod 2 ^ k" "uint (cr_left in2) mod 2 ^ k = uint y mod 2 ^ k"
    using contains_class [OF assms(6) w1(5,4) k(3)] contains_class [OF assms(7) w2(4,3) k(4)] by simp_all
  have l: "uint (cr_left ?q) = (uint (cr_left in1) + uint (cr_left in2)) mod 2 ^ k"
    unfolding f uint_mod uint_step [OF k(1)] uint_word_ariths
    by (rule mod_mod_cancel) (use k(1) step_dvd(1) [of k 64] in simp)
  have "uint ((x + y) AND calc_mask s) mod 2 ^ k = (uint x + uint y) mod 2 ^ k"
    by (simp add: uint_masked [OF w1(1)] mod_mod_cancel [OF dvd_pow [OF k(2)]])
  moreover have "uint (cr_left ?q) < 2 ^ (8 * nat s)"
    unfolding l using step_dvd(2) [of k "8 * nat s"] k(2) by (meson less_le_trans less_imp_le pos_mod_bound zero_less_power zero_less_numeral)
  ultimately show ?thesis
    using add_class [OF k(1) c] w1(1) l by (intro full_contains [OF w1(1) k(2,1) f(3,4,5)]) (simp_all add: le_calc_mask_uint f(2))
qed

lemma push_add_sound:
  assumes "cr_wf s in1" "cr_wf s in2" "x \<le> calc_mask s" "y \<le> calc_mask s" "contains in1 x" "contains in2 y"
  shows "cr_wf s (push_add r in1 in2) \<and> contains (push_add r in1 in2) ((x + y) AND calc_mask s)"
proof -
  have ne: "\<not> cr_isempty in1" "\<not> cr_isempty in2" using assms(5,6) by (simp_all add: contains_iff)
  have w: "valid_size s" "cr_mask in1 = cr_mask in2" using assms(1,2) by (simp_all add: cr_wf_def)
  consider "cr_left in1 = cr_right in1 \<or> cr_left in2 = cr_right in2"
    | "cr_left in1 \<noteq> cr_right in1" "cr_left in2 \<noteq> cr_right in2" "is_single in2"
    | "cr_left in1 \<noteq> cr_right in1" "cr_left in2 \<noteq> cr_right in2" "\<not> is_single in2" "is_single in1"
    | "cr_left in1 \<noteq> cr_right in1" "cr_left in2 \<noteq> cr_right in2" "\<not> is_single in2" "\<not> is_single in1" by blast
  then show ?thesis
  proof cases
    case 1
    then show ?thesis by (rule push_add_full [OF assms(1,2) ne _ assms(5,6)])
  next
    case 2
    have "y = cr_left in2" by (rule single_left [OF assms(2) 2(3,2) assms(4,6)])
    then show ?thesis
      using push_add_single(1) [OF w(2) ne 2(1,2,3)] rotated_wf [OF assms(1)] assms(5)
        rotated_contains [OF assms(1) mask_and_le [OF w(1)], of "- y"] rotate_back [OF w(1) assms(3), of y] by simp
  next
    case 3
    have "x = cr_left in1" by (rule single_left [OF assms(1) 3(4,1) assms(3,5)])
    then show ?thesis
      using push_add_single(2) [OF w(2) ne 3] rotated_wf [OF assms(2)] assms(6)
        rotated_contains [OF assms(2) mask_and_le [OF w(1)], of "- x"] rotate_back [OF w(1) assms(4), of x]
      by (simp add: add.commute)
  next
    case 4
    then show ?thesis using push_add_arcs [OF assms(1,2) ne 4(1,2,4,3) assms(3-6)] by blast
  qed
qed

section \<open>Termination of the stride loop\<close>

lemma mult_step_total:
  assumes "0 < step" "max_step \<le> 2 ^ 30"
  shows "\<exists>st \<ge> step. mult_step max_step step tmp = Some st"
  using assms
proof (induction "nat (max_step - step)" arbitrary: step tmp rule: less_induct)
  case less
  show ?case
  proof (cases "step < max_step \<and> tmp AND 1 = 0")
    case True
    then have w: "wrap_i32 (2 * step) = 2 * step" using less.prems by (intro wrap_i32_small) auto
    have "\<exists>st \<ge> 2 * step. mult_step max_step (2 * step) (drop_bit 1 tmp) = Some st"
      using less.prems True by (intro less.hyps) auto
    then show ?thesis using True less.prems(1) by (subst mult_step.simps) (force simp: w)
  next
    case False
    then show ?thesis by (subst mult_step.simps) auto
  qed
qed

text \<open>A larger limit lets the doubled stride wrap to zero, where the loop stays.\<close>

lemma mult_step_diverges: "0 < max_step \<Longrightarrow> mult_step max_step 0 0 = None"
proof (rule ccontr)
  assume "0 < max_step" "mult_step max_step 0 0 \<noteq> None"
  then obtain y where "mult_step max_step 0 0 = Some y" by auto
  then have "\<not> (0 < max_step \<and> (0 :: int) = 0 \<and> (0 :: u32) = 0)"
    by (rule mult_step.raw_induct [where P = "\<lambda>m st t y. \<not> (0 < m \<and> st = 0 \<and> t = 0)", rotated])
      (auto simp: wrap_i32_def split: if_splits, blast)
  then show False using \<open>0 < max_step\<close> by simp
qed

section \<open>Properties\<close>

text \<open>C22: forward propagation through addition is sound. For two well-formed ranges of one size, with any
  strides, wrapping or not, the range that \<open>push_forward_binary\<close> computes for \<open>IntAdd\<close> and for \<open>Ptrsub\<close>
  is well-formed and contains the sum, reduced to the size, of every pair of elements.\<close>

theorem push_forward_add_sound:
  assumes "cr_wf s in1" "cr_wf s in2" "x \<le> calc_mask s" "y \<le> calc_mask s" "contains in1 x" "contains in2 y"
    and "opc = IntAdd \<or> opc = Ptrsub"
  shows "\<exists>r'. push_forward_binary r opc in1 in2 s s max_step = Some (r', True) \<and> cr_wf s r' \<and>
    contains r' ((x + y) AND calc_mask s)"
  using push_add_sound [OF assms(1-6), of r] assms(5-7) by (auto simp: push_forward_binary_def contains_iff)

theorem push_forward_add_sound_witness:
  "\<exists>r'. push_forward_binary cr_new IntAdd (new_range 240 16 1 4) (new_range 2 9 1 1) 1 1 32 = Some (r', True) \<and>
    contains r' ((252 + 5) AND calc_mask 1)"
proof -
  have wf: "cr_wf 1 (new_range 240 16 1 4)" "cr_wf 1 (new_range 2 9 1 1)"
    by (auto simp: cr_wf_def new_range_def calc_mask_def UINTBMASKS_def as_u32_def valid_size_def
        step_value_def word_uint_eq_iff uint_mod intro: exI [of _ 0] exI [of _ 2])
  have "(252 :: u64) \<le> calc_mask 1" "(5 :: u64) \<le> calc_mask 1" "contains (new_range 240 16 1 4) 252"
    "contains (new_range 2 9 1 1) 5" by code_simp+
  from push_forward_add_sound [OF wf this, of IntAdd cr_new 32] show ?thesis by blast
qed

text \<open>C29: the range analysis returns. With a stride limit of at most \<open>2 ^ 30\<close> (the solver passes 32) and
  positive strides, \<open>push_forward_binary\<close> ends on every operation, although its stride loop for
  multiplication can run forever with a larger limit.\<close>

theorem push_forward_binary_returns:
  assumes "0 < cr_step in1" "0 < cr_step in2" "max_step \<le> 2 ^ 30"
  shows "\<exists>res. push_forward_binary r opc in1 in2 si so max_step = Some res"
proof -
  have "\<exists>res. push_mult r in1 in2 max_step = Some res"
    using mult_step_total [OF assms(1,3)] mult_step_total [OF assms(2,3)]
    by (fastforce simp: push_mult_def Let_def split: option.split)
  then show ?thesis by (auto simp: push_forward_binary_def)
qed

theorem push_forward_binary_returns_witness:
  "\<exists>res. push_forward_binary cr_new IntMult (new_single 0 4) (new_range 0 8 4 1) 4 4 32 = Some res"
  using push_forward_binary_returns [of "new_single 0 4" "new_range 0 8 4 1" 32 cr_new IntMult 4 4]
  by (simp add: new_single_def new_range_def Let_def)

text \<open>C35: forward propagation through zero extension, two's complement, bitwise negation and copy is sound:
  when the push succeeds, its result is well-formed for the output size and contains the image of every
  element of the input range.\<close>

theorem push_forward_unary_sound:
  assumes "cr_wf si in1" "valid_size so" "x \<le> calc_mask si" "contains in1 x"
    and "push_forward_unary r opc in1 si so = (r', True)"
    and "(opc, y) \<in> {(Copy, x), (Cast, x), (Int2comp, (- x) AND calc_mask si), (IntNegate, NOT x AND calc_mask si)} \<and> si = so
       \<or> opc = IntZext \<and> si < so \<and> y = x"
  shows "cr_wf so r' \<and> contains r' y"
proof -
  have ne: "\<not> cr_isempty in1" using assms(4) by (simp add: contains_iff)
  have v: "valid_size si" using assms(1) by (simp add: cr_wf_def)
  have inv: "(0 - ((- x) AND calc_mask si)) AND calc_mask si = x" "(- 1 - (NOT x AND calc_mask si)) AND calc_mask si = x"
    using reflect_back [OF v assms(3), of 0] reflect_back [OF v assms(3), of "- 1"] by (simp_all add: not_minus)
  have rfl: "cr_wf si (normalize (reflected in1 c)) \<and> contains (normalize (reflected in1 c)) z"
    if "(c - z) AND calc_mask si = x" "z \<le> calc_mask si" for c z
    using normalize_wf [OF reflected_wf [OF assms(1)]] reflected_contains [OF assms(1) that(2), of c] that assms(4)
    by (simp add: normalize_contains)
  show ?thesis
    using assms(6)
  proof
    assume "opc = IntZext \<and> si < so \<and> y = x"
    then show ?thesis
      using push_zext_sound [OF assms(1) ne assms(2) _ _ assms(3,4)] assms(5) ne by (auto simp: push_forward_unary_def)
  next
    assume "(opc, y) \<in> {(Copy, x), (Cast, x), (Int2comp, (- x) AND calc_mask si), (IntNegate, NOT x AND calc_mask si)} \<and> si = so"
    then show ?thesis
      using assms(1,4,5) ne reflected_push [OF ne] rfl [OF inv(1) mask_and_le [OF v]] rfl [OF inv(2) mask_and_le [OF v]]
      by (auto simp: push_forward_unary_def)
  qed
qed

theorem push_forward_unary_sound_witness:
  "cr_wf 2 (fst (push_forward_unary cr_new IntZext (new_range 250 0 1 1) 1 2)) \<and>
   contains (fst (push_forward_unary cr_new IntZext (new_range 250 0 1 1) 1 2)) 255"
proof -
  let ?p = "push_forward_unary cr_new IntZext (new_range 250 0 1 1) 1 2"
  have "cr_wf 1 (new_range 250 0 1 1)"
    by (rule wf_step1) (simp_all add: new_range_def calc_mask_def UINTBMASKS_def as_u32_def valid_size_def)
  moreover have "(255 :: u64) \<le> calc_mask 1" "contains (new_range 250 0 1 1) 255" "snd ?p" by code_simp+
  ultimately show ?thesis
    using push_forward_unary_sound [of 1 "new_range 250 0 1 1" 2 255 cr_new IntZext "fst ?p" 255]
    by (cases ?p) (simp add: valid_size_def)
qed

text \<open>C30: what \<open>translate2_op\<close> answers for a well-formed range of any stride. With code 0
  the range has stride 1 and is exactly what pulling \<open>true\<close> back through the returned comparison gives, so it contains a
  value if and only if the comparison holds for it; code 1 means every value, code 3 none. Code 2 is given for every
  non-empty range of a stride other than 1, also where a comparison would describe it, and for a range of
  stride 1 only when no comparison with a constant, on either side, describes the range.\<close>

theorem translate2_op_correct:
  assumes "cr_wf s r"
  shows "case translate2_op r of
      (code, Some (opc, cval, cslot)) \<Rightarrow> code = 0 \<and> cr_step r = 1 \<and> opc \<in> compare_ops \<and>
        pull_back_binary (new_bool True) opc cval (1 - cslot) s 1 = (r, True)
    | (code, None) \<Rightarrow> code = 1 \<and> cr_step r = 1 \<and> (\<forall>x. contains r x) \<or> code = 3 \<and> (\<forall>x. \<not> contains r x) \<or>
        code = 2 \<and> (\<exists>x \<le> calc_mask s. contains r x) \<and> (cr_step r \<noteq> 1 \<or>
          (\<forall>opc \<in> compare_ops. \<forall>slot. \<forall>val \<le> calc_mask s. \<exists>x \<le> calc_mask s. contains r x \<noteq> compare_ref opc s slot val x))"
proof -
  obtain code t where t: "translate2_op r = (code, t)" by fastforce
  have c: "t \<noteq> None \<Longrightarrow> code = 0 \<and> cr_step r = 1" "t = None \<Longrightarrow> code = 1 \<or> code = 2 \<or> code = 3"
    "code = 1 \<Longrightarrow> cr_step r = 1 \<and> (\<forall>x. contains r x)" "code = 3 \<Longrightarrow> \<forall>x. \<not> contains r x" "code = 2 \<Longrightarrow> \<not> cr_isempty r"
    using t by (auto simp: translate2_op_def contains_iff on_stride_def split: if_splits)
  have ne: "\<exists>x \<le> calc_mask s. contains r x" if "\<not> cr_isempty r"
    using that assms by (intro exI [of _ "cr_left r"]) (simp add: contains_iff on_stride_def arc_left cr_wf_def)
  show ?thesis
  proof (cases t)
    case None
    then show ?thesis using c t ne translate_complete [OF assms, of None] by auto
  next
    case (Some u)
    then obtain opc cval cslot where u: "t = Some (opc, cval, cslot)" by (cases u) auto
    then show ?thesis
      using c(1) t translate_roundtrip [OF assms, of opc cval cslot] by (auto simp: pull_back_true)
  qed
qed

theorem translate2_op_correct_witness:
  "translate2_op (new_range 0x80 3 1 1) = (0, Some (IntSless, 3, 1)) \<and>
   pull_back_binary (new_bool True) IntSless 3 0 1 1 = (new_range 0x80 3 1 1, True)"
proof -
  have "cr_wf 1 (new_range 0x80 3 1 1)"
    by (auto intro!: wf_step1 simp: new_range_def calc_mask_def UINTBMASKS_def as_u32_def valid_size_def Let_def)
  moreover have "translate2_op (new_range 0x80 3 1 1) = (0, Some (IntSless, 3, 1))" by code_simp
  ultimately show ?thesis using translate2_op_correct [of 1 "new_range 0x80 3 1 1"] by simp
qed

section \<open>Where the push goes wrong\<close>

text \<open>A wrapping range shifted right: the largest output is left out.\<close>

lemma push_right_unsound:
  "contains (new_range 5 0 1 1) 0xff \<and>
   \<not> contains (fst (push_right cr_new (new_range 5 0 1 1) (new_single 4 1) 1)) (wshr 0xff 4)"
  by code_simp

text \<open>The signed shift of a wrapping range: the largest non-negative output is left out.\<close>

lemma push_sright_unsound:
  "contains (new_range 5 0x82 1 1) 0x7f \<and>
   \<not> contains (fst (push_sright cr_new (new_range 5 0x82 1 1) (new_single 0 1) 1 1)) 0x7f"
  by code_simp

end
