(* ===== verification/Run.thy ===== *)
theory Run
  imports Prelude
begin

text \<open>
  The outcome of code that can return an error, panic (an index or a slice out of range, a division by
  zero), or not return: \<open>None\<close> is a run that does not end, so loops can be \<open>partial_function (option)\<close>.
  Operations on \<open>&mut self\<close> return the state beside the outcome, because what was changed before an
  error stays changed.
\<close>

datatype fault = Fault error | Panic

type_synonym 'a run = "(fault + 'a) option"

definition ok :: "'a \<Rightarrow> 'a run" where
  "ok x = Some (Inr x)"

definition err :: "error \<Rightarrow> 'a run" where
  "err e = Some (Inl (Fault e))"

definition panic :: "'a run" where
  "panic = Some (Inl Panic)"

definition run_bind :: "'a run \<Rightarrow> ('a \<Rightarrow> 'b run) \<Rightarrow> 'b run" where
  "run_bind r f = (case r of None \<Rightarrow> None | Some (Inl e) \<Rightarrow> Some (Inl e) | Some (Inr x) \<Rightarrow> f x)"

definition state_bind :: "'s \<times> 'a run \<Rightarrow> ('s \<Rightarrow> 'a \<Rightarrow> 's \<times> 'b run) \<Rightarrow> 's \<times> 'b run" where
  "state_bind m f = (case m of (s, r) \<Rightarrow>
     case r of None \<Rightarrow> (s, None) | Some (Inl e) \<Rightarrow> (s, Some (Inl e)) | Some (Inr x) \<Rightarrow> f s x)"

lemma run_simps [simp]:
  "ok x = ok y \<longleftrightarrow> x = y" "ok x \<noteq> err e" "ok x \<noteq> panic" "err e \<noteq> ok x" "panic \<noteq> ok x"
  "ok x \<noteq> None" "err e \<noteq> panic" "err e = err e' \<longleftrightarrow> e = e'"
  by (simp_all add: ok_def err_def panic_def)

lemma run_bind_simps [simp]:
  "run_bind (ok x) f = f x" "run_bind (err e) f = err e" "run_bind panic f = panic" "run_bind None f = None"
  by (simp_all add: run_bind_def ok_def err_def panic_def)

lemma state_bind_simps [simp]:
  "state_bind (s, ok x) f = f s x" "state_bind (s, err e) f = (s, err e)"
  "state_bind (s, panic) f = (s, panic)" "state_bind (s, None) f = (s, None)"
  by (simp_all add: state_bind_def ok_def err_def panic_def)

lemma run_bind_ok: "run_bind r f = ok y \<longleftrightarrow> (\<exists>x. r = ok x \<and> f x = ok y)"
  by (auto simp: run_bind_def ok_def split: option.splits sum.splits)

lemma state_bind_ok: "state_bind m f = (s', ok y) \<longleftrightarrow> (\<exists>s x. m = (s, ok x) \<and> f s x = (s', ok y))"
  by (auto simp: state_bind_def ok_def split: option.splits sum.splits prod.splits)

text \<open>\<open>as usize\<close> of a signed counter: a negative one becomes too large for any slice.\<close>

definition as_usize :: "int \<Rightarrow> int" where
  "as_usize x = x mod 2 ^ 64"

text \<open>The result of an operation on \<open>i32\<close>, which panics when it overflows.\<close>

definition i32_checked :: "int \<Rightarrow> i32 run" where
  "i32_checked n = (if - 0x80000000 \<le> n \<and> n < 0x80000000 then ok n else panic)"

text \<open>
  \<open>target[i..i + n].copy_from_slice(&source)\<close> with \<open>n\<close> the length of the source: a panic when the target
  range does not fit.
\<close>

definition copy_slice :: "'a list \<Rightarrow> nat \<Rightarrow> 'a list \<Rightarrow> 'a list run" where
  "copy_slice target i source =
     (if i + length source \<le> length target
      then ok (take i target @ source @ drop (i + length source) target) else panic)"

text \<open>\<open>&source[i..i + n]\<close>.\<close>

definition slice :: "'a list \<Rightarrow> nat \<Rightarrow> nat \<Rightarrow> 'a list run" where
  "slice source i n = (if i + n \<le> length source then ok (take n (drop i source)) else panic)"

section \<open>Arrays and loops\<close>

text \<open>Indexing panics out of range; a \<open>for\<close> loop is a fold over its items.\<close>

definition idx :: "'a list \<Rightarrow> nat \<Rightarrow> 'a run" where
  "idx xs i = (if i < length xs then ok (xs ! i) else panic)"

definition upd :: "'a list \<Rightarrow> nat \<Rightarrow> 'a \<Rightarrow> 'a list run" where
  "upd xs i x = (if i < length xs then ok (xs[i := x]) else panic)"

fun run_fold :: "('i \<Rightarrow> 's \<Rightarrow> 's run) \<Rightarrow> 'i list \<Rightarrow> 's \<Rightarrow> 's run" where
  "run_fold body [] s = ok s"
| "run_fold body (i # is) s = run_bind (body i s) (run_fold body is)"

section \<open>Loops with an invariant\<close>

lemma run_fold_append: "run_fold f (xs @ ys) s = run_bind (run_fold f xs s) (run_fold f ys)"
  by (induction xs arbitrary: s) (auto simp: run_bind_def ok_def split: option.splits sum.splits)

lemma run_fold_up:
  assumes "P a s" "a \<le> n" "\<And>i s. a \<le> i \<Longrightarrow> i < n \<Longrightarrow> P i s \<Longrightarrow> \<exists>s'. f i s = ok s' \<and> P (Suc i) s'"
  shows "\<exists>s'. run_fold f [a..<n] s = ok s' \<and> P n s'"
  using assms
proof (induction n)
  case (Suc n)
  show ?case
  proof (cases "a = Suc n")
    case False
    then have "a \<le> n" using Suc.prems(2) by simp
    then obtain s1 where "run_fold f [a..<n] s = ok s1" "P n s1" using Suc by (metis less_Suc_eq)
    moreover obtain s' where "f n s1 = ok s'" "P (Suc n) s'" using Suc.prems(3) [of n s1] \<open>a \<le> n\<close> \<open>P n s1\<close> by auto
    ultimately show ?thesis using \<open>a \<le> n\<close> by (simp add: run_fold_append)
  qed (use Suc.prems in simp)
qed simp

lemma run_fold_down:
  assumes "P n s" "a \<le> n" "\<And>i s. a \<le> i \<Longrightarrow> i < n \<Longrightarrow> P (Suc i) s \<Longrightarrow> \<exists>s'. f i s = ok s' \<and> P i s'"
  shows "\<exists>s'. run_fold f (rev [a..<n]) s = ok s' \<and> P a s'"
  using assms
proof (induction n arbitrary: s)
  case (Suc n)
  show ?case
  proof (cases "a = Suc n")
    case False
    then have "a \<le> n" using Suc.prems(2) by simp
    then obtain s1 where s1: "f n s = ok s1" "P n s1" using Suc.prems(3) [of n s] Suc.prems(1) by auto
    then obtain s' where "run_fold f (rev [a..<n]) s1 = ok s'" "P a s'" using Suc.IH [OF s1(2) \<open>a \<le> n\<close>] Suc.prems(3) by auto
    then show ?thesis using s1 \<open>a \<le> n\<close> by auto
  qed (use Suc.prems in simp)
qed simp

text \<open>A loop that may run forever can call itself under a bind.\<close>

lemma run_bind_mono [partial_function_mono]:
  assumes "mono_option B" "\<And>y. mono_option (C y)"
  shows "mono_option (\<lambda>f. run_bind (B f) (\<lambda>y. C y f))"
proof -
  have "(\<lambda>f. run_bind (B f) (\<lambda>y. C y f)) =
        (\<lambda>f. Option.bind (B f) (\<lambda>r. case r of Inl e \<Rightarrow> Some (Inl e) | Inr y \<Rightarrow> C y f))"
    by (intro ext) (simp add: run_bind_def Option.bind_eq_Some_conv split: option.splits sum.splits)
  moreover have "mono_option (\<lambda>f. case r of Inl e \<Rightarrow> Some (Inl e) | Inr y \<Rightarrow> C y f)" for r
    using assms(2) by (cases r) (auto intro: partial_function_mono)
  ultimately show ?thesis by (simp only: bind_mono [OF assms(1)])
qed

end
