(* ===== verification/Space.thy ===== *)
theory Space
  imports Bits "HOL-Library.Signed_Division"
begin

text \<open>
  Address spaces, src/src/space.rs: the kinds and types of space, the constructors of \<open>AddrSpace\<close>, its
  flags, the bounds \<open>calc_scale_mask\<close> derives from the address size and the word size, and the wrapping of
  an offset into the space.

  The fields behind atomics (flags, highest offset, pointer bounds, address size, delays) are fields of the
  record, and a method that stores into them returns the record updated. What only some kinds carry (the
  join table, the base space of an overlay, the base register of a spacebase space) is left out of the
  kind, so the operations on those, and the ones that decode and print a space, are not part of the model.
\<close>

section \<open>Data\<close>

datatype space_type = Constant | Processor | Spacebase | Internal | Fspec | Iop_space | Join

datatype space_kind =
    BaseKind | ConstantKind | OtherKind | UniqueKind | JoinKind | OverlayKind | SpacebaseKind
  | FspecKind | IopKind | MaximalKind

record addr_space =
  as_kind :: space_kind
  as_type :: space_type
  as_flags :: u32
  as_shortcut :: u8
  as_highest :: u64
  as_pointer_lower :: u64
  as_pointer_upper :: u64
  as_name :: string
  as_addr_size :: u32
  as_word_size :: u32
  as_min_ptr_size :: i32
  as_index :: i32
  as_delay :: i32
  as_deadcode_delay :: i32

text \<open>The location of a value, src/src/pcoderaw.rs.\<close>

record varnode_data =
  vd_space :: "addr_space option"
  vd_offset :: u64
  vd_size :: u32

definition BIG_ENDIAN :: u32 where "BIG_ENDIAN = 1"
definition HERITAGED :: u32 where "HERITAGED = 2"
definition DOES_DEADCODE :: u32 where "DOES_DEADCODE = 4"
definition FORMAL_STACKSPACE :: u32 where "FORMAL_STACKSPACE = 0x20"
definition TRUNCATED :: u32 where "TRUNCATED = 0x100"
definition HASPHYSICAL :: u32 where "HASPHYSICAL = 0x200"
definition IS_OTHERSPACE :: u32 where "IS_OTHERSPACE = 0x400"
definition ALLOWS_WRAPPED_RANGE :: u32 where "ALLOWS_WRAPPED_RANGE = 0x1000"
definition ADDRESSABLE_ALL :: u32 where "ADDRESSABLE_ALL = 0x2000"
definition ADDRESSABLE_NONE :: u32 where "ADDRESSABLE_NONE = 0x4000"

lemmas flag_defs = BIG_ENDIAN_def HERITAGED_def DOES_DEADCODE_def FORMAL_STACKSPACE_def TRUNCATED_def
  HASPHYSICAL_def IS_OTHERSPACE_def ALLOWS_WRAPPED_RANGE_def ADDRESSABLE_ALL_def ADDRESSABLE_NONE_def

section \<open>Flags and bounds\<close>

definition set_flags :: "u32 \<Rightarrow> addr_space \<Rightarrow> addr_space" where
  "set_flags fl spc = spc\<lparr>as_flags := as_flags spc OR fl\<rparr>"

definition clear_flags :: "u32 \<Rightarrow> addr_space \<Rightarrow> addr_space" where
  "clear_flags fl spc = spc\<lparr>as_flags := as_flags spc AND NOT fl\<rparr>"

definition has_flag :: "addr_space \<Rightarrow> u32 \<Rightarrow> bool" where
  "has_flag spc fl \<longleftrightarrow> as_flags spc AND fl \<noteq> 0"

definition is_heritaged :: "addr_space \<Rightarrow> bool" where "is_heritaged spc = has_flag spc HERITAGED"
definition does_deadcode :: "addr_space \<Rightarrow> bool" where "does_deadcode spc = has_flag spc DOES_DEADCODE"
definition has_physical :: "addr_space \<Rightarrow> bool" where "has_physical spc = has_flag spc HASPHYSICAL"
definition is_big_endian :: "addr_space \<Rightarrow> bool" where "is_big_endian spc = has_flag spc BIG_ENDIAN"
definition is_other_space :: "addr_space \<Rightarrow> bool" where "is_other_space spc = has_flag spc IS_OTHERSPACE"
definition is_truncated :: "addr_space \<Rightarrow> bool" where "is_truncated spc = has_flag spc TRUNCATED"
definition is_formal_stack_space :: "addr_space \<Rightarrow> bool" where
  "is_formal_stack_space spc = has_flag spc FORMAL_STACKSPACE"
definition no_high_ptr_possible :: "addr_space \<Rightarrow> bool" where
  "no_high_ptr_possible spc = has_flag spc ADDRESSABLE_NONE"
definition allows_wrapped_range :: "addr_space \<Rightarrow> bool" where
  "allows_wrapped_range spc = has_flag spc ALLOWS_WRAPPED_RANGE"

definition calc_scale_mask :: "addr_space \<Rightarrow> addr_space" where
  "calc_scale_mask spc =
     (let address_size = as_addr_size spc;
          wordsize = ucast (as_word_size spc) :: u64;
          highest = calc_mask (wrap_i32 (uint address_size)) * wordsize + (wordsize - 1);
          buffer_size = (if address_size < 3 then 0x100 else 0x1000) in
      spc\<lparr>as_highest := highest, as_pointer_lower := buffer_size, as_pointer_upper := highest - buffer_size\<rparr>)"

section \<open>Constructors\<close>

definition new_space ::
    "space_kind \<Rightarrow> space_type \<Rightarrow> string \<Rightarrow> bool \<Rightarrow> u32 \<Rightarrow> u32 \<Rightarrow> i32 \<Rightarrow> u32 \<Rightarrow> i32 \<Rightarrow> i32 \<Rightarrow> addr_space" where
  "new_space kind tp nm big_end sz ws ind fl dl dead =
     (let flags = fl AND HASPHYSICAL;
          flags = (if big_end then flags OR BIG_ENDIAN else flags);
          flags = flags OR (HERITAGED OR DOES_DEADCODE);
          spc = calc_scale_mask \<lparr>as_kind = kind, as_type = tp, as_flags = flags, as_shortcut = 32,
            as_highest = 0, as_pointer_lower = 0, as_pointer_upper = 0, as_name = nm, as_addr_size = sz,
            as_word_size = ws, as_min_ptr_size = 0, as_index = ind, as_delay = dl, as_deadcode_delay = dead\<rparr> in
      set_flags (if as_delay spc = 0 then ADDRESSABLE_NONE else ADDRESSABLE_ALL) spc)"

definition new_for_decode :: "space_kind \<Rightarrow> space_type \<Rightarrow> addr_space" where
  "new_for_decode kind tp =
     \<lparr>as_kind = kind, as_type = tp, as_flags = HERITAGED OR DOES_DEADCODE, as_shortcut = 32,
      as_highest = 0, as_pointer_lower = 0, as_pointer_upper = 0, as_name = '''', as_addr_size = 0,
      as_word_size = 1, as_min_ptr_size = 0, as_index = 0, as_delay = 0, as_deadcode_delay = 0\<rparr>"

definition new_processor :: "string \<Rightarrow> bool \<Rightarrow> u32 \<Rightarrow> u32 \<Rightarrow> i32 \<Rightarrow> u32 \<Rightarrow> i32 \<Rightarrow> i32 \<Rightarrow> addr_space" where
  "new_processor nm big_end sz ws ind fl dl dead =
     new_space BaseKind Processor nm big_end sz ws ind fl dl dead"

definition new_constant :: addr_space where
  "new_constant = clear_flags (HERITAGED OR DOES_DEADCODE OR BIG_ENDIAN)
     (new_space ConstantKind Constant ''const'' False 8 1 0 0 0 0)"

definition new_other :: "i32 \<Rightarrow> addr_space" where
  "new_other ind = set_flags IS_OTHERSPACE (clear_flags (HERITAGED OR DOES_DEADCODE)
     (new_space OtherKind Processor ''OTHER'' False 8 1 1 0 0 0))"

definition new_unique :: "bool \<Rightarrow> i32 \<Rightarrow> u32 \<Rightarrow> addr_space" where
  "new_unique big_end ind fl =
     set_flags HASPHYSICAL (new_space UniqueKind Internal ''unique'' big_end 4 1 ind fl 0 0)"

definition new_join :: "bool \<Rightarrow> i32 \<Rightarrow> addr_space" where
  "new_join big_end ind = clear_flags HERITAGED (new_space JoinKind Join ''join'' big_end 4 1 ind 0 0 0)"

definition new_spacebase :: "string \<Rightarrow> bool \<Rightarrow> i32 \<Rightarrow> u32 \<Rightarrow> addr_space \<Rightarrow> i32 \<Rightarrow> bool \<Rightarrow> addr_space" where
  "new_spacebase nm big_end ind sz basespc dl is_formal =
     (let spc = set_flags ALLOWS_WRAPPED_RANGE
            (new_space SpacebaseKind Spacebase nm big_end sz (as_word_size basespc) ind 0 dl dl) in
      if is_formal then set_flags FORMAL_STACKSPACE spc else spc)"

definition new_fspec :: "i32 \<Rightarrow> addr_space" where
  "new_fspec ind = clear_flags (HERITAGED OR DOES_DEADCODE OR BIG_ENDIAN)
     (new_space FspecKind Fspec ''fspec'' False 8 1 ind 0 1 1)"

definition new_iop :: "i32 \<Rightarrow> addr_space" where
  "new_iop ind = clear_flags (HERITAGED OR DOES_DEADCODE OR BIG_ENDIAN)
     (new_space IopKind Iop_space ''iop'' False 8 1 ind 0 1 1)"

definition maximal_space :: addr_space where
  "maximal_space = (new_for_decode MaximalKind Processor)\<lparr>as_index := 2 ^ 31 - 1\<rparr>"

definition is_maximal :: "addr_space \<Rightarrow> bool" where
  "is_maximal spc \<longleftrightarrow> as_kind spc = MaximalKind"

definition truncate_space :: "u32 \<Rightarrow> addr_space \<Rightarrow> addr_space" where
  "truncate_space newsize spc =
     calc_scale_mask ((set_flags TRUNCATED spc)
       \<lparr>as_addr_size := newsize, as_min_ptr_size := wrap_i32 (uint newsize)\<rparr>)"

section \<open>Offsets\<close>

definition wrap_offset :: "addr_space \<Rightarrow> u64 \<Rightarrow> u64" where
  "wrap_offset spc off =
     (let highest = as_highest spc in
      if off \<le> highest then off
      else let modulus = highest + 1 in
        if modulus = 0 then off
        else let res = word_of_int (sint off smod sint modulus) :: u64;
                 res = (if sint res < 0 then res + modulus else res) in
          res)"

definition address_to_byte :: "u64 \<Rightarrow> u32 \<Rightarrow> u64" where
  "address_to_byte val ws = val * ucast ws"

text \<open>Division by zero panics, so these two are partial.\<close>

definition byte_to_address :: "u64 \<Rightarrow> u32 \<Rightarrow> u64 option" where
  "byte_to_address val ws = (if ws = 0 then None else Some (val div ucast ws))"

definition address_to_byte_int :: "u64 \<Rightarrow> u32 \<Rightarrow> u64" where
  "address_to_byte_int val ws = val * ucast ws"

definition byte_to_address_int :: "u64 \<Rightarrow> u32 \<Rightarrow> u64 option" where
  "byte_to_address_int val ws = (if ws = 0 then None else Some (word_of_int (sint val sdiv uint ws)))"

definition compare_by_index :: "addr_space \<Rightarrow> addr_space \<Rightarrow> bool" where
  "compare_by_index spc1 spc2 \<longleftrightarrow> as_index spc1 < as_index spc2"

definition same_space :: "addr_space option \<Rightarrow> addr_space option \<Rightarrow> bool" where
  "same_space s1 s2 =
     (case (s1, s2) of (None, None) \<Rightarrow> True | (Some l, Some r) \<Rightarrow> as_index l = as_index r | _ \<Rightarrow> False)"

section \<open>Wrapping\<close>

lemma uint_bounded: "uint (v :: u64) < 2 ^ 64"
  using unsigned_less [of v] by simp

lemma smod_adjust:
  fixes a m :: int
  assumes "0 < m"
  shows "(if a smod m < 0 then a smod m + m else a smod m) = a mod m"
proof -
  have "a smod m = a - (a sdiv m) * m" using sdiv_mult_smod_eq [of a m] by simp
  then have "(a smod m) mod m = a mod m" by (simp add: mod_diff_right_eq [of a "_ * m" m, symmetric])
  moreover have "- m < a smod m" "a smod m < m" using assms smod_int_range [of m a] by auto
  ultimately show ?thesis
    using mod_pos_pos_trivial [of "a smod m + m" m] mod_pos_pos_trivial [of "a smod m" m] by auto
qed

lemma sint_mod_exp: "k \<le> 64 \<Longrightarrow> sint (v :: u64) mod 2 ^ k = uint v mod 2 ^ k"
proof -
  assume "k \<le> 64"
  then have "(2 :: int) ^ k dvd 2 ^ 64" by (rule le_imp_power_dvd)
  moreover have "uint v = sint v mod 2 ^ 64" using uint_sint [of v] by (simp add: take_bit_eq_mod)
  ultimately show ?thesis by (simp only: mod_mod_cancel)
qed

lemma wrap_offset_small:
  assumes "uint (as_highest spc) + 1 = m" "m < 2 ^ 63"
  shows "uint (wrap_offset spc off) = (if off \<le> as_highest spc then uint off else sint off mod m)"
proof (cases "off \<le> as_highest spc")
  case False
  define h where "h = as_highest spc"
  have m: "0 < m" "uint h + 1 = m" using assms uint_nonnegative [of h] unfolding h_def [symmetric] by linarith+
  have u: "uint (h + 1) = m" using assms m by (simp add: uint_word_ariths)
  then have s: "sint (h + 1) = m" using assms m(1) by (simp add: sint_uint signed_take_bit_int_eq_self)
  have ne: "h + 1 \<noteq> 0" using u m by auto
  define r where "r = sint off smod m"
  have r: "- m < r" "r < m" using smod_int_range [of m "sint off"] m by (auto simp: r_def)
  then have sr: "sint (word_of_int r :: u64) = r" using assms
    by (simp add: signed_of_int signed_take_bit_int_eq_self)
  have "wrap_offset spc off = (if r < 0 then word_of_int r + (h + 1) else word_of_int r)"
    using False ne s sr by (simp add: wrap_offset_def h_def [symmetric] r_def)
  also have "h + 1 = word_of_int m" using u by (metis word_of_int_uint)
  finally have "wrap_offset spc off = word_of_int (if r < 0 then r + m else r)" by simp
  also have "(if r < 0 then r + m else r) = sint off mod m" unfolding r_def by (rule smod_adjust [OF m(1)])
  finally have "wrap_offset spc off = word_of_int (sint off mod m)" .
  moreover have "0 \<le> sint off mod m" "sint off mod m < m" using m by auto
  ultimately show ?thesis using False assms by (simp add: unsigned_of_int take_bit_int_eq_self)
qed (simp add: wrap_offset_def)

lemma sint_u64: "sint (v :: u64) = (if uint v < 2 ^ 63 then uint v else uint v - 2 ^ 64)"
proof -
  have "sint v mod 2 ^ 64 = uint v" using sint_mod_exp [of 64 v] uint_bounded [of v] by simp
  moreover have "- (2 ^ 63) \<le> sint v" "sint v < 2 ^ 63" using sint_ge [of v] sint_lt [of v] by simp_all
  moreover have "sint v < 0 \<Longrightarrow> sint v mod 2 ^ 64 = sint v + 2 ^ 64"
    using mod_pos_pos_trivial [of "sint v + 2 ^ 64" "2 ^ 64"] calculation by simp
  moreover have "0 \<le> sint v \<Longrightarrow> sint v mod 2 ^ 64 = sint v" using calculation by simp
  ultimately show ?thesis by (cases "sint v < 0") auto
qed

lemma wrap_offset_half:
  assumes "uint (as_highest spc) + 1 = 2 ^ 63"
  shows "uint (wrap_offset spc off) = uint off mod 2 ^ 63"
proof (cases "off \<le> as_highest spc")
  case True
  then have "uint off < 2 ^ 63" using assms by (simp add: word_le_def)
  then show ?thesis using True by (simp add: wrap_offset_def)
next
  case False
  define h where "h = as_highest spc"
  define a where "a = uint off - 2 ^ 63"
  have a: "0 \<le> a" "a < 2 ^ 63" "uint off = a + 2 ^ 63" "sint off = a - 2 ^ 63"
    using False assms uint_bounded [of off] by (simp_all add: word_le_def a_def sint_u64)
  have u: "uint (h + 1) = 2 ^ 63" using assms by (simp add: uint_word_ariths h_def)
  then have s: "sint (h + 1) = - (2 ^ 63)" by (simp add: sint_u64)
  have h1: "h + 1 = word_of_int (2 ^ 63)" "h + 1 \<noteq> 0" using u by (metis word_of_int_uint, auto)
  have r: "(a - 2 ^ 63) smod - (2 ^ 63) = (if a = 0 then 0 else a - 2 ^ 63)"
    using a by (auto simp: signed_modulo_int_def signed_divide_int_def zmod_zminus1_eq_if)
  have sw: "sint (word_of_int (a - 2 ^ 63) :: u64) = a - 2 ^ 63" using a
    by (simp add: signed_of_int signed_take_bit_int_eq_self del: of_int_diff)
  have "wrap_offset spc off = word_of_int a"
    using False a r sw h1 unfolding wrap_offset_def Let_def h_def [symmetric] s a(4) r by auto
  then have "uint (wrap_offset spc off) = a" using a by (simp add: unsigned_of_int take_bit_int_eq_self)
  moreover have "uint off mod 2 ^ 63 = a" using a by simp
  ultimately show ?thesis by simp
qed

lemma wrap_offset_exp:
  assumes "uint (as_highest spc) + 1 = 2 ^ k"
  shows "uint (wrap_offset spc off) = uint off mod 2 ^ k"
proof -
  have "(2 :: int) ^ k \<le> 2 ^ 64" using assms uint_bounded [of "as_highest spc"] by simp
  then have k: "k \<le> 64" using power_le_imp_le_exp [of "2 :: int" k 64] by linarith
  consider "k < 63" | "k = 63" | "k = 64" using k by linarith
  then show ?thesis
  proof cases
    case 1
    then have "(2 :: int) ^ k < 2 ^ 63" by (rule power_strict_increasing) simp
    then show ?thesis using wrap_offset_small [OF assms, of off] sint_mod_exp [OF k, of off] assms
      by (auto simp: word_le_def)
  next
    case 2
    then show ?thesis using wrap_offset_half assms by blast
  next
    case 3
    then show ?thesis using assms uint_bounded [of off] by (simp add: wrap_offset_def word_le_def)
  qed
qed

lemma uint_exp_minus_1: "uint (2 ^ n - 1 :: u64) + 1 = 2 ^ min 64 n"
  using uint_mask_eq [of n, where 'a = 64] by (simp add: mask_eq_exp_minus_1)

lemma calc_scale_mask_highest:
  assumes "1 \<le> as_addr_size spc" "as_addr_size spc \<le> 8" "as_word_size spc = 2 ^ j" "j < 32"
  shows "uint (as_highest (calc_scale_mask spc)) + 1 = 2 ^ min 64 (8 * unat (as_addr_size spc) + j)"
proof -
  let ?n = "8 * unat (as_addr_size spc)"
  have b: "1 \<le> uint (as_addr_size spc)" "uint (as_addr_size spc) \<le> 8" using assms(1,2) by (simp_all add: word_le_def)
  then have v: "valid_size (uint (as_addr_size spc))" by (simp add: valid_size_def)
  have w: "wrap_i32 (uint (as_addr_size spc)) = uint (as_addr_size spc)" using b by (simp add: wrap_i32_small)
  have "calc_mask (wrap_i32 (uint (as_addr_size spc))) = mask ?n"
    unfolding w calc_mask_eq [OF v] by simp
  moreover have "(ucast (2 ^ j :: u32) :: u64) = 2 ^ j"
    by (rule u64_bit_eqI) (use assms(4) in \<open>auto simp: bit_unsigned_iff bit_exp_iff\<close>)
  ultimately have "as_highest (calc_scale_mask spc) = (2 ^ ?n - 1) * 2 ^ j + (2 ^ j - 1)"
    using assms(3) by (simp add: calc_scale_mask_def Let_def mask_eq_exp_minus_1)
  also have "\<dots> = 2 ^ (?n + j) - 1" by (simp add: algebra_simps power_add)
  finally show ?thesis by (simp add: uint_exp_minus_1)
qed

lemma scale_fields [simp]:
  "as_addr_size (calc_scale_mask spc) = as_addr_size spc" "as_word_size (calc_scale_mask spc) = as_word_size spc"
  "as_index (calc_scale_mask spc) = as_index spc" "as_type (calc_scale_mask spc) = as_type spc"
  "as_flags (calc_scale_mask spc) = as_flags spc" "as_delay (calc_scale_mask spc) = as_delay spc"
  "as_name (calc_scale_mask spc) = as_name spc"
  by (simp_all add: calc_scale_mask_def Let_def)

lemma flag_fields [simp]:
  "as_highest (set_flags fl spc) = as_highest spc" "as_highest (clear_flags fl spc) = as_highest spc"
  "as_addr_size (set_flags fl spc) = as_addr_size spc" "as_addr_size (clear_flags fl spc) = as_addr_size spc"
  "as_word_size (set_flags fl spc) = as_word_size spc" "as_word_size (clear_flags fl spc) = as_word_size spc"
  "as_index (set_flags fl spc) = as_index spc" "as_index (clear_flags fl spc) = as_index spc"
  "as_type (set_flags fl spc) = as_type spc" "as_type (clear_flags fl spc) = as_type spc"
  "as_name (set_flags fl spc) = as_name spc" "as_name (clear_flags fl spc) = as_name spc"
  by (simp_all add: set_flags_def clear_flags_def)

lemma new_space_fields [simp]:
  "as_addr_size (new_space kind tp nm be sz ws ind fl dl dead) = sz"
  "as_word_size (new_space kind tp nm be sz ws ind fl dl dead) = ws"
  "as_index (new_space kind tp nm be sz ws ind fl dl dead) = ind"
  "as_type (new_space kind tp nm be sz ws ind fl dl dead) = tp"
  "as_name (new_space kind tp nm be sz ws ind fl dl dead) = nm"
  by (simp_all add: new_space_def Let_def)

lemma new_space_big_endian [simp]: "is_big_endian (new_space kind tp nm be sz ws ind fl dl dead) = be"
proof -
  have "bit (as_flags (new_space kind tp nm be sz ws ind fl dl dead)) 0 = be"
    by (simp add: new_space_def Let_def set_flags_def flag_defs bit_0 even_or_iff even_and_iff)
  then show ?thesis by (simp add: is_big_endian_def has_flag_def BIG_ENDIAN_def and_one_eq bit_0 odd_iff_mod_2_eq_one)
qed

lemma new_space_highest:
  "as_highest (new_space kind tp nm be sz ws ind fl dl dead) =
     as_highest (calc_scale_mask (new_space kind tp nm be sz ws ind fl dl dead))"
  by (simp add: new_space_def Let_def set_flags_def calc_scale_mask_def)

lemma truncate_space_highest:
  "as_highest (truncate_space n spc) = as_highest (calc_scale_mask (truncate_space n spc))"
  "as_addr_size (truncate_space n spc) = n" "as_word_size (truncate_space n spc) = as_word_size spc"
  by (simp_all add: truncate_space_def Let_def set_flags_def calc_scale_mask_def)

lemma wrap_offset_in_space:
  assumes "uint (as_highest spc) + 1 = 2 ^ k"
  shows "uint (wrap_offset spc off) = uint off mod 2 ^ k \<and> wrap_offset spc off \<le> as_highest spc
    \<and> wrap_offset spc (wrap_offset spc off + d) = wrap_offset spc (off + d)"
proof -
  note w = wrap_offset_exp [OF assms]
  have "(2 :: int) ^ k \<le> 2 ^ 64" using assms uint_bounded [of "as_highest spc"] by simp
  then have k: "k \<le> 64" using power_le_imp_le_exp [of "2 :: int" k 64] by linarith
  then have cancel: "x mod 2 ^ 64 mod 2 ^ k = x mod 2 ^ k" for x :: int
    by (simp only: mod_mod_cancel [OF le_imp_power_dvd])
  have "uint off mod 2 ^ k < uint (as_highest spc) + 1" unfolding assms by simp
  then have "wrap_offset spc off \<le> as_highest spc" by (simp add: word_le_def w)
  moreover have "uint (wrap_offset spc off + d) mod 2 ^ k = uint (off + d) mod 2 ^ k"
    using cancel by (simp add: uint_word_ariths w mod_add_left_eq)
  ultimately show ?thesis by (simp add: w word_uint_eq_iff)
qed

text \<open>C27: A space whose address size is one to eight bytes and whose word size is a power of two wraps
  offsets modulo its number of bytes, \<open>2 ^ (8 * size) * wordsize\<close> capped at 64 bits: the result lies in
  the space and offset arithmetic may be wrapped early or late. The same holds after the space has been
  truncated to a smaller address size.\<close>
theorem wrap_offset_modular:
  assumes "1 \<le> sz" "sz \<le> 8" "1 \<le> trunc" "trunc \<le> 8" "j < 32"
    and "spc = new_space kind tp nm big_end sz (2 ^ j) ind fl dl dead"
  shows "uint (wrap_offset spc off) = uint off mod 2 ^ min 64 (8 * unat sz + j)
    \<and> wrap_offset spc off \<le> as_highest spc
    \<and> wrap_offset spc (wrap_offset spc off + d) = wrap_offset spc (off + d)
    \<and> uint (wrap_offset (truncate_space trunc spc) off) = uint off mod 2 ^ min 64 (8 * unat trunc + j)
    \<and> wrap_offset (truncate_space trunc spc) off \<le> as_highest (truncate_space trunc spc)"
proof -
  have "uint (as_highest spc) + 1 = 2 ^ min 64 (8 * unat sz + j)"
    using calc_scale_mask_highest [of spc j] assms new_space_highest [of kind tp nm big_end sz "2 ^ j" ind fl dl dead]
    by simp
  note 1 = wrap_offset_in_space [OF this]
  have "uint (as_highest (truncate_space trunc spc)) + 1 = 2 ^ min 64 (8 * unat trunc + j)"
    using calc_scale_mask_highest [of "truncate_space trunc spc" j] assms truncate_space_highest [of trunc spc]
    by simp
  note 2 = wrap_offset_in_space [OF this]
  show ?thesis using 1 2 by blast
qed

lemma wrap_offset_modular_witness:
  "uint (wrap_offset (new_processor ''ram'' False 2 2 3 0 1 1) 0x20005) = 5
    \<and> uint (wrap_offset (truncate_space 1 (new_processor ''ram'' False 2 2 3 0 1 1)) 0x20205) = 5"
  using wrap_offset_modular [of 2 1 1 _ BaseKind Processor "''ram''" False 3 0 1 1 "0x20005" 0]
    wrap_offset_modular [of 2 1 1 _ BaseKind Processor "''ram''" False 3 0 1 1 "0x20205" 0]
  by (simp add: new_processor_def)

end
