(* ===== verification/Memory_Bank.thy ===== *)
theory Memory_Bank
  imports Run Space
begin

text \<open>
  The memory of the emulator, src/src/memstate.rs: the conversion between words and bytes, the default
  methods of the trait \<open>MemoryBank\<close>, its three implementations (a read-only load image, an overlay of
  pages, an overlay kept in a hash table), and \<open>MemoryState\<close>, the banks of all address spaces.

  A trait object is a value of the datatype \<open>memory_bank\<close>. \<open>find\<close> and \<open>get_page\<close> take \<open>&mut self\<close> in
  the code but change nothing, so they are functions of the bank. The default methods take the required
  methods \<open>find\<close> and \<open>insert\<close> as arguments, as the trait does. The loader of an image is code behind the
  trait \<open>LoadImage\<close>: a function from a byte count and an offset to the bytes or an error.
\<close>

section \<open>Bytes and words\<close>

fun le_bytes :: "nat \<Rightarrow> u64 \<Rightarrow> u8 list" where
  "le_bytes 0 val = []"
| "le_bytes (Suc n) val = ucast (val AND 0xff) # le_bytes n (drop_bit 8 val)"

definition le_value :: "u8 list \<Rightarrow> u64" where
  "le_value bs = foldl (\<lambda>res b. wshl res 8 + ucast b) 0 (rev bs)"

definition be_value :: "u8 list \<Rightarrow> u64" where
  "be_value bs = foldl (\<lambda>res b. wshl res 8 + ucast b) 0 bs"

definition construct_value :: "u8 list \<Rightarrow> i32 \<Rightarrow> bool \<Rightarrow> u64 run" where
  "construct_value ptr sz bigendian =
     (if int (length ptr) < as_usize sz then panic
      else let bs = take (nat sz) ptr in ok (if bigendian then be_value bs else le_value bs))"

definition deconstruct_value :: "u8 list \<Rightarrow> u64 \<Rightarrow> i32 \<Rightarrow> bool \<Rightarrow> u8 list run" where
  "deconstruct_value ptr val sz bigendian =
     (if int (length ptr) < as_usize sz then panic
      else let bs = le_bytes (nat sz) val in copy_slice ptr 0 (if bigendian then rev bs else bs))"

section \<open>Banks\<close>

record bank_base =
  wordsize :: i32
  pagesize :: i32
  bank_space :: addr_space

type_synonym loader = "nat \<Rightarrow> u64 \<Rightarrow> u8 list result"

datatype memory_bank =
    MemoryImage bank_base loader
  | MemoryPageOverlay bank_base "memory_bank option" "u64 \<rightharpoonup> u8 list"
  | MemoryHashOverlay bank_base "memory_bank option" i32 u64 "u64 list" "u64 list"

fun base :: "memory_bank \<Rightarrow> bank_base" where
  "base (MemoryImage b _) = b"
| "base (MemoryPageOverlay b _ _) = b"
| "base (MemoryHashOverlay b _ _ _ _ _) = b"

definition align_mask :: "i32 \<Rightarrow> u64" where
  "align_mask n = cxx_int n - 1"

definition big_endian :: "bank_base \<Rightarrow> bool" where
  "big_endian b = is_big_endian (bank_space b)"

section \<open>Default methods: pages\<close>

text \<open>The start within the word and the number of bytes taken from the word at \<open>startalign\<close>.\<close>

definition word_chunk :: "i32 \<Rightarrow> u64 \<Rightarrow> u64 \<Rightarrow> u64 \<Rightarrow> nat \<times> int" where
  "word_chunk ws addr endaddr startalign =
     (let (start, chunk_size) =
        (if startalign < addr then (unat (addr - startalign), ws - sint (addr - startalign)) else (0, ws)) in
      (start, if startalign + cxx_int ws > endaddr then chunk_size - sint (startalign + cxx_int ws - endaddr)
              else chunk_size))"

partial_function (option) get_page_loop ::
  "i32 \<Rightarrow> bool \<Rightarrow> (u64 \<Rightarrow> u64 run) \<Rightarrow> u64 \<Rightarrow> u64 \<Rightarrow> u64 \<Rightarrow> u64 \<Rightarrow> u8 list \<Rightarrow> nat \<Rightarrow> u8 list run" where
  "get_page_loop ws bswap fnd addr endaddr endalign startalign res position =
     (case fnd startalign of
        None \<Rightarrow> None
      | Some (Inl e) \<Rightarrow> Some (Inl e)
      | Some (Inr curval) \<Rightarrow>
          let bytes = le_bytes 8 (if bswap then byte_swap curval ws else curval);
              (start, chunk_size) = word_chunk ws addr endaddr startalign;
              count = nat chunk_size in
          case (if chunk_size > 0 then run_bind (slice bytes start count) (copy_slice res position) else ok res) of
            None \<Rightarrow> None
          | Some (Inl e) \<Rightarrow> Some (Inl e)
          | Some (Inr res') \<Rightarrow>
              let next_align = startalign + cxx_int ws in
              if next_align = endalign then ok res'
              else get_page_loop ws bswap fnd addr endaddr endalign next_align res' (position + count))"

declare get_page_loop.simps [code]

definition page_bounds :: "i32 \<Rightarrow> u64 \<Rightarrow> i32 \<Rightarrow> i32 \<Rightarrow> u64 \<times> u64 \<times> u64" where
  "page_bounds ws addr skip sz =
     (let alignmask = align_mask ws;
          ptraddr = addr + cxx_int skip;
          endaddr = ptraddr + cxx_int sz;
          startalign = ptraddr AND NOT alignmask;
          endalign = endaddr AND NOT alignmask in
      (endaddr, startalign, if endaddr AND alignmask \<noteq> 0 then endalign + cxx_int ws else endalign))"

definition default_get_page ::
  "bank_base \<Rightarrow> (u64 \<Rightarrow> u64 run) \<Rightarrow> u64 \<Rightarrow> u8 list \<Rightarrow> i32 \<Rightarrow> i32 \<Rightarrow> u8 list run" where
  "default_get_page b fnd addr res skip sz =
     (case page_bounds (wordsize b) addr skip sz of (endaddr, startalign, endalign) \<Rightarrow>
        get_page_loop (wordsize b) (big_endian b) fnd addr endaddr endalign startalign res 0)"

text \<open>The word that \<open>set_page\<close> stores at \<open>startalign\<close>.\<close>

definition set_page_word ::
  "i32 \<Rightarrow> u64 run \<Rightarrow> nat \<Rightarrow> int \<Rightarrow> u8 list \<Rightarrow> nat \<Rightarrow> u64 run" where
  "set_page_word ws found start chunk_size val position =
     (let count = nat chunk_size in
      if chunk_size \<noteq> ws then
        run_bind found (\<lambda>curval.
        run_bind (slice val position count) (\<lambda>src.
        run_bind (copy_slice (le_bytes 8 curval) start src) (\<lambda>bytes. ok (le_value bytes))))
      else let available = min (length val - position) 8 in
        run_bind (slice val position available) (\<lambda>src.
        run_bind (copy_slice (replicate 8 0) 0 src) (\<lambda>bytes. ok (le_value bytes))))"

partial_function (option) set_page_loop ::
  "i32 \<Rightarrow> bool \<Rightarrow> ('b \<Rightarrow> u64 \<Rightarrow> u64 run) \<Rightarrow> ('b \<Rightarrow> u64 \<Rightarrow> u64 \<Rightarrow> 'b \<times> unit run) \<Rightarrow> u64 \<Rightarrow> u64 \<Rightarrow> u64 \<Rightarrow> u64
    \<Rightarrow> u8 list \<Rightarrow> nat \<Rightarrow> 'b \<Rightarrow> ('b \<times> (fault + unit)) option" where
  "set_page_loop ws bswap fnd ins addr endaddr endalign startalign val position bank =
     (let (start, chunk_size) = word_chunk ws addr endaddr startalign in
      case set_page_word ws (fnd bank startalign) start chunk_size val position of
        None \<Rightarrow> None
      | Some (Inl e) \<Rightarrow> Some (bank, Inl e)
      | Some (Inr curval) \<Rightarrow>
          (case ins bank startalign (if bswap then byte_swap curval ws else curval) of (bank', r) \<Rightarrow>
             case r of
               None \<Rightarrow> None
             | Some (Inl e) \<Rightarrow> Some (bank', Inl e)
             | Some (Inr _) \<Rightarrow>
                 let next_align = startalign + cxx_int ws in
                 if next_align = endalign then Some (bank', Inr ())
                 else set_page_loop ws bswap fnd ins addr endaddr endalign next_align val
                        (position + nat (max chunk_size 0)) bank'))"

declare set_page_loop.simps [code]

text \<open>A run of the loop that does not end leaves no state to observe.\<close>

definition default_set_page ::
  "bank_base \<Rightarrow> ('b \<Rightarrow> u64 \<Rightarrow> u64 run) \<Rightarrow> ('b \<Rightarrow> u64 \<Rightarrow> u64 \<Rightarrow> 'b \<times> unit run) \<Rightarrow> 'b \<Rightarrow> u64 \<Rightarrow> u8 list \<Rightarrow> i32 \<Rightarrow> i32
    \<Rightarrow> 'b \<times> unit run" where
  "default_set_page b fnd ins bank addr val skip sz =
     (case page_bounds (wordsize b) addr skip sz of (endaddr, startalign, endalign) \<Rightarrow>
        case set_page_loop (wordsize b) (big_endian b) fnd ins addr endaddr endalign startalign val 0 bank of
          None \<Rightarrow> (bank, None)
        | Some (bank', r) \<Rightarrow> (bank', Some r))"

section \<open>Default methods: values\<close>

definition set_value ::
  "bank_base \<Rightarrow> ('b \<Rightarrow> u64 \<Rightarrow> u64 run) \<Rightarrow> ('b \<Rightarrow> u64 \<Rightarrow> u64 \<Rightarrow> 'b \<times> unit run) \<Rightarrow> 'b \<Rightarrow> u64 \<Rightarrow> i32 \<Rightarrow> u64 \<Rightarrow> 'b \<times> unit run" where
  "set_value b fnd ins bank offset sz val =
     (let ws = wordsize b; alignmask = align_mask ws;
          ind = offset AND NOT alignmask;
          ind2 = ind + cxx_int ws;
          skip = wrap_i32 (uint (offset AND alignmask));
          size1 = ws - skip in
      if sz > size1 then
        let size2 = sz - size1; gap = (ws - size2) * 8 in
        state_bind (bank, fnd bank ind) (\<lambda>bank val1.
        state_bind (bank, fnd bank ind2) (\<lambda>bank val2.
          if big_endian b then
            state_bind (ins bank ind ((val1 AND wshl (NOT 0) (8 * size1)) OR wshr val (8 * size2))) (\<lambda>bank _.
            ins bank ind2 ((val2 AND wshr (NOT 0) (8 * size2)) OR wshl val gap))
          else
            state_bind (ins bank ind ((val1 AND wshr (NOT 0) (8 * size1)) OR wshl val (skip * 8))) (\<lambda>bank _.
            ins bank ind2 ((val2 AND wshl (NOT 0) (8 * size2)) OR wshr val (8 * size1)))))
      else if sz = ws then ins bank ind val
      else
        let gap = (size1 - sz) * 8; sa = (if big_endian b then gap else skip * 8) in
        state_bind (bank, fnd bank ind) (\<lambda>bank val1.
          ins bank ind ((val1 AND NOT (wshl (calc_mask sz) sa)) OR wshl val sa)))"

definition get_value :: "bank_base \<Rightarrow> ('b \<Rightarrow> u64 \<Rightarrow> u64 run) \<Rightarrow> 'b \<Rightarrow> u64 \<Rightarrow> i32 \<Rightarrow> u64 run" where
  "get_value b fnd bank offset sz =
     (let ws = wordsize b; alignmask = align_mask ws;
          ind = offset AND NOT alignmask;
          skip = wrap_i32 (uint (offset AND alignmask));
          size1 = ws - skip in
      if sz > size1 then
        let size2 = sz - size1; gap = ws - size2 in
        run_bind (fnd bank ind) (\<lambda>val1.
        run_bind (fnd bank (ind + cxx_int ws)) (\<lambda>val2.
          ok ((if big_endian b then wshl val1 (8 * size2) OR wshr val2 (8 * gap)
               else wshr val1 (skip * 8) OR wshl val2 (size1 * 8)) AND calc_mask sz)))
      else
        run_bind (fnd bank ind) (\<lambda>val1.
          if sz = ws then ok val1
          else let gap = size1 - sz in
            ok (wshr val1 (if big_endian b then 8 * gap else skip * 8) AND calc_mask sz)))"

section \<open>Default methods: chunks\<close>

text \<open>The page, the offset within it and the byte count of the next step of a chunk.\<close>

definition chunk_step :: "i32 \<Rightarrow> u64 \<Rightarrow> i32 \<Rightarrow> i32 \<Rightarrow> u64 \<times> i32 \<times> i32" where
  "chunk_step ps offset sz count =
     (let offalign = offset AND NOT (align_mask ps);
          skip = (if offalign \<noteq> offset then wrap_i32 (uint (offset - offalign)) else 0);
          cursize = ps - skip in
      (offalign, skip, if sz - count < cursize then sz - count else cursize))"

partial_function (option) set_chunk_loop ::
  "i32 \<Rightarrow> ('b \<Rightarrow> u64 \<Rightarrow> u8 list \<Rightarrow> i32 \<Rightarrow> i32 \<Rightarrow> 'b \<times> unit run) \<Rightarrow> i32 \<Rightarrow> u8 list \<Rightarrow> u64 \<Rightarrow> i32 \<Rightarrow> 'b
    \<Rightarrow> ('b \<times> (fault + unit)) option" where
  "set_chunk_loop ps setp sz val offset count bank =
     (if count < sz then
        let (offalign, skip, cursize) = chunk_step ps offset sz count in
        if int (length val) < as_usize count then Some (bank, Inl Panic)
        else (case setp bank offalign (drop (nat count) val) skip cursize of (bank', r) \<Rightarrow>
          case r of
            None \<Rightarrow> None
          | Some (Inl e) \<Rightarrow> Some (bank', Inl e)
          | Some (Inr _) \<Rightarrow> set_chunk_loop ps setp sz val (offset + cxx_int cursize) (count + cursize) bank')
      else Some (bank, Inr ()))"

declare set_chunk_loop.simps [code]

definition set_chunk ::
  "bank_base \<Rightarrow> ('b \<Rightarrow> u64 \<Rightarrow> u8 list \<Rightarrow> i32 \<Rightarrow> i32 \<Rightarrow> 'b \<times> unit run) \<Rightarrow> 'b \<Rightarrow> u64 \<Rightarrow> i32 \<Rightarrow> u8 list \<Rightarrow> 'b \<times> unit run" where
  "set_chunk b setp bank offset sz val =
     (case set_chunk_loop (pagesize b) setp sz val offset 0 bank of
        None \<Rightarrow> (bank, None) | Some (bank', r) \<Rightarrow> (bank', Some r))"

partial_function (option) get_chunk_loop ::
  "i32 \<Rightarrow> (u64 \<Rightarrow> u8 list \<Rightarrow> i32 \<Rightarrow> i32 \<Rightarrow> u8 list run) \<Rightarrow> i32 \<Rightarrow> u8 list \<Rightarrow> u64 \<Rightarrow> i32 \<Rightarrow> u8 list run" where
  "get_chunk_loop ps getp sz res offset count =
     (if count < sz then
        let (offalign, skip, cursize) = chunk_step ps offset sz count in
        if int (length res) < as_usize count then panic
        else (case getp offalign (drop (nat count) res) skip cursize of
            None \<Rightarrow> None
          | Some (Inl e) \<Rightarrow> Some (Inl e)
          | Some (Inr part) \<Rightarrow>
              get_chunk_loop ps getp sz (take (nat count) res @ part) (offset + cxx_int cursize) (count + cursize))
      else ok res)"

declare get_chunk_loop.simps [code]

definition get_chunk ::
  "bank_base \<Rightarrow> (u64 \<Rightarrow> u8 list \<Rightarrow> i32 \<Rightarrow> i32 \<Rightarrow> u8 list run) \<Rightarrow> u64 \<Rightarrow> i32 \<Rightarrow> u8 list \<Rightarrow> u8 list run" where
  "get_chunk b getp offset sz res = get_chunk_loop (pagesize b) getp sz res offset 0"

end
