(* ===== verification/Memory_State.thy ===== *)
theory Memory_State
  imports Memory_Bank
begin

text \<open>
  The implementations of \<open>MemoryBank\<close> in src/src/memstate.rs and \<open>MemoryState\<close>, which keeps one bank per
  address space.
\<close>

section \<open>The hash overlay's table\<close>

definition EMPTY_SLOT :: u64 where
  "EMPTY_SLOT = 0xBADBEEF"

text \<open>The probe loop that \<open>insert\<close> and \<open>find\<close> share: the first slot that holds the address or is empty.\<close>

fun hash_slot :: "u64 list \<Rightarrow> u64 \<Rightarrow> u64 \<Rightarrow> nat \<Rightarrow> u64 \<Rightarrow> u64 option" where
  "hash_slot tab skip addr 0 offset = None"
| "hash_slot tab skip addr (Suc n) offset =
     (if tab ! unat offset = addr \<or> tab ! unat offset = EMPTY_SLOT then Some offset
      else hash_slot tab skip addr n ((offset + skip) mod of_nat (length tab)))"

definition hash_probe :: "u64 list \<Rightarrow> i32 \<Rightarrow> u64 \<Rightarrow> u64 \<Rightarrow> u64 option" where
  "hash_probe tab alignshift skip addr =
     hash_slot tab skip addr (length tab) (drop_bit (nat alignshift) addr mod of_nat (length tab))"

function bit_count :: "u32 \<Rightarrow> i32" where
  "bit_count remaining = (if remaining \<noteq> 0 then bit_count (drop_bit 1 remaining) + 1 else 0)"
  by pat_completeness auto
termination
proof (relation "measure unat")
  fix remaining :: u32
  assume "remaining \<noteq> 0"
  then have "0 < unat remaining" by (simp add: unat_gt_0)
  then show "(drop_bit 1 remaining, remaining) \<in> measure unat"
    by (simp add: drop_bit_eq_div unat_div)
qed simp

declare bit_count.simps [simp del]

definition empty_hash_overlay :: "addr_space \<Rightarrow> i32 \<Rightarrow> i32 \<Rightarrow> nat \<Rightarrow> memory_bank option \<Rightarrow> memory_bank" where
  "empty_hash_overlay spc ws ps slots ul =
     MemoryHashOverlay \<lparr>wordsize = ws, pagesize = ps, bank_space = spc\<rparr> ul (bit_count (word_of_int ws - 1)) 1023
       (replicate slots EMPTY_SLOT) (replicate slots 0)"

text \<open>A negative size, taken for a \<open>usize\<close>, is above the capacity of any vector.\<close>

definition new_hash_overlay :: "addr_space \<Rightarrow> i32 \<Rightarrow> i32 \<Rightarrow> i32 \<Rightarrow> memory_bank option \<Rightarrow> memory_bank run" where
  "new_hash_overlay spc ws ps hashsize ul =
     (if hashsize < 0 then panic else ok (empty_hash_overlay spc ws ps (nat hashsize) ul))"

definition new_page_overlay :: "addr_space \<Rightarrow> i32 \<Rightarrow> i32 \<Rightarrow> memory_bank option \<Rightarrow> memory_bank" where
  "new_page_overlay spc ws ps ul =
     MemoryPageOverlay \<lparr>wordsize = ws, pagesize = ps, bank_space = spc\<rparr> ul (\<lambda>_. None)"

section \<open>Reading\<close>

definition image_load :: "loader \<Rightarrow> nat \<Rightarrow> u64 \<Rightarrow> u8 list run" where
  "image_load ld n addr =
     (case ld n addr of
        Inr bs \<Rightarrow> ok bs
      | Inl (DataUnavail _) \<Rightarrow> ok (replicate n 0)
      | Inl e \<Rightarrow> err e)"

definition image_find :: "bank_base \<Rightarrow> loader \<Rightarrow> u64 \<Rightarrow> u64 run" where
  [simp]: "image_find b ld addr =
     (if 8 < as_usize (wordsize b) then panic
      else run_bind (image_load ld (nat (wordsize b)) addr) (\<lambda>bs.
        let res = le_value (bs @ replicate (8 - nat (wordsize b)) 0) in
        ok (if big_endian b then byte_swap res (wordsize b) else res)))"

text \<open>The overlays take what the bank below answers as their last argument.\<close>

definition page_overlay_find :: "bank_base \<Rightarrow> (u64 \<rightharpoonup> u8 list) \<Rightarrow> u64 \<Rightarrow> u64 run \<Rightarrow> u64 run" where
  [simp]: "page_overlay_find b page addr below =
     (let pagemask = align_mask (pagesize b) in
      case page (addr AND NOT pagemask) of
        None \<Rightarrow> below
      | Some pagedata \<Rightarrow>
          if length pagedata < unat (addr AND pagemask) then panic
          else construct_value (drop (unat (addr AND pagemask)) pagedata) (wordsize b) (big_endian b))"

definition hash_overlay_find :: "i32 \<Rightarrow> u64 \<Rightarrow> u64 list \<Rightarrow> u64 list \<Rightarrow> u64 \<Rightarrow> u64 run \<Rightarrow> u64 run" where
  [simp]: "hash_overlay_find alignshift skip tab vals addr below =
     (if tab = [] then panic
      else case hash_probe tab alignshift skip addr of
        Some off \<Rightarrow> if tab ! unat off = addr then ok (vals ! unat off) else below
      | None \<Rightarrow> below)"

fun bank_find :: "memory_bank \<Rightarrow> u64 \<Rightarrow> u64 run" where
  "bank_find (MemoryImage b ld) addr = image_find b ld addr"
| "bank_find (MemoryPageOverlay b ul page) addr =
     page_overlay_find b page addr (case ul of None \<Rightarrow> ok 0 | Some u \<Rightarrow> bank_find u addr)"
| "bank_find (MemoryHashOverlay b ul alignshift skip tab vals) addr =
     hash_overlay_find alignshift skip tab vals addr (case ul of None \<Rightarrow> ok 0 | Some u \<Rightarrow> bank_find u addr)"

definition image_get_page :: "loader \<Rightarrow> u64 \<Rightarrow> u8 list \<Rightarrow> i32 \<Rightarrow> i32 \<Rightarrow> u8 list run" where
  [simp]: "image_get_page ld addr res skip sz =
     (if int (length res) < as_usize sz then panic
      else run_bind (image_load ld (nat sz) (addr + cxx_int skip)) (copy_slice res 0))"

definition zero_fill :: "u8 list \<Rightarrow> i32 \<Rightarrow> u8 list run" where
  [simp]: "zero_fill res sz =
     (if int (length res) < as_usize sz then panic else copy_slice res 0 (replicate (nat sz) 0))"

definition page_overlay_get_page ::
  "(u64 \<rightharpoonup> u8 list) \<Rightarrow> u64 \<Rightarrow> u8 list \<Rightarrow> i32 \<Rightarrow> i32 \<Rightarrow> u8 list run \<Rightarrow> u8 list run" where
  [simp]: "page_overlay_get_page page addr res skip sz below =
     (case page addr of
        None \<Rightarrow> below
      | Some pagedata \<Rightarrow>
          if skip < 0 \<or> sz < 0 then panic
          else run_bind (slice pagedata (nat skip) (nat sz)) (copy_slice res 0))"

fun get_page :: "memory_bank \<Rightarrow> u64 \<Rightarrow> u8 list \<Rightarrow> i32 \<Rightarrow> i32 \<Rightarrow> u8 list run" where
  "get_page (MemoryImage b ld) addr res skip sz = image_get_page ld addr res skip sz"
| "get_page (MemoryPageOverlay b ul page) addr res skip sz =
     page_overlay_get_page page addr res skip sz
       (case ul of None \<Rightarrow> zero_fill res sz | Some u \<Rightarrow> get_page u addr res skip sz)"
| "get_page (MemoryHashOverlay b ul alignshift collideskip tab vals) addr res skip sz =
     default_get_page b (bank_find (MemoryHashOverlay b ul alignshift collideskip tab vals)) addr res skip sz"

section \<open>Writing\<close>

definition read_only :: error where
  "read_only = Lowlevel ''Writing to read-only MemoryBank''"

definition table_full :: error where
  "table_full = Lowlevel ''Memory state hash_table is full''"

text \<open>The contents of a page that is not in the overlay yet.\<close>

definition fresh_page :: "bank_base \<Rightarrow> memory_bank option \<Rightarrow> u64 \<Rightarrow> u8 list run" where
  "fresh_page b ul pageaddr =
     (if pagesize b < 0 then panic
      else let zeros = replicate (nat (pagesize b)) 0 in
        case ul of None \<Rightarrow> ok zeros | Some u \<Rightarrow> get_page u pageaddr zeros 0 (pagesize b))"

definition page_overlay_insert ::
  "bank_base \<Rightarrow> memory_bank option \<Rightarrow> (u64 \<rightharpoonup> u8 list) \<Rightarrow> u64 \<Rightarrow> u64 \<Rightarrow> memory_bank \<times> unit run" where
  [simp]: "page_overlay_insert b ul page addr val =
     (let pagemask = align_mask (pagesize b);
          pageaddr = addr AND NOT pagemask;
          pageoffset = unat (addr AND pagemask) in
      state_bind (MemoryPageOverlay b ul page,
          case page pageaddr of None \<Rightarrow> fresh_page b ul pageaddr | Some pagedata \<Rightarrow> ok pagedata) (\<lambda>_ pagedata.
        state_bind (MemoryPageOverlay b ul (page(pageaddr \<mapsto> pagedata)),
            if length pagedata < pageoffset then panic
            else deconstruct_value (drop pageoffset pagedata) val (wordsize b) (big_endian b)) (\<lambda>_ part.
          (MemoryPageOverlay b ul (page(pageaddr \<mapsto> take pageoffset pagedata @ part)), ok ()))))"

definition hash_overlay_insert ::
  "bank_base \<Rightarrow> memory_bank option \<Rightarrow> i32 \<Rightarrow> u64 \<Rightarrow> u64 list \<Rightarrow> u64 list \<Rightarrow> u64 \<Rightarrow> u64 \<Rightarrow> memory_bank \<times> unit run" where
  [simp]: "hash_overlay_insert b ul alignshift skip tab vals addr val =
     (if tab = [] then (MemoryHashOverlay b ul alignshift skip tab vals, panic)
      else case hash_probe tab alignshift skip addr of
        Some off \<Rightarrow>
          (MemoryHashOverlay b ul alignshift skip (tab[unat off := addr]) (vals[unat off := val]), ok ())
      | None \<Rightarrow> (MemoryHashOverlay b ul alignshift skip tab vals, err table_full))"

fun bank_insert :: "memory_bank \<Rightarrow> u64 \<Rightarrow> u64 \<Rightarrow> memory_bank \<times> unit run" where
  "bank_insert (MemoryImage b ld) addr val = (MemoryImage b ld, err read_only)"
| "bank_insert (MemoryPageOverlay b ul page) addr val = page_overlay_insert b ul page addr val"
| "bank_insert (MemoryHashOverlay b ul alignshift skip tab vals) addr val =
     hash_overlay_insert b ul alignshift skip tab vals addr val"

definition page_overlay_set_page ::
  "bank_base \<Rightarrow> memory_bank option \<Rightarrow> (u64 \<rightharpoonup> u8 list) \<Rightarrow> u64 \<Rightarrow> u8 list \<Rightarrow> i32 \<Rightarrow> i32 \<Rightarrow> memory_bank \<times> unit run" where
  [simp]: "page_overlay_set_page b ul page addr val skip sz =
     state_bind (MemoryPageOverlay b ul page,
         case page addr of
           None \<Rightarrow> fresh_page b (if sz \<noteq> pagesize b then ul else None) addr
         | Some pagedata \<Rightarrow> ok pagedata) (\<lambda>_ pagedata.
       state_bind (MemoryPageOverlay b ul (page(addr \<mapsto> pagedata)),
           if skip < 0 \<or> sz < 0 then panic
           else run_bind (slice val 0 (nat sz)) (copy_slice pagedata (nat skip))) (\<lambda>_ pagedata'.
         (MemoryPageOverlay b ul (page(addr \<mapsto> pagedata')), ok ())))"

fun set_page :: "memory_bank \<Rightarrow> u64 \<Rightarrow> u8 list \<Rightarrow> i32 \<Rightarrow> i32 \<Rightarrow> memory_bank \<times> unit run" where
  "set_page (MemoryPageOverlay b ul page) addr val skip sz = page_overlay_set_page b ul page addr val skip sz"
| "set_page bank addr val skip sz = default_set_page (base bank) bank_find bank_insert bank addr val skip sz"

section \<open>Memory state\<close>

text \<open>The register names of the translator, which is a parameter.\<close>

type_synonym registers = "string \<Rightarrow> varnode_data result"

type_synonym memory_state = "memory_bank option list"

definition put_bank :: "memory_state \<Rightarrow> nat \<Rightarrow> memory_bank \<Rightarrow> memory_state" where
  "put_bank st i bank = (st @ replicate (Suc i - length st) None)[i := Some bank]"

text \<open>A negative index of a space, taken for a \<open>usize\<close>, is above the length of any vector: there is no bank for
  it, and the loop that makes room for one exceeds the capacity.\<close>

definition set_memory_bank :: "memory_state \<Rightarrow> memory_bank \<Rightarrow> memory_state run" where
  "set_memory_bank st bank =
     (let i = as_index (bank_space (base bank)) in if i < 0 then panic else ok (put_bank st (nat i) bank))"

definition get_memory_bank :: "memory_state \<Rightarrow> addr_space \<Rightarrow> memory_bank option" where
  "get_memory_bank st spc =
     (let i = as_index spc in if 0 \<le> i \<and> nat i < length st then st ! nat i else None)"

text \<open>Running a method on the bank of a space puts the changed bank back into its slot.\<close>

definition with_bank ::
  "memory_state \<Rightarrow> addr_space \<Rightarrow> string \<Rightarrow> (memory_bank \<Rightarrow> memory_bank \<times> 'a run) \<Rightarrow> memory_state \<times> 'a run" where
  "with_bank st spc msg f =
     (case get_memory_bank st spc of
        None \<Rightarrow> (st, err (Lowlevel (msg @ as_name spc)))
      | Some bank \<Rightarrow> (case f bank of (bank', r) \<Rightarrow> (st[nat (as_index spc) := Some bank'], r)))"

definition state_set_value :: "memory_state \<Rightarrow> addr_space \<Rightarrow> u64 \<Rightarrow> i32 \<Rightarrow> u64 \<Rightarrow> memory_state \<times> unit run" where
  "state_set_value st spc off sz cval =
     with_bank st spc ''Setting value for unmapped memory space: ''
       (\<lambda>bank. set_value (base bank) bank_find bank_insert bank off sz cval)"

definition state_get_value :: "memory_state \<Rightarrow> addr_space \<Rightarrow> u64 \<Rightarrow> i32 \<Rightarrow> u64 run" where
  "state_get_value st spc off sz =
     (if as_type spc = Constant then ok off
      else snd (with_bank st spc ''Getting value from unmapped memory space: ''
        (\<lambda>bank. (bank, get_value (base bank) bank_find bank off sz))))"

definition set_value_varnode :: "memory_state \<Rightarrow> varnode_data \<Rightarrow> u64 \<Rightarrow> memory_state \<times> unit run" where
  "set_value_varnode st vn cval =
     (case vd_space vn of
        None \<Rightarrow> (st, panic)
      | Some spc \<Rightarrow> state_set_value st spc (vd_offset vn) (wrap_i32 (uint (vd_size vn))) cval)"

definition get_value_varnode :: "memory_state \<Rightarrow> varnode_data \<Rightarrow> u64 run" where
  "get_value_varnode st vn =
     (case vd_space vn of
        None \<Rightarrow> panic
      | Some spc \<Rightarrow> state_get_value st spc (vd_offset vn) (wrap_i32 (uint (vd_size vn))))"

definition set_value_by_name :: "registers \<Rightarrow> memory_state \<Rightarrow> string \<Rightarrow> u64 \<Rightarrow> memory_state \<times> unit run" where
  "set_value_by_name regs st nm cval =
     (case regs nm of Inl e \<Rightarrow> (st, err e) | Inr vdata \<Rightarrow> set_value_varnode st vdata cval)"

definition get_value_by_name :: "registers \<Rightarrow> memory_state \<Rightarrow> string \<Rightarrow> u64 run" where
  "get_value_by_name regs st nm =
     (case regs nm of Inl e \<Rightarrow> err e | Inr vdata \<Rightarrow> get_value_varnode st vdata)"

definition state_get_chunk :: "memory_state \<Rightarrow> u8 list \<Rightarrow> addr_space \<Rightarrow> u64 \<Rightarrow> i32 \<Rightarrow> u8 list run" where
  "state_get_chunk st res spc off sz =
     snd (with_bank st spc ''Getting chunk from unmapped memory space: ''
       (\<lambda>bank. (bank, get_chunk (base bank) (get_page bank) off sz res)))"

definition state_set_chunk :: "memory_state \<Rightarrow> u8 list \<Rightarrow> addr_space \<Rightarrow> u64 \<Rightarrow> i32 \<Rightarrow> memory_state \<times> unit run" where
  "state_set_chunk st val spc off sz =
     with_bank st spc ''Setting chunk of unmapped memory space: ''
       (\<lambda>bank. set_chunk (base bank) set_page bank off sz val)"

end
