(* ===== verification/Memory_Refine.thy ===== *)
theory Memory_Refine
  imports Memory_State
begin

text \<open>
  The abstract memory: a byte per address. The locale \<open>word_store\<close> is the contract between the default
  methods of \<open>MemoryBank\<close> and an implementation with eight-byte words; in it, \<open>get_value\<close> and \<open>set_value\<close>
  are shown to read and write bytes, at any alignment, across word boundaries, in both byte orders. The
  page overlay and the hash overlay are its instances.
\<close>

section \<open>Bytes of a word\<close>

definition byte_at :: "u64 \<Rightarrow> nat \<Rightarrow> u8" where
  "byte_at w i = ucast (drop_bit (8 * i) w)"

text \<open>The byte of a word at position \<open>m\<close> in memory.\<close>

definition word_byte :: "bool \<Rightarrow> u64 \<Rightarrow> nat \<Rightarrow> u8" where
  "word_byte be w m = byte_at w (if be then 7 - m else m)"

lemma bit_byte_at: "bit (byte_at w i) n \<longleftrightarrow> n < 8 \<and> bit w (8 * i + n)"
  by (simp add: byte_at_def bit_ucast_iff bit_u64_drop add.commute eval_nat_numeral)

lemma byte_at_eqI: "(\<And>n. n < 8 \<Longrightarrow> bit v (8 * i + n) = bit w (8 * j + n)) \<Longrightarrow> byte_at v i = byte_at w j"
  by (rule bit_word_eqI) (simp add: bit_byte_at)

lemma u64_bytes_eqI:
  assumes "\<And>i. i < 8 \<Longrightarrow> byte_at v i = byte_at w i"
  shows "v = w"
proof (rule u64_bit_eqI)
  fix n :: nat
  assume "n < 64"
  then have "n div 8 < 8" by simp
  from arg_cong [OF assms [OF this], of "\<lambda>x. bit x (n mod 8)"] show "bit v n = bit w n"
    by (simp add: bit_byte_at)
qed

lemma le_bytes_length [simp]: "length (le_bytes n v) = n"
  by (induction n arbitrary: v) simp_all

lemma byte_at_drop: "byte_at (drop_bit 8 v) i = byte_at v (Suc i)"
  by (rule byte_at_eqI) (simp add: bit_u64_drop add.commute add.left_commute)

lemma le_bytes_nth: "i < n \<Longrightarrow> le_bytes n v ! i = byte_at v i"
proof (induction n arbitrary: v i)
  case (Suc n)
  have "v AND 0xff = take_bit 8 v" using and_mask_eq_take [of v 8] by (simp add: mask_eq_exp_minus_1)
  then have "ucast (v AND 0xff) = byte_at v 0"
    by (intro bit_word_eqI) (auto simp: bit_byte_at bit_ucast_iff bit_u64_take)
  then show ?case using Suc by (cases i) (simp_all add: byte_at_drop)
qed simp

lemma le_bytes_eq: "le_bytes n v = map (byte_at v) [0..<n]"
  by (rule nth_equalityI) (simp_all add: le_bytes_nth)

lemma foldl_bytes_bit:
  "bit (foldl (\<lambda>res b. push_bit 8 res + ucast b) acc (bs :: u8 list) :: u64) n \<longleftrightarrow>
     (if n < 8 * length bs then n < 64 \<and> bit (bs ! (length bs - 1 - n div 8)) (n mod 8)
      else n < 64 \<and> bit acc (n - 8 * length bs))"
proof (induction bs arbitrary: acc)
  case (Cons b bs)
  have b: "\<not> bit b m" if "8 \<le> m" for m using that bit_imp_le_length [of b m] by auto
  have add: "push_bit 8 acc + ucast b = (push_bit 8 acc OR ucast b :: u64)"
    by (rule disjunctive_add) (auto simp: bit_u64_push bit_ucast_iff dest: b)
  have acc: "bit (push_bit 8 acc OR ucast b :: u64) m \<longleftrightarrow> m < 64 \<and> (if m < 8 then bit b m else bit acc (m - 8))" for m
    using b [of m] by (auto simp: bit_or_iff bit_u64_push bit_ucast_iff)
  show ?case
  proof (cases "n < 8 * length bs")
    case True
    then have "n div 8 < length bs" by auto
    then have "length (b # bs) - 1 - n div 8 = Suc (length bs - 1 - n div 8)" by simp
    then show ?thesis using True by (simp add: Cons.IH del: length_Cons)
  next
    case False
    define m where "m = n - 8 * length bs"
    have n: "n - 8 * length bs = m" "n = 8 * length bs + m" using False by (simp_all add: m_def)
    show ?thesis
    proof (cases "m < 8")
      case True
      then have "n div 8 = length bs" "n mod 8 = m" "n < 8 * length (b # bs)" "m < 64" using n(2) by simp_all
      then show ?thesis using True False n(1) by (auto simp: Cons.IH add acc)
    next
      case f: False
      then have "\<not> n < 8 * length (b # bs)" "n - 8 * length (b # bs) = m - 8" "m < 64 \<or> \<not> n < 64" using n by auto
      then show ?thesis using f False by (auto simp: Cons.IH n(1) add acc)
    qed
  qed
qed (auto dest: bit_u64_lt)

lemma le_value_push: "le_value bs = foldl (\<lambda>res b. push_bit 8 res + ucast b) 0 (rev bs)"
  by (simp add: le_value_def)

lemma byte_at_le_value: "length bs \<le> 8 \<Longrightarrow> byte_at (le_value bs) i = (if i < length bs then bs ! i else 0)"
proof (rule bit_word_eqI)
  fix n :: nat
  assume "length bs \<le> 8" "n < LENGTH(8)"
  then have n: "n < 8" by simp
  show "bit (byte_at (le_value bs) i) n = bit (if i < length bs then bs ! i else 0) n"
    using n \<open>length bs \<le> 8\<close> unfolding bit_byte_at le_value_push foldl_bytes_bit by (auto simp: rev_nth)
qed

lemma be_value_rev: "be_value bs = le_value (rev bs)"
  by (simp add: be_value_def le_value_def)

lemma le_value_le_bytes:
  assumes "n \<le> 8"
  shows "le_value (le_bytes n v) = take_bit (8 * n) v"
proof (rule u64_bytes_eqI)
  fix i :: nat
  show "byte_at (le_value (le_bytes n v)) i = byte_at (take_bit (8 * n) v) i"
  proof (cases "i < n")
    case True
    then show ?thesis using assms
      by (simp add: byte_at_le_value le_bytes_nth) (rule byte_at_eqI, simp add: bit_u64_take)
  next
    case False
    then show ?thesis using assms
      by (simp add: byte_at_le_value) (rule bit_word_eqI, simp add: bit_byte_at bit_u64_take)
  qed
qed

section \<open>Addresses\<close>

declare bit_numeral_word_iff [simp del] bit_neg_numeral_word_iff [simp del]

definition aligned :: "u64 \<Rightarrow> bool" where
  "aligned a \<longleftrightarrow> a AND 7 = 0"

definition word_index :: "u64 \<Rightarrow> u64" where
  "word_index a = a AND NOT 7"

definition byte_index :: "u64 \<Rightarrow> nat" where
  "byte_index a = unat (a AND 7)"

lemma and_7: "a AND 7 = take_bit 3 (a :: u64)"
  using and_mask_eq_take [of a 3] by (simp add: mask_eq_exp_minus_1)

lemma byte_index_lt: "byte_index a < 8"
proof -
  have "unat (a AND 7) = take_bit 3 (unat a)" by (simp add: and_7 unsigned_take_bit_eq)
  then show ?thesis using take_bit_nat_less_exp [of 3 "unat a"] by (simp add: byte_index_def)
qed

lemma bit_7: "bit (7 :: u64) n \<longleftrightarrow> n < 3"
proof -
  have "(7 :: u64) = mask 3" by (simp add: mask_eq_exp_minus_1)
  then show ?thesis by (simp only: bit_u64_mask) auto
qed

lemma bit_minus_8: "bit (- 8 :: u64) n \<longleftrightarrow> n < 64 \<and> \<not> n < 3"
proof -
  have "(- 8 :: u64) = NOT 7" by simp
  then show ?thesis by (simp only: bit_not_iff bit_7) (simp add: possible_bit_def)
qed

lemma aligned_word_index [simp]: "aligned (word_index a)"
  unfolding aligned_def word_index_def by (rule bit_word_eqI) (auto simp: bit_and_iff bit_minus_8 bit_7)

lemma aligned_uint: "aligned a \<longleftrightarrow> uint a mod 8 = 0"
  by (simp add: aligned_def and_7 word_uint_eq_iff unsigned_take_bit_eq take_bit_eq_mod uint_mod)

lemma aligned_next: "aligned i \<Longrightarrow> aligned (i + 8)"
proof -
  assume "aligned i"
  then have "(uint i + 8) mod 8 = 0" by (simp add: aligned_uint)
  then have "(uint i + 8) mod 2 ^ 64 mod 8 = 0" by (simp add: mod_mod_cancel)
  then show "aligned (i + 8)" by (simp add: aligned_uint uint_word_ariths)
qed

lemma addr_split: "a = word_index a + of_nat (byte_index a)"
proof -
  have "word_index a + (a AND 7) = word_index a OR (a AND 7)"
    by (rule disjunctive_add) (auto simp: word_index_def bit_and_iff bit_minus_8 bit_7)
  also have "\<dots> = a" by (rule u64_bit_eqI) (auto simp: word_index_def bit_or_iff bit_and_iff bit_minus_8 bit_7)
  finally show ?thesis by (simp add: byte_index_def)
qed

lemma index_of_aligned:
  assumes "aligned i" "m < 8"
  shows "word_index (i + of_nat m) = i" "byte_index (i + of_nat m) = m"
proof -
  have low: "\<not> bit i n" if "n < 3" for n
    using assms(1) that unfolding aligned_def by (metis bit_0_eq bit_7 bit_and_iff bot_apply bot_bool_def)
  have m: "(of_nat m :: u64) = take_bit 3 (of_nat m)"
  proof -
    have "take_bit 3 m = m" using assms(2) by (simp add: take_bit_nat_eq_self_iff)
    then show ?thesis by (metis take_bit_of_nat)
  qed
  then have mb: "n < 3" if "bit (of_nat m :: u64) n" for n using that by (metis bit_u64_take)
  have add: "i + of_nat m = i OR of_nat m" by (rule disjunctive_add) (use low mb in blast)
  show "word_index (i + of_nat m) = i"
    unfolding add word_index_def by (rule u64_bit_eqI) (use low mb in \<open>auto simp: bit_and_iff bit_or_iff bit_minus_8 bit_7\<close>)
  have "(i + of_nat m) AND 7 = of_nat m"
    unfolding add by (rule u64_bit_eqI) (use low mb in \<open>auto simp: bit_and_iff bit_or_iff bit_7\<close>)
  then show "byte_index (i + of_nat m) = m" using assms(2) by (simp add: byte_index_def unsigned_of_nat take_bit_nat_eq_self_iff)
qed

text \<open>Where the bytes of an access lie: in the word of its first byte or in the next one.\<close>

lemma index_of_offset:
  fixes off :: u64
  assumes "j < 8"
  defines "k \<equiv> byte_index off"
  shows "word_index (off + of_nat j) = (if k + j < 8 then word_index off else word_index off + 8)"
    "byte_index (off + of_nat j) = (if k + j < 8 then k + j else k + j - 8)"
proof -
  have k: "k < 8" unfolding k_def by (rule byte_index_lt)
  have off: "off + of_nat j = word_index off + of_nat (k + j)"
    by (subst addr_split [of off]) (simp add: k_def)
  have lo: "word_index (off + of_nat j) = word_index off \<and> byte_index (off + of_nat j) = k + j" if "k + j < 8"
    using that index_of_aligned [of "word_index off" "k + j"] by (simp only: off aligned_word_index)
  have hi: "word_index (off + of_nat j) = word_index off + 8 \<and> byte_index (off + of_nat j) = k + j - 8" if "\<not> k + j < 8"
  proof -
    have "off + of_nat j = (word_index off + 8) + of_nat (k + j - 8)" using off that by (simp add: of_nat_diff)
    moreover have "k + j - 8 < 8" using k assms(1) by simp
    ultimately show ?thesis
      using index_of_aligned [OF aligned_next [of "word_index off"], of "k + j - 8"] by (simp only: aligned_word_index)
  qed
  show "word_index (off + of_nat j) = (if k + j < 8 then word_index off else word_index off + 8)"
    "byte_index (off + of_nat j) = (if k + j < 8 then k + j else k + j - 8)"
    using lo hi by auto
qed

section \<open>Words after a write\<close>

text \<open>
  \<open>k\<close> is the position of the first byte in its word, \<open>n\<close> the number of bytes; a value of \<open>n\<close> bytes has
  no bit at \<open>8 * n\<close> or above. The lemmas give the bytes of the words that \<open>set_value\<close> stores.
\<close>

lemma write_inside:
  assumes "0 < n" "k + n \<le> 8" "n < 8" "m < 8" "\<And>i. bit val i \<Longrightarrow> i < 8 * n"
  shows "byte_at ((w AND NOT (push_bit (8 * k) (mask (8 * n)))) OR push_bit (8 * k) val) m =
    (if k \<le> m \<and> m < k + n then byte_at val (m - k) else byte_at w m)"
proof (rule bit_word_eqI)
  fix j :: nat
  assume "j < LENGTH(8)"
  then have j: "j < 8" by simp
  have p: "8 * k \<le> 8 * m + j \<longleftrightarrow> k \<le> m" "8 * m + j - 8 * k < 8 * n \<longleftrightarrow> m < k + n" if "k \<le> m" using that j by auto
  have q: "8 * k \<le> 8 * m + j \<longleftrightarrow> k \<le> m" using j by auto
  have v: "bit val (8 * m + j - 8 * k) \<Longrightarrow> k \<le> m \<Longrightarrow> m < k + n" using assms(5) j by fastforce
  show "bit (byte_at ((w AND NOT (push_bit (8 * k) (mask (8 * n)))) OR push_bit (8 * k) val) m) j =
      bit (if k \<le> m \<and> m < k + n then byte_at val (m - k) else byte_at w m) j"
    using j assms(2-4) p q v
    by (auto simp: bit_byte_at bit_or_iff bit_and_iff bit_not_iff bit_u64_push bit_u64_mask possible_bit_def
        right_diff_distrib')
qed

lemma ones_shifted:
  "k \<le> 8 \<Longrightarrow> drop_bit (64 - 8 * k) (NOT 0 :: u64) = mask (8 * k)" "push_bit (8 * k) (NOT 0 :: u64) = NOT (mask (8 * k))"
  by (rule u64_bit_eqI; auto simp: bit_u64_push bit_u64_drop bit_not_iff possible_bit_def bit_u64_mask)+

lemma write_high:
  assumes "0 < k" "k < 8" "m < 8"
  shows "byte_at ((w AND mask (8 * k)) OR push_bit (8 * k) val) m =
    (if k \<le> m then byte_at val (m - k) else byte_at w m)"
proof (rule bit_word_eqI)
  fix j :: nat
  assume "j < LENGTH(8)"
  then have j: "j < 8" by simp
  have q: "8 * k \<le> 8 * m + j \<longleftrightarrow> k \<le> m" "8 * m + j < 8 * k \<longleftrightarrow> \<not> k \<le> m" using j assms by auto
  show "bit (byte_at ((w AND mask (8 * k)) OR push_bit (8 * k) val) m) j =
      bit (if k \<le> m then byte_at val (m - k) else byte_at w m) j"
    using j assms q
    by (auto simp: bit_byte_at bit_or_iff bit_and_iff bit_u64_push bit_u64_mask right_diff_distrib')
qed

lemma write_low:
  assumes "0 < k" "k < 8" "m < 8" "\<And>i. bit val i \<Longrightarrow> i < 8 * (d + k)"
  shows "byte_at ((w AND NOT (mask (8 * k))) OR drop_bit (8 * d) val) m =
    (if m < k then byte_at val (m + d) else byte_at w m)"
proof (rule bit_word_eqI)
  fix j :: nat
  assume "j < LENGTH(8)"
  then have j: "j < 8" by simp
  have q: "8 * m + j < 8 * k \<longleftrightarrow> m < k" "8 * m + j + 8 * d = 8 * (m + d) + j" using j by auto
  have v: "bit val (8 * (m + d) + j) \<Longrightarrow> m < k" using assms(4) j by fastforce
  show "bit (byte_at ((w AND NOT (mask (8 * k))) OR drop_bit (8 * d) val) m) j =
      bit (if m < k then byte_at val (m + d) else byte_at w m) j"
    using j assms(1-3) q(1) v unfolding bit_byte_at bit_or_iff bit_and_iff bit_u64_drop q(2) bit_not_iff
    by (auto simp: bit_byte_at bit_u64_mask possible_bit_def)
qed

section \<open>Words that a read joins\<close>

lemma read_inside:
  assumes "i < 8" "d \<le> 8"
  shows "byte_at (drop_bit (8 * d) a AND mask (8 * n)) i = (if i < n then byte_at a (i + d) else 0)"
proof (rule bit_word_eqI)
  fix j :: nat
  assume "j < LENGTH(8)"
  then have j: "j < 8" by simp
  have q: "8 * i + j < 8 * n \<longleftrightarrow> i < n" "8 * i + j + 8 * d = 8 * (i + d) + j" using j by auto
  show "bit (byte_at (drop_bit (8 * d) a AND mask (8 * n)) i) j = bit (if i < n then byte_at a (i + d) else 0) j"
    using j assms q(1) unfolding bit_byte_at bit_and_iff bit_u64_drop q(2) bit_u64_mask
    by (auto simp: bit_byte_at)
qed

lemma read_join:
  assumes "i < 8" "0 < d" "d < 8"
  shows "byte_at ((drop_bit (8 * d) a OR push_bit (8 * (8 - d)) c) AND mask (8 * n)) i =
    (if i < n then if i + d < 8 then byte_at a (i + d) else byte_at c (i + d - 8) else 0)"
proof (rule bit_word_eqI)
  fix j :: nat
  assume "j < LENGTH(8)"
  then have j: "j < 8" by simp
  have q: "8 * i + j < 8 * n \<longleftrightarrow> i < n" "8 * i + j + 8 * d = 8 * (i + d) + j"
    "8 * (8 - d) \<le> 8 * i + j \<longleftrightarrow> \<not> i + d < 8" using j assms by auto
  have r: "8 * i + j - 8 * (8 - d) = 8 * (i + d - 8) + j" if "\<not> i + d < 8" using that assms by auto
  have a: "\<not> bit a (8 * (i + d) + j)" if "\<not> i + d < 8" using that by simp
  show "bit (byte_at ((drop_bit (8 * d) a OR push_bit (8 * (8 - d)) c) AND mask (8 * n)) i) j =
      bit (if i < n then if i + d < 8 then byte_at a (i + d) else byte_at c (i + d - 8) else 0) j"
    using j assms r a unfolding bit_byte_at bit_and_iff bit_or_iff bit_u64_drop q(2) bit_u64_mask bit_u64_push q(3)
    by (auto simp: bit_byte_at q(1))
qed

section \<open>The contract of a store of words\<close>

definition word_at :: "('b \<Rightarrow> u64 \<Rightarrow> u64 run) \<Rightarrow> 'b \<Rightarrow> u64 \<Rightarrow> u64" where
  "word_at fnd s i = (case fnd s i of Some (Inr v) \<Rightarrow> v | _ \<Rightarrow> 0)"

text \<open>The byte of a bank at an address: the abstraction.\<close>

definition mem_byte :: "bool \<Rightarrow> ('b \<Rightarrow> u64 \<Rightarrow> u64 run) \<Rightarrow> 'b \<Rightarrow> u64 \<Rightarrow> u8" where
  "mem_byte be fnd s a = word_byte be (word_at fnd s (word_index a)) (byte_index a)"

text \<open>The bytes of a value of \<open>n\<close> bytes in memory order, and the value of bytes in memory order.\<close>

definition val_byte :: "bool \<Rightarrow> nat \<Rightarrow> u64 \<Rightarrow> nat \<Rightarrow> u8" where
  "val_byte be n val j = byte_at val (if be then n - 1 - j else j)"

definition bytes_value :: "bool \<Rightarrow> u8 list \<Rightarrow> u64" where
  "bytes_value be bs = (if be then be_value bs else le_value bs)"

lemma byte_at_bytes_value:
  "length bs \<le> 8 \<Longrightarrow> byte_at (bytes_value be bs) i =
     (if i < length bs then bs ! (if be then length bs - 1 - i else i) else 0)"
  by (simp add: bytes_value_def be_value_rev byte_at_le_value rev_nth)

lemma word_at_ok: "fnd s i = ok v \<Longrightarrow> word_at fnd s i = v"
  by (simp add: word_at_def ok_def)

locale word_store =
  fixes b :: bank_base and fnd :: "'b \<Rightarrow> u64 \<Rightarrow> u64 run" and ins :: "'b \<Rightarrow> u64 \<Rightarrow> u64 \<Rightarrow> 'b \<times> unit run"
    and inv :: "'b \<Rightarrow> bool"
  assumes ws: "inv s \<Longrightarrow> wordsize b = 8"
    and find_total: "inv s \<Longrightarrow> aligned i \<Longrightarrow> \<exists>v. fnd s i = ok v"
    and insert_inv: "inv s \<Longrightarrow> aligned i \<Longrightarrow> ins s i v = (s', ok ()) \<Longrightarrow> inv s'"
    and find_insert: "inv s \<Longrightarrow> aligned i \<Longrightarrow> ins s i v = (s', ok ()) \<Longrightarrow> aligned i' \<Longrightarrow>
      fnd s' i' = (if i' = i then ok v else fnd s i')"
begin

lemma find_word: "inv s \<Longrightarrow> aligned i \<Longrightarrow> fnd s i = ok (word_at fnd s i)"
  using find_total [of s i] word_at_ok by fastforce

lemma word_at_insert:
  "inv s \<Longrightarrow> aligned i \<Longrightarrow> ins s i v = (s', ok ()) \<Longrightarrow> aligned i' \<Longrightarrow>
     word_at fnd s' i' = (if i' = i then v else word_at fnd s i')"
  using find_insert [of s i v s' i'] by (simp add: word_at_def ok_def)

lemma align_mask_8: "align_mask 8 = 7"
  by (simp add: align_mask_def cxx_int_def)

lemma skip_index: "wrap_i32 (uint (off AND 7)) = int (byte_index off)"
proof -
  have "uint (off AND 7) = int (byte_index off)" by (simp add: byte_index_def)
  then show ?thesis using byte_index_lt [of off] by (simp add: wrap_i32_small)
qed

lemma mem_byte_offset:
  assumes "j < 8"
  shows "mem_byte be fnd s (off + of_nat j) =
    (if byte_index off + j < 8 then word_byte be (word_at fnd s (word_index off)) (byte_index off + j)
     else word_byte be (word_at fnd s (word_index off + 8)) (byte_index off + j - 8))"
  using index_of_offset [OF assms, of off] by (simp add: mem_byte_def)

lemma get_value_words:
  fixes off :: u64
  assumes "inv s" "1 \<le> n" "n \<le> 8"
  defines "k \<equiv> byte_index off"
    and "w1 \<equiv> word_at fnd s (word_index off)" and "w2 \<equiv> word_at fnd s (word_index off + 8)"
  shows "get_value b fnd s off (int n) =
    ok (if 8 < k + n then
          (if big_endian b then drop_bit (8 * (16 - n - k)) w2 OR push_bit (8 * (n + k - 8)) w1
           else drop_bit (8 * k) w1 OR push_bit (8 * (8 - k)) w2) AND mask (8 * n)
        else drop_bit (8 * (if big_endian b then 8 - k - n else k)) w1 AND mask (8 * n))"
proof -
  have k: "k < 8" unfolding k_def by (rule byte_index_lt)
  have al: "aligned (word_index off)" "aligned (word_index off + 8)" by (simp_all add: aligned_next)
  note f = find_word [OF assms(1) al(1), folded w1_def] find_word [OF assms(1) al(2), folded w2_def]
  have cm: "calc_mask (int n) = mask (8 * n)" using assms(2,3) calc_mask_eq [of "int n"] by (simp add: valid_size_def)
  have m64: "w AND mask 64 = w" for w :: u64 by (rule u64_bit_eqI) (simp add: bit_and_iff bit_u64_mask)
  have i: "off AND - 8 = word_index off" by (simp add: word_index_def)
  show ?thesis
  proof (cases "8 < k + n")
    case True
    then have e: "nat (8 * int n - (64 - 8 * int k)) = 8 * (n + k - 8)" "nat (64 - int k * 8) = 8 * (8 - k)"
      "nat (128 + (- (8 * int n) - 8 * int k)) = 8 * (16 - (n + k))" "nat (int k * 8) = 8 * k"
      using k assms(3) by auto
    show ?thesis
      using True f k assms(3)
      by (simp add: get_value_def Let_def ws [OF assms(1)] align_mask_8 skip_index i cm cxx_int_def k_def [symmetric] or.commute e)
  next
    case False
    then have e: "nat (64 - 8 * int k - 8 * int n) = 8 * (8 - (k + n))" "nat (int k * 8) = 8 * k" by auto
    show ?thesis
      using False f k assms(2,3) m64
      by (cases "n = 8") (simp_all add: get_value_def Let_def ws [OF assms(1)] align_mask_8 skip_index i cm cxx_int_def k_def [symmetric] e(1,2))
  qed
qed

lemma get_value_bytes:
  assumes "inv s" "1 \<le> n" "n \<le> 8"
  shows "get_value b fnd s off (int n) =
    ok (bytes_value (big_endian b) (map (\<lambda>j. mem_byte (big_endian b) fnd s (off + of_nat j)) [0..<n]))"
proof -
  define k where "k = byte_index off"
  have k: "k < 8" unfolding k_def by (rule byte_index_lt)
  show ?thesis
    unfolding get_value_words [OF assms, of off, folded k_def] run_simps
  proof (rule u64_bytes_eqI)
    fix i :: nat
    assume "i < 8"
    let ?w1 = "word_at fnd s (word_index off)" and ?w2 = "word_at fnd s (word_index off + 8)"
    have j: "mem_byte be fnd s (off + of_nat j) =
        (if k + j < 8 then word_byte be ?w1 (k + j) else word_byte be ?w2 (k + j - 8))" if "j < n" for j be
      using mem_byte_offset [of j be s off] that assms(3) by (simp add: k_def)
    show "byte_at (if 8 < k + n then
          (if big_endian b then drop_bit (8 * (16 - n - k)) ?w2 OR push_bit (8 * (n + k - 8)) ?w1
           else drop_bit (8 * k) ?w1 OR push_bit (8 * (8 - k)) ?w2) AND mask (8 * n)
        else drop_bit (8 * (if big_endian b then 8 - k - n else k)) ?w1 AND mask (8 * n)) i =
      byte_at (bytes_value (big_endian b) (map (\<lambda>j. mem_byte (big_endian b) fnd s (off + of_nat j)) [0..<n])) i"
    proof (cases "8 < k + n")
      case True
      have d: "8 - (16 - n - k) = n + k - 8" using True assms(3) k by simp
      show ?thesis
        using True \<open>i < 8\<close> k assms(2,3) read_join [OF \<open>i < 8\<close>, of "16 - n - k" ?w2 ?w1 n, unfolded d]
          read_join [OF \<open>i < 8\<close>, of k ?w1 ?w2 n]
        by (auto simp: byte_at_bytes_value j word_byte_def intro!: arg_cong [of _ _ "byte_at _"])
    next
      case False
      then show ?thesis
        using \<open>i < 8\<close> k assms(2,3) read_inside [OF \<open>i < 8\<close>, of "8 - k - n" ?w1 n] read_inside [OF \<open>i < 8\<close>, of k ?w1 n]
        by (auto simp: byte_at_bytes_value j word_byte_def intro!: arg_cong [of _ _ "byte_at _"])
    qed
  qed
qed

lemma set_value_words:
  fixes off :: u64
  assumes "inv s" "1 \<le> n" "n \<le> 8" "set_value b fnd ins s off (int n) val = (s', ok ())"
  defines "k \<equiv> byte_index off" and "i \<equiv> word_index off"
    and "w1 \<equiv> word_at fnd s (word_index off)" and "w2 \<equiv> word_at fnd s (word_index off + 8)"
  defines "v1 \<equiv> (if 8 < k + n then
      if big_endian b then (w1 AND NOT (mask (8 * (8 - k)))) OR drop_bit (8 * (n + k - 8)) val
      else (w1 AND mask (8 * k)) OR push_bit (8 * k) val
    else if n = 8 then val
    else (w1 AND NOT (push_bit (8 * (if big_endian b then 8 - k - n else k)) (mask (8 * n))))
      OR push_bit (8 * (if big_endian b then 8 - k - n else k)) val)"
    and "v2 \<equiv> (if big_endian b then (w2 AND mask (8 * (16 - n - k))) OR push_bit (8 * (16 - n - k)) val
      else (w2 AND NOT (mask (8 * (n + k - 8)))) OR drop_bit (8 * (8 - k)) val)"
  shows "inv s'" "aligned j \<Longrightarrow> word_at fnd s' j = (if j = i then v1 else if 8 < k + n \<and> j = i + 8 then v2 else word_at fnd s j)"
proof -
  have k: "k < 8" unfolding k_def by (rule byte_index_lt)
  have al: "aligned i" "aligned (i + 8)" by (simp_all add: i_def aligned_next)
  note f = find_word [OF assms(1) al(1), unfolded i_def, folded w1_def]
    find_word [OF assms(1) al(2), unfolded i_def, folded w2_def]
  have cm: "calc_mask (int n) = mask (8 * n)" using assms(2,3) calc_mask_eq [of "int n"] by (simp add: valid_size_def)
  have wi: "off AND - 8 = word_index off" by (simp add: word_index_def)
  have "\<exists>s1. ins s i v1 = (s1, ok ()) \<and> (if 8 < k + n then ins s1 (i + 8) v2 = (s', ok ()) else s' = s1)"
  proof (cases "8 < k + n")
    case True
    then have e: "nat (8 * int n - (64 - 8 * int k)) = 8 * (n + k - 8)" "nat (64 - 8 * int k) = 8 * (8 - k)"
      "nat (128 + (- (int n * 8) - int k * 8)) = 8 * (16 - (n + k))" "nat (int k * 8) = 8 * k"
      "64 - 8 * (n + k - 8) = 8 * (16 - (n + k))" "64 - 8 * (8 - k) = 8 * k"
      using k assms(3) by auto
    show ?thesis
      using True assms(4) f k assms(3)
      by (cases "big_endian b") (simp_all add: set_value_def Let_def ws [OF assms(1)] align_mask_8 skip_index wi cm cxx_int_def
          k_def [symmetric] i_def e state_bind_ok v1_def v2_def)
  next
    case False
    then have e: "nat (64 - int k * 8 - int n * 8) = 8 * (8 - (k + n))" "nat (int k * 8) = 8 * k" by auto
    show ?thesis
      using False assms(4) f k assms(2,3)
      by (cases "big_endian b"; cases "n = 8") (simp_all add: set_value_def Let_def ws [OF assms(1)] align_mask_8 skip_index wi cm
          cxx_int_def k_def [symmetric] i_def e state_bind_ok v1_def)
  qed
  then obtain s1 where s1: "ins s i v1 = (s1, ok ())" "8 < k + n \<Longrightarrow> ins s1 (i + 8) v2 = (s', ok ())" "\<not> 8 < k + n \<Longrightarrow> s' = s1"
    by (auto split: if_splits)
  have i1: "inv s1" by (rule insert_inv [OF assms(1) al(1) s1(1)])
  then show "inv s'" using insert_inv [OF i1 al(2) s1(2)] s1(3) by (cases "8 < k + n") auto
  show "word_at fnd s' j = (if j = i then v1 else if 8 < k + n \<and> j = i + 8 then v2 else word_at fnd s j)" if "aligned j"
    using word_at_insert [OF assms(1) al(1) s1(1) that] word_at_insert [OF i1 al(2) s1(2) that] s1(3) by (cases "8 < k + n") auto
qed

lemma stored_bytes:
  assumes "1 \<le> n" "n \<le> 8" "k < 8" "m < 8" "\<And>i. bit val i \<Longrightarrow> i < 8 * n"
  defines "v1 \<equiv> \<lambda>be w1. (if 8 < k + n then
      if be then (w1 AND NOT (mask (8 * (8 - k)))) OR drop_bit (8 * (n + k - 8)) val
      else (w1 AND mask (8 * k)) OR push_bit (8 * k) val
    else if n = 8 then val
    else (w1 AND NOT (push_bit (8 * (if be then 8 - k - n else k)) (mask (8 * n))))
      OR push_bit (8 * (if be then 8 - k - n else k)) val)"
    and "v2 \<equiv> \<lambda>be w2. (if be then (w2 AND mask (8 * (16 - n - k))) OR push_bit (8 * (16 - n - k)) val
      else (w2 AND NOT (mask (8 * (n + k - 8)))) OR drop_bit (8 * (8 - k)) val)"
  shows "word_byte be (v1 be w) m = (if k \<le> m \<and> m < k + n then val_byte be n val (m - k) else word_byte be w m)"
    "8 < k + n \<Longrightarrow> word_byte be (v2 be w) m = (if 8 + m < k + n then val_byte be n val (8 + m - k) else word_byte be w m)"
proof -
  have m': "7 - m < 8" by simp
  show "word_byte be (v1 be w) m = (if k \<le> m \<and> m < k + n then val_byte be n val (m - k) else word_byte be w m)"
  proof (cases "8 < k + n")
    case True
    have "\<And>i. bit val i \<Longrightarrow> i < 8 * (n + k - 8 + (8 - k))" using assms(3,5) True by auto
    then show ?thesis
      using True assms(1-4) write_low [of "8 - k" "7 - m" val "n + k - 8" w] write_high [of k m w val]
      by (auto simp: v1_def word_byte_def val_byte_def intro!: arg_cong [of _ _ "byte_at _"])
  next
    case False
    then show ?thesis
      using assms(1-4) write_inside [of n "8 - k - n" "7 - m" val w] write_inside [of n k m val w] assms(5)
      by (auto simp: v1_def word_byte_def val_byte_def intro!: arg_cong [of _ _ "byte_at _"])
  qed
  assume c: "8 < k + n"
  have "\<And>i. bit val i \<Longrightarrow> i < 8 * (8 - k + (n + k - 8))" using assms(3,5) c by auto
  then show "word_byte be (v2 be w) m = (if 8 + m < k + n then val_byte be n val (8 + m - k) else word_byte be w m)"
    using c assms(1-4) write_low [of "n + k - 8" m val "8 - k" w] write_high [of "16 - n - k" "7 - m" w val]
    by (auto simp: v2_def word_byte_def val_byte_def intro!: arg_cong [of _ _ "byte_at _"])
qed

lemma set_value_word_bytes:
  fixes off :: u64
  assumes "inv s" "1 \<le> n" "n \<le> 8" "\<And>i. bit val i \<Longrightarrow> i < 8 * n"
    and "set_value b fnd ins s off (int n) val = (s', ok ())" "aligned j" "m < 8"
  defines "k \<equiv> byte_index off" and "i \<equiv> word_index off" and "be \<equiv> big_endian b"
  shows "word_byte be (word_at fnd s' j) m =
    (if j = i \<and> k \<le> m \<and> m < k + n then val_byte be n val (m - k)
     else if j = i + 8 \<and> 8 + m < k + n then val_byte be n val (8 + m - k)
     else word_byte be (word_at fnd s j) m)"
proof -
  have k: "k < 8" unfolding k_def by (rule byte_index_lt)
  note w = set_value_words(2) [OF assms(1-3,5,6), folded k_def i_def be_def]
  note sb = stored_bytes [OF assms(2,3) k assms(7,4), where be = be]
  have ne: "i + 8 \<noteq> i" by simp
  consider (first) "j = i" | (second) "j = i + 8" "8 < k + n" | (other) "j \<noteq> i" "\<not> (8 < k + n \<and> j = i + 8)" by blast
  then show ?thesis
  proof cases
    case first
    then show ?thesis unfolding w using ne by (simp only: simp_thms if_True sb(1)) auto
  next
    case second
    then show ?thesis unfolding w using ne by (simp only: simp_thms if_True if_False sb(2))
  next
    case other
    then show ?thesis unfolding w using k by (simp only: simp_thms if_False) auto
  qed
qed

lemma unat_small: "t < 64 \<Longrightarrow> unat (of_nat t :: u64) = t"
  by (simp add: unsigned_of_nat take_bit_nat_eq_self_iff)

lemma offset_of_words:
  fixes a off :: u64
  assumes "a = i + of_nat m" "off = i + of_nat k" "m < 16" "k < 8" "n \<le> 8"
  shows "unat (a - off) < n \<longleftrightarrow> k \<le> m \<and> m < k + n" "k \<le> m \<Longrightarrow> unat (a - off) = m - k"
proof -
  show le: "unat (a - off) = m - k" if "k \<le> m"
  proof -
    have "a - off = of_nat (m - k)" using that assms(1,2) by (simp add: of_nat_diff)
    then show ?thesis using assms(3) unat_small [of "m - k"] by simp
  qed
  have "k \<le> m" if "unat (a - off) < n"
  proof -
    have "off + of_nat (unat (a - off)) = a" by simp
    then have "(of_nat (k + unat (a - off)) :: u64) = of_nat m" using assms(1,2) by (simp add: algebra_simps)
    then have "unat (of_nat (k + unat (a - off)) :: u64) = unat (of_nat m :: u64)" by (rule arg_cong)
    moreover have "k + unat (a - off) < 64" "m < 64" using that assms by simp_all
    ultimately have "k + unat (a - off) = m" by (simp only: unat_small)
    then show ?thesis by simp
  qed
  then show "unat (a - off) < n \<longleftrightarrow> k \<le> m \<and> m < k + n" using le by auto
qed

lemma set_value_bytes:
  fixes off :: u64
  assumes "inv s" "1 \<le> n" "n \<le> 8" "\<And>i. bit val i \<Longrightarrow> i < 8 * n"
    and "set_value b fnd ins s off (int n) val = (s', ok ())"
  shows "inv s'" "mem_byte (big_endian b) fnd s' a =
    (if unat (a - off) < n then val_byte (big_endian b) n val (unat (a - off)) else mem_byte (big_endian b) fnd s a)"
proof -
  show "inv s'" by (rule set_value_words(1) [OF assms(1-3,5)])
  define k where "k = byte_index off"
  have k: "k < 8" unfolding k_def by (rule byte_index_lt)
  define m where "m = byte_index a"
  have m: "m < 8" unfolding m_def by (rule byte_index_lt)
  note w = set_value_word_bytes [OF assms aligned_word_index m, folded k_def, of a]
  have off: "off = word_index off + of_nat k" unfolding k_def by (rule addr_split)
  have a: "a = word_index a + of_nat m" unfolding m_def by (rule addr_split)
  have ne: "word_index off + 8 \<noteq> word_index off" by simp
  consider (first) "word_index a = word_index off" | (second) "word_index a = word_index off + 8"
    | (other) "word_index a \<noteq> word_index off" "word_index a \<noteq> word_index off + 8" by blast
  then show "mem_byte (big_endian b) fnd s' a =
    (if unat (a - off) < n then val_byte (big_endian b) n val (unat (a - off)) else mem_byte (big_endian b) fnd s a)"
  proof cases
    case first
    have "m < 16" using m by simp
    note o = offset_of_words [OF a [unfolded first] off this k assms(3)]
    show ?thesis using first ne o w unfolding mem_byte_def m_def [symmetric] by simp
  next
    case second
    have e: "a = word_index off + of_nat (8 + m)" using a unfolding second by simp
    have "8 + m < 16" using m by simp
    note o = offset_of_words [OF e off this k assms(3)]
    show ?thesis using second ne o k w unfolding mem_byte_def m_def [symmetric] by simp
  next
    case other
    have "\<not> unat (a - off) < n"
    proof
      assume lt: "unat (a - off) < n"
      have "a = off + of_nat (unat (a - off))" by simp
      then have "word_index a = word_index (off + of_nat (unat (a - off)))" by (rule arg_cong)
      then show False using other index_of_offset(1) [of "unat (a - off)" off] lt assms(3) by (auto split: if_splits)
    qed
    then show ?thesis using other w by (simp add: mem_byte_def m_def [symmetric])
  qed
qed

text \<open>Reading back what was written, and reading elsewhere.\<close>

lemma bytes_value_val_byte:
  assumes "n \<le> 8" "\<And>i. bit val i \<Longrightarrow> i < 8 * n"
  shows "bytes_value be (map (val_byte be n val) [0..<n]) = val"
proof (rule u64_bytes_eqI)
  fix i :: nat
  assume "i < 8"
  have "byte_at val i = 0" if "\<not> i < n"
  proof (rule bit_word_eqI)
    fix j :: nat
    show "bit (byte_at val i) j = bit 0 j" using assms(2) [of "8 * i + j"] that by (auto simp: bit_byte_at)
  qed
  then show "byte_at (bytes_value be (map (val_byte be n val) [0..<n])) i = byte_at val i"
    using assms(1) by (auto simp: byte_at_bytes_value val_byte_def)
qed

lemma get_value_set_value:
  assumes "inv s" "1 \<le> n" "n \<le> 8" "\<And>i. bit val i \<Longrightarrow> i < 8 * n"
    and "set_value b fnd ins s off (int n) val = (s', ok ())"
  shows "get_value b fnd s' off (int n) = ok val"
proof -
  note w = set_value_bytes [OF assms]
  have m: "map (\<lambda>j. mem_byte (big_endian b) fnd s' (off + of_nat j)) [0..<n] = map (val_byte (big_endian b) n val) [0..<n]"
    using assms(3) by (auto simp: w(2) unat_small)
  have v: "bytes_value (big_endian b) (map (val_byte (big_endian b) n val) [0..<n]) = val"
    by (rule bytes_value_val_byte [OF assms(3)]) (rule assms(4))
  show ?thesis by (simp only: get_value_bytes [OF w(1) assms(2,3)] m v)
qed

lemma get_value_frame:
  assumes "inv s" "1 \<le> n" "n \<le> 8" "\<And>i. bit val i \<Longrightarrow> i < 8 * n"
    and "set_value b fnd ins s off (int n) val = (s', ok ())"
    and "1 \<le> n'" "n' \<le> 8" "\<And>j. j < n' \<Longrightarrow> n \<le> unat (off' + of_nat j - off)"
  shows "get_value b fnd s' off' (int n') = get_value b fnd s off' (int n')"
proof -
  note w = set_value_bytes [OF assms(1-5)]
  have "map (\<lambda>j. mem_byte (big_endian b) fnd s' (off' + of_nat j)) [0..<n'] =
      map (\<lambda>j. mem_byte (big_endian b) fnd s (off' + of_nat j)) [0..<n']"
    using leD [OF assms(8)] by (simp add: w(2))
  then show ?thesis
    by (simp only: get_value_bytes [OF w(1) assms(6,7)] get_value_bytes [OF assms(1,6,7)])
qed

end

text \<open>A store on which inserting never fails.\<close>

locale total_word_store = word_store +
  assumes insert_total: "inv s \<Longrightarrow> aligned i \<Longrightarrow> \<exists>s'. ins s i v = (s', ok ())"
begin

lemma set_value_total:
  assumes "inv s" "1 \<le> n" "n \<le> 8"
  shows "\<exists>s'. set_value b fnd ins s off (int n) val = (s', ok ())"
proof -
  have al: "aligned (word_index off)" "aligned (word_index off + 8)" by (simp_all add: aligned_next)
  have wi: "off AND - 8 = word_index off" by (simp add: word_index_def)
  note f = find_word [OF assms(1) al(1)] find_word [OF assms(1) al(2)]
  have i: "\<exists>s'. ins s1 j v = (s', ok ())" if "inv s1" "aligned j" for s1 j v using insert_total that by blast
  have "\<exists>s'. state_bind (ins s (word_index off) v1) (\<lambda>bank _. ins bank (word_index off + 8) v2) = (s', ok ())" for v1 v2
    using i [OF assms(1) al(1), of v1] insert_inv [OF assms(1) al(1)] i [OF _ al(2), of _ v2] by fastforce
  then show ?thesis
    using i [OF assms(1) al(1)] f
    by (simp add: set_value_def Let_def ws [OF assms(1)] align_mask_8 wi cxx_int_def)
qed

end

end
