(* ===== verification/Memory_Overlay.thy ===== *)
theory Memory_Overlay
  imports Memory_Refine
begin

text \<open>
  The hash overlay and the page overlay as instances of the contract of theory \<open>Memory_Refine\<close>, with the
  invariants that make their lookups correct, and the properties of the emulator's memory.
\<close>

section \<open>The probe sequence\<close>

definition next_slot :: "u64 \<Rightarrow> nat \<Rightarrow> u64 \<Rightarrow> u64" where
  "next_slot skip n offset = (offset + skip) mod of_nat n"

definition probe :: "nat \<Rightarrow> i32 \<Rightarrow> u64 \<Rightarrow> u64 \<Rightarrow> nat \<Rightarrow> nat" where
  "probe n sh skip addr i = unat ((next_slot skip n ^^ i) (drop_bit (nat sh) addr mod of_nat n))"

definition hits :: "u64 list \<Rightarrow> u64 \<Rightarrow> nat \<Rightarrow> bool" where
  "hits tab addr s \<longleftrightarrow> tab ! s = addr \<or> tab ! s = EMPTY_SLOT"

lemma hash_slot_Some:
  "hash_slot tab skip addr n offset = Some r \<longleftrightarrow>
     (\<exists>i < n. r = (next_slot skip (length tab) ^^ i) offset \<and> hits tab addr (unat r) \<and>
       (\<forall>j < i. \<not> hits tab addr (unat ((next_slot skip (length tab) ^^ j) offset))))"
proof (induction n arbitrary: offset)
  case (Suc n)
  let ?f = "next_slot skip (length tab)"
  show ?case
  proof (cases "hits tab addr (unat offset)")
    case True
    then have "hash_slot tab skip addr (Suc n) offset = Some offset" by (simp add: hits_def)
    then show ?thesis using True by (force intro: exI [of _ 0])
  next
    case False
    then have "hash_slot tab skip addr (Suc n) offset = hash_slot tab skip addr n (?f offset)"
      by (simp add: hits_def next_slot_def)
    also have "\<dots> = Some r \<longleftrightarrow> (\<exists>i < n. r = (?f ^^ Suc i) offset \<and> hits tab addr (unat r) \<and>
        (\<forall>j < i. \<not> hits tab addr (unat ((?f ^^ Suc j) offset))))"
      unfolding Suc.IH by (simp add: funpow_Suc_right del: funpow.simps)
    also have "\<dots> \<longleftrightarrow> (\<exists>i < Suc n. r = (?f ^^ i) offset \<and> hits tab addr (unat r) \<and>
        (\<forall>j < i. \<not> hits tab addr (unat ((?f ^^ j) offset))))"
      using False by (simp add: Ex_less_Suc2 All_less_Suc2 del: funpow.simps) auto
    finally show ?thesis .
  qed
qed simp

lemma hash_slot_None:
  "hash_slot tab skip addr n offset = None \<longleftrightarrow>
     (\<forall>i < n. \<not> hits tab addr (unat ((next_slot skip (length tab) ^^ i) offset)))"
proof (induction n arbitrary: offset)
  case (Suc n)
  show ?case
    by (simp add: All_less_Suc2 Suc.IH hits_def next_slot_def [symmetric] funpow_swap1)
qed simp

section \<open>Lookup in the hash table\<close>

definition found :: "u64 list \<Rightarrow> i32 \<Rightarrow> u64 \<Rightarrow> u64 \<Rightarrow> nat option" where
  "found tab sh skip addr =
     (case hash_probe tab sh skip addr of
        Some r \<Rightarrow> if tab ! unat r = addr then Some (unat r) else None
      | None \<Rightarrow> None)"

text \<open>Every stored address is found by its probe sequence, before any empty slot.\<close>

definition table_inv :: "u64 list \<Rightarrow> i32 \<Rightarrow> u64 \<Rightarrow> bool" where
  "table_inv tab sh skip \<longleftrightarrow> (\<forall>addr j. addr \<noteq> EMPTY_SLOT \<longrightarrow> j < length tab \<longrightarrow>
     tab ! probe (length tab) sh skip addr j = addr \<longrightarrow> found tab sh skip addr \<noteq> None)"

lemma found_Some:
  "found tab sh skip addr = Some s \<longleftrightarrow>
     (\<exists>i < length tab. s = probe (length tab) sh skip addr i \<and> tab ! s = addr \<and>
       (\<forall>j < i. \<not> hits tab addr (probe (length tab) sh skip addr j)))"
proof -
  have "found tab sh skip addr = Some s \<longleftrightarrow> (\<exists>r. hash_probe tab sh skip addr = Some r \<and> s = unat r \<and> tab ! s = addr)"
    by (auto simp: found_def split: option.splits if_splits)
  then show ?thesis
    by (auto simp: hash_probe_def hash_slot_Some probe_def hits_def)
qed

lemma found_stored: "found tab sh skip addr = Some s \<Longrightarrow> tab ! s = addr"
  by (auto simp: found_Some)

lemma probe_lt:
  assumes "tab \<noteq> []" "length tab < 2 ^ 64"
  shows "probe (length tab) sh skip addr i < length tab"
proof -
  have "unat (x mod of_nat (length tab) :: u64) < length tab" for x :: u64
  proof -
    have "unat (of_nat (length tab) :: u64) = length tab" using assms(2) by (simp add: unsigned_of_nat take_bit_nat_eq_self_iff)
    then show ?thesis using assms(1) by (simp add: unat_mod)
  qed
  then show ?thesis by (cases i) (simp_all add: probe_def next_slot_def)
qed

lemma inserted_slot:
  assumes "hash_probe tab sh skip addr = Some r" "tab \<noteq> []" "length tab < 2 ^ 64"
  obtains i where "i < length tab" "unat r = probe (length tab) sh skip addr i" "unat r < length tab" "hits tab addr (unat r)"
    "\<And>j. j < i \<Longrightarrow> \<not> hits tab addr (probe (length tab) sh skip addr j)"
  using assms probe_lt [OF assms(2,3)] by (auto simp: hash_probe_def hash_slot_Some probe_def)

lemma found_insert_same:
  assumes "hash_probe tab sh skip addr = Some r" "tab \<noteq> []" "length tab < 2 ^ 64"
  shows "found (tab[unat r := addr]) sh skip addr = Some (unat r)"
proof (rule inserted_slot [OF assms])
  fix i
  assume i: "i < length tab" "unat r = probe (length tab) sh skip addr i" "unat r < length tab" "hits tab addr (unat r)"
    "\<And>j. j < i \<Longrightarrow> \<not> hits tab addr (probe (length tab) sh skip addr j)"
  have "\<not> hits (tab[unat r := addr]) addr (probe (length tab) sh skip addr j)" if "j < i" for j
  proof -
    have "probe (length tab) sh skip addr j \<noteq> unat r" using i(4) i(5) [OF that] by auto
    then show ?thesis using i(5) [OF that] by (simp add: hits_def)
  qed
  then show ?thesis using i(1-3) by (auto simp: found_Some intro!: exI [of _ i])
qed

lemma found_insert_other:
  assumes "hash_probe tab sh skip addr = Some r" "tab \<noteq> []" "length tab < 2 ^ 64" "table_inv tab sh skip"
    and "addr \<noteq> EMPTY_SLOT" "addr' \<noteq> EMPTY_SLOT" "addr' \<noteq> addr"
  shows "found (tab[unat r := addr]) sh skip addr' = found tab sh skip addr'"
proof (rule inserted_slot [OF assms(1-3)])
  let ?P = "probe (length tab) sh skip addr'" and ?t = "tab[unat r := addr]"
  assume h: "unat r < length tab" "hits tab addr (unat r)"
  show ?thesis
  proof (cases "found tab sh skip addr'")
    case None
    then have "tab ! ?P j \<noteq> addr'" if "j < length tab" for j using assms(4,6) that by (auto simp: table_inv_def)
    then have "?t ! ?P j \<noteq> addr'" if "j < length tab" for j using that h(1) assms(7) by (cases "?P j = unat r") auto
    then have "found ?t sh skip addr' \<noteq> Some s" for s unfolding found_Some length_list_update by blast
    then show ?thesis using None by (cases "found ?t sh skip addr'") auto
  next
    case (Some s)
    then obtain i where i: "i < length tab" "s = ?P i" "tab ! s = addr'" "\<forall>j < i. \<not> hits tab addr' (?P j)"
      by (auto simp: found_Some)
    have "s \<noteq> unat r" using i(3) h(2) assms(6,7) by (auto simp: hits_def)
    moreover have "\<not> hits ?t addr' (?P j)" if "j < i" for j
      using i(4) that h(1) assms(5,7) by (cases "?P j = unat r") (auto simp: hits_def)
    ultimately have "found ?t sh skip addr' = Some s" using i(1-3) by (auto simp: found_Some)
    then show ?thesis using Some by simp
  qed
qed

lemma table_inv_insert:
  assumes "hash_probe tab sh skip addr = Some r" "tab \<noteq> []" "length tab < 2 ^ 64" "table_inv tab sh skip" "addr \<noteq> EMPTY_SLOT"
  shows "table_inv (tab[unat r := addr]) sh skip"
  unfolding table_inv_def length_list_update
proof (intro allI impI)
  fix addr' j
  let ?P = "probe (length tab) sh skip addr'" and ?t = "tab[unat r := addr]"
  assume a: "addr' \<noteq> EMPTY_SLOT" "j < length tab" "?t ! ?P j = addr'"
  show "found ?t sh skip addr' \<noteq> None"
  proof (cases "addr' = addr")
    case True
    then show ?thesis using found_insert_same [OF assms(1-3)] by simp
  next
    case False
    have "?P j \<noteq> unat r" using a(3) False probe_lt [OF assms(2,3), of sh skip addr' j] by auto
    then have "found tab sh skip addr' \<noteq> None" using a assms(4) by (auto simp: table_inv_def)
    then show ?thesis using found_insert_other [OF assms a(1) False] by simp
  qed
qed

lemma table_inv_new: "n < 2 ^ 64 \<Longrightarrow> table_inv (replicate n EMPTY_SLOT) sh skip"
  using probe_lt [of "replicate n EMPTY_SLOT" sh skip] by (cases "n = 0") (auto simp: table_inv_def)

section \<open>The hash overlay as a store of words\<close>

definition find_under :: "memory_bank option \<Rightarrow> u64 \<Rightarrow> u64 run" where
  "find_under ul addr = (case ul of None \<Rightarrow> ok 0 | Some u \<Rightarrow> bank_find u addr)"

definition under_total :: "memory_bank option \<Rightarrow> bool" where
  "under_total ul \<longleftrightarrow> (\<forall>i. aligned i \<longrightarrow> (\<exists>v. find_under ul i = ok v))"

definition hash_inv :: "bank_base \<Rightarrow> memory_bank option \<Rightarrow> memory_bank \<Rightarrow> bool" where
  "hash_inv b ul bank \<longleftrightarrow> wordsize b = 8 \<and> under_total ul \<and>
     (\<exists>sh skip tab vals. bank = MemoryHashOverlay b ul sh skip tab vals \<and> tab \<noteq> [] \<and> length tab < 2 ^ 64 \<and>
        length vals = length tab \<and> table_inv tab sh skip)"

lemma hash_find:
  "tab \<noteq> [] \<Longrightarrow> bank_find (MemoryHashOverlay b ul sh skip tab vals) addr =
     (case found tab sh skip addr of Some s \<Rightarrow> ok (vals ! s) | None \<Rightarrow> find_under ul addr)"
  by (auto simp: found_def find_under_def split: option.splits)

lemma aligned_not_empty: "aligned i \<Longrightarrow> i \<noteq> EMPTY_SLOT"
  by (auto simp: aligned_uint EMPTY_SLOT_def)

lemma hash_insert:
  assumes "bank_insert (MemoryHashOverlay b ul sh skip tab vals) i v = (bank', ok ())" "aligned i"
    "tab \<noteq> []" "length tab < 2 ^ 64" "length vals = length tab" "table_inv tab sh skip"
  obtains tab' vals' where "bank' = MemoryHashOverlay b ul sh skip tab' vals'" "tab' \<noteq> []" "length tab' = length tab"
    "length vals' = length tab" "table_inv tab' sh skip"
    "\<And>j. aligned j \<Longrightarrow> bank_find bank' j = (if j = i then ok v else bank_find (MemoryHashOverlay b ul sh skip tab vals) j)"
proof -
  obtain r where r: "hash_probe tab sh skip i = Some r"
    and b': "bank' = MemoryHashOverlay b ul sh skip (tab[unat r := i]) (vals[unat r := v])"
    using assms(1,3) by (auto split: option.splits)
  note ne = aligned_not_empty
  have lt: "unat r < length tab" by (rule inserted_slot [OF r assms(3,4)])
  have fs: "found (tab[unat r := i]) sh skip i = Some (unat r)" by (rule found_insert_same [OF r assms(3,4)])
  have fo: "found (tab[unat r := i]) sh skip j = found tab sh skip j" if "aligned j" "j \<noteq> i" for j
    by (rule found_insert_other [OF r assms(3,4,6) ne [OF assms(2)] ne [OF that(1)] that(2)])
  have other: "s \<noteq> unat r" if "found tab sh skip j = Some s" "aligned j" "j \<noteq> i" for s j
    using found_stored [OF that(1)] found_stored [OF fo [OF that(2,3), unfolded that(1)]] that(3) lt by auto
  show ?thesis
  proof (rule that [OF b'])
    show "table_inv (tab[unat r := i]) sh skip" by (rule table_inv_insert [OF r assms(3,4,6) ne [OF assms(2)]])
    show "bank_find bank' j = (if j = i then ok v else bank_find (MemoryHashOverlay b ul sh skip tab vals) j)"
      if "aligned j" for j
      using assms(3,5) lt fs fo [OF that] other [OF _ that] unfolding b'
      by (auto simp: hash_find simp del: bank_find.simps split: option.split)
  qed (use assms in simp_all)
qed

interpretation hash: word_store b bank_find bank_insert "hash_inv b ul" for b ul
proof
  show "wordsize b = 8" if "hash_inv b ul s" for s using that by (simp add: hash_inv_def)
  show "\<exists>v. bank_find s i = ok v" if "hash_inv b ul s" "aligned i" for s i
    using that by (auto simp: hash_inv_def hash_find under_total_def simp del: bank_find.simps split: option.split)
  fix s i v s'
  assume s: "hash_inv b ul s" "aligned i" "bank_insert s i v = (s', ok ())"
  then obtain sh skip tab vals where e: "s = MemoryHashOverlay b ul sh skip tab vals" "tab \<noteq> []" "length tab < 2 ^ 64"
    "length vals = length tab" "table_inv tab sh skip" "wordsize b = 8" "under_total ul" by (auto simp: hash_inv_def)
  note h = hash_insert [OF s(3) [unfolded e(1)] s(2) e(2-5)]
  show "hash_inv b ul s'" by (rule h) (use e in \<open>auto simp: hash_inv_def\<close>)
  show "bank_find s' j = (if j = i then ok v else bank_find s j)" if "aligned j" for j
    by (rule h) (use e(1) that in blast)
qed

section \<open>The page overlay as a store of words\<close>

definition page_index :: "nat \<Rightarrow> u64 \<Rightarrow> u64" where
  "page_index p a = a AND NOT (mask p)"

definition page_off :: "nat \<Rightarrow> u64 \<Rightarrow> nat" where
  "page_off p a = unat (a AND mask p)"

lemma align_mask_pow: "p \<le> 30 \<Longrightarrow> align_mask (2 ^ p) = mask p"
  by (simp add: align_mask_def cxx_int_def mask_eq_exp_minus_1)

lemma page_off_mod: "page_off p a = unat a mod 2 ^ p"
  by (simp only: page_off_def and_mask_eq_take unsigned_take_bit_eq) (simp only: take_bit_eq_mod)

lemma page_split: "a = page_index p a + of_nat (page_off p a)"
proof -
  have "page_index p a + (a AND mask p) = page_index p a OR (a AND mask p)"
    by (rule disjunctive_add) (auto simp: page_index_def bit_and_iff bit_not_iff)
  also have "\<dots> = a" by (rule u64_bit_eqI) (auto simp: page_index_def bit_or_iff bit_and_iff bit_not_iff possible_bit_def)
  finally show ?thesis by (simp add: page_off_def)
qed

lemma page_off_aligned:
  assumes "3 \<le> p" "aligned a"
  shows "8 dvd page_off p a" "page_off p a + 8 \<le> 2 ^ p"
proof -
  have d: "(8 :: nat) dvd 2 ^ p" using le_imp_power_dvd [OF assms(1), of "2 :: nat"] by simp
  have "int (unat a) mod 8 = 0" using assms(2) by (simp add: aligned_uint)
  then have "8 dvd unat a" by presburger
  then show o: "8 dvd page_off p a" using d by (simp add: page_off_mod dvd_mod)
  have "page_off p a < 2 ^ p" by (simp add: page_off_mod)
  then show "page_off p a + 8 \<le> 2 ^ p" using o d by (metis dvd_diff_nat dvd_imp_le le_add_diff_inverse nat_add_left_cancel_le order_less_imp_le zero_less_diff)
qed

lemma construct_8: "8 \<le> length ptr \<Longrightarrow> construct_value ptr 8 be = ok (bytes_value be (take 8 ptr))"
  by (simp add: construct_value_def as_usize_def bytes_value_def Let_def)

definition word_bytes :: "bool \<Rightarrow> u64 \<Rightarrow> u8 list" where
  "word_bytes be v = (if be then rev (le_bytes 8 v) else le_bytes 8 v)"

lemma word_bytes_value [simp]: "bytes_value be (word_bytes be v) = v" "length (word_bytes be v) = 8"
proof -
  have "le_value (le_bytes 8 v) = v" using le_value_le_bytes [of 8 v] by (simp add: take_bit_word_eq_self)
  then show "bytes_value be (word_bytes be v) = v" by (simp add: bytes_value_def word_bytes_def be_value_rev)
  show "length (word_bytes be v) = 8" by (simp add: word_bytes_def)
qed

lemma deconstruct_8: "8 \<le> length ptr \<Longrightarrow> deconstruct_value ptr v 8 be = ok (word_bytes be v @ drop 8 ptr)"
  by (simp add: deconstruct_value_def as_usize_def copy_slice_def word_bytes_def Let_def)

lemma splice_blocks:
  assumes "o1 + 8 \<le> length d" "o2 + 8 \<le> length d" "8 dvd o1" "8 dvd o2" "length bs = 8"
  shows "take 8 (drop o2 (take o1 d @ bs @ drop 8 (drop o1 d))) = (if o2 = o1 then bs else take 8 (drop o2 d))"
proof -
  consider "o2 = o1" | "o2 + 8 \<le> o1" | "o1 + 8 \<le> o2"
    using assms(3,4) by (metis dvd_def linorder_neqE_nat mult_Suc_right Suc_leI nat_mult_less_cancel_disj add.commute mult_le_mono2)
  then show ?thesis
  proof cases
    case 2
    then have "8 \<le> o1 - o2" by simp
    then show ?thesis using 2 assms by (simp add: drop_take min_def)
  next
    case 3
    then have "drop o2 (take o1 d @ bs @ drop 8 (drop o1 d)) = drop o2 d" using assms by (simp add: algebra_simps)
    then show ?thesis using 3 by simp
  qed (use assms in simp_all)
qed

text \<open>
  What the page overlay relies on: reading a whole page of the bank below and reading its words agree.
\<close>

definition under_consistent :: "bank_base \<Rightarrow> memory_bank option \<Rightarrow> bool" where
  "under_consistent b ul \<longleftrightarrow> (\<forall>pa. pa AND align_mask (pagesize b) = 0 \<longrightarrow>
     (\<exists>data. fresh_page b ul pa = ok data \<and> length data = nat (pagesize b) \<and>
       (\<forall>n. 8 dvd n \<longrightarrow> n + 8 \<le> length data \<longrightarrow>
          find_under ul (pa + of_nat n) = ok (bytes_value (big_endian b) (take 8 (drop n data))))))"

definition page_base :: "bank_base \<Rightarrow> bool" where
  "page_base b \<longleftrightarrow> wordsize b = 8 \<and> (\<exists>p. 3 \<le> p \<and> p \<le> 30 \<and> pagesize b = 2 ^ p)"

definition page_inv :: "bank_base \<Rightarrow> memory_bank option \<Rightarrow> memory_bank \<Rightarrow> bool" where
  "page_inv b ul bank \<longleftrightarrow> page_base b \<and> under_consistent b ul \<and>
     (\<exists>page. bank = MemoryPageOverlay b ul page \<and> (\<forall>pa d. page pa = Some d \<longrightarrow> length d = nat (pagesize b)))"

text \<open>The contents of a page as the overlay shows it.\<close>

definition page_data :: "bank_base \<Rightarrow> memory_bank option \<Rightarrow> (u64 \<rightharpoonup> u8 list) \<Rightarrow> u64 \<Rightarrow> u8 list run" where
  "page_data b ul page pa = (case page pa of None \<Rightarrow> fresh_page b ul pa | Some d \<Rightarrow> ok d)"

lemma page_index_masked: "page_index p a AND mask p = 0"
  by (rule u64_bit_eqI) (auto simp: page_index_def bit_and_iff bit_not_iff)

lemma page_data_ok:
  assumes "under_consistent b ul" "pagesize b = 2 ^ p" "p \<le> 30" "\<forall>pa d. page pa = Some d \<longrightarrow> length d = nat (pagesize b)"
  obtains d where "page_data b ul page (page_index p a) = ok d" "length d = 2 ^ p"
  using assms page_index_masked [of p a] align_mask_pow [OF assms(3)]
  by (cases "page (page_index p a)") (auto simp: page_data_def under_consistent_def)

lemma page_find:
  assumes "under_consistent b ul" "pagesize b = 2 ^ p" "3 \<le> p" "p \<le> 30" "wordsize b = 8" "aligned a"
    "page_data b ul page (page_index p a) = ok d" "length d = 2 ^ p"
  shows "bank_find (MemoryPageOverlay b ul page) a = ok (bytes_value (big_endian b) (take 8 (drop (page_off p a) d)))"
proof -
  note o = page_off_aligned [OF assms(3,6)]
  have m: "a AND NOT (align_mask (pagesize b)) = page_index p a" "unat (a AND align_mask (pagesize b)) = page_off p a"
    by (simp_all add: assms(2) align_mask_pow [OF assms(4)] page_index_def page_off_def)
  show ?thesis
  proof (cases "page (page_index p a)")
    case None
    then obtain d' where "fresh_page b ul (page_index p a) = ok d'" and
      d': "\<And>n. 8 dvd n \<Longrightarrow> n + 8 \<le> length d' \<Longrightarrow>
          find_under ul (page_index p a + of_nat n) = ok (bytes_value (big_endian b) (take 8 (drop n d')))"
      using assms(1,2) page_index_masked [of p a] align_mask_pow [OF assms(4)] by (auto simp: under_consistent_def)
    then have "d' = d" using None assms(7) by (simp add: page_data_def)
    then have "find_under ul a = ok (bytes_value (big_endian b) (take 8 (drop (page_off p a) d)))"
      using d' [OF o(1)] o(2) assms(8) page_split [of a p] by simp
    then show ?thesis using None m by (simp add: find_under_def Let_def)
  next
    case (Some d')
    then have "d' = d" using assms(7) by (simp add: page_data_def)
    then show ?thesis using Some m o(2) assms(5,8) by (simp add: Let_def construct_8)
  qed
qed

lemma page_insert:
  assumes "pagesize b = 2 ^ p" "3 \<le> p" "p \<le> 30" "wordsize b = 8" "aligned a"
    "page_data b ul page (page_index p a) = ok d" "length d = 2 ^ p"
  shows "bank_insert (MemoryPageOverlay b ul page) a v = (MemoryPageOverlay b ul (page(page_index p a \<mapsto>
    take (page_off p a) d @ word_bytes (big_endian b) v @ drop 8 (drop (page_off p a) d))), ok ())"
proof -
  note o = page_off_aligned [OF assms(2,5)]
  have m: "a AND NOT (align_mask (pagesize b)) = page_index p a" "unat (a AND align_mask (pagesize b)) = page_off p a"
    by (simp_all add: assms(1) align_mask_pow [OF assms(3)] page_index_def page_off_def)
  have l: "8 \<le> length (drop (page_off p a) d)" "\<not> length d < page_off p a" using o(2) assms(7) by simp_all
  show ?thesis
    unfolding bank_insert.simps page_overlay_insert_def Let_def m page_data_def [symmetric] assms(6) state_bind_simps
    using l deconstruct_8 [OF l(1)] assms(4) by simp
qed

interpretation page: total_word_store b bank_find bank_insert "page_inv b ul" for b ul
proof
  show "wordsize b = 8" if "page_inv b ul s" for s using that by (simp add: page_inv_def page_base_def)
  fix s i
  assume s: "page_inv b ul s" "aligned i"
  then obtain p page where e: "3 \<le> p" "p \<le> 30" "pagesize b = 2 ^ p" "wordsize b = 8" "under_consistent b ul"
    "s = MemoryPageOverlay b ul page" "\<forall>pa d. page pa = Some d \<longrightarrow> length d = nat (pagesize b)"
    by (auto simp: page_inv_def page_base_def)
  obtain d where d: "page_data b ul page (page_index p i) = ok d" "length d = 2 ^ p"
    by (rule page_data_ok [OF e(5,3,2,7)])
  note ins = page_insert [OF e(3,1,2,4) s(2) d]
  show "\<exists>v. bank_find s i = ok v" using page_find [OF e(5,3,1,2,4) s(2) d] e(6) by blast
  show "\<exists>s'. bank_insert s i v = (s', ok ())" for v using ins e(6) by blast
  fix v s'
  assume "bank_insert s i v = (s', ok ())"
  let ?d = "take (page_off p i) d @ word_bytes (big_endian b) v @ drop 8 (drop (page_off p i) d)"
  have s': "s' = MemoryPageOverlay b ul (page(page_index p i \<mapsto> ?d))"
    using \<open>bank_insert s i v = (s', ok ())\<close> ins e(6) by simp
  have ld: "length ?d = 2 ^ p" using page_off_aligned(2) [OF e(1) s(2)] d(2) by simp
  show "page_inv b ul s'" using e ld by (auto simp: page_inv_def page_base_def s')
  fix j
  assume j: "aligned j"
  show "bank_find s' j = (if j = i then ok v else bank_find s j)"
  proof (cases "page_index p j = page_index p i")
    case True
    have "page_off p j = page_off p i \<longleftrightarrow> j = i" using True page_split [of j p] page_split [of i p] by metis
    moreover have "page_data b ul page (page_index p j) = ok d" using d(1) True by simp
    moreover have "page_data b ul (page(page_index p i \<mapsto> ?d)) (page_index p j) = ok ?d" using True by (simp add: page_data_def)
    ultimately show ?thesis
      using page_find [OF e(5,3,1,2,4) j _ d(2)] page_find [OF e(5,3,1,2,4) j _ ld]
        splice_blocks [of "page_off p i" d "page_off p j" "word_bytes (big_endian b) v"]
        page_off_aligned [OF e(1) s(2)] page_off_aligned [OF e(1) j] d(2) by (simp add: s' e(6) del: bank_find.simps)
  next
    case False
    then have "j \<noteq> i" "page_data b ul (page(page_index p i \<mapsto> ?d)) (page_index p j) = page_data b ul page (page_index p j)"
      by (auto simp: page_data_def)
    moreover obtain d' where "page_data b ul page (page_index p j) = ok d'" "length d' = 2 ^ p"
      by (rule page_data_ok [OF e(5,3,2,7)])
    ultimately show ?thesis
      using page_find [OF e(5,3,1,2,4) j] by (simp add: s' e(6) del: bank_find.simps)
  qed
qed

section \<open>Banks below a page overlay\<close>

lemma bytes_value_zeros: "bytes_value be (replicate 8 0) = 0"
proof (rule u64_bytes_eqI)
  fix i :: nat
  assume "i < 8"
  have "byte_at 0 i = 0" by (rule bit_word_eqI) (simp add: bit_byte_at)
  then show "byte_at (bytes_value be (replicate 8 0)) i = byte_at 0 i" by (simp add: byte_at_bytes_value)
qed

lemma consistent_none:
  assumes "page_base b"
  shows "under_consistent b None"
proof -
  have "take 8 (drop n (replicate (nat (pagesize b)) (0 :: u8))) = replicate 8 0" if "n + 8 \<le> nat (pagesize b)" for n
    using that by simp
  then show ?thesis
    using assms by (auto simp: under_consistent_def fresh_page_def find_under_def page_base_def bytes_value_zeros Let_def)
qed

text \<open>A load image whose loader fills any request with the bytes of one content.\<close>

definition loads :: "loader \<Rightarrow> (u64 \<Rightarrow> u8) \<Rightarrow> bool" where
  "loads ld content \<longleftrightarrow> (\<forall>n a. ld n a = Inr (map (\<lambda>i. content (a + of_nat i)) [0..<n]))"

lemma byte_swap_8: "i < 8 \<Longrightarrow> byte_at (byte_swap v 8) i = byte_at v (7 - i)"
  by (rule byte_at_eqI) (auto simp: bit_byte_swap valid_size_def)

lemma image_word:
  "length bs = 8 \<Longrightarrow> (if be then byte_swap (le_value bs) 8 else le_value bs) = bytes_value be bs"
proof (rule u64_bytes_eqI)
  fix i :: nat
  assume "length bs = 8" "i < 8"
  then show "byte_at (if be then byte_swap (le_value bs) 8 else le_value bs) i = byte_at (bytes_value be bs) i"
    using diff_le_self [of 7 i] by (auto simp: byte_swap_8 byte_at_le_value byte_at_bytes_value)
qed

lemma consistent_image:
  assumes "page_base b" "loads ld content" "wordsize b' = 8" "big_endian b' = big_endian b"
  shows "under_consistent b (Some (MemoryImage b' ld))"
  unfolding under_consistent_def
proof (intro allI impI)
  fix pa :: u64
  let ?ps = "nat (pagesize b)"
  let ?d = "map (\<lambda>i. content (pa + of_nat i)) [0..<?ps]"
  have ps: "0 \<le> pagesize b" "int ?ps = pagesize b" "pagesize b < 2 ^ 64"
  proof -
    obtain p where "pagesize b = 2 ^ p" "p \<le> 30" using assms(1) by (auto simp: page_base_def)
    then show "0 \<le> pagesize b" "int ?ps = pagesize b" "pagesize b < 2 ^ 64"
      using power_strict_increasing [of p 64 "2 :: int"] by auto
  qed
  have "fresh_page b (Some (MemoryImage b' ld)) pa = ok ?d"
    using assms(2) ps(1,3) by (simp add: fresh_page_def image_load_def loads_def copy_slice_def as_usize_def cxx_int_def Let_def not_less)
  moreover have "find_under (Some (MemoryImage b' ld)) (pa + of_nat n) = ok (bytes_value (big_endian b) (take 8 (drop n ?d)))"
    if "n + 8 \<le> length ?d" for n
  proof -
    have "take 8 (drop n ?d) = map (\<lambda>i. content (pa + of_nat n + of_nat i)) [0..<8]"
      using that by (auto simp: list_eq_iff_nth_eq add.assoc)
    then show ?thesis
      using assms(2-4) image_word [of "map (\<lambda>i. content (pa + of_nat n + of_nat i)) [0..<8]" "big_endian b"]
      by (cases "big_endian b") (simp_all add: find_under_def image_load_def loads_def as_usize_def Let_def del: upt_rec_numeral)
  qed
  ultimately show "\<exists>data. fresh_page b (Some (MemoryImage b' ld)) pa = ok data \<and> length data = ?ps \<and>
      (\<forall>n. 8 dvd n \<longrightarrow> n + 8 \<le> length data \<longrightarrow>
        find_under (Some (MemoryImage b' ld)) (pa + of_nat n) = ok (bytes_value (big_endian b) (take 8 (drop n data))))"
    by simp
qed

lemma new_page_overlay_inv:
  assumes "page_base \<lparr>wordsize = ws, pagesize = ps, bank_space = spc\<rparr>"
    "under_consistent \<lparr>wordsize = ws, pagesize = ps, bank_space = spc\<rparr> ul"
  shows "page_inv \<lparr>wordsize = ws, pagesize = ps, bank_space = spc\<rparr> ul (new_page_overlay spc ws ps ul)"
  using assms by (auto simp: page_inv_def new_page_overlay_def)

lemma new_hash_overlay_inv:
  assumes "ws = 8" "0 < slots" "slots < 2 ^ 64" "under_total ul"
  shows "hash_inv \<lparr>wordsize = ws, pagesize = ps, bank_space = spc\<rparr> ul (empty_hash_overlay spc ws ps slots ul)"
  using assms table_inv_new by (auto simp: hash_inv_def empty_hash_overlay_def)

section \<open>Properties\<close>

lemma fits_bits: "1 \<le> n \<Longrightarrow> n \<le> 8 \<Longrightarrow> val \<le> calc_mask (int n) \<Longrightarrow> bit val i \<Longrightarrow> i < 8 * n"
  using le_calc_mask_iff [of "int n" val] bit_u64_take [of "8 * n" val i] by (auto simp: valid_size_def)

text \<open>\<open>construct_value\<close> and \<open>deconstruct_value\<close> are inverse in both byte orders: writing a value of up to
  eight bytes into a buffer that has room keeps the buffer's length and the rest of it, and reading it back
  gives the value reduced to that many bytes.\<close>

theorem construct_deconstruct:
  assumes "0 \<le> sz" "sz \<le> 8" "nat sz \<le> length ptr"
  shows "\<exists>ptr'. deconstruct_value ptr val sz be = ok ptr' \<and> length ptr' = length ptr \<and> drop (nat sz) ptr' = drop (nat sz) ptr
    \<and> construct_value ptr' sz be = ok (take_bit (8 * nat sz) val)"
proof -
  let ?bs = "if be then rev (le_bytes (nat sz) val) else le_bytes (nat sz) val"
  have "int (length ptr) < as_usize sz \<longleftrightarrow> False" using assms by (simp add: as_usize_def)
  moreover have "nat sz \<le> 8" using assms by simp
  ultimately show ?thesis
    using assms le_value_le_bytes [of "nat sz" val]
    by (intro exI [of _ "?bs @ drop (nat sz) ptr"])
      (simp add: deconstruct_value_def construct_value_def copy_slice_def as_usize_def be_value_rev Let_def)
qed

theorem construct_deconstruct_witness:
  "\<exists>ptr'. deconstruct_value [1, 2, 3, 4, 5] 0x1122334455 3 True = ok ptr' \<and> construct_value ptr' 3 True = ok 0x334455"
  using construct_deconstruct [of 3 "[1, 2, 3, 4, 5]" "0x1122334455" True]
  by (auto simp: take_bit_eq_mod word_uint_eq_iff uint_mod)

text \<open>C9: refinement of a byte memory by the page overlay. On an overlay whose words have eight bytes (with narrower
  words a write across a word is not read back), over any bank
  that reads pages and words consistently, and for any offset (aligned or not, crossing a word or a page, or
  wrapping at the end of the address space), any size of one to eight bytes and either byte order,
  \<open>set_value\<close> succeeds and replaces exactly the bytes of the access by those of the value, leaving all other
  bytes and the invariant as they were, and \<open>get_value\<close> returns the value of the bytes at the offset.\<close>

theorem page_overlay_refines_bytes:
  assumes "page_inv b ul s" "1 \<le> n" "n \<le> 8" "val \<le> calc_mask (int n)" "wordsize b = 8"
  shows "\<exists>s'. set_value b bank_find bank_insert s off (int n) val = (s', ok ()) \<and> page_inv b ul s' \<and>
    (\<forall>a. mem_byte (big_endian b) bank_find s' a =
       (if unat (a - off) < n then val_byte (big_endian b) n val (unat (a - off)) else mem_byte (big_endian b) bank_find s a)) \<and>
    get_value b bank_find s off (int n) =
      ok (bytes_value (big_endian b) (map (\<lambda>j. mem_byte (big_endian b) bank_find s (off + of_nat j)) [0..<n]))"
proof -
  note v = fits_bits [OF assms(2-4)]
  obtain s' where s': "set_value b bank_find bank_insert s off (int n) val = (s', ok ())"
    using page.set_value_total [OF assms(1-3)] by blast
  note w = page.set_value_bytes [OF assms(1-3) v s']
  show ?thesis using s' w page.get_value_bytes [OF assms(1-3)] by blast
qed

definition example_space :: "bool \<Rightarrow> addr_space" where
  "example_space be = new_processor ''ram'' be 4 1 1 0 0 0"

lemma example_space [simp]:
  "as_index (example_space be) = 1" "as_type (example_space be) = Processor"
  "is_big_endian (example_space be) = be" "as_name (example_space be) = ''ram''"
  by (simp_all add: example_space_def new_processor_def)

lemma example_page_inv:
  "page_inv \<lparr>wordsize = 8, pagesize = 16, bank_space = example_space be\<rparr> None (new_page_overlay (example_space be) 8 16 None)"
proof -
  have "page_base \<lparr>wordsize = 8, pagesize = 16, bank_space = example_space be\<rparr>"
    by (auto simp: page_base_def intro!: exI [of _ 4])
  then show ?thesis using new_page_overlay_inv consistent_none by blast
qed

theorem page_overlay_refines_bytes_witness:
  "\<exists>s'. set_value \<lparr>wordsize = 8, pagesize = 16, bank_space = example_space True\<rparr> bank_find bank_insert
      (new_page_overlay (example_space True) 8 16 None) 13 4 0x11223344 = (s', ok ()) \<and>
    mem_byte True bank_find s' 14 = 0x22"
proof -
  have v: "(0x11223344 :: u64) \<le> calc_mask (int 4)" by code_simp
  obtain s' where s': "set_value \<lparr>wordsize = 8, pagesize = 16, bank_space = example_space True\<rparr> bank_find bank_insert
      (new_page_overlay (example_space True) 8 16 None) 13 (int 4) 0x11223344 = (s', ok ())"
    "mem_byte (big_endian \<lparr>wordsize = 8, pagesize = 16, bank_space = example_space True\<rparr>) bank_find s' 14 =
      (if unat (14 - 13 :: u64) < 4 then val_byte (big_endian \<lparr>wordsize = 8, pagesize = 16, bank_space = example_space True\<rparr>)
        4 0x11223344 (unat (14 - 13 :: u64)) else mem_byte (big_endian \<lparr>wordsize = 8, pagesize = 16, bank_space = example_space True\<rparr>)
        bank_find (new_page_overlay (example_space True) 8 16 None) 14)"
    using page_overlay_refines_bytes [OF example_page_inv _ _ v, of True 13] by (auto simp: numeral_eq_Suc)
  moreover have "val_byte True 4 0x11223344 1 = 0x22" by code_simp
  ultimately show ?thesis by (auto simp: big_endian_def)
qed

text \<open>C18: a hash overlay whose words have eight bytes keeps its table invariant and behaves as a byte memory as long as
  there is room (with narrower words a write across a word is not read back). A \<open>set_value\<close> of one to eight bytes that succeeds replaces exactly the bytes of the access, reading back gives the value, and no
  other address is affected, whatever collisions the table has; the invariant (every stored address is
  reached by its probe sequence before an empty slot) holds again afterwards.\<close>

theorem hash_overlay_refines_bytes:
  assumes "hash_inv b ul s" "1 \<le> n" "n \<le> 8" "val \<le> calc_mask (int n)"
    "wordsize b = 8" "set_value b bank_find bank_insert s off (int n) val = (s', ok ())"
  shows "hash_inv b ul s' \<and> get_value b bank_find s' off (int n) = ok val \<and>
    (\<forall>a. mem_byte (big_endian b) bank_find s' a =
       (if unat (a - off) < n then val_byte (big_endian b) n val (unat (a - off)) else mem_byte (big_endian b) bank_find s a))"
  using hash.set_value_bytes [OF assms(1-3) fits_bits [OF assms(2-4)] assms(6)]
    hash.get_value_set_value [OF assms(1-3) fits_bits [OF assms(2-4)] assms(6)] by blast

theorem hash_overlay_refines_bytes_witness:
  "\<exists>s'. set_value \<lparr>wordsize = 8, pagesize = 16, bank_space = example_space False\<rparr> bank_find bank_insert
      (empty_hash_overlay (example_space False) 8 16 4 None) 6 4 0x11223344 = (s', ok ()) \<and>
    get_value \<lparr>wordsize = 8, pagesize = 16, bank_space = example_space False\<rparr> bank_find s' 6 4 = ok 0x11223344"
proof -
  let ?b = "\<lparr>wordsize = 8, pagesize = 16, bank_space = example_space False\<rparr>"
  let ?r = "set_value ?b bank_find bank_insert (empty_hash_overlay (example_space False) 8 16 4 None) 6 (int 4) 0x11223344"
  have v: "(0x11223344 :: u64) \<le> calc_mask (int 4)" by code_simp
  have i: "hash_inv ?b None (empty_hash_overlay (example_space False) 8 16 4 None)"
    by (rule new_hash_overlay_inv) (simp_all add: under_total_def find_under_def)
  have "snd ?r = ok ()" by code_simp
  then have "?r = (fst ?r, ok ())" by (metis prod.collapse)
  from hash_overlay_refines_bytes [OF i _ _ v _ this] this show ?thesis by auto
qed

end
