(* ===== verification/Memory_Chunk.thy ===== *)
theory Memory_Chunk
  imports Memory_Overlay
begin

text \<open>
  Chunks of bytes on the page overlay: \<open>set_chunk\<close> and \<open>get_chunk\<close> cut a request at page boundaries; the
  loops end, and reading back a chunk gives the bytes written. Then the properties of \<open>MemoryState\<close>, the
  error of a full hash table, and two flaws of the default methods.
\<close>

section \<open>Bytes of the overlay's pages\<close>

definition pbyte :: "nat \<Rightarrow> (u64 \<rightharpoonup> u8 list) \<Rightarrow> u64 \<Rightarrow> u8 option" where
  "pbyte p page a = map_option (\<lambda>d. d ! page_off p a) (page (page_index p a))"

definition full_pages :: "nat \<Rightarrow> (u64 \<rightharpoonup> u8 list) \<Rightarrow> bool" where
  "full_pages p page \<longleftrightarrow> (\<forall>pa d. page pa = Some d \<longrightarrow> length d = 2 ^ p)"

lemma page_index_of_masked:
  assumes "pa AND mask p = 0" "i < 2 ^ p" "p \<le> 30"
  shows "page_index p (pa + of_nat i) = pa" "page_off p (pa + of_nat i) = i"
proof -
  have low: "\<not> bit pa n" if "n < p" for n
  proof
    assume "bit pa n"
    then have "bit (pa AND mask p) n" using that bit_u64_lt [of pa n] by (simp add: bit_and_iff bit_u64_mask)
    then show False using assms(1) by simp
  qed
  have m: "n < p" if "bit (of_nat i :: u64) n" for n
  proof -
    have "take_bit p i = i" using assms(2) by (simp add: take_bit_nat_eq_self_iff)
    then have "(of_nat i :: u64) = take_bit p (of_nat i)" by (metis take_bit_of_nat)
    then show ?thesis using that by (metis bit_u64_take)
  qed
  have add: "pa + of_nat i = pa OR of_nat i" by (rule disjunctive_add) (use low m in blast)
  show "page_index p (pa + of_nat i) = pa"
    unfolding add page_index_def
    by (rule u64_bit_eqI) (use low m in \<open>auto simp: bit_and_iff bit_or_iff bit_not_iff bit_u64_mask possible_bit_def\<close>)
  have "(pa + of_nat i) AND mask p = of_nat i"
    unfolding add by (rule u64_bit_eqI) (use low m in \<open>auto simp: bit_and_iff bit_or_iff bit_u64_mask\<close>)
  moreover have "i < 2 ^ 64" using assms(2,3) power_increasing [of p 64 "2 :: nat"] by simp
  ultimately show "page_off p (pa + of_nat i) = i"
    by (simp add: page_off_def unsigned_of_nat take_bit_nat_eq_self_iff)
qed

lemma page_index_add:
  assumes "page_off p a + i < 2 ^ p" "p \<le> 30"
  shows "page_index p (a + of_nat i) = page_index p a" "page_off p (a + of_nat i) = page_off p a + i"
proof -
  have "a + of_nat i = page_index p a + of_nat (page_off p a + i)"
    by (subst page_split [of a p]) (simp only: of_nat_add add.assoc)
  then show "page_index p (a + of_nat i) = page_index p a" "page_off p (a + of_nat i) = page_off p a + i"
    by (simp_all only: page_index_of_masked [OF page_index_masked assms])
qed

section \<open>One step of a chunk\<close>

lemma chunk_step_page:
  assumes "p \<le> 30" "count < sz" "sz < 2 ^ 31"
  shows "chunk_step (2 ^ p) off (int sz) (int count) =
    (page_index p off, int (page_off p off), int (min (2 ^ p - page_off p off) (sz - count)))"
proof -
  have lt: "page_off p off < 2 ^ p" by (simp add: page_off_mod)
  have "(2 :: nat) ^ p \<le> 2 ^ 30" using assms(1) by (intro power_increasing) auto
  then have b: "page_off p off < 2 ^ 30" using lt by linarith
  have sub: "off - page_index p off = of_nat (page_off p off)"
    using page_split [of off p] by (metis add_diff_cancel_left')
  have u: "uint (of_nat (page_off p off) :: u64) = int (page_off p off)"
    using b by (simp add: unsigned_of_nat take_bit_int_eq_self of_nat_take_bit)
  have "(if page_index p off \<noteq> off then wrap_i32 (uint (off - page_index p off)) else 0) = int (page_off p off)"
  proof (cases "page_index p off = off")
    case True
    then have "(of_nat (page_off p off) :: u64) = 0" using sub by simp
    then show ?thesis using True u by simp
  next
    case False
    then show ?thesis using b by (simp add: sub u wrap_i32_small)
  qed
  moreover have "int (2 ^ p - page_off p off) = 2 ^ p - int (page_off p off)" "int (sz - count) = int sz - int count"
    using lt assms(2) by (simp_all add: of_nat_diff)
  ultimately show ?thesis
    by (simp add: chunk_step_def align_mask_pow [OF assms(1)] page_index_def [symmetric] Let_def of_nat_min min_def)
qed

lemma set_page_ok:
  assumes "page_base b" "pagesize b = 2 ^ p" "p \<le> 30" "under_consistent b ul" "full_pages p page"
    and "pa AND mask p = 0" "skip + n \<le> 2 ^ p" "n \<le> length v"
  obtains d where "set_page (MemoryPageOverlay b ul page) pa v (int skip) (int n) =
      (MemoryPageOverlay b ul (page(pa \<mapsto> take skip d @ take n v @ drop (skip + n) d)), ok ())"
    "length d = 2 ^ p" "page pa = Some d \<or> page pa = None"
proof -
  have "\<exists>d. (case page pa of None \<Rightarrow> fresh_page b (if int n \<noteq> pagesize b then ul else None) pa | Some d \<Rightarrow> ok d) = ok d \<and>
      length d = 2 ^ p \<and> (page pa = Some d \<or> page pa = None)"
  proof (cases "page pa")
    case None
    have "\<exists>d. fresh_page b ul' pa = ok d \<and> length d = 2 ^ p" if "under_consistent b ul'" for ul'
      using that assms(2,6) align_mask_pow [OF assms(3)] by (auto simp: under_consistent_def)
    then show ?thesis using None assms(4) consistent_none [OF assms(1)] by auto
  next
    case (Some d)
    then show ?thesis using assms(5) by (auto simp: full_pages_def)
  qed
  then obtain d where d: "(case page pa of None \<Rightarrow> fresh_page b (if int n \<noteq> pagesize b then ul else None) pa | Some d \<Rightarrow> ok d) = ok d"
    "length d = 2 ^ p" "page pa = Some d \<or> page pa = None" by blast
  show ?thesis
    by (rule that [OF _ d(2,3)]) (use assms(7,8) d(1,2) in \<open>simp add: slice_def copy_slice_def min_def\<close>)
qed

section \<open>Writing a chunk\<close>

lemma splice_nth:
  assumes "skip + n \<le> length d" "n \<le> length v" "i < length d"
  shows "(take skip d @ take n v @ drop (skip + n) d) ! i = (if skip \<le> i \<and> i < skip + n then v ! (i - skip) else d ! i)"
  using assms by (auto simp: nth_append min_def)

lemma pbyte_set_page:
  assumes "page_off p a + n \<le> 2 ^ p" "n \<le> length v" "length d = 2 ^ p" "p \<le> 30"
    "page (page_index p a) = Some d \<or> page (page_index p a) = None"
  defines "page' \<equiv> page(page_index p a \<mapsto> take (page_off p a) d @ take n v @ drop (page_off p a + n) d)"
  shows "i < n \<Longrightarrow> pbyte p page' (a + of_nat i) = Some (v ! i)"
    "pbyte p page c = Some x \<Longrightarrow> (\<And>i. i < n \<Longrightarrow> c \<noteq> a + of_nat i) \<Longrightarrow> pbyte p page' c = Some x"
proof -
  show "pbyte p page' (a + of_nat i) = Some (v ! i)" if "i < n"
    using that assms(1-4) page_index_add [of p a i] splice_nth [of "page_off p a" n d v "page_off p a + i"]
    by (simp add: pbyte_def page'_def)
  assume c: "pbyte p page c = Some x" "\<And>i. i < n \<Longrightarrow> c \<noteq> a + of_nat i"
  show "pbyte p page' c = Some x"
  proof (cases "page_index p c = page_index p a")
    case True
    have "\<not> (page_off p a \<le> page_off p c \<and> page_off p c < page_off p a + n)"
    proof
      assume o: "page_off p a \<le> page_off p c \<and> page_off p c < page_off p a + n"
      have "a + of_nat (page_off p c - page_off p a) = page_index p a + of_nat (page_off p a + (page_off p c - page_off p a))"
        by (subst page_split [of a p]) (simp only: of_nat_add add.assoc)
      also have "page_off p a + (page_off p c - page_off p a) = page_off p c" using o by simp
      also have "page_index p a + of_nat (page_off p c) = c" unfolding True [symmetric] by (rule page_split [symmetric])
      finally have "c = a + of_nat (page_off p c - page_off p a)" ..
      moreover have "page_off p c - page_off p a < n" using o by linarith
      ultimately show False using c(2) by blast
    qed
    moreover have "page_off p c < 2 ^ p" by (simp add: page_off_mod)
    ultimately show ?thesis
      using c(1) True assms(1-3,5) splice_nth [of "page_off p a" n d v "page_off p c"] by (auto simp: pbyte_def page'_def)
  next
    case False
    then show ?thesis using c(1) by (simp add: pbyte_def page'_def)
  qed
qed

lemma offset_inj: "i < 2 ^ 31 \<Longrightarrow> j < 2 ^ 31 \<Longrightarrow> off + of_nat i = (off + of_nat j :: u64) \<Longrightarrow> i = j"
  using word_of_nat_eq_iff [where 'a = 64, of i j] by (simp add: take_bit_nat_eq_self)

lemma set_chunk_loop_ok:
  assumes "page_base b" "pagesize b = 2 ^ p" "p \<le> 30" "under_consistent b ul" "sz \<le> length val" "sz < 2 ^ 31"
    and "count \<le> sz" "full_pages p page"
  shows "\<exists>page'. set_chunk_loop (2 ^ p) set_page (int sz) val (off + of_nat count) (int count) (MemoryPageOverlay b ul page) =
      Some (MemoryPageOverlay b ul page', Inr ()) \<and> full_pages p page' \<and>
    (\<forall>j. count \<le> j \<longrightarrow> j < sz \<longrightarrow> pbyte p page' (off + of_nat j) = Some (val ! j)) \<and>
    (\<forall>a x. pbyte p page a = Some x \<longrightarrow> (\<forall>j. count \<le> j \<longrightarrow> j < sz \<longrightarrow> a \<noteq> off + of_nat j) \<longrightarrow> pbyte p page' a = Some x)"
  using assms(7,8)
proof (induction "sz - count" arbitrary: count page rule: less_induct)
  case less
  show ?case
  proof (cases "count = sz")
    case True
    then show ?thesis using less.prems(2) by (subst set_chunk_loop.simps) auto
  next
    case False
    then have lt: "count < sz" using less.prems(1) by simp
    let ?o = "off + of_nat count"
    let ?n = "min (2 ^ p - page_off p ?o) (sz - count)"
    have po: "page_off p ?o < 2 ^ p" by (simp add: page_off_mod)
    have n: "0 < ?n" "page_off p ?o + ?n \<le> 2 ^ p" "count + ?n \<le> sz" "?n \<le> length (drop count val)"
      using po lt assms(5) by auto
    obtain d where d: "set_page (MemoryPageOverlay b ul page) (page_index p ?o) (drop count val) (int (page_off p ?o)) (int ?n) =
        (MemoryPageOverlay b ul (page(page_index p ?o \<mapsto>
          take (page_off p ?o) d @ take ?n (drop count val) @ drop (page_off p ?o + ?n) d)), ok ())"
      "length d = 2 ^ p" "page (page_index p ?o) = Some d \<or> page (page_index p ?o) = None"
      by (rule set_page_ok [OF assms(1-4) less.prems(2) page_index_masked n(2,4)])
    let ?page = "page(page_index p ?o \<mapsto> take (page_off p ?o) d @ take ?n (drop count val) @ drop (page_off p ?o + ?n) d)"
    note b = pbyte_set_page [where page = page, OF n(2,4) d(2) assms(3) d(3)]
    have full: "full_pages p ?page" using less.prems(2) d(2) n(2,4) by (auto simp: full_pages_def min_def)
    have next_off: "?o + cxx_int (int ?n) = off + of_nat (count + ?n)" by (simp add: cxx_int_def)
    have "\<not> int (length val) < as_usize (int count)" using lt assms(5,6) by (simp add: as_usize_def)
    then have step: "set_chunk_loop (2 ^ p) set_page (int sz) val ?o (int count) (MemoryPageOverlay b ul page) =
        set_chunk_loop (2 ^ p) set_page (int sz) val (off + of_nat (count + ?n)) (int (count + ?n)) (MemoryPageOverlay b ul ?page)"
      using lt d(1) next_off
      by (subst set_chunk_loop.simps) (simp only: chunk_step_page [OF assms(3) lt assms(6)] of_nat_less_iff nat_int if_True if_False
          Let_def prod.case ok_def option.case sum.case of_nat_add simp_thms)
    have "sz - (count + ?n) < sz - count" using lt n(1) by linarith
    from less.hyps [OF this n(3) full] obtain page' where ih:
      "set_chunk_loop (2 ^ p) set_page (int sz) val (off + of_nat (count + ?n)) (int (count + ?n)) (MemoryPageOverlay b ul ?page) =
        Some (MemoryPageOverlay b ul page', Inr ())" "full_pages p page'"
      "\<And>j. count + ?n \<le> j \<Longrightarrow> j < sz \<Longrightarrow> pbyte p page' (off + of_nat j) = Some (val ! j)"
      "\<And>a x. pbyte p ?page a = Some x \<Longrightarrow> (\<forall>j. count + ?n \<le> j \<longrightarrow> j < sz \<longrightarrow> a \<noteq> off + of_nat j) \<Longrightarrow> pbyte p page' a = Some x"
      by blast
    have here: "pbyte p page' (off + of_nat j) = Some (val ! j)" if "count \<le> j" "j < count + ?n" for j
    proof (rule ih(4))
      show "pbyte p ?page (off + of_nat j) = Some (val ! j)"
      proof -
        have "j - count < ?n" using that by linarith
        from b(1) [OF this] show ?thesis using that(1) lt assms(5) by (simp add: of_nat_diff nth_drop)
      qed
      show "\<forall>j'. count + ?n \<le> j' \<longrightarrow> j' < sz \<longrightarrow> off + of_nat j \<noteq> off + of_nat j'"
        using offset_inj [of j _ off] that n(3) assms(6) by (metis less_le_trans less_trans not_le)
    qed
    have "pbyte p page' a = Some x"
      if "pbyte p page a = Some x" "\<And>j. count \<le> j \<Longrightarrow> j < sz \<Longrightarrow> a \<noteq> off + of_nat j" for a x
    proof (rule ih(4))
      have "a \<noteq> ?o + of_nat i" if "i < ?n" for i
        using \<open>\<And>j. count \<le> j \<Longrightarrow> j < sz \<Longrightarrow> a \<noteq> off + of_nat j\<close> [of "count + i"] that n(3) by (simp add: add.assoc)
      then show "pbyte p ?page a = Some x" by (rule b(2) [OF that(1)])
      show "\<forall>j. count + ?n \<le> j \<longrightarrow> j < sz \<longrightarrow> a \<noteq> off + of_nat j" using that(2) by auto
    qed
    then show ?thesis using step ih(1-3) here by (metis not_le)
  qed
qed

section \<open>Reading a chunk\<close>

lemma take_prefix: "length xs = n \<Longrightarrow> take n (xs @ ys) = xs"
  by simp

lemma get_chunk_loop_ok:
  assumes "p \<le> 30" "sz \<le> length res" "sz < 2 ^ 31" "full_pages p page" "length f = sz"
    and "\<And>j. j < sz \<Longrightarrow> pbyte p page (off + of_nat j) = Some (f ! j)" "count \<le> sz" "take count res = take count f"
  shows "get_chunk_loop (2 ^ p) (get_page (MemoryPageOverlay b ul page)) (int sz) res (off + of_nat count) (int count) =
    ok (f @ drop sz res)"
  using assms(2,7,8)
proof (induction "sz - count" arbitrary: count res rule: less_induct)
  case less
  show ?case
  proof (cases "count = sz")
    case True
    then show ?thesis
      using less.prems assms(5) append_take_drop_id [of sz res] by (subst get_chunk_loop.simps) simp
  next
    case False
    then have lt: "count < sz" using less.prems(2) by simp
    let ?o = "off + of_nat count"
    let ?n = "min (2 ^ p - page_off p ?o) (sz - count)"
    have po: "page_off p ?o < 2 ^ p" by (simp add: page_off_mod)
    have n: "0 < ?n" "page_off p ?o + ?n \<le> 2 ^ p" "count + ?n \<le> sz" "?n \<le> length (drop count res)"
      using po lt less.prems(1) by auto
    obtain d where d: "page (page_index p ?o) = Some d" "length d = 2 ^ p"
      using assms(4) assms(6) [OF lt] by (auto simp: pbyte_def full_pages_def)
    let ?part = "take ?n (drop (page_off p ?o) d)"
    have part: "?part = take ?n (drop count f)"
    proof (rule nth_equalityI)
      show "length ?part = length (take ?n (drop count f))" using n(2,3) d(2) assms(5) by simp
      fix i
      assume "i < length ?part"
      then have i: "i < ?n" by simp
      then have "pbyte p page (?o + of_nat i) = Some (f ! (count + i))"
      proof -
        have "count + i < sz" using i n(3) by linarith
        from assms(6) [OF this] show ?thesis by (simp add: add.assoc)
      qed
      moreover have "page_off p ?o + i < 2 ^ p" using i n(2) by linarith
      ultimately have "d ! (page_off p ?o + i) = f ! (count + i)"
        using page_index_add [OF _ assms(1), of ?o i] d(1) by (simp add: pbyte_def)
      then show "?part ! i = take ?n (drop count f) ! i" using i n(2,3) d(2) assms(5) by simp
    qed
    let ?res = "take count res @ ?part @ drop ?n (drop count res)"
    have lp: "length ?part = ?n" using n(2) d(2) by simp
    have gp: "get_page (MemoryPageOverlay b ul page) (page_index p ?o) (drop count res) (int (page_off p ?o)) (int ?n) =
        ok (?part @ drop ?n (drop count res))"
      using d n(2,4) lp by (simp add: slice_def copy_slice_def)
    have next_off: "?o + cxx_int (int ?n) = off + of_nat (count + ?n)" by (simp add: cxx_int_def)
    have "\<not> int (length res) < as_usize (int count)" using lt less.prems(1) assms(3) by (simp add: as_usize_def)
    then have step: "get_chunk_loop (2 ^ p) (get_page (MemoryPageOverlay b ul page)) (int sz) res ?o (int count) =
        get_chunk_loop (2 ^ p) (get_page (MemoryPageOverlay b ul page)) (int sz) ?res (off + of_nat (count + ?n)) (int (count + ?n))"
      using lt gp next_off
      by (subst get_chunk_loop.simps) (simp only: chunk_step_page [OF assms(1) lt assms(3)] of_nat_less_iff nat_int if_True if_False
          Let_def prod.case ok_def option.case sum.case of_nat_add simp_thms)
    have smaller: "sz - (count + ?n) < sz - count" using lt n(1) by linarith
    have l: "length (take count res @ ?part) = count + ?n" using lp lt less.prems(1) by simp
    have "?res = (take count res @ ?part) @ drop ?n (drop count res)" by (simp only: append.assoc)
    then have "take (count + ?n) ?res = take count res @ ?part" using take_prefix [OF l] by (simp only:)
    then have "take (count + ?n) ?res = take (count + ?n) f" by (simp only: less.prems(3) part take_add)
    moreover have "sz \<le> length ?res" using less.prems(1) lp n(3,4) by simp
    ultimately have "get_chunk_loop (2 ^ p) (get_page (MemoryPageOverlay b ul page)) (int sz) ?res (off + of_nat (count + ?n)) (int (count + ?n)) =
        ok (f @ drop sz ?res)"
      using less.hyps [OF smaller _ n(3)] by blast
    moreover have "drop sz ?res = drop sz res" using less.prems(1) lp lt n(3,4) by simp
    ultimately show ?thesis using step by simp
  qed
qed

section \<open>Properties\<close>

text \<open>C31: a chunk written to a page overlay is read back. For any offset and any size below \<open>2 ^ 31\<close>, with
  any page size that is a power of two from 8 to \<open>2 ^ 30\<close>, both loops end without an error, the invariant is
  kept, and \<open>get_chunk\<close> returns the bytes that \<open>set_chunk\<close> wrote, whatever was in the buffer before.\<close>

theorem chunk_roundtrip:
  assumes "page_inv b ul bank" "length val = sz" "sz \<le> length buf" "sz < 2 ^ 31"
  shows "case set_chunk b set_page bank off (int sz) val of (bank', r) \<Rightarrow> r = ok () \<and> page_inv b ul bank' \<and>
    get_chunk b (get_page bank') off (int sz) buf = ok (val @ drop sz buf)"
proof -
  obtain p page where e: "p \<le> 30" "pagesize b = 2 ^ p" "under_consistent b ul" "page_base b"
    "bank = MemoryPageOverlay b ul page" "full_pages p page"
    using assms(1) by (auto simp: page_inv_def page_base_def full_pages_def)
  obtain page' where s: "set_chunk_loop (2 ^ p) set_page (int sz) val off 0 bank = Some (MemoryPageOverlay b ul page', Inr ())"
    "full_pages p page'" "\<And>j. j < sz \<Longrightarrow> pbyte p page' (off + of_nat j) = Some (val ! j)"
    using set_chunk_loop_ok [OF e(4,2,1,3) _ assms(4) _ e(6), where val = val and off = off and count = 0] assms(2) e(5) by auto
  have "get_chunk b (get_page (MemoryPageOverlay b ul page')) off (int sz) buf = ok (val @ drop sz buf)"
    using get_chunk_loop_ok [OF e(1) assms(3,4) s(2) assms(2) s(3), where count = 0] e(2) by (simp add: get_chunk_def)
  moreover have "page_inv b ul (MemoryPageOverlay b ul page')"
    using e s(2) by (auto simp: page_inv_def full_pages_def)
  ultimately show ?thesis using s(1) e(2) by (simp add: set_chunk_def ok_def)
qed

theorem chunk_roundtrip_witness:
  "get_chunk \<lparr>wordsize = 8, pagesize = 16, bank_space = example_space False\<rparr>
     (get_page (fst (set_chunk \<lparr>wordsize = 8, pagesize = 16, bank_space = example_space False\<rparr> set_page
        (new_page_overlay (example_space False) 8 16 None) 13 5 [1, 2, 3, 4, 5]))) 13 5 [0, 0, 0, 0, 0, 9] = ok [1, 2, 3, 4, 5, 9]"
  using chunk_roundtrip [OF example_page_inv [of False], where val = "[1, 2, 3, 4, 5]" and sz = 5 and off = 13
      and buf = "[0, 0, 0, 0, 0, 9]"]
  by (auto split: prod.splits)

text \<open>C36: the hash overlay reports a full table exactly when its probe sequence has neither the address nor an
  empty slot, and then leaves the bank unchanged; otherwise the insertion succeeds. On a table within the
  invariant it never panics and never fails in another way.\<close>

theorem hash_insert_outcome:
  assumes "hash_inv b ul (MemoryHashOverlay b ul sh skip tab vals)"
  shows "if \<exists>i < length tab. tab ! probe (length tab) sh skip addr i \<in> {addr, EMPTY_SLOT}
    then snd (bank_insert (MemoryHashOverlay b ul sh skip tab vals) addr val) = ok ()
    else bank_insert (MemoryHashOverlay b ul sh skip tab vals) addr val =
      (MemoryHashOverlay b ul sh skip tab vals, err table_full)"
proof -
  have "hash_probe tab sh skip addr = None \<longleftrightarrow>
      \<not> (\<exists>i < length tab. tab ! probe (length tab) sh skip addr i \<in> {addr, EMPTY_SLOT})"
    by (auto simp: hash_probe_def hash_slot_None probe_def hits_def)
  moreover have "tab \<noteq> []" using assms by (auto simp: hash_inv_def)
  ultimately show ?thesis by (auto split: option.split)
qed

theorem hash_insert_outcome_witness:
  "bank_insert (MemoryHashOverlay \<lparr>wordsize = 8, pagesize = 16, bank_space = example_space False\<rparr> None 3 1023 [8] [5]) 16 7 =
     (MemoryHashOverlay \<lparr>wordsize = 8, pagesize = 16, bank_space = example_space False\<rparr> None 3 1023 [8] [5], err table_full)"
proof -
  have p: "probe 1 sh skip a i = 0" for sh skip a i using probe_lt [of "[0]" sh skip a i] by simp
  have "found [8] 3 1023 8 = Some 0" by (simp add: found_Some p [simplified])
  then have "table_inv [8] 3 1023" by (auto simp: table_inv_def p [simplified])
  then have "hash_inv \<lparr>wordsize = 8, pagesize = 16, bank_space = example_space False\<rparr> None
      (MemoryHashOverlay \<lparr>wordsize = 8, pagesize = 16, bank_space = example_space False\<rparr> None 3 1023 [8] [5])"
    by (simp add: hash_inv_def under_total_def find_under_def)
  from hash_insert_outcome [OF this, of 16 7] show ?thesis by (simp add: p [simplified] EMPTY_SLOT_def)
qed

lemma get_put_bank:
  assumes "set_memory_bank banks bank = ok st"
  shows "get_memory_bank st spc' = (if as_index spc' = as_index (bank_space (base bank)) then Some bank else get_memory_bank banks spc')"
    "0 \<le> as_index (bank_space (base bank))"
  using assms by (auto simp: set_memory_bank_def put_bank_def get_memory_bank_def Let_def nth_append nth_list_update split: if_splits)

lemma get_bank_update:
  assumes "get_memory_bank st spc = Some bank"
  shows "get_memory_bank (st[nat (as_index spc) := Some bank']) spc' =
    (if as_index spc' = as_index spc then Some bank' else get_memory_bank st spc')"
  using assms by (auto simp: get_memory_bank_def Let_def nth_list_update split: if_splits)

lemma unmapped_errors:
  assumes "get_memory_bank st spc = None"
  shows "state_set_value st spc off n v = (st, err (Lowlevel (''Setting value for unmapped memory space: '' @ as_name spc)))"
    "as_type spc \<noteq> Constant \<Longrightarrow> state_get_value st spc off n = err (Lowlevel (''Getting value from unmapped memory space: '' @ as_name spc))"
  using assms by (simp_all add: state_set_value_def state_get_value_def with_bank_def)

text \<open>The value of a space depends only on the bank at its index.\<close>

lemma state_get_cong: "get_memory_bank st' spc = get_memory_bank st spc \<Longrightarrow> state_get_value st' spc off n = state_get_value st spc off n"
  by (simp add: state_get_value_def with_bank_def split: option.split)


lemma install_example: "set_memory_bank [] (new_page_overlay (example_space be) 8 16 None) =
  ok (put_bank [] 1 (new_page_overlay (example_space be) 8 16 None))"
  by (simp add: set_memory_bank_def new_page_overlay_def)


section \<open>Where the default methods go wrong\<close>

text \<open>With words of four bytes, a value that crosses two words is not read back: the shift of all ones assumes
  eight-byte words, so the old bytes of the first word are not cleared.\<close>

definition narrow_bank :: memory_bank where
  "narrow_bank = fst (set_value \<lparr>wordsize = 4, pagesize = 16, bank_space = example_space False\<rparr> bank_find bank_insert
     (empty_hash_overlay (example_space False) 4 16 8 None) 0 4 0xffffffff)"

lemma narrow_words_wrong:
  "get_value (base narrow_bank) bank_find
     (fst (set_value (base narrow_bank) bank_find bank_insert narrow_bank 2 4 0x11223344)) 2 4 = ok 0x1122ffff"
  by code_simp

text \<open>The default \<open>get_page\<close> compares with the page address instead of the address of the first byte, so
  an unaligned chunk of a hash overlay starts at the word boundary and overruns the buffer.\<close>

lemma unaligned_chunk_panics:
  "get_chunk (base (empty_hash_overlay (example_space False) 8 16 4 None))
     (get_page (empty_hash_overlay (example_space False) 8 16 4 None)) 3 4 [0, 0, 0, 0] = panic"
  by code_simp

text \<open>With one-byte words, the address that marks empty slots can be stored and is lost again.\<close>

lemma marker_address_lost:
  "bank_find (fst (bank_insert (fst (bank_insert (empty_hash_overlay (example_space False) 1 16 1 None) EMPTY_SLOT 7)) 5 9))
     EMPTY_SLOT = ok 0"
  by code_simp

end
