(* ===== verification/Address.thy ===== *)
theory Address
  imports Space Run "HOL-Library.Product_Lexorder" "HOL-Library.Option_ord"
begin

text \<open>
  Addresses and sequence numbers, src/src/address.rs: an offset in a space, or no space at all. Equality,
  hashing and the order of addresses only look at the index of the space and at the offset, so these are the
  key of an address. Operations that call \<open>base\<close> panic on an invalid address.
\<close>

section \<open>Data and order\<close>

datatype mach_extreme = Minimal | Maximal

record address =
  ad_space :: "addr_space option"
  ad_offset :: u64

definition space_index :: "addr_space option \<Rightarrow> i32 option" where
  "space_index spc = map_option as_index spc"

definition new_address :: "addr_space \<Rightarrow> u64 \<Rightarrow> address" where
  "new_address spc off = \<lparr>ad_space = Some spc, ad_offset = off\<rparr>"

definition invalid_address :: address where
  "invalid_address = \<lparr>ad_space = None, ad_offset = 0\<rparr>"

definition extreme_address :: "mach_extreme \<Rightarrow> address" where
  "extreme_address ex =
     (case ex of Minimal \<Rightarrow> \<lparr>ad_space = None, ad_offset = 0\<rparr>
      | Maximal \<Rightarrow> \<lparr>ad_space = Some maximal_space, ad_offset = NOT 0\<rparr>)"

definition is_invalid :: "address \<Rightarrow> bool" where
  "is_invalid a \<longleftrightarrow> ad_space a = None"

type_synonym address_key = "int \<times> u64"

definition ordering_key :: "address \<Rightarrow> address_key" where
  "ordering_key a = ((case ad_space a of None \<Rightarrow> -1 | Some spc \<Rightarrow> as_index spc), ad_offset a)"

definition same_base :: "address \<Rightarrow> address \<Rightarrow> bool" where
  "same_base a b \<longleftrightarrow> space_index (ad_space a) = space_index (ad_space b)"

definition addr_eq :: "address \<Rightarrow> address \<Rightarrow> bool" where
  "addr_eq a b \<longleftrightarrow> same_base a b \<and> ad_offset a = ad_offset b"

definition then_cmp :: "ordering \<Rightarrow> ordering \<Rightarrow> ordering" where
  "then_cmp c d = (case c of Equal \<Rightarrow> d | _ \<Rightarrow> c)"

definition cmp_u64 :: "u64 \<Rightarrow> u64 \<Rightarrow> ordering" where
  "cmp_u64 x y = (if x < y then Less else if y < x then Greater else Equal)"

definition addr_cmp :: "address \<Rightarrow> address \<Rightarrow> ordering" where
  "addr_cmp a b =
     (case (ad_space a, ad_space b) of
        (None, None) \<Rightarrow> cmp_u64 (ad_offset a) (ad_offset b)
      | (None, Some _) \<Rightarrow> Less
      | (Some _, None) \<Rightarrow> Greater
      | (Some l, Some r) \<Rightarrow> then_cmp (cmp_int (as_index l) (as_index r)) (cmp_u64 (ad_offset a) (ad_offset b)))"

text \<open>What equality and order look at; \<open>None\<close> is below every index.\<close>

definition addr_key :: "address \<Rightarrow> i32 option \<times> u64" where
  "addr_key a = (space_index (ad_space a), ad_offset a)"

section \<open>Arithmetic\<close>

definition base_space :: "address \<Rightarrow> addr_space run" where
  "base_space a = (case ad_space a of None \<Rightarrow> panic | Some spc \<Rightarrow> ok spc)"

definition address_add :: "address \<Rightarrow> u64 \<Rightarrow> address run" where
  "address_add a off = run_bind (base_space a) (\<lambda>base. ok (a\<lparr>ad_offset := wrap_offset base (ad_offset a + off)\<rparr>))"

definition address_sub :: "address \<Rightarrow> u64 \<Rightarrow> address run" where
  "address_sub a off = run_bind (base_space a) (\<lambda>base. ok (a\<lparr>ad_offset := wrap_offset base (ad_offset a - off)\<rparr>))"

definition is_valid_range :: "address \<Rightarrow> u64 \<Rightarrow> bool run" where
  "is_valid_range a sz = run_bind (base_space a) (\<lambda>base. ok (sz - 1 \<le> as_highest base - ad_offset a))"

definition contained_by :: "address \<Rightarrow> i32 \<Rightarrow> address \<Rightarrow> i32 \<Rightarrow> bool" where
  "contained_by a sz op2 sz2 =
     (if \<not> same_base a op2 then False
      else if ad_offset op2 > ad_offset a then False
      else ad_offset op2 + word_of_int (sz2 - 1) \<ge> ad_offset a + word_of_int (sz - 1))"

definition justified_contain :: "address \<Rightarrow> i32 \<Rightarrow> address \<Rightarrow> i32 \<Rightarrow> bool \<Rightarrow> i32 run" where
  "justified_contain a sz op2 sz2 forceleft =
     (if \<not> same_base a op2 then ok (-1)
      else if ad_offset op2 < ad_offset a then ok (-1)
      else let off1 = ad_offset a + word_of_int (sz - 1); off2 = ad_offset op2 + word_of_int (sz2 - 1) in
        if off2 > off1 then ok (-1)
        else run_bind (base_space a) (\<lambda>base.
          if is_big_endian base \<and> \<not> forceleft then ok (wrap_i32 (uint (off1 - off2)))
          else ok (wrap_i32 (uint (ad_offset op2 - ad_offset a)))))"

definition overlap :: "address \<Rightarrow> i32 \<Rightarrow> address \<Rightarrow> i32 \<Rightarrow> i32 run" where
  "overlap a skip op sz =
     (if \<not> same_base a op then ok (-1)
      else run_bind (base_space a) (\<lambda>base.
        if as_type base = Constant then ok (-1)
        else let dist = wrap_offset base (ad_offset a + cxx_int skip - ad_offset op) in
          if dist \<ge> cxx_int sz then ok (-1) else ok (wrap_i32 (uint dist))))"

definition is_contiguous :: "address \<Rightarrow> i32 \<Rightarrow> address \<Rightarrow> i32 \<Rightarrow> bool run" where
  "is_contiguous a sz loaddr losz =
     (if \<not> same_base a loaddr then ok False
      else run_bind (base_space a) (\<lambda>base.
        if is_big_endian base then ok (wrap_offset base (ad_offset a + cxx_int sz) = ad_offset loaddr)
        else ok (wrap_offset base (ad_offset loaddr + cxx_int losz) = ad_offset a)))"

definition is_constant :: "address \<Rightarrow> bool run" where
  "is_constant a = run_bind (base_space a) (\<lambda>base. ok (as_type base = Constant))"

definition is_join :: "address \<Rightarrow> bool run" where
  "is_join a = run_bind (base_space a) (\<lambda>base. ok (as_type base = Join))"

section \<open>Sequence numbers\<close>

record seqnum =
  sq_pc :: address
  sq_uniq :: u32
  sq_order :: u32

definition new_seqnum :: "address \<Rightarrow> u32 \<Rightarrow> seqnum" where
  "new_seqnum pc uniq = \<lparr>sq_pc = pc, sq_uniq = uniq, sq_order = 0\<rparr>"

definition extreme_seqnum :: "mach_extreme \<Rightarrow> seqnum" where
  "extreme_seqnum ex =
     \<lparr>sq_pc = extreme_address ex, sq_uniq = (if ex = Minimal then 0 else NOT 0), sq_order = 0\<rparr>"

definition seq_key :: "seqnum \<Rightarrow> address_key \<times> u32" where
  "seq_key s = (ordering_key (sq_pc s), sq_uniq s)"

definition set_order :: "u32 \<Rightarrow> seqnum \<Rightarrow> seqnum" where
  "set_order ord s = s\<lparr>sq_order := ord\<rparr>"

definition seq_eq :: "seqnum \<Rightarrow> seqnum \<Rightarrow> bool" where
  "seq_eq s t \<longleftrightarrow> sq_uniq s = sq_uniq t"

definition cmp_u32 :: "u32 \<Rightarrow> u32 \<Rightarrow> ordering" where
  "cmp_u32 x y = (if x < y then Less else if y < x then Greater else Equal)"

definition seq_cmp :: "seqnum \<Rightarrow> seqnum \<Rightarrow> ordering" where
  "seq_cmp s t =
     (if addr_eq (sq_pc s) (sq_pc t) then cmp_u32 (sq_uniq s) (sq_uniq t) else addr_cmp (sq_pc s) (sq_pc t))"

section \<open>The order\<close>

definition cmp_of :: "'a::linorder \<Rightarrow> 'a \<Rightarrow> ordering" where
  "cmp_of x y = (if x < y then Less else if y < x then Greater else Equal)"

lemmas cmp_defs = cmp_of_def cmp_int_def cmp_u64_def cmp_u32_def then_cmp_def

lemma addr_cmp_key: "addr_cmp a b = cmp_of (addr_key a) (addr_key b)"
  by (auto simp: addr_cmp_def addr_key_def space_index_def cmp_defs less_prod_def' split: option.splits)

lemma addr_eq_key: "addr_eq a b \<longleftrightarrow> addr_key a = addr_key b"
  by (auto simp: addr_eq_def same_base_def addr_key_def)

text \<open>C37: \<open>Address\<close>, \<open>AddressKey\<close> and \<open>SeqNum\<close> have one order. Comparing addresses is comparing the keys, a
  linear order whose \<open>Equal\<close> is the equality of addresses; the key of a sequence number orders as the
  sequence number does; and the extreme addresses bound every address whose space has a proper index.\<close>
theorem address_order:
  assumes "\<And>spc. ad_space a = Some spc \<Longrightarrow> 0 \<le> as_index spc \<and> as_index spc < 2 ^ 31 - 1"
    and "\<And>spc. ad_space b = Some spc \<Longrightarrow> 0 \<le> as_index spc \<and> as_index spc < 2 ^ 31 - 1"
    and "sq_pc s = a" "sq_pc t = b"
  shows "addr_cmp a b = cmp_of (ordering_key a) (ordering_key b)
    \<and> (addr_cmp a b = Equal \<longleftrightarrow> addr_eq a b)
    \<and> seq_cmp s t = cmp_of (seq_key s) (seq_key t)
    \<and> (ad_space a \<noteq> None \<longrightarrow> addr_cmp (extreme_address Minimal) a = Less) \<and> addr_cmp a (extreme_address Maximal) = Less"
proof (intro conjI impI)
  show "addr_cmp a b = cmp_of (ordering_key a) (ordering_key b)" using assms(1,2)
    by (auto simp: addr_cmp_def ordering_key_def cmp_defs less_prod_def' split: option.splits)
  show "addr_cmp a b = Equal \<longleftrightarrow> addr_eq a b"
    by (auto simp: addr_cmp_key addr_eq_key cmp_of_def)
  show "seq_cmp s t = cmp_of (seq_key s) (seq_key t)" using assms
    by (auto simp: seq_cmp_def addr_cmp_def addr_eq_def same_base_def space_index_def seq_key_def ordering_key_def
        cmp_defs less_prod_def' split: option.splits)
  show "addr_cmp (extreme_address Minimal) a = Less" if "ad_space a \<noteq> None"
    using that by (auto simp: addr_cmp_def extreme_address_def)
  show "addr_cmp a (extreme_address Maximal) = Less" using assms(1)
    by (auto simp: addr_cmp_def extreme_address_def maximal_space_def cmp_defs split: option.splits)
qed

lemma address_order_witness:
  "addr_cmp (new_address (new_processor ''ram'' False 4 1 3 0 1 1) 0x100) (new_address (new_processor ''ram'' False 4 1 3 0 1 1) 0x200) = Less"
proof -
  let ?a = "new_address (new_processor ''ram'' False 4 1 3 0 1 1)"
  have "addr_cmp (?a 0x100) (?a 0x200) = cmp_of (ordering_key (?a 0x100)) (ordering_key (?a 0x200))"
    using address_order [of "?a 0x100" "?a 0x200" "new_seqnum (?a 0x100) 0" "new_seqnum (?a 0x200) 0"]
    by (simp add: new_address_def new_processor_def new_seqnum_def)
  then show ?thesis by (simp add: cmp_of_def ordering_key_def new_address_def less_prod_def')
qed

section \<open>Containment\<close>

definition addr_bytes :: "address \<Rightarrow> i32 \<Rightarrow> int set" where
  "addr_bytes a sz = {uint (ad_offset a) ..< uint (ad_offset a) + sz}"

lemma addr_bytes_subset:
  "1 \<le> sz \<Longrightarrow> addr_bytes a sz \<subseteq> addr_bytes b sz2 \<longleftrightarrow>
     uint (ad_offset b) \<le> uint (ad_offset a) \<and> uint (ad_offset a) + sz \<le> uint (ad_offset b) + sz2"
  by (auto simp: addr_bytes_def ivl_subset)

lemma uint_end:
  fixes off :: u64
  assumes "1 \<le> sz" "uint off + sz \<le> 2 ^ 64"
  shows "uint (off + (word_of_int sz - 1)) = uint off + sz - 1"
proof -
  have "off + (word_of_int sz - 1) = word_of_int (uint off + (sz - 1))" by simp
  moreover have "0 \<le> uint off + (sz - 1)" "uint off + (sz - 1) < 2 ^ 64" using assms by simp_all
  ultimately show ?thesis by (simp add: unsigned_of_int take_bit_int_eq_self del: of_int_add of_int_diff)
qed

lemma uint_minus: "b \<le> a \<Longrightarrow> uint (a - b) = uint a - uint (b :: u64)"
  by (simp add: uint_sub_if' word_le_def)

text \<open>\<open>contained_by\<close> and \<open>justified_contain\<close> decide containment of byte ranges. For ranges that do not
  run over the end of the 64-bit offsets, \<open>contained_by\<close> is inclusion in one space; \<open>justified_contain\<close>
  returns \<open>-1\<close> exactly when the second range is not inside the first, and otherwise the number of bytes of the
  container that are less significant than the contained range (counted from the left when asked to).\<close>
theorem address_containment:
  assumes "1 \<le> sz" "sz < 2 ^ 31" "1 \<le> sz2" "sz2 < 2 ^ 31"
    and "uint (ad_offset a) + sz \<le> 2 ^ 64" "uint (ad_offset b) + sz2 \<le> 2 ^ 64" "ad_space a = Some spc"
  shows "(contained_by a sz b sz2 \<longleftrightarrow> same_base a b \<and> addr_bytes a sz \<subseteq> addr_bytes b sz2)
    \<and> justified_contain a sz b sz2 forceleft = ok
        (if \<not> (same_base a b \<and> addr_bytes b sz2 \<subseteq> addr_bytes a sz) then -1
         else if is_big_endian spc \<and> \<not> forceleft
         then (uint (ad_offset a) + sz) - (uint (ad_offset b) + sz2)
         else uint (ad_offset b) - uint (ad_offset a))"
proof
  let ?a = "ad_offset a" and ?b = "ad_offset b"
  note e = uint_end [OF assms(1,5)] uint_end [OF assms(3,6)]
  show "contained_by a sz b sz2 \<longleftrightarrow> same_base a b \<and> addr_bytes a sz \<subseteq> addr_bytes b sz2"
    unfolding contained_by_def addr_bytes_subset [OF assms(1)] by (auto simp: word_le_def word_less_def e)
  show "justified_contain a sz b sz2 forceleft = ok
        (if \<not> (same_base a b \<and> addr_bytes b sz2 \<subseteq> addr_bytes a sz) then -1
         else if is_big_endian spc \<and> \<not> forceleft then (uint ?a + sz) - (uint ?b + sz2) else uint ?b - uint ?a)"
  proof (cases "same_base a b \<and> addr_bytes b sz2 \<subseteq> addr_bytes a sz")
    case True
    then have le: "uint ?a \<le> uint ?b" "uint ?b + sz2 \<le> uint ?a + sz" "same_base a b"
      using addr_bytes_subset [OF assms(3)] by auto
    have d: "uint (?b - ?a) = uint ?b - uint ?a" using le by (simp add: uint_minus word_le_def)
    have "?b + (word_of_int sz2 - 1) \<le> ?a + (word_of_int sz - 1)" using le e by (simp add: word_le_def)
    then have d2: "uint (?a + (word_of_int sz - 1) - (?b + (word_of_int sz2 - 1))) = uint ?a + sz - (uint ?b + sz2)"
      using e by (subst uint_minus) auto
    show ?thesis using True le e assms d d2
      by (simp add: justified_contain_def Let_def base_space_def word_less_def wrap_i32_small)
  next
    case False
    then show ?thesis using e addr_bytes_subset [OF assms(3), of b a sz]
      by (auto simp: justified_contain_def Let_def word_less_def)
  qed
qed

lemma address_containment_witness:
  "justified_contain (new_address (new_processor ''ram'' True 4 1 3 0 1 1) 0x100) 8
     (new_address (new_processor ''ram'' True 4 1 3 0 1 1) 0x102) 4 False = ok 2"
proof -
  let ?spc = "new_processor ''ram'' True 4 1 3 0 1 1"
  have "is_big_endian ?spc" by (simp add: new_processor_def)
  then show ?thesis using address_containment [of 8 4 "new_address ?spc 0x100" "new_address ?spc 0x102" ?spc False]
    by (simp add: new_address_def same_base_def addr_bytes_subset)
qed

end
