(* ===== verification/BTree.thy ===== *)
theory BTree
  imports Run "HOL-Library.Product_Lexorder"
begin

text \<open>
  What the sources use of \<open>std::collections::BTreeMap\<close> and \<open>BTreeSet\<close>: lookup, insertion, removal and the
  iterators over a range of keys. A tree is the list of its entries in the order of its iterator, by
  increasing key. The locale \<open>ordered_map\<close> states what a client may rely on; the partition maps and the
  range lists are proved inside it or from its interpretation on the lists.
\<close>

type_synonym ('k, 'v) btree = "('k \<times> 'v) list"

section \<open>Operations\<close>

definition bt_get :: "('k, 'v) btree \<Rightarrow> 'k \<Rightarrow> 'v option" where
  "bt_get t k = map_of t k"

fun bt_insert :: "'k::linorder \<Rightarrow> 'v \<Rightarrow> ('k, 'v) btree \<Rightarrow> ('k, 'v) btree" where
  "bt_insert k v [] = [(k, v)]"
| "bt_insert k v ((j, w) # t) =
     (if k < j then (k, v) # (j, w) # t else if k = j then (k, v) # t else (j, w) # bt_insert k v t)"

definition bt_remove :: "'k \<Rightarrow> ('k, 'v) btree \<Rightarrow> ('k, 'v) btree" where
  "bt_remove k t = filter (\<lambda>(j, _). j \<noteq> k) t"

text \<open>\<open>next_back\<close> of an iterator, and \<open>next\<close>.\<close>

fun last_of :: "'a list \<Rightarrow> 'a option" where
  "last_of [] = None"
| "last_of [x] = Some x"
| "last_of (x # y # xs) = last_of (y # xs)"

definition first_of :: "'a list \<Rightarrow> 'a option" where
  "first_of xs = (case xs of [] \<Rightarrow> None | x # _ \<Rightarrow> Some x)"

text \<open>The entries of \<open>range(..=k)\<close>, \<open>range(k..)\<close> and \<open>range((Excluded(k), Unbounded))\<close>.\<close>

definition bt_upto :: "'k::linorder \<Rightarrow> ('k, 'v) btree \<Rightarrow> ('k, 'v) btree" where
  "bt_upto k t = filter (\<lambda>(j, _). j \<le> k) t"

definition bt_from :: "'k::linorder \<Rightarrow> ('k, 'v) btree \<Rightarrow> ('k, 'v) btree" where
  "bt_from k t = filter (\<lambda>(j, _). k \<le> j) t"

definition bt_above :: "'k::linorder \<Rightarrow> ('k, 'v) btree \<Rightarrow> ('k, 'v) btree" where
  "bt_above k t = filter (\<lambda>(j, _). k < j) t"

text \<open>
  \<open>range\<close> with two bounds panics when the start is above the end, and when both exclude the same key.
\<close>

definition bt_between_incl :: "'k::linorder \<Rightarrow> 'k \<Rightarrow> ('k, 'v) btree \<Rightarrow> ('k, 'v) btree run" where
  "bt_between_incl lo hi t = (if hi < lo then panic else ok (filter (\<lambda>(j, _). lo \<le> j \<and> j \<le> hi) t))"

definition bt_between_excl :: "'k::linorder \<Rightarrow> 'k \<Rightarrow> ('k, 'v) btree \<Rightarrow> ('k, 'v) btree run" where
  "bt_between_excl lo hi t = (if hi \<le> lo then panic else ok (filter (\<lambda>(j, _). lo < j \<and> j < hi) t))"

definition bt_last_le :: "('k::linorder, 'v) btree \<Rightarrow> 'k \<Rightarrow> ('k \<times> 'v) option" where
  "bt_last_le t k = last_of (bt_upto k t)"

definition bt_first_gt :: "('k::linorder, 'v) btree \<Rightarrow> 'k \<Rightarrow> ('k \<times> 'v) option" where
  "bt_first_gt t k = first_of (bt_above k t)"

text \<open>Keys increase strictly.\<close>

definition bt_inv :: "('k::linorder, 'v) btree \<Rightarrow> bool" where
  "bt_inv t \<longleftrightarrow> sorted_wrt (<) (map fst t)"

section \<open>Lists of entries\<close>

lemma last_of_snoc [simp]: "last_of (xs @ [x]) = Some x"
  by (induction xs rule: last_of.induct) auto

lemma last_of_None [simp]: "last_of xs = None \<longleftrightarrow> xs = []"
  by (cases xs rule: rev_cases) auto

lemma last_of_in: "last_of xs = Some x \<Longrightarrow> x \<in> set xs"
  by (cases xs rule: rev_cases) auto

lemma first_of_simps [simp]: "first_of [] = None" "first_of (x # xs) = Some x" "first_of xs = None \<longleftrightarrow> xs = []"
  by (auto simp: first_of_def split: list.splits)

lemma bt_inv_simps [simp]:
  "bt_inv []" "bt_inv ((k, v) # t) \<longleftrightarrow> bt_inv t \<and> (\<forall>e\<in>set t. k < fst e)"
  "bt_inv (t @ [(k, v)]) \<longleftrightarrow> bt_inv t \<and> (\<forall>e\<in>set t. fst e < k)"
  by (auto simp: bt_inv_def sorted_wrt_append)

lemma bt_inv_filter: "bt_inv t \<Longrightarrow> bt_inv (filter P t)"
  by (induction t) auto

lemma bt_inv_distinct: "bt_inv t \<Longrightarrow> distinct (map fst t)"
  unfolding bt_inv_def by (metis strict_sorted_iff)

lemma bt_get_iff: "bt_inv t \<Longrightarrow> bt_get t k = Some v \<longleftrightarrow> (k, v) \<in> set t"
  by (simp add: bt_get_def bt_inv_distinct)

lemma bt_get_None: "bt_get t k = None \<longleftrightarrow> (\<forall>v. (k, v) \<notin> set t)"
  by (force simp: bt_get_def map_of_eq_None_iff)

lemma bt_get_insert: "bt_inv t \<Longrightarrow> bt_get (bt_insert k v t) j = (if j = k then Some v else bt_get t j)"
  by (induction k v t rule: bt_insert.induct) (auto simp: bt_get_def)

lemma set_bt_insert: "set (bt_insert k v t) \<subseteq> insert (k, v) (set t)"
  by (induction k v t rule: bt_insert.induct) auto

lemma bt_inv_insert: "bt_inv t \<Longrightarrow> bt_inv (bt_insert k v t)"
proof (induction k v t rule: bt_insert.induct)
  case (2 k v j w t)
  then show ?case using set_bt_insert [of k v t] by (fastforce simp: not_less_iff_gr_or_eq)
qed simp

lemma bt_get_remove: "bt_get (bt_remove k t) j = (if j = k then None else bt_get t j)"
  by (induction t) (auto simp: bt_get_def bt_remove_def)

lemma bt_inv_remove: "bt_inv t \<Longrightarrow> bt_inv (bt_remove k t)"
  by (simp add: bt_remove_def bt_inv_filter)

lemma takeWhile_sorted:
  assumes "sorted_wrt (<) (ks :: 'k::linorder list)"
  shows "k \<in> set (takeWhile P ks) \<longleftrightarrow> k \<in> set ks \<and> (\<forall>j\<in>set ks. j \<le> k \<longrightarrow> P j)"
  using assms
proof (induction ks)
  case (Cons i ks)
  then have "j \<in> set ks \<Longrightarrow> i < j" for j by simp
  then show ?case using Cons by (auto dest: order.strict_implies_order) (meson leD order.strict_trans2)+
qed simp

lemma last_of_sorted:
  assumes "bt_inv xs"
  shows "last_of xs = Some (k, v) \<longleftrightarrow> (k, v) \<in> set xs \<and> (\<forall>e\<in>set xs. fst e \<le> k)"
  using assms by (cases xs rule: rev_cases) (fastforce dest: order.asym)+

lemma first_of_sorted:
  assumes "bt_inv xs"
  shows "first_of xs = Some (k, v) \<longleftrightarrow> (k, v) \<in> set xs \<and> (\<forall>e\<in>set xs. k \<le> fst e)"
  using assms by (cases xs) (fastforce dest: order.asym)+

section \<open>The interface\<close>

definition entry_value :: "'v \<Rightarrow> ('k \<times> 'v) option \<Rightarrow> 'v" where
  "entry_value d e = (case e of Some (_, v) \<Rightarrow> v | None \<Rightarrow> d)"

lemma entry_value_simps [simp]: "entry_value d None = d" "entry_value d (Some (k, v)) = v"
  by (simp_all add: entry_value_def)

locale ordered_map =
  fixes get :: "'t \<Rightarrow> 'k::linorder \<Rightarrow> 'v option"
    and invar :: "'t \<Rightarrow> bool"
    and insert :: "'k \<Rightarrow> 'v \<Rightarrow> 't \<Rightarrow> 't"
    and remove :: "'k \<Rightarrow> 't \<Rightarrow> 't"
    and last_le :: "'t \<Rightarrow> 'k \<Rightarrow> ('k \<times> 'v) option"
    and first_gt :: "'t \<Rightarrow> 'k \<Rightarrow> ('k \<times> 'v) option"
  assumes get_insert: "invar t \<Longrightarrow> get (insert k v t) j = (if j = k then Some v else get t j)"
    and invar_insert: "invar t \<Longrightarrow> invar (insert k v t)"
    and get_remove: "invar t \<Longrightarrow> get (remove k t) j = (if j = k then None else get t j)"
    and invar_remove: "invar t \<Longrightarrow> invar (remove k t)"
    and last_le_Some: "invar t \<Longrightarrow> last_le t p = Some (k, v) \<longleftrightarrow>
      get t k = Some v \<and> k \<le> p \<and> (\<forall>j. k < j \<longrightarrow> j \<le> p \<longrightarrow> get t j = None)"
    and last_le_None: "invar t \<Longrightarrow> last_le t p = None \<longleftrightarrow> (\<forall>j\<le>p. get t j = None)"
    and first_gt_Some: "invar t \<Longrightarrow> first_gt t p = Some (k, v) \<longleftrightarrow>
      get t k = Some v \<and> p < k \<and> (\<forall>j. p < j \<longrightarrow> j < k \<longrightarrow> get t j = None)"
    and first_gt_None: "invar t \<Longrightarrow> first_gt t p = None \<longleftrightarrow> (\<forall>j>p. get t j = None)"
begin

lemma last_le_cong:
  assumes "invar t" "invar s" "\<And>j. j \<le> p \<Longrightarrow> get s j = get t j"
  shows "last_le s p = last_le t p"
proof (cases "last_le t p")
  case None
  then have "last_le s p = None" using assms by (simp add: last_le_None)
  then show ?thesis using None by simp
next
  case (Some e)
  obtain k v where e: "e = (k, v)" by (cases e)
  then have "last_le s p = Some (k, v)" using Some assms by (simp add: last_le_Some)
  then show ?thesis using Some e by simp
qed

text \<open>Below a key, the tree does not matter.\<close>

lemma last_le_cong_from:
  assumes "invar t" "invar s" "get t c \<noteq> None" "c \<le> p" "\<And>j. c \<le> j \<Longrightarrow> j \<le> p \<Longrightarrow> get s j = get t j"
  shows "last_le s p = last_le t p"
proof -
  have "last_le t p \<noteq> None" using assms(3,4) by (simp only: last_le_None [OF assms(1)]) auto
  then obtain k v where k: "last_le t p = Some (k, v)" by (cases "last_le t p") auto
  then have *: "get t k = Some v" "k \<le> p" "\<And>j. k < j \<Longrightarrow> j \<le> p \<Longrightarrow> get t j = None"
    using last_le_Some [OF assms(1), of p k v] by auto
  then have "c \<le> k" using assms(3,4) by (cases "k < c") auto
  then have "last_le s p = Some (k, v)" using * assms(2,5) by (simp add: last_le_Some)
  then show ?thesis using k by simp
qed

text \<open>The entry in force does not change where there is no key.\<close>

lemma last_le_between:
  assumes "invar t" "p \<le> q" "\<And>j. p < j \<Longrightarrow> j \<le> q \<Longrightarrow> get t j = None"
  shows "last_le t q = last_le t p"
proof (cases "last_le t p")
  case None
  then have "last_le t q = None" using assms by (simp add: last_le_None) (metis leI)
  then show ?thesis using None by simp
next
  case (Some e)
  obtain k v where e: "e = (k, v)" by (cases e)
  then have "last_le t q = Some (k, v)" using Some assms unfolding e by (auto simp: last_le_Some)
  then show ?thesis using Some e by simp
qed

lemma last_le_insert:
  assumes "invar t"
  shows "last_le (insert k v t) p =
    (if p < k then last_le t p else case last_le t p of Some (j, w) \<Rightarrow> if k < j then Some (j, w) else Some (k, v)
     | None \<Rightarrow> Some (k, v))"
proof (cases "p < k")
  case True
  then show ?thesis using assms by (auto intro!: last_le_cong simp: invar_insert get_insert)
next
  case False
  then show ?thesis using assms
    by (auto simp: last_le_Some last_le_None invar_insert get_insert not_less split: option.splits)
qed

text \<open>An inserted value is in force up to the next key.\<close>

lemma insert_value:
  assumes "invar t"
  shows "entry_value d (last_le (insert k v t) p) =
    (if k \<le> p \<and> (\<forall>j. k < j \<longrightarrow> j \<le> p \<longrightarrow> get t j = None) then v else entry_value d (last_le t p))"
proof (cases "p < k")
  case True
  then show ?thesis using assms by (auto simp: last_le_insert)
next
  case False
  show ?thesis
  proof (cases "\<exists>j. k < j \<and> j \<le> p \<and> get t j \<noteq> None")
    case True
    then obtain i where i: "k < i" "i \<le> p" "get t i \<noteq> None" by blast
    then have "last_le t p \<noteq> None" by (simp only: last_le_None [OF assms]) auto
    then obtain j w where j: "last_le t p = Some (j, w)" by (cases "last_le t p") auto
    then have "i \<le> j" using i last_le_Some [OF assms, of p j w] by (cases "j < i") auto
    then have "k < j" using i by simp
    moreover have "\<not> (\<forall>j. k < j \<longrightarrow> j \<le> p \<longrightarrow> get t j = None)" using True by simp
    ultimately show ?thesis using False j by (simp add: last_le_insert [OF assms] del: not_all)
  next
    case none: False
    have "\<not> k < j" if "last_le t p = Some (j, w)" for j w
      using that none last_le_Some [OF assms, of p j w] by auto
    then show ?thesis using False none by (cases "last_le t p") (auto simp: last_le_insert [OF assms])
  qed
qed

lemma get_remove_list:
  "invar t \<Longrightarrow> invar (fold remove ks t) \<and> get (fold remove ks t) j = (if j \<in> set ks then None else get t j)"
  by (induction ks arbitrary: t) (auto simp: invar_remove get_remove)

end

interpretation bt: ordered_map bt_get bt_inv bt_insert bt_remove bt_last_le bt_first_gt
proof unfold_locales
  fix t :: "('k::linorder, 'v) btree" and k j p :: 'k and v :: 'v
  assume inv: "bt_inv t"
  show "bt_get (bt_insert k v t) j = (if j = k then Some v else bt_get t j)" by (rule bt_get_insert [OF inv])
  show "bt_inv (bt_insert k v t)" by (rule bt_inv_insert [OF inv])
  show "bt_get (bt_remove k t) j = (if j = k then None else bt_get t j)" by (rule bt_get_remove)
  show "bt_inv (bt_remove k t)" by (rule bt_inv_remove [OF inv])
  show "bt_last_le t p = Some (k, v) \<longleftrightarrow>
      bt_get t k = Some v \<and> k \<le> p \<and> (\<forall>j. k < j \<longrightarrow> j \<le> p \<longrightarrow> bt_get t j = None)"
    unfolding bt_last_le_def bt_upto_def last_of_sorted [OF bt_inv_filter [OF inv]] bt_get_iff [OF inv] bt_get_None
    by (auto simp: not_le dest: leD) (meson leD leI)
  show "bt_last_le t p = None \<longleftrightarrow> (\<forall>j\<le>p. bt_get t j = None)"
    by (auto simp: bt_last_le_def bt_upto_def filter_empty_conv bt_get_None)
  show "bt_first_gt t p = Some (k, v) \<longleftrightarrow>
      bt_get t k = Some v \<and> p < k \<and> (\<forall>j. p < j \<longrightarrow> j < k \<longrightarrow> bt_get t j = None)"
    unfolding bt_first_gt_def bt_above_def first_of_sorted [OF bt_inv_filter [OF inv]] bt_get_iff [OF inv] bt_get_None
    by (auto simp: not_le dest: leD)
  show "bt_first_gt t p = None \<longleftrightarrow> (\<forall>j>p. bt_get t j = None)"
    by (auto simp: bt_first_gt_def bt_above_def filter_empty_conv bt_get_None)
qed

end
