(* ===== verification/Range_List.thy ===== *)
theory Range_List
  imports Address BTree
begin

text \<open>
  Ranges of addresses and lists of disjoint ranges, \<open>Range\<close> and \<open>RangeList\<close> of src/src/address.rs. The
  \<open>BTreeSet<Range>\<close> compares ranges by the index of the space and the first offset, so the set is an ordered
  map from these keys to ranges; inserting an equal element keeps the old one.
\<close>

section \<open>Ranges\<close>

record addr_range =
  rg_space :: addr_space
  rg_first :: u64
  rg_last :: u64

type_synonym range_key = "i32 \<times> u64"

definition range_key :: "addr_range \<Rightarrow> range_key" where
  "range_key r = (as_index (rg_space r), rg_first r)"

definition range_cmp :: "addr_range \<Rightarrow> addr_range \<Rightarrow> ordering" where
  "range_cmp r s = then_cmp (cmp_int (as_index (rg_space r)) (as_index (rg_space s))) (cmp_u64 (rg_first r) (rg_first s))"

definition new_addr_range :: "addr_space \<Rightarrow> u64 \<Rightarrow> u64 \<Rightarrow> addr_range" where
  "new_addr_range spc f l = \<lparr>rg_space = spc, rg_first = f, rg_last = l\<rparr>"

record range_properties =
  rp_space_name :: string
  rp_first :: u64
  rp_last :: u64
  rp_is_register :: bool
  rp_seen_last :: bool

text \<open>A register is a space, an offset and a size; \<open>get_register\<close> and \<open>get_space_by_name\<close> are arguments.\<close>

definition range_from_properties ::
  "range_properties \<Rightarrow> (string \<Rightarrow> addr_space option) \<Rightarrow> (string \<Rightarrow> (addr_space option \<times> u64 \<times> u32) result) option \<Rightarrow> addr_range result" where
  "range_from_properties p get_space_by_name regs =
     (if rp_is_register p then
        (case regs of
           None \<Rightarrow> Inl (Lowlevel (''no register table for resolving register '' @ rp_space_name p))
         | Some get_register \<Rightarrow>
             rbind (get_register (rp_space_name p)) (\<lambda>(space, offset, sz).
             case space of
               None \<Rightarrow> Inl (Lowlevel ''No address space indicated in range tag'')
             | Some spc \<Rightarrow> Inr (new_addr_range spc offset (offset - 1 + ucast sz))))
      else case get_space_by_name (rp_space_name p) of
          None \<Rightarrow> Inl (Lowlevel (''Undefined space: '' @ rp_space_name p))
        | Some spc \<Rightarrow>
            let f = rp_first p; l = (if \<not> rp_seen_last p then as_highest spc else rp_last p) in
            if f > as_highest spc \<or> l > as_highest spc \<or> l < f then Inl (Lowlevel ''Illegal range tag'')
            else Inr (new_addr_range spc f l))"

definition range_first_addr :: "addr_range \<Rightarrow> address" where
  "range_first_addr r = new_address (rg_space r) (rg_first r)"

definition range_last_addr :: "addr_range \<Rightarrow> address" where
  "range_last_addr r = new_address (rg_space r) (rg_last r)"

definition range_last_addr_open :: "addr_range \<Rightarrow> (addr_space option \<Rightarrow> addr_space option) \<Rightarrow> address" where
  "range_last_addr_open r get_next_space_in_order =
     (let (curspc, curlast) =
        (if rg_last r = as_highest (rg_space r) then (get_next_space_in_order (Some (rg_space r)), 0)
         else (Some (rg_space r), rg_last r + 1)) in
      case curspc of None \<Rightarrow> extreme_address Maximal | Some spc \<Rightarrow> new_address spc curlast)"

definition range_contains :: "addr_range \<Rightarrow> address \<Rightarrow> bool" where
  "range_contains r a =
     (case ad_space a of
        Some spc \<Rightarrow>
          if as_index spc = as_index (rg_space r)
          then \<not> rg_first r > ad_offset a \<and> \<not> rg_last r < ad_offset a else False
      | None \<Rightarrow> False)"

section \<open>Lists of ranges\<close>

type_synonym range_list = "(range_key, addr_range) btree"

definition set_insert :: "addr_range \<Rightarrow> range_list \<Rightarrow> range_list" where
  "set_insert r t = (case bt_get t (range_key r) of Some _ \<Rightarrow> t | None \<Rightarrow> bt_insert (range_key r) r t)"

definition upper_bound :: "range_list \<Rightarrow> addr_range \<Rightarrow> addr_range option" where
  "upper_bound t key = map_option snd (bt_first_gt t (range_key key))"

definition before_upper_bound :: "range_list \<Rightarrow> addr_range \<Rightarrow> addr_range option" where
  "before_upper_bound t key = map_option snd (bt_last_le t (range_key key))"

definition get_first_range :: "range_list \<Rightarrow> addr_range option" where
  "get_first_range t = map_option snd (first_of t)"

definition get_last_range :: "range_list \<Rightarrow> addr_range option" where
  "get_last_range t = map_option snd (last_of t)"

definition num_ranges :: "range_list \<Rightarrow> i32" where
  "num_ranges t = wrap_i32 (int (length t))"

definition same_index :: "addr_range \<Rightarrow> addr_space \<Rightarrow> bool" where
  "same_index r spc \<longleftrightarrow> as_index (rg_space r) = as_index spc"

definition get_last_signed_range :: "range_list \<Rightarrow> addr_space \<Rightarrow> addr_range option" where
  "get_last_signed_range t spaceid =
     (let midway = as_highest spaceid div 2;
          found = (\<lambda>off. case before_upper_bound t (new_addr_range spaceid off off) of
             Some r \<Rightarrow> if same_index r spaceid then Some r else None | None \<Rightarrow> None) in
      case found midway of Some r \<Rightarrow> Some r | None \<Rightarrow> found (as_highest spaceid))"

definition get_range :: "range_list \<Rightarrow> addr_space \<Rightarrow> u64 \<Rightarrow> addr_range option" where
  "get_range t spaceid offset =
     (if t = [] then None
      else case before_upper_bound t (new_addr_range spaceid offset offset) of
          None \<Rightarrow> None
        | Some found \<Rightarrow>
            if \<not> same_index found spaceid then None
            else if rg_last found \<ge> offset then Some found else None)"

definition get_nearest_range :: "range_list \<Rightarrow> addr_space \<Rightarrow> u64 \<Rightarrow> addr_range option" where
  "get_nearest_range t spaceid offset =
     (if t = [] then None
      else
        let key = new_addr_range spaceid offset offset;
            after = (case upper_bound t key of Some r \<Rightarrow> if same_index r spaceid then Some r else None | None \<Rightarrow> None) in
        case before_upper_bound t key of
          None \<Rightarrow> after
        | Some before \<Rightarrow>
            if \<not> same_index before spaceid then after
            else (case after of
                None \<Rightarrow> Some before
              | Some after \<Rightarrow>
                  if rg_last before \<ge> offset then Some before
                  else if rg_first after - offset < offset - rg_last before then Some after else Some before))"

definition overlapping_start :: "range_list \<Rightarrow> addr_space \<Rightarrow> u64 \<Rightarrow> addr_range option" where
  "overlapping_start t spc f =
     (let key = new_addr_range spc f f in
      case before_upper_bound t key of
        Some prev \<Rightarrow> if same_index prev spc \<and> rg_last prev \<ge> f then Some prev else upper_bound t key
      | None \<Rightarrow> upper_bound t key)"

definition collect_span :: "range_list \<Rightarrow> addr_space \<Rightarrow> u64 \<Rightarrow> u64 \<Rightarrow> addr_range list run" where
  "collect_span t spc f l =
     (case overlapping_start t spc f of
        None \<Rightarrow> ok []
      | Some start \<Rightarrow>
          let stop = new_addr_range spc l l in
          if range_cmp start stop = Greater then ok []
          else run_bind (bt_between_incl (range_key start) (range_key stop) t) (\<lambda>es. ok (map snd es)))"

text \<open>One round of the loop of \<open>insert_range\<close>: the range is taken out of the tree and into the bounds.\<close>

definition absorb :: "addr_range \<Rightarrow> u64 \<times> u64 \<times> range_list \<Rightarrow> u64 \<times> u64 \<times> range_list" where
  "absorb r = (\<lambda>(f, l, t).
     (if rg_first r < f then rg_first r else f, if rg_last r > l then rg_last r else l, bt_remove (range_key r) t))"

definition insert_range :: "range_list \<Rightarrow> addr_space \<Rightarrow> u64 \<Rightarrow> u64 \<Rightarrow> range_list run" where
  "insert_range t spc f l =
     run_bind (collect_span t spc f l) (\<lambda>span.
     case fold absorb span (f, l, t) of (f, l, t) \<Rightarrow> ok (set_insert (new_addr_range spc f l) t))"

text \<open>One round of the loop of \<open>remove_range\<close>: what sticks out of the removed range is put back.\<close>

definition carve :: "addr_space \<Rightarrow> u64 \<Rightarrow> u64 \<Rightarrow> addr_range \<Rightarrow> range_list \<Rightarrow> range_list" where
  "carve spc f l r t =
     (let t = bt_remove (range_key r) t;
          t = (if rg_first r < f then set_insert (new_addr_range spc (rg_first r) (f - 1)) t else t) in
      if rg_last r > l then set_insert (new_addr_range spc (l + 1) (rg_last r)) t else t)"

definition remove_range :: "range_list \<Rightarrow> addr_space \<Rightarrow> u64 \<Rightarrow> u64 \<Rightarrow> range_list run" where
  "remove_range t spc f l =
     (if t = [] then ok t
      else run_bind (collect_span t spc f l) (\<lambda>span. ok (fold (carve spc f l) span t)))"

definition insert_one :: "range_list \<Rightarrow> addr_range \<Rightarrow> range_list run" where
  "insert_one t r = insert_range t (rg_space r) (rg_first r) (rg_last r)"

definition remove_one :: "range_list \<Rightarrow> addr_range \<Rightarrow> range_list run" where
  "remove_one t r = remove_range t (rg_space r) (rg_first r) (rg_last r)"

definition merge_ranges :: "range_list \<Rightarrow> range_list \<Rightarrow> range_list run" where
  "merge_ranges t op2 = foldl (\<lambda>acc e. run_bind acc (\<lambda>t. insert_one t (snd e))) (ok t) op2"

definition in_range :: "range_list \<Rightarrow> address \<Rightarrow> u64 \<Rightarrow> bool" where
  "in_range t addr sz =
     (case ad_space addr of
        None \<Rightarrow> True
      | Some spc \<Rightarrow>
          if t = [] then False
          else case before_upper_bound t (new_addr_range spc (ad_offset addr) (ad_offset addr)) of
              None \<Rightarrow> False
            | Some found \<Rightarrow>
                if \<not> same_index found spc then False
                else let stop = ad_offset addr + sz - 1 in
                  if stop < ad_offset addr then False else rg_last found \<ge> stop)"

definition in_range_range :: "range_list \<Rightarrow> addr_range \<Rightarrow> bool" where
  "in_range_range t r =
     (if t = [] then False
      else case before_upper_bound t r of
          None \<Rightarrow> False
        | Some found \<Rightarrow> if \<not> same_index found (rg_space r) then False else rg_last found \<ge> rg_last r)"

fun longest_fit_loop :: "addr_range list \<Rightarrow> addr_space \<Rightarrow> u64 \<Rightarrow> u64 \<Rightarrow> u64 \<Rightarrow> u64" where
  "longest_fit_loop [] spc offset sizeres maxsize = sizeres"
| "longest_fit_loop (r # rs) spc offset sizeres maxsize =
     (if \<not> same_index r spc then sizeres
      else if rg_first r > offset then sizeres
      else let sizeres = sizeres + (rg_last r + 1 - offset); offset = rg_last r + 1 in
        if sizeres \<ge> maxsize then sizeres else longest_fit_loop rs spc offset sizeres maxsize)"

definition longest_fit :: "range_list \<Rightarrow> address \<Rightarrow> u64 \<Rightarrow> u64" where
  "longest_fit t addr maxsize =
     (case ad_space addr of
        None \<Rightarrow> 0
      | Some spc \<Rightarrow>
          if t = [] then 0
          else case before_upper_bound t (new_addr_range spc (ad_offset addr) (ad_offset addr)) of
              None \<Rightarrow> 0
            | Some start \<Rightarrow>
                if rg_last start < ad_offset addr then 0
                else longest_fit_loop (map snd (bt_from (range_key start) t)) spc (ad_offset addr) 0 maxsize)"

section \<open>The set of addresses of a list\<close>

definition member :: "range_list \<Rightarrow> addr_range \<Rightarrow> bool" where
  "member t r \<longleftrightarrow> bt_get t (range_key r) = Some r"

definition rl_inv :: "range_list \<Rightarrow> bool" where
  "rl_inv t \<longleftrightarrow> bt_inv t \<and> (\<forall>k r. bt_get t k = Some r \<longrightarrow> range_key r = k)
     \<and> (\<forall>r. member t r \<longrightarrow> rg_first r \<le> rg_last r)
     \<and> (\<forall>r s. member t r \<longrightarrow> member t s \<longrightarrow> same_index r (rg_space s) \<longrightarrow> rg_first r < rg_first s \<longrightarrow> rg_last r < rg_first s)"

definition covers :: "range_list \<Rightarrow> i32 \<Rightarrow> u64 \<Rightarrow> bool" where
  "covers t i x \<longleftrightarrow> (\<exists>r. member t r \<and> as_index (rg_space r) = i \<and> rg_first r \<le> x \<and> x \<le> rg_last r)"

definition overlaps :: "addr_range \<Rightarrow> i32 \<Rightarrow> u64 \<Rightarrow> u64 \<Rightarrow> bool" where
  "overlaps r i f l \<longleftrightarrow> as_index (rg_space r) = i \<and> rg_first r \<le> l \<and> f \<le> rg_last r"

lemma new_addr_range_simps [simp]:
  "rg_space (new_addr_range spc f l) = spc" "rg_first (new_addr_range spc f l) = f" "rg_last (new_addr_range spc f l) = l"
  "range_key (new_addr_range spc f l) = (as_index spc, f)"
  by (simp_all add: new_addr_range_def range_key_def)

lemma key_le: "range_key r \<le> (i, f) \<longleftrightarrow> as_index (rg_space r) < i \<or> as_index (rg_space r) = i \<and> rg_first r \<le> f"
  and key_gt: "(i, f) < range_key r \<longleftrightarrow> i < as_index (rg_space r) \<or> as_index (rg_space r) = i \<and> f < rg_first r"
  by (auto simp: range_key_def less_eq_prod_def less_prod_def')

lemma range_cmp_key: "range_cmp r s = cmp_of (range_key r) (range_key s)"
  by (auto simp: range_cmp_def range_key_def cmp_defs less_prod_def')

lemma rl_invD:
  assumes "rl_inv t"
  shows "bt_inv t" "bt_get t k = Some r \<longleftrightarrow> range_key r = k \<and> member t r"
    "member t r \<Longrightarrow> rg_first r \<le> rg_last r"
    "member t r \<Longrightarrow> member t s \<Longrightarrow> as_index (rg_space r) = as_index (rg_space s) \<Longrightarrow> rg_first r < rg_first s \<Longrightarrow>
       rg_last r < rg_first s"
  using assms by (cases k; auto simp: rl_inv_def member_def same_index_def)+

lemma get_None:
  assumes "rl_inv t"
  shows "bt_get t j = None \<longleftrightarrow> (\<forall>s. member t s \<longrightarrow> range_key s \<noteq> j)"
  using rl_invD(2) [OF assms, of j] by (cases "bt_get t j") auto

lemma member_unique: "member t r \<Longrightarrow> member t s \<Longrightarrow> range_key r = range_key s \<Longrightarrow> r = s"
  by (simp add: member_def)

text \<open>Ranges of a list do not overlap.\<close>

lemma member_disjoint:
  assumes "rl_inv t" "member t r" "member t s" "r \<noteq> s" "as_index (rg_space r) = as_index (rg_space s)"
  shows "rg_last r < rg_first s \<or> rg_last s < rg_first r"
proof -
  have "rg_first r \<noteq> rg_first s" using member_unique [OF assms(2,3)] assms(4,5) by (auto simp: range_key_def)
  then consider "rg_first r < rg_first s" | "rg_first s < rg_first r" by (metis linorder_cases)
  then show ?thesis using rl_invD(4) [OF assms(1)] assms(2,3,5) by cases auto
qed

lemma member_cover_unique:
  assumes "rl_inv t" "member t r" "member t s" "overlaps r i x x" "overlaps s i x x"
  shows "r = s"
proof (rule ccontr)
  assume "r \<noteq> s"
  then show False using member_disjoint [OF assms(1-3)] assms(4,5) by (auto simp: overlaps_def)
qed

lemma covers_overlaps: "covers t i x \<longleftrightarrow> (\<exists>r. member t r \<and> overlaps r i x x)"
  by (auto simp: covers_def overlaps_def)

lemma before_Some:
  assumes "rl_inv t"
  shows "before_upper_bound t key = Some r \<longleftrightarrow> member t r \<and> range_key r \<le> range_key key
    \<and> (\<forall>s. member t s \<longrightarrow> range_key s \<le> range_key key \<longrightarrow> range_key s \<le> range_key r)"
proof -
  have "before_upper_bound t key = Some r \<longleftrightarrow> (\<exists>k. bt_last_le t (range_key key) = Some (k, r))"
    by (auto simp: before_upper_bound_def)
  also have "\<dots> \<longleftrightarrow> member t r \<and> range_key r \<le> range_key key
      \<and> (\<forall>j. range_key r < j \<longrightarrow> j \<le> range_key key \<longrightarrow> bt_get t j = None)"
    using rl_invD(2) [OF assms] by (auto simp: bt.last_le_Some [OF rl_invD(1) [OF assms]])
  also have "\<dots> \<longleftrightarrow> member t r \<and> range_key r \<le> range_key key
    \<and> (\<forall>s. member t s \<longrightarrow> range_key s \<le> range_key key \<longrightarrow> range_key s \<le> range_key r)"
    by (auto simp: get_None [OF assms] not_less not_le simp del: split_paired_All)
  finally show ?thesis .
qed

lemma before_None:
  assumes "rl_inv t"
  shows "before_upper_bound t key = None \<longleftrightarrow> (\<forall>s. member t s \<longrightarrow> \<not> range_key s \<le> range_key key)"
  by (auto simp: before_upper_bound_def bt.last_le_None [OF rl_invD(1) [OF assms]] get_None [OF assms] simp del: split_paired_All)

lemma upper_Some:
  assumes "rl_inv t"
  shows "upper_bound t key = Some r \<longleftrightarrow> member t r \<and> range_key key < range_key r
    \<and> (\<forall>s. member t s \<longrightarrow> range_key key < range_key s \<longrightarrow> range_key r \<le> range_key s)"
proof -
  have "upper_bound t key = Some r \<longleftrightarrow> (\<exists>k. bt_first_gt t (range_key key) = Some (k, r))"
    by (auto simp: upper_bound_def)
  also have "\<dots> \<longleftrightarrow> member t r \<and> range_key key < range_key r
      \<and> (\<forall>j. range_key key < j \<longrightarrow> j < range_key r \<longrightarrow> bt_get t j = None)"
    using rl_invD(2) [OF assms] by (auto simp: bt.first_gt_Some [OF rl_invD(1) [OF assms]])
  also have "\<dots> \<longleftrightarrow> member t r \<and> range_key key < range_key r
    \<and> (\<forall>s. member t s \<longrightarrow> range_key key < range_key s \<longrightarrow> range_key r \<le> range_key s)"
    by (auto simp: get_None [OF assms] not_less not_le simp del: split_paired_All)
  finally show ?thesis .
qed

lemma upper_None:
  assumes "rl_inv t"
  shows "upper_bound t key = None \<longleftrightarrow> (\<forall>s. member t s \<longrightarrow> \<not> range_key key < range_key s)"
  by (auto simp: upper_bound_def bt.first_gt_None [OF rl_invD(1) [OF assms]] get_None [OF assms] simp del: split_paired_All)

text \<open>The last range at or before an offset is the one that covers the offset, if any does.\<close>

lemma before_covers:
  assumes "rl_inv t" "member t r" "overlaps r (as_index spc) x x"
  shows "before_upper_bound t (new_addr_range spc x y) = Some r"
proof -
  have "range_key s \<le> range_key r" if s: "member t s" "range_key s \<le> (as_index spc, x)" for s
  proof (rule ccontr)
    assume "\<not> range_key s \<le> range_key r"
    then have "as_index (rg_space s) = as_index (rg_space r)" "rg_first r < rg_first s"
      using s(2) assms(3) by (auto simp: range_key_def less_eq_prod_def overlaps_def)
    then have "rg_last r < rg_first s" using rl_invD(4) [OF assms(1,2) s(1)] by simp
    then show False using s(2) assms(3) \<open>as_index (rg_space s) = _\<close> by (auto simp: key_le overlaps_def)
  qed
  then show ?thesis using assms by (auto simp: before_Some overlaps_def key_le)
qed

lemma before_not_covers:
  assumes "rl_inv t" "before_upper_bound t (new_addr_range spc x y) = Some r"
  shows "covers t (as_index spc) x \<longleftrightarrow> same_index r spc \<and> x \<le> rg_last r"
proof
  assume "covers t (as_index spc) x"
  then obtain s where "member t s" "overlaps s (as_index spc) x x" by (auto simp: covers_overlaps)
  then show "same_index r spc \<and> x \<le> rg_last r"
    using before_covers [OF assms(1)] assms(2) by (auto simp: overlaps_def same_index_def)
next
  assume "same_index r spc \<and> x \<le> rg_last r"
  then show "covers t (as_index spc) x" using assms by (auto simp: before_Some same_index_def key_le covers_def)
qed

section \<open>Spans\<close>

lemma between_members:
  assumes "rl_inv t" "lo \<le> hi"
  obtains es where "bt_between_incl lo hi t = ok es"
    "\<And>r. r \<in> set (map snd es) \<longleftrightarrow> member t r \<and> lo \<le> range_key r \<and> range_key r \<le> hi" "distinct (map snd es)"
proof
  let ?es = "filter (\<lambda>(j, _). lo \<le> j \<and> j \<le> hi) t"
  show "bt_between_incl lo hi t = ok ?es" using assms(2) by (auto simp: bt_between_incl_def)
  have in_t: "(k, r) \<in> set t \<longleftrightarrow> range_key r = k \<and> member t r" for k r
    using bt_get_iff [OF rl_invD(1) [OF assms(1)], of k r] rl_invD(2) [OF assms(1), of k r] by simp
  have "r \<in> set (map snd ?es) \<longleftrightarrow> (\<exists>k. (k, r) \<in> set t \<and> lo \<le> k \<and> k \<le> hi)" for r by force
  then show "r \<in> set (map snd ?es) \<longleftrightarrow> member t r \<and> lo \<le> range_key r \<and> range_key r \<le> hi" for r
    using in_t by (auto simp del: split_paired_Ex)
  have "distinct (map fst ?es)" by (rule bt_inv_distinct [OF bt_inv_filter [OF rl_invD(1) [OF assms(1)]]])
  moreover have "map range_key (map snd ?es) = map fst ?es" using in_t by auto
  ultimately show "distinct (map snd ?es)" using distinct_map [of range_key "map snd ?es"] by argo
qed

text \<open>\<open>collect_span\<close> never panics and returns the ranges that overlap the given one.\<close>

lemma collect_span_members:
  assumes "rl_inv t" "f \<le> l"
  obtains span where "collect_span t spc f l = ok span" "distinct span"
    "\<And>r. r \<in> set span \<longleftrightarrow> member t r \<and> overlaps r (as_index spc) f l"
proof -
  let ?i = "as_index spc"
  have none: "\<not> overlaps r ?i f l" if "\<not> covers t ?i f" "member t r" "\<not> (?i, f) < range_key r \<or> (?i, l) < range_key r" for r
    using that by (auto simp: covers_overlaps overlaps_def key_gt)
  show ?thesis
  proof (cases "covers t ?i f")
    case True
    then obtain p where p: "member t p" "overlaps p ?i f f" by (auto simp: covers_overlaps)
    then have os: "overlapping_start t spc f = Some p"
      using before_covers [OF assms(1) p] by (simp add: overlapping_start_def Let_def overlaps_def same_index_def)
    have le: "range_key p \<le> (?i, l)" using p(2) assms(2) by (auto simp: key_le overlaps_def)
    from between_members [OF assms(1) this] obtain es where es: "bt_between_incl (range_key p) (?i, l) t = ok es"
      "\<And>r. r \<in> set (map snd es) \<longleftrightarrow> member t r \<and> range_key p \<le> range_key r \<and> range_key r \<le> (?i, l)"
      "distinct (map snd es)" by blast
    have "collect_span t spc f l = ok (map snd es)"
      using os es(1) le by (simp add: collect_span_def Let_def range_cmp_key cmp_of_def)
    moreover have "member t r \<and> range_key p \<le> range_key r \<and> range_key r \<le> (?i, l) \<longleftrightarrow> member t r \<and> overlaps r ?i f l" for r
    proof (cases "member t r")
      case True
      show ?thesis
      proof
        assume "member t r \<and> range_key p \<le> range_key r \<and> range_key r \<le> (?i, l)"
        then have r: "as_index (rg_space r) = ?i" "rg_first p \<le> rg_first r" "rg_first r \<le> l"
          using p(2) by (auto simp: range_key_def less_eq_prod_def overlaps_def)
        have "f \<le> rg_last r"
        proof (cases "r = p")
          case False
          then have "rg_last p < rg_first r" using member_disjoint [OF assms(1) p(1) True] p(2) r rl_invD(3) [OF assms(1)] True
            by (auto simp: overlaps_def) (metis leD order.strict_trans2)
          then show ?thesis using p(2) rl_invD(3) [OF assms(1) True] by (auto simp: overlaps_def)
        qed (use p in \<open>simp add: overlaps_def\<close>)
        then show "member t r \<and> overlaps r ?i f l" using True r by (simp add: overlaps_def)
      next
        assume "member t r \<and> overlaps r ?i f l"
        then have o: "overlaps r ?i f l" by simp
        have "rg_first p \<le> rg_first r"
        proof (rule ccontr)
          assume "\<not> rg_first p \<le> rg_first r"
          then have "rg_last r < rg_first p" using rl_invD(4) [OF assms(1) True p(1)] o p(2) by (simp add: overlaps_def)
          then show False using o p(2) by (auto simp: overlaps_def)
        qed
        then show "member t r \<and> range_key p \<le> range_key r \<and> range_key r \<le> (?i, l)"
          using True o p(2) by (auto simp: range_key_def less_eq_prod_def overlaps_def)
      qed
    qed simp
    ultimately show ?thesis using that es by auto
  next
    case False
    then have os: "overlapping_start t spc f = upper_bound t (new_addr_range spc f f)"
      using before_not_covers [OF assms(1)] by (auto simp: overlapping_start_def Let_def split: option.splits)
    show ?thesis
    proof (cases "upper_bound t (new_addr_range spc f f)")
      case None
      then have "member t r \<Longrightarrow> \<not> overlaps r ?i f l" for r
        using none [OF False] by (auto simp: upper_None [OF assms(1)])
      then show ?thesis using that [of "[]"] os None by (auto simp: collect_span_def)
    next
      case (Some q)
      then have q: "member t q" "(?i, f) < range_key q" "\<And>s. member t s \<Longrightarrow> (?i, f) < range_key s \<Longrightarrow> range_key q \<le> range_key s"
        by (auto simp: upper_Some [OF assms(1)])
      show ?thesis
      proof (cases "(?i, l) < range_key q")
        case True
        then have "\<not> overlaps r ?i f l" if "member t r" for r
          using none [OF False that] q(3) [OF that] by (meson order.strict_trans2)
        moreover have "range_cmp q (new_addr_range spc l l) = Greater"
          using True by (auto simp: range_cmp_key cmp_of_def dest: order.asym)
        ultimately show ?thesis using that [of "[]"] os Some by (auto simp: collect_span_def)
      next
        case le: False
        then have "range_key q \<le> (?i, l)" by simp
        from between_members [OF assms(1) this] obtain es where es: "bt_between_incl (range_key q) (?i, l) t = ok es"
          "\<And>r. r \<in> set (map snd es) \<longleftrightarrow> member t r \<and> range_key q \<le> range_key r \<and> range_key r \<le> (?i, l)"
          "distinct (map snd es)" by blast
        have "collect_span t spc f l = ok (map snd es)"
          using os es(1) le Some by (auto simp: collect_span_def Let_def range_cmp_key cmp_of_def)
        moreover have "range_key q \<le> range_key r \<and> range_key r \<le> (?i, l) \<longleftrightarrow> overlaps r ?i f l" if "member t r" for r
        proof
          assume "range_key q \<le> range_key r \<and> range_key r \<le> (?i, l)"
          then have "(?i, f) < range_key r" "range_key r \<le> (?i, l)" using q(2) by auto
          then show "overlaps r ?i f l" using rl_invD(3) [OF assms(1) that] by (auto simp: overlaps_def key_gt key_le)
        next
          assume o: "overlaps r ?i f l"
          then have "(?i, f) < range_key r" "\<not> (?i, l) < range_key r" using none [OF False that] by auto
          then show "range_key q \<le> range_key r \<and> range_key r \<le> (?i, l)" using q(3) [OF that] by auto
        qed
        ultimately show ?thesis using that es by auto
      qed
    qed
  qed
qed

section \<open>Insertion and removal\<close>

lemma rl_invI:
  assumes "bt_inv t" "\<And>k r. bt_get t k = Some r \<Longrightarrow> range_key r = k"
    and "\<And>r. member t r \<Longrightarrow> rg_first r \<le> rg_last r"
    and "\<And>r s. member t r \<Longrightarrow> member t s \<Longrightarrow> as_index (rg_space r) = as_index (rg_space s) \<Longrightarrow> rg_first r < rg_first s \<Longrightarrow>
       rg_last r < rg_first s"
  shows "rl_inv t"
  using assms unfolding rl_inv_def same_index_def by blast

lemma remove_member:
  assumes "rl_inv t" "member t r"
  shows "rl_inv (bt_remove (range_key r) t)" "member (bt_remove (range_key r) t) s \<longleftrightarrow> member t s \<and> s \<noteq> r"
proof -
  note inv = rl_invD(1) [OF assms(1)]
  show m: "member (bt_remove (range_key r) t) s \<longleftrightarrow> member t s \<and> s \<noteq> r" for s
    using assms(2) by (auto simp: member_def bt.get_remove [OF inv])
  show "rl_inv (bt_remove (range_key r) t)"
    using rl_invD [OF assms(1)]
    by (intro rl_invI bt.invar_remove inv) (auto simp: m bt.get_remove [OF inv] split: if_splits)
qed

text \<open>Adding a range that overlaps no other.\<close>

lemma insert_free:
  assumes "rl_inv t" "f \<le> l" "\<And>r. member t r \<Longrightarrow> \<not> overlaps r (as_index spc) f l"
  shows "rl_inv (set_insert (new_addr_range spc f l) t)"
    "member (set_insert (new_addr_range spc f l) t) s \<longleftrightarrow> s = new_addr_range spc f l \<or> member t s"
proof -
  let ?n = "new_addr_range spc f l"
  note inv = rl_invD(1) [OF assms(1)]
  have absent: "bt_get t (as_index spc, f) = None"
  proof (rule ccontr)
    assume "bt_get t (as_index spc, f) \<noteq> None"
    then obtain r where "range_key r = (as_index spc, f)" "member t r"
      using rl_invD(2) [OF assms(1)] by auto
    then have "overlaps r (as_index spc) f l" using assms(2) rl_invD(3) [OF assms(1)]
      by (auto simp: overlaps_def range_key_def)
    then show False using assms(3) \<open>member t r\<close> by blast
  qed
  then have t': "set_insert ?n t = bt_insert (as_index spc, f) ?n t" by (simp add: set_insert_def)
  show m: "member (set_insert ?n t) s \<longleftrightarrow> s = ?n \<or> member t s" for s
    using absent by (auto simp: t' member_def bt.get_insert [OF inv])
  show "rl_inv (set_insert ?n t)"
  proof (rule rl_invI)
    show "bt_inv (set_insert ?n t)" by (simp add: t' bt.invar_insert [OF inv])
    show "range_key r = k" if "bt_get (set_insert ?n t) k = Some r" for k r
      using that rl_invD(2) [OF assms(1)] by (auto simp: t' bt.get_insert [OF inv] split: if_splits)
    show "rg_first r \<le> rg_last r" if "member (set_insert ?n t) r" for r
      using that rl_invD(3) [OF assms(1)] assms(2) by (auto simp: m)
    show "rg_last r < rg_first s" if rs: "member (set_insert ?n t) r" "member (set_insert ?n t) s"
      "as_index (rg_space r) = as_index (rg_space s)" "rg_first r < rg_first s" for r s
    proof -
      have apart: "l < rg_first q \<or> rg_last q < f" if "member t q" "as_index (rg_space q) = as_index spc" for q
        using assms(3) [OF that(1)] that(2) by (auto simp: overlaps_def)
      consider "r = ?n" "s = ?n" | "r = ?n" "member t s" | "member t r" "s = ?n" | "member t r" "member t s"
        using rs(1,2) unfolding m by blast
      then show ?thesis
      proof cases
        case 2
        then show ?thesis using apart [OF 2(2)] rs(3,4) rl_invD(3) [OF assms(1) 2(2)] by auto
      next
        case 3
        then show ?thesis using apart [OF 3(1)] rs(3,4) assms(2) by auto
      qed (use rs rl_invD(4) [OF assms(1)] in auto)
    qed
  qed
qed

lemma absorb_fold:
  assumes "rl_inv t" "f \<le> l" "distinct span" "\<And>r. r \<in> set span \<Longrightarrow> member t r \<and> overlaps r i f l"
    and "fold absorb span (f, l, t) = (f', l', t')"
  shows "rl_inv t'" "\<And>s. member t' s \<longleftrightarrow> member t s \<and> s \<notin> set span" "f' \<le> l'"
    "\<And>x. f' \<le> x \<and> x \<le> l' \<longleftrightarrow> (f \<le> x \<and> x \<le> l) \<or> (\<exists>r\<in>set span. rg_first r \<le> x \<and> x \<le> rg_last r)"
proof -
  have "rl_inv t' \<and> (\<forall>s. member t' s \<longleftrightarrow> member t s \<and> s \<notin> set span) \<and> f' \<le> l' \<and>
    (\<forall>x. f' \<le> x \<and> x \<le> l' \<longleftrightarrow> (f \<le> x \<and> x \<le> l) \<or> (\<exists>r\<in>set span. rg_first r \<le> x \<and> x \<le> rg_last r))"
    using assms
  proof (induction span arbitrary: f l t)
    case (Cons r span)
    define f1 l1 t1 where "f1 = (if rg_first r < f then rg_first r else f)"
      and "l1 = (if rg_last r > l then rg_last r else l)" and "t1 = bt_remove (range_key r) t"
    have r: "member t r" "overlaps r i f l" using Cons.prems(4) by auto
    note rem = remove_member [OF Cons.prems(1) r(1)]
    have f1: "f1 \<le> l1" "f1 \<le> f" "l \<le> l1" using Cons.prems(2) by (auto simp: f1_def l1_def not_less)
    have cov: "f1 \<le> x \<and> x \<le> l1 \<longleftrightarrow> (f \<le> x \<and> x \<le> l) \<or> (rg_first r \<le> x \<and> x \<le> rg_last r)" for x
      using r(2) Cons.prems(2) by (auto simp: f1_def l1_def overlaps_def not_less not_le)
    have "absorb r (f, l, t) = (f1, l1, t1)" by (simp add: absorb_def f1_def l1_def t1_def)
    then have "fold absorb span (f1, l1, t1) = (f', l', t')" using Cons.prems(5) by simp
    moreover have "member t1 s \<and> overlaps s i f1 l1" if "s \<in> set span" for s
      using Cons.prems(3,4) that f1 rem(2) by (auto simp: t1_def overlaps_def intro: order_trans)
    ultimately have "rl_inv t' \<and> (\<forall>s. member t' s \<longleftrightarrow> member t1 s \<and> s \<notin> set span) \<and> f' \<le> l' \<and>
      (\<forall>x. f' \<le> x \<and> x \<le> l' \<longleftrightarrow> (f1 \<le> x \<and> x \<le> l1) \<or> (\<exists>r\<in>set span. rg_first r \<le> x \<and> x \<le> rg_last r))"
      using Cons.IH [of t1 f1 l1] rem(1) f1(1) Cons.prems(3) by (simp add: t1_def)
    then show ?case using rem(2) cov by (auto simp: t1_def)
  qed simp
  then show "rl_inv t'" "\<And>s. member t' s \<longleftrightarrow> member t s \<and> s \<notin> set span" "f' \<le> l'"
    "\<And>x. f' \<le> x \<and> x \<le> l' \<longleftrightarrow> (f \<le> x \<and> x \<le> l) \<or> (\<exists>r\<in>set span. rg_first r \<le> x \<and> x \<le> rg_last r)" by auto
qed

lemma insert_range_covers:
  assumes "rl_inv t" "f \<le> l"
  obtains t' where "insert_range t spc f l = ok t'" "rl_inv t'"
    "\<And>i x. covers t' i x \<longleftrightarrow> covers t i x \<or> i = as_index spc \<and> f \<le> x \<and> x \<le> l"
proof -
  let ?i = "as_index spc"
  obtain span where span: "collect_span t spc f l = ok span" "distinct span"
    "\<And>r. r \<in> set span \<longleftrightarrow> member t r \<and> overlaps r ?i f l" by (rule collect_span_members [OF assms]) blast
  obtain f1 l1 t1 where fold: "fold absorb span (f, l, t) = (f1, l1, t1)" by (metis prod_cases3)
  note a = absorb_fold [OF assms span(2) _ fold, of ?i]
  have a: "rl_inv t1" "\<And>s. member t1 s \<longleftrightarrow> member t s \<and> s \<notin> set span" "f1 \<le> l1"
    "\<And>x. f1 \<le> x \<and> x \<le> l1 \<longleftrightarrow> (f \<le> x \<and> x \<le> l) \<or> (\<exists>r\<in>set span. rg_first r \<le> x \<and> x \<le> rg_last r)"
    using a span(3) by auto
  have free: "\<not> overlaps r ?i f1 l1" if "member t1 r" for r
  proof
    assume o: "overlaps r ?i f1 l1"
    have r: "member t r" "\<not> overlaps r ?i f l" "rg_first r \<le> rg_last r"
      using that a(2) span(3) rl_invD(3) [OF a(1) that] by auto
    define x where "x = (if rg_first r < f1 then f1 else rg_first r)"
    have x: "rg_first r \<le> x" "x \<le> rg_last r" "f1 \<le> x" "x \<le> l1"
      using o r(3) a(3) by (auto simp: x_def overlaps_def not_less)
    then consider "f \<le> x" "x \<le> l" | s where "s \<in> set span" "rg_first s \<le> x" "x \<le> rg_last s" using a(4) [of x] by blast
    then show False
    proof cases
      case 1
      then show False using x r(2) o by (auto simp: overlaps_def)
    next
      case 2
      then have "member t s" "s \<noteq> r" "as_index (rg_space s) = as_index (rg_space r)"
        using span(3) that a(2) o by (auto simp: overlaps_def)
      then show False using member_disjoint [OF assms(1), of s r] r(1) 2 x by auto
    qed
  qed
  note new = insert_free [OF a(1,3) free]
  have "insert_range t spc f l = ok (set_insert (new_addr_range spc f1 l1) t1)"
    by (simp add: insert_range_def span(1) fold)
  moreover have "covers (set_insert (new_addr_range spc f1 l1) t1) i x \<longleftrightarrow>
      covers t i x \<or> i = ?i \<and> f \<le> x \<and> x \<le> l" for i x
  proof -
    have "covers (set_insert (new_addr_range spc f1 l1) t1) i x \<longleftrightarrow> (i = ?i \<and> f1 \<le> x \<and> x \<le> l1) \<or> covers t1 i x"
      by (auto simp: covers_def new(2))
    also have "\<dots> \<longleftrightarrow> covers t i x \<or> i = ?i \<and> f \<le> x \<and> x \<le> l"
      using a(2,4) span(3) by (auto simp: covers_def overlaps_def)
    finally show ?thesis .
  qed
  ultimately show ?thesis using that new(1) by blast
qed

lemma u64_succ:
  fixes l :: u64
  assumes "l < x"
  shows "l + 1 \<le> y \<longleftrightarrow> l < y" "l < l + 1" "uint (l + 1) = uint l + 1"
proof -
  have "uint l + 1 < 2 ^ 64" using assms uint_bounded [of x] by (simp add: word_less_def)
  then show u: "uint (l + 1) = uint l + 1" using uint_nonnegative [of l] by (simp add: uint_word_ariths)
  show "l + 1 \<le> y \<longleftrightarrow> l < y" "l < l + 1" by (auto simp: word_le_def word_less_def u)
qed

lemma u64_pred:
  fixes f :: u64
  assumes "x < f"
  shows "y \<le> f - 1 \<longleftrightarrow> y < f"
proof -
  have "1 \<le> f" using assms by (simp add: word_le_def word_less_def) (use uint_nonnegative [of x] in linarith)
  then have "uint (f - 1) = uint f - 1" by (simp add: uint_minus)
  then show ?thesis by (auto simp: word_le_def word_less_def)
qed

lemma carve_step:
  assumes "rl_inv t" "member t r" "overlaps r (as_index spc) f l" "f \<le> l"
  shows "rl_inv (carve spc f l r t)" "\<And>s. member t s \<Longrightarrow> s \<noteq> r \<Longrightarrow> member (carve spc f l r t) s"
    "\<And>i x. covers (carve spc f l r t) i x \<longleftrightarrow> covers t i x \<and> \<not> (overlaps r i x x \<and> f \<le> x \<and> x \<le> l)"
proof -
  let ?i = "as_index spc"
  let ?A = "new_addr_range spc (rg_first r) (f - 1)" and ?B = "new_addr_range spc (l + 1) (rg_last r)"
  define t1 where "t1 = bt_remove (range_key r) t"
  define t2 where "t2 = (if rg_first r < f then set_insert ?A t1 else t1)"
  note rem = remove_member [OF assms(1,2), folded t1_def]
  have r: "as_index (rg_space r) = ?i" "rg_first r \<le> l" "f \<le> rg_last r" using assms(3) by (auto simp: overlaps_def)
  have free: "rg_last s < rg_first r \<or> rg_last r < rg_first s" if "member t1 s" "as_index (rg_space s) = ?i" for s
    using member_disjoint [OF assms(1), of s r] that rem(2) assms(2) r(1) by auto
  have t2: "rl_inv t2" "member t2 s \<longleftrightarrow> rg_first r < f \<and> s = ?A \<or> member t1 s" for s
  proof -
    have "\<not> overlaps s ?i (rg_first r) (f - 1)" if "rg_first r < f" "member t1 s" for s
      using free [OF that(2)] that(1) r(3) rl_invD(3) [OF rem(1) that(2)] by (auto simp: overlaps_def u64_pred)
    then show "rl_inv t2" "member t2 s \<longleftrightarrow> rg_first r < f \<and> s = ?A \<or> member t1 s"
      using insert_free [OF rem(1), of "rg_first r" "f - 1" spc] rem(1) by (auto simp: t2_def u64_pred)
  qed
  have t3: "rl_inv (carve spc f l r t)"
    "member (carve spc f l r t) s \<longleftrightarrow> l < rg_last r \<and> s = ?B \<or> member t2 s" for s
  proof -
    have c: "carve spc f l r t = (if rg_last r > l then set_insert ?B t2 else t2)"
      by (simp add: carve_def Let_def t2_def t1_def)
    have "\<not> overlaps s ?i (l + 1) (rg_last r)" if "l < rg_last r" "member t2 s" for s
    proof (cases "member t1 s")
      case True
      then show ?thesis using free [OF True] that(1) r(2) rl_invD(3) [OF rem(1) True] by (auto simp: overlaps_def u64_succ)
    next
      case False
      then have "s = ?A" "rg_first r < f" using that(2) t2(2) by auto
      then show ?thesis using u64_succ(2) [OF that(1)] assms(4) by (auto simp: overlaps_def u64_pred)
    qed
    then show "rl_inv (carve spc f l r t)" "member (carve spc f l r t) s \<longleftrightarrow> l < rg_last r \<and> s = ?B \<or> member t2 s"
      using insert_free [OF t2(1), of "l + 1" "rg_last r" spc] t2(1) by (auto simp: c u64_succ)
  qed
  show "rl_inv (carve spc f l r t)" by (rule t3(1))
  show "member t s \<Longrightarrow> s \<noteq> r \<Longrightarrow> member (carve spc f l r t) s" for s by (simp add: t3(2) t2(2) rem(2))
  show "covers (carve spc f l r t) i x \<longleftrightarrow> covers t i x \<and> \<not> (overlaps r i x x \<and> f \<le> x \<and> x \<le> l)" for i x
  proof -
    have "covers (carve spc f l r t) i x \<longleftrightarrow>
        (rg_first r < f \<and> overlaps ?A i x x) \<or> (l < rg_last r \<and> overlaps ?B i x x) \<or> covers t1 i x"
      by (auto simp: covers_overlaps t3(2) t2(2))
    also have "rg_first r < f \<and> overlaps ?A i x x \<longleftrightarrow> i = ?i \<and> rg_first r \<le> x \<and> x < f"
      by (auto simp: overlaps_def u64_pred)
    also have "l < rg_last r \<and> overlaps ?B i x x \<longleftrightarrow> i = ?i \<and> l < x \<and> x \<le> rg_last r"
      by (auto simp: overlaps_def u64_succ)
    finally have "covers (carve spc f l r t) i x \<longleftrightarrow>
        (i = ?i \<and> rg_first r \<le> x \<and> x < f) \<or> (i = ?i \<and> l < x \<and> x \<le> rg_last r) \<or> covers t1 i x" .
    also have "\<dots> \<longleftrightarrow> (covers t1 i x \<or> overlaps r i x x) \<and> \<not> (overlaps r i x x \<and> f \<le> x \<and> x \<le> l)"
    proof -
      have "\<not> overlaps r i x x" if "covers t1 i x"
        using that free r(1) by (fastforce simp: covers_def overlaps_def)
      then show ?thesis using r by (auto simp: overlaps_def not_le)
    qed
    also have "covers t1 i x \<or> overlaps r i x x \<longleftrightarrow> covers t i x"
      using assms(2) by (auto simp: covers_overlaps rem(2))
    finally show ?thesis .
  qed
qed

lemma carve_fold:
  assumes "rl_inv t" "f \<le> l" "distinct span" "\<And>r. r \<in> set span \<Longrightarrow> member t r \<and> overlaps r (as_index spc) f l"
  shows "rl_inv (fold (carve spc f l) span t) \<and> (\<forall>i x. covers (fold (carve spc f l) span t) i x \<longleftrightarrow>
    covers t i x \<and> \<not> ((\<exists>r\<in>set span. overlaps r i x x) \<and> f \<le> x \<and> x \<le> l))"
  using assms
proof (induction span arbitrary: t)
  case (Cons r span)
  have r: "member t r" "overlaps r (as_index spc) f l" using Cons.prems(4) by auto
  note c = carve_step [OF Cons.prems(1) r Cons.prems(2)]
  have "rl_inv (fold (carve spc f l) span (carve spc f l r t)) \<and> (\<forall>i x. covers (fold (carve spc f l) span (carve spc f l r t)) i x \<longleftrightarrow>
      covers (carve spc f l r t) i x \<and> \<not> ((\<exists>r\<in>set span. overlaps r i x x) \<and> f \<le> x \<and> x \<le> l))"
    using Cons.prems c(2) by (intro Cons.IH c(1)) auto
  then show ?case by (auto simp: c(3))
qed simp

lemma remove_range_covers:
  assumes "rl_inv t" "f \<le> l"
  obtains t' where "remove_range t spc f l = ok t'" "rl_inv t'"
    "\<And>i x. covers t' i x \<longleftrightarrow> covers t i x \<and> \<not> (i = as_index spc \<and> f \<le> x \<and> x \<le> l)"
proof -
  obtain span where span: "collect_span t spc f l = ok span" "distinct span"
    "\<And>r. r \<in> set span \<longleftrightarrow> member t r \<and> overlaps r (as_index spc) f l"
    by (rule collect_span_members [OF assms]) blast
  have carved: "rl_inv (fold (carve spc f l) span t)" "\<And>i x. covers (fold (carve spc f l) span t) i x \<longleftrightarrow>
      covers t i x \<and> \<not> ((\<exists>r\<in>set span. overlaps r i x x) \<and> f \<le> x \<and> x \<le> l)"
    using carve_fold [OF assms span(2)] span(3) by auto
  have cov: "covers (fold (carve spc f l) span t) i x \<longleftrightarrow> covers t i x \<and> \<not> (i = as_index spc \<and> f \<le> x \<and> x \<le> l)" for i x
  proof -
    have "(\<exists>r\<in>set span. overlaps r i x x) \<longleftrightarrow> i = as_index spc" if c: "covers t i x" "f \<le> x" "x \<le> l"
    proof -
      obtain r where "member t r" "overlaps r i x x" using c(1) by (auto simp: covers_overlaps)
      then have "r \<in> set span" if "i = as_index spc" using that c(2,3) by (auto simp: span(3) overlaps_def)
      moreover have "i = as_index spc" if "s \<in> set span" "overlaps s i x x" for s
        using that by (auto simp: span(3) overlaps_def)
      ultimately show ?thesis using \<open>overlaps r i x x\<close> by blast
    qed
    then show ?thesis unfolding carved(2) by blast
  qed
  show ?thesis
  proof (cases "t = []")
    case True
    then show ?thesis using that [of t] assms(1) by (auto simp: remove_range_def covers_def member_def bt_get_def)
  next
    case False
    then show ?thesis using that [OF _ carved(1) cov] span(1) by (simp add: remove_range_def)
  qed
qed

section \<open>Queries\<close>

lemma get_range_Some:
  assumes "rl_inv t"
  shows "get_range t spc x = Some r \<longleftrightarrow> member t r \<and> overlaps r (as_index spc) x x"
proof
  assume "get_range t spc x = Some r"
  then have "before_upper_bound t (new_addr_range spc x x) = Some r" "same_index r spc" "x \<le> rg_last r"
    by (auto simp: get_range_def split: if_splits option.splits)
  then show "member t r \<and> overlaps r (as_index spc) x x"
    using before_Some [OF assms] by (auto simp: overlaps_def same_index_def key_le)
next
  assume r: "member t r \<and> overlaps r (as_index spc) x x"
  then have "t \<noteq> []" by (auto simp: member_def bt_get_def)
  then show "get_range t spc x = Some r" using before_covers [OF assms] r
    by (auto simp: get_range_def overlaps_def same_index_def)
qed

lemma in_range_covers:
  assumes "rl_inv t" "ad_space a = Some spc" "1 \<le> sz" "uint (ad_offset a) + uint sz \<le> 2 ^ 64"
  shows "in_range t a sz \<longleftrightarrow> (\<exists>r. member t r \<and> as_index (rg_space r) = as_index spc
    \<and> rg_first r \<le> ad_offset a \<and> ad_offset a + sz - 1 \<le> rg_last r)"
proof -
  let ?x = "ad_offset a"
  have "1 \<le> uint sz" using assms(3) by (simp add: word_le_def)
  then have e: "uint (?x + (word_of_int (uint sz) - 1)) = uint ?x + uint sz - 1" using assms(4) by (intro uint_end)
  have e: "\<not> ?x + sz - 1 < ?x" using e \<open>1 \<le> uint sz\<close> by (simp add: word_less_def algebra_simps)
  show ?thesis
  proof (cases "before_upper_bound t (new_addr_range spc ?x ?x)")
    case None
    then have "\<not> in_range t a sz" using assms(2) by (auto simp: in_range_def)
    moreover have "\<not> (member t r \<and> as_index (rg_space r) = as_index spc \<and> rg_first r \<le> ?x)" for r
      using None by (auto simp: before_None [OF assms(1)] key_le)
    ultimately show ?thesis by blast
  next
    case (Some p)
    then have ne: "t \<noteq> []" by (auto simp: before_upper_bound_def bt_last_le_def bt_upto_def)
    have p: "member t p" "range_key p \<le> (as_index spc, ?x)" using Some by (auto simp: before_Some [OF assms(1)])
    have "in_range t a sz \<longleftrightarrow> same_index p spc \<and> ?x + sz - 1 \<le> rg_last p"
      using Some ne assms(2) e by (auto simp: in_range_def Let_def)
    also have "\<dots> \<longleftrightarrow> (\<exists>r. member t r \<and> as_index (rg_space r) = as_index spc \<and> rg_first r \<le> ?x \<and> ?x + sz - 1 \<le> rg_last r)"
    proof
      assume "same_index p spc \<and> ?x + sz - 1 \<le> rg_last p"
      then show "\<exists>r. member t r \<and> as_index (rg_space r) = as_index spc \<and> rg_first r \<le> ?x \<and> ?x + sz - 1 \<le> rg_last r"
        using p by (auto simp: same_index_def key_le)
    next
      assume "\<exists>r. member t r \<and> as_index (rg_space r) = as_index spc \<and> rg_first r \<le> ?x \<and> ?x + sz - 1 \<le> rg_last r"
      then obtain r where r: "member t r" "as_index (rg_space r) = as_index spc" "rg_first r \<le> ?x" "?x + sz - 1 \<le> rg_last r"
        by blast
      then have "overlaps r (as_index spc) ?x ?x" using e by (auto simp: overlaps_def not_less)
      then have "p = r" using before_covers [OF assms(1) r(1)] Some by simp
      then show "same_index p spc \<and> ?x + sz - 1 \<le> rg_last p" using r by (simp add: same_index_def)
    qed
    finally show ?thesis .
  qed
qed

text \<open>C13: A range list is a set of addresses. \<open>insert_range\<close> and \<open>remove_range\<close> never panic, keep the list
  sorted and its ranges disjoint, and add and remove exactly the given addresses; \<open>get_range\<close> finds the
  range that covers an address.\<close>
theorem range_list_set:
  assumes "rl_inv t" "f \<le> l"
  shows "(\<exists>t'. insert_range t spc f l = ok t' \<and> rl_inv t' \<and>
      (\<forall>i x. covers t' i x \<longleftrightarrow> covers t i x \<or> i = as_index spc \<and> f \<le> x \<and> x \<le> l))
    \<and> (\<exists>t'. remove_range t spc f l = ok t' \<and> rl_inv t' \<and>
      (\<forall>i x. covers t' i x \<longleftrightarrow> covers t i x \<and> \<not> (i = as_index spc \<and> f \<le> x \<and> x \<le> l)))
    \<and> (\<forall>x. get_range t spc x \<noteq> None \<longleftrightarrow> covers t (as_index spc) x)"
proof (intro conjI allI)
  show "\<exists>t'. insert_range t spc f l = ok t' \<and> rl_inv t' \<and>
      (\<forall>i x. covers t' i x \<longleftrightarrow> covers t i x \<or> i = as_index spc \<and> f \<le> x \<and> x \<le> l)"
    using insert_range_covers [OF assms] by metis
  show "\<exists>t'. remove_range t spc f l = ok t' \<and> rl_inv t' \<and>
      (\<forall>i x. covers t' i x \<longleftrightarrow> covers t i x \<and> \<not> (i = as_index spc \<and> f \<le> x \<and> x \<le> l))"
    using remove_range_covers [OF assms] by metis
  show "get_range t spc x \<noteq> None \<longleftrightarrow> covers t (as_index spc) x" for x
    using get_range_Some [OF assms(1)] by (auto simp: covers_overlaps)
qed

lemma empty_inv: "rl_inv []"
  by (simp add: rl_inv_def member_def bt_get_def)

lemma range_list_set_witness:
  "\<exists>t. insert_range [] (new_processor ''ram'' False 4 1 3 0 1 1) 0x10 0x1f = ok t \<and> covers t 3 0x15 \<and> \<not> covers t 3 0x20"
proof -
  let ?spc = "new_processor ''ram'' False 4 1 3 0 1 1"
  have "\<exists>t'. insert_range [] ?spc 0x10 0x1f = ok t' \<and> rl_inv t' \<and>
      (\<forall>i x. covers t' i x \<longleftrightarrow> covers [] i x \<or> i = as_index ?spc \<and> 0x10 \<le> x \<and> x \<le> 0x1f)"
    using range_list_set [OF empty_inv, of "0x10" "0x1f" ?spc] by simp
  then obtain t where t: "insert_range [] ?spc 0x10 0x1f = ok t"
    "\<And>i x. covers t i x \<longleftrightarrow> covers [] i x \<or> i = as_index ?spc \<and> 0x10 \<le> x \<and> x \<le> 0x1f" by blast
  have "\<not> covers [] i x" for i x by (simp add: covers_def member_def bt_get_def)
  then show ?thesis using t by (auto simp: new_processor_def)
qed

end
