(* ===== verification/Range_Queries.thy ===== *)
theory Range_Queries
  imports Range_List
begin

text \<open>
  The queries of \<open>RangeList\<close> that measure (\<open>longest_fit\<close>, \<open>get_nearest_range\<close>) and the union of two lists
  (\<open>merge\<close>), from the facts of \<open>Range_List\<close>.
\<close>

section \<open>The longest fit\<close>

lemma longest_fit_loop_correct:
  assumes inv: "rl_inv t" and top: "\<not> covers t (as_index spc) (NOT 0)"
    and "sorted_wrt (<) (map range_key rs)" "\<And>r. r \<in> set rs \<Longrightarrow> member t r \<and> as_index spc \<le> as_index (rg_space r)"
    and "\<And>s. member t s \<Longrightarrow> as_index (rg_space s) = as_index spc \<Longrightarrow> pos \<le> rg_last s \<longleftrightarrow> s \<in> set rs"
    and "uint pos = uint off + uint n" "\<And>x. off \<le> x \<Longrightarrow> x < pos \<Longrightarrow> covers t (as_index spc) x"
    and "m = longest_fit_loop rs spc pos n maxsize"
  shows "uint (off + m) = uint off + uint m \<and> (\<forall>x. off \<le> x \<longrightarrow> x < off + m \<longrightarrow> covers t (as_index spc) x)
    \<and> (m < maxsize \<longrightarrow> \<not> covers t (as_index spc) (off + m))"
  using assms(3-)
proof (induction rs arbitrary: pos n)
  case Nil
  have pos: "pos = off + n" using Nil.prems(4) by (metis of_int_add of_int_uint word_of_int_uint)
  have "\<not> covers t (as_index spc) pos" using Nil.prems(3) by (auto simp: covers_def)
  then show ?case using Nil.prems pos by auto
next
  case (Cons r rs)
  have pos: "pos = off + n" using Cons.prems(4) by (metis of_int_add word_of_int_uint)
  have r: "member t r" "as_index spc \<le> as_index (rg_space r)" using Cons.prems(2) by auto
  have stop: "uint (off + n) = uint off + uint n \<and> (\<forall>x. off \<le> x \<longrightarrow> x < off + n \<longrightarrow> covers t (as_index spc) x)
      \<and> (n < maxsize \<longrightarrow> \<not> covers t (as_index spc) (off + n))" if "\<not> covers t (as_index spc) pos"
    using that Cons.prems(4,5) pos by auto
  show ?case
  proof (cases "same_index r spc \<and> rg_first r \<le> pos")
    case False
    have "\<not> overlaps s (as_index spc) pos pos" if s: "member t s" for s
    proof
      assume o: "overlaps s (as_index spc) pos pos"
      then have "s \<in> set (r # rs)" using Cons.prems(3) [OF s] by (simp add: overlaps_def)
      then have "range_key r \<le> range_key s" using Cons.prems(1) by auto
      then show False using False o r(2) by (auto simp: range_key_def less_eq_prod_def overlaps_def same_index_def)
    qed
    then have "\<not> covers t (as_index spc) pos" by (simp add: covers_overlaps)
    moreover have "m = n" using False Cons.prems(6) by auto
    ultimately show ?thesis using stop by simp
  next
    case True
    then have i: "as_index (rg_space r) = as_index spc" by (simp add: same_index_def)
    have last: "pos \<le> rg_last r" using Cons.prems(3) [OF r(1) i] by simp
    define pos' n' where "pos' = rg_last r + 1" and "n' = n + (rg_last r + 1 - pos)"
    have "covers t (as_index spc) (rg_last r)" using r(1) i rl_invD(3) [OF inv r(1)] by (auto simp: covers_def)
    then have "rg_last r \<noteq> NOT 0" using top by metis
    then have "rg_last r < NOT 0" using word_order.not_eq_extremum [of "rg_last r"] by simp
    note succ = u64_succ [OF this]
    have n': "uint pos' = uint off + uint n'"
    proof -
      have "pos \<le> rg_last r + 1" using last succ(2) by auto
      then have "uint (rg_last r + 1 - pos) = uint (rg_last r) + 1 - uint pos" by (simp add: uint_minus succ(3))
      then have "uint n + uint (rg_last r + 1 - pos) = uint pos' - uint off"
        using Cons.prems(4) succ(3) by (simp add: pos'_def)
      moreover have "uint pos' - uint off < 2 ^ 64" using uint_bounded [of pos'] uint_nonnegative [of off] by linarith
      moreover have "0 \<le> uint n + uint (rg_last r + 1 - pos)" by simp
      ultimately have "uint n' = uint pos' - uint off" unfolding n'_def by (subst uint_word_ariths) (simp del: uint_word_ariths)
      then show ?thesis by simp
    qed
    have cov: "covers t (as_index spc) x" if "off \<le> x" "x < pos'" for x
    proof (cases "x < pos")
      case False
      then have "rg_first r \<le> x" "x \<le> rg_last r" using True that(2) succ(1) [of x] by (auto simp: pos'_def not_less not_le)
      then show ?thesis using r(1) i by (auto simp: covers_def)
    qed (use Cons.prems(5) that in auto)
    show ?thesis
    proof (cases "n' \<ge> maxsize")
      case True
      then have "m = n'" using \<open>same_index r spc \<and> _\<close> Cons.prems(6) by (auto simp: n'_def Let_def not_less)
      moreover have "pos' = off + n'" using n' by (metis of_int_add word_of_int_uint)
      ultimately show ?thesis using n' cov True by auto
    next
      case False
      have rest: "pos' \<le> rg_last s \<longleftrightarrow> s \<in> set rs" if s: "member t s" "as_index (rg_space s) = as_index spc" for s
      proof
        assume "pos' \<le> rg_last s"
        then have "rg_last r < rg_last s" using succ(1) by (simp add: pos'_def)
        then have "s \<noteq> r" "pos \<le> rg_last s" using last by auto
        then show "s \<in> set rs" using Cons.prems(3) [OF s] by simp
      next
        assume "s \<in> set rs"
        then have "range_key r < range_key s" using Cons.prems(1) by simp
        then have "rg_first r < rg_first s" using i s(2) by (simp add: range_key_def less_prod_def')
        then have "rg_last r < rg_first s" using rl_invD(4) [OF inv r(1) s(1)] i s(2) by simp
        then show "pos' \<le> rg_last s" using rl_invD(3) [OF inv s(1)] by (simp add: pos'_def succ(1))
      qed
      have "m = longest_fit_loop rs spc pos' n' maxsize"
        using False \<open>same_index r spc \<and> _\<close> Cons.prems(6) by (auto simp: n'_def pos'_def Let_def not_less)
      then show ?thesis using Cons.IH [of pos' n'] Cons.prems(1,2) rest n' cov by auto
    qed
  qed
qed

lemma from_members:
  assumes "rl_inv t" "member t p"
  shows "sorted_wrt (<) (map range_key (map snd (bt_from (range_key p) t)))"
    "r \<in> set (map snd (bt_from (range_key p) t)) \<longleftrightarrow> member t r \<and> range_key p \<le> range_key r"
proof -
  note inv = rl_invD(1) [OF assms(1)]
  have in_t: "(k, r) \<in> set t \<longleftrightarrow> range_key r = k \<and> member t r" for k r
    using bt_get_iff [OF inv, of k r] rl_invD(2) [OF assms(1), of k r] by simp
  then have "map range_key (map snd (bt_from (range_key p) t)) = map fst (bt_from (range_key p) t)"
    by (auto simp: bt_from_def)
  then show "sorted_wrt (<) (map range_key (map snd (bt_from (range_key p) t)))"
    using bt_inv_filter [OF inv, of "\<lambda>(j, _). range_key p \<le> j"] unfolding bt_inv_def bt_from_def by argo
  have "r \<in> set (map snd (bt_from (range_key p) t)) \<longleftrightarrow> (\<exists>k. (k, r) \<in> set t \<and> range_key p \<le> k)"
    by (force simp: bt_from_def)
  then show "r \<in> set (map snd (bt_from (range_key p) t)) \<longleftrightarrow> member t r \<and> range_key p \<le> range_key r"
    using in_t by (auto simp del: split_paired_Ex)
qed

lemma longest_fit_correct:
  assumes "rl_inv t" "ad_space a = Some spc" "\<not> covers t (as_index spc) (NOT 0)" "m = longest_fit t a maxsize"
  shows "uint (ad_offset a + m) = uint (ad_offset a) + uint m
    \<and> (\<forall>x. ad_offset a \<le> x \<longrightarrow> x < ad_offset a + m \<longrightarrow> covers t (as_index spc) x)
    \<and> (m < maxsize \<longrightarrow> \<not> covers t (as_index spc) (ad_offset a + m))"
proof (cases "covers t (as_index spc) (ad_offset a)")
  case True
  let ?x = "ad_offset a"
  obtain p where p: "member t p" "overlaps p (as_index spc) ?x ?x" using True by (auto simp: covers_overlaps)
  note bub = before_covers [OF assms(1) p, of ?x]
  let ?rs = "map snd (bt_from (range_key p) t)"
  note above = from_members [OF assms(1) p(1)]
  have "t \<noteq> []" using p(1) by (auto simp: member_def bt_get_def)
  then have "m = longest_fit_loop ?rs spc ?x 0 maxsize"
    using assms(2,4) bub p(2) by (auto simp: longest_fit_def overlaps_def)
  moreover have "?x \<le> rg_last s \<longleftrightarrow> s \<in> set ?rs" if s: "member t s" "as_index (rg_space s) = as_index spc" for s
    unfolding above(2)
  proof
    assume "?x \<le> rg_last s"
    have "\<not> rg_first s < rg_first p"
      using rl_invD(4) [OF assms(1) s(1) p(1)] s(2) p(2) \<open>?x \<le> rg_last s\<close> by (auto simp: overlaps_def)
    then show "member t s \<and> range_key p \<le> range_key s"
      using s p(2) by (auto simp: range_key_def less_eq_prod_def overlaps_def not_less)
  next
    assume "member t s \<and> range_key p \<le> range_key s"
    then have "rg_first p \<le> rg_first s" using s p(2) by (auto simp: range_key_def less_eq_prod_def overlaps_def)
    then consider "s = p" | "rg_first p < rg_first s"
      using member_unique [OF p(1) s(1)] s(2) p(2) by (fastforce simp: range_key_def overlaps_def)
    then show "?x \<le> rg_last s"
      using rl_invD(4) [OF assms(1) p(1) s(1)] rl_invD(3) [OF assms(1) s(1)] s(2) p(2) by cases (auto simp: overlaps_def)
  qed
  moreover have "member t r \<and> as_index spc \<le> as_index (rg_space r)" if "r \<in> set ?rs" for r
    using that p(2) unfolding above(2) by (auto simp: range_key_def less_eq_prod_def overlaps_def)
  ultimately show ?thesis
    by (intro longest_fit_loop_correct [OF assms(1,3) above(1), where pos = ?x and n = 0]) (auto simp del: set_map)
next
  case False
  have "m = 0"
  proof (cases "before_upper_bound t (new_addr_range spc (ad_offset a) (ad_offset a))")
    case (Some p)
    then have p: "member t p" "\<not> (same_index p spc \<and> ad_offset a \<le> rg_last p)"
      using before_Some [OF assms(1)] before_not_covers [OF assms(1) Some] False by auto
    note above = from_members [OF assms(1) p(1)]
    have "p \<in> set (map snd (bt_from (range_key p) t))" unfolding above(2) using p(1) by simp
    then obtain q rs where q: "map snd (bt_from (range_key p) t) = q # rs"
      by (cases "map snd (bt_from (range_key p) t)") auto
    have "range_key q \<le> range_key p" using above(1) \<open>p \<in> _\<close> unfolding q by auto
    moreover have "member t q" "range_key p \<le> range_key q" using above(2) [of q] unfolding q by auto
    ultimately have "q = p" using member_unique [OF \<open>member t q\<close> p(1)] by simp
    then show ?thesis using assms(2,4) Some p(2) unfolding longest_fit_def
      by (cases "same_index p spc") (simp_all add: q not_le)
  qed (use assms in \<open>simp add: longest_fit_def\<close>)
  then show ?thesis using False by auto
qed

text \<open>\<open>longest_fit\<close> and \<open>in_range\<close> measure the covered bytes. When the last byte of the 64-bit offsets
  is not in the list, every byte of the fit is covered, the fit does not run over the end of the offsets,
  and a fit below the maximum ends at a byte that is not covered; \<open>in_range\<close> holds exactly when a single
  range holds all the bytes.\<close>
theorem range_list_fit:
  assumes "rl_inv t" "ad_space a = Some spc" "\<not> covers t (as_index spc) (NOT 0)" "1 \<le> sz"
    and "uint (ad_offset a) + uint sz \<le> 2 ^ 64"
  shows "uint (ad_offset a + longest_fit t a maxsize) = uint (ad_offset a) + uint (longest_fit t a maxsize)
    \<and> (\<forall>x. ad_offset a \<le> x \<longrightarrow> x < ad_offset a + longest_fit t a maxsize \<longrightarrow> covers t (as_index spc) x)
    \<and> (longest_fit t a maxsize < maxsize \<longrightarrow> \<not> covers t (as_index spc) (ad_offset a + longest_fit t a maxsize))
    \<and> (in_range t a sz \<longleftrightarrow> (\<exists>r. member t r \<and> as_index (rg_space r) = as_index spc
        \<and> rg_first r \<le> ad_offset a \<and> ad_offset a + sz - 1 \<le> rg_last r))"
  using longest_fit_correct [OF assms(1-3) refl, of maxsize] in_range_covers [OF assms(1,2,4,5)] by blast

text \<open>The whole space of 64-bit offsets overflows the count: its longest fit is 0.\<close>

lemma longest_fit_full:
  "longest_fit [((3, 0), new_addr_range (new_processor ''ram'' False 8 1 3 0 1 1) 0 (NOT 0))]
     (new_address (new_processor ''ram'' False 8 1 3 0 1 1) 0) 16 = 0"
  by (simp add: longest_fit_def new_address_def before_upper_bound_def bt_last_le_def bt_upto_def bt_from_def
      new_processor_def same_index_def Let_def)

definition example_list :: "addr_space \<Rightarrow> range_list" where
  "example_list spc = [((as_index spc, 0x10), new_addr_range spc 0x10 0x1f), ((as_index spc, 0x20), new_addr_range spc 0x20 0x2f)]"

lemma example_list: "rl_inv (example_list spc)"
  "member (example_list spc) r \<longleftrightarrow> r = new_addr_range spc 0x10 0x1f \<or> r = new_addr_range spc 0x20 0x2f"
proof -
  show m: "member (example_list spc) r \<longleftrightarrow> r = new_addr_range spc 0x10 0x1f \<or> r = new_addr_range spc 0x20 0x2f" for r
    by (auto simp: member_def example_list_def bt_get_def)
  show "rl_inv (example_list spc)"
    by (rule rl_invI) (auto simp: m, auto simp: example_list_def bt_get_def less_prod_def' split: if_splits)
qed

lemma range_list_fit_witness:
  "\<not> covers (example_list (new_processor ''ram'' False 4 1 3 0 1 1)) 3
     (0x18 + longest_fit (example_list (new_processor ''ram'' False 4 1 3 0 1 1)) (new_address (new_processor ''ram'' False 4 1 3 0 1 1) 0x18) 0x40)"
proof -
  let ?spc = "new_processor ''ram'' False 4 1 3 0 1 1"
  have i: "as_index ?spc = 3" by (simp add: new_processor_def)
  have "longest_fit (example_list ?spc) (new_address ?spc 0x18) 0x40 = 0x18"
    by (simp add: longest_fit_def new_address_def before_upper_bound_def bt_last_le_def bt_upto_def bt_from_def
      example_list_def less_eq_prod_def same_index_def Let_def)
  moreover have "\<not> covers (example_list ?spc) (as_index ?spc) (NOT 0)"
    by (auto simp: covers_def example_list word_order.extremum_unique)
  ultimately show ?thesis
    using range_list_fit [OF example_list(1), of "new_address ?spc 0x18" ?spc ?spc 1 "0x40"] i
    by (simp add: new_address_def)
qed

section \<open>The nearest range\<close>

definition range_dist :: "addr_range \<Rightarrow> u64 \<Rightarrow> int" where
  "range_dist r x =
     (if x < rg_first r then uint (rg_first r) - uint x
      else if rg_last r < x then uint x - uint (rg_last r) else 0)"

lemma dist_below:
  assumes "rl_inv t" "before_upper_bound t (new_addr_range spc x x) = Some b" "same_index b spc"
    and "member t s" "as_index (rg_space s) = as_index spc" "rg_first s \<le> x"
  shows "range_dist b x \<le> range_dist s x"
proof -
  have b: "member t b" "range_key b \<le> (as_index spc, x)" "range_key s \<le> range_key b"
    using assms before_Some [OF assms(1)] by (auto simp: key_le)
  then have f: "rg_first b \<le> x" "rg_first s \<le> rg_first b" using assms(3,5)
    by (auto simp: key_le same_index_def range_key_def less_eq_prod_def)
  have "s = b \<or> rg_last s < rg_first b"
  proof (cases "rg_first s < rg_first b")
    case True
    then show ?thesis using rl_invD(4) [OF assms(1,4) b(1)] assms(3,5) by (simp add: same_index_def)
  next
    case False
    then show ?thesis using member_unique [OF assms(4) b(1)] f assms(3,5) by (simp add: range_key_def same_index_def)
  qed
  then show ?thesis using f rl_invD(3) [OF assms(1) b(1)] assms(6)
    by (auto simp: range_dist_def word_less_def word_le_def)
qed

lemma dist_above:
  assumes "rl_inv t" "upper_bound t (new_addr_range spc x x) = Some c" "same_index c spc"
    and "member t s" "as_index (rg_space s) = as_index spc" "x < rg_first s"
  shows "range_dist c x \<le> range_dist s x"
proof -
  have "range_key c \<le> range_key s" "(as_index spc, x) < range_key c"
    using assms upper_Some [OF assms(1)] by (auto simp: key_gt)
  then have "rg_first c \<le> rg_first s" "x < rg_first c" using assms(3,5)
    by (auto simp: key_gt same_index_def range_key_def less_eq_prod_def)
  then show ?thesis using assms(6) by (simp add: range_dist_def word_le_def)
qed

text \<open>\<open>get_nearest_range\<close> returns a range of the space at the least distance from the offset, and
  nothing exactly when the list has no range in that space.\<close>
theorem get_nearest_range_correct:
  assumes "rl_inv t"
  shows "(get_nearest_range t spc x = None \<longleftrightarrow> (\<forall>s. member t s \<longrightarrow> as_index (rg_space s) \<noteq> as_index spc))
    \<and> (\<forall>r. get_nearest_range t spc x = Some r \<longrightarrow> member t r \<and> as_index (rg_space r) = as_index spc
        \<and> (\<forall>s. member t s \<longrightarrow> as_index (rg_space s) = as_index spc \<longrightarrow> range_dist r x \<le> range_dist s x))"
proof -
  let ?b = "case before_upper_bound t (new_addr_range spc x x) of Some r \<Rightarrow> if same_index r spc then Some r else None | None \<Rightarrow> None"
  let ?c = "case upper_bound t (new_addr_range spc x x) of Some r \<Rightarrow> if same_index r spc then Some r else None | None \<Rightarrow> None"
  have b: "member t r \<and> as_index (rg_space r) = as_index spc \<and> rg_first r \<le> x
      \<and> (\<forall>s. member t s \<longrightarrow> as_index (rg_space s) = as_index spc \<longrightarrow> rg_first s \<le> x \<longrightarrow> range_dist r x \<le> range_dist s x)"
    if "?b = Some r" for r
    using that dist_below [OF assms] before_Some [OF assms]
    by (auto simp: same_index_def key_le split: option.splits if_splits)
  have c: "member t r \<and> as_index (rg_space r) = as_index spc \<and> x < rg_first r
      \<and> (\<forall>s. member t s \<longrightarrow> as_index (rg_space s) = as_index spc \<longrightarrow> x < rg_first s \<longrightarrow> range_dist r x \<le> range_dist s x)"
    if "?c = Some r" for r
    using that dist_above [OF assms] upper_Some [OF assms]
    by (auto simp: same_index_def key_gt split: option.splits if_splits)
  have bn: "x < rg_first s" if s: "?b = None" "member t s" "as_index (rg_space s) = as_index spc" for s
  proof (rule ccontr)
    assume "\<not> x < rg_first s"
    then have k: "range_key s \<le> range_key (new_addr_range spc x x)" using s(3) by (simp add: key_le)
    then obtain p where p: "before_upper_bound t (new_addr_range spc x x) = Some p"
      using before_None [OF assms] s(2) by fastforce
    then have "range_key s \<le> range_key p" "range_key p \<le> (as_index spc, x)"
      using k s(2) before_Some [OF assms] by auto
    then have "same_index p spc" using s(3) by (auto simp: range_key_def less_eq_prod_def same_index_def)
    then show False using s(1) p by simp
  qed
  have cn: "rg_first s \<le> x" if s: "?c = None" "member t s" "as_index (rg_space s) = as_index spc" for s
  proof (rule ccontr)
    assume "\<not> rg_first s \<le> x"
    then have k: "range_key (new_addr_range spc x x) < range_key s" using s(3) by (simp add: key_gt)
    then obtain p where p: "upper_bound t (new_addr_range spc x x) = Some p"
      using upper_None [OF assms] s(2) by fastforce
    then have "range_key p \<le> range_key s" "(as_index spc, x) < range_key p"
      using k s(2) upper_Some [OF assms] by auto
    then have "same_index p spc" using s(3) by (auto simp: range_key_def less_eq_prod_def less_prod_def' same_index_def)
    then show False using s(1) p by simp
  qed
  have near: "get_nearest_range t spc x = (case ?b of None \<Rightarrow> ?c | Some b \<Rightarrow> (case ?c of None \<Rightarrow> Some b
      | Some c \<Rightarrow> if rg_last b \<ge> x then Some b else if rg_first c - x < x - rg_last b then Some c else Some b))"
  proof (cases "t = []")
    case True
    then show ?thesis by (simp add: get_nearest_range_def before_upper_bound_def upper_bound_def bt_last_le_def
      bt_upto_def bt_first_gt_def bt_above_def)
  qed (auto simp: get_nearest_range_def Let_def split: option.splits)
  define B C where "B = ?b" and "C = ?c"
  note b = b [folded B_def] and c = c [folded C_def] and bn = bn [folded B_def] and cn = cn [folded C_def]
    and near = near [folded B_def C_def]
  show ?thesis
  proof (cases B; cases C)
    fix p q
    assume B: "B = Some p" and C: "C = Some q"
    have p: "rg_first p \<le> x" and q: "x < rg_first q" using b [OF B] c [OF C] by auto
    have dq: "range_dist q x = uint (rg_first q - x)" using q by (simp add: range_dist_def uint_minus)
    have dp: "range_dist p x = (if x \<le> rg_last p then 0 else uint (x - rg_last p))"
      using p by (auto simp: range_dist_def uint_minus)
    define r where "r = (if rg_last p \<ge> x then p else if rg_first q - x < x - rg_last p then q else p)"
    have "r = p \<or> r = q" by (simp add: r_def)
    have "range_dist r x \<le> range_dist p x \<and> range_dist r x \<le> range_dist q x"
      by (auto simp: r_def dp dq word_less_def)
    then have "range_dist r x \<le> range_dist s x" if "member t s" "as_index (rg_space s) = as_index spc" for s
      using that b [OF B] c [OF C] by (cases "rg_first s \<le> x") (auto simp: not_le intro: order_trans)
    moreover have "member t r \<and> as_index (rg_space r) = as_index spc" using \<open>r = p \<or> r = q\<close> b [OF B] c [OF C] by auto
    moreover have "get_nearest_range t spc x = Some r" by (simp add: near B C r_def)
    ultimately show ?thesis by auto
  qed (use near b c bn cn in \<open>fastforce simp: not_le dest: leD\<close>)+
qed

lemma get_nearest_range_witness:
  "get_nearest_range (example_list (new_processor ''ram'' False 4 1 3 0 1 1)) (new_processor ''ram'' False 4 1 3 0 1 1) 0x100
     = Some (new_addr_range (new_processor ''ram'' False 4 1 3 0 1 1) 0x20 0x2f)"
proof -
  let ?spc = "new_processor ''ram'' False 4 1 3 0 1 1"
  note n = get_nearest_range_correct [OF example_list(1), of ?spc ?spc "0x100"]
  have "get_nearest_range (example_list ?spc) ?spc 0x100 \<noteq> None" using n by (auto simp: example_list)
  then obtain r where r: "get_nearest_range (example_list ?spc) ?spc 0x100 = Some r" by blast
  then have "member (example_list ?spc) r" "range_dist r 0x100 \<le> range_dist (new_addr_range ?spc 0x20 0x2f) 0x100"
    using n by (auto simp: example_list)
  then show ?thesis using r by (auto simp: example_list range_dist_def)
qed

text \<open>Merging adds the second list.\<close>

lemma merge_covers_list:
  assumes "rl_inv t" "\<And>e. e \<in> set es \<Longrightarrow> rg_first (snd e) \<le> rg_last (snd e)"
  shows "\<exists>t'. foldl (\<lambda>acc e. run_bind acc (\<lambda>t. insert_one t (snd e))) (ok t) es = ok t' \<and> rl_inv t' \<and>
    (\<forall>i x. covers t' i x \<longleftrightarrow> covers t i x \<or> (\<exists>e\<in>set es. overlaps (snd e) i x x))"
  using assms
proof (induction es arbitrary: t)
  case (Cons e es)
  have "rg_first (snd e) \<le> rg_last (snd e)" using Cons.prems(2) by simp
  from insert_range_covers [OF Cons.prems(1) this, of "rg_space (snd e)"] obtain t1 where
    t1: "insert_one t (snd e) = ok t1" "rl_inv t1"
      "\<And>i x. covers t1 i x \<longleftrightarrow> covers t i x \<or> i = as_index (rg_space (snd e)) \<and> rg_first (snd e) \<le> x \<and> x \<le> rg_last (snd e)"
    by (auto simp: insert_one_def)
  from Cons.IH [OF t1(2)] Cons.prems(2) obtain t' where
    "foldl (\<lambda>acc e. run_bind acc (\<lambda>t. insert_one t (snd e))) (ok t1) es = ok t'" "rl_inv t'"
    "\<forall>i x. covers t' i x \<longleftrightarrow> covers t1 i x \<or> (\<exists>e\<in>set es. overlaps (snd e) i x x)" by auto
  then show ?case using t1 by (intro exI [of _ t']) (auto simp: overlaps_def)
qed simp

text \<open>C38: \<open>merge\<close> is the union of two range lists: it never panics, keeps the invariant, and covers exactly
  the addresses that one of the lists covers.\<close>
theorem merge_ranges_union:
  assumes "rl_inv t" "rl_inv u"
  shows "\<exists>t'. merge_ranges t u = ok t' \<and> rl_inv t' \<and> (\<forall>i x. covers t' i x \<longleftrightarrow> covers t i x \<or> covers u i x)"
proof -
  have in_u: "e \<in> set u \<longleftrightarrow> range_key (snd e) = fst e \<and> member u (snd e)" for e
    using bt_get_iff [OF rl_invD(1) [OF assms(2)], of "fst e" "snd e"] rl_invD(2) [OF assms(2), of "fst e" "snd e"] by simp
  then have "rg_first (snd e) \<le> rg_last (snd e)" if "e \<in> set u" for e using that rl_invD(3) [OF assms(2)] by blast
  then have "\<exists>t'. merge_ranges t u = ok t' \<and> rl_inv t' \<and>
      (\<forall>i x. covers t' i x \<longleftrightarrow> covers t i x \<or> (\<exists>e\<in>set u. overlaps (snd e) i x x))"
    unfolding merge_ranges_def by (rule merge_covers_list [OF assms(1)])
  then obtain t' where t': "merge_ranges t u = ok t'" "rl_inv t'"
    "\<forall>i x. covers t' i x \<longleftrightarrow> covers t i x \<or> (\<exists>e\<in>set u. overlaps (snd e) i x x)" by blast
  have "(\<exists>e\<in>set u. overlaps (snd e) i x x) \<longleftrightarrow> covers u i x" for i x
  proof
    show "\<exists>e\<in>set u. overlaps (snd e) i x x \<Longrightarrow> covers u i x" unfolding covers_overlaps using in_u by blast
    assume "covers u i x"
    then obtain r where "member u r" "overlaps r i x x" by (auto simp: covers_overlaps)
    then show "\<exists>e\<in>set u. overlaps (snd e) i x x" using in_u [of "(range_key r, r)"] by (intro bexI [of _ "(range_key r, r)"]) auto
  qed
  then show ?thesis using t' by auto
qed

lemma merge_ranges_witness:
  "\<exists>t. merge_ranges [] (example_list (new_processor ''ram'' False 4 1 3 0 1 1)) = ok t \<and> covers t 3 0x1f \<and> \<not> covers t 3 0x30"
proof -
  let ?spc = "new_processor ''ram'' False 4 1 3 0 1 1"
  obtain t where t: "merge_ranges [] (example_list ?spc) = ok t" "\<And>i x. covers t i x \<longleftrightarrow> covers [] i x \<or> covers (example_list ?spc) i x"
    using merge_ranges_union [OF empty_inv example_list(1), of ?spc] by blast
  have "covers (example_list ?spc) 3 0x1f" "\<not> covers (example_list ?spc) 3 0x30" "\<not> covers [] 3 0x30"
    by (auto simp: covers_def example_list new_processor_def) (simp add: member_def bt_get_def)
  then show ?thesis using t by blast
qed

end
