(* ===== verification/Part_Map.thy ===== *)
theory Part_Map
  imports BTree
begin

text \<open>
  The partition map of src/src/partmap.rs: a function from a linearly ordered domain to values that is
  constant between its split points. The functions that return \<open>&mut V\<close> return the place the reference
  points at, beside the map; writing through the reference is \<open>write_place\<close>. \<open>expect\<close> panics when the entry
  is missing, which the model keeps as an outcome.
\<close>

record ('l, 'v) part_map =
  database :: "('l, 'v) btree"
  defaultvalue :: 'v

record 'l part_bounds =
  pb_before :: "'l option"
  pb_after :: "'l option"
  pb_valid :: i32

datatype 'l place = Default | Entry 'l

section \<open>Operations\<close>

definition new_part_map :: "'v \<Rightarrow> ('l, 'v) part_map" where
  "new_part_map dflt = \<lparr>database = [], defaultvalue = dflt\<rparr>"

text \<open>The copy collects mapped entries into a new tree, one insertion each.\<close>

definition duplicate :: "('v \<Rightarrow> 'v) \<Rightarrow> ('l::linorder, 'v) part_map \<Rightarrow> ('l, 'v) part_map" where
  "duplicate copy pm =
     \<lparr>database = fold (\<lambda>(k, v). bt_insert k (copy v)) (database pm) [], defaultvalue = copy (defaultvalue pm)\<rparr>"

definition last_at_or_before :: "('l::linorder, 'v) part_map \<Rightarrow> 'l \<Rightarrow> 'l option" where
  "last_at_or_before pm pnt = map_option fst (last_of (bt_upto pnt (database pm)))"

definition get_value_at :: "('l::linorder, 'v) part_map \<Rightarrow> 'l \<Rightarrow> 'v" where
  "get_value_at pm pnt =
     (case last_of (bt_upto pnt (database pm)) of Some (_, v) \<Rightarrow> v | None \<Rightarrow> defaultvalue pm)"

definition get_value_mut :: "('l::linorder, 'v) part_map \<Rightarrow> 'l \<Rightarrow> 'l place run" where
  "get_value_mut pm pnt =
     (case last_at_or_before pm pnt of
        Some key \<Rightarrow> (case bt_get (database pm) key of None \<Rightarrow> panic | Some _ \<Rightarrow> ok (Entry key))
      | None \<Rightarrow> ok Default)"

definition write_place :: "('l::linorder, 'v) part_map \<Rightarrow> 'l place \<Rightarrow> 'v \<Rightarrow> ('l, 'v) part_map" where
  "write_place pm pl v =
     (case pl of Default \<Rightarrow> pm\<lparr>defaultvalue := v\<rparr> | Entry k \<Rightarrow> pm\<lparr>database := bt_insert k v (database pm)\<rparr>)"

definition get_partition_key :: "('l::linorder, 'v) part_map \<Rightarrow> 'l \<Rightarrow> 'l option" where
  "get_partition_key pm pnt = last_at_or_before pm pnt"

definition get_by_key :: "('l::linorder, 'v) part_map \<Rightarrow> 'l option \<Rightarrow> 'v" where
  "get_by_key pm key =
     (case key of
        Some k \<Rightarrow> (case bt_get (database pm) k of Some v \<Rightarrow> v | None \<Rightarrow> defaultvalue pm)
      | None \<Rightarrow> defaultvalue pm)"

definition part_bounds_of :: "('l::linorder, 'v) part_map \<Rightarrow> 'l \<Rightarrow> 'v \<times> 'l part_bounds" where
  "part_bounds_of pm pnt =
     (if database pm = [] then (defaultvalue pm, \<lparr>pb_before = None, pb_after = None, pb_valid = 3\<rparr>)
      else
        let after = map_option fst (first_of (bt_above pnt (database pm))) in
        case last_of (bt_upto pnt (database pm)) of
          Some (before_key, v) \<Rightarrow>
            (v, \<lparr>pb_before = Some before_key, pb_after = after, pb_valid = (if after = None then 2 else 0)\<rparr>)
        | None \<Rightarrow> (defaultvalue pm, \<lparr>pb_before = None, pb_after = after, pb_valid = 1\<rparr>))"

text \<open>\<open>clone\<close> is the \<open>Clone\<close> instance of the values, which may differ from a copy.\<close>

definition split :: "('v \<Rightarrow> 'v) \<Rightarrow> ('l::linorder, 'v) part_map \<Rightarrow> 'l \<Rightarrow> (('l, 'v) part_map \<times> 'l place) run" where
  "split clone pm pnt =
     (let entry = (\<lambda>pm. case bt_get (database pm) pnt of None \<Rightarrow> panic | Some _ \<Rightarrow> ok (pm, Entry pnt)) in
      case last_at_or_before pm pnt of
        Some key \<Rightarrow>
          if key = pnt then entry pm
          else (case bt_get (database pm) key of
              None \<Rightarrow> panic
            | Some v \<Rightarrow> entry (pm\<lparr>database := bt_insert pnt (clone v) (database pm)\<rparr>))
      | None \<Rightarrow> entry (pm\<lparr>database := bt_insert pnt (clone (defaultvalue pm)) (database pm)\<rparr>))"

definition clear_range :: "('v \<Rightarrow> 'v) \<Rightarrow> ('l::linorder, 'v) part_map \<Rightarrow> 'l \<Rightarrow> 'l \<Rightarrow> (('l, 'v) part_map \<times> 'l place) run" where
  "clear_range clone pm pnt1 pnt2 =
     run_bind (split clone pm pnt1) (\<lambda>(pm, _).
     run_bind (split clone pm pnt2) (\<lambda>(pm, _).
     run_bind (if pnt1 < pnt2
               then run_bind (bt_between_excl pnt1 pnt2 (database pm)) (\<lambda>doomed.
                 ok (pm\<lparr>database := fold bt_remove (map fst doomed) (database pm)\<rparr>))
               else ok pm) (\<lambda>pm.
     case bt_get (database pm) pnt1 of None \<Rightarrow> panic | Some _ \<Rightarrow> ok (pm, Entry pnt1))))"

definition keys_from :: "('l::linorder, 'v) part_map \<Rightarrow> 'l \<Rightarrow> 'l list" where
  "keys_from pm pnt = map fst (bt_from pnt (database pm))"

definition part_get_mut :: "('l::linorder, 'v) part_map \<Rightarrow> 'l \<Rightarrow> 'l place option" where
  "part_get_mut pm key = map_option (\<lambda>_. Entry key) (bt_get (database pm) key)"

definition part_clear :: "('l, 'v) part_map \<Rightarrow> ('l, 'v) part_map" where
  "part_clear pm = pm\<lparr>database := []\<rparr>"

definition part_empty :: "('l, 'v) part_map \<Rightarrow> bool" where
  "part_empty pm \<longleftrightarrow> database pm = []"

section \<open>The partition as a function\<close>

definition pm_inv :: "('l::linorder, 'v) part_map \<Rightarrow> bool" where
  "pm_inv pm \<longleftrightarrow> bt_inv (database pm)"

definition split_point :: "('l::linorder, 'v) part_map \<Rightarrow> 'l \<Rightarrow> bool" where
  "split_point pm k \<longleftrightarrow> bt_get (database pm) k \<noteq> None"

lemma get_value_at_entry: "get_value_at pm p = entry_value (defaultvalue pm) (bt_last_le (database pm) p)"
  by (simp add: get_value_at_def bt_last_le_def entry_value_def)

lemma last_at_or_before_entry: "last_at_or_before pm p = map_option fst (bt_last_le (database pm) p)"
  by (simp add: last_at_or_before_def bt_last_le_def)

text \<open>The part of the partition that starts at \<open>p\<close> or would start there.\<close>

definition in_part :: "('l::linorder, 'v) part_map \<Rightarrow> 'l \<Rightarrow> 'l \<Rightarrow> bool" where
  "in_part pm p q \<longleftrightarrow> p \<le> q \<and> (\<forall>k. p < k \<longrightarrow> k \<le> q \<longrightarrow> \<not> split_point pm k)"

lemma insert_at:
  assumes "pm_inv pm"
  shows "get_value_at (pm\<lparr>database := bt_insert p v (database pm)\<rparr>) q = (if in_part pm p q then v else get_value_at pm q)"
  using bt.insert_value [of "database pm" "defaultvalue pm" p v q] assms
  by (auto simp: get_value_at_entry pm_inv_def in_part_def split_point_def)

lemma write_value:
  "pm_inv pm \<Longrightarrow> get_value_at (write_place pm (Entry p) v) q = (if in_part pm p q then v else get_value_at pm q)"
  by (simp add: write_place_def insert_at)

lemma in_part_value: "pm_inv pm \<Longrightarrow> in_part pm p q \<Longrightarrow> get_value_at pm q = get_value_at pm p"
  using bt.last_le_between [of "database pm" p q]
  by (simp add: get_value_at_entry pm_inv_def in_part_def split_point_def)

lemma split_run:
  assumes "pm_inv pm"
  shows "split clone pm p = ok
    (if split_point pm p then pm else pm\<lparr>database := bt_insert p (clone (get_value_at pm p)) (database pm)\<rparr>, Entry p)"
proof -
  have inv: "bt_inv (database pm)" using assms by (simp add: pm_inv_def)
  show ?thesis
  proof (cases "bt_last_le (database pm) p")
    case None
    then have "\<not> split_point pm p" using bt.last_le_None [OF inv, of p] by (simp add: split_point_def)
    then show ?thesis using None
      by (simp add: split_def Let_def last_at_or_before_entry get_value_at_entry bt.get_insert [OF inv])
  next
    case (Some e)
    obtain k v where e: "e = (k, v)" by (cases e)
    then have k: "bt_get (database pm) k = Some v" "k \<le> p" "\<And>j. k < j \<Longrightarrow> j \<le> p \<Longrightarrow> bt_get (database pm) j = None"
      using Some bt.last_le_Some [OF inv, of p k v] by auto
    then have "split_point pm p \<longleftrightarrow> k = p" by (cases "k < p") (auto simp: split_point_def)
    then show ?thesis using Some e k
      by (auto simp: split_def Let_def last_at_or_before_entry get_value_at_entry bt.get_insert [OF inv])
  qed
qed

lemma split_facts:
  assumes "pm_inv pm"
  obtains pm' where "split clone pm p = ok (pm', Entry p)" "pm_inv pm'" "defaultvalue pm' = defaultvalue pm"
    "\<And>q. get_value_at pm' q = (if in_part pm p q \<and> \<not> split_point pm p then clone (get_value_at pm q) else get_value_at pm q)"
    "\<And>k. split_point pm' k \<longleftrightarrow> k = p \<or> split_point pm k"
proof -
  let ?pm' = "if split_point pm p then pm else pm\<lparr>database := bt_insert p (clone (get_value_at pm p)) (database pm)\<rparr>"
  show ?thesis
  proof (rule that)
    show "split clone pm p = ok (?pm', Entry p)" by (rule split_run [OF assms])
    show "pm_inv ?pm'" using assms by (simp add: pm_inv_def bt.invar_insert)
    show "get_value_at ?pm' q = (if in_part pm p q \<and> \<not> split_point pm p then clone (get_value_at pm q) else get_value_at pm q)" for q
      using in_part_value [OF assms, of p q] by (simp add: insert_at [OF assms])
    show "split_point ?pm' k \<longleftrightarrow> k = p \<or> split_point pm k" for k
      using assms by (auto simp: split_point_def pm_inv_def bt.get_insert)
  qed simp
qed

text \<open>\<open>PartMap::split\<close> never panics; it makes the point a boundary and changes no value of the
  partition, except that the part it creates holds a clone. A value then written through the returned
  reference is the new value from the point up to the next boundary, and nowhere else.\<close>
theorem split_write:
  assumes "pm_inv pm"
  shows "\<exists>pm'. split clone pm p = ok (pm', Entry p) \<and> pm_inv pm'
    \<and> (\<forall>q. get_value_at pm' q =
        (if in_part pm p q \<and> \<not> split_point pm p then clone (get_value_at pm q) else get_value_at pm q))
    \<and> (\<forall>k. split_point pm' k \<longleftrightarrow> k = p \<or> split_point pm k)
    \<and> (\<forall>v q. get_value_at (write_place pm' (Entry p) v) q = (if in_part pm p q then v else get_value_at pm q))"
proof -
  obtain pm' where *: "split clone pm p = ok (pm', Entry p)" "pm_inv pm'"
      "\<And>q. get_value_at pm' q =
        (if in_part pm p q \<and> \<not> split_point pm p then clone (get_value_at pm q) else get_value_at pm q)"
      "\<And>k. split_point pm' k \<longleftrightarrow> k = p \<or> split_point pm k"
    by (rule split_facts [OF assms, of clone p]) blast
  have "in_part pm' p q \<longleftrightarrow> in_part pm p q" for q using *(4) by (auto simp: in_part_def)
  then show ?thesis using * write_value [OF *(2), of p] by auto
qed

lemma split_write_witness:
  "\<exists>pm'. split id \<lparr>database = [(10 :: nat, ''a''), (20, ''b'')], defaultvalue = ''d''\<rparr> 15 = ok (pm', Entry 15)
    \<and> get_value_at (write_place pm' (Entry 15) ''x'') 17 = ''x''
    \<and> get_value_at (write_place pm' (Entry 15) ''x'') 12 = ''a''
    \<and> get_value_at (write_place pm' (Entry 15) ''x'') 25 = ''b''"
proof -
  let ?pm = "\<lparr>database = [(10 :: nat, ''a''), (20, ''b'')], defaultvalue = ''d''\<rparr>"
  have "pm_inv ?pm" by (simp add: pm_inv_def)
  from split_write [OF this, of id 15] obtain pm' where pm': "split id ?pm 15 = ok (pm', Entry 15)"
    "\<And>v q. get_value_at (write_place pm' (Entry 15) v) q = (if in_part ?pm 15 q then v else get_value_at ?pm q)" by blast
  have "split_point ?pm k \<longleftrightarrow> k = 10 \<or> k = 20" for k by (simp add: split_point_def bt_get_def)
  then have "in_part ?pm 15 17" "\<not> in_part ?pm 15 12" "\<not> in_part ?pm 15 25" by (auto simp: in_part_def)
  moreover have "get_value_at ?pm 12 = ''a''" "get_value_at ?pm 25 = ''b''"
    by (simp_all add: get_value_at_def bt_upto_def)
  ultimately show ?thesis using pm' by (intro exI [of _ pm']) auto
qed

lemma clear_range_facts:
  assumes "pm_inv pm" "p1 < p2"
  obtains pm' where "clear_range clone pm p1 p2 = ok (pm', Entry p1)" "pm_inv pm'"
    "\<And>k. split_point pm' k \<longleftrightarrow> k = p1 \<or> k = p2 \<or> split_point pm k \<and> \<not> (p1 < k \<and> k < p2)"
    "\<And>q. q < p1 \<Longrightarrow> get_value_at pm' q = get_value_at pm q"
    "\<And>q. p2 \<le> q \<Longrightarrow> get_value_at pm' q = get_value_at pm q \<or>
       get_value_at pm' q = clone (get_value_at pm q) \<or> get_value_at pm' q = clone (clone (get_value_at pm q))"
proof -
  obtain m1 where 1: "split clone pm p1 = ok (m1, Entry p1)" "pm_inv m1"
      "\<And>q. get_value_at m1 q =
        (if in_part pm p1 q \<and> \<not> split_point pm p1 then clone (get_value_at pm q) else get_value_at pm q)"
      "\<And>k. split_point m1 k \<longleftrightarrow> k = p1 \<or> split_point pm k"
    by (rule split_facts [OF assms(1), of clone p1]) blast
  obtain m2 where 2: "split clone m1 p2 = ok (m2, Entry p2)" "pm_inv m2"
      "\<And>q. get_value_at m2 q =
        (if in_part m1 p2 q \<and> \<not> split_point m1 p2 then clone (get_value_at m1 q) else get_value_at m1 q)"
      "\<And>k. split_point m2 k \<longleftrightarrow> k = p2 \<or> split_point m1 k"
    by (rule split_facts [OF 1(2), of clone p2]) blast
  let ?db = "database m2"
  let ?ks = "map fst (filter (\<lambda>(j, _). p1 < j \<and> j < p2) ?db)"
  let ?m3 = "m2\<lparr>database := fold bt_remove ?ks ?db\<rparr>"
  have inv: "bt_inv ?db" using 2 by (simp add: pm_inv_def)
  have inv3: "bt_inv (fold bt_remove ?ks ?db)" using bt.get_remove_list [OF inv] by blast
  have get3: "bt_get (fold bt_remove ?ks ?db) j = (if p1 < j \<and> j < p2 then None else bt_get ?db j)" for j
    using bt.get_remove_list [OF inv, of ?ks j] bt_get_None [of ?db j] by force
  have p1: "bt_get ?db p1 \<noteq> None" using 1(4) [of p1] 2(4) [of p1] by (simp add: split_point_def)
  have p2: "bt_get ?db p2 \<noteq> None" using 2(4) [of p2] by (simp add: split_point_def)
  have below: "bt_last_le (fold bt_remove ?ks ?db) q = bt_last_le ?db q" if "q < p1" for q
    using that by (intro bt.last_le_cong inv inv3) (auto simp: get3)
  have above: "bt_last_le (fold bt_remove ?ks ?db) q = bt_last_le ?db q" if "p2 \<le> q" for q
    using that p2 by (intro bt.last_le_cong_from [of _ _ p2] inv inv3) (auto simp: get3)
  show ?thesis
  proof (rule that)
    show "clear_range clone pm p1 p2 = ok (?m3, Entry p1)"
      using 1 2 assms(2) p1 get3 [of p1] by (auto simp: clear_range_def bt_between_excl_def)
    show "pm_inv ?m3" using inv3 by (simp add: pm_inv_def)
    show "split_point ?m3 k \<longleftrightarrow> k = p1 \<or> k = p2 \<or> split_point pm k \<and> \<not> (p1 < k \<and> k < p2)" for k
      using get3 [of k] 1(4) [of k] 2(4) [of k] assms(2) by (auto simp: split_point_def)
    show "get_value_at ?m3 q = get_value_at pm q" if "q < p1" for q
    proof -
      have "get_value_at ?m3 q = get_value_at m2 q" using below [OF that] by (simp add: get_value_at_entry)
      moreover have "\<not> in_part m1 p2 q" "\<not> in_part pm p1 q" using that assms(2) by (auto simp: in_part_def)
      ultimately show ?thesis using 1(3) [of q] 2(3) [of q] by simp
    qed
    show "get_value_at ?m3 q = get_value_at pm q \<or> get_value_at ?m3 q = clone (get_value_at pm q) \<or>
        get_value_at ?m3 q = clone (clone (get_value_at pm q))" if "p2 \<le> q" for q
    proof -
      have "get_value_at ?m3 q = get_value_at m2 q" using above [OF that] by (simp add: get_value_at_entry)
      then show ?thesis using 1(3) [of q] 2(3) [of q] by auto
    qed
  qed
qed

text \<open>C21: \<open>PartMap::clear_range\<close> on a proper range never panics; the value written through the returned
  reference becomes the value of exactly the points of the range from \<open>pnt1\<close> up to \<open>pnt2\<close>, every other
  point keeps its value (up to cloning), and no split point remains inside the range.\<close>
theorem clear_range_write:
  assumes "pm_inv pm" "p1 < p2"
  shows "\<exists>pm'. clear_range clone pm p1 p2 = ok (pm', Entry p1) \<and> pm_inv pm'
    \<and> (\<forall>k. split_point pm' k \<longleftrightarrow> k = p1 \<or> k = p2 \<or> split_point pm k \<and> \<not> (p1 < k \<and> k < p2))
    \<and> (\<forall>v q. p1 \<le> q \<and> q < p2 \<longrightarrow> get_value_at (write_place pm' (Entry p1) v) q = v)
    \<and> (\<forall>v q. q < p1 \<longrightarrow> get_value_at (write_place pm' (Entry p1) v) q = get_value_at pm q)
    \<and> (\<forall>v q. p2 \<le> q \<longrightarrow> get_value_at (write_place pm' (Entry p1) v) q \<in>
        {get_value_at pm q, clone (get_value_at pm q), clone (clone (get_value_at pm q))})"
proof -
  obtain pm' where *: "clear_range clone pm p1 p2 = ok (pm', Entry p1)" "pm_inv pm'"
    "\<And>k. split_point pm' k \<longleftrightarrow> k = p1 \<or> k = p2 \<or> split_point pm k \<and> \<not> (p1 < k \<and> k < p2)"
    "\<And>q. q < p1 \<Longrightarrow> get_value_at pm' q = get_value_at pm q"
    "\<And>q. p2 \<le> q \<Longrightarrow> get_value_at pm' q = get_value_at pm q \<or>
       get_value_at pm' q = clone (get_value_at pm q) \<or> get_value_at pm' q = clone (clone (get_value_at pm q))"
    by (rule clear_range_facts [OF assms, of clone]) blast
  have "in_part pm' p1 q \<longleftrightarrow> p1 \<le> q \<and> q < p2" for q
    using *(3) assms(2) by (auto simp: in_part_def not_le [symmetric])
  then have "get_value_at (write_place pm' (Entry p1) v) q = (if p1 \<le> q \<and> q < p2 then v else get_value_at pm' q)" for v q
    using write_value [OF *(2), of p1 v q] by simp
  then show ?thesis using * assms(2) by auto
qed

lemma clear_range_write_witness:
  "\<exists>pm'. clear_range id \<lparr>database = [(10 :: nat, ''a''), (20, ''b'')], defaultvalue = ''d''\<rparr> 5 30 = ok (pm', Entry 5)
    \<and> get_value_at (write_place pm' (Entry 5) ''x'') 25 = ''x'' \<and> get_value_at (write_place pm' (Entry 5) ''x'') 30 = ''b''"
proof -
  let ?pm = "\<lparr>database = [(10 :: nat, ''a''), (20, ''b'')], defaultvalue = ''d''\<rparr>"
  have "pm_inv ?pm" by (simp add: pm_inv_def)
  from clear_range_write [OF this, of 5 30 id] obtain pm' where pm': "clear_range id ?pm 5 30 = ok (pm', Entry 5)"
    "\<And>v q. 5 \<le> q \<and> q < 30 \<longrightarrow> get_value_at (write_place pm' (Entry 5) v) q = v"
    "\<And>v q. 30 \<le> q \<longrightarrow> get_value_at (write_place pm' (Entry 5) v) q = get_value_at ?pm q" by auto
  have "get_value_at ?pm 30 = ''b''" by (simp add: get_value_at_def bt_upto_def)
  then show ?thesis using pm' by (intro exI [of _ pm']) auto
qed

lemma part_bounds_valid:
  assumes "pm_inv pm" "part_bounds_of pm p = (v, b)"
  shows "pb_valid b = (if pb_before b = None then 1 else 0) + (if pb_after b = None then 2 else 0)"
proof -
  have inv: "bt_inv (database pm)" using assms by (simp add: pm_inv_def)
  let ?l = "bt_last_le (database pm) p" and ?f = "bt_first_gt (database pm) p"
  have "database pm = []" if n: "?l = None" "?f = None"
  proof -
    have "bt_get (database pm) j = None" for j
      using bt.last_le_None [OF inv, of p] bt.first_gt_None [OF inv, of p] n by (cases "j \<le> p") auto
    then show ?thesis by (cases "database pm") (auto simp: bt_get_None)
  qed
  then show ?thesis using assms(2)
    by (auto simp: part_bounds_of_def Let_def bt_last_le_def bt_first_gt_def split: if_splits option.splits)
qed

text \<open>\<open>PartMap::bounds\<close> returns the value at the point and the limits of the largest range around the
  point with no split point inside: every point of that range has the returned value, the limits that are
  given are split points, and the bits of \<open>valid\<close> say which limits are missing.\<close>
theorem part_bounds_correct:
  assumes "pm_inv pm" "part_bounds_of pm p = (v, b)"
  shows "v = get_value_at pm p
    \<and> (\<forall>q. (\<forall>k. pb_before b = Some k \<longrightarrow> k \<le> q) \<and> (\<forall>k. pb_after b = Some k \<longrightarrow> q < k) \<longrightarrow> get_value_at pm q = v)
    \<and> (\<forall>k. pb_before b = Some k \<longrightarrow> split_point pm k \<and> k \<le> p) \<and> (\<forall>k. pb_after b = Some k \<longrightarrow> split_point pm k \<and> p < k)
    \<and> pb_valid b = (if pb_before b = None then 1 else 0) + (if pb_after b = None then 2 else 0)"
proof -
  have inv: "bt_inv (database pm)" using assms by (simp add: pm_inv_def)
  let ?l = "bt_last_le (database pm) p" and ?f = "bt_first_gt (database pm) p"
  have b: "v = entry_value (defaultvalue pm) ?l" "pb_before b = map_option fst ?l" "pb_after b = map_option fst ?f"
    using assms(2) by (auto simp: part_bounds_of_def Let_def bt_last_le_def bt_first_gt_def bt_upto_def bt_above_def
      split: if_splits option.splits)
  have before: "split_point pm k \<and> k \<le> p \<and> (\<forall>j. k < j \<longrightarrow> j \<le> p \<longrightarrow> bt_get (database pm) j = None)"
    if "?l = Some (k, w)" for k w using that bt.last_le_Some [OF inv] by (auto simp: split_point_def)
  have after: "split_point pm k \<and> p < k \<and> (\<forall>j. p < j \<longrightarrow> j < k \<longrightarrow> bt_get (database pm) j = None)"
    if "?f = Some (k, w)" for k w using that bt.first_gt_Some [OF inv] by (auto simp: split_point_def)
  have none: "?l = None \<Longrightarrow> j \<le> p \<Longrightarrow> bt_get (database pm) j = None"
    "?f = None \<Longrightarrow> p < j \<Longrightarrow> bt_get (database pm) j = None" for j
    using bt.last_le_None [OF inv, of p] bt.first_gt_None [OF inv, of p] by auto
  have same: "get_value_at pm q = v" if "\<forall>k. pb_before b = Some k \<longrightarrow> k \<le> q" "\<forall>k. pb_after b = Some k \<longrightarrow> q < k" for q
  proof (cases "p \<le> q")
    case True
    have "bt_last_le (database pm) q = ?l"
      by (rule bt.last_le_between [OF inv True]) (use that(2) b(3) after none in \<open>cases ?f; force\<close>)
    then show ?thesis using b by (simp add: get_value_at_entry)
  next
    case False
    have "?l = bt_last_le (database pm) q"
      by (rule bt.last_le_between [OF inv]) (use False that(1) b(2) before none in \<open>cases ?l; force\<close>)+
    then show ?thesis using b by (simp add: get_value_at_entry)
  qed
  show ?thesis using part_bounds_valid [OF assms] b same before after by (auto simp: get_value_at_entry)
qed

lemma part_bounds_witness:
  "get_value_at \<lparr>database = [(10 :: nat, ''a''), (20, ''b'')], defaultvalue = ''d''\<rparr> 19 = ''a''"
proof -
  let ?pm = "\<lparr>database = [(10 :: nat, ''a''), (20, ''b'')], defaultvalue = ''d''\<rparr>"
  have "pm_inv ?pm" by (simp add: pm_inv_def)
  moreover have "part_bounds_of ?pm 12 = (''a'', \<lparr>pb_before = Some 10, pb_after = Some 20, pb_valid = 0\<rparr>)"
    by (simp add: part_bounds_of_def bt_upto_def bt_above_def)
  ultimately have "(\<forall>q. (\<forall>k. Some 10 = Some k \<longrightarrow> k \<le> q) \<and> (\<forall>k. Some 20 = Some k \<longrightarrow> q < k) \<longrightarrow> get_value_at ?pm q = ''a'')"
    using part_bounds_correct [of ?pm 12 "''a''"] by auto
  then show ?thesis by auto
qed

section \<open>The part of a point\<close>

lemma get_value_by_key: "pm_inv pm \<Longrightarrow> get_value_at pm q = get_by_key pm (last_at_or_before pm q)"
proof (cases "bt_last_le (database pm) q")
  case (Some e)
  assume "pm_inv pm"
  then have "bt_get (database pm) (fst e) = Some (snd e)"
    using Some bt.last_le_Some [of "database pm" q "fst e" "snd e"] by (simp add: pm_inv_def)
  then show ?thesis using Some by (cases e) (simp add: get_value_at_entry get_by_key_def last_at_or_before_entry)
qed (simp add: get_value_at_entry get_by_key_def last_at_or_before_entry)

lemma part_key_iff:
  assumes "pm_inv pm"
  shows "last_at_or_before pm q = Some k \<longleftrightarrow> split_point pm k \<and> in_part pm k q"
proof -
  have "last_at_or_before pm q = Some k \<longleftrightarrow> (\<exists>v. bt_last_le (database pm) q = Some (k, v))"
    by (auto simp: last_at_or_before_entry)
  then show ?thesis using assms by (auto simp: pm_inv_def bt.last_le_Some split_point_def in_part_def)
qed

lemma part_key_None:
  assumes "pm_inv pm"
  shows "last_at_or_before pm q = None \<longleftrightarrow> (\<forall>k\<le>q. \<not> split_point pm k)"
  using assms bt.last_le_None [of "database pm" q] by (simp add: last_at_or_before_entry pm_inv_def split_point_def)

text \<open>The part of a point depends on the split points only.\<close>

lemma part_key_cong:
  assumes "pm_inv pm" "pm_inv pm'" "\<And>k. k \<le> q \<Longrightarrow> split_point pm' k \<longleftrightarrow> split_point pm k"
  shows "last_at_or_before pm' q = last_at_or_before pm q"
proof (cases "last_at_or_before pm q")
  case None
  then have "last_at_or_before pm' q = None" using assms by (simp add: part_key_None)
  then show ?thesis using None by simp
next
  case (Some k)
  then have "last_at_or_before pm' q = Some k" using assms by (auto simp: part_key_iff in_part_def)
  then show ?thesis using Some by simp
qed

lemma part_key_le:
  assumes "pm_inv pm" "split_point pm c"
  shows "c \<le> q \<longleftrightarrow> (\<exists>k. last_at_or_before pm q = Some k \<and> c \<le> k)"
proof
  assume "c \<le> q"
  then obtain k where k: "last_at_or_before pm q = Some k"
    using part_key_None [OF assms(1), of q] assms(2) by (cases "last_at_or_before pm q") auto
  then have "\<not> k < c" using assms(2) \<open>c \<le> q\<close> by (auto simp: part_key_iff [OF assms(1)] in_part_def)
  then show "\<exists>k. last_at_or_before pm q = Some k \<and> c \<le> k" using k by (auto simp: not_less)
qed (auto simp: part_key_iff [OF assms(1)] in_part_def)

text \<open>Copying with the identity gives the same partition.\<close>

lemma fold_insert_sorted:
  "bt_inv (s @ t) \<Longrightarrow> fold (\<lambda>(k, v). bt_insert k (f v)) t (map (\<lambda>(k, v). (k, f v)) s) = map (\<lambda>(k, v). (k, f v)) (s @ t)"
proof (induction t arbitrary: s)
  case (Cons e t)
  obtain k v where e: "e = (k, v)" by (cases e)
  have "bt_inv (s @ [(k, v)])" using Cons.prems e unfolding bt_inv_def by (simp add: sorted_wrt_append)
  then have "bt_insert k (f v) (map (\<lambda>(k, v). (k, f v)) s) = map (\<lambda>(k, v). (k, f v)) s @ [(k, f v)]"
    by (induction s) auto
  then show ?case using Cons.IH [of "s @ [(k, v)]"] Cons.prems e by simp
qed simp

lemma duplicate_value:
  assumes "pm_inv pm"
  shows "get_value_at (duplicate f pm) q = f (get_value_at pm q)"
proof -
  have "fold (\<lambda>(k, v). bt_insert k (f v)) (database pm) [] = map (\<lambda>(k, v). (k, f v)) (database pm)"
    using fold_insert_sorted [of "[]" "database pm" f] assms by (simp add: pm_inv_def)
  moreover have "last_of (map g xs) = map_option g (last_of xs)" for g :: "'a \<times> 'b \<Rightarrow> 'a \<times> 'b" and xs
    by (induction xs rule: last_of.induct) auto
  ultimately show ?thesis
    by (simp add: duplicate_def get_value_at_def bt_upto_def filter_map comp_def case_prod_unfold split: option.splits)
qed

end
