(* ===== verification/Global_Context.thy ===== *)
theory Global_Context
  imports Part_Map Address
begin

text \<open>
  The context database of src/src/globalcontext.rs: context variables as bit ranges of a vector of words,
  the vector as a partition map over addresses, tracked registers as a second partition map, and the cache
  in front of it. The partition maps compare addresses by their key. A closure \<open>apply\<close> on a slice is a
  function from the words to the words; indexing out of range panics.
\<close>

section \<open>Bit ranges\<close>

record context_bit_range =
  cb_word :: i32
  cb_startbit :: i32
  cb_endbit :: i32
  cb_shift :: i32
  cb_mask :: u32

definition u32_shl :: "u32 \<Rightarrow> i32 \<Rightarrow> u32" where
  "u32_shl v n = push_bit (nat (n mod 32)) v"

definition u32_shr :: "u32 \<Rightarrow> i32 \<Rightarrow> u32" where
  "u32_shr v n = drop_bit (nat (n mod 32)) v"

text \<open>Division of \<open>i32\<close> by 32 truncates.\<close>

definition new_bit_range :: "i32 \<Rightarrow> i32 \<Rightarrow> context_bit_range" where
  "new_bit_range sbit ebit =
     (let word = sbit sdiv 32; startbit = sbit - word * 32; endbit = ebit - word * 32; shift = 32 - endbit - 1 in
      \<lparr>cb_word = word, cb_startbit = startbit, cb_endbit = endbit, cb_shift = shift,
       cb_mask = u32_shr (NOT 0) (startbit + shift)\<rparr>)"

definition vec_get :: "u32 list \<Rightarrow> i32 \<Rightarrow> u32 run" where
  "vec_get vec i = (if 0 \<le> i \<and> nat i < length vec then ok (vec ! nat i) else panic)"

definition vec_update :: "u32 list \<Rightarrow> i32 \<Rightarrow> (u32 \<Rightarrow> u32) \<Rightarrow> u32 list run" where
  "vec_update vec i f = (if 0 \<le> i \<and> nat i < length vec then ok (vec[nat i := f (vec ! nat i)]) else panic)"

definition bits_set_value :: "context_bit_range \<Rightarrow> u32 \<Rightarrow> u32 list \<Rightarrow> u32 list run" where
  "bits_set_value br val vec = vec_update vec (cb_word br) (\<lambda>old.
     (old AND NOT (u32_shl (cb_mask br) (cb_shift br))) OR u32_shl (val AND cb_mask br) (cb_shift br))"

definition bits_get_value :: "context_bit_range \<Rightarrow> u32 list \<Rightarrow> u32 run" where
  "bits_get_value br vec = run_bind (vec_get vec (cb_word br)) (\<lambda>w. ok (u32_shr w (cb_shift br) AND cb_mask br))"

section \<open>The database\<close>

type_synonym addr_key = "i32 option \<times> u64"

record free_array =
  fa_array :: "u32 list"
  fa_mask :: "u32 list"

definition free_array_clone :: "free_array \<Rightarrow> free_array" where
  "free_array_clone fa = \<lparr>fa_array = fa_array fa, fa_mask = replicate (length (fa_mask fa)) 0\<rparr>"

text \<open>Copying the old words panics when the old mask is shorter than the old array.\<close>

definition free_array_reset :: "free_array \<Rightarrow> i32 \<Rightarrow> free_array run" where
  "free_array_reset fa sz =
     (let n = nat (max sz 0); m = min n (length (fa_array fa)) in
      if length (fa_mask fa) < m then panic
      else ok \<lparr>fa_array = take m (fa_array fa) @ replicate (n - m) 0, fa_mask = take m (fa_mask fa) @ replicate (n - m) 0\<rparr>)"

record tracked_context =
  tc_loc :: varnode_data
  tc_val :: u64

type_synonym tracked_set = "tracked_context list"

record context_bounds =
  cx_first :: u64
  cx_last :: u64
  cx_key :: "addr_key option"

record context_internal =
  ci_size :: i32
  ci_variables :: "string \<rightharpoonup> context_bit_range"
  ci_database :: "(addr_key, free_array) part_map"
  ci_trackbase :: "(addr_key, tracked_set) part_map"

definition new_context :: context_internal where
  "new_context = \<lparr>ci_size = 0, ci_variables = Map.empty,
     ci_database = new_part_map \<lparr>fa_array = [], fa_mask = []\<rparr>, ci_trackbase = new_part_map []\<rparr>"

definition context_duplicate :: "context_internal \<Rightarrow> context_internal" where
  "context_duplicate ci = ci\<lparr>ci_database := duplicate id (ci_database ci), ci_trackbase := duplicate id (ci_trackbase ci)\<rparr>"

definition register_variable :: "context_internal \<Rightarrow> string \<Rightarrow> i32 \<Rightarrow> i32 \<Rightarrow> context_internal run" where
  "register_variable ci nm sbit ebit =
     (if \<not> part_empty (ci_database ci)
      then err (Lowlevel ''Cannot register new context variables after database is initialized'')
      else
        let bitrange = new_bit_range sbit ebit; sz = sbit sdiv 32 + 1 in
        if ebit sdiv 32 + 1 \<noteq> sz then err (Lowlevel ''Context variable does not fit in one word'')
        else run_bind
            (if sz > ci_size ci then
               run_bind (free_array_reset (defaultvalue (ci_database ci)) sz) (\<lambda>fa.
               ok (ci\<lparr>ci_size := sz, ci_database := write_place (ci_database ci) Default fa\<rparr>))
             else ok ci) (\<lambda>ci.
          ok (ci\<lparr>ci_variables := (ci_variables ci)(nm \<mapsto> bitrange)\<rparr>)))"

definition get_context :: "context_internal \<Rightarrow> address \<Rightarrow> u32 list" where
  "get_context ci addr = fa_array (get_value_at (ci_database ci) (addr_key addr))"

definition key_space :: "addr_key option \<Rightarrow> i32 option" where
  "key_space k = (case k of Some (s, _) \<Rightarrow> s | None \<Rightarrow> None)"

definition get_context_bounds :: "context_internal \<Rightarrow> address \<Rightarrow> context_bounds" where
  "get_context_bounds ci addr =
     (let bounds = snd (part_bounds_of (ci_database ci) (addr_key addr));
          spc = space_index (ad_space addr);
          no_before = pb_valid bounds mod 2 \<noteq> 0; no_after = pb_valid bounds div 2 mod 2 \<noteq> 0 in
      \<lparr>cx_first = (if no_before \<or> key_space (pb_before bounds) \<noteq> spc then 0
                   else case pb_before bounds of Some (_, off) \<Rightarrow> off | None \<Rightarrow> 0),
       cx_last = (if no_after \<or> key_space (pb_after bounds) \<noteq> spc
                  then (case ad_space addr of Some s \<Rightarrow> as_highest s | None \<Rightarrow> 0)
                  else case pb_after bounds of Some (_, off) \<Rightarrow> off - 1 | None \<Rightarrow> 0),
       cx_key = (if no_before then None else pb_before bounds)\<rparr>)"

definition get_context_by_key :: "context_internal \<Rightarrow> addr_key option \<Rightarrow> u32 list" where
  "get_context_by_key ci key = fa_array (get_by_key (ci_database ci) key)"

definition get_tracked_set :: "context_internal \<Rightarrow> address \<Rightarrow> tracked_set" where
  "get_tracked_set ci addr = get_value_at (ci_trackbase ci) (addr_key addr)"

definition create_set :: "context_internal \<Rightarrow> address \<Rightarrow> address \<Rightarrow> (context_internal \<times> addr_key place) run" where
  "create_set ci addr1 addr2 =
     run_bind (clear_range id (ci_trackbase ci) (addr_key addr1) (addr_key addr2)) (\<lambda>(pm, pl).
     ok (ci\<lparr>ci_trackbase := write_place pm pl []\<rparr>, pl))"

definition get_variable :: "context_internal \<Rightarrow> string \<Rightarrow> context_bit_range run" where
  "get_variable ci nm =
     (case ci_variables ci nm of Some br \<Rightarrow> ok br | None \<Rightarrow> err (Lowlevel (''Non-existent context variable: '' @ nm)))"

type_synonym 'k context_db = "('k, free_array) part_map"

fun region_loop ::
  "'k::linorder list \<Rightarrow> 'k option \<Rightarrow> i32 \<Rightarrow> u32 \<Rightarrow> (u32 list \<Rightarrow> u32 list run) \<Rightarrow> 'k context_db \<Rightarrow> 'k context_db run" where
  "region_loop [] stop num msk app db = ok db"
| "region_loop (key # keys) stop num msk app db =
     (if (case stop of Some k2 \<Rightarrow> key \<ge> k2 | None \<Rightarrow> False) then ok db
      else case bt_get (database db) key of
          None \<Rightarrow> panic
        | Some entry \<Rightarrow>
            run_bind (vec_update (fa_mask entry) num (\<lambda>m. m OR msk)) (\<lambda>m.
            run_bind (app (fa_array entry)) (\<lambda>arr.
            region_loop keys stop num msk app (write_place db (Entry key) \<lparr>fa_array = arr, fa_mask = m\<rparr>))))"

definition get_region_for_set ::
  "context_internal \<Rightarrow> address \<Rightarrow> address \<Rightarrow> i32 \<Rightarrow> u32 \<Rightarrow> (u32 list \<Rightarrow> u32 list run) \<Rightarrow> context_internal run" where
  "get_region_for_set ci addr1 addr2 num msk app =
     run_bind (split free_array_clone (ci_database ci) (addr_key addr1)) (\<lambda>(db, _).
     let bounded = \<not> is_invalid addr2 in
     run_bind (if bounded then split free_array_clone db (addr_key addr2) else ok (db, Default)) (\<lambda>(db, _).
     if bounded \<and> addr_eq addr1 addr2 then ok (ci\<lparr>ci_database := db\<rparr>)
     else let stop_at_end = bounded \<and> addr_cmp addr1 addr2 = Less in
       run_bind (region_loop (keys_from db (addr_key addr1)) (if stop_at_end then Some (addr_key addr2) else None) num msk app db)
         (\<lambda>db. ok (ci\<lparr>ci_database := db\<rparr>))))"

fun change_loop ::
  "'k::linorder list \<Rightarrow> i32 \<Rightarrow> u32 \<Rightarrow> (u32 list \<Rightarrow> u32 list run) \<Rightarrow> 'k context_db \<Rightarrow> 'k context_db run" where
  "change_loop [] num msk app db = ok db"
| "change_loop (key # keys) num msk app db =
     (case bt_get (database db) key of
        None \<Rightarrow> panic
      | Some entry \<Rightarrow>
          run_bind (vec_get (fa_mask entry) num) (\<lambda>m.
          if m AND msk \<noteq> 0 then ok db
          else run_bind (app (fa_array entry)) (\<lambda>arr.
            change_loop keys num msk app (write_place db (Entry key) (entry\<lparr>fa_array := arr\<rparr>)))))"

definition get_region_to_change_point ::
  "context_internal \<Rightarrow> address \<Rightarrow> i32 \<Rightarrow> u32 \<Rightarrow> (u32 list \<Rightarrow> u32 list run) \<Rightarrow> context_internal run" where
  "get_region_to_change_point ci addr num msk app =
     run_bind (split free_array_clone (ci_database ci) (addr_key addr)) (\<lambda>(db, _).
     case keys_from db (addr_key addr) of
       [] \<Rightarrow> ok (ci\<lparr>ci_database := db\<rparr>)
     | first_key # keys \<Rightarrow>
         (case bt_get (database db) first_key of
            None \<Rightarrow> panic
          | Some entry \<Rightarrow>
              run_bind (app (fa_array entry)) (\<lambda>arr.
              run_bind (vec_update (fa_mask entry) num (\<lambda>m. m OR msk)) (\<lambda>m.
              run_bind (change_loop keys num msk app (write_place db (Entry first_key) \<lparr>fa_array = arr, fa_mask = m\<rparr>))
                (\<lambda>db. ok (ci\<lparr>ci_database := db\<rparr>))))))"

section \<open>Default methods of the trait\<close>

definition set_variable_default :: "context_internal \<Rightarrow> string \<Rightarrow> u32 \<Rightarrow> context_internal run" where
  "set_variable_default ci nm val =
     run_bind (get_variable ci nm) (\<lambda>var.
     let dflt = defaultvalue (ci_database ci) in
     run_bind (bits_set_value var val (fa_array dflt)) (\<lambda>arr.
     ok (ci\<lparr>ci_database := write_place (ci_database ci) Default (dflt\<lparr>fa_array := arr\<rparr>)\<rparr>)))"

definition get_default_value_by_name :: "context_internal \<Rightarrow> string \<Rightarrow> u32 run" where
  "get_default_value_by_name ci nm =
     run_bind (get_variable ci nm) (\<lambda>var. bits_get_value var (fa_array (defaultvalue (ci_database ci))))"

definition set_variable :: "context_internal \<Rightarrow> string \<Rightarrow> address \<Rightarrow> u32 \<Rightarrow> context_internal run" where
  "set_variable ci nm addr value =
     run_bind (get_variable ci nm) (\<lambda>br.
     get_region_to_change_point ci addr (cb_word br) (u32_shl (cb_mask br) (cb_shift br)) (bits_set_value br value))"

definition get_variable_value :: "context_internal \<Rightarrow> string \<Rightarrow> address \<Rightarrow> u32 run" where
  "get_variable_value ci nm addr = run_bind (get_variable ci nm) (\<lambda>br. bits_get_value br (get_context ci addr))"

definition set_context_change_point :: "context_internal \<Rightarrow> address \<Rightarrow> i32 \<Rightarrow> u32 \<Rightarrow> u32 \<Rightarrow> context_internal run" where
  "set_context_change_point ci addr num msk value =
     get_region_to_change_point ci addr num msk (\<lambda>ctx. vec_update ctx num (\<lambda>v. (v AND NOT msk) OR value))"

definition set_context_region :: "context_internal \<Rightarrow> address \<Rightarrow> address \<Rightarrow> i32 \<Rightarrow> u32 \<Rightarrow> u32 \<Rightarrow> context_internal run" where
  "set_context_region ci addr1 addr2 num msk value =
     get_region_for_set ci addr1 addr2 num msk (\<lambda>ctx. vec_update ctx num (\<lambda>v. (v AND NOT msk) OR value))"

definition set_variable_region :: "context_internal \<Rightarrow> string \<Rightarrow> address \<Rightarrow> address \<Rightarrow> u32 \<Rightarrow> context_internal run" where
  "set_variable_region ci nm begad endad value =
     run_bind (get_variable ci nm) (\<lambda>br.
     get_region_for_set ci begad endad (cb_word br) (u32_shl (cb_mask br) (cb_shift br)) (bits_set_value br value))"

text \<open>The product \<open>8 * bytes\<close> of the shift amount is checked for overflow.\<close>

definition shift_bytes :: "u64 \<Rightarrow> u64 \<Rightarrow> u64 run" where
  "shift_bytes res n = (if 8 * uint n < 2 ^ 64 then ok (wshr res (uint (8 * n))) else panic)"

fun tracked_lookup :: "tracked_context list \<Rightarrow> varnode_data \<Rightarrow> u64 \<Rightarrow> u64 run" where
  "tracked_lookup [] mem endoff = ok 0"
| "tracked_lookup (tcont # rest) mem endoff =
     (let loc = tc_loc tcont; tendoff = vd_offset loc + ucast (vd_size loc) - 1 in
      if space_index (vd_space loc) \<noteq> space_index (vd_space mem) then tracked_lookup rest mem endoff
      else if vd_offset loc > vd_offset mem then tracked_lookup rest mem endoff
      else if tendoff < endoff then tracked_lookup rest mem endoff
      else
        let res = tc_val tcont;
            big_endian = (case vd_space loc of Some spc \<Rightarrow> is_big_endian spc | None \<Rightarrow> False) in
        run_bind (if big_endian then (if endoff \<noteq> tendoff then shift_bytes res (tendoff - vd_offset mem) else ok res)
                  else if vd_offset mem \<noteq> vd_offset loc then shift_bytes res (vd_offset mem - vd_offset loc)
                  else ok res)
          (\<lambda>res. ok (res AND calc_mask (wrap_i32 (uint (vd_size mem))))))"

definition get_tracked_value :: "context_internal \<Rightarrow> varnode_data \<Rightarrow> address \<Rightarrow> u64 run" where
  "get_tracked_value ci mem point =
     tracked_lookup (get_tracked_set ci point) mem (vd_offset mem + ucast (vd_size mem) - 1)"

section \<open>The cache\<close>

record cache_window =
  cw_space_index :: i32
  cw_first :: u64
  cw_last :: u64
  cw_key :: "addr_key option"

record context_cache =
  cc_allowset :: bool
  cc_window :: "cache_window option"
  cc_first :: u64
  cc_last :: u64

definition new_cache :: context_cache where
  "new_cache = \<lparr>cc_allowset = True, cc_window = None, cc_first = 0, cc_last = 0\<rparr>"

definition allow_set :: "context_cache \<Rightarrow> bool \<Rightarrow> context_cache" where
  "allow_set cc val = cc\<lparr>cc_allowset := val\<rparr>"

definition copy_context :: "context_internal \<Rightarrow> addr_key option \<Rightarrow> u32 list \<Rightarrow> u32 list run" where
  "copy_context ci key buf =
     (let n = nat (max (ci_size ci) 0) in
      run_bind (slice (get_context_by_key ci key) 0 n) (\<lambda>ctx. copy_slice buf 0 ctx))"

definition cache_get_context ::
  "context_cache \<Rightarrow> context_internal \<Rightarrow> address \<Rightarrow> u32 list \<Rightarrow> context_cache \<times> u32 list run" where
  "cache_get_context cc ci addr buf =
     (let spc = space_index (ad_space addr); offset = ad_offset addr;
          hit = (case cc_window cc of
             Some w \<Rightarrow> Some (cw_space_index w) = spc \<and> cw_first w \<le> offset \<and> cw_last w \<ge> offset | None \<Rightarrow> False) in
      if \<not> hit then
        let bounds = get_context_bounds ci addr;
            cc = cc\<lparr>cc_first := cx_first bounds, cc_last := cx_last bounds,
              cc_window := map_option (\<lambda>i. \<lparr>cw_space_index = i, cw_first = cx_first bounds, cw_last = cx_last bounds,
                cw_key = cx_key bounds\<rparr>) spc\<rparr> in
        (cc, copy_context ci (cx_key bounds) buf)
      else (cc, copy_context ci (case cc_window cc of Some w \<Rightarrow> cw_key w | None \<Rightarrow> None) buf))"

definition in_window :: "context_cache \<Rightarrow> address \<Rightarrow> bool" where
  "in_window cc addr =
     (case cc_window cc of
        Some w \<Rightarrow> space_index (ad_space addr) = Some (cw_space_index w) \<and> cc_first cc \<le> ad_offset addr \<and> cc_last cc \<ge> ad_offset addr
      | None \<Rightarrow> False)"

definition cache_set_context ::
  "context_cache \<Rightarrow> context_internal \<Rightarrow> address \<Rightarrow> i32 \<Rightarrow> u32 \<Rightarrow> u32 \<Rightarrow> (context_cache \<times> context_internal) run" where
  "cache_set_context cc ci addr num msk value =
     (if \<not> cc_allowset cc then ok (cc, ci)
      else run_bind (set_context_change_point ci addr num msk value) (\<lambda>ci.
        ok (if in_window cc addr then cc\<lparr>cc_window := None\<rparr> else cc, ci)))"

definition cache_set_context_region ::
  "context_cache \<Rightarrow> context_internal \<Rightarrow> address \<Rightarrow> address \<Rightarrow> i32 \<Rightarrow> u32 \<Rightarrow> u32 \<Rightarrow> (context_cache \<times> context_internal) run" where
  "cache_set_context_region cc ci addr1 addr2 num msk value =
     (if \<not> cc_allowset cc then ok (cc, ci)
      else run_bind (set_context_region ci addr1 addr2 num msk value) (\<lambda>ci.
        let cc = (if in_window cc addr1 then cc\<lparr>cc_window := None\<rparr> else cc);
            cc = (if cc_first cc \<le> ad_offset addr2 \<and> cc_last cc \<ge> ad_offset addr2 then cc\<lparr>cc_window := None\<rparr> else cc);
            cc = (if cc_first cc \<ge> ad_offset addr1 \<and> cc_first cc \<le> ad_offset addr2 then cc\<lparr>cc_window := None\<rparr> else cc) in
        ok (cc, ci)))"

end
