(* ===== verification/Context_Region.thy ===== *)
theory Context_Region
  imports Global_Context
begin

text \<open>
  What the operations of the context database do to the context of every address. The words of a context
  are changed by a total function on vectors of the database's size; the locale \<open>region_update\<close> states that
  for the closures the sources pass, and the effect of the two region loops is proved inside it.
\<close>

section \<open>Well-formed databases\<close>

definition wf_array :: "nat \<Rightarrow> free_array \<Rightarrow> bool" where
  "wf_array n fa \<longleftrightarrow> length (fa_array fa) = n \<and> length (fa_mask fa) = n"

definition db_inv :: "nat \<Rightarrow> 'k::linorder context_db \<Rightarrow> bool" where
  "db_inv n db \<longleftrightarrow> pm_inv db \<and> wf_array n (defaultvalue db) \<and> (\<forall>k fa. bt_get (database db) k = Some fa \<longrightarrow> wf_array n fa)"

definition ctx_inv :: "context_internal \<Rightarrow> bool" where
  "ctx_inv ci \<longleftrightarrow> 0 \<le> ci_size ci \<and> db_inv (nat (ci_size ci)) (ci_database ci) \<and> pm_inv (ci_trackbase ci)"

lemma wf_clone [simp]: "wf_array n (free_array_clone fa) \<longleftrightarrow> wf_array n fa" "fa_array (free_array_clone fa) = fa_array fa"
  by (auto simp: wf_array_def free_array_clone_def)

lemma db_invD:
  "db_inv n db \<Longrightarrow> pm_inv db" "db_inv n db \<Longrightarrow> bt_inv (database db)"
  "db_inv n db \<Longrightarrow> bt_get (database db) k = Some fa \<Longrightarrow> wf_array n fa"
  by (simp_all add: db_inv_def pm_inv_def)

lemma wf_by_key: "db_inv n db \<Longrightarrow> wf_array n (get_by_key db k)"
  by (auto simp: db_inv_def get_by_key_def split: option.splits)

lemma wf_at: "db_inv n db \<Longrightarrow> wf_array n (get_value_at db q)"
  by (simp add: get_value_by_key db_invD(1) wf_by_key)

text \<open>The bits of a word that were set explicitly at a boundary.\<close>

definition marks :: "'k::linorder context_db \<Rightarrow> 'k \<Rightarrow> nat \<Rightarrow> u32" where
  "marks db k num = (case bt_get (database db) k of Some fa \<Rightarrow> if num < length (fa_mask fa) then fa_mask fa ! num else 0 | None \<Rightarrow> 0)"

lemma marks_clone: "bt_get (database db) k = Some (free_array_clone fa) \<Longrightarrow> marks db k num = 0"
  by (simp add: marks_def free_array_clone_def)

text \<open>Splitting keeps the database well formed, every context and all marks.\<close>

lemma split_db:
  assumes "db_inv n db"
  obtains db' where "split free_array_clone db p = ok (db', Entry p)" "db_inv n db'"
    "\<And>k. split_point db' k \<longleftrightarrow> k = p \<or> split_point db k"
    "\<And>q. fa_array (get_value_at db' q) = fa_array (get_value_at db q)"
    "\<And>k. k \<noteq> p \<or> split_point db p \<Longrightarrow> bt_get (database db') k = bt_get (database db) k"
    "\<And>k num. marks db' k num = marks db k num"
proof -
  note pm = db_invD(1) [OF assms] and bt = db_invD(2) [OF assms]
  let ?db' = "if split_point db p then db else db\<lparr>database := bt_insert p (free_array_clone (get_value_at db p)) (database db)\<rparr>"
  obtain db' where db': "split free_array_clone db p = ok (db', Entry p)" "pm_inv db'" "defaultvalue db' = defaultvalue db"
    "\<And>q. get_value_at db' q = (if in_part db p q \<and> \<not> split_point db p then free_array_clone (get_value_at db q) else get_value_at db q)"
    "\<And>k. split_point db' k \<longleftrightarrow> k = p \<or> split_point db k"
    by (rule split_facts [OF pm, of free_array_clone p]) blast
  have "db' = ?db'" using db'(1) split_run [OF pm, of free_array_clone p] by simp
  then have get: "bt_get (database db') k = (if split_point db p \<or> k \<noteq> p then bt_get (database db) k
      else Some (free_array_clone (get_value_at db p)))" for k by (auto simp: bt.get_insert [OF bt])
  have "db_inv n db'" using assms db'(2,3) wf_at [OF assms] by (auto simp: db_inv_def get split: if_splits)
  moreover have "marks db' k num = marks db k num" for k num
  proof (cases "split_point db p \<or> k \<noteq> p")
    case False
    then show ?thesis using get marks_clone [of db' p] by (auto simp: marks_def split_point_def)
  qed (simp add: marks_def get)
  ultimately show ?thesis using db' get by (intro that [of db']) auto
qed

section \<open>Loops over parts\<close>

text \<open>No part that starts after \<open>p\<close> and up to \<open>q\<close> has set some of the bits itself.\<close>

definition open_until :: "'k::linorder context_db \<Rightarrow> nat \<Rightarrow> u32 \<Rightarrow> 'k \<Rightarrow> 'k \<Rightarrow> bool" where
  "open_until db num msk p q \<longleftrightarrow>
     (\<forall>k fa. p < k \<longrightarrow> k \<le> q \<longrightarrow> bt_get (database db) k = Some fa \<longrightarrow> fa_mask fa ! num AND msk = 0)"

lemma open_until_cong:
  "(\<And>k. p < k \<Longrightarrow> bt_get (database db') k = bt_get (database db) k) \<Longrightarrow> open_until db' num msk p q = open_until db num msk p q"
  unfolding open_until_def by metis

text \<open>
  A family of closures: a closure that fits a database of \<open>n\<close> words never panics there, keeps the length, and
  its slot is one of the words.
\<close>

locale region_update =
  fixes slot :: "'c \<Rightarrow> i32" and app :: "'c \<Rightarrow> u32 list \<Rightarrow> u32 list run"
    and g :: "'c \<Rightarrow> u32 list \<Rightarrow> u32 list" and fits :: "'c \<Rightarrow> nat \<Rightarrow> bool"
  assumes app_ok: "fits c n \<Longrightarrow> length ctx = n \<Longrightarrow> app c ctx = ok (g c ctx) \<and> length (g c ctx) = n"
    and slot_ok: "fits c n \<Longrightarrow> 0 \<le> slot c \<and> nat (slot c) < n"
begin

text \<open>The database in which the parts in \<open>A\<close> have been updated.\<close>

definition marked :: "'c \<Rightarrow> u32 \<Rightarrow> u32 list \<Rightarrow> u32 list" where
  "marked c msk m = m[nat (slot c) := m ! nat (slot c) OR msk]"

definition updated :: "'c \<Rightarrow> nat \<Rightarrow> u32 \<Rightarrow> 'k::linorder set \<Rightarrow> 'k set \<Rightarrow> 'k context_db \<Rightarrow> 'k context_db \<Rightarrow> bool" where
  "updated c n msk A B db db' \<longleftrightarrow> db_inv n db' \<and> defaultvalue db' = defaultvalue db
     \<and> (\<forall>k. split_point db' k \<longleftrightarrow> split_point db k)
     \<and> (\<forall>k fa. bt_get (database db) k = Some fa \<longrightarrow> (\<exists>fa'. bt_get (database db') k = Some fa' \<and>
          fa_array fa' = (if k \<in> A then g c (fa_array fa) else fa_array fa) \<and>
          fa_mask fa' = (if k \<in> B then marked c msk (fa_mask fa) else fa_mask fa)))"

lemma updated_refl: "db_inv n db \<Longrightarrow> updated c n msk {} {} db db"
  by (auto simp: updated_def)

lemma updated_trans:
  assumes "updated c n msk A B db db1" "updated c n msk A' B' db1 db2" "A \<inter> A' = {}" "B \<inter> B' = {}"
  shows "updated c n msk (A \<union> A') (B \<union> B') db db2"
  unfolding updated_def
proof (intro conjI allI impI)
  fix k fa assume "bt_get (database db) k = Some fa"
  then obtain fa1 where 1: "bt_get (database db1) k = Some fa1" "fa_array fa1 = (if k \<in> A then g c (fa_array fa) else fa_array fa)"
    "fa_mask fa1 = (if k \<in> B then marked c msk (fa_mask fa) else fa_mask fa)"
    using assms(1) unfolding updated_def by blast
  then obtain fa2 where 2: "bt_get (database db2) k = Some fa2" "fa_array fa2 = (if k \<in> A' then g c (fa_array fa1) else fa_array fa1)"
    "fa_mask fa2 = (if k \<in> B' then marked c msk (fa_mask fa1) else fa_mask fa1)"
    using assms(2) unfolding updated_def by blast
  show "\<exists>fa'. bt_get (database db2) k = Some fa' \<and> fa_array fa' = (if k \<in> A \<union> A' then g c (fa_array fa) else fa_array fa)
      \<and> fa_mask fa' = (if k \<in> B \<union> B' then marked c msk (fa_mask fa) else fa_mask fa)"
    using 1 2 assms(3,4) by (intro exI [of _ fa2]) auto
qed (use assms in \<open>auto simp: updated_def\<close>)

lemma updated_one:
  assumes "db_inv n db" "bt_get (database db) k = Some fa" "wf_array n fa'" "fa_array fa' = g c (fa_array fa)"
    "fa_mask fa' = (if k \<in> B then marked c msk (fa_mask fa) else fa_mask fa)" "B \<subseteq> {k}"
  shows "updated c n msk {k} B db (write_place db (Entry k) fa')"
  using assms db_invD(2) [OF assms(1)]
  by (auto simp: updated_def db_inv_def write_place_def pm_inv_def bt.invar_insert bt.get_insert split_point_def)

lemma updated_marks:
  assumes "fits c n" "db_inv n db" "updated c n msk A B db db'" "\<And>k. k \<in> B \<Longrightarrow> split_point db k"
  shows "marks db' k num = (if k \<in> B \<and> num = nat (slot c) then marks db k num OR msk else marks db k num)"
proof (cases "bt_get (database db) k")
  case None
  then have "\<not> split_point db k" by (simp add: split_point_def)
  then have "\<not> split_point db' k" "k \<notin> B" using assms(3,4) by (auto simp: updated_def)
  then have "bt_get (database db') k = None" "k \<notin> B" by (simp_all add: split_point_def)
  then show ?thesis using None by (simp add: marks_def)
next
  case (Some fa)
  then obtain fa' where "bt_get (database db') k = Some fa'" "fa_mask fa' = (if k \<in> B then marked c msk (fa_mask fa) else fa_mask fa)"
    using assms(3) unfolding updated_def by blast
  moreover have "length (fa_mask fa) = n" using db_invD(3) [OF assms(2) Some] by (simp add: wf_array_def)
  ultimately show ?thesis using Some slot_ok [OF assms(1)] by (simp add: marks_def marked_def nth_list_update)
qed

lemma updated_value:
  assumes "db_inv n db" "updated c n msk A B db db'"
  shows "fa_array (get_value_at db' q) =
    (if \<exists>k\<in>A. last_at_or_before db q = Some k then g c (fa_array (get_value_at db q)) else fa_array (get_value_at db q))"
proof -
  have pm: "pm_inv db" "pm_inv db'" using assms by (auto simp: db_inv_def updated_def)
  have same: "last_at_or_before db' q = last_at_or_before db q"
    using assms(2) by (intro part_key_cong pm) (simp add: updated_def)
  show ?thesis
  proof (cases "last_at_or_before db q")
    case None
    then show ?thesis using assms(2) same by (simp add: get_value_by_key pm get_by_key_def updated_def)
  next
    case (Some k)
    then obtain fa where fa: "bt_get (database db) k = Some fa" by (auto simp: part_key_iff pm split_point_def)
    then obtain fa' where "bt_get (database db') k = Some fa'" "fa_array fa' = (if k \<in> A then g c (fa_array fa) else fa_array fa)"
      using assms(2) unfolding updated_def by blast
    then show ?thesis using Some same fa by (simp add: get_value_by_key pm get_by_key_def)
  qed
qed

lemma vec_ok: "fits c n \<Longrightarrow> wf_array n fa \<Longrightarrow> vec_update (fa_mask fa) (slot c) f = ok ((fa_mask fa)[nat (slot c) := f (fa_mask fa ! nat (slot c))])"
  "fits c n \<Longrightarrow> wf_array n fa \<Longrightarrow> vec_get (fa_mask fa) (slot c) = ok (fa_mask fa ! nat (slot c))"
  using slot_ok by (simp_all add: vec_update_def vec_get_def wf_array_def)

lemma region_loop_updates:
  assumes "fits c n" "db_inv n db" "distinct ks" "\<And>k. k \<in> set ks \<Longrightarrow> split_point db k"
  shows "\<exists>db'. region_loop ks stop (slot c) msk (app c) db = ok db' \<and>
    (let A = set (takeWhile (\<lambda>k. \<not> (case stop of Some k2 \<Rightarrow> k \<ge> k2 | None \<Rightarrow> False)) ks) in updated c n msk A A db db')"
  using assms(2-)
proof (induction ks arbitrary: db)
  case (Cons k ks)
  show ?case
  proof (cases "case stop of Some k2 \<Rightarrow> k \<ge> k2 | None \<Rightarrow> False")
    case False
    obtain fa where fa: "bt_get (database db) k = Some fa" using Cons.prems(3) [of k] by (auto simp: split_point_def)
    have wf: "wf_array n fa" by (rule db_invD(3) [OF Cons.prems(1) fa])
    let ?fa' = "\<lparr>fa_array = g c (fa_array fa), fa_mask = (fa_mask fa)[nat (slot c) := fa_mask fa ! nat (slot c) OR msk]\<rparr>"
    let ?A = "set (takeWhile (\<lambda>k. \<not> (case stop of Some k2 \<Rightarrow> k \<ge> k2 | None \<Rightarrow> False)) ks)"
    let ?db1 = "write_place db (Entry k) ?fa'"
    have app: "app c (fa_array fa) = ok (g c (fa_array fa))" "length (g c (fa_array fa)) = n"
      using app_ok [OF assms(1)] wf by (simp_all add: wf_array_def)
    then have u1: "updated c n msk {k} {k} db ?db1"
      using wf by (intro updated_one [OF Cons.prems(1) fa]) (simp_all add: wf_array_def marked_def)
    then have "\<exists>db'. region_loop ks stop (slot c) msk (app c) ?db1 = ok db' \<and> updated c n msk ?A ?A ?db1 db'"
      using Cons.prems by (intro Cons.IH [unfolded Let_def]) (auto simp: updated_def)
    moreover have "region_loop (k # ks) stop (slot c) msk (app c) db = region_loop ks stop (slot c) msk (app c) ?db1"
      using False fa app by (simp add: vec_ok [OF assms(1) wf])
    moreover have "{k} \<inter> ?A = {}"
      using Cons.prems(2) set_takeWhileD by fastforce
    ultimately show ?thesis using False updated_trans [OF u1] by (auto simp: Let_def split del: option.splits)
  qed (use Cons.prems updated_refl in simp)
qed (simp add: updated_refl)

text \<open>An earlier part that carries the changed bits of its own stops the second loop.\<close>

definition open_part :: "'c \<Rightarrow> u32 \<Rightarrow> 'k::linorder context_db \<Rightarrow> 'k \<Rightarrow> bool" where
  "open_part c msk db k =
     (case bt_get (database db) k of Some fa \<Rightarrow> fa_mask fa ! nat (slot c) AND msk = 0 | None \<Rightarrow> False)"

lemma open_until_iff:
  "(\<forall>k. p < k \<longrightarrow> k \<le> q \<longrightarrow> split_point db k \<longrightarrow> open_part c msk db k) \<longleftrightarrow> open_until db (nat (slot c)) msk p q"
  by (fastforce simp: open_part_def split_point_def open_until_def)

lemma open_part_updated:
  assumes "updated c n m A B db db'" "k \<notin> B" "split_point db k"
  shows "open_part c msk db' k = open_part c msk db k"
proof -
  obtain fa where fa: "bt_get (database db) k = Some fa" using assms(3) by (auto simp: split_point_def)
  then obtain fa' where "bt_get (database db') k = Some fa'" "fa_mask fa' = fa_mask fa"
    using assms(1,2) unfolding updated_def by (metis (full_types))
  then show ?thesis using fa by (simp add: open_part_def)
qed

lemma change_loop_updates:
  assumes "fits c n" "db_inv n db" "distinct ks" "\<And>k. k \<in> set ks \<Longrightarrow> split_point db k"
  shows "\<exists>db'. change_loop ks (slot c) msk (app c) db = ok db' \<and> updated c n msk (set (takeWhile (open_part c msk db) ks)) {} db db'"
  using assms(2-)
proof (induction ks arbitrary: db)
  case (Cons k ks)
  obtain fa where fa: "bt_get (database db) k = Some fa" using Cons.prems(3) [of k] by (auto simp: split_point_def)
  have wf: "wf_array n fa" by (rule db_invD(3) [OF Cons.prems(1) fa])
  show ?case
  proof (cases "open_part c msk db k")
    case True
    let ?db1 = "write_place db (Entry k) (fa\<lparr>fa_array := g c (fa_array fa)\<rparr>)"
    have app: "app c (fa_array fa) = ok (g c (fa_array fa))" "length (g c (fa_array fa)) = n"
      using app_ok [OF assms(1)] wf by (simp_all add: wf_array_def)
    then have u1: "updated c n msk {k} {} db ?db1" using wf by (intro updated_one [OF Cons.prems(1) fa]) (simp_all add: wf_array_def)
    then have "\<exists>db'. change_loop ks (slot c) msk (app c) ?db1 = ok db' \<and> updated c n msk (set (takeWhile (open_part c msk ?db1) ks)) {} ?db1 db'"
      using Cons.prems by (intro Cons.IH) (auto simp: updated_def)
    moreover have "takeWhile (open_part c msk ?db1) ks = takeWhile (open_part c msk db) ks"
    proof (intro takeWhile_cong refl)
      fix j assume "j \<in> set ks"
      then show "open_part c msk ?db1 j = open_part c msk db j"
        using Cons.prems(2,3) by (intro open_part_updated [OF u1]) auto
    qed
    moreover have "change_loop (k # ks) (slot c) msk (app c) db = change_loop ks (slot c) msk (app c) ?db1"
      using True fa app by (simp add: vec_ok [OF assms(1) wf] open_part_def)
    moreover have "{k} \<inter> set (takeWhile (open_part c msk db) ks) = {}"
      using Cons.prems(2) set_takeWhileD by fastforce
    ultimately show ?thesis using True updated_trans [OF u1, of _ "{}"] by auto
  next
    case False
    then have "change_loop (k # ks) (slot c) msk (app c) db = ok db"
      using fa by (simp add: vec_ok [OF assms(1) wf] open_part_def)
    then show ?thesis using False updated_refl [OF Cons.prems(1)] by simp
  qed
qed (simp add: updated_refl)

lemma keys_from_props:
  assumes "pm_inv db"
  shows "sorted_wrt (<) (keys_from db p)" "distinct (keys_from db p)" "set (keys_from db p) = {k. split_point db k \<and> p \<le> k}"
proof -
  have inv: "bt_inv (database db)" using assms by (simp add: pm_inv_def)
  then show "sorted_wrt (<) (keys_from db p)" using bt_inv_filter [OF inv] by (simp add: keys_from_def bt_from_def bt_inv_def)
  then show "distinct (keys_from db p)" by (metis strict_sorted_iff)
  have "k \<in> set (keys_from db p) \<longleftrightarrow> (\<exists>v. (k, v) \<in> set (database db)) \<and> p \<le> k" for k
    by (force simp: keys_from_def bt_from_def)
  then show "set (keys_from db p) = {k. split_point db k \<and> p \<le> k}"
    using bt_get_None [of "database db"] by (auto simp: split_point_def)
qed

lemma region_effect:
  assumes "fits c n" "db_inv n db" "split_point db k1" "stop = None \<or> (\<exists>k2. stop = Some k2 \<and> split_point db k2)"
  obtains db' where "region_loop (keys_from db k1) stop (slot c) msk (app c) db = ok db'" "db_inv n db'"
    "\<And>k. split_point db' k \<longleftrightarrow> split_point db k"
    "\<And>q. fa_array (get_value_at db' q) = (if k1 \<le> q \<and> (\<forall>k2. stop = Some k2 \<longrightarrow> q < k2) then g c (fa_array (get_value_at db q))
       else fa_array (get_value_at db q))"
    "\<And>k num. marks db' k num = (if split_point db k \<and> k1 \<le> k \<and> (\<forall>k2. stop = Some k2 \<longrightarrow> k < k2) \<and> num = nat (slot c)
       then marks db k num OR msk else marks db k num)"
proof -
  note pm = db_invD(1) [OF assms(2)]
  define S where "S = set (takeWhile (\<lambda>k. \<not> (case stop of Some k2 \<Rightarrow> k \<ge> k2 | None \<Rightarrow> False)) (keys_from db k1))"
  obtain db' where db': "region_loop (keys_from db k1) stop (slot c) msk (app c) db = ok db'" "updated c n msk S S db db'"
    using region_loop_updates [OF assms(1,2) keys_from_props(2) [OF pm], of k1 stop msk] keys_from_props(3) [OF pm, of k1]
    unfolding S_def Let_def by auto
  have A: "k \<in> S \<longleftrightarrow> split_point db k \<and> k1 \<le> k \<and> (\<forall>k2. stop = Some k2 \<longrightarrow> k < k2)" for k
    unfolding S_def takeWhile_sorted [OF keys_from_props(1) [OF pm]] keys_from_props(3) [OF pm]
    by (cases stop) (auto simp: not_le)
  have "(\<exists>k\<in>S. last_at_or_before db q = Some k) \<longleftrightarrow> k1 \<le> q \<and> (\<forall>k2. stop = Some k2 \<longrightarrow> q < k2)" for q
  proof -
    have "(\<exists>k\<in>S. last_at_or_before db q = Some k) \<longleftrightarrow>
        (\<exists>k. last_at_or_before db q = Some k \<and> k1 \<le> k) \<and> (\<forall>k2. stop = Some k2 \<longrightarrow> \<not> (\<exists>k. last_at_or_before db q = Some k \<and> k2 \<le> k))"
    proof (cases "last_at_or_before db q")
      case (Some a)
      then have "split_point db a" by (simp add: part_key_iff [OF pm])
      then show ?thesis using Some by (auto simp: A not_le)
    qed simp
    also have "\<dots> \<longleftrightarrow> k1 \<le> q \<and> (\<forall>k2. stop = Some k2 \<longrightarrow> \<not> k2 \<le> q)"
      unfolding part_key_le [OF pm assms(3), of q] using assms(4) part_key_le [OF pm, of _ q] by blast
    finally show ?thesis by (simp add: not_le)
  qed
  moreover have "marks db' k num = (if k \<in> S \<and> num = nat (slot c) then marks db k num OR msk else marks db k num)" for k num
    using A by (intro updated_marks [OF assms(1,2) db'(2)]) blast
  ultimately show ?thesis using that [OF db'(1)] db'(2) updated_value [OF assms(2) db'(2)] A by (auto simp: updated_def)
qed

lemma change_effect:
  assumes "fits c n" "db_inv n db" "split_point db k1"
  obtains ks where "keys_from db k1 = k1 # ks"
    "\<And>fa db1. bt_get (database db) k1 = Some fa \<Longrightarrow> updated c n msk {k1} {k1} db db1 \<Longrightarrow>
      \<exists>db'. change_loop ks (slot c) msk (app c) db1 = ok db' \<and> db_inv n db' \<and> (\<forall>k. split_point db' k \<longleftrightarrow> split_point db k) \<and>
      (\<forall>q. fa_array (get_value_at db' q) =
        (if k1 \<le> q \<and> (\<forall>k. k1 < k \<longrightarrow> k \<le> q \<longrightarrow> split_point db k \<longrightarrow> open_part c msk db k)
         then g c (fa_array (get_value_at db q)) else fa_array (get_value_at db q))) \<and>
      (\<forall>k num. marks db' k num = (if k = k1 \<and> num = nat (slot c) then marks db k num OR msk else marks db k num))"
proof -
  note pm = db_invD(1) [OF assms(2)]
  note kf = keys_from_props [OF pm, of k1]
  have "k1 \<in> set (keys_from db k1)" using kf(3) assms(3) by simp
  then obtain k ks where ks: "keys_from db k1 = k # ks" by (cases "keys_from db k1") auto
  have "k \<le> k1" using kf(1) \<open>k1 \<in> _\<close> unfolding ks by auto
  moreover have "k1 \<le> k" using kf(3) unfolding ks by auto
  ultimately have k: "k = k1" by simp
  have sks: "sorted_wrt (<) ks" "distinct ks" "set ks = {k. split_point db k \<and> k1 < k}"
    using kf unfolding ks k by (auto simp: order.strict_iff_order)
  show ?thesis
  proof (rule that)
    show "keys_from db k1 = k1 # ks" using ks k by simp
    fix fa db1
    assume u1: "updated c n msk {k1} {k1} db db1"
    then have inv1: "db_inv n db1" "\<And>k. split_point db1 k \<longleftrightarrow> split_point db k" by (simp_all add: updated_def)
    obtain db' where db': "change_loop ks (slot c) msk (app c) db1 = ok db'"
        "updated c n msk (set (takeWhile (open_part c msk db1) ks)) {} db1 db'"
      using change_loop_updates [OF assms(1) inv1(1) sks(2), of msk] sks(3) inv1(2) by auto
    define S where "S = set (takeWhile (open_part c msk db1) ks)"
    have S: "k \<in> S \<longleftrightarrow> split_point db k \<and> k1 < k \<and> (\<forall>j. k1 < j \<longrightarrow> j \<le> k \<longrightarrow> split_point db j \<longrightarrow> open_part c msk db j)" for k
      unfolding S_def takeWhile_sorted [OF sks(1)] sks(3) using open_part_updated [OF u1] by auto
    have u: "updated c n msk (insert k1 S) {k1} db db'"
      using updated_trans [OF u1 db'(2) [folded S_def]] S by auto
    have m: "marks db' k num = (if k \<in> {k1} \<and> num = nat (slot c) then marks db k num OR msk else marks db k num)" for k num
      using assms(3) by (intro updated_marks [OF assms(1,2) u]) simp
    have "(\<exists>k\<in>insert k1 S. last_at_or_before db q = Some k) \<longleftrightarrow>
        k1 \<le> q \<and> (\<forall>k. k1 < k \<longrightarrow> k \<le> q \<longrightarrow> split_point db k \<longrightarrow> open_part c msk db k)" for q
    proof (cases "last_at_or_before db q")
      case None
      then show ?thesis using part_key_le [OF pm assms(3), of q] by simp
    next
      case (Some a)
      then have a: "split_point db a" "a \<le> q" "\<And>k. a < k \<Longrightarrow> k \<le> q \<Longrightarrow> \<not> split_point db k"
        by (auto simp: part_key_iff [OF pm] in_part_def)
      have "k1 \<le> q \<longleftrightarrow> k1 \<le> a" using part_key_le [OF pm assms(3), of q] Some by simp
      moreover have "(\<forall>k. k1 < k \<longrightarrow> k \<le> q \<longrightarrow> split_point db k \<longrightarrow> open_part c msk db k) \<longleftrightarrow>
          (\<forall>k. k1 < k \<longrightarrow> k \<le> a \<longrightarrow> split_point db k \<longrightarrow> open_part c msk db k)"
        using a(2,3) by (meson leI order_trans)
      ultimately show ?thesis using Some a(1) by (auto simp: S order.strict_iff_order)
    qed
    then show "\<exists>db'. change_loop ks (slot c) msk (app c) db1 = ok db' \<and> db_inv n db' \<and> (\<forall>k. split_point db' k \<longleftrightarrow> split_point db k) \<and>
      (\<forall>q. fa_array (get_value_at db' q) =
        (if k1 \<le> q \<and> (\<forall>k. k1 < k \<longrightarrow> k \<le> q \<longrightarrow> split_point db k \<longrightarrow> open_part c msk db k)
         then g c (fa_array (get_value_at db q)) else fa_array (get_value_at db q))) \<and>
      (\<forall>k num. marks db' k num = (if k = k1 \<and> num = nat (slot c) then marks db k num OR msk else marks db k num))"
      using db'(1) updated_value [OF assms(2) u] u m by (intro exI [of _ db']) (simp add: updated_def)
  qed
qed

lemma region_for_set_effect:
  assumes "ctx_inv ci" "fits c (nat (ci_size ci))" "is_invalid a2 \<or> addr_key a1 < addr_key a2"
  shows "\<exists>ci'. get_region_for_set ci a1 a2 (slot c) msk (app c) = ok ci' \<and> ctx_inv ci'
    \<and> ci_size ci' = ci_size ci \<and> ci_variables ci' = ci_variables ci \<and> ci_trackbase ci' = ci_trackbase ci
    \<and> (\<forall>k. split_point (ci_database ci') k \<longleftrightarrow>
        split_point (ci_database ci) k \<or> k = addr_key a1 \<or> \<not> is_invalid a2 \<and> k = addr_key a2)
    \<and> (\<forall>q. get_context ci' q = (if addr_key a1 \<le> addr_key q \<and> (is_invalid a2 \<or> addr_key q < addr_key a2)
        then g c (get_context ci q) else get_context ci q))
    \<and> (\<forall>k num. marks (ci_database ci') k num = (if (split_point (ci_database ci) k \<or> k = addr_key a1) \<and> addr_key a1 \<le> k \<and>
          (is_invalid a2 \<or> k < addr_key a2) \<and> num = nat (slot c)
        then marks (ci_database ci) k num OR msk else marks (ci_database ci) k num))"
proof -
  let ?n = "nat (ci_size ci)"
  have inv: "db_inv ?n (ci_database ci)" "0 \<le> ci_size ci" "pm_inv (ci_trackbase ci)" using assms(1) by (auto simp: ctx_inv_def)
  obtain db1 where 1: "split free_array_clone (ci_database ci) (addr_key a1) = ok (db1, Entry (addr_key a1))" "db_inv ?n db1"
    "\<And>k. split_point db1 k \<longleftrightarrow> k = addr_key a1 \<or> split_point (ci_database ci) k"
    "\<And>q. fa_array (get_value_at db1 q) = fa_array (get_value_at (ci_database ci) q)"
    "\<And>k num. marks db1 k num = marks (ci_database ci) k num"
    by (rule split_db [OF inv(1), of "addr_key a1"]) blast
  have "\<exists>db2 pl. (if \<not> is_invalid a2 then split free_array_clone db1 (addr_key a2) else ok (db1, Default)) = ok (db2, pl) \<and>
    db_inv ?n db2 \<and> (\<forall>k. split_point db2 k \<longleftrightarrow> \<not> is_invalid a2 \<and> k = addr_key a2 \<or> split_point db1 k) \<and>
    (\<forall>q. fa_array (get_value_at db2 q) = fa_array (get_value_at (ci_database ci) q)) \<and>
    (\<forall>k num. marks db2 k num = marks (ci_database ci) k num)"
  proof (cases "is_invalid a2")
    case False
    obtain db2 where "split free_array_clone db1 (addr_key a2) = ok (db2, Entry (addr_key a2))" "db_inv ?n db2"
      "\<And>k. split_point db2 k \<longleftrightarrow> k = addr_key a2 \<or> split_point db1 k"
      "\<And>q. fa_array (get_value_at db2 q) = fa_array (get_value_at db1 q)" "\<And>k num. marks db2 k num = marks db1 k num"
      by (rule split_db [OF 1(2), of "addr_key a2"]) blast
    then show ?thesis using False 1(4,5) by auto
  qed (use 1 in auto)
  then obtain db2 pl where 2: "(if \<not> is_invalid a2 then split free_array_clone db1 (addr_key a2) else ok (db1, Default)) = ok (db2, pl)"
    "db_inv ?n db2" "\<And>k. split_point db2 k \<longleftrightarrow> \<not> is_invalid a2 \<and> k = addr_key a2 \<or> split_point db1 k"
    "\<And>q. fa_array (get_value_at db2 q) = fa_array (get_value_at (ci_database ci) q)"
    "\<And>k num. marks db2 k num = marks (ci_database ci) k num" by blast
  let ?stop = "if \<not> is_invalid a2 \<and> addr_cmp a1 a2 = Less then Some (addr_key a2) else None"
  have stop: "?stop = (if is_invalid a2 then None else Some (addr_key a2))" "\<not> (\<not> is_invalid a2 \<and> addr_eq a1 a2)"
    using assms(3) by (auto simp: addr_cmp_key cmp_of_def addr_eq_key)
  have "split_point db2 (addr_key a1)" "?stop = None \<or> (\<exists>k2. ?stop = Some k2 \<and> split_point db2 k2)"
    by (simp_all add: stop(1) 1(3) 2(3) del: split_paired_Ex)
  then obtain db' where db': "region_loop (keys_from db2 (addr_key a1)) ?stop (slot c) msk (app c) db2 = ok db'" "db_inv ?n db'"
    "\<And>k. split_point db' k \<longleftrightarrow> split_point db2 k"
    "\<And>q. fa_array (get_value_at db' q) = (if addr_key a1 \<le> q \<and> (\<forall>k2. ?stop = Some k2 \<longrightarrow> q < k2)
       then g c (fa_array (get_value_at db2 q)) else fa_array (get_value_at db2 q))"
    "\<And>k num. marks db' k num = (if split_point db2 k \<and> addr_key a1 \<le> k \<and> (\<forall>k2. ?stop = Some k2 \<longrightarrow> k < k2) \<and> num = nat (slot c)
       then marks db2 k num OR msk else marks db2 k num)"
    using region_effect [OF assms(2) 2(2), of "addr_key a1" ?stop msk] by blast
  have "get_region_for_set ci a1 a2 (slot c) msk (app c) = ok (ci\<lparr>ci_database := db'\<rparr>)"
    unfolding get_region_for_set_def Let_def using 1(1) 2(1) stop(2) db'(1) by auto
  moreover have "marks db' k num = (if (split_point (ci_database ci) k \<or> k = addr_key a1) \<and> addr_key a1 \<le> k \<and>
      (is_invalid a2 \<or> k < addr_key a2) \<and> num = nat (slot c)
    then marks (ci_database ci) k num OR msk else marks (ci_database ci) k num)" for k num
    unfolding db'(5) 2(3,5) 1(3) stop(1) by (cases "is_invalid a2") auto
  ultimately show ?thesis using inv db'(2)
    by (intro exI [of _ "ci\<lparr>ci_database := db'\<rparr>"])
      (simp add: ctx_inv_def get_context_def stop(1) db'(3,4) 1(3) 2(3,4) disj_ac del: split_paired_All)
qed

lemma change_point_effect:
  assumes "ctx_inv ci" "fits c (nat (ci_size ci))"
  shows "\<exists>ci'. get_region_to_change_point ci a (slot c) msk (app c) = ok ci' \<and> ctx_inv ci'
    \<and> ci_size ci' = ci_size ci \<and> ci_variables ci' = ci_variables ci \<and> ci_trackbase ci' = ci_trackbase ci
    \<and> (\<forall>k. split_point (ci_database ci') k \<longleftrightarrow> split_point (ci_database ci) k \<or> k = addr_key a)
    \<and> (\<forall>q. get_context ci' q = (if addr_key a \<le> addr_key q \<and> open_until (ci_database ci) (nat (slot c)) msk (addr_key a) (addr_key q)
        then g c (get_context ci q) else get_context ci q))
    \<and> (\<forall>k num. marks (ci_database ci') k num = (if k = addr_key a \<and> num = nat (slot c)
        then marks (ci_database ci) k num OR msk else marks (ci_database ci) k num))"
proof -
  let ?n = "nat (ci_size ci)" and ?p = "addr_key a"
  have inv: "db_inv ?n (ci_database ci)" "0 \<le> ci_size ci" "pm_inv (ci_trackbase ci)" using assms(1) by (auto simp: ctx_inv_def)
  obtain db1 where 1: "split free_array_clone (ci_database ci) ?p = ok (db1, Entry ?p)" "db_inv ?n db1"
    "\<And>k. split_point db1 k \<longleftrightarrow> k = ?p \<or> split_point (ci_database ci) k"
    "\<And>q. fa_array (get_value_at db1 q) = fa_array (get_value_at (ci_database ci) q)"
    "\<And>k. k \<noteq> ?p \<or> split_point (ci_database ci) ?p \<Longrightarrow> bt_get (database db1) k = bt_get (database (ci_database ci)) k"
    "\<And>k num. marks db1 k num = marks (ci_database ci) k num"
    by (rule split_db [OF inv(1), of ?p]) blast
  have p: "split_point db1 ?p" by (simp add: 1(3))
  then obtain fa where fa: "bt_get (database db1) ?p = Some fa" by (auto simp: split_point_def)
  have wf: "wf_array ?n fa" by (rule db_invD(3) [OF 1(2) fa])
  have app: "app c (fa_array fa) = ok (g c (fa_array fa))" "length (g c (fa_array fa)) = ?n"
    using app_ok [OF assms(2)] wf by (simp_all add: wf_array_def)
  define m where "m = (fa_mask fa)[nat (slot c) := fa_mask fa ! nat (slot c) OR msk]"
  define db2 where "db2 = write_place db1 (Entry ?p) \<lparr>fa_array = g c (fa_array fa), fa_mask = m\<rparr>"
  have u: "updated c ?n msk {?p} {?p} db1 db2" unfolding db2_def
    using app(2) wf by (intro updated_one [OF 1(2) fa]) (simp_all add: wf_array_def m_def marked_def)
  obtain ks where ks: "keys_from db1 ?p = ?p # ks" "\<And>fa db2. bt_get (database db1) ?p = Some fa \<Longrightarrow> updated c ?n msk {?p} {?p} db1 db2 \<Longrightarrow>
      \<exists>db'. change_loop ks (slot c) msk (app c) db2 = ok db' \<and> db_inv ?n db' \<and> (\<forall>k. split_point db' k \<longleftrightarrow> split_point db1 k) \<and>
      (\<forall>q. fa_array (get_value_at db' q) =
        (if ?p \<le> q \<and> open_until db1 (nat (slot c)) msk ?p q
         then g c (fa_array (get_value_at db1 q)) else fa_array (get_value_at db1 q))) \<and>
      (\<forall>k num. marks db' k num = (if k = ?p \<and> num = nat (slot c) then marks db1 k num OR msk else marks db1 k num))"
    by (rule change_effect [OF assms(2) 1(2) p, of msk, unfolded open_until_iff]) blast
  obtain db' where db': "change_loop ks (slot c) msk (app c) db2 = ok db'" "db_inv ?n db'" "\<And>k. split_point db' k \<longleftrightarrow> split_point db1 k"
      "\<And>q. fa_array (get_value_at db' q) =
        (if ?p \<le> q \<and> open_until db1 (nat (slot c)) msk ?p q
         then g c (fa_array (get_value_at db1 q)) else fa_array (get_value_at db1 q))"
      "\<And>k num. marks db' k num = (if k = ?p \<and> num = nat (slot c) then marks db1 k num OR msk else marks db1 k num)"
    using ks(2) [OF fa u] by blast
  have "get_region_to_change_point ci a (slot c) msk (app c) = ok (ci\<lparr>ci_database := db'\<rparr>)"
    using 1(1) ks(1) fa app(1) db'(1)
    by (simp add: get_region_to_change_point_def vec_ok [OF assms(2) wf] db2_def m_def)
  moreover have "open_until db1 (nat (slot c)) msk ?p q = open_until (ci_database ci) (nat (slot c)) msk ?p q" for q
    by (rule open_until_cong) (auto intro: 1(5))
  ultimately show ?thesis using inv db'(2)
    by (intro exI [of _ "ci\<lparr>ci_database := db'\<rparr>"])
      (simp add: ctx_inv_def get_context_def db'(3,4,5) 1(3,4,6) disj_commute del: split_paired_All)
qed

end

section \<open>The closures of the sources\<close>

text \<open>\<open>set_context_region\<close> and \<open>set_context_change_point\<close> write masked bits of one word.\<close>

fun word_slot :: "i32 \<times> u32 \<times> u32 \<Rightarrow> i32" where
  "word_slot (num, msk, value) = num"

fun word_app :: "i32 \<times> u32 \<times> u32 \<Rightarrow> u32 list \<Rightarrow> u32 list run" where
  "word_app (num, msk, value) = (\<lambda>ctx. vec_update ctx num (\<lambda>v. (v AND NOT msk) OR value))"

fun word_upd :: "i32 \<times> u32 \<times> u32 \<Rightarrow> u32 list \<Rightarrow> u32 list" where
  "word_upd (num, msk, value) ctx = ctx[nat num := (ctx ! nat num AND NOT msk) OR value]"

fun word_fits :: "i32 \<times> u32 \<times> u32 \<Rightarrow> nat \<Rightarrow> bool" where
  "word_fits (num, msk, value) n \<longleftrightarrow> 0 \<le> num \<and> nat num < n"

interpretation words: region_update word_slot word_app word_upd word_fits
  by unfold_locales (auto simp: vec_update_def)

text \<open>\<open>set_variable\<close> and \<open>set_variable_region\<close> write the bits of a variable.\<close>

fun var_slot :: "context_bit_range \<times> u32 \<Rightarrow> i32" where
  "var_slot (br, value) = cb_word br"

fun var_app :: "context_bit_range \<times> u32 \<Rightarrow> u32 list \<Rightarrow> u32 list run" where
  "var_app (br, value) = bits_set_value br value"

fun var_upd :: "context_bit_range \<times> u32 \<Rightarrow> u32 list \<Rightarrow> u32 list" where
  "var_upd (br, value) ctx = ctx[nat (cb_word br) := (ctx ! nat (cb_word br) AND NOT (u32_shl (cb_mask br) (cb_shift br)))
     OR u32_shl (value AND cb_mask br) (cb_shift br)]"

fun var_fits :: "context_bit_range \<times> u32 \<Rightarrow> nat \<Rightarrow> bool" where
  "var_fits (br, value) n \<longleftrightarrow> 0 \<le> cb_word br \<and> nat (cb_word br) < n"

interpretation vars: region_update var_slot var_app var_upd var_fits
  by unfold_locales (auto simp: vec_update_def bits_set_value_def)

section \<open>An example\<close>

text \<open>A context of two words with two variables, and addresses of two spaces.\<close>

definition example_space :: "i32 \<Rightarrow> addr_space" where
  "example_space i = new_space BaseKind Processor ''ram'' False 2 1 i 0 1 1"

definition example_addr :: "i32 \<Rightarrow> u64 \<Rightarrow> address" where
  "example_addr i off = \<lparr>ad_space = Some (example_space i), ad_offset = off\<rparr>"

definition example_context :: context_internal where
  "example_context = \<lparr>ci_size = 2, ci_variables = [''mode'' \<mapsto> new_bit_range 0 7, ''size'' \<mapsto> new_bit_range 8 15],
     ci_database = new_part_map \<lparr>fa_array = [0, 0], fa_mask = [0, 0]\<rparr>, ci_trackbase = new_part_map []\<rparr>"

lemma example_index [simp]: "space_index (ad_space (example_addr i off)) = Some i" "ad_offset (example_addr i off) = off"
  "\<not> is_invalid (example_addr i off)"
  by (simp_all add: example_addr_def example_space_def space_index_def new_space_def calc_scale_mask_def set_flags_def Let_def is_invalid_def)

lemma example_key [simp]: "addr_key (example_addr i off) = (Some i, off)"
  by (simp add: addr_key_def)

lemma example_inv [simp]: "ctx_inv example_context"
  by (simp add: ctx_inv_def example_context_def db_inv_def pm_inv_def new_part_map_def bt_inv_def wf_array_def bt_get_def)

lemma example_words [simp]: "ci_size example_context = 2" "get_context example_context q = [0, 0]"
  by (simp_all add: example_context_def get_context_def get_value_at_def new_part_map_def bt_upto_def)

text \<open>C39: \<open>set_context_region\<close> changes the context of a region and nothing else. For a word of the context
  and an end after the start (or no end), it never panics, keeps the database well formed, replaces the
  masked bits of that word at every address of the region, and leaves every other address and every other
  word alone.\<close>
theorem set_context_region_effect:
  assumes "ctx_inv ci" "0 \<le> num" "num < ci_size ci" "is_invalid a2 \<or> addr_key a1 < addr_key a2"
  shows "\<exists>ci'. set_context_region ci a1 a2 num msk value = ok ci' \<and> ctx_inv ci' \<and>
    (\<forall>q. get_context ci' q =
      (if addr_key a1 \<le> addr_key q \<and> (is_invalid a2 \<or> addr_key q < addr_key a2)
       then (get_context ci q)[nat num := (get_context ci q ! nat num AND NOT msk) OR value]
       else get_context ci q))"
  using words.region_for_set_effect [of ci "(num, msk, value)" a2 a1 msk] assms
  by (auto simp: set_context_region_def)

theorem set_context_region_effect_witness:
  "\<exists>ci'. set_context_region example_context (example_addr 1 0x100) (example_addr 1 0x200) 1 0xFF 0x12 = ok ci' \<and> ctx_inv ci' \<and>
     get_context ci' (example_addr 1 0x150) = [0, 0x12] \<and> get_context ci' (example_addr 1 0x200) = [0, 0]"
proof -
  obtain ci' where ci': "set_context_region example_context (example_addr 1 0x100) (example_addr 1 0x200) 1 0xFF 0x12 = ok ci'" "ctx_inv ci'"
    "\<forall>q. get_context ci' q = (if addr_key (example_addr 1 0x100) \<le> addr_key q \<and>
        (is_invalid (example_addr 1 0x200) \<or> addr_key q < addr_key (example_addr 1 0x200))
      then (get_context example_context q)[nat 1 := (get_context example_context q ! nat 1 AND NOT 0xFF) OR 0x12]
      else get_context example_context q)"
    using set_context_region_effect [of example_context 1 "example_addr 1 0x200" "example_addr 1 0x100" "0xFF" "0x12"]
    by auto
  have "get_context ci' (example_addr 1 0x150) = [0, 0x12]" "get_context ci' (example_addr 1 0x200) = [0, 0]"
    using ci'(3) by simp_all
  then show ?thesis using ci' by blast
qed

text \<open>\<open>set_context_change_point\<close> changes the context from an address up to the next change point: the
  masked bits are replaced from the address on, up to the first later boundary at which some of the bits
  were set explicitly before, and nowhere else.\<close>
theorem set_context_change_point_effect:
  assumes "ctx_inv ci" "0 \<le> num" "num < ci_size ci"
  shows "\<exists>ci'. set_context_change_point ci a num msk value = ok ci' \<and> ctx_inv ci' \<and>
    (\<forall>q. get_context ci' q =
      (if addr_key a \<le> addr_key q \<and> open_until (ci_database ci) (nat num) msk (addr_key a) (addr_key q)
       then (get_context ci q)[nat num := (get_context ci q ! nat num AND NOT msk) OR value]
       else get_context ci q))"
  using words.change_point_effect [of ci "(num, msk, value)" a msk] assms
  by (auto simp: set_context_change_point_def)

theorem set_context_change_point_effect_witness:
  "\<exists>ci'. set_context_change_point example_context (example_addr 1 0x100) 0 0xFF 0x12 = ok ci' \<and> ctx_inv ci' \<and>
     get_context ci' (example_addr 1 0x150) = [0x12, 0] \<and> get_context ci' (example_addr 1 0xFF) = [0, 0]"
proof -
  have no: "open_until (ci_database example_context) 0 0xFF k q" for k q
    by (simp add: open_until_def example_context_def new_part_map_def bt_get_def)
  obtain ci' where ci': "set_context_change_point example_context (example_addr 1 0x100) 0 0xFF 0x12 = ok ci'" "ctx_inv ci'"
    "\<forall>q. get_context ci' q = (if addr_key (example_addr 1 0x100) \<le> addr_key q \<and>
        open_until (ci_database example_context) (nat 0) 0xFF (addr_key (example_addr 1 0x100)) (addr_key q)
      then (get_context example_context q)[nat 0 := (get_context example_context q ! nat 0 AND NOT 0xFF) OR 0x12]
      else get_context example_context q)"
    using set_context_change_point_effect [of example_context 0 "example_addr 1 0x100" "0xFF" "0x12"] by auto
  have "get_context ci' (example_addr 1 0x150) = [0x12, 0]" "get_context ci' (example_addr 1 0xFF) = [0, 0]"
    using ci'(3) by (simp_all add: no)
  then show ?thesis using ci' by blast
qed

section \<open>Histories of writes\<close>

text \<open>
  What a client sees of a database, as functions of the address: the words of the context, the boundaries, and at each
  boundary the bits that some write set there. A write at a change point runs from its address up to the next
  boundary at which an earlier write set one of its bits. A write to a region fills the region and sets its bits at the
  start of the region and at every boundary inside it.
\<close>

datatype context_write =
    ChangePoint address i32 u32 u32
  | Region address address i32 u32 u32

fun write_context :: "context_write \<Rightarrow> context_internal \<Rightarrow> context_internal run" where
  "write_context (ChangePoint a num msk value) ci = set_context_change_point ci a num msk value"
| "write_context (Region a1 a2 num msk value) ci = set_context_region ci a1 a2 num msk value"

fun write_fits :: "i32 \<Rightarrow> context_write \<Rightarrow> bool" where
  "write_fits sz (ChangePoint a num msk value) \<longleftrightarrow> 0 \<le> num \<and> num < sz"
| "write_fits sz (Region a1 a2 num msk value) \<longleftrightarrow> 0 \<le> num \<and> num < sz \<and> (is_invalid a2 \<or> addr_key a1 < addr_key a2)"

record context_view =
  vw_words :: "addr_key \<Rightarrow> u32 list"
  vw_cuts :: "addr_key set"
  vw_set :: "addr_key \<Rightarrow> nat \<Rightarrow> u32"

definition set_bits :: "i32 \<Rightarrow> u32 \<Rightarrow> u32 \<Rightarrow> u32 list \<Rightarrow> u32 list" where
  "set_bits num msk value ctx = ctx[nat num := (ctx ! nat num AND NOT msk) OR value]"

fun view_write :: "context_write \<Rightarrow> context_view \<Rightarrow> context_view" where
  "view_write (ChangePoint a num msk value) V = (let p = addr_key a in
     \<lparr>vw_words = \<lambda>q. if p \<le> q \<and> (\<forall>k \<in> vw_cuts V. p < k \<and> k \<le> q \<longrightarrow> vw_set V k (nat num) AND msk = 0)
        then set_bits num msk value (vw_words V q) else vw_words V q,
      vw_cuts = insert p (vw_cuts V),
      vw_set = \<lambda>k n. if k = p \<and> n = nat num then vw_set V k n OR msk else vw_set V k n\<rparr>)"
| "view_write (Region a1 a2 num msk value) V = (let inside = \<lambda>q. addr_key a1 \<le> q \<and> (is_invalid a2 \<or> q < addr_key a2) in
     \<lparr>vw_words = \<lambda>q. if inside q then set_bits num msk value (vw_words V q) else vw_words V q,
      vw_cuts = insert (addr_key a1) (if is_invalid a2 then vw_cuts V else insert (addr_key a2) (vw_cuts V)),
      vw_set = \<lambda>k n. if k \<in> insert (addr_key a1) (vw_cuts V) \<and> inside k \<and> n = nat num then vw_set V k n OR msk else vw_set V k n\<rparr>)"

definition views :: "context_internal \<Rightarrow> context_view \<Rightarrow> bool" where
  "views ci V \<longleftrightarrow> (\<forall>q. get_context ci q = vw_words V (addr_key q)) \<and> (\<forall>k. split_point (ci_database ci) k \<longleftrightarrow> k \<in> vw_cuts V) \<and>
     (\<forall>k num. marks (ci_database ci) k num = vw_set V k num)"

lemma word_upd_bits: "word_upd (num, msk, v) = set_bits num msk v"
  by (simp add: fun_eq_iff set_bits_def)

lemma open_until_marks:
  assumes "db_inv n db" "num < n"
  shows "open_until db num msk p q \<longleftrightarrow> (\<forall>k. split_point db k \<longrightarrow> p < k \<and> k \<le> q \<longrightarrow> marks db k num AND msk = 0)"
proof -
  have m: "marks db k num = fa_mask fa ! num" if "bt_get (database db) k = Some fa" for k fa
    using db_invD(3) [OF assms(1) that] assms(2) that by (simp add: marks_def wf_array_def)
  then show ?thesis unfolding open_until_def split_point_def by (metis not_None_eq)
qed

lemma write_views:
  assumes "ctx_inv ci" "write_fits (ci_size ci) w" "views ci V"
  shows "\<exists>ci'. write_context w ci = ok ci' \<and> ctx_inv ci' \<and> ci_size ci' = ci_size ci \<and> views ci' (view_write w V)"
proof (cases w)
  case (ChangePoint a num msk v)
  have f: "word_fits (num, msk, v) (nat (ci_size ci))" using assms(2) ChangePoint by auto
  have inv: "db_inv (nat (ci_size ci)) (ci_database ci)" using assms(1) by (simp add: ctx_inv_def)
  obtain ci' where ci': "write_context w ci = ok ci'" "ctx_inv ci'" "ci_size ci' = ci_size ci"
    "\<forall>k. split_point (ci_database ci') k \<longleftrightarrow> split_point (ci_database ci) k \<or> k = addr_key a"
    "\<forall>q. get_context ci' q = (if addr_key a \<le> addr_key q \<and> open_until (ci_database ci) (nat num) msk (addr_key a) (addr_key q)
        then set_bits num msk v (get_context ci q) else get_context ci q)"
    "\<forall>k n. marks (ci_database ci') k n = (if k = addr_key a \<and> n = nat num then marks (ci_database ci) k n OR msk
        else marks (ci_database ci) k n)"
    using words.change_point_effect [OF assms(1) f, of a msk, unfolded word_upd_bits] ChangePoint
    by (auto simp: set_context_change_point_def simp del: split_paired_All split_paired_Ex)
  moreover have lt: "nat num < nat (ci_size ci)" using assms(2) ChangePoint by auto
  ultimately show ?thesis using assms(3) unfolding open_until_marks [OF inv lt]
    by (intro exI [of _ ci']) (auto simp: views_def ChangePoint Let_def simp del: split_paired_All split_paired_Ex)
next
  case (Region a1 a2 num msk v)
  have f: "word_fits (num, msk, v) (nat (ci_size ci))" "is_invalid a2 \<or> addr_key a1 < addr_key a2" using assms(2) Region by auto
  obtain ci' where "write_context w ci = ok ci'" "ctx_inv ci'" "ci_size ci' = ci_size ci"
    "\<forall>k. split_point (ci_database ci') k \<longleftrightarrow> split_point (ci_database ci) k \<or> k = addr_key a1 \<or> \<not> is_invalid a2 \<and> k = addr_key a2"
    "\<forall>q. get_context ci' q = (if addr_key a1 \<le> addr_key q \<and> (is_invalid a2 \<or> addr_key q < addr_key a2)
        then set_bits num msk v (get_context ci q) else get_context ci q)"
    "\<forall>k n. marks (ci_database ci') k n = (if (split_point (ci_database ci) k \<or> k = addr_key a1) \<and> addr_key a1 \<le> k \<and>
          (is_invalid a2 \<or> k < addr_key a2) \<and> n = nat num
        then marks (ci_database ci) k n OR msk else marks (ci_database ci) k n)"
    using words.region_for_set_effect [OF assms(1) f(1,2), of msk, unfolded word_upd_bits] Region
    by (auto simp: set_context_region_def simp del: split_paired_All split_paired_Ex)
  then show ?thesis using assms(3)
    by (intro exI [of _ ci']) (auto simp: views_def Region Let_def simp del: split_paired_All split_paired_Ex)
qed

text \<open>C20: the database refines the history of its writes. For any sequence of \<open>set_context_change_point\<close> and
  \<open>set_context_region\<close> on words of the context (regions with an end after the start, or with no end), no call
  panics, the database stays well formed, and the context of every address is the one that the
  writes give when each is applied to the plain functions of \<open>context_view\<close>: a write at a change point stops at
  the next boundary where an earlier write of the sequence set one of its bits, and at no other.\<close>

theorem context_history_refines:
  assumes "ctx_inv ci" "list_all (write_fits (ci_size ci)) ws" "views ci V"
  shows "\<exists>ci'. run_fold write_context ws ci = ok ci' \<and> ctx_inv ci' \<and> views ci' (fold view_write ws V) \<and>
    (\<forall>q. get_context ci' q = vw_words (fold view_write ws V) (addr_key q))"
proof -
  have "\<exists>ci'. run_fold write_context ws ci = ok ci' \<and> ctx_inv ci' \<and> views ci' (fold view_write ws V)"
    using assms
  proof (induction ws arbitrary: ci V)
    case (Cons w ws)
    then obtain ci1 where "write_context w ci = ok ci1" "ctx_inv ci1" "ci_size ci1 = ci_size ci" "views ci1 (view_write w V)"
      using write_views [of ci w V] by auto
    then show ?case using Cons.IH [of ci1 "view_write w V"] Cons.prems(2) by auto
  qed simp
  then show ?thesis unfolding views_def by blast
qed

definition example_view :: context_view where
  "example_view = \<lparr>vw_words = \<lambda>_. [0, 0], vw_cuts = {}, vw_set = \<lambda>_ _. 0\<rparr>"

lemma example_views: "views example_context example_view"
  by (simp add: views_def example_view_def split_point_def marks_def) (simp add: example_context_def new_part_map_def bt_get_def)

theorem context_history_refines_witness:
  "\<exists>ci'. run_fold write_context [Region (example_addr 1 0x200) (example_addr 1 0x300) 0 0xF 5, ChangePoint (example_addr 1 0x100) 0 0xFF 0x12]
      example_context = ok ci' \<and>
    get_context ci' (example_addr 1 0x150) = [0x12, 0] \<and> get_context ci' (example_addr 1 0x250) = [5, 0] \<and>
    get_context ci' (example_addr 1 0x350) = [0, 0]"
proof -
  let ?ws = "[Region (example_addr 1 0x200) (example_addr 1 0x300) 0 0xF 5, ChangePoint (example_addr 1 0x100) 0 0xFF 0x12]"
  obtain ci' where ci': "run_fold write_context ?ws example_context = ok ci'"
    "\<And>q. get_context ci' q = vw_words (fold view_write ?ws example_view) (addr_key q)"
    using context_history_refines [OF example_inv _ example_views, of ?ws] by auto
  have "get_context ci' (example_addr 1 0x150) = [0x12, 0]" "get_context ci' (example_addr 1 0x250) = [5, 0]"
    "get_context ci' (example_addr 1 0x350) = [0, 0]"
    unfolding ci'(2) by (simp_all add: Let_def example_view_def set_bits_def)
  then show ?thesis using ci'(1) by blast
qed

end
