(* ===== verification/Context_Cache.thy ===== *)
theory Context_Cache
  imports Context_Region
begin

text \<open>
  Context variables read back what was written, and the cache of src/src/globalcontext.rs returns the
  context of the database: its window names the part that holds every address of the window.
\<close>

section \<open>Variables\<close>

definition valid_bits :: "i32 \<Rightarrow> i32 \<Rightarrow> bool" where
  "valid_bits sbit ebit \<longleftrightarrow> 0 \<le> sbit \<and> sbit \<le> ebit \<and> sbit div 32 = ebit div 32"

lemma valid_bitsE:
  assumes "valid_bits s e"
  obtains q a b where "s = 32 * q + a" "e = 32 * q + b" "0 \<le> q" "0 \<le> a" "a \<le> b" "b < 32"
    "s div 32 = q" "e div 32 = q" "s mod 32 = a" "e mod 32 = b"
proof (rule that [of "s div 32" "s mod 32" "e mod 32"])
  have e: "e div 32 = s div 32" using assms by (simp add: valid_bits_def)
  then show "e = 32 * (s div 32) + e mod 32" by (metis mult_div_mod_eq)
  then show "s mod 32 \<le> e mod 32" using assms mult_div_mod_eq [of 32 s] unfolding valid_bits_def by linarith
  show "0 \<le> s div 32" using assms by (simp add: valid_bits_def pos_imp_zdiv_nonneg_iff)
  show "s = 32 * (s div 32) + s mod 32" by simp
qed (use assms in \<open>auto simp: valid_bits_def\<close>)

text \<open>The first bit of a word that a variable occupies, from the least significant, and the number of bits.\<close>

definition low_bit :: "i32 \<Rightarrow> nat" where
  "low_bit e = nat (31 - e mod 32)"

definition bit_width :: "i32 \<Rightarrow> i32 \<Rightarrow> nat" where
  "bit_width s e = nat (e - s + 1)"

lemma low_width: "valid_bits s e \<Longrightarrow> low_bit e + bit_width s e = nat (32 - s mod 32) \<and> low_bit e + bit_width s e \<le> 32"
  by (erule valid_bitsE) (simp add: low_bit_def bit_width_def nat_add_distrib [symmetric])

lemma new_bit_range_valid:
  assumes "valid_bits s e"
  shows "cb_word (new_bit_range s e) = s div 32" "cb_mask (new_bit_range s e) = mask (bit_width s e)"
    "u32_shl x (cb_shift (new_bit_range s e)) = push_bit (low_bit e) x"
    "u32_shr x (cb_shift (new_bit_range s e)) = drop_bit (low_bit e) x"
proof -
  from assms obtain q a b where *: "s = 32 * q + a" "e = 32 * q + b" "0 \<le> q" "0 \<le> a" "a \<le> b" "b < 32"
    "s div 32 = q" "e div 32 = q" "s mod 32 = a" "e mod 32 = b" by (rule valid_bitsE)
  have "s sdiv 32 = s div 32" using assms by (cases "s = 0") (simp_all add: valid_bits_def signed_divide_int_def)
  then have w: "s sdiv 32 = q" using *(7) by simp
  show "cb_word (new_bit_range s e) = s div 32" by (simp add: new_bit_range_def Let_def w *(7))
  have r: "s - q * 32 = a" "e - q * 32 = b" using *(1,2) by simp_all
  then have sh: "cb_shift (new_bit_range s e) = 31 - b" by (simp add: new_bit_range_def Let_def w)
  then show "u32_shl x (cb_shift (new_bit_range s e)) = push_bit (low_bit e) x"
    "u32_shr x (cb_shift (new_bit_range s e)) = drop_bit (low_bit e) x"
    using * by (simp_all add: u32_shl_def u32_shr_def low_bit_def)
  have "drop_bit (nat (a + 31 - b)) (NOT 0 :: u32) = mask (nat (b - a + 1))"
    by (rule bit_word_eqI) (use * in \<open>auto simp: bit_drop_bit_eq bit_mask_iff\<close>)
  moreover have "(a + (32 - b - 1)) mod 32 = a + 31 - b" using * by simp
  moreover have "nat (b - a + 1) = bit_width s e" using * by (simp add: bit_width_def)
  ultimately show "cb_mask (new_bit_range s e) = mask (bit_width s e)"
    unfolding new_bit_range_def Let_def w u32_shr_def r by simp
qed

definition var_bits :: "i32 \<Rightarrow> i32 \<Rightarrow> nat set" where
  "var_bits s e = {low_bit e ..< low_bit e + bit_width s e}"

lemma bit_set_word:
  fixes old v :: u32
  assumes "valid_bits s e" "br = new_bit_range s e"
  shows "bit ((old AND NOT (u32_shl (cb_mask br) (cb_shift br))) OR u32_shl (v AND cb_mask br) (cb_shift br)) i \<longleftrightarrow>
    (if i \<in> var_bits s e then bit v (i - low_bit e) else bit old i)"
proof (cases "i < 32")
  case True
  then show ?thesis unfolding assms(2) new_bit_range_valid [OF assms(1)]
    by (auto simp: var_bits_def bit_or_iff bit_and_iff bit_not_iff bit_push_bit_iff bit_mask_iff)
next
  case False
  then have "\<not> bit w i" for w :: u32 using bit_imp_le_length [of w i] by auto
  moreover have "i \<notin> var_bits s e" using False low_width [OF assms(1)] by (simp add: var_bits_def)
  ultimately show ?thesis by simp
qed

lemma bit_get_word:
  fixes w :: u32
  assumes "valid_bits s e" "br = new_bit_range s e"
  shows "bit (u32_shr w (cb_shift br) AND cb_mask br) i \<longleftrightarrow> i < bit_width s e \<and> bit w (low_bit e + i)"
  using low_width [OF assms(1)] unfolding assms(2) new_bit_range_valid [OF assms(1)]
  by (auto simp: bit_and_iff bit_drop_bit_eq bit_mask_iff)

text \<open>Two variables are apart when they use different words or different bits of one word.\<close>

definition apart :: "i32 \<Rightarrow> i32 \<Rightarrow> i32 \<Rightarrow> i32 \<Rightarrow> bool" where
  "apart s e s' e' \<longleftrightarrow> e < s' \<or> e' < s"

lemma var_bits_apart:
  assumes "valid_bits s e" "valid_bits s' e'" "apart s e s' e'" "s div 32 = s' div 32"
  shows "var_bits s e \<inter> var_bits s' e' = {}"
proof -
  from assms(1) obtain q a b where 1: "s = 32 * q + a" "e = 32 * q + b" "0 \<le> a" "a \<le> b" "b < 32"
    "s div 32 = q" "s mod 32 = a" "e mod 32 = b" by (rule valid_bitsE)
  from assms(2) obtain q' a' b' where 2: "s' = 32 * q' + a'" "e' = 32 * q' + b'" "0 \<le> a'" "a' \<le> b'" "b' < 32"
    "s' div 32 = q'" "s' mod 32 = a'" "e' mod 32 = b'" by (rule valid_bitsE)
  have "b < a' \<or> b' < a" using assms(3,4) 1 2 by (auto simp: apart_def)
  then show ?thesis using low_width [OF assms(1)] low_width [OF assms(2)] 1 2 by (auto simp: var_bits_def low_bit_def)
qed

lemma var_roundtrip:
  assumes "valid_bits s e" "br = new_bit_range s e" "0 \<le> cb_word br" "nat (cb_word br) < length ctx"
  shows "bits_get_value br (var_upd (br, v) ctx) = ok (v AND cb_mask br)"
proof -
  let ?w = "(ctx ! nat (cb_word br) AND NOT (u32_shl (cb_mask br) (cb_shift br))) OR u32_shl (v AND cb_mask br) (cb_shift br)"
  have "u32_shr ?w (cb_shift br) AND cb_mask br = v AND cb_mask br"
  proof (rule bit_word_eqI)
    fix i
    show "bit (u32_shr ?w (cb_shift br) AND cb_mask br) i = bit (v AND cb_mask br) i"
      unfolding bit_get_word [OF assms(1,2)] bit_set_word [OF assms(1,2)]
      using low_width [OF assms(1)]
      by (auto simp: var_bits_def assms(2) new_bit_range_valid(2) [OF assms(1)] bit_and_iff bit_mask_iff)
  qed
  then show ?thesis using assms by (simp add: bits_get_value_def vec_get_def)
qed

lemma var_other:
  assumes "valid_bits s e" "br = new_bit_range s e" "valid_bits s' e'" "br' = new_bit_range s' e'" "apart s e s' e'"
    and "0 \<le> cb_word br" "nat (cb_word br) < length ctx"
  shows "bits_get_value br' (var_upd (br, v) ctx) = bits_get_value br' ctx"
proof (cases "cb_word br = cb_word br'")
  case True
  let ?w = "ctx ! nat (cb_word br)"
  let ?w' = "(?w AND NOT (u32_shl (cb_mask br) (cb_shift br))) OR u32_shl (v AND cb_mask br) (cb_shift br)"
  have "s div 32 = s' div 32" using True assms by (simp add: new_bit_range_valid)
  then have d: "var_bits s e \<inter> var_bits s' e' = {}" using assms by (intro var_bits_apart)
  have "u32_shr ?w' (cb_shift br') AND cb_mask br' = u32_shr ?w (cb_shift br') AND cb_mask br'"
  proof (rule bit_word_eqI)
    fix i
    have "low_bit e' + i \<notin> var_bits s e" if "i < bit_width s' e'" using that d by (auto simp: var_bits_def)
    then show "bit (u32_shr ?w' (cb_shift br') AND cb_mask br') i = bit (u32_shr ?w (cb_shift br') AND cb_mask br') i"
      unfolding bit_get_word [OF assms(3,4)] bit_set_word [OF assms(1,2)] by auto
  qed
  then show ?thesis using True assms(6,7) by (simp add: bits_get_value_def vec_get_def)
next
  case False
  then show ?thesis using assms(6) by (auto simp: bits_get_value_def vec_get_def)
qed

text \<open>Registration, before any region is set, keeps the invariant, makes room for the variable and pads every context.\<close>

lemma new_context_inv: "ctx_inv new_context"
  by (simp add: ctx_inv_def new_context_def db_inv_def pm_inv_def new_part_map_def bt_inv_def wf_array_def bt_get_def)

lemma register_variable_inv:
  assumes "ctx_inv ci" "part_empty (ci_database ci)" "valid_bits s e"
  obtains ci' where "register_variable ci nm s e = ok ci'" "ctx_inv ci'" "s div 32 < ci_size ci'"
    "ci_variables ci' = (ci_variables ci)(nm \<mapsto> new_bit_range s e)"
    "\<And>q. get_context ci' q = get_context ci q @ replicate (nat (ci_size ci' - ci_size ci)) 0"
proof -
  from assms(3) have sd: "s sdiv 32 = s div 32" "e sdiv 32 = s div 32" "0 \<le> s div 32"
    by (cases "s = 0"; cases "e = 0"; auto simp: valid_bits_def signed_divide_int_def)+
  let ?n = "nat (ci_size ci)" and ?fa = "defaultvalue (ci_database ci)"
  have inv: "0 \<le> ci_size ci" "wf_array ?n ?fa" "pm_inv (ci_trackbase ci)" and db: "database (ci_database ci) = []"
    using assms(1,2) by (auto simp: ctx_inv_def db_inv_def part_empty_def)
  show ?thesis
  proof (cases "s div 32 + 1 > ci_size ci")
    case True
    let ?fa' = "\<lparr>fa_array = fa_array ?fa @ replicate (nat (s div 32 + 1) - ?n) 0, fa_mask = fa_mask ?fa @ replicate (nat (s div 32 + 1) - ?n) 0\<rparr>"
    let ?ci = "ci\<lparr>ci_size := s div 32 + 1, ci_database := (ci_database ci)\<lparr>defaultvalue := ?fa'\<rparr>,
      ci_variables := (ci_variables ci)(nm \<mapsto> new_bit_range s e)\<rparr>"
    have m: "min (nat (s div 32 + 1)) ?n = ?n" using True by simp
    have "free_array_reset ?fa (s div 32 + 1) = ok ?fa'"
      using inv(2) sd(3) by (simp add: free_array_reset_def Let_def wf_array_def m)
    then have "register_variable ci nm s e = ok ?ci"
      using assms(2) True sd by (simp add: register_variable_def Let_def write_place_def)
    moreover have "ctx_inv ?ci" using inv sd(3) True db by (auto simp: ctx_inv_def db_inv_def pm_inv_def wf_array_def bt_get_def)
    ultimately show ?thesis using True inv(1) sd(3) db
      by (intro that [of ?ci]) (simp_all add: get_context_def get_value_at_def bt_upto_def nat_diff_distrib)
  next
    case False
    let ?ci = "ci\<lparr>ci_variables := (ci_variables ci)(nm \<mapsto> new_bit_range s e)\<rparr>"
    have "register_variable ci nm s e = ok ?ci" using assms(2) False sd by (simp add: register_variable_def Let_def)
    then show ?thesis using False assms(1) by (intro that [of ?ci]) (auto simp: ctx_inv_def get_context_def)
  qed
qed

text \<open>C23: A context variable set over a region reads back there, and only there. After
  \<open>set_variable_region\<close> the variable has the value, truncated to its bits, at every address of the region
  and its old value elsewhere; a variable with other bits has its old value everywhere.\<close>
theorem set_variable_region_reads:
  assumes "ctx_inv ci" "valid_bits s e" "ci_variables ci nm = Some (new_bit_range s e)" "s div 32 < ci_size ci"
    and "valid_bits s' e'" "ci_variables ci nm' = Some (new_bit_range s' e')" "apart s e s' e'"
    and "is_invalid a2 \<or> addr_key a1 < addr_key a2"
  shows "\<exists>ci'. set_variable_region ci nm a1 a2 v = ok ci' \<and> ctx_inv ci' \<and>
    (\<forall>q. get_variable_value ci' nm q =
      (if addr_key a1 \<le> addr_key q \<and> (is_invalid a2 \<or> addr_key q < addr_key a2) then ok (v AND mask (bit_width s e))
       else get_variable_value ci nm q)) \<and>
    (\<forall>q. get_variable_value ci' nm' q = get_variable_value ci nm' q)"
proof -
  let ?br = "new_bit_range s e"
  have w: "cb_word ?br = s div 32" "0 \<le> s div 32" using assms(2) by (auto simp: new_bit_range_valid elim: valid_bitsE)
  then have fits: "var_fits (?br, v) (nat (ci_size ci))" using assms(4) by simp
  obtain ci' where ci': "get_region_for_set ci a1 a2 (var_slot (?br, v)) (u32_shl (cb_mask ?br) (cb_shift ?br)) (var_app (?br, v)) = ok ci'"
    "ctx_inv ci'" "ci_variables ci' = ci_variables ci"
    "\<And>q. get_context ci' q = (if addr_key a1 \<le> addr_key q \<and> (is_invalid a2 \<or> addr_key q < addr_key a2)
        then var_upd (?br, v) (get_context ci q) else get_context ci q)"
    using vars.region_for_set_effect [OF assms(1) fits assms(8), of "u32_shl (cb_mask ?br) (cb_shift ?br)"] by blast
  have len: "length (get_context ci q) = nat (ci_size ci)" for q
    using wf_at [of "nat (ci_size ci)" "ci_database ci"] assms(1) by (simp add: get_context_def ctx_inv_def wf_array_def)
  have "nat (cb_word ?br) < length (get_context ci q)" for q using w assms(4) by (simp add: len)
  note rt = var_roundtrip [OF assms(2) refl _ this] var_other [OF assms(2) refl assms(5) refl assms(7) _ this]
  have "set_variable_region ci nm a1 a2 v = ok ci'" using ci'(1) assms(3) by (simp add: set_variable_region_def get_variable_def)
  then show ?thesis using ci'(2,3,4) assms(3,6) rt w
    by (intro exI [of _ ci']) (auto simp: get_variable_value_def get_variable_def new_bit_range_valid(2) [OF assms(2)])
qed

theorem set_variable_region_reads_witness:
  "\<exists>ci'. set_variable_region example_context ''mode'' (example_addr 1 0x100) (example_addr 1 0x200) 0x112 = ok ci' \<and>
     get_variable_value ci' ''mode'' (example_addr 1 0x100) = ok 0x12 \<and> get_variable_value ci' ''mode'' (example_addr 1 0x200) = ok 0 \<and>
     get_variable_value ci' ''size'' (example_addr 1 0x100) = ok 0"
proof -
  have old: "get_variable_value example_context nm q = ok 0" if "nm = ''mode'' \<or> nm = ''size''" for nm q
    using that by (auto simp: get_variable_value_def get_variable_def bits_get_value_def vec_get_def u32_shr_def)
      (auto simp: example_context_def new_bit_range_valid valid_bits_def)
  have vars: "ci_variables example_context ''mode'' = Some (new_bit_range 0 7)" "ci_variables example_context ''size'' = Some (new_bit_range 8 15)"
    by (simp_all add: example_context_def)
  obtain ci' where ci': "set_variable_region example_context ''mode'' (example_addr 1 0x100) (example_addr 1 0x200) 0x112 = ok ci'"
    "\<forall>q. get_variable_value ci' ''mode'' q = (if addr_key (example_addr 1 0x100) \<le> addr_key q \<and>
        (is_invalid (example_addr 1 0x200) \<or> addr_key q < addr_key (example_addr 1 0x200))
      then ok (0x112 AND mask (bit_width 0 7)) else get_variable_value example_context ''mode'' q)"
    "\<forall>q. get_variable_value ci' ''size'' q = get_variable_value example_context ''size'' q"
    using set_variable_region_reads [OF example_inv, of 0 7 "''mode''" 8 15 "''size''" "example_addr 1 0x200" "example_addr 1 0x100" "0x112"] vars
    by (auto simp: valid_bits_def apart_def)
  then show ?thesis by (intro exI [of _ ci']) (simp add: old bit_width_def mask_eq_decr_exp)
qed

section \<open>The window\<close>

text \<open>
  A window is right when every address of its space between its limits lies in the part that starts at its
  key. This depends on the split points of the database only.
\<close>

definition window_ok :: "context_internal \<Rightarrow> cache_window \<Rightarrow> bool" where
  "window_ok ci w \<longleftrightarrow> (\<forall>off. cw_first w \<le> off \<longrightarrow> off \<le> cw_last w \<longrightarrow>
     last_at_or_before (ci_database ci) (Some (cw_space_index w), off) = cw_key w)"

lemma key_less: "(Some i, x) < (Some j, y) \<longleftrightarrow> i < j \<or> i = j \<and> x < (y :: u64)" for i j :: int
  by (auto simp: less_prod_def')

lemma key_less_eq: "(Some i, x) \<le> (Some j, y) \<longleftrightarrow> i < j \<or> i = j \<and> x \<le> (y :: u64)" for i j :: int
  by (auto simp: less_eq_prod_def)

lemma bounds_facts:
  assumes "pm_inv db"
  shows "pb_before (snd (part_bounds_of db p)) = last_at_or_before db p"
    "pb_after (snd (part_bounds_of db p)) = map_option fst (bt_first_gt (database db) p)"
    "pb_valid (snd (part_bounds_of db p)) =
       (if last_at_or_before db p = None then 1 else 0) + (if pb_after (snd (part_bounds_of db p)) = None then 2 else 0)"
proof -
  obtain v b where vb: "part_bounds_of db p = (v, b)" by (cases "part_bounds_of db p")
  show before: "pb_before (snd (part_bounds_of db p)) = last_at_or_before db p"
    by (auto simp: part_bounds_of_def Let_def last_at_or_before_def bt_upto_def split: option.splits)
  show "pb_after (snd (part_bounds_of db p)) = map_option fst (bt_first_gt (database db) p)"
    by (auto simp: part_bounds_of_def Let_def bt_first_gt_def bt_above_def split: option.splits)
  show "pb_valid (snd (part_bounds_of db p)) =
       (if last_at_or_before db p = None then 1 else 0) + (if pb_after (snd (part_bounds_of db p)) = None then 2 else 0)"
    using part_bounds_valid [OF assms vb] before vb by simp
qed

lemma after_le:
  assumes "pm_inv pm" "split_point pm k" "p < k"
  obtains a v where "bt_first_gt (database pm) p = Some (a, v)" "a \<le> k"
proof -
  have inv: "bt_inv (database pm)" using assms(1) by (simp add: pm_inv_def)
  have "bt_first_gt (database pm) p \<noteq> None" using assms(2,3) bt.first_gt_None [OF inv] by (auto simp: split_point_def)
  then obtain a v where av: "bt_first_gt (database pm) p = Some (a, v)" by fastforce
  then have "\<not> k < a" using assms(2,3) bt.first_gt_Some [OF inv, of p a v] by (auto simp: split_point_def)
  then show ?thesis using av by (intro that [of a v]) auto
qed

lemma after_gt: "pm_inv pm \<Longrightarrow> bt_first_gt (database pm) p = Some (c, v) \<Longrightarrow> p < c"
  using bt.first_gt_Some [of "database pm" p c v] by (simp add: pm_inv_def)

lemma same_part:
  assumes "pm_inv pm" "\<And>j. last_at_or_before pm p = Some j \<Longrightarrow> j \<le> q"
    and "\<And>a v. bt_first_gt (database pm) p = Some (a, v) \<Longrightarrow> q < a"
  shows "last_at_or_before pm q = last_at_or_before pm p"
proof -
  have no: "k \<le> p" if "split_point pm k" "k \<le> q" for k
    using after_le [OF assms(1) that(1)] assms(3) that(2) by (metis leD le_less_trans not_le)
  show ?thesis
  proof (cases "last_at_or_before pm p")
    case None
    then have "last_at_or_before pm q = None" using no by (auto simp: part_key_None [OF assms(1)])
    then show ?thesis using None by simp
  next
    case (Some j)
    then have "last_at_or_before pm q = Some j"
      using assms(2) no unfolding part_key_iff [OF assms(1)] in_part_def by blast
    then show ?thesis using Some by simp
  qed
qed

lemma part_key_stable:
  assumes "pm_inv pm" "pm_inv pm'" "\<And>k. split_point pm' k \<longleftrightarrow> split_point pm k \<or> k \<in> P"
    and "\<And>k. k \<in> P \<Longrightarrow> k \<le> q \<Longrightarrow> \<exists>j. last_at_or_before pm q = Some j \<and> k \<le> j"
  shows "last_at_or_before pm' q = last_at_or_before pm q"
proof (cases "last_at_or_before pm q")
  case None
  then have "\<forall>k\<le>q. \<not> split_point pm' k" using assms(3,4) part_key_None [OF assms(1), of q] by auto
  then show ?thesis using None by (simp add: part_key_None [OF assms(2)])
next
  case (Some j)
  have "last_at_or_before pm' q = Some j" unfolding part_key_iff [OF assms(2)] in_part_def
  proof (intro conjI allI impI notI)
    fix k assume "j < k" "k \<le> q" "split_point pm' k"
    then show False using Some assms(3,4) part_key_iff [OF assms(1), of q j] unfolding in_part_def by force
  qed (use Some assms(3) part_key_iff [OF assms(1), of q j] in \<open>simp_all add: in_part_def\<close>)
  then show ?thesis using Some by simp
qed

text \<open>The bounds of an address and the window made from them.\<close>

lemma bounds_window:
  assumes "ctx_inv ci" "space_index (ad_space a) = Some i" "b = get_context_bounds ci a"
  shows "cx_key b = last_at_or_before (ci_database ci) (addr_key a)"
    "cx_first b = 0 \<or> cx_key b = Some (Some i, cx_first b)"
    "window_ok ci \<lparr>cw_space_index = i, cw_first = cx_first b, cw_last = cx_last b, cw_key = cx_key b\<rparr>"
proof -
  let ?db = "ci_database ci" and ?p = "(Some i, ad_offset a)"
  have p: "addr_key a = ?p" using assms(2) by (simp add: addr_key_def)
  have pm: "pm_inv ?db" using assms(1) by (auto simp: ctx_inv_def db_inv_def)
  let ?bd = "snd (part_bounds_of ?db ?p)"
  note bf = bounds_facts [OF pm, of ?p]
  have odd: "pb_valid ?bd mod 2 \<noteq> 0 \<longleftrightarrow> last_at_or_before ?db ?p = None"
    "pb_valid ?bd div 2 mod 2 \<noteq> 0 \<longleftrightarrow> pb_after ?bd = None" unfolding bf(3) by auto
  show key: "cx_key b = last_at_or_before ?db (addr_key a)"
    unfolding assms(3) get_context_bounds_def Let_def p by (simp only: context_bounds.simps odd bf(1)) simp
  have first: "cx_first b = (case last_at_or_before ?db ?p of Some (s, off) \<Rightarrow> if s = Some i then off else 0 | None \<Rightarrow> 0)"
    unfolding assms(3) get_context_bounds_def Let_def p context_bounds.simps odd bf(1) assms(2) by (auto simp: key_space_def split: option.splits)
  show f0: "cx_first b = 0 \<or> cx_key b = Some (Some i, cx_first b)"
    unfolding key p first by (auto split: option.splits)
  have gt: "?p < c" if "bt_first_gt (database ?db) ?p = Some (c, v)" for c v
    by (rule after_gt [OF pm that])
  have lst: "cx_last b < y" if "bt_first_gt (database ?db) ?p = Some ((Some i, y), v)" for y v
  proof -
    have "y \<noteq> 0" using gt [OF that] by (auto simp: key_less)
    moreover have "cx_last b = y - 1"
      unfolding assms(3) get_context_bounds_def Let_def p context_bounds.simps odd bf(2) assms(2) that by (simp add: key_space_def)
    ultimately show ?thesis by (simp add: word_less_nat_alt measure_unat)
  qed
  show "window_ok ci \<lparr>cw_space_index = i, cw_first = cx_first b, cw_last = cx_last b, cw_key = cx_key b\<rparr>"
    unfolding window_ok_def cache_window.simps key p
  proof (intro allI impI)
    fix off assume off: "cx_first b \<le> off" "off \<le> cx_last b"
    show "last_at_or_before ?db (Some i, off) = last_at_or_before ?db ?p"
    proof (rule same_part [OF pm])
      fix j assume j: "last_at_or_before ?db ?p = Some j"
      then have "j \<le> ?p" by (simp add: part_key_iff [OF pm] in_part_def)
      then show "j \<le> (Some i, off)" using j first off(1) by (cases j) (auto simp: less_eq_prod_def)
    next
      fix c v assume c: "bt_first_gt (database ?db) ?p = Some (c, v)"
      then have "?p < c" by (rule gt)
      then show "(Some i, off) < c" using lst c off(2) by (cases c) (auto simp: less_prod_def')
    qed
  qed
qed

section \<open>Cached and direct access\<close>

definition cache_inv :: "i32 \<Rightarrow> context_internal \<Rightarrow> context_cache \<Rightarrow> bool" where
  "cache_inv i ci cc = (case cc_window cc of None \<Rightarrow> True | Some w \<Rightarrow>
     cw_space_index w = i \<and> window_ok ci w \<and> (cw_first w = 0 \<or> cw_key w = Some (Some i, cw_first w)) \<and>
     cc_first cc = cw_first w \<and> cc_last cc = cw_last w)"

lemma copy_context_run:
  assumes "ctx_inv ci" "length buf = nat (ci_size ci)" "key = last_at_or_before (ci_database ci) (addr_key a)"
  shows "copy_context ci key buf = ok (get_context ci a)"
proof -
  have inv: "db_inv (nat (ci_size ci)) (ci_database ci)" using assms(1) by (simp add: ctx_inv_def)
  then have "get_context_by_key ci key = get_context ci a"
    by (simp add: get_context_by_key_def get_context_def get_value_by_key db_invD(1) [OF inv] assms(3))
  moreover have "length (get_context ci a) = nat (ci_size ci)"
    using wf_at [OF inv] by (simp add: get_context_def wf_array_def)
  ultimately show ?thesis using assms(1,2) by (simp add: copy_context_def slice_def copy_slice_def ctx_inv_def)
qed

text \<open>A read through the cache gives the context of the address, and leaves a right window.\<close>

lemma cache_get_correct:
  assumes "ctx_inv ci" "cache_inv i ci cc" "space_index (ad_space a) = Some i" "length buf = nat (ci_size ci)"
  obtains cc' where "cache_get_context cc ci a buf = (cc', ok (get_context ci a))" "cache_inv i ci cc'"
    "cc_allowset cc' = cc_allowset cc"
proof (cases "\<exists>w. cc_window cc = Some w \<and> cw_first w \<le> ad_offset a \<and> ad_offset a \<le> cw_last w")
  case True
  then obtain w where w: "cc_window cc = Some w" "cw_first w \<le> ad_offset a" "ad_offset a \<le> cw_last w" by blast
  then have i: "cw_space_index w = i" "window_ok ci w" using assms(2) by (simp_all add: cache_inv_def)
  then have "cw_key w = last_at_or_before (ci_database ci) (addr_key a)"
    using w assms(3) by (simp add: window_ok_def addr_key_def)
  then have "copy_context ci (cw_key w) buf = ok (get_context ci a)" using assms by (intro copy_context_run) auto
  then have "cache_get_context cc ci a buf = (cc, ok (get_context ci a))"
    using w i assms(3) by (simp add: cache_get_context_def Let_def)
  then show ?thesis using assms(2) that by blast
next
  case False
  define b where "b = get_context_bounds ci a"
  note win = bounds_window [OF assms(1,3) b_def]
  let ?cc = "cc\<lparr>cc_first := cx_first b, cc_last := cx_last b,
    cc_window := Some \<lparr>cw_space_index = i, cw_first = cx_first b, cw_last = cx_last b, cw_key = cx_key b\<rparr>\<rparr>"
  have "copy_context ci (cx_key b) buf = ok (get_context ci a)" using assms win(1) by (intro copy_context_run) auto
  then have "cache_get_context cc ci a buf = (?cc, ok (get_context ci a))"
    using False assms(2,3) by (auto simp: cache_get_context_def Let_def b_def [symmetric] split: option.splits)
  then show ?thesis using win by (intro that [of ?cc]) (simp_all add: cache_inv_def)
qed

text \<open>New split points in the space of the window and outside the window do not disturb it.\<close>

lemma cache_inv_split:
  assumes "ctx_inv ci" "ctx_inv ci'" "cache_inv i ci cc"
    and "\<And>k. split_point (ci_database ci') k \<longleftrightarrow> split_point (ci_database ci) k \<or> k \<in> P"
    and "\<And>k. k \<in> P \<Longrightarrow> fst k = Some i \<and> \<not> (cc_first cc \<le> snd k \<and> snd k \<le> cc_last cc)"
  shows "cache_inv i ci' cc"
proof (cases "cc_window cc")
  case (Some w)
  have w: "cw_space_index w = i" "window_ok ci w" "cw_first w = 0 \<or> cw_key w = Some (Some i, cw_first w)"
    "cc_first cc = cw_first w" "cc_last cc = cw_last w" using assms(3) Some by (simp_all add: cache_inv_def)
  have pm: "pm_inv (ci_database ci)" "pm_inv (ci_database ci')" using assms(1,2) by (auto simp: ctx_inv_def db_inv_def)
  have "last_at_or_before (ci_database ci') (Some i, off) = cw_key w" if off: "cw_first w \<le> off" "off \<le> cw_last w" for off
  proof -
    have key: "last_at_or_before (ci_database ci) (Some i, off) = cw_key w" using w(1,2) off by (simp add: window_ok_def)
    have "last_at_or_before (ci_database ci') (Some i, off) = last_at_or_before (ci_database ci) (Some i, off)"
    proof (rule part_key_stable [OF pm assms(4)])
      fix k assume k: "k \<in> P" "k \<le> (Some i, off)"
      then obtain y where y: "k = (Some i, y)" using assms(5) [OF k(1)] by (cases k) auto
      then have "y \<le> cw_last w" using k(2) off(2) by (auto simp: key_less_eq)
      then have "y < cw_first w" using assms(5) [OF k(1)] w(4,5) y by auto
      then show "\<exists>j. last_at_or_before (ci_database ci) (Some i, off) = Some j \<and> k \<le> j"
        using w(3) key y by (auto simp: key_less_eq)
    qed
    then show ?thesis using key by simp
  qed
  then show ?thesis using Some w by (simp add: cache_inv_def window_ok_def)
qed (simp add: cache_inv_def)

lemma cache_inv_None: "cache_inv i ci (cc\<lparr>cc_window := None\<rparr>)"
  by (simp add: cache_inv_def)

lemma cache_set_correct:
  assumes "ctx_inv ci" "cache_inv i ci cc" "space_index (ad_space a) = Some i" "0 \<le> num" "num < ci_size ci" "cc_allowset cc"
  obtains cc' ci' where "cache_set_context cc ci a num msk value = ok (cc', ci')"
    "set_context_change_point ci a num msk value = ok ci'" "ctx_inv ci'" "ci_size ci' = ci_size ci" "cache_inv i ci' cc'" "cc_allowset cc'"
proof -
  have f: "word_fits (num, msk, value) (nat (ci_size ci))" using assms by simp
  obtain ci' where ci': "set_context_change_point ci a num msk value = ok ci'" "ctx_inv ci'" "ci_size ci' = ci_size ci"
    "\<And>k. split_point (ci_database ci') k \<longleftrightarrow> split_point (ci_database ci) k \<or> k \<in> {addr_key a}"
    using words.change_point_effect [OF assms(1) f, of a msk] unfolding set_context_change_point_def
    by (simp del: split_paired_All split_paired_Ex) blast
  let ?cc = "if in_window cc a then cc\<lparr>cc_window := None\<rparr> else cc"
  have "cache_inv i ci' cc" if "cc_window cc \<noteq> None" "\<not> in_window cc a"
    using that assms(2,3) by (intro cache_inv_split [OF assms(1) ci'(2) assms(2) ci'(4)]) (auto simp: in_window_def cache_inv_def addr_key_def)
  then have "cache_inv i ci' ?cc" by (cases "cc_window cc") (auto simp: cache_inv_None cache_inv_def)
  then show ?thesis using ci' assms(6) by (intro that [of ?cc ci']) (auto simp: cache_set_context_def)
qed

lemma cache_set_region_correct:
  assumes "ctx_inv ci" "cache_inv i ci cc" "space_index (ad_space a1) = Some i" "0 \<le> num" "num < ci_size ci" "cc_allowset cc"
    and "is_invalid a2 \<or> space_index (ad_space a2) = Some i \<and> ad_offset a1 < ad_offset a2"
  obtains cc' ci' where "cache_set_context_region cc ci a1 a2 num msk value = ok (cc', ci')"
    "set_context_region ci a1 a2 num msk value = ok ci'" "ctx_inv ci'" "ci_size ci' = ci_size ci" "cache_inv i ci' cc'" "cc_allowset cc'"
proof -
  let ?P = "insert (addr_key a1) (if is_invalid a2 then {} else {addr_key a2})"
  have f: "word_fits (num, msk, value) (nat (ci_size ci))" using assms by simp
  have lt: "is_invalid a2 \<or> addr_key a1 < addr_key a2" using assms(3,7) by (auto simp: addr_key_def key_less)
  obtain ci' where ci': "set_context_region ci a1 a2 num msk value = ok ci'" "ctx_inv ci'" "ci_size ci' = ci_size ci"
    "\<forall>k. split_point (ci_database ci') k \<longleftrightarrow>
        split_point (ci_database ci) k \<or> k = addr_key a1 \<or> \<not> is_invalid a2 \<and> k = addr_key a2"
    using words.region_for_set_effect [OF assms(1) f lt, of msk] by (auto simp: set_context_region_def simp del: split_paired_All split_paired_Ex)
  have P: "split_point (ci_database ci') k \<longleftrightarrow> split_point (ci_database ci) k \<or> k \<in> ?P" for k
    using ci'(4) [rule_format, of k] by auto
  define hit where "hit \<longleftrightarrow> in_window cc a1 \<or> cc_first cc \<le> ad_offset a2 \<and> ad_offset a2 \<le> cc_last cc \<or>
    ad_offset a1 \<le> cc_first cc \<and> cc_first cc \<le> ad_offset a2"
  let ?cc = "if hit then cc\<lparr>cc_window := None\<rparr> else cc"
  have run: "cache_set_context_region cc ci a1 a2 num msk value = ok (?cc, ci')"
    using ci'(1) assms(6) by (auto simp: cache_set_context_region_def Let_def hit_def)
  have "cache_inv i ci' cc" if "cc_window cc \<noteq> None" "\<not> hit"
    using that assms(2,3,7)
    by (intro cache_inv_split [OF assms(1) ci'(2) assms(2) P])
      (auto simp: hit_def in_window_def cache_inv_def addr_key_def split: if_splits)
  then have "cache_inv i ci' ?cc" by (cases "cc_window cc") (auto simp: cache_inv_None cache_inv_def)
  then show ?thesis using ci' run assms(6) by (intro that [of ?cc ci']) auto
qed

text \<open>
  A client of the cache makes a sequence of calls. \<open>cached_run\<close> gives the contexts it reads through the
  cache, \<open>direct_run\<close> the ones it would read from the database.
\<close>

datatype cache_call =
    Allow bool
  | Get address
  | Set address i32 u32 u32
  | SetRegion address address i32 u32 u32

fun cached_run :: "cache_call list \<Rightarrow> context_cache \<Rightarrow> context_internal \<Rightarrow> u32 list list run" where
  "cached_run [] cc ci = ok []"
| "cached_run (Allow b # cs) cc ci = cached_run cs (allow_set cc b) ci"
| "cached_run (Get a # cs) cc ci =
     (case cache_get_context cc ci a (replicate (nat (ci_size ci)) 0) of (cc, r) \<Rightarrow>
      run_bind r (\<lambda>ctx. run_bind (cached_run cs cc ci) (\<lambda>ctxs. ok (ctx # ctxs))))"
| "cached_run (Set a num msk value # cs) cc ci =
     run_bind (cache_set_context cc ci a num msk value) (\<lambda>(cc, ci). cached_run cs cc ci)"
| "cached_run (SetRegion a1 a2 num msk value # cs) cc ci =
     run_bind (cache_set_context_region cc ci a1 a2 num msk value) (\<lambda>(cc, ci). cached_run cs cc ci)"

fun direct_run :: "cache_call list \<Rightarrow> bool \<Rightarrow> context_internal \<Rightarrow> u32 list list run" where
  "direct_run [] allowed ci = ok []"
| "direct_run (Allow b # cs) allowed ci = direct_run cs b ci"
| "direct_run (Get a # cs) allowed ci = run_bind (direct_run cs allowed ci) (\<lambda>ctxs. ok (get_context ci a # ctxs))"
| "direct_run (Set a num msk value # cs) allowed ci =
     run_bind (if allowed then set_context_change_point ci a num msk value else ok ci) (\<lambda>ci. direct_run cs allowed ci)"
| "direct_run (SetRegion a1 a2 num msk value # cs) allowed ci =
     run_bind (if allowed then set_context_region ci a1 a2 num msk value else ok ci) (\<lambda>ci. direct_run cs allowed ci)"

text \<open>A call of a client that works in the space with index \<open>i\<close>, on contexts of \<open>n\<close> words.\<close>

fun call_in :: "i32 \<Rightarrow> i32 \<Rightarrow> cache_call \<Rightarrow> bool" where
  "call_in i n (Allow b) \<longleftrightarrow> True"
| "call_in i n (Get a) \<longleftrightarrow> space_index (ad_space a) = Some i"
| "call_in i n (Set a num msk value) \<longleftrightarrow> space_index (ad_space a) = Some i \<and> 0 \<le> num \<and> num < n"
| "call_in i n (SetRegion a1 a2 num msk value) \<longleftrightarrow> space_index (ad_space a1) = Some i \<and> 0 \<le> num \<and> num < n \<and>
     (is_invalid a2 \<or> space_index (ad_space a2) = Some i \<and> ad_offset a1 < ad_offset a2)"

lemma cached_run_direct:
  assumes "ctx_inv ci" "cache_inv i ci cc" "list_all (call_in i (ci_size ci)) cs"
  shows "\<exists>ctxs. cached_run cs cc ci = ok ctxs \<and> direct_run cs (cc_allowset cc) ci = ok ctxs"
  using assms
proof (induction cs cc ci rule: cached_run.induct)
  case (2 b cs cc ci)
  then show ?case using "2.IH" by (auto simp: allow_set_def cache_inv_def split: option.splits)
next
  case (3 a cs cc ci)
  obtain cc' where cc': "cache_get_context cc ci a (replicate (nat (ci_size ci)) 0) = (cc', ok (get_context ci a))"
    "cache_inv i ci cc'" "cc_allowset cc' = cc_allowset cc"
    using 3 by (auto intro: cache_get_correct [of ci i cc a "replicate (nat (ci_size ci)) 0"])
  then have "\<exists>ctxs. cached_run cs cc' ci = ok ctxs \<and> direct_run cs (cc_allowset cc') ci = ok ctxs"
    using 3 by (intro "3.IH" [OF cc'(1) [symmetric]]) auto
  then show ?case using cc' by auto
next
  case (4 a num msk val cs cc ci)
  show ?case
  proof (cases "cc_allowset cc")
    case True
    obtain cc' ci' where "cache_set_context cc ci a num msk val = ok (cc', ci')" "set_context_change_point ci a num msk val = ok ci'"
      "ctx_inv ci'" "ci_size ci' = ci_size ci" "cache_inv i ci' cc'" "cc_allowset cc'"
      using 4 True by (auto intro: cache_set_correct [of ci i cc a num msk val])
    then show ?thesis using "4.IH" [of ci' cc'] "4.prems"(3) True by simp
  qed (use 4 "4.IH" [of ci cc] in \<open>simp add: cache_set_context_def\<close>)
next
  case (5 a1 a2 num msk val cs cc ci)
  show ?case
  proof (cases "cc_allowset cc")
    case True
    obtain cc' ci' where "cache_set_context_region cc ci a1 a2 num msk val = ok (cc', ci')" "set_context_region ci a1 a2 num msk val = ok ci'"
      "ctx_inv ci'" "ci_size ci' = ci_size ci" "cache_inv i ci' cc'" "cc_allowset cc'"
      using 5 True by (auto intro: cache_set_region_correct [of ci i cc a1 num a2 msk val])
    then show ?thesis using "5.IH" [of ci' cc'] "5.prems"(3) True by simp
  qed (use 5 "5.IH" [of ci cc] in \<open>simp add: cache_set_context_region_def\<close>)
qed simp

text \<open>C11: The context cache is transparent. A client that works in one address space and sets words of
  the context reads, through a new cache, exactly the contexts it would read from the database: for every
  sequence of reads, changes, region changes and switches of the write permission, no call panics and the
  contexts are the same.\<close>
theorem cache_transparent:
  assumes "ctx_inv ci" "list_all (call_in i (ci_size ci)) cs"
  shows "\<exists>ctxs. cached_run cs new_cache ci = ok ctxs \<and> direct_run cs True ci = ok ctxs"
  using cached_run_direct [OF assms(1) _ assms(2), of new_cache] by (simp add: new_cache_def cache_inv_def)

theorem cache_transparent_witness:
  "\<exists>ctxs. cached_run [Get (example_addr 1 0x150), SetRegion (example_addr 1 0x100) (example_addr 1 0x200) 0 0xFF 0x12,
       Get (example_addr 1 0x150), Allow False, Set (example_addr 1 0x140) 1 0xFF 0x13, Get (example_addr 1 0x150)] new_cache example_context = ok ctxs \<and>
     direct_run [Get (example_addr 1 0x150), SetRegion (example_addr 1 0x100) (example_addr 1 0x200) 0 0xFF 0x12,
       Get (example_addr 1 0x150), Allow False, Set (example_addr 1 0x140) 1 0xFF 0x13, Get (example_addr 1 0x150)] True example_context = ok ctxs"
  by (rule cache_transparent [where i = 1]) simp_all

text \<open>
  The restriction to one space is needed. The window of a cache is dropped only when the changed address has
  the space of the window. A change in a space of lower index reaches into the window when no split point
  lies between, and the cache keeps the old context.
\<close>

lemma cache_stale_across_spaces:
  "cached_run [Get (example_addr 1 5), Set (example_addr 0 3) 0 0xFF 0x12, Get (example_addr 1 5)] new_cache example_context = ok [[0, 0], [0, 0]]"
  "direct_run [Get (example_addr 1 5), Set (example_addr 0 3) 0 0xFF 0x12, Get (example_addr 1 5)] True example_context = ok [[0, 0], [0x12, 0]]"
  by code_simp+

section \<open>Tracked registers\<close>

text \<open>
  Reading parts of a tracked four-byte register with value 0x11223344. In a little-endian space the part is
  the right one. In a big-endian space the value is shifted by the distance from the start of the read
  instead of its end: single bytes are right, but the first three bytes read 0x11 instead of 0x112233 and
  the middle two 0x1122 instead of 0x2233.
\<close>

definition example_register :: "bool \<Rightarrow> tracked_context" where
  "example_register big = \<lparr>tc_loc = \<lparr>vd_space = Some (new_space BaseKind Processor ''register'' big 4 1 1 0 0 0),
     vd_offset = 0, vd_size = 4\<rparr>, tc_val = 0x11223344\<rparr>"

definition example_read :: "bool \<Rightarrow> u64 \<Rightarrow> u32 \<Rightarrow> u64 run" where
  "example_read big off sz = tracked_lookup [example_register big]
     \<lparr>vd_space = vd_space (tc_loc (example_register big)), vd_offset = off, vd_size = sz\<rparr> (off + ucast sz - 1)"

lemma tracked_big_endian_shift:
  "example_read False 1 1 = ok 0x33" "example_read False 1 3 = ok 0x112233"
  "example_read True 1 1 = ok 0x22" "example_read True 0 3 = ok 0x11" "example_read True 1 2 = ok 0x1122"
  by code_simp+

end
