(* ===== verification/Multi_Precision.thy ===== *)
theory Multi_Precision
  imports Run Bits "HOL-Library.Signed_Division"
begin

text \<open>
  128-bit arithmetic on arrays of words, src/src/multiprecision.rs. Arrays are lists of words, least
  significant first; an index out of range panics. A \<open>for\<close> loop is a fold over its slots. The number an array
  stands for is its digits to the base of its word size, and the operations are compared with the
  arithmetic on it.
\<close>

section \<open>Arrays\<close>

text \<open>The index of a signed counter, and an index \<open>n - k\<close> that underflows.\<close>

definition idx_i32 :: "'a list \<Rightarrow> i32 \<Rightarrow> 'a run" where
  "idx_i32 xs i = (if i < 0 then panic else idx xs (nat i))"

definition upd_i32 :: "'a list \<Rightarrow> i32 \<Rightarrow> 'a \<Rightarrow> 'a list run" where
  "upd_i32 xs i x = (if i < 0 then panic else upd xs (nat i) x)"

section \<open>The operations\<close>

function copy_down :: "u64 list \<Rightarrow> i32 \<Rightarrow> i32 \<Rightarrow> u64 list \<Rightarrow> (i32 \<times> u64 list) run" where
  "copy_down input in_index out_index output =
     (if in_index < 0 then ok (out_index, output)
      else run_bind (idx_i32 input in_index) (\<lambda>x. run_bind (upd_i32 output out_index x)
        (copy_down input (in_index - 1) (out_index - 1))))"
  by pat_completeness auto
termination by (relation "measure (\<lambda>(_, i, _, _). nat (i + 1))") auto

function shift_down :: "u64 list \<Rightarrow> i32 \<Rightarrow> i32 \<Rightarrow> i32 \<Rightarrow> u64 list \<Rightarrow> (i32 \<times> u64 list) run" where
  "shift_down input shift in_index out_index output =
     (if in_index \<le> 0 then ok (out_index, output)
      else run_bind (idx_i32 input in_index) (\<lambda>hi. run_bind (idx_i32 input (in_index - 1)) (\<lambda>lo.
        run_bind (upd_i32 output out_index (wshl hi shift OR wshr lo (64 - shift)))
          (shift_down input shift (in_index - 1) (out_index - 1)))))"
  by pat_completeness auto
termination by (relation "measure (\<lambda>(_, _, i, _, _). nat (i + 1))") auto

function clear_down :: "i32 \<Rightarrow> u64 list \<Rightarrow> u64 list run" where
  "clear_down out_index output =
     (if out_index < 0 then ok output
      else run_bind (upd_i32 output out_index 0) (clear_down (out_index - 1)))"
  by pat_completeness auto
termination by (relation "measure (\<lambda>(i, _). nat (i + 1))") auto

declare copy_down.simps [simp del] shift_down.simps [simp del] clear_down.simps [simp del]

text \<open>Division and remainder of \<open>i32\<close> truncate.\<close>

definition leftshift :: "nat \<Rightarrow> u64 list \<Rightarrow> u64 list \<Rightarrow> i32 \<Rightarrow> u64 list run" where
  "leftshift num input output shift_amount =
     (let in_index = int num - 1 - shift_amount sdiv 64; shift = shift_amount smod 64; out_index = int num - 1 in
      if shift = 0 then
        run_bind (copy_down input in_index out_index output) (\<lambda>(out_index, output). clear_down out_index output)
      else
        run_bind (shift_down input shift in_index out_index output) (\<lambda>(out_index, output).
        run_bind (idx input 0) (\<lambda>x.
        run_bind (upd_i32 output out_index (wshl x shift)) (clear_down (out_index - 1)))))"

definition leftshift128 :: "u64 list \<Rightarrow> i32 \<Rightarrow> u64 list run" where
  "leftshift128 input shift_amount = leftshift 2 input [0, 0] shift_amount"

fun ucompare_loop :: "nat list \<Rightarrow> u64 list \<Rightarrow> u64 list \<Rightarrow> i32 run" where
  "ucompare_loop [] fst_words snd_words = ok 0"
| "ucompare_loop (slot # slots) fst_words snd_words =
     run_bind (idx fst_words slot) (\<lambda>x. run_bind (idx snd_words slot) (\<lambda>y.
     if x \<noteq> y then ok (if x < y then -1 else 1) else ucompare_loop slots fst_words snd_words))"

definition ucompare :: "nat \<Rightarrow> u64 list \<Rightarrow> u64 list \<Rightarrow> i32 run" where
  "ucompare num xs ys = ucompare_loop (rev [0..<num]) xs ys"

definition uless128 :: "u64 list \<Rightarrow> u64 list \<Rightarrow> bool run" where
  "uless128 xs ys = run_bind (ucompare 2 xs ys) (\<lambda>c. ok (c < 0))"

definition ulessequal128 :: "u64 list \<Rightarrow> u64 list \<Rightarrow> bool run" where
  "ulessequal128 xs ys = run_bind (ucompare 2 xs ys) (\<lambda>c. ok (c \<le> 0))"

definition add_words :: "nat \<Rightarrow> u64 list \<Rightarrow> u64 list \<Rightarrow> u64 list \<Rightarrow> u64 list run" where
  "add_words num xs ys output =
     run_bind (run_fold (\<lambda>slot (carry, output).
       run_bind (idx ys slot) (\<lambda>y. run_bind (idx xs slot) (\<lambda>x.
       let tmp = y + carry; tmp2 = x + tmp in
       run_bind (upd output slot tmp2) (\<lambda>output.
       ok (if tmp < y \<or> tmp2 < tmp then 1 else 0, output))))) [0..<num] (0 :: u64, output)) (\<lambda>(_, output). ok output)"

definition add128 :: "u64 list \<Rightarrow> u64 list \<Rightarrow> u64 list run" where
  "add128 xs ys = add_words 2 xs ys [0, 0]"

definition subtract_words :: "nat \<Rightarrow> u64 list \<Rightarrow> u64 list \<Rightarrow> u64 list \<Rightarrow> u64 list run" where
  "subtract_words num xs ys output =
     run_bind (run_fold (\<lambda>slot (borrow, output).
       run_bind (idx ys slot) (\<lambda>y. run_bind (idx xs slot) (\<lambda>x.
       let tmp = y + borrow in
       run_bind (upd output slot (x - tmp)) (\<lambda>output.
       ok (if tmp < y \<or> x < tmp then 1 else 0, output))))) [0..<num] (0 :: u64, output)) (\<lambda>(_, output). ok output)"

definition subtract128 :: "u64 list \<Rightarrow> u64 list \<Rightarrow> u64 list run" where
  "subtract128 xs ys = subtract_words 2 xs ys [0, 0]"

definition split64_32 :: "nat \<Rightarrow> u64 list \<Rightarrow> u32 list \<Rightarrow> (i32 \<times> u32 list) run" where
  "split64_32 num vals res =
     run_fold (\<lambda>slot (count, res).
       run_bind (idx vals slot) (\<lambda>v.
       let hi = ucast (drop_bit 32 v) :: u32; lo = ucast (v AND 0xffffffff) :: u32;
           count = (if hi \<noteq> 0 then int slot * 2 + 2 else if lo \<noteq> 0 then int slot * 2 + 1 else count) in
       run_bind (upd res (slot * 2) lo) (\<lambda>res.
       run_bind (upd res (slot * 2 + 1) hi) (\<lambda>res.
       ok (count, res))))) [0..<num] (0, res)"

definition pack32_64 :: "nat \<Rightarrow> i32 \<Rightarrow> u64 list \<Rightarrow> u32 list \<Rightarrow> u64 list run" where
  "pack32_64 num mx output input =
     run_bind (run_fold (\<lambda>slot (pos, output).
       run_bind (if pos < mx then run_bind (idx_i32 input pos) (\<lambda>w. ok (ucast w)) else ok 0) (\<lambda>v.
       let v = push_bit 32 v; pos = pos - 1 in
       run_bind (if pos < mx then run_bind (idx_i32 input pos) (\<lambda>w. ok (v OR ucast w)) else ok v) (\<lambda>v.
       run_bind (upd output slot v) (\<lambda>output.
       ok (pos - 1, output))))) (rev [0..<num]) (int num * 2 - 1, output)) (\<lambda>(_, output). ok output)"

section \<open>Division\<close>

definition shl32 :: "u32 \<Rightarrow> nat \<Rightarrow> u32" where
  "shl32 v n = push_bit (n mod 32) v"

definition shr32 :: "u32 \<Rightarrow> nat \<Rightarrow> u32" where
  "shr32 v n = drop_bit (n mod 32) v"

definition shift_left :: "u32 list \<Rightarrow> nat \<Rightarrow> nat \<Rightarrow> u32 list run" where
  "shift_left arr sz shift =
     (if shift = 0 then ok arr
      else run_bind (run_fold (\<lambda>slot arr.
          run_bind (idx arr slot) (\<lambda>hi. run_bind (idx arr (slot - 1)) (\<lambda>lo.
          upd arr slot (shl32 hi shift OR shr32 lo (32 - shift))))) (rev [1..<sz]) arr) (\<lambda>arr.
        run_bind (idx arr 0) (\<lambda>x. upd arr 0 (shl32 x shift))))"

definition shift_right :: "u32 list \<Rightarrow> nat \<Rightarrow> nat \<Rightarrow> u32 list run" where
  "shift_right arr sz shift =
     (if shift = 0 then ok arr
      else if sz = 0 then panic
      else run_bind (run_fold (\<lambda>slot arr.
          run_bind (idx arr slot) (\<lambda>lo. run_bind (idx arr (slot + 1)) (\<lambda>hi.
          upd arr slot (shr32 lo shift OR shl32 hi (32 - shift))))) [0..<sz - 1] arr) (\<lambda>arr.
        run_bind (idx arr (sz - 1)) (\<lambda>x. upd arr (sz - 1) (shr32 x shift))))"

text \<open>The correction of the estimated digit. \<open>second\<close> is the second digit of the divisor.\<close>

partial_function (option) estimate_loop :: "u64 \<Rightarrow> u64 \<Rightarrow> u64 \<Rightarrow> u64 \<Rightarrow> u64 \<Rightarrow> u64 run" where
  "estimate_loop topw second third qhat rhat =
     (if qhat \<le> 0xffffffff \<and> qhat * second \<le> push_bit 32 rhat + third then ok qhat
      else let qhat = qhat - 1; rhat = rhat + topw in
        if rhat > 0xffffffff then ok qhat else estimate_loop topw second third qhat rhat)"

text \<open>One slot of the subtraction of \<open>qhat\<close> times the divisor; the shift of the signed difference is arithmetic.\<close>

definition mul_sub_slot :: "u64 \<Rightarrow> nat \<Rightarrow> u32 list \<Rightarrow> nat \<Rightarrow> u64 \<times> u32 list \<Rightarrow> (u64 \<times> u32 list) run" where
  "mul_sub_slot qhat position denom slot s =
     (case s of (carry, numer) \<Rightarrow>
      run_bind (idx denom slot) (\<lambda>d. run_bind (idx numer (slot + position)) (\<lambda>n.
      let tmp = qhat * ucast d; signed_tmp = ucast n - carry - (tmp AND 0xffffffff) in
      run_bind (upd numer (slot + position) (ucast signed_tmp)) (\<lambda>numer.
      ok (drop_bit 32 tmp - signed_drop_bit 32 signed_tmp, numer)))))"

definition add_back_slot :: "nat \<Rightarrow> u32 list \<Rightarrow> nat \<Rightarrow> u64 \<times> u32 list \<Rightarrow> (u64 \<times> u32 list) run" where
  "add_back_slot position denom slot s =
     (case s of (carry, numer) \<Rightarrow>
      run_bind (idx denom slot) (\<lambda>d. run_bind (idx numer (slot + position)) (\<lambda>n.
      let tmp = ucast n + (ucast d + carry) :: u64 in
      run_bind (upd numer (slot + position) (ucast tmp)) (\<lambda>numer. ok (drop_bit 32 tmp, numer)))))"

definition quotient_digit :: "nat \<Rightarrow> u32 list \<Rightarrow> u64 \<Rightarrow> nat \<Rightarrow> u32 list \<times> u32 list \<Rightarrow> (u32 list \<times> u32 list) run" where
  "quotient_digit denom_len denom topw position s =
     (case s of (numer, quot) \<Rightarrow>
      run_bind (idx numer (denom_len + position)) (\<lambda>n0. run_bind (idx numer (denom_len - 1 + position)) (\<lambda>n1.
      let tmp = push_bit 32 (ucast n0) + ucast n1 :: u64 in
      if topw = 0 then panic else
      if denom_len < 2 then panic else
      run_bind (idx denom (denom_len - 2)) (\<lambda>d2. run_bind (idx numer (denom_len - 2 + position)) (\<lambda>n2.
      run_bind (estimate_loop topw (ucast d2) (ucast n2) (tmp div topw) (tmp mod topw)) (\<lambda>qhat.
      run_bind (run_fold (mul_sub_slot qhat position denom) [0..<denom_len] (0, numer)) (\<lambda>(carry, numer).
      run_bind (idx numer (position + denom_len)) (\<lambda>n.
      let signed_tmp = ucast n - carry :: u64 in
      run_bind (upd numer (position + denom_len) (ucast signed_tmp)) (\<lambda>numer.
      run_bind (upd quot position (ucast qhat)) (\<lambda>quot.
      if sint signed_tmp < 0 then
        run_bind (upd quot position (ucast qhat - 1)) (\<lambda>quot.
        run_bind (run_fold (add_back_slot position denom) [0..<denom_len] (0, numer)) (\<lambda>(carry, numer).
        run_bind (idx numer (position + denom_len)) (\<lambda>n.
        run_bind (upd numer (position + denom_len) (n + ucast carry)) (\<lambda>numer.
        ok (numer, quot)))))
      else ok (numer, quot)))))))))))"

definition knuth_algorithm_d ::
  "nat \<Rightarrow> nat \<Rightarrow> u32 list \<Rightarrow> u32 list \<Rightarrow> u32 list \<Rightarrow> (u32 list \<times> u32 list \<times> u32 list) run" where
  "knuth_algorithm_d numer_len denom_len numer denom quot =
     (if denom_len = 0 then panic else
      run_bind (idx denom (denom_len - 1)) (\<lambda>d.
      let shift = leading_zeros (ucast d) - 32 in
      run_bind (shift_left denom denom_len shift) (\<lambda>denom.
      run_bind (shift_left numer numer_len shift) (\<lambda>numer.
      run_bind (idx denom (denom_len - 1)) (\<lambda>topw.
      if numer_len < denom_len then panic else
      run_bind (run_fold (quotient_digit denom_len denom (ucast topw)) (rev [0..<numer_len - denom_len]) (numer, quot)) (\<lambda>(numer, quot).
      run_bind (shift_right numer numer_len shift) (\<lambda>numer.
      ok (numer, denom, quot))))))))"

definition short_division :: "u64 \<Rightarrow> nat \<Rightarrow> u64 \<times> u32 list \<times> u32 list \<Rightarrow> (u64 \<times> u32 list \<times> u32 list) run" where
  "short_division divisor slot s =
     (case s of (rem, numer, quot) \<Rightarrow>
      run_bind (idx numer slot) (\<lambda>n.
      let tmp = push_bit 32 rem + ucast n in
      if divisor = 0 then panic else
      run_bind (upd quot slot (ucast (tmp div divisor))) (\<lambda>quot.
      run_bind (upd numer slot 0) (\<lambda>numer.
      ok (tmp mod divisor, numer, quot)))))"

definition udiv128 :: "u64 list \<Rightarrow> u64 list \<Rightarrow> (u64 list \<times> u64 list) run" where
  "udiv128 numer denom =
     run_bind (idx numer 0) (\<lambda>n0. run_bind (idx numer 1) (\<lambda>n1.
     run_bind (idx denom 0) (\<lambda>d0. run_bind (idx denom 1) (\<lambda>d1.
     if n1 = 0 \<and> d1 = 0 then
       (if d0 = 0 then err (Lowlevel ''divide by 0'') else ok ([n0 div d0, 0], [n0 mod d0, 0]))
     else
       run_bind (split64_32 2 denom [0, 0, 0, 0]) (\<lambda>(denom_len, denom_words).
       if denom_len = 0 then err (Lowlevel ''divide by 0'') else
       run_bind (split64_32 2 numer [0, 0, 0, 0, 0]) (\<lambda>(numer_len, numer_words).
       run_bind (if numer_len < denom_len then ok True
           else if denom_len = numer_len then
             run_bind (idx_i32 numer_words (denom_len - 1)) (\<lambda>n. run_bind (idx_i32 denom_words (denom_len - 1)) (\<lambda>d. ok (n < d)))
           else ok False) (\<lambda>small.
       if small then ok ([0, 0], [n0, n1]) else
       run_bind
         (if denom_len = 1 then
            run_bind (idx denom_words 0) (\<lambda>d.
            run_bind (run_fold (short_division (ucast d)) (rev [0..<nat numer_len]) (0, numer_words, [0, 0, 0, 0])) (\<lambda>(rem, numer_words, quotient_words).
            run_bind (upd numer_words 0 (ucast rem)) (\<lambda>numer_words.
            ok (numer_words, quotient_words))))
          else
            run_bind (upd_i32 numer_words numer_len 0) (\<lambda>numer_words.
            run_bind (knuth_algorithm_d (nat (numer_len + 1)) (nat denom_len) numer_words denom_words [0, 0, 0, 0]) (\<lambda>(numer_words, _, quotient_words).
            ok (numer_words, quotient_words)))) (\<lambda>(numer_words, quotient_words).
       run_bind (pack32_64 2 (numer_len - denom_len + 1) [0, 0] quotient_words) (\<lambda>quot.
       run_bind (pack32_64 2 numer_len [0, 0] numer_words) (\<lambda>remainder.
       ok (quot, remainder)))))))))))"

definition set_u128 :: "u64 \<Rightarrow> u64 list" where
  "set_u128 v = [v, 0]"

end
