(* ===== verification/Multi_Arith.thy ===== *)
theory Multi_Arith
  imports Multi_Precision
begin

text \<open>
  The number an array of words stands for, and the operations of src/src/multiprecision.rs other than the
  division as arithmetic on it.
\<close>

section \<open>Digits\<close>

primrec number :: "'a::len word list \<Rightarrow> int" where
  "number [] = 0"
| "number (x # xs) = uint x + 2 ^ LENGTH('a) * number xs"

lemma number_append: "number (xs @ ys) = number xs + (2 ^ LENGTH('a)) ^ length xs * number ys" for xs ys :: "'a::len word list"
  by (induction xs) (simp_all add: algebra_simps)

lemma number_split: "number xs = number (take i xs) + (2 ^ LENGTH('a)) ^ min (length xs) i * number (drop i xs)" for xs :: "'a::len word list"
  using number_append [of "take i xs" "drop i xs"] by simp

lemma number_bounds: "0 \<le> number xs \<and> number xs < (2 ^ LENGTH('a)) ^ length xs" for xs :: "'a::len word list"
proof (induction xs)
  case (Cons x xs)
  have x: "uint x < 2 ^ LENGTH('a)" "0 \<le> uint x" by simp_all
  have "number xs + 1 \<le> (2 ^ LENGTH('a)) ^ length xs" using Cons by simp
  then have "2 ^ LENGTH('a) * (number xs + 1) \<le> 2 ^ LENGTH('a) * (2 ^ LENGTH('a)) ^ length xs" by (intro mult_left_mono) simp_all
  moreover have "0 \<le> 2 ^ LENGTH('a) * number xs" using Cons by simp
  ultimately show ?case using x unfolding number.simps length_Cons power_Suc by (simp only: distrib_left mult_1_right) linarith
qed simp

lemmas number_nonneg = number_bounds [THEN conjunct1] and number_less = number_bounds [THEN conjunct2]

lemma number_take_Suc:
  fixes xs :: "'a::len word list"
  assumes "i < length xs"
  shows "number (take (Suc i) xs) = number (take i xs) + uint (xs ! i) * (2 ^ LENGTH('a)) ^ i"
  using assms by (simp add: take_Suc_conv_app_nth number_append)

lemma number_update:
  fixes xs :: "'a::len word list"
  shows "i < length xs \<Longrightarrow> number (xs[i := v]) = number xs + (uint v - uint (xs ! i)) * (2 ^ LENGTH('a)) ^ i"
proof (induction xs arbitrary: i)
  case (Cons x xs)
  show ?case
  proof (cases i)
    case (Suc j)
    then have "number (xs[j := v]) = number xs + (uint v - uint (xs ! j)) * (2 ^ LENGTH('a)) ^ j" using Cons by simp
    then show ?thesis using Suc by (simp add: distrib_left mult_ac)
  qed simp
qed simp

lemma number_zero: "number xs = 0 \<longleftrightarrow> (\<forall>x\<in>set xs. x = 0)" for xs :: "'a::len word list"
proof (induction xs)
  case (Cons x xs)
  have "0 \<le> uint x" "0 \<le> 2 ^ LENGTH('a) * number xs" using number_nonneg [of xs] by simp_all
  then have "number (x # xs) = 0 \<longleftrightarrow> uint x = 0 \<and> number xs = 0" by (simp add: add_nonneg_eq_0_iff)
  then show ?case using Cons by (simp add: uint_0_iff)
qed simp

lemma number_small:
  fixes xs :: "'a::len word list"
  assumes "number xs < (2 ^ LENGTH('a)) ^ k" "k \<le> i" "i < length xs"
  shows "xs ! i = 0"
proof -
  have "number xs = number (take k xs) + (2 ^ LENGTH('a)) ^ k * number (drop k xs)"
    using number_split [of xs k] assms by (simp add: min_def)
  then have "(2 ^ LENGTH('a)) ^ k * number (drop k xs) < (2 ^ LENGTH('a)) ^ k * 1"
    using assms(1) number_nonneg [of "take k xs"] by linarith
  then have "number (drop k xs) < 1" by (subst (asm) mult_less_cancel_left_pos) simp_all
  then have "number (drop k xs) = 0" using number_nonneg [of "drop k xs"] by simp
  then have "\<forall>x\<in>set (drop k xs). x = 0" by (simp add: number_zero)
  moreover have "xs ! i \<in> set (drop k xs)" using nth_mem [of "i - k" "drop k xs"] assms(2,3) by simp
  ultimately show ?thesis by simp
qed

section \<open>Addition, subtraction, comparison, shift\<close>

lemma carry_step:
  fixes x y c :: u64
  assumes "uint c \<le> 1"
  shows "uint (x + (y + c)) + (if y + c < y \<or> x + (y + c) < y + c then 1 else 0) * 2 ^ 64 = uint x + uint y + uint c"
proof -
  have b: "0 \<le> uint x" "uint x < 2 ^ 64" "0 \<le> uint y" "uint y < 2 ^ 64" "0 \<le> uint c"
    using uint_bounded [of x] uint_bounded [of y] by simp_all
  have t: "uint (y + c) = (if uint y + uint c < 2 ^ 64 then uint y + uint c else uint y + uint c - 2 ^ 64)"
    by (simp add: uint_plus_if')
  have "uint (x + (y + c)) = (if uint x + uint (y + c) < 2 ^ 64 then uint x + uint (y + c) else uint x + uint (y + c) - 2 ^ 64)"
    by (simp add: uint_plus_if')
  then show ?thesis using t b assms unfolding word_less_def by (auto split: if_splits)
qed

lemma borrow_step:
  fixes x y c :: u64
  assumes "uint c \<le> 1"
  shows "uint (x - (y + c)) - (if y + c < y \<or> x < y + c then 1 else 0) * 2 ^ 64 = uint x - uint y - uint c"
proof -
  have b: "0 \<le> uint x" "uint x < 2 ^ 64" "0 \<le> uint y" "uint y < 2 ^ 64" "0 \<le> uint c"
    using uint_bounded [of x] uint_bounded [of y] by simp_all
  have t: "uint (y + c) = (if uint y + uint c < 2 ^ 64 then uint y + uint c else uint y + uint c - 2 ^ 64)"
    by (simp add: uint_plus_if')
  have "uint (x - (y + c)) = (if uint (y + c) \<le> uint x then uint x - uint (y + c) else uint x - uint (y + c) + 2 ^ 64)"
    by (simp add: uint_sub_if')
  note s = this
  show ?thesis
  proof (cases "uint y + uint c < 2 ^ 64")
    case False
    then have "uint y + uint c = 2 ^ 64" "uint c = 1" using b assms by linarith+
    then have "uint (y + c) = 0" "y + c < y" using t b by (simp_all add: word_less_def)
    then show ?thesis using s b \<open>uint y + uint c = 2 ^ 64\<close> by simp
  qed (use s t b in \<open>auto simp: word_less_def split: if_splits\<close>)
qed

text \<open>A loop that writes one word per slot and keeps a carry of weight \<open>\<sigma>\<close> (1 or -1).\<close>

lemma take_update_next: "i < length out \<Longrightarrow> take (Suc i) (out[i := w]) = take i out @ [w]"
  by (simp add: take_Suc_conv_app_nth)

lemma number_take_update:
  fixes out :: "'a::len word list"
  shows "i < length out \<Longrightarrow> number (take (Suc i) (out[i := w])) = number (take i out) + uint w * (2 ^ LENGTH('a)) ^ i"
  by (simp add: take_update_next number_append)

lemma carry_loop:
  fixes xs ys out :: "u64 list" and sg :: int
  assumes "num \<le> length xs" "num \<le> length ys" "num \<le> length out"
    and body: "\<And>i c zs. i < num \<Longrightarrow> uint (c :: u64) \<le> 1 \<Longrightarrow> length zs = length out \<Longrightarrow> \<exists>w c'. body i (c, zs) = ok (c', zs[i := w]) \<and>
      uint c' \<le> 1 \<and> uint w + sg * uint c' * 2 ^ 64 = uint (xs ! i) + sg * uint (ys ! i) + sg * uint c"
  obtains c zs where "run_fold body [0..<num] (0, out) = ok (c, zs)" "length zs = length out"
    "number (take num zs) = (number (take num xs) + sg * number (take num ys)) mod (2 ^ 64) ^ num"
proof -
  define P where "P i s = (case s of (c :: u64, zs :: u64 list) \<Rightarrow> length zs = length out \<and> uint c \<le> 1 \<and>
    number (take i zs) + sg * uint c * (2 ^ 64) ^ i = number (take i xs) + sg * number (take i ys))" for i s
  have step: "\<exists>s'. body i s = ok s' \<and> P (Suc i) s'" if i: "i < num" and "P i s" for i s
  proof (cases s)
    case (Pair c zs)
    then have p: "length zs = length out" "uint c \<le> 1" "number (take i zs) + sg * uint c * (2 ^ 64) ^ i = number (take i xs) + sg * number (take i ys)"
      using that(2) by (simp_all add: P_def)
    have len: "i < length xs" "i < length ys" "i < length zs" using i assms p(1) by simp_all
    obtain w c' where w: "body i (c, zs) = ok (c', zs[i := w])" "uint c' \<le> 1"
      "uint w + sg * uint c' * 2 ^ 64 = uint (xs ! i) + sg * uint (ys ! i) + sg * uint c" using body [OF i p(2,1)] by blast
    have "(uint w + sg * uint c' * 2 ^ 64) * (2 ^ 64) ^ i = (uint (xs ! i) + sg * uint (ys ! i) + sg * uint c) * (2 ^ 64) ^ i"
      unfolding w(3) ..
    moreover have "number (take (Suc i) (zs[i := w])) = number (take i zs) + uint w * (2 ^ 64) ^ i"
      "number (take (Suc i) xs) = number (take i xs) + uint (xs ! i) * (2 ^ 64) ^ i"
      "number (take (Suc i) ys) = number (take i ys) + uint (ys ! i) * (2 ^ 64) ^ i"
      using number_take_update [OF len(3), of w] number_take_Suc [OF len(1)] number_take_Suc [OF len(2)] by simp_all
    ultimately have "number (take (Suc i) (zs[i := w])) + sg * uint c' * (2 ^ 64) ^ Suc i = number (take (Suc i) xs) + sg * number (take (Suc i) ys)"
      using p(3) by (simp add: algebra_simps)
    then show ?thesis using p(1) w Pair by (auto simp: P_def)
  qed
  have "P 0 (0, out)" by (simp add: P_def)
  from run_fold_up [of P, OF this, of num body] step
  obtain c zs where zs: "run_fold body [0..<num] (0, out) = ok (c, zs)" "P num (c, zs)" by auto
  then have n: "number (take num zs) = (number (take num xs) + sg * number (take num ys)) - (sg * uint c) * (2 ^ 64) ^ num"
    and len: "length (take num zs) = num" "length zs = length out" using assms(3) by (auto simp: P_def)
  have "number (take num zs) = number (take num zs) mod (2 ^ 64) ^ num"
    using number_bounds [of "take num zs"] len by simp
  also have "\<dots> = (number (take num xs) + sg * number (take num ys)) mod (2 ^ 64) ^ num" unfolding n
    using mod_mult_self1 [of "number (take num xs) + sg * number (take num ys)" "- (sg * uint c)" "(2 ^ 64) ^ num"] by simp
  finally show ?thesis using zs(1) len(2) that by blast
qed

lemma add_words_correct:
  assumes "num \<le> length xs" "num \<le> length ys" "num \<le> length out"
  obtains zs where "add_words num xs ys out = ok zs" "length zs = length out"
    "number (take num zs) = (number (take num xs) + number (take num ys)) mod (2 ^ 64) ^ num"
proof -
  let ?body = "\<lambda>slot (carry, output).
       run_bind (idx ys slot) (\<lambda>y. run_bind (idx xs slot) (\<lambda>x.
       let tmp = y + carry; tmp2 = x + tmp in
       run_bind (upd output slot tmp2) (\<lambda>output.
       ok (if tmp < y \<or> tmp2 < tmp then 1 else 0 :: u64, output))))"
  have body: "\<exists>w c'. ?body i (c, zs) = ok (c', zs[i := w]) \<and> uint c' \<le> 1 \<and>
      uint w + 1 * uint c' * 2 ^ 64 = uint (xs ! i) + 1 * uint (ys ! i) + 1 * uint c"
    if "i < num" "uint (c :: u64) \<le> 1" "length zs = length out" for i c zs
    using that assms carry_step [OF that(2), of "xs ! i" "ys ! i"]
    by (intro exI [of _ "xs ! i + (ys ! i + c)"] exI [of _ "if ys ! i + c < ys ! i \<or> xs ! i + (ys ! i + c) < ys ! i + c then 1 else 0"])
      (auto simp: idx_def upd_def Let_def)
  obtain c zs where "run_fold ?body [0..<num] (0, out) = ok (c, zs)" "length zs = length out"
    "number (take num zs) = (number (take num xs) + 1 * number (take num ys)) mod (2 ^ 64) ^ num"
    by (rule carry_loop [OF assms body])
  then show ?thesis by (intro that [of zs]) (simp_all add: add_words_def)
qed

lemma subtract_words_correct:
  assumes "num \<le> length xs" "num \<le> length ys" "num \<le> length out"
  obtains zs where "subtract_words num xs ys out = ok zs" "length zs = length out"
    "number (take num zs) = (number (take num xs) - number (take num ys)) mod (2 ^ 64) ^ num"
proof -
  let ?body = "\<lambda>slot (borrow, output).
       run_bind (idx ys slot) (\<lambda>y. run_bind (idx xs slot) (\<lambda>x.
       let tmp = y + borrow in
       run_bind (upd output slot (x - tmp)) (\<lambda>output.
       ok (if tmp < y \<or> x < tmp then 1 else 0 :: u64, output))))"
  have body: "\<exists>w c'. ?body i (c, zs) = ok (c', zs[i := w]) \<and> uint c' \<le> 1 \<and>
      uint w + (-1) * uint c' * 2 ^ 64 = uint (xs ! i) + (-1) * uint (ys ! i) + (-1) * uint c"
    if "i < num" "uint (c :: u64) \<le> 1" "length zs = length out" for i c zs
    using that assms borrow_step [OF that(2), of "xs ! i" "ys ! i"]
    by (intro exI [of _ "xs ! i - (ys ! i + c)"] exI [of _ "if ys ! i + c < ys ! i \<or> xs ! i < ys ! i + c then 1 else 0"])
      (auto simp: idx_def upd_def Let_def)
  obtain c zs where "run_fold ?body [0..<num] (0, out) = ok (c, zs)" "length zs = length out"
    "number (take num zs) = (number (take num xs) + (-1) * number (take num ys)) mod (2 ^ 64) ^ num"
    by (rule carry_loop [OF assms body])
  then show ?thesis by (intro that [of zs]) (simp_all add: subtract_words_def)
qed

lemma ucompare_correct:
  assumes "length xs = num" "length ys = num"
  shows "ucompare num xs ys = ok (if number xs = number ys then 0 else if number xs < number ys then -1 else 1)"
proof -
  have "ucompare_loop (rev [0..<n]) xs ys = ok (if number (take n xs) = number (take n ys) then 0
      else if number (take n xs) < number (take n ys) then -1 else 1)" if "n \<le> num" for n
    using that
  proof (induction n)
    case (Suc n)
    let ?B = "(2 ^ 64) ^ n :: int"
    have n: "n < length xs" "n < length ys" using Suc.prems assms by simp_all
    have low: "0 \<le> number (take n xs)" "number (take n xs) < ?B" "0 \<le> number (take n ys)" "number (take n ys) < ?B"
      using number_bounds [of "take n xs"] number_bounds [of "take n ys"] n by simp_all
    have lt: "number (take n us) + uint x * ?B < number (take n vs) + uint y * ?B" if "x < y" "number (take n us) < ?B" "0 \<le> number (take n vs)"
      for x y :: u64 and us vs :: "u64 list"
    proof -
      have "(uint x + 1) * ?B \<le> uint y * ?B" using that(1) by (intro mult_right_mono) (simp_all add: word_less_def)
      then show ?thesis using that(2,3) by (simp add: distrib_right)
    qed
    consider "xs ! n = ys ! n" | "xs ! n < ys ! n" | "ys ! n < xs ! n" by (rule linorder_cases) auto
    then show ?case
    proof cases
      case 1
      then show ?thesis using Suc n by (simp add: idx_def number_take_Suc [OF n(1)] number_take_Suc [OF n(2)])
    next
      case 2
      then show ?thesis using n lt [OF 2 low(2,3)] by (simp add: idx_def number_take_Suc [OF n(1)] number_take_Suc [OF n(2)])
    next
      case 3
      then show ?thesis using n lt [OF 3 low(4,1)] by (auto simp: idx_def number_take_Suc [OF n(1)] number_take_Suc [OF n(2)])
    qed
  qed simp
  from this [of num] show ?thesis using assms by (simp add: ucompare_def)
qed

section \<open>Shifts\<close>

lemma uint_or_disjoint:
  fixes v w :: "'a::len word"
  assumes "\<And>n. \<not> (bit v n \<and> bit w n)"
  shows "uint (v OR w) = uint v + uint w"
proof -
  have "bit (uint v) n \<longrightarrow> \<not> bit (uint w) n" for n using assms by (auto simp: bit_uint_iff)
  then have "uint v AND uint w = 0" by (intro bit_eqI) (auto simp: bit_and_iff)
  then show ?thesis by (simp add: unsigned_or_eq disjunctive_add_eq_or)
qed

text \<open>Shifting a digit left by \<open>r\<close> leaves its low part and carries the rest into the next digit.\<close>

lemma take_bit_uint: "take_bit LENGTH('a) (uint v) = uint v" for v :: "'a::len word"
  by (simp add: take_bit_int_eq_self)

lemma shift_digit:
  fixes v :: "'a::len word"
  assumes "0 < r" "r < LENGTH('a)"
  shows "uint v * 2 ^ r = uint (push_bit r v) + 2 ^ LENGTH('a) * uint (drop_bit (LENGTH('a) - r) v)"
proof -
  have "uint v * 2 ^ r div 2 ^ LENGTH('a) = uint v div 2 ^ (LENGTH('a) - r)"
    using assms(2) div_mult_mult2 [of "2 ^ r" "uint v" "2 ^ (LENGTH('a) - r)"] by (simp flip: power_add)
  then have "uint v * 2 ^ r = uint v * 2 ^ r mod 2 ^ LENGTH('a) + 2 ^ LENGTH('a) * (uint v div 2 ^ (LENGTH('a) - r))"
    by (metis add.commute mult_div_mod_eq)
  then show ?thesis
    by (simp only: unsigned_push_bit_eq unsigned_drop_bit_eq take_bit_uint)
      (simp only: push_bit_eq_mult drop_bit_eq_div take_bit_eq_mod)
qed

lemma shift_or:
  fixes hi lo :: "'a::len word"
  assumes "0 < r" "r < LENGTH('a)"
  shows "uint (push_bit r hi OR drop_bit (LENGTH('a) - r) lo) = uint (push_bit r hi) + uint (drop_bit (LENGTH('a) - r) lo)"
proof (rule uint_or_disjoint)
  fix n show "\<not> (bit (push_bit r hi) n \<and> bit (drop_bit (LENGTH('a) - r) lo) n)"
    using bit_imp_le_length [of lo "LENGTH('a) - r + n"] assms by (auto simp: bit_push_bit_iff bit_drop_bit_eq)
qed

lemma leftshift128_words:
  assumes "0 \<le> s" "s < 128" "r = nat (s mod 64)"
  shows "leftshift128 [a, b] s = ok (if s < 64 then if r = 0 then [a, b] else [push_bit r a, push_bit r b OR drop_bit (64 - r) a]
    else [0, push_bit r a])"
proof -
  have sd: "s sdiv 64 = s div 64" "s smod 64 = s mod 64" using assms(1)
    by (cases "s = 0"; simp add: signed_divide_int_def signed_modulo_int_def minus_mult_div_eq_mod mult.commute)+
  have sh: "wshl w (s mod 64) = push_bit r w" "r \<noteq> 0 \<Longrightarrow> wshr w (64 - s mod 64) = drop_bit (64 - r) w" for w
    using assms(3) by (simp_all add: wshl_def wshr_def nat_diff_distrib zmod_minus1 zmod_zminus1_eq_if)
  note loops = copy_down.simps [of _ _ _ "_ # _"] shift_down.simps [of _ _ _ _ "_ # _"] clear_down.simps [of _ "_ # _"]
  have q: "s div 64 = (if s < 64 then 0 else 1)" using assms(1,2) by auto
  have r: "s mod 64 = 0 \<longleftrightarrow> r = 0" using assms(3) by auto
  show ?thesis
    unfolding leftshift128_def leftshift_def Let_def sd q r
    by (auto simp: loops idx_i32_def upd_i32_def idx_def upd_def sh numeral_2_eq_2)
qed

text \<open>A shift by 128 or more: a multiple of 64 clears the words, any other amount shifts the low word into the high one.\<close>

lemma leftshift128_far:
  assumes "128 \<le> s" "r = nat (s mod 64)"
  shows "leftshift128 [a, b] s = ok (if r = 0 then [0, 0] else [0, push_bit r a])"
proof -
  have sd: "s sdiv 64 = s div 64" "s smod 64 = s mod 64" using assms(1)
    by (simp_all add: signed_divide_int_def signed_modulo_int_def minus_mult_div_eq_mod mult.commute)
  have sh: "wshl w (s mod 64) = push_bit r w" for w using assms(2) by (simp add: wshl_def)
  note loops = copy_down.simps [of _ _ _ "_ # _"] shift_down.simps [of _ _ _ _ "_ # _"] clear_down.simps [of _ "_ # _"]
  have q: "int 2 - 1 - s div 64 < 0" using assms(1) by auto
  have r: "s mod 64 = 0 \<longleftrightarrow> r = 0" using assms(2) by auto
  show ?thesis
    unfolding leftshift128_def leftshift_def Let_def sd r
    using q by (auto simp: loops idx_i32_def upd_i32_def idx_def upd_def sh numeral_2_eq_2)
qed

definition far_shift :: "u64 list \<Rightarrow> i32 \<Rightarrow> int" where
  "far_shift xs s = (if s mod 64 = 0 then 0 else 2 ^ 64 * (uint (xs ! 0) * 2 ^ nat (s mod 64) mod 2 ^ 64))"

lemma leftshift128_far_number:
  assumes "length xs = 2" "128 \<le> s"
  shows "\<exists>zs. leftshift128 xs s = ok zs \<and> length zs = 2 \<and> number zs = far_shift xs s"
proof -
  obtain a b where xs: "xs = [a, b]" using assms(1) by (auto simp: numeral_2_eq_2 length_Suc_conv)
  have "uint (push_bit (nat (s mod 64)) a) = uint a * 2 ^ nat (s mod 64) mod 2 ^ 64"
    by (simp only: unsigned_push_bit_eq) (simp add: push_bit_eq_mult take_bit_eq_mod)
  moreover have "nat (s mod 64) = 0 \<longleftrightarrow> s mod 64 = 0" by auto
  ultimately show ?thesis using leftshift128_far [OF assms(2) refl] xs by (auto simp: far_shift_def)
qed

lemma leftshift128_correct:
  assumes "length xs = 2" "0 \<le> s" "s < 128"
  shows "\<exists>zs. leftshift128 xs s = ok zs \<and> length zs = 2 \<and> number zs = number xs * 2 ^ nat s mod 2 ^ 128"
proof -
  obtain a b where xs: "xs = [a, b]" using assms(1) by (auto simp: numeral_2_eq_2 length_Suc_conv)
  define r where "r = nat (s mod 64)"
  have r: "r < 64" by (simp add: r_def)
  let ?zs = "if s < 64 then if r = 0 then [a, b] else [push_bit r a, push_bit r b OR drop_bit (64 - r) a] else [0, push_bit r a]"
  have run: "leftshift128 xs s = ok ?zs" using leftshift128_words [OF assms(2,3) r_def] xs by simp
  have p64: "uint (push_bit r a) = uint a * 2 ^ r mod 2 ^ 64"
    by (simp only: unsigned_push_bit_eq) (simp add: push_bit_eq_mult take_bit_eq_mod)
  have "number ?zs = number xs * 2 ^ nat s mod 2 ^ 128"
  proof (cases "s < 64")
    case True
    then have s: "nat s = r" using assms(2) by (simp add: r_def)
    show ?thesis
    proof (cases "r = 0")
      case True
      then show ?thesis using \<open>s < 64\<close> s number_bounds [of "[a, b]"] xs by (simp flip: power_mult)
    next
      case False
      note d = shift_digit [of r a] shift_digit [of r b] shift_or [of r b a]
      let ?c = "uint (drop_bit (64 - r) b)"
      have "number xs * 2 ^ r = number [push_bit r a, push_bit r b OR drop_bit (64 - r) a] + ?c * 2 ^ 128"
        using d False r xs by (simp add: distrib_right distrib_left mult.assoc)
      then have "number xs * 2 ^ r mod 2 ^ 128 = number [push_bit r a, push_bit r b OR drop_bit (64 - r) a] mod 2 ^ 128"
        by (simp only: mod_mult_self1)
      also have "\<dots> = number [push_bit r a, push_bit r b OR drop_bit (64 - r) a]"
        using number_bounds [of "[push_bit r a, push_bit r b OR drop_bit (64 - r) a]"] by (intro mod_pos_pos_trivial) simp_all
      finally show ?thesis using \<open>s < 64\<close> False s by simp
    qed
  next
    case False
    then have "s mod 64 = s - 64" using assms(3) by (intro int_mod_pos_eq [of _ _ 1]) simp_all
    then have s: "nat s = 64 + r" using False by (simp add: r_def)
    have "number xs * 2 ^ nat s = 2 ^ 64 * (uint a * 2 ^ r) + 2 ^ 128 * (uint b * 2 ^ r)"
      unfolding s xs by (simp add: power_add distrib_right distrib_left)
    then have "number xs * 2 ^ nat s mod 2 ^ 128 = (2 ^ 64 * (uint a * 2 ^ r)) mod (2 ^ 64 * 2 ^ 64)" by simp
    also have "\<dots> = 2 ^ 64 * (uint a * 2 ^ r mod 2 ^ 64)" by (rule mult_mod_right [symmetric])
    finally show ?thesis using False p64 by simp
  qed
  then show ?thesis using run by (intro exI [of _ ?zs]) auto
qed

lemma arith128_parts:
  assumes "length xs = 2" "length ys = 2" "0 \<le> s"
  shows "\<exists>zs. add128 xs ys = ok zs \<and> length zs = 2 \<and> number zs = (number xs + number ys) mod 2 ^ 128"
    and "\<exists>zs. subtract128 xs ys = ok zs \<and> length zs = 2 \<and> number zs = (number xs - number ys) mod 2 ^ 128"
    and "\<exists>zs. leftshift128 xs s = ok zs \<and> length zs = 2 \<and>
      number zs = (if s < 128 then number xs * 2 ^ nat s mod 2 ^ 128 else far_shift xs s)"
    and "uless128 xs ys = ok (number xs < number ys)"
    and "ulessequal128 xs ys = ok (number xs \<le> number ys)"
proof -
  obtain zs where "add_words 2 xs ys [0, 0] = ok zs" "length zs = length [0, 0 :: u64]"
    "number (take 2 zs) = (number (take 2 xs) + number (take 2 ys)) mod (2 ^ 64) ^ 2"
    by (rule add_words_correct [of 2 xs ys "[0, 0]"]) (use assms in auto)
  then show "\<exists>zs. add128 xs ys = ok zs \<and> length zs = 2 \<and> number zs = (number xs + number ys) mod 2 ^ 128"
    using assms by (intro exI [of _ zs]) (simp add: add128_def)
  obtain zs where "subtract_words 2 xs ys [0, 0] = ok zs" "length zs = length [0, 0 :: u64]"
    "number (take 2 zs) = (number (take 2 xs) - number (take 2 ys)) mod (2 ^ 64) ^ 2"
    by (rule subtract_words_correct [of 2 xs ys "[0, 0]"]) (use assms in auto)
  then show "\<exists>zs. subtract128 xs ys = ok zs \<and> length zs = 2 \<and> number zs = (number xs - number ys) mod 2 ^ 128"
    using assms by (intro exI [of _ zs]) (simp add: subtract128_def)
  show "\<exists>zs. leftshift128 xs s = ok zs \<and> length zs = 2 \<and>
      number zs = (if s < 128 then number xs * 2 ^ nat s mod 2 ^ 128 else far_shift xs s)"
    using leftshift128_correct [OF assms(1,3)] leftshift128_far_number [OF assms(1)] by (cases "s < 128") auto
  show "uless128 xs ys = ok (number xs < number ys)" "ulessequal128 xs ys = ok (number xs \<le> number ys)"
    using ucompare_correct [OF assms(1,2)] by (auto simp: uless128_def ulessequal128_def)
qed

text \<open>C40: the 128-bit operations on pairs of words. Addition, subtraction, and the shift to the left by less than
  128 bits are arithmetic modulo \<open>2 ^ 128\<close>, and the two comparisons are those of the numbers. A shift by 128 bits or
  more is not: it gives zero only for a multiple of 64 and otherwise leaves the low word, shifted by the
  amount modulo 64, as the high word. No operation panics.\<close>

theorem arith128_correct:
  assumes "length xs = 2" "length ys = 2" "0 \<le> s"
  shows "(\<exists>zs. add128 xs ys = ok zs \<and> length zs = 2 \<and> number zs = (number xs + number ys) mod 2 ^ 128)
    \<and> (\<exists>zs. subtract128 xs ys = ok zs \<and> length zs = 2 \<and> number zs = (number xs - number ys) mod 2 ^ 128)
    \<and> (\<exists>zs. leftshift128 xs s = ok zs \<and> length zs = 2 \<and>
        number zs = (if s < 128 then number xs * 2 ^ nat s mod 2 ^ 128
          else if s mod 64 = 0 then 0 else 2 ^ 64 * (uint (xs ! 0) * 2 ^ nat (s mod 64) mod 2 ^ 64)))
    \<and> uless128 xs ys = ok (number xs < number ys) \<and> ulessequal128 xs ys = ok (number xs \<le> number ys)"
  using arith128_parts [OF assms] unfolding far_shift_def by blast

theorem arith128_correct_witness:
  "(\<exists>zs. add128 [0xFFFFFFFFFFFFFFFF, 0] [1, 0] = ok zs \<and> number zs = 2 ^ 64) \<and>
   (\<exists>zs. leftshift128 [0xFFFFFFFFFFFFFFFF, 0] 68 = ok zs \<and> number zs = 0xFFFFFFFFFFFFFFF0 * 2 ^ 64) \<and>
   uless128 [0xFFFFFFFFFFFFFFFF, 0] [1, 0] = ok False"
  using arith128_correct [of "[0xFFFFFFFFFFFFFFFF, 0]" "[1, 0]" 68] by auto

text \<open>Shifts by 128 or more that are not multiples of 64 do not clear the result.\<close>

lemma leftshift128_too_far: "leftshift128 [1, 2] 130 = ok [0, 4]"
  by code_simp

end
