(* ===== verification/Knuth_Division.thy ===== *)
theory Knuth_Division
  imports Multi_Arith
begin

text \<open>
  The long division of src/src/multiprecision.rs: every estimated digit is the right one or one too large,
  the correction makes it right, and the quotient and the remainder of two 128-bit numbers are exact.
\<close>

section \<open>The estimated digit\<close>

text \<open>
  \<open>V\<close> is the divisor and \<open>U\<close> the rest of the dividend, of which \<open>V2\<close> and \<open>U3\<close> are the leading two and three
  digits.
\<close>

lemma leading_le:
  fixes w :: int
  assumes "k * V \<le> U" "V = V2 * w + v" "0 \<le> v" "U = U3 * w + u" "u < w" "0 \<le> k" "0 < w"
  shows "k * V2 \<le> U3"
proof -
  have "k * V2 * w \<le> k * V" using assms(2,3,6) by (simp add: distrib_left mult.assoc)
  then have "k * V2 * w < (U3 + 1) * w" using assms(1,4,5) by (simp add: distrib_right)
  then show ?thesis using assms(7) by simp
qed

lemma leading_close:
  fixes w :: int
  assumes "k * V2 \<le> U3" "k < B" "0 < B" "B \<le> V2" "V = V2 * w + v" "0 \<le> v" "v < w" "U = U3 * w + u" "0 \<le> u" "0 < w" "0 \<le> U"
  shows "k \<le> U div V + 1"
proof (rule ccontr)
  assume "\<not> k \<le> U div V + 1"
  then have k: "U div V + 1 \<le> k - 1" by simp
  have V: "0 < V" using assms(3-6,10) by (simp add: add_pos_nonneg)
  then have "0 \<le> U div V" using assms(11) by (simp add: pos_imp_zdiv_nonneg_iff)
  then have pos: "0 \<le> k - 1" using k by simp
  have "U < (U div V + 1) * V" 
    using pos_mod_bound [OF V, of U] div_mult_mod_eq [of U V] unfolding distrib_right mult_1_left by linarith
  also have "\<dots> \<le> (k - 1) * V" using k V by (intro mult_right_mono) simp_all
  also have "\<dots> \<le> (k - 1) * ((V2 + 1) * w)" using pos assms(5,7) by (intro mult_left_mono) (simp_all add: distrib_right)
  also have "\<dots> = (k * V2 + (k - V2 - 1)) * w" by (simp add: algebra_simps)
  also have "\<dots> \<le> U3 * w" using assms(1,2,4,10) by (intro mult_right_mono) simp_all
  finally show False using assms(8,9) by simp
qed

lemma estimate_loop_correct:
  fixes topw second third qhat rhat :: u64 and q T :: int
  assumes "2 ^ 31 \<le> uint topw" "uint topw < 2 ^ 32" "uint second < 2 ^ 32" "uint third < 2 ^ 32"
    and "T < uint topw * 2 ^ 32 + 2 ^ 32" "0 \<le> q" "q < 2 ^ 32"
    and "q * (uint topw * 2 ^ 32 + uint second) \<le> T * 2 ^ 32 + uint third"
    and "uint qhat * uint topw + uint rhat = T" "uint rhat < 2 ^ 32" "q \<le> uint qhat"
  shows "\<exists>d. estimate_loop topw second third qhat rhat = ok d \<and> uint d < 2 ^ 32 \<and> q \<le> uint d \<and>
    uint d * (uint topw * 2 ^ 32 + uint second) \<le> T * 2 ^ 32 + uint third"
  using assms(9-11)
proof (induction "nat (2 ^ 32 - uint rhat)" arbitrary: qhat rhat rule: less_induct)
  case less
  let ?V2 = "uint topw * 2 ^ 32 + uint second" and ?U3 = "T * 2 ^ 32 + uint third"
  have nn: "0 \<le> uint topw" "0 \<le> uint second" "0 \<le> uint third" "0 \<le> uint qhat" "0 \<le> uint rhat" by simp_all
  have mult: "d * ?V2 = (T - r) * 2 ^ 32 + d * uint second" if "d * uint topw + r = T" for d r
    using that by (simp add: algebra_simps)
  have rsh: "uint (push_bit 32 rhat + third) = uint rhat * 2 ^ 32 + uint third"
  proof -
    have "uint rhat * 2 ^ 32 \<le> (2 ^ 32 - 1) * 2 ^ 32" using less.prems(2) by (intro mult_right_mono) simp_all
    then have b: "uint rhat * 2 ^ 32 + uint third < 2 ^ 64" "uint rhat * 2 ^ 32 < 2 ^ 64" using assms(4) by simp_all
    have "uint (push_bit 32 rhat) = uint rhat * 2 ^ 32 mod 2 ^ 64"
      by (simp only: unsigned_push_bit_eq) (simp add: push_bit_eq_mult take_bit_eq_mod)
    also have "\<dots> = uint rhat * 2 ^ 32" using b by (intro mod_pos_pos_trivial) simp_all
    finally show ?thesis using b nn by (simp add: uint_plus_if')
  qed
  have msec: "uint (qhat * second) = uint qhat * uint second" if "qhat \<le> 0xffffffff"
  proof -
    have "uint qhat * uint second \<le> (2 ^ 32 - 1) * (2 ^ 32 - 1)" using that assms(3) nn by (intro mult_mono) (simp_all add: word_le_def)
    then show ?thesis using nn by (simp add: uint_word_ariths)
  qed
  show ?case
  proof (cases "qhat \<le> 0xffffffff \<and> qhat * second \<le> push_bit 32 rhat + third")
    case True
    then have "uint qhat * uint second \<le> uint rhat * 2 ^ 32 + uint third" using rsh msec by (simp add: word_le_def)
    then have "uint qhat * ?V2 \<le> ?U3" using mult [OF less.prems(1)] by (simp add: algebra_simps)
    moreover have "uint qhat < 2 ^ 32" using True by (simp add: word_le_def)
    ultimately show ?thesis using True less.prems(3) by (subst estimate_loop.simps) auto
  next
    case False
    have qlt: "q < uint qhat"
    proof (cases "qhat \<le> 0xffffffff")
      case True
      then have "uint qhat * uint second > uint rhat * 2 ^ 32 + uint third" using False rsh msec by (simp add: word_le_def)
      then have "uint qhat * ?V2 > ?U3" using mult [OF less.prems(1)] by (simp add: algebra_simps)
      then have "q * ?V2 < uint qhat * ?V2" using assms(8) by simp
      then show ?thesis using assms(1) nn by (auto simp: mult_less_cancel_right)
    qed (use assms(7) in \<open>simp add: word_le_def\<close>)
    have u: "uint (qhat - 1) = uint qhat - 1" "uint (rhat + topw) = uint rhat + uint topw"
      using qlt assms(2,6) less.prems(2) nn by (simp_all add: uint_sub_if' uint_plus_if')
    have inv: "uint (qhat - 1) * uint topw + uint (rhat + topw) = T" using less.prems(1) unfolding u by (simp add: algebra_simps)
    show ?thesis
    proof (cases "rhat + topw > 0xffffffff")
      case True
      then have big: "2 ^ 32 \<le> uint (rhat + topw)" by (simp add: word_less_def)
      then have "uint (qhat - 1) * uint topw < 2 ^ 32 * uint topw" using inv assms(5) by (simp add: mult.commute)
      then have lt: "uint (qhat - 1) < 2 ^ 32" using assms(1) by (auto simp: mult_less_cancel_right)
      have "uint (qhat - 1) * uint second \<le> 2 ^ 32 * 2 ^ 32" using lt assms(3) nn by (intro mult_mono) simp_all
      also have "\<dots> \<le> uint (rhat + topw) * 2 ^ 32" using big by (intro mult_right_mono) simp_all
      finally have "uint (qhat - 1) * ?V2 \<le> ?U3" unfolding mult [OF inv] left_diff_distrib using nn(3) by linarith
      then show ?thesis using False True lt qlt u by (subst estimate_loop.simps) (auto simp: Let_def)
    next
      case le: False
      then have r: "uint (rhat + topw) < 2 ^ 32" by (simp add: word_less_def)
      have "nat (2 ^ 32 - uint (rhat + topw)) < nat (2 ^ 32 - uint rhat)" using r u assms(1) less.prems(2) by simp
      from less.hyps [OF this inv r] show ?thesis using qlt u False le by (subst estimate_loop.simps) (auto simp: Let_def)
    qed
  qed
qed

section \<open>Multiply and subtract\<close>

lemma sint_small: "- (2 ^ 63) \<le> s \<Longrightarrow> s < 2 ^ 63 \<Longrightarrow> sint (word_of_int s :: u64) = s"
  by (simp add: sint_sbintrunc' signed_take_bit_int_eq_self)

lemma uint_widen [simp]: "uint (ucast d :: u64) = uint d" for d :: u32
  using uint_bounded [of d] by (simp add: unsigned_ucast_eq take_bit_int_eq_self)

lemma uint_drop_div: "uint (drop_bit k v) = uint v div 2 ^ k" for v :: "'a::len word"
  by (simp only: unsigned_drop_bit_eq take_bit_uint) (simp only: drop_bit_eq_div)

lemma uint_small: "0 \<le> k \<Longrightarrow> k < 2 ^ 64 \<Longrightarrow> uint (word_of_int k :: u64) = k"
  by (simp add: uint_word_of_int_eq take_bit_int_eq_self)

lemma low32: "uint (ucast (word_of_int s :: u64) :: u32) = s mod 2 ^ 32"
  by (simp add: unsigned_ucast_eq uint_word_of_int_eq take_bit_eq_mod mod_mod_cancel)

lemma carry_less:
  fixes B :: int
  assumes "m = n - c - t + k * B" "m < B" "t \<le> (B - 1) * (B - 1)" "c < B" "0 \<le> n" "0 < B"
  shows "k < B"
proof -
  have "k * B \<le> (B - 1) + (B - 1) + (B - 1) * (B - 1)" using assms(1-5) by linarith
  also have "\<dots> < B * B" by (simp add: algebra_simps)
  finally show ?thesis using assms(6) by simp
qed

text \<open>The carry of a slot stays below \<open>2 ^ 32\<close>, although the difference is taken on signed 64-bit words.\<close>

lemma mul_sub_digit:
  fixes qhat carry :: u64 and n d :: u32
  assumes "uint qhat < 2 ^ 32" "uint carry < 2 ^ 32"
    and "tmp = qhat * ucast d" "s = ucast n - carry - (tmp AND 0xffffffff)" "carry' = drop_bit 32 tmp - signed_drop_bit 32 s"
  shows "uint carry' < 2 ^ 32" "uint (ucast s :: u32) = uint n - uint carry - uint qhat * uint d + uint carry' * 2 ^ 32"
proof -
  let ?t = "uint qhat * uint d" and ?B = "2 ^ 32 :: int"
  have b: "0 \<le> uint qhat" "0 \<le> uint d" "uint d < ?B" "0 \<le> uint n" "uint n < ?B" "0 \<le> uint carry"
    using uint_bounded [of d] uint_bounded [of n] by simp_all
  have tt: "0 \<le> ?t" "?t \<le> (?B - 1) * (?B - 1)" using assms(1) b by simp (intro mult_mono; use assms(1) b in simp)
  then have tmp: "uint tmp = ?t" unfolding assms(3) by (simp add: uint_word_ariths)
  have "(0xffffffff :: u64) = mask 32" by (simp add: mask_eq_exp_minus_1)
  then have "uint (tmp AND 0xffffffff) = uint (take_bit 32 tmp)" by (simp only: take_bit_eq_mask)
  then have lo: "uint (tmp AND 0xffffffff) = ?t mod ?B" by (simp only: unsigned_take_bit_eq tmp) (simp add: take_bit_eq_mod)
  define i where "i = uint n - uint carry - ?t mod ?B"
  have ib: "- (2 * ?B) < i" "i < ?B" using b assms(2) pos_mod_bound [of ?B ?t] pos_mod_sign [of ?B ?t] unfolding i_def by linarith+
  have "s = word_of_int (uint (ucast n :: u64) - uint carry - uint (tmp AND 0xffffffff))"
    unfolding assms(4) by (simp only: of_int_diff word_of_int_uint)
  then have s: "s = word_of_int i" unfolding i_def lo uint_widen .
  have "signed_drop_bit 32 s = word_of_int (i div ?B)"
  proof -
    have "sint (signed_drop_bit 32 s) = i div ?B"
      using ib by (simp add: sint_signed_drop_bit_eq s sint_small drop_bit_eq_div)
    then show ?thesis by (metis of_int_sint scast_id)
  qed
  moreover have "drop_bit 32 tmp = word_of_int (?t div ?B)"
  proof -
    have "uint (drop_bit 32 tmp) = ?t div ?B" by (simp only: uint_drop_div tmp)
    then show ?thesis by (metis word_of_int_uint)
  qed
  ultimately have c: "carry' = word_of_int (?t div ?B - i div ?B)" unfolding assms(5) by simp
  have digit: "i mod ?B = uint n - uint carry - ?t + (?t div ?B - i div ?B) * ?B"
    using div_mult_mod_eq [of i ?B] div_mult_mod_eq [of ?t ?B] unfolding i_def left_diff_distrib by linarith
  have "i mod ?B < ?B" by simp
  from carry_less [OF digit this tt(2) assms(2) b(4)] have lt: "?t div ?B - i div ?B < ?B" by simp
  have "i div ?B \<le> 0" using ib(2) zdiv_mono1 [of i "?B - 1" ?B] by simp
  moreover have "0 \<le> ?t div ?B" using tt(1) by (simp add: pos_imp_zdiv_nonneg_iff)
  ultimately have "0 \<le> ?t div ?B - i div ?B" by linarith
  then have cu: "uint carry' = ?t div ?B - i div ?B" unfolding c using lt by (intro uint_small) simp_all
  show "uint carry' < 2 ^ 32" using lt cu by simp
  show "uint (ucast s :: u32) = uint n - uint carry - uint qhat * uint d + uint carry' * 2 ^ 32"
    unfolding s low32 cu digit ..
qed

text \<open>
  A loop over the digits of the divisor that changes the digits of the dividend from \<open>p\<close> on. Each slot adds
  \<open>m\<close> times the digit of the divisor and a carry of weight \<open>sg\<close>.
\<close>

lemma digit_loop:
  fixes denom numer :: "u32 list" and B m sg bound :: int
  assumes "B = 2 ^ 32" "n \<le> length denom" "n + p \<le> length numer" "0 \<le> bound"
    and body: "\<And>i c ns. i < n \<Longrightarrow> uint (c :: u64) \<le> bound \<Longrightarrow> length ns = length numer \<Longrightarrow> \<exists>w c'. body i (c, ns) = ok (c', ns[i + p := w]) \<and>
      uint c' \<le> bound \<and> uint w = uint (ns ! (i + p)) + m * uint (denom ! i) - sg * uint c + sg * uint c' * B"
  shows "\<exists>c ns. run_fold body [0..<n] (0, numer) = ok (c, ns) \<and> uint c \<le> bound \<and> length ns = length numer \<and>
    number ns = number numer + m * number (take n denom) * B ^ p + sg * uint c * B ^ (p + n) \<and>
    (\<forall>j. p + n \<le> j \<longrightarrow> j < length numer \<longrightarrow> ns ! j = numer ! j)"
proof -
  define P where "P i s = (case s of (c :: u64, ns) \<Rightarrow> uint c \<le> bound \<and> length ns = length numer \<and>
    number ns = number numer + m * number (take i denom) * B ^ p + sg * uint c * B ^ (p + i) \<and>
    (\<forall>j. p + i \<le> j \<longrightarrow> j < length numer \<longrightarrow> ns ! j = numer ! j))" for i s
  have step: "\<exists>s'. body i s = ok s' \<and> P (Suc i) s'" if i: "i < n" and "P i s" for i s
  proof (cases s)
    case (Pair c ns)
    then have p: "uint c \<le> bound" "length ns = length numer"
      "number ns = number numer + m * number (take i denom) * B ^ p + sg * uint c * B ^ (p + i)"
      "\<And>j. p + i \<le> j \<Longrightarrow> j < length numer \<Longrightarrow> ns ! j = numer ! j"
      using that(2) by (simp_all add: P_def)
    obtain w c' where w: "body i (c, ns) = ok (c', ns[i + p := w])" "uint c' \<le> bound"
      "uint w = uint (ns ! (i + p)) + m * uint (denom ! i) - sg * uint c + sg * uint c' * B" using body [OF i p(1,2)] by blast
    have "number (take (Suc i) denom) = number (take i denom) + uint (denom ! i) * B ^ i"
      using number_take_Suc [of i denom] i assms(1,2) by simp
    moreover have "number (ns[i + p := w]) = number ns + (uint w - uint (ns ! (i + p))) * B ^ (i + p)"
      using number_update [of "i + p" ns w] i assms(1,3) p(2) by simp
    ultimately have "number (ns[i + p := w]) = number numer + m * number (take (Suc i) denom) * B ^ p + sg * uint c' * B ^ (p + Suc i)"
      using w(3) p(3) by (simp add: algebra_simps power_add)
    moreover have "\<forall>j. p + Suc i \<le> j \<longrightarrow> j < length numer \<longrightarrow> ns[i + p := w] ! j = numer ! j"
      using p(4) by auto
    ultimately show ?thesis using p(2) w(1,2) Pair by (auto simp: P_def)
  qed
  have "P 0 (0, numer)" using assms(4) by (simp add: P_def)
  from run_fold_up [of P, OF this, of n body] step show ?thesis by (auto simp: P_def)
qed

lemma mul_sub_loop:
  assumes "B = 2 ^ 32" "uint qhat < 2 ^ 32" "n \<le> length denom" "n + p \<le> length numer"
  shows "\<exists>c ns. run_fold (mul_sub_slot qhat p denom) [0..<n] (0, numer) = ok (c, ns) \<and> uint c \<le> B - 1 \<and> length ns = length numer \<and>
    number ns = number numer + (- uint qhat) * number (take n denom) * B ^ p + 1 * uint c * B ^ (p + n) \<and>
    (\<forall>j. p + n \<le> j \<longrightarrow> j < length numer \<longrightarrow> ns ! j = numer ! j)"
proof (rule digit_loop [OF assms(1,3,4)])
  fix i c and ns :: "u32 list" assume i: "i < n" "uint (c :: u64) \<le> B - 1" "length ns = length numer"
  define tmp where "tmp = qhat * ucast (denom ! i)"
  define s where "s = ucast (ns ! (i + p)) - c - (tmp AND 0xffffffff)"
  define c' where "c' = drop_bit 32 tmp - signed_drop_bit 32 s"
  have "uint c < 2 ^ 32" using i(2) assms(1) by simp
  from mul_sub_digit [OF assms(2) this tmp_def s_def c'_def]
  have "uint c' \<le> B - 1" "uint (ucast s :: u32) = uint (ns ! (i + p)) + - uint qhat * uint (denom ! i) - 1 * uint c + 1 * uint c' * B"
    using assms(1) by simp_all
  moreover have "mul_sub_slot qhat p denom i (c, ns) = ok (c', ns[i + p := ucast s])"
    using i assms by (simp add: mul_sub_slot_def idx_def upd_def Let_def c'_def s_def tmp_def)
  ultimately show "\<exists>w c'. mul_sub_slot qhat p denom i (c, ns) = ok (c', ns[i + p := w]) \<and>
      uint c' \<le> B - 1 \<and> uint w = uint (ns ! (i + p)) + - uint qhat * uint (denom ! i) - 1 * uint c + 1 * uint c' * B" by blast
qed (use assms in simp)

lemma add_back_loop:
  assumes "B = 2 ^ 32" "n \<le> length denom" "n + p \<le> length numer"
  shows "\<exists>c ns. run_fold (add_back_slot p denom) [0..<n] (0, numer) = ok (c, ns) \<and> uint c \<le> 1 \<and> length ns = length numer \<and>
    number ns = number numer + 1 * number (take n denom) * B ^ p + (-1) * uint c * B ^ (p + n) \<and>
    (\<forall>j. p + n \<le> j \<longrightarrow> j < length numer \<longrightarrow> ns ! j = numer ! j)"
proof (rule digit_loop [OF assms])
  fix i c and ns :: "u32 list" assume i: "i < n" "uint (c :: u64) \<le> 1" "length ns = length numer"
  define tmp :: u64 where "tmp = ucast (ns ! (i + p)) + (ucast (denom ! i) + c)"
  let ?n = "uint (ns ! (i + p))" and ?d = "uint (denom ! i)"
  have b: "0 \<le> ?n" "?n < 2 ^ 32" "0 \<le> ?d" "?d < 2 ^ 32" "0 \<le> uint c"
    using uint_bounded [of "ns ! (i + p)"] uint_bounded [of "denom ! i"] by simp_all
  have t: "uint tmp = ?n + ?d + uint c" using b i(2) by (simp add: tmp_def uint_plus_if')
  have "uint (ucast tmp :: u32) = uint tmp mod B" using low32 [of "uint tmp"] assms(1) by simp
  then have "uint (ucast tmp :: u32) = ?n + 1 * ?d - -1 * uint c + -1 * uint (drop_bit 32 tmp) * B"
    using div_mult_mod_eq [of "uint tmp" B] assms(1) by (simp only: uint_drop_div t)
  moreover have "uint (drop_bit 32 tmp) \<le> 1"
    using zdiv_mono1 [of "uint tmp" "2 ^ 33 - 1" "2 ^ 32"] b i(2) t by (simp add: uint_drop_div)
  moreover have "add_back_slot p denom i (c, ns) = ok (drop_bit 32 tmp, ns[i + p := ucast tmp])"
    using i assms by (simp add: add_back_slot_def idx_def upd_def Let_def tmp_def)
  ultimately show "\<exists>w c'. add_back_slot p denom i (c, ns) = ok (c', ns[i + p := w]) \<and>
      uint c' \<le> 1 \<and> uint w = ?n + 1 * ?d - -1 * uint c + -1 * uint c' * B" by blast
qed simp

section \<open>One digit of the quotient\<close>

lemma number_lt:
  fixes xs :: "'a::len word list"
  assumes "\<And>j. k \<le> j \<Longrightarrow> j < length xs \<Longrightarrow> xs ! j = 0" "k \<le> length xs"
  shows "number xs < (2 ^ LENGTH('a)) ^ k"
proof -
  have "\<forall>x\<in>set (drop k xs). x = 0" using assms(1) by (auto simp: in_set_conv_nth)
  then have "number (drop k xs) = 0" by (simp add: number_zero)
  then show ?thesis using number_split [of xs k] number_less [of "take k xs"] assms(2) by (simp add: min_absorb2)
qed

lemma number_full:
  fixes xs :: "'a::len word list"
  assumes "\<And>j. k \<le> j \<Longrightarrow> j < length xs \<Longrightarrow> xs ! j = 0"
  shows "number xs = number (take k xs)"
proof -
  have "number (drop k xs) = 0" using assms by (auto simp: number_zero in_set_conv_nth)
  then show ?thesis using number_split [of xs k] by simp
qed

lemma number_top:
  fixes xs :: "u32 list" and B :: int
  assumes "B = 2 ^ 32" "k < length xs"
  shows "number (take (Suc k) xs) = number (take k xs) + uint (xs ! k) * B ^ k"
    "0 \<le> number (take k xs)" "number (take k xs) < B ^ k"
  using number_take_Suc [OF assms(2)] number_bounds [of "take k xs"] assms by simp_all

text \<open>The dividend as its leading three digits, the divisor as its leading two.\<close>

lemma leading_digits:
  fixes numer denom :: "u32 list" and B :: int
  assumes "B = 2 ^ 32" "2 \<le> n" "n \<le> length denom" "n + p < length numer" "V = number (take n denom)" "number numer < V * B ^ (p + 1)"
    and "W = B ^ (n - 2 + p)" "V2 = uint (denom ! (n - 1)) * B + uint (denom ! (n - 2))"
    and "T = uint (numer ! (n + p)) * B + uint (numer ! (n - 1 + p))" "U3 = T * B + uint (numer ! (n - 2 + p))"
  obtains u v where "number numer = U3 * W + u" "0 \<le> u" "u < W" "V * B ^ p = V2 * W + v" "0 \<le> v" "v < W"
    "V < B ^ n" "\<And>j. n + p < j \<Longrightarrow> j < length numer \<Longrightarrow> numer ! j = 0"
proof -
  obtain m where n: "n = Suc (Suc m)" using assms(2) by (metis add_2_eq_Suc le_Suc_ex)
  have B: "0 < B" using assms(1) by simp
  have V: "V < B ^ n" using number_less [of "take n denom"] assms(1,3,5) by simp
  have "number numer < B ^ n * B ^ (p + 1)" using assms(6) V B by (smt (verit) mult_strict_right_mono zero_less_power)
  then have "number numer < B ^ Suc (n + p)" by (simp add: power_add mult_ac)
  then have zero: "numer ! j = 0" if "n + p < j" "j < length numer" for j
    using number_small [of numer "Suc (n + p)" j] that assms(1) by simp
  then have "number (drop (Suc (n + p)) numer) = 0" by (auto simp: number_zero in_set_conv_nth)
  then have "number numer = number (take (Suc (n + p)) numer)" using number_split [of numer "Suc (n + p)"] by simp
  also have "\<dots> = number (take (m + p) numer) + uint (numer ! (m + p)) * B ^ (m + p)
      + uint (numer ! Suc (m + p)) * B ^ Suc (m + p) + uint (numer ! (Suc (Suc (m + p)))) * B ^ Suc (Suc (m + p))"
    using assms(4) n by (simp add: number_top(1) [OF assms(1)] del: power_Suc)
  also have "\<dots> = U3 * W + number (take (m + p) numer)" unfolding assms(7,9,10) n by (simp add: algebra_simps)
  finally have U: "number numer = U3 * W + number (take (m + p) numer)" .
  have "V = number (take m denom) + uint (denom ! m) * B ^ m + uint (denom ! Suc m) * B ^ Suc m"
    unfolding assms(5) using assms(3) n by (simp add: number_top(1) [OF assms(1)] del: power_Suc)
  then have "V * B ^ p = V2 * W + number (take m denom) * B ^ p" unfolding assms(7,8) n by (simp add: algebra_simps power_add)
  moreover have "number (take m denom) * B ^ p < B ^ m * B ^ p"
    using number_top(3) [OF assms(1), of m denom] assms(3) n B by (intro mult_strict_right_mono) simp_all
  then have "number (take m denom) * B ^ p < W" unfolding assms(7) n by (simp add: power_add)
  moreover have "0 \<le> number (take m denom) * B ^ p" using number_nonneg B by (intro mult_nonneg_nonneg) simp_all
  moreover have "number (take (m + p) numer) < W" using number_top(3) [OF assms(1), of "m + p" numer] assms(4) n unfolding assms(7) by simp
  ultimately show ?thesis using that [OF U] number_nonneg V zero by blast
qed

lemma estimate_digit:
  fixes numer denom :: "u32 list" and B :: int
  assumes "B = 2 ^ 32" "2 \<le> n" "n \<le> length denom" "n + p < length numer" "V = number (take n denom)" "number numer < V * B ^ (p + 1)"
    and "2 ^ 31 \<le> uint (denom ! (n - 1))" "q = number numer div (V * B ^ p)"
    and "tmp = push_bit 32 (ucast (numer ! (n + p))) + ucast (numer ! (n - 1 + p))" "topw = ucast (denom ! (n - 1))"
  shows "\<exists>d. estimate_loop topw (ucast (denom ! (n - 2))) (ucast (numer ! (n - 2 + p))) (tmp div topw) (tmp mod topw) = ok d \<and>
    uint d < B \<and> q \<le> uint d \<and> uint d \<le> q + 1 \<and> 0 \<le> q \<and> q < B \<and> 0 < V"
proof -
  define W V2 T U3 where "W = B ^ (n - 2 + p)" and "V2 = uint (denom ! (n - 1)) * B + uint (denom ! (n - 2))"
    and "T = uint (numer ! (n + p)) * B + uint (numer ! (n - 1 + p))" and "U3 = T * B + uint (numer ! (n - 2 + p))"
  note defs = this
  obtain u v where uv: "number numer = U3 * W + u" "0 \<le> u" "u < W" "V * B ^ p = V2 * W + v" "0 \<le> v" "v < W"
    by (rule leading_digits [OF assms(1-6) defs])
  have B: "0 < B" "0 < W" using assms(1) by (simp_all add: defs(1))
  have dig: "0 \<le> uint x" "uint x < B" for x :: u32 using uint_bounded [of x] assms(1) by simp_all
  have N: "0 \<le> number numer" by (rule number_nonneg)
  have "1 * B \<le> uint (denom ! (n - 1)) * B" using assms(7) B by (intro mult_right_mono) simp_all
  then have V2: "B \<le> V2" using dig(1) [of "denom ! (n - 2)"] B(1) unfolding defs(2) by linarith
  then have VB: "0 < V * B ^ p" using B uv(4,5) by (simp add: add_pos_nonneg)
  then have V: "0 < V" using B by (simp add: zero_less_mult_iff)
  have q0: "0 \<le> q" unfolding assms(8) using N VB by (simp add: pos_imp_zdiv_nonneg_iff)
  have qV: "q * (V * B ^ p) \<le> number numer" unfolding assms(8)
    using div_mult_mod_eq [of "number numer" "V * B ^ p"] pos_mod_sign [OF VB, of "number numer"] by linarith
  have "q * (V * B ^ p) < B * (V * B ^ p)" using qV assms(6) by (simp add: mult_ac)
  then have qB: "q < B" using VB by (simp only: mult_less_cancel_right_pos)
  have qV2: "q * V2 \<le> U3" using leading_le [OF qV uv(4,5,1,3) q0 B(2)] .
  have "U3 * W < (V2 + 1) * B * W"
  proof -
    have "U3 * W < (V * B ^ p) * B" using uv(1,2) assms(6) by (simp add: mult_ac)
    also have "\<dots> \<le> ((V2 + 1) * W) * B" using uv(4,6) B by (intro mult_right_mono) (simp_all add: distrib_right)
    finally show ?thesis by (simp add: mult_ac)
  qed
  then have "U3 < (V2 + 1) * B" using B by simp
  then have "T * B < (V2 + 1) * B" using dig(1) [of "numer ! (n - 2 + p)"] unfolding defs(4) by linarith
  then have "T < V2 + 1" using B by simp
  then have T: "T < uint topw * 2 ^ 32 + 2 ^ 32" using dig(2) [of "denom ! (n - 2)"] unfolding defs(2) assms(1,10) by simp
  have top: "2 ^ 31 \<le> uint topw" "uint topw < 2 ^ 32" using assms(7,10) dig(2) [of "denom ! (n - 1)"] assms(1) by simp_all
  have tmp: "uint tmp = T"
  proof -
    have u0: "uint (push_bit 32 (ucast (numer ! (n + p)) :: u64)) = uint (numer ! (n + p)) * 2 ^ 32"
      using dig [of "numer ! (n + p)"] assms(1) by (simp only: unsigned_push_bit_eq uint_widen) (simp add: push_bit_eq_mult take_bit_int_eq_self)
    show ?thesis unfolding assms(9) defs(3) using dig [of "numer ! (n + p)"] dig [of "numer ! (n - 1 + p)"] assms(1) u0 by (simp add: uint_plus_if')
  qed
  have dm: "uint (tmp div topw) = T div uint topw" "uint (tmp mod topw) = T mod uint topw" by (simp_all add: uint_div uint_mod tmp)
  have "q * uint topw * B < (T + 1) * B"
  proof -
    have "q * uint topw * B \<le> q * V2" unfolding defs(2) assms(10) uint_widen using q0 dig(1) by (simp add: distrib_left mult.assoc)
    also have "\<dots> < (T + 1) * B" using qV2 dig(2) [of "numer ! (n - 2 + p)"] unfolding defs(4) by (simp add: distrib_right)
    finally show ?thesis .
  qed
  then have "q * uint topw \<le> T" using B by simp
  then have ge: "q \<le> T div uint topw" using zdiv_mono1 [of "q * uint topw" T "uint topw"] top by simp
  have "T mod uint topw < uint topw" using top by (intro pos_mod_bound) simp
  then have lt: "T mod uint topw < 2 ^ 32" using top by linarith
  have V2': "V2 = uint topw * 2 ^ 32 + uint (ucast (denom ! (n - 2)) :: u64)" and U3': "U3 = T * 2 ^ 32 + uint (ucast (numer ! (n - 2 + p)) :: u64)"
    by (simp_all add: defs(2,4) assms(1,10))
  have "\<exists>d. estimate_loop topw (ucast (denom ! (n - 2))) (ucast (numer ! (n - 2 + p))) (tmp div topw) (tmp mod topw) = ok d \<and>
      uint d < 2 ^ 32 \<and> q \<le> uint d \<and> uint d * V2 \<le> U3" unfolding V2' U3'
    using dig assms(1) qB qV2 ge lt unfolding V2' U3' by (intro estimate_loop_correct [OF top _ _ T q0]) (simp_all add: dm)
  then obtain d where d: "estimate_loop topw (ucast (denom ! (n - 2))) (ucast (numer ! (n - 2 + p))) (tmp div topw) (tmp mod topw) = ok d"
    "uint d < 2 ^ 32" "q \<le> uint d" "uint d * V2 \<le> U3" by blast
  have "uint d \<le> q + 1" unfolding assms(8) using leading_close [OF d(4) _ B(1) V2 uv(4,5,6,1,2) B(2) N] d(2) assms(1) by simp
  then show ?thesis using d q0 qB V assms(1) by auto
qed

lemma number_set_digit:
  fixes ns :: "u32 list" and B :: int
  assumes "B = 2 ^ 32" "k < length ns" "uint w = i mod B"
  shows "number (ns[k := w]) = number ns + (i - uint (ns ! k)) * B ^ k - (i div B) * B ^ Suc k"
proof -
  have "uint w = i - (i div B) * B" using assms(3) div_mult_mod_eq [of i B] by linarith
  then have "number (ns[k := w]) = number ns + (i - (i div B) * B - uint (ns ! k)) * B ^ k"
    using number_update [OF assms(2), of w] assms(1) by simp
  then show ?thesis by (simp add: algebra_simps)
qed

text \<open>The sign of the last difference tells whether the estimate was too large.\<close>

lemma quotient_digit_correct:
  fixes numer denom :: "u32 list" and B :: int
  assumes "B = 2 ^ 32" "2 \<le> n" "n \<le> length denom" "n + p < length numer" "p < length qs" "V = number (take n denom)"
    and "number numer < V * B ^ (p + 1)" "2 ^ 31 \<le> uint (denom ! (n - 1))" "q = number numer div (V * B ^ p)"
  shows "\<exists>ns. quotient_digit n denom (ucast (denom ! (n - 1))) p (numer, qs) = ok (ns, qs[p := word_of_int q]) \<and>
    length ns = length numer \<and> number ns = number numer - q * (V * B ^ p) \<and> 0 \<le> q \<and> q < B"
proof -
  let ?N = "number numer" and ?VB = "V * B ^ p" and ?M = "B ^ Suc (p + n)" and ?topw = "ucast (denom ! (n - 1)) :: u64"
  define tmp :: u64 where "tmp = push_bit 32 (ucast (numer ! (n + p))) + ucast (numer ! (n - 1 + p))"
  obtain d where d: "estimate_loop ?topw (ucast (denom ! (n - 2))) (ucast (numer ! (n - 2 + p))) (tmp div ?topw) (tmp mod ?topw) = ok d"
    "uint d < B" "q \<le> uint d" "uint d \<le> q + 1" "0 \<le> q" "q < B" "0 < V"
    using estimate_digit [OF assms(1-4,6-9) tmp_def refl] by blast
  have zero: "numer ! j = 0" if "n + p < j" "j < length numer" for j
    using leading_digits [OF assms(1-4,6,7) refl refl refl refl] that by metis
  obtain c ns where ns: "run_fold (mul_sub_slot d p denom) [0..<n] (0, numer) = ok (c, ns)" "uint c \<le> B - 1" "length ns = length numer"
    "number ns = ?N - uint d * ?VB + uint c * B ^ (p + n)" "\<And>j. p + n \<le> j \<Longrightarrow> j < length numer \<Longrightarrow> ns ! j = numer ! j"
    using mul_sub_loop [OF assms(1), of d n denom p numer] d(2) assms(1,3,4,6) by (auto simp: mult.assoc)
  define i where "i = uint (numer ! (p + n)) - uint c"
  define s :: u64 where "s = ucast (numer ! (p + n)) - c"
  have "uint (numer ! (p + n)) < B" using uint_bounded [of "numer ! (p + n)"] assms(1) by simp
  then have ib: "- B < i" "i < B" using ns(2) uint_nonnegative [of c] uint_nonnegative [of "numer ! (p + n)"]
    unfolding i_def by linarith+
  have "s = word_of_int (uint (ucast (numer ! (p + n)) :: u64) - uint c)" unfolding s_def by (simp only: of_int_diff word_of_int_uint)
  then have si: "s = word_of_int i" by (simp only: i_def uint_widen)
  then have ss: "sint s = i" "uint (ucast s :: u32) = i mod B" using ib assms(1) low32 [of i] by (simp_all add: sint_small)
  let ?n2 = "ns[p + n := ucast s]"
  have lt: "number xs < ?M" if "length xs = length numer" "\<And>j. Suc (p + n) \<le> j \<Longrightarrow> j < length numer \<Longrightarrow> xs ! j = 0" for xs :: "u32 list"
    using number_lt [of "Suc (p + n)" xs] that assms(1,4) by simp
  have n2: "number ?n2 = ?N - uint d * ?VB - (i div B) * ?M"
    using number_set_digit [OF assms(1) _ ss(2), of "p + n" ns] ns(3-5) assms(4) by (simp add: i_def algebra_simps)
  have n2b: "0 \<le> number ?n2" by (rule number_nonneg)
  have n2l: "number ?n2 < ?M" by (rule lt) (use ns(3,5) zero in \<open>auto simp: add.commute\<close>)
  have topnz: "?topw \<noteq> 0" using assms(8) by (metis uint_widen uint_0_iff not_numeral_le_zero zero_le_power not_le zero_less_power zero_less_numeral)
  have "ns ! (p + n) = numer ! (p + n)" using ns(5) assms(4) by (simp add: add.commute)
  then have ix: "idx numer (n + p) = ok (numer ! (n + p))" "idx numer (n - 1 + p) = ok (numer ! (n - 1 + p))"
    "idx denom (n - 2) = ok (denom ! (n - 2))" "idx numer (n - 2 + p) = ok (numer ! (n - 2 + p))"
    "idx ns (p + n) = ok (numer ! (p + n))" "upd qs p w = ok (qs[p := w])" "(n < 2) = False" for w
    using assms(2-5) ns(3) by (auto simp: idx_def upd_def)
  have pre: "quotient_digit n denom ?topw p (numer, qs) = (if i < 0 then
      run_bind (run_fold (add_back_slot p denom) [0..<n] (0, ?n2)) (\<lambda>(carry, numer).
        run_bind (idx numer (p + n)) (\<lambda>n'. run_bind (upd numer (p + n) (n' + ucast carry)) (\<lambda>numer.
        ok (numer, qs[p := ucast d - 1])))) else ok (?n2, qs[p := ucast d]))"
    by (simp only: quotient_digit_def prod.case Let_def ix run_bind_simps tmp_def [symmetric] d(1) ns(1) topnz if_False)
      (use assms(4,5) ns(3) ss(1) in \<open>simp add: idx_def upd_def s_def [symmetric]\<close>)
  have VB: "0 < ?VB" using d(7) assms(1) by simp
  have qVB: "q * ?VB \<le> ?N" unfolding assms(9)
    using div_mult_mod_eq [of ?N ?VB] pos_mod_sign [OF VB, of ?N] by linarith
  have cast: "ucast x = (word_of_int (uint x) :: u32)" for x :: u64 by (rule ucast_eq)
  show ?thesis
  proof (cases "i < 0")
    case False
    then have "i div B = 0" using ib by simp
    then have le: "uint d * ?VB \<le> ?N" and eq: "number ?n2 = ?N - uint d * ?VB" using n2 n2b by simp_all
    have "uint d * ?VB div ?VB = uint d" using VB by (intro nonzero_mult_div_cancel_right) linarith
    then have "uint d \<le> q" unfolding assms(9) using zdiv_mono1 [OF le VB] by linarith
    then have "uint d = q" using d(3) by simp
    then show ?thesis using False pre eq d(5,6) ns(3) cast [of d] by auto
  next
    case True
    have neg: "i div B = -1"
    proof -
      have "i div B = (i + B) div B - 1" using assms(1) by simp
      moreover have "(i + B) div B = 0" using True ib by (intro div_pos_pos_trivial) simp_all
      ultimately show ?thesis by simp
    qed
    have "?N < uint d * ?VB" using n2 n2l neg by simp
    then have "q * ?VB < uint d * ?VB" using qVB by simp
    then have dq: "uint d = q + 1" using d(4) VB by (auto simp: mult_less_cancel_right)
    obtain c2 n3 where n3: "run_fold (add_back_slot p denom) [0..<n] (0, ?n2) = ok (c2, n3)" "uint c2 \<le> 1" "length n3 = length numer"
      "number n3 = number ?n2 + ?VB - uint c2 * B ^ (p + n)" "\<And>j. p + n \<le> j \<Longrightarrow> j < length numer \<Longrightarrow> n3 ! j = ?n2 ! j"
      using add_back_loop [OF assms(1), of n denom p ?n2] assms(3,4,6) ns(3) by auto
    define k where "k = uint (n3 ! (p + n)) + uint c2"
    let ?w = "n3 ! (p + n) + ucast c2" and ?n4 = "n3[p + n := n3 ! (p + n) + ucast c2]"
    have w: "uint ?w = k mod B"
      using n3(2) low32 [of "uint c2"] assms(1) by (simp add: k_def uint_word_ariths)
    have n4: "number ?n4 = ?N - q * ?VB + ?M - (k div B) * ?M"
      using number_set_digit [OF assms(1) _ w, of "p + n" n3] n3(3,4) assms(4) n2 neg dq by (simp add: k_def algebra_simps)
    have "number ?n4 < ?M" by (rule lt) (use ns(3,5) n3(3,5) zero in \<open>auto simp: add.commute\<close>)
    then have "0 < (k div B) * ?M" using n4 qVB by simp
    then have "0 < k div B" using assms(1) by (simp add: zero_less_mult_iff)
    moreover have "k div B \<le> 1"
    proof -
      have "k \<le> B" using n3(2) uint_bounded [of "n3 ! (p + n)"] assms(1) by (simp add: k_def)
      then show ?thesis using zdiv_mono1 [of k B B] assms(1) by simp
    qed
    ultimately have "number ?n4 = ?N - q * ?VB" using n4 by (simp add: order_antisym)
    moreover have "quotient_digit n denom ?topw p (numer, qs) = ok (?n4, qs[p := word_of_int q])"
      using pre True n3(1,3) assms(4) dq cast [of d] by (simp add: idx_def upd_def)
    ultimately show ?thesis using d(5,6) n3(3) by auto
  qed
qed

section \<open>Normalisation\<close>

lemma shift_left_words:
  assumes "0 < k" "k < 32" "0 < sz" "sz \<le> length arr"
  shows "\<exists>res. shift_left arr sz k = ok res \<and> length res = length arr \<and>
    (\<forall>j<length arr. res ! j = (if j < sz then push_bit k (arr ! j) OR (if j = 0 then 0 else drop_bit (32 - k) (arr ! (j - 1))) else arr ! j))"
proof -
  let ?f = "\<lambda>slot arr. run_bind (idx arr slot) (\<lambda>hi. run_bind (idx arr (slot - 1)) (\<lambda>lo.
          upd arr slot (shl32 hi k OR shr32 lo (32 - k))))"
  define P where "P i res \<longleftrightarrow> length res = length arr \<and> (\<forall>j<length arr. res ! j =
    (if i \<le> j \<and> j < sz then push_bit k (arr ! j) OR drop_bit (32 - k) (arr ! (j - 1)) else arr ! j))" for i res
  have sh: "shl32 v k = push_bit k v" "shr32 v (32 - k) = drop_bit (32 - k) v" for v using assms by (simp_all add: shl32_def shr32_def)
  have step: "\<exists>s'. ?f i s = ok s' \<and> P i s'" if i: "1 \<le> i" "i < sz" and "P (Suc i) s" for i s
  proof -
    have s: "length s = length arr" "s ! i = arr ! i" "s ! (i - 1) = arr ! (i - 1)" "i < length arr" using that assms by (auto simp: P_def)
    then have "?f i s = ok (s[i := push_bit k (arr ! i) OR drop_bit (32 - k) (arr ! (i - 1))])" by (simp add: idx_def upd_def sh)
    moreover have "P i (s[i := push_bit k (arr ! i) OR drop_bit (32 - k) (arr ! (i - 1))])"
      using that(2,3) s by (auto simp: P_def nth_list_update)
    ultimately show ?thesis by blast
  qed
  have "P sz arr" unfolding P_def by auto
  from run_fold_down [of P, OF this, of 1 ?f] step assms(3)
  obtain res where res: "run_fold ?f (rev [1..<sz]) arr = ok res" "P 1 res" by auto
  have "0 < length arr" using assms(3,4) by (rule less_le_trans)
  moreover have "length res = length arr" using res(2) by (simp add: P_def)
  ultimately have "res ! 0 = arr ! 0" "0 < length res" using res(2) by (auto simp: P_def)
  then have "shift_left arr sz k = ok (res[0 := push_bit k (arr ! 0)])"
    using res(1) assms(1,2) by (simp add: shift_left_def idx_def upd_def sh(1))
  then show ?thesis using res(2) assms(3) \<open>0 < length res\<close>
    by (intro exI [of _ "res[0 := push_bit k (arr ! 0)]"]) (simp add: P_def nth_list_update)
qed

lemma shift_left_correct:
  fixes B :: int
  assumes "B = 2 ^ 32" "k < 32" "0 < sz" "sz \<le> length arr" "number arr * 2 ^ k < B ^ sz"
  shows "\<exists>res. shift_left arr sz k = ok res \<and> length res = length arr \<and> number res = number arr * 2 ^ k"
proof (cases "k = 0")
  case False
  then obtain res where res: "shift_left arr sz k = ok res" "length res = length arr"
    "\<And>j. j < length arr \<Longrightarrow> res ! j = (if j < sz then push_bit k (arr ! j) OR (if j = 0 then 0 else drop_bit (32 - k) (arr ! (j - 1))) else arr ! j)"
    using shift_left_words [of k sz arr] assms by auto
  have k: "0 < k" "k < LENGTH(32)" using False assms(2) by simp_all
  have pos: "0 < B" using assms(1) by simp
  have digit: "uint (arr ! i) * 2 ^ k = uint (push_bit k (arr ! i)) + B * uint (drop_bit (32 - k) (arr ! i))" for i
    using shift_digit [OF k, of "arr ! i"] assms(1) by simp
  have low: "number (take (Suc i) res) = number (take (Suc i) arr) * 2 ^ k - uint (drop_bit (32 - k) (arr ! i)) * B ^ Suc i"
    if "i < sz" for i using that
  proof (induction i)
    case 0
    have l: "0 < length arr" using assms(3,4) by (rule less_le_trans)
    then have "res ! 0 = push_bit k (arr ! 0)" "0 < length res" using res(2) res(3) [of 0] assms(3) by auto
    then show ?case using l digit [of 0] number_top(1) [OF assms(1), of 0 res] number_top(1) [OF assms(1), of 0 arr]
      by (simp add: algebra_simps)
  next
    case (Suc i)
    let ?c = "\<lambda>j. uint (drop_bit (32 - k) (arr ! j))"
    have "uint (res ! Suc i) = uint (push_bit k (arr ! Suc i)) + ?c i" using res(3) [of "Suc i"] Suc.prems assms(4) shift_or [OF k] by simp
    then have d: "uint (res ! Suc i) = uint (arr ! Suc i) * 2 ^ k - B * ?c (Suc i) + ?c i" using digit [of "Suc i"] by simp
    have "number (take (Suc (Suc i)) res) = number (take (Suc i) res) + uint (res ! Suc i) * B ^ Suc i"
      "number (take (Suc (Suc i)) arr) = number (take (Suc i) arr) + uint (arr ! Suc i) * B ^ Suc i"
      using Suc.prems res(2) assms(4) by (simp_all only: number_top(1) [OF assms(1)])
    then show ?case using Suc.IH Suc.prems unfolding d by (simp add: algebra_simps)
  qed
  have "number arr \<le> number arr * 2 ^ k" using number_nonneg [of arr] by (simp add: mult_le_cancel_left1)
  then have "number arr < B ^ sz" using assms(5) by linarith
  then have zero: "arr ! j = 0" if "sz \<le> j" "j < length arr" for j using number_small [of arr sz j] that assms(1) by simp
  have eqs: "number res = number (take sz res)" "number arr = number (take sz arr)"
    using zero res(2,3) by (auto intro!: number_full)
  let ?c = "uint (drop_bit (32 - k) (arr ! (sz - 1)))"
  have r: "number res = number arr * 2 ^ k - ?c * B ^ sz" using low [of "sz - 1"] assms(3) eqs by simp
  then have "?c * B ^ sz < 1 * B ^ sz" using number_nonneg [of res] assms(5) by linarith
  then have "?c < 1" using pos by (simp only: mult_less_cancel_right_pos zero_less_power)
  then have "?c = 0" using uint_nonnegative [of "drop_bit (32 - k) (arr ! (sz - 1))"] by linarith
  then show ?thesis using res(1,2) r by auto
qed (use assms in \<open>simp add: shift_left_def\<close>)

lemma shift_right_words:
  assumes "0 < k" "k < 32" "0 < sz" "sz \<le> length arr"
  shows "\<exists>res. shift_right arr sz k = ok res \<and> length res = length arr \<and>
    (\<forall>j<length arr. res ! j = (if Suc j < sz then push_bit (32 - k) (arr ! Suc j) OR drop_bit k (arr ! j)
      else if Suc j = sz then drop_bit k (arr ! j) else arr ! j))"
proof -
  let ?f = "\<lambda>slot arr. run_bind (idx arr slot) (\<lambda>lo. run_bind (idx arr (slot + 1)) (\<lambda>hi.
          upd arr slot (shr32 lo k OR shl32 hi (32 - k))))"
  define P where "P i res \<longleftrightarrow> length res = length arr \<and> (\<forall>j<length arr. res ! j =
    (if j < i then push_bit (32 - k) (arr ! Suc j) OR drop_bit k (arr ! j) else arr ! j))" for i res
  have sh: "shr32 v k = drop_bit k v" "shl32 v (32 - k) = push_bit (32 - k) v" for v using assms by (simp_all add: shl32_def shr32_def)
  have step: "\<exists>s'. ?f i s = ok s' \<and> P (Suc i) s'" if i: "i < sz - 1" and "P i s" for i s
  proof -
    have s: "length s = length arr" "s ! i = arr ! i" "s ! (i + 1) = arr ! Suc i" "Suc i < length arr" using that assms by (auto simp: P_def)
    then have "?f i s = ok (s[i := push_bit (32 - k) (arr ! Suc i) OR drop_bit k (arr ! i)])" by (simp add: idx_def upd_def sh or.commute)
    moreover have "P (Suc i) (s[i := push_bit (32 - k) (arr ! Suc i) OR drop_bit k (arr ! i)])"
      using that(2) s by (auto simp: P_def nth_list_update)
    ultimately show ?thesis by blast
  qed
  have "P 0 arr" by (simp add: P_def)
  from run_fold_up [of P, OF this, of "sz - 1" ?f] step
  obtain res where res: "run_fold ?f [0..<sz - 1] arr = ok res" "P (sz - 1) res" by auto
  have l: "sz - 1 < length arr" using assms by simp
  then have "res ! (sz - 1) = arr ! (sz - 1)" "sz - 1 < length res" "length res = length arr" using res(2) by (auto simp: P_def)
  then have "shift_right arr sz k = ok (res[sz - 1 := drop_bit k (arr ! (sz - 1))])"
    using res(1) assms(1,3) unfolding shift_right_def by (simp add: idx_def upd_def sh(1))
  then show ?thesis using res(2) assms(3) l
    by (intro exI [of _ "res[sz - 1 := drop_bit k (arr ! (sz - 1))]"]) (auto simp: P_def nth_list_update)
qed

lemma shift_right_correct:
  fixes B :: int
  assumes "B = 2 ^ 32" "k < 32" "0 < sz" "sz \<le> length arr" "number arr < B ^ sz" "number arr = X * 2 ^ k"
  shows "\<exists>res. shift_right arr sz k = ok res \<and> length res = length arr \<and> number res = X"
proof (cases "k = 0")
  case False
  then obtain res where res: "shift_right arr sz k = ok res" "length res = length arr"
    "\<And>j. j < length arr \<Longrightarrow> res ! j = (if Suc j < sz then push_bit (32 - k) (arr ! Suc j) OR drop_bit k (arr ! j)
      else if Suc j = sz then drop_bit k (arr ! j) else arr ! j)"
    using shift_right_words [of k sz arr] assms by auto
  have k: "0 < 32 - k" "32 - k < LENGTH(32)" "32 - (32 - k) = k" using False assms(2) by simp_all
  have pos: "0 < B" using assms(1) by simp
  let ?g = "\<lambda>j. uint (push_bit (32 - k) (arr ! j))" and ?f = "\<lambda>j. uint (drop_bit k (arr ! j))"
  have digit: "uint (arr ! i) * 2 ^ (32 - k) = ?g i + B * ?f i" for i
    using shift_digit [OF k(1,2), of "arr ! i"] k(3) assms(1) by simp
  have low: "B * number (take i res) + ?g 0 = number (take i arr) * 2 ^ (32 - k) + ?g i * B ^ i" if "i < sz" for i using that
  proof (induction i)
    case (Suc i)
    have "uint (res ! i) = ?g (Suc i) + ?f i" using res(3) [of i] Suc.prems assms(4) shift_or [OF k(1,2), of "arr ! Suc i" "arr ! i"] k(3) by simp
    moreover have "number (take (Suc i) res) = number (take i res) + uint (res ! i) * B ^ i"
      "number (take (Suc i) arr) = number (take i arr) + uint (arr ! i) * B ^ i"
      using Suc.prems res(2) assms(4) by (simp_all only: number_top(1) [OF assms(1)])
    moreover have "B * number (take i res) + ?g 0 = number (take i arr) * 2 ^ (32 - k) + ?g i * B ^ i" using Suc by simp
    moreover have "(uint (arr ! i) * B ^ i) * 2 ^ (32 - k) = (?g i + B * ?f i) * B ^ i" using digit [of i] by (metis mult.commute mult.left_commute)
    ultimately show ?case by (simp add: distrib_left distrib_right mult_ac)
  qed simp
  obtain m where m: "sz = Suc m" using assms(3) by (cases sz) auto
  have "uint (res ! m) = ?f m" using res(3) [of m] assms(4) m by simp
  moreover have "number (take sz res) = number (take m res) + uint (res ! m) * B ^ m"
    "number (take sz arr) = number (take m arr) + uint (arr ! m) * B ^ m"
    using m res(2) assms(4) by (simp_all only: number_top(1) [OF assms(1)])
  moreover have "(uint (arr ! m) * B ^ m) * 2 ^ (32 - k) = (?g m + B * ?f m) * B ^ m" using digit [of m] by (metis mult.commute mult.left_commute)
  ultimately have top: "B * number (take sz res) + ?g 0 = number (take sz arr) * 2 ^ (32 - k)"
    using low [of m] m by (simp add: distrib_left distrib_right mult_ac)
  have zero: "arr ! j = 0" if "sz \<le> j" "j < length arr" for j using number_small [of arr sz j] that assms(1,5) by simp
  have "number res = number (take sz res)" "number arr = number (take sz arr)" using zero res(2,3) by (auto intro!: number_full)
  then have "B * number res + ?g 0 = number arr * 2 ^ (32 - k)" using top by simp
  then have "B * number res + ?g 0 = X * (2 ^ k * 2 ^ (32 - k))" unfolding assms(6) by (simp only: mult.assoc)
  also have "2 ^ k * 2 ^ (32 - k) = B" using assms(1,2) by (simp flip: power_add)
  finally have eq: "?g 0 = (X - number res) * B" by (simp add: algebra_simps)
  have "0 \<le> ?g 0" "?g 0 < 1 * B" using uint_bounded [of "push_bit (32 - k) (arr ! 0)"] assms(1) by simp_all
  then have "0 \<le> X - number res" "X - number res < 1" using pos unfolding eq by (simp_all only: mult_less_cancel_right_pos zero_le_mult_iff) auto
  then show ?thesis using res(1,2) by auto
qed (use assms in \<open>simp add: shift_right_def\<close>)

text \<open>The shift that moves the highest bit of a digit to the top.\<close>

lemma normal_shift:
  fixes d :: u32
  assumes "d \<noteq> 0" "k = leading_zeros (ucast d) - 32"
  shows "k < 32" "2 ^ 31 \<le> uint d * 2 ^ k" "uint d * 2 ^ k < 2 ^ 32"
proof -
  let ?v = "ucast d :: u64"
  have vd: "uint ?v = uint d" by simp
  have nz: "?v \<noteq> 0" using assms(1) vd by (metis uint_0_iff)
  define m where "m = nat (mostsigbit_set ?v)"
  note hi = mostsigbit_set_highest [OF nz]
  have m: "bit ?v m" "\<And>i. m < i \<Longrightarrow> \<not> bit ?v i" using hi(3,4) by (simp_all add: m_def)
  have l: "leading_zeros ?v = 63 - m" "m < 64" using hi(1,2) nz by (simp_all add: m_def mostsigbit_set_def)
  have "take_bit (Suc m) (uint ?v) = uint ?v"
  proof (rule bit_eqI)
    fix i show "bit (take_bit (Suc m) (uint ?v)) i = bit (uint ?v) i"
      using m(2) [of i] by (cases "m < i") (simp_all add: bit_take_bit_iff bit_uint_iff bit_ucast_iff)
  qed
  then have up: "uint d < 2 ^ Suc m" using vd by (metis take_bit_int_less_exp)
  have "bit (uint ?v) m" using m(1) l(2) by (simp only: bit_uint_iff) simp
  then have "uint d div 2 ^ m \<noteq> 0" unfolding vd bit_iff_odd by (metis even_zero)
  then have lo: "2 ^ m \<le> uint d" using div_pos_pos_trivial [of "uint d" "2 ^ m"] by fastforce
  have "(2 :: int) ^ m < 2 ^ 32" using lo uint_bounded [of d] by simp
  then have m32: "m < 32" by (rule power_less_imp_less_exp [rotated]) simp
  then have k: "k = 31 - m" using assms(2) l by simp
  then show "k < 32" by simp
  have p: "(2 :: int) ^ m * 2 ^ k = 2 ^ 31" "(2 :: int) ^ Suc m * 2 ^ k = 2 ^ 32" using m32 k by (simp_all flip: power_add power_Suc)
  show "2 ^ 31 \<le> uint d * 2 ^ k" using mult_right_mono [OF lo, of "2 ^ k"] unfolding p(1) by simp
  show "uint d * 2 ^ k < 2 ^ 32" using mult_strict_right_mono [OF up, of "2 ^ k"] unfolding p(2) by simp
qed

section \<open>Long division\<close>

lemma quotient_loop:
  fixes numer denom qs :: "u32 list" and B :: int
  assumes "B = 2 ^ 32" "2 \<le> n" "n \<le> length denom" "n + m \<le> length numer" "m \<le> length qs" "V = number (take n denom)" "0 < V"
    and "number numer < V * B ^ m" "2 ^ 31 \<le> uint (denom ! (n - 1))" "\<forall>x\<in>set qs. x = 0"
  shows "\<exists>ns qs'. run_fold (quotient_digit n denom (ucast (denom ! (n - 1)))) (rev [0..<m]) (numer, qs) = ok (ns, qs') \<and>
    length ns = length numer \<and> length qs' = length qs \<and> number ns = number numer mod V \<and> number qs' = number numer div V"
proof -
  let ?f = "quotient_digit n denom (ucast (denom ! (n - 1)))" and ?N = "number numer"
  define P where "P i s = (case s of (ns :: u32 list, ws :: u32 list) \<Rightarrow> length ns = length numer \<and> length ws = length qs \<and> (\<forall>j<i. ws ! j = 0) \<and>
    number ns < V * B ^ i \<and> ?N = number ws * V + number ns)" for i s
  have step: "\<exists>s'. ?f i s = ok s' \<and> P i s'" if i: "i < m" and P: "P (Suc i) s" for i s
  proof (cases s)
    case (Pair ns ws)
    then have p: "length ns = length numer" "length ws = length qs" "\<And>j. j < Suc i \<Longrightarrow> ws ! j = 0" "number ns < V * B ^ (i + 1)"
      "?N = number ws * V + number ns" using P by (simp_all add: P_def)
    define q where "q = number ns div (V * B ^ i)"
    have len: "n + i < length ns" "i < length ws" using i p(1,2) assms(4,5) by simp_all
    obtain ns' where d: "?f i (ns, ws) = ok (ns', ws[i := word_of_int q])" "length ns' = length ns"
      "number ns' = number ns - q * (V * B ^ i)" "0 \<le> q" "q < B"
      using quotient_digit_correct [OF assms(1-3) len assms(6) p(4) assms(9) q_def] by blast
    have VB: "0 < V * B ^ i" using assms(1,7) by simp
    have "number ns' = number ns mod (V * B ^ i)" unfolding d(3) q_def by (simp add: minus_div_mult_eq_mod)
    then have lt: "number ns' < V * B ^ i" using pos_mod_bound [OF VB] by simp
    have "uint (word_of_int q :: u32) = q" using d(4,5) assms(1) by (simp add: uint_word_of_int_eq take_bit_int_eq_self)
    then have "number (ws[i := word_of_int q]) = number ws + q * B ^ i"
      using number_update [OF len(2), of "word_of_int q"] p(3) [of i] assms(1) by simp
    then have "?N = number (ws[i := word_of_int q]) * V + number ns'" using p(5) d(3) by (simp add: algebra_simps)
    then show ?thesis using Pair d(1,2) p(1,2,3) lt by (auto simp: P_def)
  qed
  have "P m (numer, qs)" using assms(5,8,10) number_zero [of qs] by (simp add: P_def)
  from run_fold_down [of P, OF this, of 0 ?f] step
  obtain ns qs' where r: "run_fold ?f (rev [0..<m]) (numer, qs) = ok (ns, qs')" "P 0 (ns, qs')" by auto
  then have e: "?N = number qs' * V + number ns" "number ns < V" "length ns = length numer" "length qs' = length qs" by (simp_all add: P_def)
  have "number ns = ?N mod V" "number qs' = ?N div V" using e(1,2) number_nonneg [of ns] assms(7) by simp_all
  then show ?thesis using r(1) e(3,4) by blast
qed

lemma knuth_correct:
  fixes numer denom qs :: "u32 list" and B :: int
  assumes "B = 2 ^ 32" "2 \<le> n" "n \<le> length denom" "number denom < B ^ n" "denom ! (n - 1) \<noteq> 0"
    and "n < nl" "nl \<le> length numer" "number numer < B ^ (nl - 1)" "nl - n \<le> length qs" "\<forall>x\<in>set qs. x = 0"
  shows "\<exists>ns ds qs'. knuth_algorithm_d nl n numer denom qs = ok (ns, ds, qs') \<and> length ns = length numer \<and> length qs' = length qs \<and>
    number ns = number numer mod number denom \<and> number qs' = number numer div number denom"
proof -
  let ?D = "number denom" and ?N = "number numer"
  obtain m where n: "n = Suc m" using assms(2) by (cases n) auto
  define k where "k = leading_zeros (ucast (denom ! m)) - 32"
  have dm: "denom ! m \<noteq> 0" "m < length denom" using assms(3,5) n by simp_all
  note k = normal_shift [OF dm(1) k_def]
  have pos: "0 < B" using assms(1) by simp
  have "?D = number (take n denom)" using number_small [of denom n] assms(1,4) by (intro number_full) simp
  then have D: "?D = number (take m denom) + uint (denom ! m) * B ^ m" "0 \<le> number (take m denom)" "number (take m denom) < B ^ m"
    using number_top [OF assms(1) dm(2)] n by simp_all
  have "?D * 2 ^ k < B ^ n"
  proof -
    have "?D * 2 ^ k < (uint (denom ! m) + 1) * B ^ m * 2 ^ k" using D by (intro mult_strict_right_mono) (simp_all add: distrib_right)
    also have "\<dots> = (uint (denom ! m) * 2 ^ k + 2 ^ k) * B ^ m" by (simp add: algebra_simps)
    also have "\<dots> \<le> B * B ^ m"
    proof (rule mult_right_mono)
      have "2 ^ k dvd (2 :: int) ^ 32" using k(1) by (intro le_imp_power_dvd) simp
      then obtain e where e: "(2 :: int) ^ 32 = 2 ^ k * e" by (rule dvdE)
      then have "uint (denom ! m) * 2 ^ k < e * 2 ^ k" using k(3) by (simp add: mult.commute)
      then have "(uint (denom ! m) + 1) * 2 ^ k \<le> e * 2 ^ k" by (intro mult_right_mono) simp_all
      then have "(uint (denom ! m) + 1) * 2 ^ k \<le> B" using e assms(1) by (simp only: mult.commute)
      then show "uint (denom ! m) * 2 ^ k + 2 ^ k \<le> B" by (simp only: distrib_right mult_1_left)
    qed (use pos in simp)
    finally show ?thesis using n by simp
  qed
  note db = this
  then obtain ds where ds: "shift_left denom n k = ok ds" "length ds = length denom" "number ds = ?D * 2 ^ k"
    using shift_left_correct [OF assms(1) k(1) _ assms(3)] n by auto
  have "?N * 2 ^ k < B ^ nl"
  proof -
    have "(2 :: int) ^ k \<le> 2 ^ 32" using k(1) by (intro power_increasing) simp_all
    then have "?N * 2 ^ k \<le> ?N * B" unfolding assms(1) using number_nonneg by (intro mult_left_mono)
    also have "\<dots> < B ^ (nl - 1) * B" using assms(8) pos by (intro mult_strict_right_mono)
    finally show ?thesis using assms(6) by (simp add: power_eq_if [of B nl] mult.commute)
  qed
  note ub = this
  then obtain us where us: "shift_left numer nl k = ok us" "length us = length numer" "number us = ?N * 2 ^ k"
    using shift_left_correct [OF assms(1) k(1) _ assms(7)] assms(6) by auto
  have "1 \<le> uint (denom ! m)" using dm(1) uint_nonnegative [of "denom ! m"] uint_0_iff [of "denom ! m"] by linarith
  then have "1 * B ^ m \<le> uint (denom ! m) * B ^ m" using pos by (intro mult_right_mono) simp_all
  then have DB: "B ^ m \<le> ?D" using D by linarith
  have V: "number ds = number (take n ds)" using number_small [of ds n] ds(3) db assms(1) by (intro number_full) simp
  have top: "2 ^ 31 \<le> uint (ds ! (n - 1))"
  proof -
    have "2 ^ 31 * B ^ m \<le> uint (denom ! m) * 2 ^ k * B ^ m" using k(2) pos by (intro mult_right_mono) simp_all
    also have "\<dots> \<le> ?D * 2 ^ k" using D by (simp add: distrib_right mult_ac)
    also have "\<dots> < (uint (ds ! m) + 1) * B ^ m"
      using number_top [OF assms(1), of m ds] V ds(2,3) dm(2) n by (simp add: distrib_right)
    finally have "2 ^ 31 < uint (ds ! m) + 1" using pos by (simp only: mult_less_cancel_right_pos zero_less_power)
    then show ?thesis using n by simp
  qed
  have Vpos: "0 < number ds" using DB pos ds(3) by (smt (verit) mult_pos_pos zero_less_power)
  have small: "number us < number ds * B ^ (nl - n)"
  proof -
    have "?N < B ^ m * B ^ (nl - n)" using assms(6,8) n by (simp flip: power_add)
    also have "\<dots> \<le> ?D * B ^ (nl - n)" using DB pos by (intro mult_right_mono) simp_all
    finally have "?N * 2 ^ k < ?D * B ^ (nl - n) * 2 ^ k" by (intro mult_strict_right_mono) simp_all
    then show ?thesis unfolding us(3) ds(3) by (simp only: mult_ac)
  qed
  have len: "n \<le> length ds" "n + (nl - n) \<le> length us" using assms(3,6,7) ds(2) us(2) by simp_all
  obtain ns qs' where q: "run_fold (quotient_digit n ds (ucast (ds ! (n - 1)))) (rev [0..<nl - n]) (us, qs) = ok (ns, qs')"
    "length ns = length us" "length qs' = length qs" "number ns = number us mod number ds" "number qs' = number us div number ds"
    using quotient_loop [OF assms(1,2) len assms(9) V Vpos small top assms(10)] by blast
  have rem: "number ns = (?N mod ?D) * 2 ^ k" unfolding q(4) us(3) ds(3) by (rule mod_mult_mult2)
  have quo: "number qs' = ?N div ?D" unfolding q(5) us(3) ds(3) by (rule div_mult_mult2) simp
  have "number ns \<le> number us" unfolding q(4) using number_nonneg [of us] Vpos by (intro zmod_le_nonneg_dividend)
  then have "number ns < B ^ nl" using ub us(3) by simp
  then obtain rs where rs: "shift_right ns nl k = ok rs" "length rs = length ns" "number rs = ?N mod ?D"
    using shift_right_correct [OF assms(1) k(1) _ _ _ rem, of nl] assms(6,7) q(2) us(2) by auto
  have "n \<noteq> 0" "idx denom (n - 1) = ok (denom ! m)" "idx ds (n - 1) = ok (ds ! (n - 1))" "\<not> nl < n"
    using n dm(2) ds(2) assms(6) by (simp_all add: idx_def)
  then have "knuth_algorithm_d nl n numer denom qs = ok (rs, ds, qs')"
    unfolding knuth_algorithm_d_def by (simp only: if_False Let_def run_bind_simps k_def [symmetric] ds(1) us(1) q(1) rs(1) prod.case)
  then show ?thesis using rs quo q(2,3) us(2) by auto
qed

end
