(* ===== verification/Wide_Division.thy ===== *)
theory Wide_Division
  imports Knuth_Division
begin

text \<open>
  \<open>udiv128\<close>: the numbers are split into half words, divided by one digit or by Knuth's algorithm, and the
  quotient and the remainder packed again.
\<close>

section \<open>Half words\<close>

definition low_half :: "u64 \<Rightarrow> u32" where
  "low_half v = ucast (v AND 0xffffffff)"

definition high_half :: "u64 \<Rightarrow> u32" where
  "high_half v = ucast (drop_bit 32 v)"

definition halves :: "u64 list \<Rightarrow> u32 list" where
  "halves xs = concat (map (\<lambda>v. [low_half v, high_half v]) xs)"

lemma uint_narrow: "uint (ucast w :: u32) = uint w mod 2 ^ 32" for w :: u64
  using low32 [of "uint w"] by simp

lemma half_values: "uint (low_half v) = uint v mod 2 ^ 32" "uint (high_half v) = uint v div 2 ^ 32"
proof -
  have "(0xffffffff :: u64) = mask 32" by (simp add: mask_eq_exp_minus_1)
  then have "uint (v AND 0xffffffff) = uint (take_bit 32 v)" by (simp only: take_bit_eq_mask)
  then have a: "uint (v AND 0xffffffff) = uint v mod 2 ^ 32" by (simp only: unsigned_take_bit_eq) (simp add: take_bit_eq_mod)
  show "uint (low_half v) = uint v mod 2 ^ 32"
    unfolding low_half_def uint_narrow a by simp
  have "uint v div 2 ^ 32 < 2 ^ 32" using zdiv_mono1 [of "uint v" "2 ^ 64 - 1" "2 ^ 32"] uint_bounded [of v] by simp
  then show "uint (high_half v) = uint v div 2 ^ 32"
    unfolding high_half_def uint_narrow uint_drop_div by (simp add: pos_imp_zdiv_nonneg_iff)
qed

lemma number_halves: "number (halves xs) = number xs"
proof (induction xs)
  case (Cons v xs)
  have "uint (low_half v) + 2 ^ 32 * uint (high_half v) = uint v" unfolding half_values by simp
  then show ?case using Cons by (simp add: halves_def algebra_simps)
qed (simp add: halves_def)

text \<open>The number of digits of a list without leading zeros.\<close>

definition digits_used :: "u32 list \<Rightarrow> nat \<Rightarrow> bool" where
  "digits_used ws c \<longleftrightarrow> c \<le> length ws \<and> (c = 0 \<or> ws ! (c - 1) \<noteq> 0) \<and> (\<forall>j. c \<le> j \<longrightarrow> j < length ws \<longrightarrow> ws ! j = 0)"

lemma split64_32_run:
  assumes "4 \<le> length res" "\<forall>x\<in>set res. x = 0"
  shows "\<exists>c. split64_32 2 [a, b] res = ok (int c, halves [a, b] @ drop 4 res) \<and> digits_used (halves [a, b] @ drop 4 res) c \<and> c \<le> 4"
proof -
  obtain r0 r1 r2 r3 rs where res: "res = r0 # r1 # r2 # r3 # rs"
    using assms(1) by (auto simp: numeral_eq_Suc Suc_le_length_iff)
  define c where "c = (if high_half b \<noteq> 0 then 4 else if low_half b \<noteq> 0 then 3 else if high_half a \<noteq> 0 then 2 else if low_half a \<noteq> 0 then 1 else 0 :: nat)"
  have run: "split64_32 2 [a, b] res = ok (int c, halves [a, b] @ drop 4 res)"
    by (simp add: split64_32_def res upt_rec idx_def upd_def Let_def low_half_def [symmetric] high_half_def [symmetric] c_def halves_def)
  have z: "rs ! j = 0" if "j < length rs" for j using assms(2) that by (simp add: res)
  have "digits_used ([low_half a, high_half a, low_half b, high_half b] @ rs) c"
    unfolding digits_used_def c_def using z by (auto simp: nth_Cons nth_append split: nat.splits)
  then show ?thesis using run by (intro exI [of _ c]) (auto simp: res halves_def c_def)
qed

lemma pack32_64_run:
  assumes "4 \<le> length ws" "\<And>j. int j \<ge> mx \<Longrightarrow> j < length ws \<Longrightarrow> ws ! j = 0" "0 \<le> mx"
  shows "\<exists>out. pack32_64 2 mx [0, 0] ws = ok out \<and> length out = 2 \<and> number out = number (take 4 ws)"
proof -
  obtain w0 w1 w2 w3 rs where ws: "ws = w0 # w1 # w2 # w3 # rs"
    using assms(1) by (auto simp: numeral_eq_Suc Suc_le_length_iff)
  let ?pair = "\<lambda>hi lo :: u32. push_bit 32 (ucast hi) OR ucast lo :: u64"
  have z: "mx \<le> 0 \<Longrightarrow> w0 = 0" "mx \<le> 1 \<Longrightarrow> w1 = 0" "mx \<le> 2 \<Longrightarrow> w2 = 0" "mx \<le> 3 \<Longrightarrow> w3 = 0"
    using assms(2) [of 0] assms(2) [of 1] assms(2) [of 2] assms(2) [of 3] by (simp_all add: ws)
  have run: "pack32_64 2 mx [0, 0] ws = ok [?pair w1 w0, ?pair w3 w2]"
    using z by (auto simp: pack32_64_def ws upt_rec idx_i32_def idx_def upd_def Let_def not_less)
  have "uint (?pair hi lo) = uint lo + 2 ^ 32 * uint hi" for hi lo :: u32
  proof -
    have "\<not> (bit (push_bit 32 (ucast hi :: u64)) n \<and> bit (ucast lo :: u64) n)" for n
      using bit_imp_le_length [of lo n] by (auto simp: bit_push_bit_iff bit_ucast_iff)
    then have "uint (?pair hi lo) = uint (push_bit 32 (ucast hi :: u64)) + uint lo" by (subst uint_or_disjoint) simp_all
    moreover have "uint (push_bit 32 (ucast hi :: u64)) = uint hi * 2 ^ 32"
      using uint_bounded [of hi] by (simp only: unsigned_push_bit_eq uint_widen) (simp add: push_bit_eq_mult take_bit_int_eq_self)
    ultimately show ?thesis by simp
  qed
  then have "number [?pair w1 w0, ?pair w3 w2] = number (take 4 ws)" by (simp add: ws algebra_simps)
  then show ?thesis using run by auto
qed

section \<open>Short division\<close>

lemma short_division_loop:
  fixes numer qs :: "u32 list" and B :: int
  assumes "B = 2 ^ 32" "d \<noteq> 0" "uint d < B" "n \<le> length numer" "n \<le> length qs" "\<forall>x\<in>set qs. x = 0"
    and "\<And>j. n \<le> j \<Longrightarrow> j < length numer \<Longrightarrow> numer ! j = 0"
  shows "\<exists>r ns qs'. run_fold (short_division d) (rev [0..<n]) (0, numer, qs) = ok (r, ns, qs') \<and> length ns = length numer \<and>
    length qs' = length qs \<and> number ns = 0 \<and> number qs' = number numer div uint d \<and> uint r = number numer mod uint d"
proof -
  let ?N = "number numer"
  define P where "P i s = (case s of (r :: u64, ns :: u32 list, ws :: u32 list) \<Rightarrow> length ns = length numer \<and> length ws = length qs \<and>
    (\<forall>j<i. ns ! j = numer ! j) \<and> (\<forall>j. i \<le> j \<longrightarrow> j < length numer \<longrightarrow> ns ! j = 0) \<and> (\<forall>j<i. ws ! j = 0) \<and> uint r < uint d \<and>
    ?N = number ws * uint d + uint r * B ^ i + number (take i numer))" for i s
  have dpos: "0 < uint d" using assms(2) uint_nonnegative [of d] uint_0_iff [of d] by linarith
  have step: "\<exists>s'. short_division d i s = ok s' \<and> P i s'" if i: "i < n" and P: "P (Suc i) s" for i s
  proof (cases s)
    case (fields r ns ws)
    then have p: "length ns = length numer" "length ws = length qs" "\<And>j. j < Suc i \<Longrightarrow> ns ! j = numer ! j"
      "\<And>j. Suc i \<le> j \<Longrightarrow> j < length numer \<Longrightarrow> ns ! j = 0" "\<And>j. j < Suc i \<Longrightarrow> ws ! j = 0" "uint r < uint d"
      "?N = number ws * uint d + uint r * B ^ Suc i + number (take (Suc i) numer)" using P by (simp_all add: P_def)
    have len: "i < length numer" "i < length ws" "i < length ns" using i assms(4,5) p(1,2) by simp_all
    define tmp where "tmp = push_bit 32 r + ucast (numer ! i)"
    have r32: "uint r < 2 ^ 32" using p(6) assms(1,3) by simp
    have "uint (push_bit 32 r) = uint r * 2 ^ 32"
      using r32 by (simp only: unsigned_push_bit_eq) (simp add: push_bit_eq_mult take_bit_int_eq_self)
    then have tmp: "uint tmp = uint r * B + uint (numer ! i)"
      using r32 uint_bounded [of "numer ! i"] assms(1) by (simp add: tmp_def uint_plus_if')
    let ?q = "ucast (tmp div d) :: u32" and ?r = "tmp mod d"
    have "uint tmp < uint d * B"
    proof -
      have "(uint r + 1) * B \<le> uint d * B" using p(6) assms(1) by (intro mult_right_mono) simp_all
      moreover have "uint (numer ! i) < B" using uint_bounded [of "numer ! i"] assms(1) by simp
      ultimately show ?thesis unfolding tmp by (simp add: distrib_right)
    qed
    then have "uint tmp div uint d * uint d < B * uint d"
      using div_mult_mod_eq [of "uint tmp" "uint d"] pos_mod_sign [OF dpos, of "uint tmp"] mult.commute [of "uint d" B] by linarith
    then have "uint tmp div uint d < B" using dpos by (simp only: mult_less_cancel_right_pos)
    then have q: "uint ?q = uint tmp div uint d" using dpos assms(1) by (simp add: uint_narrow uint_div pos_imp_zdiv_nonneg_iff)
    have r: "uint ?r = uint tmp mod uint d" by (simp add: uint_mod)
    have "number (ws[i := ?q]) = number ws + uint ?q * B ^ i" using number_update [OF len(2), of ?q] p(5) [of i] assms(1) by simp
    moreover have "(uint ?q * uint d + uint ?r) * B ^ i = (uint r * B + uint (numer ! i)) * B ^ i" unfolding q r tmp [symmetric] div_mult_mod_eq ..
    moreover have "number (take (Suc i) numer) = number (take i numer) + uint (numer ! i) * B ^ i" by (rule number_top(1) [OF assms(1) len(1)])
    ultimately have "?N = number (ws[i := ?q]) * uint d + uint ?r * B ^ i + number (take i numer)"
      using p(7) by (simp only: distrib_left distrib_right power_Suc mult_ac)
    moreover have "uint ?r < uint d" unfolding r using dpos by simp
    moreover have "short_division d i s = ok (?r, ns[i := 0], ws[i := ?q])"
      using fields len p(3) [of i] assms(2) by (simp add: short_division_def idx_def upd_def Let_def tmp_def)
    ultimately show ?thesis using p(1-5) by (auto simp: P_def nth_list_update)
  qed
  have "P n (0, numer, qs)" using assms(5-7) dpos number_zero [of qs] number_full [of n numer] by (simp add: P_def)
  from run_fold_down [of P, OF this, of 0 "short_division d"] step
  obtain r ns qs' where f: "run_fold (short_division d) (rev [0..<n]) (0, numer, qs) = ok (r, ns, qs')" "P 0 (r, ns, qs')" by auto
  then have e: "length ns = length numer" "length qs' = length qs" "\<forall>j<length ns. ns ! j = 0" "?N = number qs' * uint d + uint r" "uint r < uint d"
    by (simp_all add: P_def)
  have "number ns = 0" using e(3) by (auto simp: number_zero in_set_conv_nth)
  moreover have "number qs' = ?N div uint d" "uint r = ?N mod uint d" using e(4,5) dpos by simp_all
  ultimately show ?thesis using f(1) e(1,2) by blast
qed

section \<open>Division of 128-bit numbers\<close>

lemma digits_used_bounds:
  fixes B :: int
  assumes "B = 2 ^ 32" "digits_used ws c"
  shows "number ws < B ^ c" "0 < c \<Longrightarrow> uint (ws ! (c - 1)) * B ^ (c - 1) \<le> number ws"
    "0 < c \<Longrightarrow> number ws < (uint (ws ! (c - 1)) + 1) * B ^ (c - 1)" "0 < c \<Longrightarrow> B ^ (c - 1) \<le> number ws" "number ws = 0 \<longleftrightarrow> c = 0"
proof -
  have z: "\<And>j. c \<le> j \<Longrightarrow> j < length ws \<Longrightarrow> ws ! j = 0" and l: "c \<le> length ws" using assms(2) by (auto simp: digits_used_def)
  show lt: "number ws < B ^ c" using number_lt [of c ws] z l assms(1) by simp
  have top: "number ws = number (take (c - 1) ws) + uint (ws ! (c - 1)) * B ^ (c - 1)" "0 \<le> number (take (c - 1) ws)"
      "number (take (c - 1) ws) < B ^ (c - 1)" "1 \<le> uint (ws ! (c - 1))" if "0 < c"
  proof -
    have "number ws = number (take c ws)" by (rule number_full [OF z])
    then show "number ws = number (take (c - 1) ws) + uint (ws ! (c - 1)) * B ^ (c - 1)" "0 \<le> number (take (c - 1) ws)"
      "number (take (c - 1) ws) < B ^ (c - 1)" using number_top [OF assms(1), of "c - 1" ws] that l by simp_all
    have "ws ! (c - 1) \<noteq> 0" using that assms(2) by (auto simp: digits_used_def)
    then show "1 \<le> uint (ws ! (c - 1))" using uint_nonnegative [of "ws ! (c - 1)"] uint_0_iff [of "ws ! (c - 1)"] by linarith
  qed
  show a: "uint (ws ! (c - 1)) * B ^ (c - 1) \<le> number ws" if "0 < c" using top [OF that] by linarith
  show "number ws < (uint (ws ! (c - 1)) + 1) * B ^ (c - 1)" if "0 < c" using top [OF that] by (simp only: distrib_right mult_1_left)
  show b: "B ^ (c - 1) \<le> number ws" if "0 < c"
  proof -
    have "1 * B ^ (c - 1) \<le> uint (ws ! (c - 1)) * B ^ (c - 1)" using top(4) [OF that] assms(1) by (intro mult_right_mono) simp_all
    then show ?thesis using a [OF that] by linarith
  qed
  have "0 < B ^ (c - 1)" using assms(1) by simp
  then show "number ws = 0 \<longleftrightarrow> c = 0" using b lt number_nonneg [of ws] by (cases "c = 0") auto
qed

lemma quotient_less:
  fixes N D :: int
  assumes "N < M * K" "K \<le> D" "0 < K" "0 \<le> N" "0 < M"
  shows "N div D < M"
proof -
  have "M * K \<le> M * D" using assms by (intro mult_left_mono) simp_all
  moreover have "N div D * D \<le> N" using div_mult_mod_eq [of N D] pos_mod_sign [of D N] assms(2,3) by linarith
  ultimately have "N div D * D < M * D" using assms(1) by linarith
  then show ?thesis using assms(2,3) by (simp only: mult_less_cancel_right_pos)
qed

text \<open>The part of \<open>udiv128\<close> after the trivial cases: the dividend has at least as many digits as the divisor.\<close>

lemma long_division_run:
  fixes B :: int
  assumes "B = 2 ^ 32" "digits_used nws nl" "digits_used dws dl" "length nws = 5" "length dws = 4" "nl \<le> 4" "0 < dl" "dl \<le> nl"
    and "N = number nws" "D = number dws"
  obtains ns qs where "(if int dl = 1 then
            run_bind (idx dws 0) (\<lambda>d.
            run_bind (run_fold (short_division (ucast d)) (rev [0..<nat (int nl)]) (0, nws, [0, 0, 0, 0])) (\<lambda>(rem, numer_words, quotient_words).
            run_bind (upd numer_words 0 (ucast rem)) (\<lambda>numer_words.
            ok (numer_words, quotient_words))))
          else
            run_bind (upd_i32 nws (int nl) 0) (\<lambda>numer_words.
            run_bind (knuth_algorithm_d (nat (int nl + 1)) (nat (int dl)) numer_words dws [0, 0, 0, 0]) (\<lambda>(numer_words, _, quotient_words).
            ok (numer_words, quotient_words)))) = ok (ns, qs)" "length ns = 5" "length qs = 4" "number ns = N mod D" "number qs = N div D"
proof (cases "dl = 1")
  case True
  note b = digits_used_bounds [OF assms(1,3)]
  let ?d = "ucast (dws ! 0) :: u64"
  have D: "D = uint ?d" using b(2,3) True assms(10) by simp
  have "D \<noteq> 0" using b(5) True assms(10) by simp
  then have nz: "?d \<noteq> 0" using D uint_0_iff [of ?d] by metis
  have lt: "uint ?d < B" using uint_bounded [of "dws ! 0"] assms(1) by simp
  have z: "\<And>j. nl \<le> j \<Longrightarrow> j < length nws \<Longrightarrow> nws ! j = 0" using assms(2) by (auto simp: digits_used_def)
  obtain r ns qs where f: "run_fold (short_division ?d) (rev [0..<nl]) (0, nws, [0, 0, 0, 0]) = ok (r, ns, qs)" "length ns = length nws"
    "length qs = length [0, 0, 0, 0 :: u32]" "number ns = 0" "number qs = number nws div uint ?d" "uint r = number nws mod uint ?d"
    using short_division_loop [OF assms(1) nz lt, of nl nws "[0, 0, 0, 0]"] assms(4,6) z by auto
  have "number ns = 0 \<longrightarrow> ns ! 0 = 0" using f(2) assms(4) by (simp add: number_zero)
  then have ns0: "ns ! 0 = 0" using f(4) by simp
  have "uint r < uint ?d" using f(6) D \<open>D \<noteq> 0\<close> uint_nonnegative [of ?d] by (metis pos_mod_bound order_le_imp_less_or_eq)
  then have "uint (ucast r :: u32) = uint r" using lt assms(1) by (simp add: uint_narrow)
  then have "number (ns[0 := ucast r]) = N mod D" using number_update [of 0 ns "ucast r"] f(2,4,6) ns0 D assms(4,9) by simp
  moreover have "upd ns 0 (ucast r) = ok (ns[0 := ucast r])" "idx dws 0 = ok (dws ! 0)" using f(2) assms(4,5) by (auto simp: idx_def upd_def)
  ultimately show ?thesis using True f D assms(4,9) by (intro that [of "ns[0 := ucast r]" qs]) simp_all
next
  case False
  note bn = digits_used_bounds [OF assms(1,2)] and bd = digits_used_bounds [OF assms(1,3)]
  have dl: "2 \<le> dl" "dl \<le> length dws" "dws ! (dl - 1) \<noteq> 0" "nws ! nl = 0" using False assms(2-8) by (auto simp: digits_used_def)
  have "\<exists>ns ds qs'. knuth_algorithm_d (nl + 1) dl nws dws [0, 0, 0, 0] = ok (ns, ds, qs') \<and> length ns = length nws \<and>
      length qs' = length [0, 0, 0, 0 :: u32] \<and> number ns = number nws mod number dws \<and> number qs' = number nws div number dws"
    using dl bn(1) bd(1) assms(4-8) by (intro knuth_correct [OF assms(1)]) simp_all
  then obtain ns ds qs where k: "knuth_algorithm_d (nl + 1) dl nws dws [0, 0, 0, 0] = ok (ns, ds, qs)" "length ns = 5" "length qs = 4"
    "number ns = N mod D" "number qs = N div D" using assms(4,9,10) by auto
  have "upd_i32 nws (int nl) 0 = ok nws" using dl(4) assms(4,6) by (simp add: upd_i32_def upd_def) (metis list_update_id)
  moreover have "nat (int nl + 1) = nl + 1" by simp
  ultimately show ?thesis using False k by (intro that [of ns qs]) (simp_all only: k nat_int of_nat_eq_1_iff if_False run_bind_simps prod.case)
qed

lemma udiv128_nonzero:
  assumes "number [d0, d1] \<noteq> 0"
  shows "\<exists>q r. udiv128 [n0, n1] [d0, d1] = ok (q, r) \<and> length q = 2 \<and> length r = 2 \<and>
    number q = number [n0, n1] div number [d0, d1] \<and> number r = number [n0, n1] mod number [d0, d1]"
proof (cases "n1 = 0 \<and> d1 = 0")
  case True
  then have "d0 \<noteq> 0" using assms by auto
  then show ?thesis using True by (simp add: udiv128_def idx_def uint_div uint_mod)
next
  case False
  define B :: int where "B = 2 ^ 32"
  define N D where "N = number [n0, n1]" and "D = number [d0, d1]"
  obtain dl where d: "split64_32 2 [d0, d1] [0, 0, 0, 0] = ok (int dl, halves [d0, d1])" "digits_used (halves [d0, d1]) dl"
    using split64_32_run [of "[0, 0, 0, 0]" d0 d1] by auto
  obtain nl where n: "split64_32 2 [n0, n1] [0, 0, 0, 0, 0] = ok (int nl, halves [n0, n1] @ [0])" "digits_used (halves [n0, n1] @ [0]) nl" "nl \<le> 4"
    using split64_32_run [of "[0, 0, 0, 0, 0]" n0 n1] by auto
  let ?nws = "halves [n0, n1] @ [0]" and ?dws = "halves [d0, d1]"
  have val: "number ?nws = N" "number ?dws = D" using number_halves [of "[n0, n1]"] number_halves [of "[d0, d1]"] by (simp_all add: number_append N_def D_def)
  have len: "length ?nws = 5" "length ?dws = 4" by (simp_all add: halves_def)
  note bn = digits_used_bounds [OF B_def n(2), unfolded val] and bd = digits_used_bounds [OF B_def d(2), unfolded val]
  have nn: "0 \<le> N" "0 \<le> D" using number_nonneg N_def D_def by simp_all
  have "D \<noteq> 0" using assms unfolding D_def .
  then have D: "0 < D" "0 < dl" using bd(5) nn(2) by auto
  have B: "0 < B" by (simp add: B_def)
  define small where "small \<longleftrightarrow> nl < dl \<or> dl = nl \<and> ?nws ! (dl - 1) < ?dws ! (dl - 1)"
  have le: "dl - 1 < length ?nws" "dl - 1 < length ?dws" if "dl = nl" using that d(2) D(2) n(3) len unfolding digits_used_def by simp_all
  have test: "(if int nl < int dl then ok True else if int dl = int nl then
      run_bind (idx_i32 ?nws (int dl - 1)) (\<lambda>n. run_bind (idx_i32 ?dws (int dl - 1)) (\<lambda>d. ok (n < d))) else ok False) = ok small"
    using D(2) le by (auto simp: small_def idx_i32_def idx_def nat_diff_distrib simp del: nth_append)
  have run: "udiv128 [n0, n1] [d0, d1] = (if small then ok ([0, 0], [n0, n1]) else
     run_bind (if int dl = 1 then
            run_bind (idx ?dws 0) (\<lambda>d.
            run_bind (run_fold (short_division (ucast d)) (rev [0..<nat (int nl)]) (0, ?nws, [0, 0, 0, 0])) (\<lambda>(rem, numer_words, quotient_words).
            run_bind (upd numer_words 0 (ucast rem)) (\<lambda>numer_words.
            ok (numer_words, quotient_words))))
          else
            run_bind (upd_i32 ?nws (int nl) 0) (\<lambda>numer_words.
            run_bind (knuth_algorithm_d (nat (int nl + 1)) (nat (int dl)) numer_words ?dws [0, 0, 0, 0]) (\<lambda>(numer_words, _, quotient_words).
            ok (numer_words, quotient_words)))) (\<lambda>(numer_words, quotient_words).
       run_bind (pack32_64 2 (int nl - int dl + 1) [0, 0] quotient_words) (\<lambda>quotient.
       run_bind (pack32_64 2 (int nl) [0, 0] numer_words) (\<lambda>remainder. ok (quotient, remainder)))))"
  proof -
    have ix: "idx [n0, n1] 0 = ok n0" "idx [n0, n1] 1 = ok n1" "idx [d0, d1] 0 = ok d0" "idx [d0, d1] 1 = ok d1" by (simp_all add: idx_def)
    have "int dl \<noteq> 0" using D(2) by simp
    then show ?thesis unfolding udiv128_def ix run_bind_simps d(1) n(1) prod.case if_not_P [OF False] test by simp
  qed
  show ?thesis
  proof (cases small)
    case True
    have "N < D"
    proof (cases "nl < dl")
      case True
      then have "B ^ nl \<le> B ^ (dl - 1)" using B_def by (intro power_increasing) simp_all
      then show ?thesis using bn(1) bd(4) D(2) by linarith
    next
      case False
      then have eq: "dl = nl" "uint (?nws ! (dl - 1)) + 1 \<le> uint (?dws ! (dl - 1))" using True by (auto simp: small_def word_less_def)
      then have "(uint (?nws ! (dl - 1)) + 1) * B ^ (dl - 1) \<le> uint (?dws ! (dl - 1)) * B ^ (dl - 1)" using B by (intro mult_right_mono) simp_all
      then show ?thesis using bn(3) bd(2) D(2) unfolding eq(1) by linarith
    qed
    then show ?thesis using True run nn N_def D_def by simp
  next
    case False
    then have le: "dl \<le> nl" by (simp add: small_def)
    obtain ns qs where div: "(if int dl = 1 then
            run_bind (idx ?dws 0) (\<lambda>d.
            run_bind (run_fold (short_division (ucast d)) (rev [0..<nat (int nl)]) (0, ?nws, [0, 0, 0, 0])) (\<lambda>(rem, numer_words, quotient_words).
            run_bind (upd numer_words 0 (ucast rem)) (\<lambda>numer_words.
            ok (numer_words, quotient_words))))
          else
            run_bind (upd_i32 ?nws (int nl) 0) (\<lambda>numer_words.
            run_bind (knuth_algorithm_d (nat (int nl + 1)) (nat (int dl)) numer_words ?dws [0, 0, 0, 0]) (\<lambda>(numer_words, _, quotient_words).
            ok (numer_words, quotient_words)))) = ok (ns, qs)" "length ns = 5" "length qs = 4" "number ns = N mod D" "number qs = N div D"
      by (rule long_division_run [OF B_def n(2) d(2) len n(3) D(2) le val [symmetric]])
    have "N < B ^ (nl - dl + 1) * B ^ (dl - 1)" unfolding power_add [symmetric] using bn(1) le D(2) by simp
    then have "number qs < B ^ (nl - dl + 1)" unfolding div(5) using bd(4) D nn B by (intro quotient_less [where K = "B ^ (dl - 1)"]) simp_all
    then have zq: "qs ! j = 0" if "int j \<ge> int nl - int dl + 1" "j < length qs" for j
      using number_small [of qs "nl - dl + 1" j] that le B_def by simp
    have "number ns \<le> N" unfolding div(4) using nn(1) by (rule zmod_le_nonneg_dividend)
    then have nsl: "number ns < B ^ nl" using bn(1) by linarith
    then have zr: "ns ! j = 0" if "int j \<ge> int nl" "j < length ns" for j
      using number_small [of ns nl j] that B_def by simp
    obtain q where q: "pack32_64 2 (int nl - int dl + 1) [0, 0] qs = ok q" "length q = 2" "number q = number (take 4 qs)"
      using pack32_64_run [of qs "int nl - int dl + 1"] zq le div(3) by auto
    obtain r where r: "pack32_64 2 (int nl) [0, 0] ns = ok r" "length r = 2" "number r = number (take 4 ns)"
      using pack32_64_run [of ns "int nl"] zr div(2) by auto
    have "number ns = number (take 4 ns)" using zr n(3) by (intro number_full) simp
    then show ?thesis using False run div q r unfolding N_def D_def by simp
  qed
qed

lemma udiv128_div_zero:
  assumes "length numer = 2" "length denom = 2" "number denom = 0"
  shows "udiv128 numer denom = err (Lowlevel ''divide by 0'')"
proof -
  obtain n0 n1 d0 d1 where nd: "numer = [n0, n1]" "denom = [d0, d1]" using assms(1,2) by (auto simp: numeral_2_eq_2 length_Suc_conv)
  have "d0 = 0" "d1 = 0" using assms(3) number_zero [of denom] nd by simp_all
  moreover have "split64_32 2 [0, 0] [0, 0, 0, 0] = ok (0, [0, 0, 0, 0])"
    by (simp add: split64_32_def upt_rec idx_def upd_def Let_def)
  ultimately show ?thesis by (simp add: nd udiv128_def idx_def)
qed

text \<open>C6: \<open>udiv128\<close> divides. For two 128-bit numbers it never panics and always returns: the error for a zero
  divisor, and otherwise the exact quotient and remainder, whichever of the three ways (single words, one
  half-word digit, Knuth's algorithm) computes them.\<close>
theorem udiv128_correct:
  assumes "length numer = 2" "length denom = 2"
  shows "if number denom = 0 then udiv128 numer denom = err (Lowlevel ''divide by 0'')
    else \<exists>q r. udiv128 numer denom = ok (q, r) \<and> length q = 2 \<and> length r = 2 \<and>
      number q = number numer div number denom \<and> number r = number numer mod number denom"
proof -
  obtain n0 n1 d0 d1 where nd: "numer = [n0, n1]" "denom = [d0, d1]" using assms by (auto simp: numeral_2_eq_2 length_Suc_conv)
  then show ?thesis using udiv128_div_zero [OF assms] udiv128_nonzero [of d0 d1 n0 n1] by simp
qed

theorem udiv128_correct_witness:
  "\<exists>q r. udiv128 [0x123456789abcdef0, 0xfedcba9876543210] [0x1111111111111111, 0x222] = ok (q, r) \<and>
     number q = 33630982562250759 \<and> number r = 4712612446958387423097"
  using udiv128_correct [of "[0x123456789abcdef0, 0xfedcba9876543210]" "[0x1111111111111111, 0x222]"] by auto

end
