(* ===== verification/Div_Recover.thy ===== *)
theory Div_Recover
  imports Wide_Division
begin

text \<open>
  \<open>RuleDivOpt::calc_divisor\<close> of src/src/ruleaction/division.rs. Compilers turn an unsigned division by a
  constant into a multiplication and a shift; the rule recovers the divisor from the multiplier and the
  shift. The theorem says that a divisor it returns is right for every dividend of the given width.
\<close>

definition raise_quotient :: "u64 list \<Rightarrow> u64 list \<Rightarrow> u64 list \<Rightarrow> (u64 list \<times> u64 list \<times> u64) option run" where
  "raise_quotient quot remainder multiplier =
     run_bind (idx quot 0) (\<lambda>q0.
     run_bind (upd quot 0 (q0 + 1)) (\<lambda>quot.
     run_bind (subtract128 remainder multiplier) (\<lambda>remainder.
     run_bind (add128 remainder quot) (\<lambda>remainder.
     run_bind (uless128 remainder quot) (\<lambda>less.
     if \<not> less then ok None
     else run_bind (idx quot 0) (\<lambda>q0. ok (Some (quot, remainder, q0))))))))"

definition check_divisor :: "u64 list \<Rightarrow> u64 list \<Rightarrow> u64 list \<Rightarrow> u64 \<Rightarrow> nat \<Rightarrow> u64 run" where
  "check_divisor pow quot remainder diff xsize =
     (let maxx = (if xsize = 64 then 0 else push_bit xsize 1) - 1 in
      run_bind (idx quot 0) (\<lambda>q0.
      run_bind (idx remainder 0) (\<lambda>r0.
      let diff = diff + (q0 - r0); denom = set_u128 diff in
      run_bind (udiv128 pow denom) (\<lambda>(tmp, _).
      run_bind (idx tmp 1) (\<lambda>t1.
      if t1 \<noteq> 0 then ok q0 else
      run_bind (idx tmp 0) (\<lambda>t0.
      if t0 \<le> maxx then ok 0 else ok q0))))))"

text \<open>The returned divisor, 0 for none, and the changed multiplier.\<close>

definition calc_divisor :: "nat \<Rightarrow> u64 list \<Rightarrow> nat \<Rightarrow> (u64 \<times> u64 list) run" where
  "calc_divisor shift_amount multiplier xsize =
     (if shift_amount > 127 \<or> xsize > 64 then ok (0, multiplier)
      else
        let pow = set_u128 1 in
        run_bind (ulessequal128 multiplier pow) (\<lambda>le.
        if le then ok (0, multiplier) else
        run_bind (subtract128 multiplier pow) (\<lambda>multiplier.
        run_bind (leftshift128 pow (int shift_amount)) (\<lambda>pow.
        run_bind (udiv128 pow multiplier) (\<lambda>(quot, remainder).
        run_bind (idx quot 1) (\<lambda>q1.
        if q1 \<noteq> 0 then ok (0, multiplier) else
        run_bind (uless128 multiplier quot) (\<lambda>less.
        if less then ok (0, multiplier) else
        run_bind (uless128 remainder quot) (\<lambda>less.
        run_bind (if \<not> less then raise_quotient quot remainder multiplier else ok (Some (quot, remainder, 0))) (\<lambda>st.
        case st of None \<Rightarrow> ok (0, multiplier)
        | Some (quot, remainder, diff) \<Rightarrow>
          run_bind (check_divisor pow quot remainder diff xsize) (\<lambda>divisor. ok (divisor, multiplier)))))))))))"

section \<open>Division by multiplication\<close>

text \<open>If the multiplier times the divisor exceeds the pow by \<open>e\<close>, and \<open>x * e\<close> is below the pow, the shifted product is the quotient.\<close>

lemma magic_division:
  fixes P Y d e x :: int
  assumes "d * Y = P + e" "0 < d" "0 < P" "0 \<le> e" "0 \<le> x" "x * e < P"
  shows "Y * x div P = x div d"
proof -
  define k j where "k = x div d" and "j = x mod d"
  have x: "x = k * d + j" "0 \<le> j" "j < d" using assms(2) by (simp_all add: k_def j_def)
  have e: "d * (Y * x) = k * d * P + j * P + x * e"
  proof -
    have "d * (Y * x) = x * (P + e)" using assms(1) by (simp flip: mult.assoc add: mult.commute)
    also have "\<dots> = (k * d + j) * P + x * e" using x(1) by (simp add: distrib_left)
    finally show ?thesis by (simp add: distrib_right)
  qed
  have "0 \<le> j * P" "0 \<le> x * e" using assms x by simp_all
  then have "d * (k * P) \<le> d * (Y * x)" using e by (simp add: mult_ac)
  then have lo: "k * P \<le> Y * x" using assms(2) by simp
  have "(j + 1) * P \<le> d * P" using x(3) assms(3) by (intro mult_right_mono) simp_all
  then have "d * (Y * x) < d * ((k + 1) * P)" using e assms(6) by (simp add: algebra_simps)
  then have hi: "Y * x < (k + 1) * P" using assms(2) by (simp only: mult_less_cancel_left_pos)
  have "Y * x div P = k" using lo hi assms(3) by (intro int_div_pos_eq [of _ _ _ "Y * x - k * P"]) (simp_all add: algebra_simps)
  then show ?thesis by (simp add: k_def)
qed

lemma below_quotient:
  fixes P e x :: int
  assumes "x < P div e" "0 < e"
  shows "x * e < P"
proof -
  have "(x + 1) * e \<le> P div e * e" using assms by (intro mult_right_mono) simp_all
  also have "\<dots> \<le> P" using div_mult_mod_eq [of P e] pos_mod_sign [OF assms(2), of P] by linarith
  finally show ?thesis using assms(2) by (simp add: distrib_right)
qed

section \<open>The recovered divisor\<close>

lemma two_words:
  fixes xs :: "u64 list"
  assumes "length xs = 2"
  shows "idx xs 0 = ok (xs ! 0)" "idx xs 1 = ok (xs ! 1)" "number xs = uint (xs ! 0) + 2 ^ 64 * uint (xs ! 1)"
    "0 \<le> number xs" "number xs < 2 ^ 128"
proof -
  obtain a b where xs: "xs = [a, b]" using assms by (auto simp: numeral_2_eq_2 length_Suc_conv)
  show "idx xs 0 = ok (xs ! 0)" "idx xs 1 = ok (xs ! 1)" "number xs = uint (xs ! 0) + 2 ^ 64 * uint (xs ! 1)" by (simp_all add: xs idx_def)
  show "0 \<le> number xs" "number xs < 2 ^ 128" using number_bounds [of xs] assms by simp_all
qed

lemma one_word:
  fixes xs :: "u64 list"
  assumes "length xs = 2"
  shows "xs ! 1 = 0 \<longleftrightarrow> number xs < 2 ^ 64" "number xs < 2 ^ 64 \<Longrightarrow> uint (xs ! 0) = number xs"
proof -
  have b: "0 \<le> uint (xs ! 0)" "uint (xs ! 0) < 2 ^ 64" "0 \<le> uint (xs ! 1)" using uint_bounded [of "xs ! 0"] by simp_all
  have "number xs \<ge> 2 ^ 64" if "uint (xs ! 1) \<noteq> 0" 
  proof -
    have "1 \<le> uint (xs ! 1)" using that b(3) by linarith
    then have "2 ^ 64 * 1 \<le> 2 ^ 64 * uint (xs ! 1)" by (intro mult_left_mono) simp_all
    then show ?thesis using b(1) two_words(3) [OF assms] by linarith
  qed
  then have "uint (xs ! 1) = 0 \<longleftrightarrow> number xs < 2 ^ 64" using b two_words(3) [OF assms] by force
  then show z: "xs ! 1 = 0 \<longleftrightarrow> number xs < 2 ^ 64" using uint_0_iff [of "xs ! 1"] by simp
  show "uint (xs ! 0) = number xs" if "number xs < 2 ^ 64" using that z two_words(3) [OF assms] by simp
qed

lemma udiv128_ok:
  assumes "length xs = 2" "length ys = 2" "number ys \<noteq> 0"
  obtains q r where "udiv128 xs ys = ok (q, r)" "length q = 2" "length r = 2" "number q = number xs div number ys" "number r = number xs mod number ys"
proof -
  obtain n0 n1 d0 d1 where "xs = [n0, n1]" "ys = [d0, d1]" using assms(1,2) by (auto simp: numeral_2_eq_2 length_Suc_conv)
  then show ?thesis using udiv128_nonzero [of d0 d1 n0 n1] assms(3) that by blast
qed

lemma maxx_value:
  assumes "xsize \<le> 64"
  shows "uint ((if xsize = 64 then 0 else push_bit xsize 1) - 1 :: u64) = 2 ^ xsize - 1"
proof (cases "xsize = 64")
  case False
  then have "xsize < 64" using assms by simp
  then have "(2 :: int) ^ xsize < 2 ^ 64" by (intro power_strict_increasing) simp_all
  then have "uint (push_bit xsize 1 :: u64) = 2 ^ xsize"
    using \<open>xsize < 64\<close> by (simp only: unsigned_push_bit_eq) (simp add: push_bit_eq_mult take_bit_int_eq_self)
  then show ?thesis using False by (simp add: uint_sub_if')
qed (simp add: unsigned_minus_1_eq_mask mask_eq_exp_minus_1)

lemma check_divisor_sound:
  fixes P Y e :: int
  assumes len: "length pow = 2" "length quot = 2" "length remainder = 2" and "number pow = P" "0 < P" "0 < e" "e \<le> 2 ^ 64"
    and "uint (diff + (quot ! 0 - remainder ! 0)) = e mod 2 ^ 64" "uint (quot ! 0) * Y = P + e" "0 < uint (quot ! 0)" "xsize \<le> 64"
  shows "check_divisor pow quot remainder diff xsize = err (Lowlevel ''divide by 0'') \<or>
    (\<exists>d. check_divisor pow quot remainder diff xsize = ok d \<and> (d \<noteq> 0 \<longrightarrow> (\<forall>x. 0 \<le> x \<longrightarrow> x < 2 ^ xsize \<longrightarrow> Y * x div P = x div uint d)))"
proof -
  define df where "df = diff + (quot ! 0 - remainder ! 0)"
  define maxx :: u64 where "maxx = (if xsize = 64 then 0 else push_bit xsize 1) - 1"
  have den: "length (set_u128 df) = 2" "number (set_u128 df) = uint df" by (simp_all add: set_u128_def)
  have pre: "check_divisor pow quot remainder diff xsize = run_bind (udiv128 pow (set_u128 df)) (\<lambda>(tmp, _).
      run_bind (idx tmp 1) (\<lambda>t1. if t1 \<noteq> 0 then ok (quot ! 0) else run_bind (idx tmp 0) (\<lambda>t0. if t0 \<le> maxx then ok 0 else ok (quot ! 0))))"
    unfolding check_divisor_def Let_def maxx_def [symmetric] two_words(1) [OF len(2)] two_words(1) [OF len(3)] run_bind_simps df_def [symmetric] ..
  show ?thesis
  proof (cases "uint df = 0")
    case True
    then show ?thesis using udiv128_div_zero [of pow "set_u128 df"] len(1) den pre by simp
  next
    case False
    then have "e \<noteq> 2 ^ 64" using assms(8) by (auto simp: df_def)
    then have df: "uint df = e" using assms(6-8) by (simp add: df_def)
    obtain t r where t: "udiv128 pow (set_u128 df) = ok (t, r)" "length t = 2" "number t = P div e"
      by (rule udiv128_ok [of pow "set_u128 df"]) (use len(1) den df assms(4,6) in auto)
    have mx: "uint maxx = 2 ^ xsize - 1" using assms(11) unfolding maxx_def by (rule maxx_value)
    have "\<forall>x. 0 \<le> x \<longrightarrow> x < 2 ^ xsize \<longrightarrow> Y * x div P = x div uint (quot ! 0)" if "t ! 1 \<noteq> 0 \<or> \<not> t ! 0 \<le> maxx"
    proof (intro allI impI)
      fix x :: int assume x: "0 \<le> x" "x < 2 ^ xsize"
      have "(2 :: int) ^ xsize \<le> 2 ^ 64" using assms(11) by (intro power_increasing) simp_all
      then have "x < number t" using that x(2) one_word [OF t(2)] mx by (cases "number t < 2 ^ 64") (auto simp: word_le_def)
      then have "x * e < P" using assms(6) t(3) by (intro below_quotient) simp_all
      then show "Y * x div P = x div uint (quot ! 0)" using assms x(1) by (intro magic_division [of _ _ _ e]) simp_all
    qed
    then show ?thesis unfolding pre t(1) run_bind_simps prod.case two_words(1,2) [OF t(2)] by auto
  qed
qed

lemma words_ops:
  assumes "length xs = 2" "length ys = 2"
  obtains s where "add128 xs ys = ok s" "length s = 2" "number s = (number xs + number ys) mod 2 ^ 128"
  using arith128_parts(1) [OF assms, of 0] by auto

lemma words_sub:
  assumes "length xs = 2" "length ys = 2"
  obtains s where "subtract128 xs ys = ok s" "length s = 2" "number s = (number xs - number ys) mod 2 ^ 128"
  using arith128_parts(2) [OF assms, of 0] by auto

lemmas words_less = arith128_parts(4) [where s = 0, simplified]
lemmas words_less_eq = arith128_parts(5) [where s = 0, simplified]

text \<open>
  With \<open>P = q * m + r\<close>, raising the quotient succeeds when the new remainder \<open>q + 1 - (m - r)\<close> is not negative.
\<close>

lemma raise_quotient_run:
  assumes len: "length quot = 2" "length remainder = 2" "length multiplier = 2" and "number quot < 2 ^ 64" "number remainder < number multiplier"
  shows "raise_quotient quot remainder multiplier = ok None \<or>
    (\<exists>qs rs. raise_quotient quot remainder multiplier = ok (Some (qs, rs, qs ! 0)) \<and> length qs = 2 \<and> length rs = 2 \<and>
      uint (qs ! 0) = number quot + 1 \<and> number rs = number quot + 1 - (number multiplier - number remainder) \<and>
      0 \<le> number rs \<and> number rs < number quot + 1)"
proof -
  define qs where "qs = quot[0 := quot ! 0 + 1]"
  have q0: "uint (quot ! 0) = number quot" "quot ! 1 = 0" using one_word [OF len(1)] assms(4) by simp_all
  have ql: "length qs = 2" "upd quot 0 (quot ! 0 + 1) = ok qs" using len(1) by (auto simp: qs_def upd_def)
  obtain r1 where r1: "subtract128 remainder multiplier = ok r1" "length r1 = 2" "number r1 = (number remainder - number multiplier) mod 2 ^ 128"
    by (rule words_sub [OF len(2,3)])
  obtain rs where rs: "add128 r1 qs = ok rs" "length rs = 2" "number rs = (number r1 + number qs) mod 2 ^ 128"
    by (rule words_ops [OF r1(2) ql(1)])
  have run: "raise_quotient quot remainder multiplier = (if number rs < number qs then ok (Some (qs, rs, qs ! 0)) else ok None)"
    unfolding raise_quotient_def by (simp add: two_words(1) [OF len(1)] ql r1(1) rs(1) words_less [OF rs(2) ql(1)] two_words(1) [OF ql(1)])
  show ?thesis
  proof (cases "number rs < number qs")
    case True
    have nq: "number qs = uint (qs ! 0)" using two_words(3) [OF ql(1)] len(1) q0(2) by (simp add: qs_def)
    have q1: "qs ! 0 = quot ! 0 + 1" using len(1) by (cases quot) (auto simp: qs_def)
    have "uint (qs ! 0) \<noteq> 0" using True nq two_words(4) [OF rs(2)] by linarith
    then have d: "uint (qs ! 0) = number quot + 1" unfolding q1 using q0(1) assms(4) by (auto simp: uint_plus_if' split: if_splits)
    define k where "k = number quot + 1 - (number multiplier - number remainder)"
    have kr: "number rs = k mod 2 ^ 128" unfolding rs(3) r1(3) nq d k_def mod_add_left_eq by (simp only: algebra_simps)
    have b: "0 \<le> number remainder" "number multiplier < 2 ^ 128" "0 \<le> number quot"
      using two_words(4,5) len by simp_all
    have "0 \<le> k"
    proof (rule ccontr)
      assume "\<not> 0 \<le> k"
      then have "number rs = k + 2 ^ 128" unfolding kr using b by (intro int_mod_pos_eq [of _ _ "-1"]) (simp_all add: k_def)
      then show False using True nq d b by (simp add: k_def)
    qed
    moreover have "k < number quot + 1" using assms(5) by (simp add: k_def)
    ultimately have "number rs = k" unfolding kr using assms(4) by simp
    then show ?thesis using run True ql(1) rs(2) d \<open>0 \<le> k\<close> \<open>k < number quot + 1\<close> by (auto simp: k_def)
  qed (use run in simp)
qed

lemma excess_bound:
  fixes q m r P :: int
  assumes "P = q * m + r" "P \<le> 2 ^ 127" "q \<le> r" "m - r \<le> q + 1" "0 \<le> q"
  shows "q + 1 + (m - r) \<le> 2 ^ 64"
proof (rule ccontr)
  assume "\<not> q + 1 + (m - r) \<le> 2 ^ 64"
  then have "2 ^ 64 \<le> m" "2 ^ 63 \<le> q" using assms(3,4) by simp_all
  then have "2 ^ 63 * 2 ^ 64 \<le> q * m" by (intro mult_mono) simp_all
  then show False using assms(1,2,3) \<open>2 ^ 63 \<le> q\<close> by simp
qed

text \<open>The first quotient, and how the run goes on from it.\<close>

lemma calc_divisor_run:
  fixes P :: int
  assumes "length multiplier = 2" "\<not> (shift_amount > 127 \<or> xsize > 64)" "\<not> number multiplier \<le> 1" "P = 2 ^ shift_amount"
  obtains p m q r where "length p = 2" "length m = 2" "length q = 2" "length r = 2" "number p = P" "number m = number multiplier - 1"
    "P = number q * number m + number r" "number r < number m"
    "calc_divisor shift_amount multiplier xsize = (if q ! 1 \<noteq> 0 then ok (0, m) else if number m < number q then ok (0, m) else
      run_bind (if \<not> number r < number q then raise_quotient q r m else ok (Some (q, r, 0))) (\<lambda>st. case st of None \<Rightarrow> ok (0, m)
        | Some (quot, remainder, diff) \<Rightarrow> run_bind (check_divisor p quot remainder diff xsize) (\<lambda>divisor. ok (divisor, m))))"
proof -
  let ?one = "set_u128 1" and ?Y = "number multiplier"
  have one: "length ?one = 2" "number ?one = 1" by (simp_all add: set_u128_def)
  obtain m where m: "subtract128 multiplier ?one = ok m" "length m = 2" "number m = (?Y - 1) mod 2 ^ 128"
    using words_sub [OF assms(1) one(1)] one(2) by auto
  then have M: "number m = ?Y - 1" using assms(3) two_words(5) [OF assms(1)] by simp
  have "(2 :: int) ^ shift_amount \<le> 2 ^ 127" using assms(2) by (intro power_increasing) simp_all
  moreover obtain p where p: "leftshift128 ?one (int shift_amount) = ok p" "length p = 2" "number p = 1 * 2 ^ nat (int shift_amount) mod 2 ^ 128"
    using leftshift128_correct [of ?one "int shift_amount"] one assms(2) by auto
  ultimately have pP: "number p = P" by (simp add: assms(4))
  obtain q r where q: "udiv128 p m = ok (q, r)" "length q = 2" "length r = 2" "number q = P div number m" "number r = P mod number m"
    by (rule udiv128_ok [OF p(2) m(2)]) (use M assms(3) pP in auto)
  have "P = number q * number m + number r" by (simp add: q(4,5))
  moreover have "number r < number m" using M assms(3) q(5) by simp
  moreover have "calc_divisor shift_amount multiplier xsize = (if q ! 1 \<noteq> 0 then ok (0, m) else if number m < number q then ok (0, m) else
      run_bind (if \<not> number r < number q then raise_quotient q r m else ok (Some (q, r, 0))) (\<lambda>st. case st of None \<Rightarrow> ok (0, m)
        | Some (quot, remainder, diff) \<Rightarrow> run_bind (check_divisor p quot remainder diff xsize) (\<lambda>divisor. ok (divisor, m))))"
    unfolding calc_divisor_def Let_def if_not_P [OF assms(2)] words_less_eq [OF assms(1) one(1)] one(2) m(1) p(1) q(1) run_bind_simps prod.case
      if_not_P [OF assms(3)] two_words(2) [OF q(2)] words_less [OF m(2) q(2)] words_less [OF q(3,2)] ..
  ultimately show ?thesis using that p(2) m(2) q(2,3) pP M by blast
qed

definition right_divisor :: "(u64 \<times> u64 list) run \<Rightarrow> nat \<Rightarrow> int \<Rightarrow> int \<Rightarrow> bool" where
  "right_divisor res xsize Y P \<longleftrightarrow> res = err (Lowlevel ''divide by 0'') \<or>
     (\<exists>d m. res = ok (d, m) \<and> (d \<noteq> 0 \<longrightarrow> (\<forall>x. 0 \<le> x \<longrightarrow> x < 2 ^ xsize \<longrightarrow> Y * x div P = x div uint d)))"

lemma check_right:
  assumes "length p = 2" "number p = P" "0 < P" "xsize \<le> 64"
    and "res = run_bind (check_divisor p qs rs diff xsize) (\<lambda>divisor. ok (divisor, m))"
    and "length qs = 2" "length rs = 2" "0 < e" "e \<le> 2 ^ 64" "uint (diff + (qs ! 0 - rs ! 0)) = e mod 2 ^ 64" "uint (qs ! 0) * Y = P + e" "0 < uint (qs ! 0)"
  shows "right_divisor res xsize Y P"
  using check_divisor_sound [OF assms(1,6,7,2,3,8-12,4)] unfolding assms(5) right_divisor_def by auto

lemma calc_divisor_right:
  assumes "length multiplier = 2" "\<not> (shift_amount > 127 \<or> xsize > 64)" "\<not> number multiplier \<le> 1" "P = 2 ^ shift_amount"
  shows "right_divisor (calc_divisor shift_amount multiplier xsize) xsize (number multiplier) P"
proof -
  let ?res = "calc_divisor shift_amount multiplier xsize" and ?Y = "number multiplier"
  obtain p m q r where len: "length p = 2" "length m = 2" "length q = 2" "length r = 2" and pP: "number p = P" and M: "number m = ?Y - 1"
    and qr: "P = number q * number m + number r" "number r < number m" and run: "?res = (if q ! 1 \<noteq> 0 then ok (0, m) else if number m < number q then ok (0, m) else
      run_bind (if \<not> number r < number q then raise_quotient q r m else ok (Some (q, r, 0))) (\<lambda>st. case st of None \<Rightarrow> ok (0, m)
        | Some (quot, remainder, diff) \<Rightarrow> run_bind (check_divisor p quot remainder diff xsize) (\<lambda>divisor. ok (divisor, m))))"
    by (rule calc_divisor_run [OF assms])
  let ?q = "number q" and ?r = "number r" and ?m = "number m"
  have nn: "0 \<le> ?q" "0 \<le> ?r" using two_words(4) len(3,4) by simp_all
  have "P \<le> 2 ^ 127" unfolding assms(4) using assms(2) by (intro power_increasing) simp_all
  then have P: "0 < P" "P \<le> 2 ^ 127" "xsize \<le> 64" using assms(2,4) by simp_all
  note check = check_right [OF len(1) pP P(1,3)]
  consider "q ! 1 \<noteq> 0 \<or> ?m < ?q" | "q ! 1 = 0" "?q \<le> ?m" "?r < ?q" | "q ! 1 = 0" "?q \<le> ?m" "?q \<le> ?r" by linarith
  then show ?thesis
  proof cases
    case 1
    then show ?thesis using run by (auto simp: right_divisor_def)
  next
    case 2
    then have w: "uint (q ! 0) = ?q" "uint (r ! 0) = ?r" "?q < 2 ^ 64" using one_word [OF len(3)] one_word [OF len(4)] by simp_all
    then have "uint (q ! 0) * ?Y = P + (?q - ?r)" "uint (0 + (q ! 0 - r ! 0)) = (?q - ?r) mod 2 ^ 64"
      using qr(1) M 2(3) nn by (simp_all add: algebra_simps uint_sub_if')
    then show ?thesis using 2 run w nn len by (intro check [of _ q r 0 m "?q - ?r"]) simp_all
  next
    case 3
    then have w: "?q < 2 ^ 64" using one_word [OF len(3)] by simp
    from raise_quotient_run [OF len(3,4,2) w qr(2)] consider "raise_quotient q r m = ok None"
      | qs rs where "raise_quotient q r m = ok (Some (qs, rs, qs ! 0))" "length qs = 2" "length rs = 2" "uint (qs ! 0) = ?q + 1"
        "number rs = ?q + 1 - (?m - ?r)" "0 \<le> number rs" "number rs < ?q + 1" by blast
    then show ?thesis
    proof cases
      case 1
      then show ?thesis using run 3 by (simp add: right_divisor_def)
    next
      case (2 qs rs)
      let ?e = "?q + 1 + (?m - ?r)"
      have rs0: "uint (rs ! 0) = number rs" using one_word(2) [OF 2(3)] 2(7) w by simp
      have "uint (qs ! 0 + (qs ! 0 - rs ! 0)) = (uint (qs ! 0) + (uint (qs ! 0) - uint (rs ! 0))) mod 2 ^ 64"
        by (simp add: uint_word_ariths mod_simps)
      then have "uint (qs ! 0 + (qs ! 0 - rs ! 0)) = ?e mod 2 ^ 64" unfolding rs0 2(4,5) by (simp add: algebra_simps)
      moreover have "uint (qs ! 0) * ?Y = P + ?e" using qr(1) M 2(4) by (simp add: algebra_simps)
      moreover have "?e \<le> 2 ^ 64" using excess_bound [OF qr(1) P(2) 3(3) _ nn(1)] 2(5,6) by simp
      ultimately show ?thesis using 3 run 2 nn qr(2) by (intro check [of _ qs rs "qs ! 0" m ?e]) simp_all
    qed
  qed
qed

text \<open>C8: A recovered divisor is right. \<open>calc_divisor\<close> never panics and always returns. When it returns a divisor
  other than 0 for a multiplier, a shift amount and a dividend size, then for every dividend of that many bits
  the product with the multiplier, shifted to the right, is the quotient by that divisor.\<close>
theorem calc_divisor_sound:
  assumes "length multiplier = 2"
  shows "calc_divisor shift_amount multiplier xsize = err (Lowlevel ''divide by 0'') \<or>
    (\<exists>d m. calc_divisor shift_amount multiplier xsize = ok (d, m) \<and>
      (d \<noteq> 0 \<longrightarrow> (\<forall>x. 0 \<le> x \<longrightarrow> x < 2 ^ xsize \<longrightarrow> number multiplier * x div 2 ^ shift_amount = x div uint d)))"
proof (cases "shift_amount > 127 \<or> xsize > 64 \<or> number multiplier \<le> 1")
  case True
  have "length (set_u128 1) = 2" "number (set_u128 1) = 1" by (simp_all add: set_u128_def)
  then show ?thesis using True words_less_eq [OF assms, of "set_u128 1"] by (auto simp: calc_divisor_def)
next
  case False
  then show ?thesis using calc_divisor_right [OF assms _ _ refl, of shift_amount xsize] by (simp add: right_divisor_def)
qed

declare estimate_loop.simps [code]

text \<open>The multiplier for a division of 32 bits by 10: shift 35, multiplier 0xCCCCCCCD.\<close>

lemma calc_divisor_ten: "calc_divisor 35 [0xCCCCCCCD, 0] 32 = ok (10, [0xCCCCCCCC, 0])"
  by code_simp

theorem calc_divisor_sound_witness:
  "number [0xCCCCCCCD, 0 :: u64] * 4294967295 div 2 ^ 35 = 4294967295 div uint (10 :: u64)"
  using calc_divisor_sound [of "[0xCCCCCCCD, 0]" 35 32] by (simp only: calc_divisor_ten) simp

text \<open>
  Raising the quotient can make the excess exactly \<open>2 ^ 64\<close>, which wraps to 0: the next division fails, and
  the rule ends with an error where it should find no divisor.
\<close>

lemma calc_divisor_fails: "calc_divisor 127 [0, 1] 64 = err (Lowlevel ''divide by 0'')"
  by code_simp

end
