(* ===== verification/Arena.thy ===== *)
theory Arena
  imports Run
begin

text \<open>
  The arena of src/src/arena.rs: objects live in slots and are named by the index of their slot, a \<open>u32\<close>.
  A slot is never used again, so an identifier names one object for ever, and an access through the
  identifier of a removed object panics. Counters of type \<open>usize\<close> are naturals; a subtraction below 0 panics,
  as it does with overflow checks.
\<close>

type_synonym arena_id = u32

record 'a arena =
  slots :: "'a option list"
  live :: nat

definition id_from_index :: "nat \<Rightarrow> arena_id run" where
  "id_from_index i = (if int i < 2 ^ 32 then ok (of_nat i) else panic)"

definition id_index :: "arena_id \<Rightarrow> nat" where
  "id_index i = unat i"

definition arena_new :: "'a arena" where
  "arena_new = \<lparr>slots = [], live = 0\<rparr>"

definition arena_alloc :: "'a arena \<Rightarrow> 'a \<Rightarrow> ('a arena \<times> arena_id) run" where
  "arena_alloc ar val = run_bind (id_from_index (length (slots ar))) (\<lambda>i.
     ok (ar\<lparr>slots := slots ar @ [Some val], live := live ar + 1\<rparr>, i))"

definition arena_alloc_with :: "'a arena \<Rightarrow> (arena_id \<Rightarrow> 'a) \<Rightarrow> ('a arena \<times> arena_id) run" where
  "arena_alloc_with ar build = run_bind (id_from_index (length (slots ar))) (\<lambda>i.
     ok (ar\<lparr>slots := slots ar @ [Some (build i)], live := live ar + 1\<rparr>, i))"

definition arena_next_id :: "'a arena \<Rightarrow> arena_id run" where
  "arena_next_id ar = id_from_index (length (slots ar))"

text \<open>\<open>slots.get(id.index())\<close> and the slot in it.\<close>

definition arena_try_get :: "'a arena \<Rightarrow> arena_id \<Rightarrow> 'a option" where
  "arena_try_get ar i = (if id_index i < length (slots ar) then slots ar ! id_index i else None)"

definition arena_contains :: "'a arena \<Rightarrow> arena_id \<Rightarrow> bool" where
  "arena_contains ar i = (arena_try_get ar i \<noteq> None)"

definition arena_get :: "'a arena \<Rightarrow> arena_id \<Rightarrow> 'a run" where
  "arena_get ar i = (case arena_try_get ar i of Some val \<Rightarrow> ok val | None \<Rightarrow> panic)"

text \<open>What is stored through the reference that \<open>get_mut\<close> returns.\<close>

definition arena_put :: "'a arena \<Rightarrow> arena_id \<Rightarrow> 'a \<Rightarrow> 'a arena" where
  "arena_put ar i val = ar\<lparr>slots := (slots ar)[id_index i := Some val]\<rparr>"

definition arena_modify :: "'a arena \<Rightarrow> arena_id \<Rightarrow> ('a \<Rightarrow> 'a run) \<Rightarrow> 'a arena run" where
  "arena_modify ar i f = run_bind (arena_get ar i) (\<lambda>val. run_bind (f val) (\<lambda>val'. ok (arena_put ar i val')))"

text \<open>The two objects of \<open>get2_mut\<close>, in the order of the arguments.\<close>

definition arena_get2 :: "'a arena \<Rightarrow> arena_id \<Rightarrow> arena_id \<Rightarrow> ('a \<times> 'a) run" where
  "arena_get2 ar i j =
     (if id_index i = id_index j then panic
      else let (low, high, swapped) = (if id_index i < id_index j then (id_index i, id_index j, False)
                                       else (id_index j, id_index i, True)) in
      if length (slots ar) < high then panic
      else let head = take high (slots ar); tail = drop high (slots ar) in
      (case head ! low of None \<Rightarrow> panic | Some low_value \<Rightarrow>
       if tail = [] then panic
       else (case tail ! 0 of None \<Rightarrow> panic | Some high_value \<Rightarrow>
         ok (if swapped then (high_value, low_value) else (low_value, high_value)))))"

definition arena_remove :: "'a arena \<Rightarrow> arena_id \<Rightarrow> ('a arena \<times> 'a) run" where
  "arena_remove ar i =
     (case arena_try_get ar i of None \<Rightarrow> panic
      | Some val \<Rightarrow> if live ar = 0 then panic
          else ok (ar\<lparr>slots := (slots ar)[id_index i := None], live := live ar - 1\<rparr>, val))"

definition arena_clear :: "'a arena \<Rightarrow> 'a arena" where
  "arena_clear ar = ar\<lparr>slots := map (\<lambda>_. None) (slots ar), live := 0\<rparr>"

definition arena_len :: "'a arena \<Rightarrow> nat" where
  "arena_len ar = live ar"

definition arena_is_empty :: "'a arena \<Rightarrow> bool" where
  "arena_is_empty ar = (live ar = 0)"

definition arena_capacity_ids :: "'a arena \<Rightarrow> nat" where
  "arena_capacity_ids ar = length (slots ar)"

fun iter_slots :: "nat \<Rightarrow> 'a option list \<Rightarrow> (arena_id \<times> 'a) list run" where
  "iter_slots n [] = ok []"
| "iter_slots n (None # rest) = iter_slots (Suc n) rest"
| "iter_slots n (Some val # rest) = run_bind (id_from_index n) (\<lambda>i.
     run_bind (iter_slots (Suc n) rest) (\<lambda>items. ok ((i, val) # items)))"

definition arena_iter :: "'a arena \<Rightarrow> (arena_id \<times> 'a) list run" where
  "arena_iter ar = iter_slots 0 (slots ar)"

definition arena_ids :: "'a arena \<Rightarrow> arena_id list run" where
  "arena_ids ar = run_bind (arena_iter ar) (\<lambda>items. ok (map fst items))"

section \<open>The invariant\<close>

text \<open>The live count is the number of filled slots, and every slot has an identifier.\<close>

definition arena_ok :: "'a arena \<Rightarrow> bool" where
  "arena_ok ar \<longleftrightarrow> live ar = length (filter (\<lambda>s. s \<noteq> None) (slots ar)) \<and> length (slots ar) \<le> 2 ^ 32"

text \<open>The objects of an arena, by identifier.\<close>

abbreviation objects :: "'a arena \<Rightarrow> arena_id \<Rightarrow> 'a option" where
  "objects \<equiv> arena_try_get"

lemma arena_get_ok [simp]: "arena_get ar i = ok val \<longleftrightarrow> objects ar i = Some val"
  by (auto simp: arena_get_def split: option.splits)

lemma arena_get_some: "objects ar i = Some val \<Longrightarrow> arena_get ar i = ok val"
  by simp

lemma arena_get_stale: "arena_get ar i = panic \<longleftrightarrow> objects ar i = None"
  by (auto simp: arena_get_def split: option.splits)

lemma contains_objects: "arena_contains ar i \<longleftrightarrow> objects ar i \<noteq> None"
  by (simp add: arena_contains_def)

lemma unat_lt_32: "unat (i :: u32) < 2 ^ 32"
  using unsigned_less [of i] by simp

lemma id_index_inj: "id_index i = id_index j \<longleftrightarrow> i = j"
  by (simp add: id_index_def word_unat_eq_iff)

lemma objects_bound: "objects ar i = Some val \<Longrightarrow> id_index i < length (slots ar)"
  by (auto simp: arena_try_get_def split: if_splits)

lemma objects_put [simp]:
  "objects ar i = Some old \<Longrightarrow> objects (arena_put ar i val) = (objects ar)(i \<mapsto> val)"
  by (rule ext) (auto simp: arena_put_def arena_try_get_def nth_list_update id_index_inj split: if_splits)

lemma slots_put [simp]: "length (slots (arena_put ar i val)) = length (slots ar)" "live (arena_put ar i val) = live ar"
  by (simp_all add: arena_put_def)

lemma filter_update:
  assumes "n < length xs"
  shows "length (filter P (xs[n := x])) + (if P (xs ! n) then 1 else 0) = length (filter P xs) + (if P x then 1 else 0)"
proof -
  have "filter P xs = filter P (take n xs @ xs ! n # drop (Suc n) xs)" using id_take_nth_drop [OF assms] by (rule arg_cong)
  then have "length (filter P xs) = length (filter P (take n xs)) + (if P (xs ! n) then 1 else 0) + length (filter P (drop (Suc n) xs))"
    by simp
  then show ?thesis using assms by (simp add: upd_conv_take_nth_drop)
qed

lemma arena_ok_put:
  assumes "arena_ok ar" "objects ar i = Some old"
  shows "arena_ok (arena_put ar i val)"
proof -
  have "id_index i < length (slots ar)" "slots ar ! id_index i = Some old"
    using assms(2) by (auto simp: arena_try_get_def split: if_splits)
  then show ?thesis
    using filter_update [of "id_index i" "slots ar" "\<lambda>s. s \<noteq> None" "Some val"] assms(1)
    by (simp add: arena_ok_def arena_put_def)
qed

lemma arena_ok_new: "arena_ok arena_new"
  by (simp add: arena_ok_def arena_new_def)

lemma objects_new: "objects arena_new i = None"
  by (simp add: arena_new_def arena_try_get_def)

lemma arena_ok_clear: "arena_ok ar \<Longrightarrow> arena_ok (arena_clear ar)"
  by (simp add: arena_ok_def arena_clear_def filter_map comp_def)

lemma objects_clear: "objects (arena_clear ar) i = None"
  by (simp add: arena_clear_def arena_try_get_def)

lemma alloc_ok:
  assumes "length (slots ar) < 2 ^ 32" "arena_alloc ar val = ok (ar', i)"
  shows "id_index i = length (slots ar)" "objects ar i = None" "objects ar' = (objects ar)(i \<mapsto> val)"
    "length (slots ar') = Suc (length (slots ar))" "arena_ok ar \<Longrightarrow> arena_ok ar'" "live ar' = Suc (live ar)"
proof -
  have i: "i = of_nat (length (slots ar))" and ar': "ar' = ar\<lparr>slots := slots ar @ [Some val], live := live ar + 1\<rparr>"
    using assms by (auto simp: arena_alloc_def id_from_index_def run_bind_ok split: if_splits)
  show n: "id_index i = length (slots ar)" using assms(1) by (simp add: i id_index_def unat_of_nat)
  show "objects ar i = None" by (simp add: arena_try_get_def n)
  show "objects ar' = (objects ar)(i \<mapsto> val)"
    by (rule ext) (auto simp: ar' arena_try_get_def nth_append n id_index_inj less_Suc_eq simp flip: n)
  show "length (slots ar') = Suc (length (slots ar))" "live ar' = Suc (live ar)" by (simp_all add: ar')
  show "arena_ok ar \<Longrightarrow> arena_ok ar'" using assms(1) by (auto simp: arena_ok_def ar')
qed

lemma alloc_total: "length (slots ar) < 2 ^ 32 \<Longrightarrow> \<exists>ar' i. arena_alloc ar val = ok (ar', i)"
  by (simp add: arena_alloc_def id_from_index_def)

lemma live_positive: "arena_ok ar \<Longrightarrow> objects ar i = Some val \<Longrightarrow> 0 < live ar"
  using objects_bound [of ar i val] by (fastforce simp: arena_ok_def arena_try_get_def filter_empty_conv in_set_conv_nth)

lemma arena_remove_ok:
  assumes "arena_ok ar" "objects ar i = Some val"
  obtains ar' where "arena_remove ar i = ok (ar', val)" "arena_ok ar'" "objects ar' = (objects ar)(i := None)"
    "length (slots ar') = length (slots ar)" "live ar = Suc (live ar')"
proof -
  let ?ar = "ar\<lparr>slots := (slots ar)[id_index i := None], live := live ar - 1\<rparr>"
  have i: "id_index i < length (slots ar)" using assms(2) by (rule objects_bound)
  have "arena_remove ar i = ok (?ar, val)" using assms live_positive [OF assms] by (simp add: arena_remove_def)
  moreover have "arena_ok ?ar"
    using assms i filter_update [OF i, of "\<lambda>s. s \<noteq> None" None] live_positive [OF assms]
    by (auto simp: arena_ok_def arena_try_get_def split: if_splits)
  moreover have "objects ?ar = (objects ar)(i := None)"
    using i by (intro ext) (auto simp: arena_try_get_def nth_list_update id_index_inj)
  ultimately show ?thesis using that [of ?ar] live_positive [OF assms] by simp
qed

lemma iter_slots_ok:
  "n + length ss \<le> 2 ^ 32 \<Longrightarrow>
   iter_slots n ss = ok (map (\<lambda>k. (of_nat (n + k), the (ss ! k))) (filter (\<lambda>k. ss ! k \<noteq> None) [0..<length ss]))"
proof (induction n ss rule: iter_slots.induct)
  case (2 n rest)
  have "[0..<Suc (length rest)] = 0 # map Suc [0..<length rest]" by (simp add: upt_conv_Cons map_Suc_upt del: upt_Suc)
  with 2 show ?case by (simp add: filter_map comp_def del: upt_Suc)
next
  case (3 n val rest)
  have "[0..<Suc (length rest)] = 0 # map Suc [0..<length rest]" by (simp add: upt_conv_Cons map_Suc_upt del: upt_Suc)
  with 3 show ?case by (simp add: filter_map comp_def id_from_index_def del: upt_Suc)
qed simp

end
