(* ===== verification/Linked_List.thy ===== *)
theory Linked_List
  imports Arena
begin

text \<open>
  The intrusive doubly linked lists of src/src/oplist.rs. The links of a list are stored in the objects of
  an arena, in a slot of the object, so that one operation or record can be in several lists. The trait
  \<open>LinkedNode\<close> is a record of its two methods; its contract is the locale \<open>linked_node\<close>, and every list
  operation is proved once there against HOL lists.
\<close>

section \<open>Links and lists\<close>

record list_links =
  lk_prev :: "arena_id option"
  lk_next :: "arena_id option"

definition default_links :: list_links where
  "default_links = \<lparr>lk_prev = None, lk_next = None\<rparr>"

text \<open>\<open>links\<close>, and the store through the reference that \<open>links_mut\<close> returns.\<close>

record 'n node_links =
  get_links :: "'n \<Rightarrow> nat \<Rightarrow> list_links run"
  set_links :: "'n \<Rightarrow> nat \<Rightarrow> list_links \<Rightarrow> 'n run"

record intrusive_list =
  il_head :: "arena_id option"
  il_tail :: "arena_id option"
  il_len :: nat
  il_slot :: nat

definition list_new :: "nat \<Rightarrow> intrusive_list" where
  "list_new slot = \<lparr>il_head = None, il_tail = None, il_len = 0, il_slot = slot\<rparr>"

definition list_front :: "intrusive_list \<Rightarrow> arena_id option" where
  "list_front l = il_head l"

definition list_back :: "intrusive_list \<Rightarrow> arena_id option" where
  "list_back l = il_tail l"

definition list_is_empty :: "intrusive_list \<Rightarrow> bool" where
  "list_is_empty l = (il_len l = 0)"

definition read_links :: "'n node_links \<Rightarrow> 'n arena \<Rightarrow> nat \<Rightarrow> arena_id \<Rightarrow> list_links run" where
  "read_links D nodes slot i = run_bind (arena_get nodes i) (\<lambda>n. get_links D n slot)"

definition write_links :: "'n node_links \<Rightarrow> 'n arena \<Rightarrow> nat \<Rightarrow> arena_id \<Rightarrow> (list_links \<Rightarrow> list_links) \<Rightarrow> 'n arena run" where
  "write_links D nodes slot i f = arena_modify nodes i (\<lambda>n.
     run_bind (get_links D n slot) (\<lambda>l. set_links D n slot (f l)))"

definition list_next :: "'n node_links \<Rightarrow> intrusive_list \<Rightarrow> 'n arena \<Rightarrow> arena_id \<Rightarrow> arena_id option run" where
  "list_next D l nodes i = run_bind (read_links D nodes (il_slot l) i) (\<lambda>k. ok (lk_next k))"

definition list_prev :: "'n node_links \<Rightarrow> intrusive_list \<Rightarrow> 'n arena \<Rightarrow> arena_id \<Rightarrow> arena_id option run" where
  "list_prev D l nodes i = run_bind (read_links D nodes (il_slot l) i) (\<lambda>k. ok (lk_prev k))"

definition list_insert :: "'n node_links \<Rightarrow> intrusive_list \<Rightarrow> 'n arena \<Rightarrow> arena_id option \<Rightarrow> arena_id
    \<Rightarrow> (intrusive_list \<times> 'n arena) run" where
  "list_insert D l nodes pos i =
     (let slot = il_slot l in
      run_bind (case pos of Some position \<Rightarrow> run_bind (read_links D nodes slot position) (\<lambda>k. ok (lk_prev k))
                | None \<Rightarrow> ok (il_tail l)) (\<lambda>prev.
      run_bind (write_links D nodes slot i (\<lambda>k. k\<lparr>lk_prev := prev, lk_next := pos\<rparr>)) (\<lambda>nodes.
      run_bind (case prev of
                  Some previous \<Rightarrow> run_bind (write_links D nodes slot previous (\<lambda>k. k\<lparr>lk_next := Some i\<rparr>))
                                     (\<lambda>nodes. ok (l, nodes))
                | None \<Rightarrow> ok (l\<lparr>il_head := Some i\<rparr>, nodes)) (\<lambda>(l, nodes).
      run_bind (case pos of
                  Some position \<Rightarrow> run_bind (write_links D nodes slot position (\<lambda>k. k\<lparr>lk_prev := Some i\<rparr>))
                                     (\<lambda>nodes. ok (l, nodes))
                | None \<Rightarrow> ok (l\<lparr>il_tail := Some i\<rparr>, nodes)) (\<lambda>(l, nodes).
      ok (l\<lparr>il_len := il_len l + 1\<rparr>, nodes))))))"

definition push_back :: "'n node_links \<Rightarrow> intrusive_list \<Rightarrow> 'n arena \<Rightarrow> arena_id \<Rightarrow> (intrusive_list \<times> 'n arena) run" where
  "push_back D l nodes i = list_insert D l nodes None i"

definition push_front :: "'n node_links \<Rightarrow> intrusive_list \<Rightarrow> 'n arena \<Rightarrow> arena_id \<Rightarrow> (intrusive_list \<times> 'n arena) run" where
  "push_front D l nodes i = list_insert D l nodes (il_head l) i"

definition insert_before :: "'n node_links \<Rightarrow> intrusive_list \<Rightarrow> 'n arena \<Rightarrow> arena_id \<Rightarrow> arena_id
    \<Rightarrow> (intrusive_list \<times> 'n arena) run" where
  "insert_before D l nodes pos i = list_insert D l nodes (Some pos) i"

definition insert_after :: "'n node_links \<Rightarrow> intrusive_list \<Rightarrow> 'n arena \<Rightarrow> arena_id \<Rightarrow> arena_id
    \<Rightarrow> (intrusive_list \<times> 'n arena) run" where
  "insert_after D l nodes pos i = run_bind (list_next D l nodes pos) (\<lambda>following. list_insert D l nodes following i)"

text \<open>Removal from a list the node is not in trips the assertions of the debug build.\<close>

definition list_remove :: "'n node_links \<Rightarrow> intrusive_list \<Rightarrow> 'n arena \<Rightarrow> arena_id
    \<Rightarrow> (intrusive_list \<times> 'n arena \<times> arena_id option) run" where
  "list_remove D l nodes i =
     (let slot = il_slot l in
      run_bind (read_links D nodes slot i) (\<lambda>k. let prev = lk_prev k; nxt = lk_next k in
      run_bind (case prev of
                  Some previous \<Rightarrow> run_bind (write_links D nodes slot previous (\<lambda>k. k\<lparr>lk_next := nxt\<rparr>))
                                     (\<lambda>nodes. ok (l, nodes))
                | None \<Rightarrow> if il_head l \<noteq> Some i then panic else ok (l\<lparr>il_head := nxt\<rparr>, nodes)) (\<lambda>(l, nodes).
      run_bind (case nxt of
                  Some following \<Rightarrow> run_bind (write_links D nodes slot following (\<lambda>k. k\<lparr>lk_prev := prev\<rparr>))
                                     (\<lambda>nodes. ok (l, nodes))
                | None \<Rightarrow> if il_tail l \<noteq> Some i then panic else ok (l\<lparr>il_tail := prev\<rparr>, nodes)) (\<lambda>(l, nodes).
      run_bind (write_links D nodes slot i (\<lambda>_. default_links)) (\<lambda>nodes.
      if il_len l = 0 then panic else ok (l\<lparr>il_len := il_len l - 1\<rparr>, nodes, nxt))))))"

section \<open>Iteration and moves\<close>

record list_iter =
  it_front :: "arena_id option"
  it_back :: "arena_id option"
  it_remaining :: nat

definition iter_new :: "intrusive_list \<Rightarrow> list_iter" where
  "iter_new l = \<lparr>it_front = il_head l, it_back = il_tail l, it_remaining = il_len l\<rparr>"

definition iter_next :: "'n node_links \<Rightarrow> 'n arena \<Rightarrow> nat \<Rightarrow> list_iter \<Rightarrow> (list_iter \<times> arena_id option) run" where
  "iter_next D nodes slot it =
     (if it_remaining it = 0 then ok (it, None)
      else case it_front it of None \<Rightarrow> ok (it, None)
      | Some current \<Rightarrow> run_bind (read_links D nodes slot current) (\<lambda>k.
          ok (it\<lparr>it_front := lk_next k, it_remaining := it_remaining it - 1\<rparr>, Some current)))"

definition iter_next_back :: "'n node_links \<Rightarrow> 'n arena \<Rightarrow> nat \<Rightarrow> list_iter \<Rightarrow> (list_iter \<times> arena_id option) run" where
  "iter_next_back D nodes slot it =
     (if it_remaining it = 0 then ok (it, None)
      else case it_back it of None \<Rightarrow> ok (it, None)
      | Some current \<Rightarrow> run_bind (read_links D nodes slot current) (\<lambda>k.
          ok (it\<lparr>it_back := lk_prev k, it_remaining := it_remaining it - 1\<rparr>, Some current)))"

text \<open>\<open>collect\<close> calls \<open>next\<close> until it returns nothing.\<close>

partial_function (option) iter_collect :: "'n node_links \<Rightarrow> 'n arena \<Rightarrow> nat \<Rightarrow> list_iter \<Rightarrow> arena_id list run" where
  "iter_collect D nodes slot it = run_bind (iter_next D nodes slot it) (\<lambda>r.
     case snd r of None \<Rightarrow> ok []
     | Some i \<Rightarrow> run_bind (iter_collect D nodes slot (fst r)) (\<lambda>items. ok (i # items)))"

declare iter_collect.simps [code]

definition to_vec :: "'n node_links \<Rightarrow> intrusive_list \<Rightarrow> 'n arena \<Rightarrow> arena_id list run" where
  "to_vec D l nodes = iter_collect D nodes (il_slot l) (iter_new l)"

text \<open>The nodes from \<open>current\<close> up to \<open>end\<close>, or nothing when the position is among them.\<close>

partial_function (option) splice_walk ::
  "'n node_links \<Rightarrow> 'n arena \<Rightarrow> nat \<Rightarrow> arena_id option \<Rightarrow> arena_id option \<Rightarrow> arena_id option \<Rightarrow> arena_id list
    \<Rightarrow> arena_id list option run" where
  "splice_walk D nodes slot pos stop current moved =
     (if current = stop then ok (Some moved)
      else case current of None \<Rightarrow> panic
      | Some node \<Rightarrow>
          if Some node = pos then ok None
          else run_bind (read_links D nodes slot node) (\<lambda>k. splice_walk D nodes slot pos stop (lk_next k) (moved @ [node])))"

declare splice_walk.simps [code]

definition remove_all :: "'n node_links \<Rightarrow> arena_id list \<Rightarrow> intrusive_list \<times> 'n arena \<Rightarrow> (intrusive_list \<times> 'n arena) run" where
  "remove_all D moved = run_fold (\<lambda>node (l, nodes). run_bind (list_remove D l nodes node) (\<lambda>(l, nodes, _). ok (l, nodes))) moved"

definition insert_all :: "'n node_links \<Rightarrow> arena_id option \<Rightarrow> arena_id list \<Rightarrow> intrusive_list \<times> 'n arena
    \<Rightarrow> (intrusive_list \<times> 'n arena) run" where
  "insert_all D pos moved = run_fold (\<lambda>node (l, nodes). list_insert D l nodes pos node) moved"

definition splice_range :: "'n node_links \<Rightarrow> intrusive_list \<Rightarrow> 'n arena \<Rightarrow> arena_id option \<Rightarrow> arena_id \<Rightarrow> arena_id option
    \<Rightarrow> (intrusive_list \<times> 'n arena) run" where
  "splice_range D l nodes pos first stop =
     (if Some first = stop \<or> pos = Some first then ok (l, nodes)
      else run_bind (splice_walk D nodes (il_slot l) pos stop (Some first) []) (\<lambda>r.
        case r of None \<Rightarrow> ok (l, nodes)
        | Some moved \<Rightarrow> run_bind (remove_all D moved (l, nodes)) (insert_all D pos moved)))"

text \<open>The receiver, the other list and the arena.\<close>

definition append_all :: "'n node_links \<Rightarrow> intrusive_list \<Rightarrow> intrusive_list \<Rightarrow> 'n arena
    \<Rightarrow> (intrusive_list \<times> intrusive_list \<times> 'n arena) run" where
  "append_all D l other nodes = run_bind (to_vec D other nodes) (\<lambda>moved.
     run_bind (remove_all D moved (other, nodes)) (\<lambda>(other, nodes).
     run_bind (insert_all D None moved (l, nodes)) (\<lambda>(l, nodes). ok (l, other, nodes))))"

definition list_clear :: "'n node_links \<Rightarrow> intrusive_list \<Rightarrow> 'n arena \<Rightarrow> (intrusive_list \<times> 'n arena) run" where
  "list_clear D l nodes = run_bind (to_vec D l nodes) (\<lambda>nodes_of_list.
     run_bind (run_fold (\<lambda>node nodes.
       if arena_contains nodes node then write_links D nodes (il_slot l) node (\<lambda>_. default_links) else ok nodes)
       nodes_of_list nodes) (\<lambda>nodes.
     ok (l\<lparr>il_head := None, il_tail := None, il_len := 0\<rparr>, nodes)))"

section \<open>Lists in a store\<close>

text \<open>
  A view gives the links of each node for one slot. \<open>chain v p xs n\<close> says that the nodes \<open>xs\<close> are linked in
  this order, with \<open>p\<close> before the first and \<open>n\<close> after the last.
\<close>

type_synonym link_view = "arena_id \<Rightarrow> list_links option"

fun first_or :: "arena_id list \<Rightarrow> arena_id option \<Rightarrow> arena_id option" where
  "first_or [] n = n"
| "first_or (x # xs) n = Some x"

fun last_or :: "arena_id option \<Rightarrow> arena_id list \<Rightarrow> arena_id option" where
  "last_or p [] = p"
| "last_or p (x # xs) = last_or (Some x) xs"

fun chain :: "link_view \<Rightarrow> arena_id option \<Rightarrow> arena_id list \<Rightarrow> arena_id option \<Rightarrow> bool" where
  "chain v p [] n = True"
| "chain v p (x # xs) n = (v x = Some \<lparr>lk_prev = p, lk_next = first_or xs n\<rparr> \<and> chain v (Some x) xs n)"

lemma first_or_append [simp]: "first_or (xs @ ys) n = first_or xs (first_or ys n)"
  by (cases xs) simp_all

lemma last_or_append [simp]: "last_or p (xs @ ys) = last_or (last_or p xs) ys"
  by (induction xs arbitrary: p) simp_all

lemma chain_append: "chain v p (xs @ ys) n \<longleftrightarrow> chain v p xs (first_or ys n) \<and> chain v (last_or p xs) ys n"
  by (induction xs arbitrary: p) auto

lemma chain_frame: "chain v p xs n \<Longrightarrow> (\<And>x. x \<in> set xs \<Longrightarrow> v' x = v x) \<Longrightarrow> chain v' p xs n"
  by (induction xs arbitrary: p) auto

lemma chain_dom: "chain v p xs n \<Longrightarrow> x \<in> set xs \<Longrightarrow> v x \<noteq> None"
  by (induction xs arbitrary: p) auto

lemma last_or_snoc: "last_or p xs = (if xs = [] then p else Some (last xs))"
  by (induction xs arbitrary: p) simp_all

lemma first_or_hd: "first_or xs n = (if xs = [] then n else Some (hd xs))"
  by (cases xs) simp_all

text \<open>Only the last node knows what follows, and only the first what precedes.\<close>

lemma chain_new_next:
  assumes "chain v p xs n" "distinct xs" "xs \<noteq> []" "v (last xs) = Some k"
  shows "chain (v(last xs \<mapsto> k\<lparr>lk_next := n'\<rparr>)) p xs n'"
proof -
  obtain ys y where xs: "xs = ys @ [y]" using assms(3) by (cases xs rule: rev_cases) auto
  with assms show ?thesis by (auto simp: chain_append intro: chain_frame)
qed

lemma chain_new_prev:
  assumes "chain v p xs n" "distinct xs" "xs \<noteq> []" "v (hd xs) = Some k"
  shows "chain (v(hd xs \<mapsto> k\<lparr>lk_prev := p'\<rparr>)) p' xs n"
proof -
  obtain y ys where xs: "xs = y # ys" using assms(3) by (cases xs) auto
  with assms show ?thesis by (auto intro: chain_frame)
qed

end
