(* ===== verification/List_Refine.thy ===== *)
theory List_Refine
  imports Linked_List
begin

text \<open>
  The contract of linked nodes and the list operations against HOL lists. \<open>list_rep D nodes l xs\<close> says that the
  list object \<open>l\<close> and the links stored in the arena hold the sequence \<open>xs\<close>; each operation is shown to return
  and to have the effect of the corresponding operation on sequences, to leave the links of other nodes alone,
  and to keep the objects themselves.
\<close>

section \<open>Views of an arena\<close>

definition view :: "'n node_links \<Rightarrow> 'n arena \<Rightarrow> nat \<Rightarrow> link_view" where
  "view D nodes slot i = (case objects nodes i of None \<Rightarrow> None
     | Some n \<Rightarrow> (case get_links D n slot of Some (Inr k) \<Rightarrow> Some k | _ \<Rightarrow> None))"

definition same_objects :: "('n \<Rightarrow> 'p) \<Rightarrow> 'n arena \<Rightarrow> 'n arena \<Rightarrow> bool" where
  "same_objects payload nodes nodes' \<longleftrightarrow>
     length (slots nodes') = length (slots nodes) \<and> live nodes' = live nodes \<and> (arena_ok nodes \<longrightarrow> arena_ok nodes') \<and>
     (\<forall>i. map_option payload (objects nodes' i) = map_option payload (objects nodes i))"

definition list_rep :: "'n node_links \<Rightarrow> 'n arena \<Rightarrow> intrusive_list \<Rightarrow> arena_id list \<Rightarrow> bool" where
  "list_rep D nodes l xs \<longleftrightarrow>
     chain (view D nodes (il_slot l)) None xs None \<and> distinct xs \<and>
     il_head l = first_or xs None \<and> il_tail l = last_or None xs \<and> il_len l = length xs"

lemma same_objects_refl [simp]: "same_objects payload nodes nodes"
  by (simp add: same_objects_def)

lemma same_objects_trans: "same_objects payload a b \<Longrightarrow> same_objects payload b c \<Longrightarrow> same_objects payload a c"
  by (simp add: same_objects_def)

lemma same_objects_payload: "same_objects payload a b \<Longrightarrow> map_option payload (objects b i) = map_option payload (objects a i)"
  by (simp add: same_objects_def)

lemma read_links_ok [simp]: "read_links D nodes slot i = ok k \<longleftrightarrow> view D nodes slot i = Some k"
proof (cases "objects nodes i")
  case (Some n)
  then show ?thesis by (auto simp: read_links_def view_def arena_get_some run_bind_def ok_def split: option.splits sum.splits)
qed (simp add: read_links_def view_def arena_get_def)

lemma read_links_some: "view D nodes slot i = Some k \<Longrightarrow> read_links D nodes slot i = ok k"
  by simp

lemma view_objects: "view D nodes slot i = Some k \<Longrightarrow> \<exists>n. objects nodes i = Some n \<and> get_links D n slot = ok k"
  by (auto simp: view_def ok_def split: option.splits sum.splits)

lemma list_rep_new: "list_rep D nodes (list_new slot) []"
  by (simp add: list_rep_def list_new_def)

lemma list_rep_unique: "list_rep D nodes l xs \<Longrightarrow> list_rep D nodes l ys \<Longrightarrow> xs = ys"
proof -
  have "chain v p xs n \<Longrightarrow> chain v p ys n \<Longrightarrow> first_or xs n = first_or ys n \<Longrightarrow> length xs = length ys \<Longrightarrow> xs = ys" for v p n
  proof (induction xs arbitrary: p ys)
    case (Cons x xs)
    then show ?case by (cases ys) auto
  qed simp
  then show "list_rep D nodes l xs \<Longrightarrow> list_rep D nodes l ys \<Longrightarrow> xs = ys" unfolding list_rep_def by fastforce
qed

lemma list_rep_next:
  assumes "list_rep D nodes l (as @ x # bs)"
  shows "list_next D l nodes x = ok (first_or bs None)" "list_prev D l nodes x = ok (last_or None as)"
  using assms by (auto simp: list_rep_def chain_append list_next_def list_prev_def read_links_some)

lemma list_rep_frame:
  assumes "list_rep D nodes l xs" "\<And>x. x \<in> set xs \<Longrightarrow> view D nodes' (il_slot l) x = view D nodes (il_slot l) x"
  shows "list_rep D nodes' l xs"
  using assms chain_frame unfolding list_rep_def by blast

section \<open>Walking a chain\<close>

text \<open>An iterator over the nodes that are left; items can be taken from both ends.\<close>

definition iter_rep :: "link_view \<Rightarrow> list_iter \<Rightarrow> arena_id list \<Rightarrow> bool" where
  "iter_rep v it xs \<longleftrightarrow> (\<exists>p n. chain v p xs n) \<and> it_remaining it = length xs \<and>
     (xs \<noteq> [] \<longrightarrow> it_front it = Some (hd xs) \<and> it_back it = Some (last xs))"

lemma iter_rep_new: "list_rep D nodes l xs \<Longrightarrow> iter_rep (view D nodes (il_slot l)) (iter_new l) xs"
  by (auto simp: list_rep_def iter_rep_def iter_new_def first_or_hd last_or_snoc)

lemma iter_next_ok:
  assumes "iter_rep (view D nodes slot) it xs"
  shows "\<exists>it'. iter_next D nodes slot it = ok (it', if xs = [] then None else Some (hd xs)) \<and>
    iter_rep (view D nodes slot) it' (tl xs)"
proof (cases xs)
  case (Cons x ys)
  then obtain p n where "view D nodes slot x = Some \<lparr>lk_prev = p, lk_next = first_or ys n\<rparr>" "chain (view D nodes slot) (Some x) ys n"
    using assms by (auto simp: iter_rep_def)
  then show ?thesis using assms Cons
    by (auto simp: iter_rep_def iter_next_def read_links_some first_or_hd)
qed (use assms in \<open>simp add: iter_rep_def iter_next_def\<close>)

lemma iter_next_back_ok:
  assumes "iter_rep (view D nodes slot) it xs"
  shows "\<exists>it'. iter_next_back D nodes slot it = ok (it', if xs = [] then None else Some (last xs)) \<and>
    iter_rep (view D nodes slot) it' (butlast xs)"
proof (cases xs rule: rev_cases)
  case (snoc ys x)
  then obtain p n where "view D nodes slot x = Some \<lparr>lk_prev = last_or p ys, lk_next = n\<rparr>" "chain (view D nodes slot) p ys (Some x)"
    using assms by (auto simp: iter_rep_def chain_append)
  then show ?thesis using assms snoc
    by (auto simp: iter_rep_def iter_next_back_def read_links_some last_or_snoc)
qed (use assms in \<open>simp add: iter_rep_def iter_next_back_def\<close>)

lemma iter_collect_ok: "iter_rep (view D nodes slot) it xs \<Longrightarrow> iter_collect D nodes slot it = ok xs"
proof (induction xs arbitrary: it)
  case Nil
  then show ?case using iter_next_ok [OF Nil] by (subst iter_collect.simps) auto
next
  case (Cons x xs)
  then show ?case using iter_next_ok [OF Cons.prems] by (subst iter_collect.simps) auto
qed

lemma to_vec_ok: "list_rep D nodes l xs \<Longrightarrow> to_vec D l nodes = ok xs"
  by (simp add: to_vec_def iter_collect_ok iter_rep_new)

lemma splice_walk_ok:
  assumes "chain (view D nodes slot) p (as @ ms @ bs) None" "distinct (as @ ms @ bs)" "pos \<notin> Some ` set ms"
  shows "splice_walk D nodes slot pos (first_or bs None) (first_or (ms @ bs) None) moved = ok (Some (moved @ ms))"
  using assms
proof (induction ms arbitrary: as moved)
  case (Cons m ms)
  have "Some m \<noteq> first_or bs None" using Cons.prems(2) by (auto simp: first_or_hd)
  moreover have "view D nodes slot m = Some \<lparr>lk_prev = last_or p as, lk_next = first_or (ms @ bs) None\<rparr>"
    using Cons.prems(1) by (simp add: chain_append)
  moreover have "splice_walk D nodes slot pos (first_or bs None) (first_or (ms @ bs) None) (moved @ [m]) = ok (Some ((moved @ [m]) @ ms))"
    using Cons.prems by (intro Cons.IH [of "as @ [m]"]) auto
  ultimately show ?case using Cons.prems(3) by (subst splice_walk.simps) (auto simp: read_links_some)
qed (subst splice_walk.simps, simp)

lemma splice_walk_inside:
  assumes "chain (view D nodes slot) p (as @ (ms @ q # rest) @ bs) None" "distinct (as @ (ms @ q # rest) @ bs)"
  shows "splice_walk D nodes slot (Some q) (first_or bs None) (first_or ((ms @ q # rest) @ bs) None) moved = ok None"
  using assms
proof (induction ms arbitrary: as moved)
  case Nil
  have "Some q \<noteq> first_or bs None" using Nil.prems(2) by (auto simp: first_or_hd)
  then show ?case by (subst splice_walk.simps) simp
next
  case (Cons m ms)
  have "Some m \<noteq> first_or bs None" using Cons.prems(2) by (auto simp: first_or_hd)
  moreover have "view D nodes slot m = Some \<lparr>lk_prev = last_or p as, lk_next = first_or ((ms @ q # rest) @ bs) None\<rparr>"
    using Cons.prems(1) by (simp add: chain_append)
  moreover have "splice_walk D nodes slot (Some q) (first_or bs None) (first_or ((ms @ q # rest) @ bs) None) (moved @ [m]) = ok None"
    using Cons.prems by (intro Cons.IH [of "as @ [m]"]) auto
  ultimately show ?case using Cons.prems(2) by (subst splice_walk.simps) (auto simp: read_links_some)
qed

section \<open>Linked nodes\<close>

text \<open>What the list relies on: a slot that can be read can be written, and then holds what was written.\<close>

locale linked_node =
  fixes D :: "'n node_links" and payload :: "'n \<Rightarrow> 'p"
  assumes set_links_ok: "get_links D n s = ok k \<Longrightarrow>
    \<exists>n'. set_links D n s k' = ok n' \<and> get_links D n' s = ok k' \<and> payload n' = payload n"
begin

lemma write_links_ok:
  assumes "view D nodes slot i = Some k"
  obtains nodes' where "write_links D nodes slot i f = ok nodes'"
    "view D nodes' slot = (view D nodes slot)(i \<mapsto> f k)" "same_objects payload nodes nodes'"
proof -
  obtain n where n: "objects nodes i = Some n" "get_links D n slot = ok k" using view_objects [OF assms] by blast
  obtain n' where n': "set_links D n slot (f k) = ok n'" "get_links D n' slot = ok (f k)" "payload n' = payload n"
    using set_links_ok [OF n(2)] by blast
  have "write_links D nodes slot i f = ok (arena_put nodes i n')"
    using n n' by (simp add: write_links_def arena_modify_def arena_get_some)
  moreover have "view D (arena_put nodes i n') slot = (view D nodes slot)(i \<mapsto> f k)"
    using n n' by (intro ext) (simp add: view_def ok_def)
  moreover have "same_objects payload nodes (arena_put nodes i n')"
    using n n' by (simp add: same_objects_def arena_ok_put)
  ultimately show ?thesis by (rule that)
qed

lemma write_next:
  assumes "chain (view D nodes slot) None xs n" "distinct xs" "nx = (\<lambda>k. k\<lparr>lk_next := n'\<rparr>)"
  obtains nodes' l' where
    "(case last_or None xs of Some q \<Rightarrow> run_bind (write_links D nodes slot q nx) (\<lambda>nodes. ok (l, nodes))
      | None \<Rightarrow> ok (l\<lparr>il_head := n'\<rparr>, nodes)) = ok (l', nodes')"
    "chain (view D nodes' slot) None xs n'" "same_objects payload nodes nodes'"
    "\<And>y. y \<notin> set xs \<Longrightarrow> view D nodes' slot y = view D nodes slot y"
    "l' = (if xs = [] then l\<lparr>il_head := n'\<rparr> else l)"
proof (cases "xs = []")
  case True
  then show ?thesis using assms(1) that [of "l\<lparr>il_head := n'\<rparr>" nodes] by simp
next
  case False
  then obtain k where k: "view D nodes slot (last xs) = Some k" using chain_dom [OF assms(1), of "last xs"] by auto
  obtain nodes' where w: "write_links D nodes slot (last xs) nx = ok nodes'"
    "view D nodes' slot = (view D nodes slot)(last xs \<mapsto> nx k)" "same_objects payload nodes nodes'"
    using write_links_ok [OF k] by blast
  have "chain (view D nodes' slot) None xs n'"
    using chain_new_next [OF assms(1,2) False k, of n'] by (simp add: w(2) assms(3))
  moreover have "view D nodes' slot y = view D nodes slot y" if "y \<notin> set xs" for y using that False by (auto simp: w(2))
  ultimately show ?thesis using that [of l nodes'] w(1,3) False by (simp add: last_or_snoc)
qed

lemma write_prev:
  assumes "chain (view D nodes slot) p xs None" "distinct xs" "pv = (\<lambda>k. k\<lparr>lk_prev := p'\<rparr>)"
  obtains nodes' l' where
    "(case first_or xs None of Some q \<Rightarrow> run_bind (write_links D nodes slot q pv) (\<lambda>nodes. ok (l, nodes))
      | None \<Rightarrow> ok (l\<lparr>il_tail := p'\<rparr>, nodes)) = ok (l', nodes')"
    "chain (view D nodes' slot) p' xs None" "same_objects payload nodes nodes'"
    "\<And>y. y \<notin> set xs \<Longrightarrow> view D nodes' slot y = view D nodes slot y"
    "l' = (if xs = [] then l\<lparr>il_tail := p'\<rparr> else l)"
proof (cases "xs = []")
  case True
  then show ?thesis using assms(1) that [of "l\<lparr>il_tail := p'\<rparr>" nodes] by simp
next
  case False
  then obtain k where k: "view D nodes slot (hd xs) = Some k" using chain_dom [OF assms(1), of "hd xs"] by auto
  obtain nodes' where w: "write_links D nodes slot (hd xs) pv = ok nodes'"
    "view D nodes' slot = (view D nodes slot)(hd xs \<mapsto> pv k)" "same_objects payload nodes nodes'"
    using write_links_ok [OF k] by blast
  have "chain (view D nodes' slot) p' xs None"
    using chain_new_prev [OF assms(1,2) False k, of p'] by (simp add: w(2) assms(3))
  moreover have "view D nodes' slot y = view D nodes slot y" if "y \<notin> set xs" for y using that False by (auto simp: w(2))
  ultimately show ?thesis using that [of l nodes'] w(1,3) False by (simp add: first_or_hd)
qed

lemma insert_ok:
  assumes "list_rep D nodes l (as @ bs)" "x \<notin> set (as @ bs)" "view D nodes (il_slot l) x = Some k"
  obtains l' nodes' where "list_insert D l nodes (first_or bs None) x = ok (l', nodes')"
    "list_rep D nodes' l' (as @ x # bs)" "il_slot l' = il_slot l" "same_objects payload nodes nodes'"
    "\<And>y. y \<notin> set (as @ x # bs) \<Longrightarrow> view D nodes' (il_slot l) y = view D nodes (il_slot l) y"
proof -
  let ?v = "\<lambda>nodes. view D nodes (il_slot l)"
  let ?p = "last_or None as" and ?n = "first_or bs None"
  have r: "chain (?v nodes) None as ?n" "chain (?v nodes) ?p bs None" "distinct as" "distinct bs" "set as \<inter> set bs = {}"
    "il_head l = first_or as ?n" "il_tail l = last_or ?p bs" "il_len l = length as + length bs"
    using assms(1) by (auto simp: list_rep_def chain_append)
  have pre: "(case ?n of Some position \<Rightarrow> run_bind (read_links D nodes (il_slot l) position) (\<lambda>k. ok (lk_prev k))
                | None \<Rightarrow> ok (il_tail l)) = ok ?p"
    using r(2,7) by (cases bs) (simp_all add: read_links_some)
  obtain n1 where n1: "write_links D nodes (il_slot l) x (\<lambda>k. k\<lparr>lk_prev := ?p, lk_next := ?n\<rparr>) = ok n1"
    "?v n1 = (?v nodes)(x \<mapsto> k\<lparr>lk_prev := ?p, lk_next := ?n\<rparr>)" "same_objects payload nodes n1"
    using write_links_ok [OF assms(3)] by blast
  have "chain (?v n1) None as ?n" using assms(2) by (intro chain_frame [OF r(1)]) (auto simp: n1(2))
  from write_next [OF this r(3) refl, of "Some x" l] obtain l2 n2 where n2:
    "(case ?p of Some q \<Rightarrow> run_bind (write_links D n1 (il_slot l) q (\<lambda>k. k\<lparr>lk_next := Some x\<rparr>)) (\<lambda>nodes. ok (l, nodes))
      | None \<Rightarrow> ok (l\<lparr>il_head := Some x\<rparr>, n1)) = ok (l2, n2)"
    "chain (?v n2) None as (Some x)" "same_objects payload n1 n2"
    "\<And>y. y \<notin> set as \<Longrightarrow> ?v n2 y = ?v n1 y" "l2 = (if as = [] then l\<lparr>il_head := Some x\<rparr> else l)" by blast
  have "chain (?v n2) ?p bs None" using r(5) assms(2) by (intro chain_frame [OF r(2)], subst n2(4)) (auto simp: n1(2))
  from write_prev [OF this r(4) refl, of "Some x" l2] obtain l3 n3 where n3:
    "(case ?n of Some q \<Rightarrow> run_bind (write_links D n2 (il_slot l) q (\<lambda>k. k\<lparr>lk_prev := Some x\<rparr>)) (\<lambda>nodes. ok (l2, nodes))
      | None \<Rightarrow> ok (l2\<lparr>il_tail := Some x\<rparr>, n2)) = ok (l3, n3)"
    "chain (?v n3) (Some x) bs None" "same_objects payload n2 n3"
    "\<And>y. y \<notin> set bs \<Longrightarrow> ?v n3 y = ?v n2 y" "l3 = (if bs = [] then l2\<lparr>il_tail := Some x\<rparr> else l2)" by blast
  have "list_insert D l nodes ?n x = ok (l3\<lparr>il_len := il_len l3 + 1\<rparr>, n3)"
    unfolding list_insert_def Let_def pre by (simp add: n1(1) n2(1) n3(1))
  moreover have "chain (?v n3) None as (Some x)" using r(5) by (intro chain_frame [OF n2(2)] n3(4)) auto
  then have "list_rep D n3 (l3\<lparr>il_len := il_len l3 + 1\<rparr>) (as @ x # bs)"
    using n3(2) r assms(2) n3(4) [of x] n2(4) [of x]
    by (auto simp: list_rep_def chain_append n3(5) n2(5) n1(2) last_or_snoc first_or_hd)
  moreover have "same_objects payload nodes n3" using n1(3) n2(3) n3(3) same_objects_trans by blast
  ultimately show ?thesis using that n3(4,5) n2(4,5) n1(2) by (simp add: n3(5) n2(5))
qed

lemma remove_ok:
  assumes "list_rep D nodes l (as @ x # bs)"
  obtains l' nodes' where "list_remove D l nodes x = ok (l', nodes', first_or bs None)"
    "list_rep D nodes' l' (as @ bs)" "il_slot l' = il_slot l" "same_objects payload nodes nodes'"
    "\<And>y. y \<notin> set (as @ bs) \<Longrightarrow> view D nodes' (il_slot l) y = ((view D nodes (il_slot l))(x \<mapsto> default_links)) y"
proof -
  let ?v = "\<lambda>nodes. view D nodes (il_slot l)"
  let ?p = "last_or None as" and ?n = "first_or bs None"
  have r: "chain (?v nodes) None as (Some x)" "chain (?v nodes) (Some x) bs None" "distinct as" "distinct bs"
    "set as \<inter> set bs = {}" "x \<notin> set as" "x \<notin> set bs" "il_head l = first_or as (Some x)" "il_tail l = last_or (Some x) bs"
    "il_len l = Suc (length as + length bs)" "?v nodes x = Some \<lparr>lk_prev = ?p, lk_next = ?n\<rparr>"
    using assms by (auto simp: list_rep_def chain_append)
  from write_next [OF r(1,3) refl, of ?n l] obtain l2 n2 where n2:
    "(case ?p of Some q \<Rightarrow> run_bind (write_links D nodes (il_slot l) q (\<lambda>k. k\<lparr>lk_next := ?n\<rparr>)) (\<lambda>nodes. ok (l, nodes))
      | None \<Rightarrow> ok (l\<lparr>il_head := ?n\<rparr>, nodes)) = ok (l2, n2)"
    "chain (?v n2) None as ?n" "same_objects payload nodes n2"
    "\<And>y. y \<notin> set as \<Longrightarrow> ?v n2 y = ?v nodes y" "l2 = (if as = [] then l\<lparr>il_head := ?n\<rparr> else l)" by blast
  have c2: "(case ?p of Some q \<Rightarrow> run_bind (write_links D nodes (il_slot l) q (\<lambda>k. k\<lparr>lk_next := ?n\<rparr>)) (\<lambda>nodes. ok (l, nodes))
      | None \<Rightarrow> if il_head l \<noteq> Some x then panic else ok (l\<lparr>il_head := ?n\<rparr>, nodes)) = ok (l2, n2)"
    using n2(1) r(8) by (cases "as = []") (simp_all add: last_or_snoc)
  have "chain (?v n2) (Some x) bs None" using r(5) by (intro chain_frame [OF r(2)] n2(4)) auto
  from write_prev [OF this r(4) refl, of ?p l2] obtain l3 n3 where n3:
    "(case ?n of Some q \<Rightarrow> run_bind (write_links D n2 (il_slot l) q (\<lambda>k. k\<lparr>lk_prev := ?p\<rparr>)) (\<lambda>nodes. ok (l2, nodes))
      | None \<Rightarrow> ok (l2\<lparr>il_tail := ?p\<rparr>, n2)) = ok (l3, n3)"
    "chain (?v n3) ?p bs None" "same_objects payload n2 n3"
    "\<And>y. y \<notin> set bs \<Longrightarrow> ?v n3 y = ?v n2 y" "l3 = (if bs = [] then l2\<lparr>il_tail := ?p\<rparr> else l2)" by blast
  have c3: "(case ?n of Some q \<Rightarrow> run_bind (write_links D n2 (il_slot l) q (\<lambda>k. k\<lparr>lk_prev := ?p\<rparr>)) (\<lambda>nodes. ok (l2, nodes))
      | None \<Rightarrow> if il_tail l2 \<noteq> Some x then panic else ok (l2\<lparr>il_tail := ?p\<rparr>, n2)) = ok (l3, n3)"
    using n3(1) r(9) by (cases "bs = []") (simp_all add: n2(5) first_or_hd)
  have "?v n3 x = Some \<lparr>lk_prev = ?p, lk_next = ?n\<rparr>" using r(6,7,11) n3(4) n2(4) by simp
  from write_links_ok [OF this, of "\<lambda>_. default_links"] obtain n4 where n4:
    "write_links D n3 (il_slot l) x (\<lambda>_. default_links) = ok n4" "?v n4 = (?v n3)(x \<mapsto> default_links)" "same_objects payload n3 n4"
    by blast
  have len: "il_len l3 = Suc (length as + length bs)" using r(10) by (simp add: n3(5) n2(5))
  have "list_remove D l nodes x = ok (l3\<lparr>il_len := il_len l3 - 1\<rparr>, n4, ?n)"
    by (simp only: list_remove_def Let_def read_links_some [OF r(11)] run_bind_simps list_links.simps c2 c3 n4(1) len prod.case)
      simp
  moreover have "chain (?v n3) None as ?n" using r(5) by (intro chain_frame [OF n2(2)] n3(4)) auto
  then have "chain (?v n4) None as ?n" "chain (?v n4) ?p bs None"
    using r(6,7) n3(2) by (auto simp: n4(2) intro: chain_frame)
  then have "list_rep D n4 (l3\<lparr>il_len := il_len l3 - 1\<rparr>) (as @ bs)"
    using r len by (auto simp: list_rep_def chain_append n3(5) n2(5) last_or_snoc first_or_hd)
  moreover have "same_objects payload nodes n4" using n2(3) n3(3) n4(3) same_objects_trans by blast
  ultimately show ?thesis using that n3(4) n2(4) n4(2) by (simp add: n3(5) n2(5))
qed

text \<open>Removing a run of nodes and inserting it elsewhere.\<close>

lemma remove_all_ok:
  assumes "list_rep D nodes l (as @ ms @ bs)"
  shows "\<exists>l' nodes'. remove_all D ms (l, nodes) = ok (l', nodes') \<and> list_rep D nodes' l' (as @ bs) \<and>
    il_slot l' = il_slot l \<and> same_objects payload nodes nodes' \<and>
    (\<forall>y. y \<notin> set (as @ bs) \<longrightarrow>
       view D nodes' (il_slot l) y = (if y \<in> set ms then Some default_links else view D nodes (il_slot l) y))"
  using assms
proof (induction ms arbitrary: l nodes)
  case (Cons m ms)
  then have "list_rep D nodes l (as @ m # (ms @ bs))" by simp
  then obtain l1 n1 where 1: "list_remove D l nodes m = ok (l1, n1, first_or (ms @ bs) None)"
    "list_rep D n1 l1 (as @ (ms @ bs))" "il_slot l1 = il_slot l" "same_objects payload nodes n1"
    "\<And>y. y \<notin> set (as @ (ms @ bs)) \<Longrightarrow> view D n1 (il_slot l) y = ((view D nodes (il_slot l))(m \<mapsto> default_links)) y"
    using remove_ok by blast
  obtain l2 n2 where 2: "remove_all D ms (l1, n1) = ok (l2, n2)" "list_rep D n2 l2 (as @ bs)" "il_slot l2 = il_slot l1"
    "same_objects payload n1 n2"
    "\<forall>y. y \<notin> set (as @ bs) \<longrightarrow>
       view D n2 (il_slot l1) y = (if y \<in> set ms then Some default_links else view D n1 (il_slot l1) y)"
    using Cons.IH [OF 1(2)] by blast
  have "remove_all D (m # ms) (l, nodes) = ok (l2, n2)" using 2(1) by (simp add: remove_all_def 1(1))
  moreover have "same_objects payload nodes n2" using 1(4) 2(4) by (rule same_objects_trans)
  moreover have "view D n2 (il_slot l) y = (if y \<in> set (m # ms) then Some default_links else view D nodes (il_slot l) y)"
    if "y \<notin> set (as @ bs)" for y
    using that 2(5) 1(3) 1(5) [of y] by auto
  ultimately show ?case using 1(3) 2(2,3) by (intro exI [of _ l2] exI [of _ n2]) simp
qed (simp add: remove_all_def)

lemma insert_all_ok:
  assumes "list_rep D nodes l (as @ bs)" "distinct ms" "set ms \<inter> set (as @ bs) = {}"
    "\<forall>m\<in>set ms. view D nodes (il_slot l) m \<noteq> None"
  shows "\<exists>l' nodes'. insert_all D (first_or bs None) ms (l, nodes) = ok (l', nodes') \<and> list_rep D nodes' l' (as @ ms @ bs) \<and>
    il_slot l' = il_slot l \<and> same_objects payload nodes nodes' \<and>
    (\<forall>y. y \<notin> set (as @ ms @ bs) \<longrightarrow> view D nodes' (il_slot l) y = view D nodes (il_slot l) y)"
  using assms
proof (induction ms arbitrary: l nodes as)
  case (Cons m ms)
  then obtain k where "view D nodes (il_slot l) m = Some k" by auto
  moreover have "m \<notin> set (as @ bs)" using Cons.prems by auto
  ultimately obtain l1 n1 where 1: "list_insert D l nodes (first_or bs None) m = ok (l1, n1)"
    "list_rep D n1 l1 (as @ m # bs)" "il_slot l1 = il_slot l" "same_objects payload nodes n1"
    "\<And>y. y \<notin> set (as @ m # bs) \<Longrightarrow> view D n1 (il_slot l) y = view D nodes (il_slot l) y"
    using insert_ok [OF Cons.prems(1)] by blast
  have "list_rep D n1 l1 ((as @ [m]) @ bs)" "distinct ms" "set ms \<inter> set ((as @ [m]) @ bs) = {}" using 1(2) Cons.prems by auto
  moreover have "\<forall>x\<in>set ms. view D n1 (il_slot l1) x \<noteq> None"
  proof
    fix x assume "x \<in> set ms"
    then have "x \<notin> set (as @ m # bs)" using Cons.prems by auto
    then show "view D n1 (il_slot l1) x \<noteq> None" using 1(3,5) Cons.prems(4) \<open>x \<in> set ms\<close> by simp
  qed
  ultimately obtain l2 n2 where 2: "insert_all D (first_or bs None) ms (l1, n1) = ok (l2, n2)"
    "list_rep D n2 l2 ((as @ [m]) @ ms @ bs)" "il_slot l2 = il_slot l1" "same_objects payload n1 n2"
    "\<forall>y. y \<notin> set ((as @ [m]) @ ms @ bs) \<longrightarrow> view D n2 (il_slot l1) y = view D n1 (il_slot l1) y"
    using Cons.IH by blast
  have "insert_all D (first_or bs None) (m # ms) (l, nodes) = ok (l2, n2)" using 2(1) by (simp add: insert_all_def 1(1))
  moreover have "same_objects payload nodes n2" using 1(4) 2(4) by (rule same_objects_trans)
  moreover have "view D n2 (il_slot l) y = view D nodes (il_slot l) y" if "y \<notin> set (as @ (m # ms) @ bs)" for y
    using that 2(5) 1(3) 1(5) [of y] by auto
  ultimately show ?case using 1(3) 2(2,3) by (intro exI [of _ l2] exI [of _ n2]) simp
qed (simp add: insert_all_def)

lemma splice_ok:
  assumes "list_rep D nodes l (as @ ms @ bs)" "ms \<noteq> []" "as @ bs = cs @ ds"
  obtains l' nodes' where "splice_range D l nodes (first_or ds None) (hd ms) (first_or bs None) = ok (l', nodes')"
    "list_rep D nodes' l' (cs @ ms @ ds)" "il_slot l' = il_slot l" "same_objects payload nodes nodes'"
    "\<And>y. y \<notin> set (as @ ms @ bs) \<Longrightarrow> view D nodes' (il_slot l) y = view D nodes (il_slot l) y"
proof -
  have d: "distinct (as @ ms @ bs)" using assms(1) by (simp add: list_rep_def)
  have sets: "set as \<union> set bs = set cs \<union> set ds" using arg_cong [OF assms(3), of set] by simp
  have pos: "first_or ds None \<notin> Some ` set ms" using d sets by (cases ds) auto
  have "splice_walk D nodes (il_slot l) (first_or ds None) (first_or bs None) (first_or (ms @ bs) None) [] = ok (Some ([] @ ms))"
    using assms(1) pos by (intro splice_walk_ok [where as = as and p = None]) (simp_all add: list_rep_def)
  moreover have "first_or (ms @ bs) None = Some (hd ms)" using assms(2) by (simp add: first_or_hd)
  ultimately have walk: "splice_walk D nodes (il_slot l) (first_or ds None) (first_or bs None) (Some (hd ms)) [] = ok (Some ms)" by simp
  obtain l1 n1 where 1: "remove_all D ms (l, nodes) = ok (l1, n1)" "list_rep D n1 l1 (cs @ ds)" "il_slot l1 = il_slot l"
    "same_objects payload nodes n1"
    "\<forall>y. y \<notin> set (as @ bs) \<longrightarrow>
       view D n1 (il_slot l) y = (if y \<in> set ms then Some default_links else view D nodes (il_slot l) y)"
    using remove_all_ok [OF assms(1)] assms(3) by auto
  have "distinct ms" "set ms \<inter> set (cs @ ds) = {}" using d sets by auto
  moreover have "\<forall>m\<in>set ms. view D n1 (il_slot l1) m \<noteq> None" using 1(3,5) d by auto
  ultimately obtain l2 n2 where 2: "insert_all D (first_or ds None) ms (l1, n1) = ok (l2, n2)" "list_rep D n2 l2 (cs @ ms @ ds)"
    "il_slot l2 = il_slot l1" "same_objects payload n1 n2"
    "\<forall>y. y \<notin> set (cs @ ms @ ds) \<longrightarrow> view D n2 (il_slot l1) y = view D n1 (il_slot l1) y"
    using insert_all_ok [OF 1(2)] by blast
  have ne: "Some (hd ms) \<noteq> first_or bs None" "first_or ds None \<noteq> Some (hd ms)"
    using d pos hd_in_set [OF assms(2)] hd_in_set [of bs] by (auto simp: first_or_hd)
  have "splice_range D l nodes (first_or ds None) (hd ms) (first_or bs None) = ok (l2, n2)"
    using ne by (simp add: splice_range_def walk 1(1) 2(1))
  moreover have "same_objects payload nodes n2" using 1(4) 2(4) by (rule same_objects_trans)
  moreover have "view D n2 (il_slot l) y = view D nodes (il_slot l) y" if "y \<notin> set (as @ ms @ bs)" for y
    using that 1(3) 1(5) 2(5) sets by auto
  ultimately show ?thesis using that 2(2,3) 1(3) by simp
qed

lemma splice_inside:
  assumes "list_rep D nodes l (as @ ms @ bs)" "p \<in> set ms"
  shows "splice_range D l nodes (Some p) (hd ms) (first_or bs None) = ok (l, nodes)"
proof -
  obtain ms1 ms2 where ms: "ms = ms1 @ p # ms2" "p \<notin> set ms1" using split_list_first [OF assms(2)] by blast
  show ?thesis
  proof (cases "ms1 = []")
    case False
    then have h: "Some (hd ms) = first_or (ms @ bs) None" by (simp add: ms first_or_hd)
    have "splice_walk D nodes (il_slot l) (Some p) (first_or bs None) (first_or (ms @ bs) None) [] = ok None"
      using splice_walk_inside [of D nodes "il_slot l" None as ms1 p ms2 bs "[]"] assms(1) ms(1) by (simp add: list_rep_def)
    then show ?thesis unfolding splice_range_def h [symmetric] by simp
  qed (simp add: splice_range_def ms)
qed

lemma append_all_ok:
  assumes "list_rep D nodes l xs" "list_rep D nodes other ys" "il_slot other = il_slot l" "set xs \<inter> set ys = {}"
  obtains l' other' nodes' where "append_all D l other nodes = ok (l', other', nodes')"
    "list_rep D nodes' l' (xs @ ys)" "list_rep D nodes' other' []" "same_objects payload nodes nodes'"
    "\<And>y. y \<notin> set (xs @ ys) \<Longrightarrow> view D nodes' (il_slot l) y = view D nodes (il_slot l) y"
proof -
  obtain o1 n1 where 1: "remove_all D ys (other, nodes) = ok (o1, n1)" "list_rep D n1 o1 []" "il_slot o1 = il_slot other"
    "same_objects payload nodes n1"
    "\<forall>y. view D n1 (il_slot l) y = (if y \<in> set ys then Some default_links else view D nodes (il_slot l) y)"
    using remove_all_ok [of nodes other "[]" ys "[]"] assms(2,3) by auto
  have "view D n1 (il_slot l) x = view D nodes (il_slot l) x" if "x \<in> set xs" for x using that assms(4) 1(5) by auto
  then have "list_rep D n1 l (xs @ [])" using list_rep_frame [OF assms(1), of n1] by simp
  moreover have "distinct ys" using assms(2) by (simp add: list_rep_def)
  moreover have "set ys \<inter> set (xs @ []) = {}" using assms(4) by auto
  moreover have "\<forall>m\<in>set ys. view D n1 (il_slot l) m \<noteq> None" using 1(5) by simp
  ultimately obtain l2 n2 where 2: "insert_all D (first_or [] None) ys (l, n1) = ok (l2, n2)" "list_rep D n2 l2 (xs @ ys @ [])"
    "il_slot l2 = il_slot l" "same_objects payload n1 n2"
    "\<forall>y. y \<notin> set (xs @ ys @ []) \<longrightarrow> view D n2 (il_slot l) y = view D n1 (il_slot l) y"
    using insert_all_ok by blast
  have "append_all D l other nodes = ok (l2, o1, n2)" using 2(1) by (simp add: append_all_def to_vec_ok [OF assms(2)] 1(1))
  moreover have "list_rep D n2 o1 []" using 1(2) by (rule list_rep_frame) simp
  moreover have "same_objects payload nodes n2" using 1(4) 2(4) by (rule same_objects_trans)
  ultimately show ?thesis using that 2(2,5) 1(5) by simp
qed

lemma clear_links_ok:
  assumes "\<forall>x\<in>set xs. view D nodes slot x \<noteq> None"
  shows "\<exists>nodes'. run_fold (\<lambda>node nodes.
       if arena_contains nodes node then write_links D nodes slot node (\<lambda>_. default_links) else ok nodes) xs nodes = ok nodes' \<and>
    same_objects payload nodes nodes' \<and>
    view D nodes' slot = (\<lambda>y. if y \<in> set xs then Some default_links else view D nodes slot y)"
  using assms
proof (induction xs arbitrary: nodes)
  case (Cons x xs)
  then obtain k where k: "view D nodes slot x = Some k" by auto
  then have c: "arena_contains nodes x" using view_objects by (fastforce simp: contains_objects)
  obtain n1 where n1: "write_links D nodes slot x (\<lambda>_. default_links) = ok n1"
    "view D n1 slot = (view D nodes slot)(x \<mapsto> default_links)" "same_objects payload nodes n1"
    using write_links_ok [OF k] by blast
  have "\<forall>y\<in>set xs. view D n1 slot y \<noteq> None" using Cons.prems by (simp add: n1(2))
  from Cons.IH [OF this] n1 c show ?case using same_objects_trans by (fastforce simp: fun_eq_iff)
qed simp

lemma clear_ok:
  assumes "list_rep D nodes l xs"
  obtains l' nodes' where "list_clear D l nodes = ok (l', nodes')" "list_rep D nodes' l' []" "il_slot l' = il_slot l"
    "same_objects payload nodes nodes'"
    "view D nodes' (il_slot l) = (\<lambda>y. if y \<in> set xs then Some default_links else view D nodes (il_slot l) y)"
proof -
  have "\<forall>x\<in>set xs. view D nodes (il_slot l) x \<noteq> None" using assms chain_dom unfolding list_rep_def by blast
  from clear_links_ok [OF this] show ?thesis
    using that by (fastforce simp: list_clear_def to_vec_ok [OF assms] list_rep_def)
qed

end

section \<open>Nodes with several slots\<close>

text \<open>When the slots of a node are apart, an operation on a list leaves the lists of other slots alone.\<close>

locale slotted_node = linked_node +
  assumes set_links_other: "set_links D n s k = ok n' \<Longrightarrow> s' \<noteq> s \<Longrightarrow> get_links D n' s' = get_links D n s'"
begin

lemma write_links_other:
  assumes "write_links D nodes slot i f = ok nodes'" "s \<noteq> slot"
  shows "view D nodes' s = view D nodes s"
proof -
  obtain n k n' where n: "objects nodes i = Some n" "set_links D n slot (f k) = ok n'" "nodes' = arena_put nodes i n'"
    using assms(1) by (auto simp: write_links_def arena_modify_def run_bind_ok)
  then show ?thesis using set_links_other [OF n(2) assms(2)] by (intro ext) (simp add: view_def)
qed

lemma insert_other:
  assumes "list_insert D l nodes pos i = ok (l', nodes')" "s \<noteq> il_slot l"
  shows "view D nodes' s = view D nodes s" "il_slot l' = il_slot l"
  using assms write_links_other
  by (auto simp: list_insert_def Let_def run_bind_ok split: option.splits)

lemma remove_other:
  assumes "list_remove D l nodes i = ok (l', nodes', nxt)" "s \<noteq> il_slot l"
  shows "view D nodes' s = view D nodes s" "il_slot l' = il_slot l"
  using assms write_links_other
  by (auto simp: list_remove_def Let_def run_bind_ok split: option.splits if_splits)

end

end
