(* ===== verification/Op_Lists.thy ===== *)
theory Op_Lists
  imports List_Refine
begin

text \<open>
  The nodes that are linked into lists: operations (src/src/op.rs) and range records (src/src/rangemap.rs) hold an
  array of links, one for each list they can be in; block traces (src/src/blockaction.rs) hold a single pair
  of links. The properties of the list operations on these nodes, and of sequences of arena operations.
\<close>

section \<open>Linked nodes of the program\<close>

record 'a array_node =
  an_payload :: 'a
  an_links :: "list_links list"

definition array_links :: "'a array_node node_links" where
  "array_links = \<lparr>get_links = \<lambda>n slot. idx (an_links n) slot,
     set_links = \<lambda>n slot k. run_bind (upd (an_links n) slot k) (\<lambda>ks. ok (n\<lparr>an_links := ks\<rparr>))\<rparr>"

text \<open>A fresh operation is in none of its three lists.\<close>

definition new_op_node :: "'a \<Rightarrow> 'a array_node" where
  "new_op_node x = \<lparr>an_payload = x, an_links = [default_links, default_links, default_links]\<rparr>"

record 'a trace_node =
  tn_payload :: 'a
  tn_activeiter :: list_links

definition trace_links :: "'a trace_node node_links" where
  "trace_links = \<lparr>get_links = \<lambda>n _. ok (tn_activeiter n), set_links = \<lambda>n _ k. ok (n\<lparr>tn_activeiter := k\<rparr>)\<rparr>"

interpretation array: slotted_node array_links an_payload
  by unfold_locales (auto simp: array_links_def idx_def upd_def nth_list_update split: if_splits)

interpretation trace: linked_node trace_links tn_payload
  by unfold_locales (simp add: trace_links_def)

section \<open>The list operations\<close>

abbreviation node_view :: "'a array_node arena \<Rightarrow> nat \<Rightarrow> link_view" where
  "node_view \<equiv> view array_links"

abbreviation op_list :: "'a array_node arena \<Rightarrow> intrusive_list \<Rightarrow> arena_id list \<Rightarrow> bool" where
  "op_list \<equiv> list_rep array_links"

text \<open>
  C5: inserting a node into a linked list before a position (or at its end when there is none) has the effect of the
  insertion on the sequence, whatever the place: the operation returns, the list object and the links stored in
  the arena represent the sequence with the node at that place, the objects of the arena keep their contents and
  their identifiers, nodes outside the list keep their links, and the lists of every other slot keep theirs.
\<close>

theorem list_insert_refines:
  assumes "op_list nodes l (as @ bs)" "x \<notin> set (as @ bs)" "node_view nodes (il_slot l) x \<noteq> None"
  shows "\<exists>l' nodes'. list_insert array_links l nodes (first_or bs None) x = ok (l', nodes') \<and>
    op_list nodes' l' (as @ x # bs) \<and> il_slot l' = il_slot l \<and> same_objects an_payload nodes nodes' \<and>
    (\<forall>y. y \<notin> set (as @ x # bs) \<longrightarrow> node_view nodes' (il_slot l) y = node_view nodes (il_slot l) y) \<and>
    (\<forall>s. s \<noteq> il_slot l \<longrightarrow> node_view nodes' s = node_view nodes s)"
proof -
  obtain k where "node_view nodes (il_slot l) x = Some k" using assms(3) by auto
  from array.insert_ok [OF assms(1,2) this] obtain l' nodes' where
    "list_insert array_links l nodes (first_or bs None) x = ok (l', nodes')" "op_list nodes' l' (as @ x # bs)"
    "il_slot l' = il_slot l" "same_objects an_payload nodes nodes'"
    "\<And>y. y \<notin> set (as @ x # bs) \<Longrightarrow> node_view nodes' (il_slot l) y = node_view nodes (il_slot l) y" by blast
  then show ?thesis using array.insert_other(1) by blast
qed

text \<open>
  C16: removing a node of a linked list has the effect of the removal on the sequence and returns the node that
  followed it; the removed node is left with empty links, and everything outside the list is kept.
\<close>

theorem list_remove_refines:
  assumes "op_list nodes l (as @ x # bs)"
  shows "\<exists>l' nodes'. list_remove array_links l nodes x = ok (l', nodes', first_or bs None) \<and>
    op_list nodes' l' (as @ bs) \<and> il_slot l' = il_slot l \<and> same_objects an_payload nodes nodes' \<and>
    node_view nodes' (il_slot l) x = Some default_links \<and>
    (\<forall>y. y \<notin> set (as @ x # bs) \<longrightarrow> node_view nodes' (il_slot l) y = node_view nodes (il_slot l) y) \<and>
    (\<forall>s. s \<noteq> il_slot l \<longrightarrow> node_view nodes' s = node_view nodes s)"
proof -
  have x: "x \<notin> set (as @ bs)" using assms by (auto simp: list_rep_def)
  from array.remove_ok [OF assms] obtain l' nodes' where r:
    "list_remove array_links l nodes x = ok (l', nodes', first_or bs None)" "op_list nodes' l' (as @ bs)"
    "il_slot l' = il_slot l" "same_objects an_payload nodes nodes'"
    "\<And>y. y \<notin> set (as @ bs) \<Longrightarrow> node_view nodes' (il_slot l) y = ((node_view nodes (il_slot l))(x \<mapsto> default_links)) y" by blast
  then show ?thesis using array.remove_other(1) [OF r(1)] r(5) [OF x] by (intro exI [of _ l'] exI [of _ nodes']) auto
qed

text \<open>
  C24: moving the run of nodes from a first node up to, and without, an end node to another place of the same list:
  when the place is outside the run, the run is taken out and put before the place in its order; when the place
  is one of the nodes of the run, nothing changes. In both cases the operation returns.
\<close>

theorem splice_range_moves:
  assumes "op_list nodes l (as @ ms @ bs)" "ms \<noteq> []"
  shows "(as @ bs = cs @ ds \<longrightarrow>
      (\<exists>l' nodes'. splice_range array_links l nodes (first_or ds None) (hd ms) (first_or bs None) = ok (l', nodes') \<and>
         op_list nodes' l' (cs @ ms @ ds) \<and> same_objects an_payload nodes nodes')) \<and>
    (p \<in> set ms \<longrightarrow> splice_range array_links l nodes (Some p) (hd ms) (first_or bs None) = ok (l, nodes))"
proof (intro conjI impI)
  assume "as @ bs = cs @ ds"
  from array.splice_ok [OF assms this] obtain l' nodes' where
    "splice_range array_links l nodes (first_or ds None) (hd ms) (first_or bs None) = ok (l', nodes')"
    "op_list nodes' l' (cs @ ms @ ds)" "same_objects an_payload nodes nodes'" .
  then show "\<exists>l' nodes'. splice_range array_links l nodes (first_or ds None) (hd ms) (first_or bs None) = ok (l', nodes') \<and>
         op_list nodes' l' (cs @ ms @ ds) \<and> same_objects an_payload nodes nodes'" by simp
qed (rule array.splice_inside [OF assms(1)])

section \<open>Witnesses\<close>

text \<open>Five operations, four of them in the list of their block.\<close>

definition example_nodes :: "nat array_node arena" where
  "example_nodes = \<lparr>slots = map (\<lambda>n. Some (new_op_node n)) [0, 1, 2, 3, 4], live = 5\<rparr>"

definition example_list :: "(intrusive_list \<times> nat array_node arena) run" where
  "example_list = run_fold (\<lambda>i (l, nodes). push_back array_links l nodes i) [0, 1, 2, 3] (list_new 0, example_nodes)"

definition example_l :: intrusive_list where
  "example_l = \<lparr>il_head = Some 0, il_tail = Some 3, il_len = 4, il_slot = 0\<rparr>"

definition example_n :: "nat array_node arena" where
  "example_n = \<lparr>slots = map (\<lambda>n. Some \<lparr>an_payload = n, an_links =
     [\<lparr>lk_prev = (if n = 0 \<or> n = 4 then None else Some (of_nat (n - 1))), lk_next = (if n < 3 then Some (of_nat (n + 1)) else None)\<rparr>,
      default_links, default_links]\<rparr>) [0, 1, 2, 3, 4], live = 5\<rparr>"

lemma example_list_built: "example_list = ok (example_l, example_n)"
  by code_simp

lemma example_links:
  "node_view example_n 0 0 = Some \<lparr>lk_prev = None, lk_next = Some 1\<rparr>"
  "node_view example_n 0 1 = Some \<lparr>lk_prev = Some 0, lk_next = Some 2\<rparr>"
  "node_view example_n 0 2 = Some \<lparr>lk_prev = Some 1, lk_next = Some 3\<rparr>"
  "node_view example_n 0 3 = Some \<lparr>lk_prev = Some 2, lk_next = None\<rparr>"
  "node_view example_n 0 4 = Some \<lparr>lk_prev = None, lk_next = None\<rparr>"
  by (simp_all add: view_def arena_try_get_def id_index_def array_links_def idx_def ok_def example_n_def)

lemma example_rep: "op_list example_n example_l [0, 1, 2, 3]"
  by (simp add: list_rep_def example_l_def example_links)

lemma example_free: "node_view example_n (il_slot example_l) 4 \<noteq> None"
  by (simp add: example_l_def example_links)

theorem list_insert_refines_witness:
  "\<exists>l' nodes'. list_insert array_links example_l example_n (Some 2) 4 = ok (l', nodes') \<and> op_list nodes' l' [0, 1, 4, 2, 3]"
proof -
  have "op_list example_n example_l ([0, 1] @ [2, 3])" "4 \<notin> set ([0, 1] @ [2, 3 :: arena_id])" using example_rep by simp_all
  from list_insert_refines [OF this example_free] show ?thesis by auto
qed

theorem list_remove_refines_witness:
  "\<exists>l' nodes'. list_remove array_links example_l example_n 1 = ok (l', nodes', Some 2) \<and> op_list nodes' l' [0, 2, 3]"
proof -
  have "op_list example_n example_l ([0] @ 1 # [2, 3])" using example_rep by simp
  from list_remove_refines [OF this] show ?thesis by auto
qed

theorem splice_range_moves_witness:
  "\<exists>l' nodes'. splice_range array_links example_l example_n (Some 1) 2 None = ok (l', nodes') \<and> op_list nodes' l' [0, 2, 3, 1]"
proof -
  have "op_list example_n example_l ([0, 1] @ [2, 3] @ [])" "[2, 3 :: arena_id] \<noteq> []" using example_rep by simp_all
  from splice_range_moves [OF this, of "[0]" "[1]" 2] show ?thesis by auto
qed

section \<open>Identifiers are never used again\<close>

datatype 'a arena_op = Alloc 'a | Remove arena_id | Clear

text \<open>A sequence of operations and the identifiers its allocations returned, the latest first.\<close>

fun arena_run :: "'a arena_op list \<Rightarrow> 'a arena \<times> arena_id list \<Rightarrow> ('a arena \<times> arena_id list) run" where
  "arena_run [] s = ok s"
| "arena_run (Alloc x # ops) (ar, ids) = run_bind (arena_alloc ar x) (\<lambda>(ar, i). arena_run ops (ar, i # ids))"
| "arena_run (Remove i # ops) (ar, ids) = run_bind (arena_remove ar i) (\<lambda>(ar, _). arena_run ops (ar, ids))"
| "arena_run (Clear # ops) (ar, ids) = arena_run ops (arena_clear ar, ids)"

definition arena_inv :: "'a arena \<times> arena_id list \<Rightarrow> bool" where
  "arena_inv s \<longleftrightarrow> arena_ok (fst s) \<and> distinct (snd s) \<and> (\<forall>i\<in>set (snd s). id_index i < length (slots (fst s))) \<and>
     (\<forall>i. objects (fst s) i \<noteq> None \<longrightarrow> i \<in> set (snd s))"

lemma arena_inv_alloc:
  assumes "arena_inv (ar, ids)" "arena_alloc ar x = ok (ar', i)"
  shows "arena_inv (ar', i # ids)"
proof -
  have "length (slots ar) < 2 ^ 32" using assms(2) by (auto simp: arena_alloc_def id_from_index_def split: if_splits)
  note a = alloc_ok [OF this assms(2)]
  have "i \<notin> set ids" using assms(1) a(1) by (auto simp: arena_inv_def)
  then show ?thesis using assms(1) a by (auto simp: arena_inv_def less_SucI)
qed

lemma arena_inv_remove:
  assumes "arena_inv (ar, ids)" "arena_remove ar i = ok (ar', x)"
  shows "arena_inv (ar', ids)"
proof -
  have ar: "arena_ok ar" using assms(1) by (simp add: arena_inv_def)
  have "objects ar i = Some x" using assms(2) by (auto simp: arena_remove_def split: option.splits if_splits)
  from arena_remove_ok [OF ar this] assms(2)
  have "arena_ok ar'" "objects ar' = (objects ar)(i := None)" "length (slots ar') = length (slots ar)" by auto
  then show ?thesis using assms(1) by (simp add: arena_inv_def)
qed

lemma arena_run_inv: "arena_inv s \<Longrightarrow> arena_run ops s = ok s' \<Longrightarrow> arena_inv s'"
proof (induction ops s rule: arena_run.induct)
  case (2 x ops ar ids)
  then show ?case using arena_inv_alloc by (fastforce simp: run_bind_ok)
next
  case (3 i ops ar ids)
  then show ?case using arena_inv_remove by (fastforce simp: run_bind_ok)
next
  case (4 ops ar ids)
  have "arena_inv (arena_clear ar, ids)"
    using 4(2) arena_ok_clear by (auto simp: arena_inv_def objects_clear) (simp add: arena_clear_def)
  then show ?case using 4 by simp
qed simp

text \<open>
  C26: in any sequence of allocations, removals and clears that does not panic, every allocation returns an identifier
  that no earlier allocation returned, so an identifier kept from a removed object never names another one; the
  live count stays the number of objects, and every object has an identifier that was handed out.
\<close>

theorem arena_ids_unique:
  assumes "arena_run ops (arena_new, []) = ok (ar, ids)"
  shows "distinct ids \<and> arena_len ar = length (filter (\<lambda>s. s \<noteq> None) (slots ar)) \<and>
    (\<forall>i. arena_contains ar i \<longrightarrow> i \<in> set ids)"
proof -
  have "arena_inv (arena_new :: 'a arena, [])" by (simp add: arena_inv_def arena_ok_new objects_new)
  from arena_run_inv [OF this assms] show ?thesis
    by (simp add: arena_inv_def arena_ok_def arena_len_def contains_objects)
qed

theorem arena_ids_unique_witness:
  "distinct [1 :: arena_id, 0]"
proof -
  have "arena_run [Alloc (7 :: nat), Remove 0, Alloc 8] (arena_new, []) = ok (\<lparr>slots = [None, Some 8], live = 1\<rparr>, [1, 0])"
    by code_simp
  from arena_ids_unique [OF this] show ?thesis by simp
qed

end
