(* ===== verification/Range_Map.thy ===== *)
theory Range_Map
  imports Op_Lists "HOL-Library.Product_Lexorder"
begin

text \<open>
  The interval maps of src/src/rangemap.rs, which hold the symbols of a scope by the ranges of addresses they
  cover. Ranges may overlap: the line is cut at every end of a range, and each range is stored as one part for
  each piece it covers. The parts are a vector sorted by the end of the piece and a second key of the record; the
  records live in an arena and are linked in a list.

  The methods of the record and line types are a record of functions. \<open>partition_point\<close> is the number of leading
  elements that satisfy the predicate, what it returns on a slice that is partitioned by it.
\<close>

record ('l, 's) addr_range =
  ar_first :: 'l
  ar_last :: 'l
  ar_a :: 'l
  ar_b :: 'l
  ar_subsort :: 's
  ar_value :: arena_id

record ('l, 's, 'i, 'r) range_ops =
  plus_one :: "'l \<Rightarrow> 'l"
  minus_one :: "'l \<Rightarrow> 'l"
  from_bool :: "bool \<Rightarrow> 's"
  new_record :: "'i \<Rightarrow> 'l \<Rightarrow> 'l \<Rightarrow> 'r"
  get_first :: "'r \<Rightarrow> 'l"
  get_last :: "'r \<Rightarrow> 'l"
  get_subsort :: "'r \<Rightarrow> 's"

record ('l, 's, 'r) range_map =
  rm_tree :: "('l, 's) addr_range list"
  rm_records :: "'r array_node arena"
  rm_record :: intrusive_list

definition rm_new :: "('l, 's, 'r) range_map" where
  "rm_new = \<lparr>rm_tree = [], rm_records = arena_new, rm_record = list_new 0\<rparr>"

text \<open>\<open>compare_key\<close> orders by the end of the piece, then by the second key.\<close>

definition ar_key :: "('l, 's) addr_range \<Rightarrow> 'l \<times> 's" where
  "ar_key r = (ar_last r, ar_subsort r)"

section \<open>The sorted vector\<close>

definition rm_lower_bound :: "('l::linorder, 's::linorder) addr_range list \<Rightarrow> 'l \<Rightarrow> 's \<Rightarrow> nat" where
  "rm_lower_bound T lst sub = length (takeWhile (\<lambda>r. ar_key r < (lst, sub)) T)"

definition rm_upper_bound :: "('l::linorder, 's::linorder) addr_range list \<Rightarrow> 'l \<Rightarrow> 's \<Rightarrow> nat" where
  "rm_upper_bound T lst sub = length (takeWhile (\<lambda>r. ar_key r \<le> (lst, sub)) T)"

definition insert_at :: "'a list \<Rightarrow> nat \<Rightarrow> 'a \<Rightarrow> 'a list run" where
  "insert_at xs pos x = (if pos \<le> length xs then ok (take pos xs @ x # drop pos xs) else panic)"

definition insert_plain :: "('l::linorder, 's::linorder) addr_range list \<Rightarrow> ('l, 's) addr_range
    \<Rightarrow> (('l, 's) addr_range list \<times> nat) run" where
  "insert_plain T r = (let pos = rm_upper_bound T (ar_last r) (ar_subsort r) in
     run_bind (insert_at T pos r) (\<lambda>T. ok (T, pos)))"

definition hint_pos :: "('l::linorder, 's::linorder) addr_range list \<Rightarrow> nat \<Rightarrow> ('l, 's) addr_range \<Rightarrow> nat run" where
  "hint_pos T hint r =
     (let len = length T; upper = rm_upper_bound T (ar_last r) (ar_subsort r); lower = rm_lower_bound T (ar_last r) (ar_subsort r) in
      if hint = len then
        ok (if len > 0 \<and> \<not> ar_key r < ar_key (T ! (len - 1)) then len else upper)
      else if hint > len then panic
      else if \<not> ar_key (T ! hint) < ar_key r then
        ok (if hint = 0 then 0 else if \<not> ar_key r < ar_key (T ! (hint - 1)) then hint else upper)
      else if hint = len - 1 then ok len
      else if \<not> ar_key (T ! (hint + 1)) < ar_key r then ok (hint + 1)
      else ok lower)"

definition insert_hint :: "('l::linorder, 's::linorder) addr_range list \<Rightarrow> nat \<Rightarrow> ('l, 's) addr_range
    \<Rightarrow> (('l, 's) addr_range list \<times> nat) run" where
  "insert_hint T hint r = run_bind (hint_pos T hint r) (\<lambda>pos. run_bind (insert_at T pos r) (\<lambda>T. ok (T, pos)))"

section \<open>Cutting and joining pieces\<close>

fun join_firsts :: "'l \<Rightarrow> 'l \<Rightarrow> ('l, 's) addr_range list \<Rightarrow> ('l, 's) addr_range list" where
  "join_firsts line first_value [] = []"
| "join_firsts line first_value (r # rs) =
     (if ar_first r = line then r\<lparr>ar_first := first_value\<rparr> # join_firsts line first_value rs else r # rs)"

definition rm_zip :: "('l, 's, 'i, 'r) range_ops \<Rightarrow> ('l, 's) addr_range list \<Rightarrow> 'l \<Rightarrow> nat \<Rightarrow> ('l, 's) addr_range list run" where
  "rm_zip R T line iter = run_bind (idx T iter) (\<lambda>r.
     ok (take iter T @ join_firsts (plus_one R line) (ar_first r) (dropWhile (\<lambda>r. ar_last r = line) (drop iter T))))"

partial_function (option) unzip_loop ::
  "('l::linorder) \<Rightarrow> 'l \<Rightarrow> ('l, 's::linorder) addr_range list \<Rightarrow> nat \<Rightarrow> nat \<Rightarrow> nat \<Rightarrow> (('l, 's) addr_range list \<times> nat) run" where
  "unzip_loop line plus1 T iter hint inserted =
     (if iter = length T then ok (T, inserted)
      else run_bind (idx T iter) (\<lambda>cur.
        if ar_first cur \<le> line then
          run_bind (insert_hint (T[iter := cur\<lparr>ar_first := plus1\<rparr>]) hint (cur\<lparr>ar_last := line\<rparr>)) (\<lambda>r.
            unzip_loop line plus1 (fst r) (if snd r \<le> iter then iter + 2 else iter + 1)
              (if snd r \<le> hint then hint + 1 else hint) (inserted + 1))
        else ok (T, inserted)))"

declare unzip_loop.simps [code]

definition unzip :: "('l::linorder, 's::linorder, 'i, 'r) range_ops \<Rightarrow> ('l, 's) addr_range list \<Rightarrow> 'l \<Rightarrow> nat
    \<Rightarrow> (('l, 's) addr_range list \<times> nat) run" where
  "unzip R T line iter = run_bind (idx T iter) (\<lambda>cur.
     if ar_last cur = line then ok (T, 0) else unzip_loop line (plus_one R line) T iter iter 0)"

section \<open>Queries\<close>

definition rm_empty :: "('l, 's, 'r) range_map \<Rightarrow> bool" where
  "rm_empty m = list_is_empty (rm_record m)"

definition rm_clear :: "('l, 's, 'r) range_map \<Rightarrow> ('l, 's, 'r) range_map" where
  "rm_clear m = \<lparr>rm_tree = [], rm_records = arena_clear (rm_records m), rm_record = list_new 0\<rparr>"

definition list_ids :: "('l, 's, 'r) range_map \<Rightarrow> arena_id list run" where
  "list_ids m = to_vec array_links (rm_record m) (rm_records m)"

definition rm_get_record :: "('l, 's, 'r) range_map \<Rightarrow> arena_id \<Rightarrow> 'r run" where
  "rm_get_record m i = run_bind (arena_get (rm_records m) i) (\<lambda>n. ok (an_payload n))"

definition rm_list_front :: "('l, 's, 'r) range_map \<Rightarrow> arena_id option" where
  "rm_list_front m = list_front (rm_record m)"

definition rm_list_next :: "('l, 's, 'r) range_map \<Rightarrow> arena_id \<Rightarrow> arena_id option run" where
  "rm_list_next m i = list_next array_links (rm_record m) (rm_records m) i"

text \<open>What is stored through the reference that \<open>record_mut\<close> returns.\<close>

definition rm_record_mut :: "('l, 's, 'r) range_map \<Rightarrow> arena_id \<Rightarrow> ('r \<Rightarrow> 'r) \<Rightarrow> ('l, 's, 'r) range_map run" where
  "rm_record_mut m i f = run_bind (arena_modify (rm_records m) i (\<lambda>n. ok (n\<lparr>an_payload := f (an_payload n)\<rparr>))) (\<lambda>recs.
     ok (m\<lparr>rm_records := recs\<rparr>))"

definition rm_part_range :: "('l, 's, 'r) range_map \<Rightarrow> nat \<Rightarrow> ('l, 's) addr_range run" where
  "rm_part_range m iter = idx (rm_tree m) iter"

definition rm_part :: "('l, 's, 'r) range_map \<Rightarrow> nat \<Rightarrow> 'r run" where
  "rm_part m iter = run_bind (idx (rm_tree m) iter) (\<lambda>r. rm_get_record m (ar_value r))"

definition get_value_iter :: "('l, 's, 'r) range_map \<Rightarrow> nat \<Rightarrow> arena_id run" where
  "get_value_iter m iter = run_bind (idx (rm_tree m) iter) (\<lambda>r. ok (ar_value r))"

definition rm_find :: "('l::linorder, 's::linorder, 'i, 'r) range_ops \<Rightarrow> ('l, 's) addr_range list \<Rightarrow> 'l \<Rightarrow> nat \<times> nat" where
  "rm_find R T point =
     (let iter1 = rm_lower_bound T point (from_bool R False) in
      if iter1 = length T \<or> point < ar_first (T ! iter1) then (iter1, iter1)
      else (iter1, rm_upper_bound T (ar_last (T ! iter1)) (from_bool R True)))"

definition find_subsort :: "('l::linorder, 's::linorder) addr_range list \<Rightarrow> 'l \<Rightarrow> 's \<Rightarrow> 's \<Rightarrow> nat \<times> nat" where
  "find_subsort T point sub1 sub2 =
     (let iter1 = rm_lower_bound T point sub1 in
      if iter1 = length T \<or> point < ar_first (T ! iter1) then (iter1, iter1)
      else (iter1, rm_upper_bound T (ar_last (T ! iter1)) sub2))"

definition find_begin :: "('l::linorder, 's::linorder, 'i, 'r) range_ops \<Rightarrow> ('l, 's) addr_range list \<Rightarrow> 'l \<Rightarrow> nat" where
  "find_begin R T point = rm_lower_bound T point (from_bool R False)"

definition find_end :: "('l::linorder, 's::linorder, 'i, 'r) range_ops \<Rightarrow> ('l, 's) addr_range list \<Rightarrow> 'l \<Rightarrow> nat" where
  "find_end R T point =
     (let iter = rm_upper_bound T point (from_bool R True) in
      if iter = length T \<or> point < ar_first (T ! iter) then iter
      else rm_upper_bound T (ar_last (T ! iter)) (from_bool R True))"

definition find_overlap :: "('l::linorder, 's::linorder, 'i, 'r) range_ops \<Rightarrow> ('l, 's) addr_range list \<Rightarrow> 'l \<Rightarrow> 'l \<Rightarrow> nat" where
  "find_overlap R T point stop =
     (let iter = rm_lower_bound T point (from_bool R False) in
      if iter = length T then iter else if ar_first (T ! iter) \<le> stop then iter else length T)"

definition find_first_after :: "('l::linorder, 's::linorder, 'i, 'r) range_ops \<Rightarrow> ('l, 's) addr_range list \<Rightarrow> 'l \<Rightarrow> nat" where
  "find_first_after R T point =
     (let iter = find_end R T point in iter + length (takeWhile (\<lambda>r. \<not> point < ar_a r) (drop iter T)))"

fun last_before :: "('l::linorder, 's) addr_range list \<Rightarrow> 'l \<Rightarrow> nat \<Rightarrow> nat" where
  "last_before T point 0 = length T"
| "last_before T point (Suc iter) = (if ar_b (T ! iter) < point then iter else last_before T point iter)"

definition find_last_before :: "('l::linorder, 's::linorder, 'i, 'r) range_ops \<Rightarrow> ('l, 's) addr_range list \<Rightarrow> 'l \<Rightarrow> nat" where
  "find_last_before R T point = last_before T point (find_begin R T point)"

section \<open>Insertion\<close>

text \<open>
  The loop over the pieces that meet the new range: a gap before a piece and the piece itself each get a part of the
  new record; the piece that runs over the end is cut. The index \<open>low\<close> stays on its part when something
  is inserted before it.
\<close>

partial_function (option) insert_loop ::
  "('l::linorder, 's::linorder, 'i, 'r) range_ops \<Rightarrow> 'l \<Rightarrow> ('l, 's) addr_range \<Rightarrow> 'l \<Rightarrow> ('l, 's) addr_range list \<Rightarrow> nat
    \<Rightarrow> (('l, 's) addr_range list \<times> 'l) run" where
  "insert_loop R second part bound T low =
     (if low = length T then ok (T, bound)
      else run_bind (idx T low) (\<lambda>cur.
        if \<not> ar_first cur \<le> second then ok (T, bound)
        else if \<not> bound \<le> ar_last cur then insert_loop R second part bound T (low + 1)
        else
          run_bind (if bound < ar_first cur then
                      run_bind (insert_hint T low (part\<lparr>ar_first := bound, ar_last := minus_one R (ar_first cur)\<rparr>)) (\<lambda>(T, pos).
                      let low = (if pos \<le> low then low + 1 else low) in
                      run_bind (idx T low) (\<lambda>cur. ok (T, low, ar_first cur)))
                    else ok (T, low, bound)) (\<lambda>s. let T = fst s; low = fst (snd s); bound = snd (snd s) in
          run_bind (idx T low) (\<lambda>cur.
          if ar_last cur \<le> second then
            run_bind (insert_hint T low (part\<lparr>ar_first := bound, ar_last := ar_last cur\<rparr>)) (\<lambda>r.
            let T = fst r; low = (if snd r \<le> low then low + 1 else low) in
            run_bind (idx T low) (\<lambda>cur.
            if ar_last cur = second then ok (T, bound)
            else insert_loop R second part (plus_one R (ar_last cur)) T (low + 1)))
          else if second < ar_last cur then
            run_bind (unzip R T second low) (\<lambda>(T, _). ok (T, bound))
          else insert_loop R second part bound T (low + 1)))))"

declare insert_loop.simps [code]

definition insert_parts :: "('l::linorder, 's::linorder, 'i, 'r) range_ops \<Rightarrow> 'l \<Rightarrow> 'l \<Rightarrow> ('l, 's) addr_range
    \<Rightarrow> ('l, 's) addr_range list \<Rightarrow> nat \<Rightarrow> ('l, 's) addr_range list run" where
  "insert_parts R first_2 second part T low =
     run_bind (insert_loop R second part first_2 T low) (\<lambda>(T, bound).
     if bound \<le> second then
       run_bind (insert_plain T (part\<lparr>ar_first := bound, ar_last := second\<rparr>)) (\<lambda>(T, _). ok T)
     else ok T)"

definition cut_low :: "('l::linorder, 's::linorder, 'i, 'r) range_ops \<Rightarrow> ('l, 's) addr_range list \<Rightarrow> 'l
    \<Rightarrow> (('l, 's) addr_range list \<times> nat) run" where
  "cut_low R T bound =
     (let low = rm_lower_bound T bound (from_bool R False) in
      if low \<noteq> length T \<and> ar_first (T ! low) < bound then
        run_bind (unzip R T (minus_one R bound) low) (\<lambda>(T, shift). ok (T, low + shift))
      else ok (T, low))"

definition rm_insert :: "('l::linorder, 's::linorder, 'i, 'r) range_ops \<Rightarrow> ('l, 's, 'r) range_map \<Rightarrow> 'i \<Rightarrow> 'l \<Rightarrow> 'l
    \<Rightarrow> (('l, 's, 'r) range_map \<times> arena_id) run" where
  "rm_insert R m data first_2 second =
     run_bind (cut_low R (rm_tree m) first_2) (\<lambda>(T, low).
     run_bind (arena_alloc (rm_records m) \<lparr>an_payload = new_record R data first_2 second, an_links = [default_links]\<rparr>) (\<lambda>(recs, liter).
     run_bind (arena_get recs liter) (\<lambda>n.
     let subsort = get_subsort R (an_payload n);
         part = \<lparr>ar_first = second, ar_last = second, ar_a = first_2, ar_b = second, ar_subsort = subsort, ar_value = liter\<rparr>;
         spot = rm_lower_bound T second subsort;
         position = (if spot = length T then None else Some (ar_value (T ! spot))) in
     run_bind (list_insert array_links (rm_record m) recs position liter) (\<lambda>(l, recs).
     run_bind (insert_parts R first_2 second part T low) (\<lambda>T.
     ok (\<lparr>rm_tree = T, rm_records = recs, rm_record = l\<rparr>, liter))))))"

section \<open>Removal\<close>

text \<open>Whether a range ends right before the start of the removed one.\<close>

fun ends_before :: "('l, 's) addr_range list \<Rightarrow> 'l \<Rightarrow> nat \<Rightarrow> bool" where
  "ends_before T aminus1 0 = False"
| "ends_before T aminus1 (Suc uplow) =
     (if ar_last (T ! uplow) \<noteq> aminus1 then False
      else if ar_b (T ! uplow) = aminus1 then True
      else ends_before T aminus1 uplow)"

record sew_flags =
  sf_leftsew :: bool
  sf_rightsew :: bool
  sf_leftoverlap :: bool
  sf_rightoverlap :: bool

definition sew_part :: "'l::linorder \<Rightarrow> 'l \<Rightarrow> ('l, 's) addr_range \<Rightarrow> sew_flags \<Rightarrow> sew_flags" where
  "sew_part first lst r f =
     (let f = (if ar_a r < first then f\<lparr>sf_leftoverlap := True\<rparr> else if ar_a r = first then f\<lparr>sf_leftsew := False\<rparr> else f) in
      if lst < ar_b r then f\<lparr>sf_rightoverlap := True\<rparr> else if ar_b r = lst then f\<lparr>sf_rightsew := False\<rparr> else f)"

text \<open>The parts from \<open>low\<close> on, those that are kept and those behind the range; the loop looks at one part before it tests.\<close>

fun erase_scan :: "arena_id \<Rightarrow> 'l::linorder \<Rightarrow> 'l \<Rightarrow> sew_flags \<Rightarrow> ('l, 's) addr_range list
    \<Rightarrow> (('l, 's) addr_range list \<times> ('l, 's) addr_range list \<times> sew_flags) run" where
  "erase_scan i first lst f [] = panic"
| "erase_scan i first lst f (r # rs) =
     (let kept = (if ar_value r = i then [] else [r]); f = (if ar_value r = i then f else sew_part first lst r f) in
      case rs of [] \<Rightarrow> ok (kept, [], f)
      | s # _ \<Rightarrow> if ar_first s \<le> lst
          then run_bind (erase_scan i first lst f rs) (\<lambda>(more, rest, f). ok (kept @ more, rest, f))
          else ok (kept, rs, f))"

definition rm_erase_tree :: "('l::linorder, 's::linorder, 'i, 'r) range_ops \<Rightarrow> ('l, 's) addr_range list \<Rightarrow> arena_id \<Rightarrow> 'l \<Rightarrow> 'l
    \<Rightarrow> ('l, 's) addr_range list run" where
  "rm_erase_tree R T i first lst =
     (let low = rm_lower_bound T first (from_bool R False);
          aminus1 = minus_one R first;
          f = \<lparr>sf_leftsew = \<not> ends_before T aminus1 low, sf_rightsew = True, sf_leftoverlap = False, sf_rightoverlap = False\<rparr> in
      run_bind (erase_scan i first lst f (drop low T)) (\<lambda>(kept, rest, f).
      let T = take low T @ kept @ rest;
          rightsew = (sf_rightsew f \<and> \<not> (rest \<noteq> [] \<and> minus_one R (ar_a (hd rest)) = lst)) in
      run_bind (if sf_leftsew f \<and> sf_leftoverlap f
                then rm_zip R T aminus1 (rm_lower_bound T aminus1 (from_bool R False)) else ok T) (\<lambda>T.
      if rightsew \<and> sf_rightoverlap f
      then rm_zip R T lst (rm_lower_bound T lst (from_bool R False)) else ok T)))"

definition rm_erase :: "('l::linorder, 's::linorder, 'i, 'r) range_ops \<Rightarrow> ('l, 's, 'r) range_map \<Rightarrow> arena_id
    \<Rightarrow> ('l, 's, 'r) range_map run" where
  "rm_erase R m i =
     run_bind (rm_get_record m i) (\<lambda>rc.
     run_bind (rm_erase_tree R (rm_tree m) i (get_first R rc) (get_last R rc)) (\<lambda>T.
     run_bind (list_remove array_links (rm_record m) (rm_records m) i) (\<lambda>(l, recs, _).
     run_bind (arena_remove recs i) (\<lambda>(recs, _).
     ok \<lparr>rm_tree = T, rm_records = recs, rm_record = l\<rparr>))))"

definition erase_part :: "('l::linorder, 's::linorder, 'i, 'r) range_ops \<Rightarrow> ('l, 's, 'r) range_map \<Rightarrow> nat
    \<Rightarrow> ('l, 's, 'r) range_map run" where
  "erase_part R m iter = run_bind (get_value_iter m iter) (rm_erase R m)"

end
