(* ===== verification/Range_Map_Parts.thy ===== *)
theory Range_Map_Parts
  imports Range_Map "HOL-Library.Multiset"
begin

text \<open>
  The vector of parts of a range map: the invariant that its pieces are sorted and two of them are equal or apart,
  and that cutting a piece and adding parts keep it. What the vector means is the set of tags (range, second
  key and record) that hold at a point of the line.
\<close>

section \<open>The invariant\<close>

definition part_covers :: "('l::linorder, 's) addr_range \<Rightarrow> 'l \<Rightarrow> bool" where
  "part_covers r x \<longleftrightarrow> ar_first r \<le> x \<and> x \<le> ar_last r"

definition part_tag :: "('l, 's) addr_range \<Rightarrow> 'l \<times> 'l \<times> 's \<times> arena_id" where
  "part_tag r = (ar_a r, ar_b r, ar_subsort r, ar_value r)"

definition tags_at :: "('l::linorder, 's) addr_range list \<Rightarrow> 'l \<Rightarrow> ('l \<times> 'l \<times> 's \<times> arena_id) set" where
  "tags_at T x = part_tag ` {r \<in> set T. part_covers r x}"

text \<open>Two parts are over the same piece of the line, or over disjoint ones.\<close>

definition apart :: "('l::linorder, 's) addr_range \<Rightarrow> ('l, 's) addr_range \<Rightarrow> bool" where
  "apart r s \<longleftrightarrow> (ar_first r = ar_first s \<and> ar_last r = ar_last s) \<or> ar_last r < ar_first s \<or> ar_last s < ar_first r"

definition tree_ok :: "('l::linorder, 's::linorder) addr_range list \<Rightarrow> bool" where
  "tree_ok T \<longleftrightarrow> sorted (map ar_key T) \<and> (\<forall>r\<in>set T. ar_first r \<le> ar_last r) \<and> (\<forall>r\<in>set T. \<forall>s\<in>set T. apart r s)"

lemma apart_sym: "apart r s \<longleftrightarrow> apart s r"
  by (auto simp: apart_def)

lemma tags_at_append: "tags_at (T @ U) x = tags_at T x \<union> tags_at U x"
  by (auto simp: tags_at_def)

lemma tags_at_mset: "mset T = mset U \<Longrightarrow> tags_at T x = tags_at U x"
  by (metis mset_eq_setD tags_at_def)

lemma tags_at_single: "tags_at [r] x = (if part_covers r x then {part_tag r} else {})"
  by (auto simp: tags_at_def)

lemma tree_ok_apart: "tree_ok T \<Longrightarrow> r \<in> set T \<Longrightarrow> s \<in> set T \<Longrightarrow> apart r s"
  by (simp add: tree_ok_def)

lemma tree_ok_proper: "tree_ok T \<Longrightarrow> r \<in> set T \<Longrightarrow> ar_first r \<le> ar_last r"
  by (simp add: tree_ok_def)

lemma tree_ok_last:
  assumes "tree_ok T" "i \<le> j" "j < length T"
  shows "ar_last (T ! i) \<le> ar_last (T ! j)"
proof -
  have "ar_key (T ! i) \<le> ar_key (T ! j)" using assms sorted_nth_mono [of "map ar_key T" i j] by (simp add: tree_ok_def)
  then show ?thesis by (auto simp: ar_key_def less_eq_prod_def)
qed

text \<open>Parts that share a point are over the same piece.\<close>

lemma tree_ok_same:
  assumes "tree_ok T" "r \<in> set T" "s \<in> set T" "part_covers r x" "part_covers s x"
  shows "ar_first r = ar_first s" "ar_last r = ar_last s"
  using tree_ok_apart [OF assms(1-3)] assms(4,5) by (auto simp: apart_def part_covers_def)

section \<open>Insertion into the vector\<close>

lemma takeWhile_bounds:
  assumes "sorted (map f xs)" "\<And>x y. P y \<Longrightarrow> f x \<le> f y \<Longrightarrow> P x"
  shows "k < length (takeWhile P xs) \<Longrightarrow> P (xs ! k)" "length (takeWhile P xs) \<le> k \<Longrightarrow> k < length xs \<Longrightarrow> \<not> P (xs ! k)"
proof -
  show "k < length (takeWhile P xs) \<Longrightarrow> P (xs ! k)" by (metis nth_mem set_takeWhileD takeWhile_nth)
  let ?n = "length (takeWhile P xs)"
  assume k: "?n \<le> k" "k < length xs"
  then have "\<not> P (xs ! ?n)" by (simp add: nth_length_takeWhile)
  moreover have "f (xs ! ?n) \<le> f (xs ! k)" using sorted_nth_mono [OF assms(1), of ?n k] k by simp
  ultimately show "\<not> P (xs ! k)" using assms(2) by blast
qed

lemma lower_bound_ok:
  assumes "sorted (map ar_key T)"
  shows "k < rm_lower_bound T l s \<Longrightarrow> ar_key (T ! k) < (l, s)" "rm_lower_bound T l s \<le> k \<Longrightarrow> k < length T \<Longrightarrow> (l, s) \<le> ar_key (T ! k)"
    "rm_lower_bound T l s \<le> length T"
  using takeWhile_bounds [OF assms, of "\<lambda>r. ar_key r < (l, s)" k] length_takeWhile_le [of _ T] unfolding rm_lower_bound_def
  by (auto simp: not_less intro: le_less_trans)

lemma upper_bound_ok:
  assumes "sorted (map ar_key T)"
  shows "k < rm_upper_bound T l s \<Longrightarrow> ar_key (T ! k) \<le> (l, s)" "rm_upper_bound T l s \<le> k \<Longrightarrow> k < length T \<Longrightarrow> (l, s) < ar_key (T ! k)"
    "rm_upper_bound T l s \<le> length T"
  using takeWhile_bounds [OF assms, of "\<lambda>r. ar_key r \<le> (l, s)" k] length_takeWhile_le [of _ T] unfolding rm_upper_bound_def
  by (auto simp: not_le intro: order_trans)

lemma sorted_insert_at:
  assumes "sorted (map f xs)" "pos \<le> length xs" "0 < pos \<Longrightarrow> f (xs ! (pos - 1)) \<le> f x" "pos < length xs \<Longrightarrow> f x \<le> f (xs ! pos)"
  shows "sorted (map f (take pos xs @ x # drop pos xs))"
proof -
  have s: "sorted (map f (take pos xs @ drop pos xs))" using assms(1) by simp
  have low: "f y \<le> f x" if "y \<in> set (take pos xs)" for y
  proof -
    obtain k where k: "k < pos" "k < length xs" "y = xs ! k" using \<open>y \<in> _\<close> by (auto simp: in_set_conv_nth)
    then have "f y \<le> f (xs ! (pos - 1))" using sorted_nth_mono [OF assms(1), of k "pos - 1"] assms(2) by simp
    then show ?thesis using assms(3) k by simp
  qed
  have high: "f x \<le> f y" if "y \<in> set (drop pos xs)" for y
  proof -
    obtain k where "k < length (drop pos xs)" "y = drop pos xs ! k" using \<open>y \<in> _\<close> by (metis in_set_conv_nth)
    then have k: "pos + k < length xs" "y = xs ! (pos + k)" by simp_all
    then have "f (xs ! pos) \<le> f y" using sorted_nth_mono [OF assms(1), of pos "pos + k"] by simp
    then show ?thesis using assms(4) k by simp
  qed
  show ?thesis using s low high by (auto simp: sorted_append simp del: append_take_drop_id intro: order_trans)
qed

lemma hint_pos_ok:
  assumes "sorted (map ar_key T)" "hint \<le> length T"
  shows "\<exists>pos. hint_pos T hint r = ok pos \<and> pos \<le> length T \<and>
    (0 < pos \<longrightarrow> ar_key (T ! (pos - 1)) \<le> ar_key r) \<and> (pos < length T \<longrightarrow> ar_key r \<le> ar_key (T ! pos))"
proof -
  have k: "ar_key r = (ar_last r, ar_subsort r)" by (simp add: ar_key_def)
  have u: "rm_upper_bound T (ar_last r) (ar_subsort r) \<le> length T"
    "0 < rm_upper_bound T (ar_last r) (ar_subsort r) \<Longrightarrow> ar_key (T ! (rm_upper_bound T (ar_last r) (ar_subsort r) - 1)) \<le> ar_key r"
    "rm_upper_bound T (ar_last r) (ar_subsort r) < length T \<Longrightarrow> ar_key r \<le> ar_key (T ! rm_upper_bound T (ar_last r) (ar_subsort r))"
    unfolding k using upper_bound_ok [OF assms(1)] by (auto intro: less_imp_le)
  have l: "rm_lower_bound T (ar_last r) (ar_subsort r) \<le> length T"
    "0 < rm_lower_bound T (ar_last r) (ar_subsort r) \<Longrightarrow> ar_key (T ! (rm_lower_bound T (ar_last r) (ar_subsort r) - 1)) \<le> ar_key r"
    "rm_lower_bound T (ar_last r) (ar_subsort r) < length T \<Longrightarrow> ar_key r \<le> ar_key (T ! rm_lower_bound T (ar_last r) (ar_subsort r))"
    unfolding k using lower_bound_ok [OF assms(1)] by (auto intro: less_imp_le)
  consider "hint = length T" | "hint < length T" "\<not> ar_key (T ! hint) < ar_key r" | "hint < length T" "ar_key (T ! hint) < ar_key r"
    using assms(2) by linarith
  then show ?thesis
  proof cases
    case 1 then show ?thesis using u by (auto simp: hint_pos_def Let_def not_less)
  next
    case 2 then show ?thesis using u by (auto simp: hint_pos_def Let_def not_less)
  next
    case 3 then show ?thesis using l by (auto simp: hint_pos_def Let_def not_less less_imp_le)
  qed
qed

lemma insert_hint_ok:
  assumes "sorted (map ar_key T)" "hint \<le> length T"
  obtains pos where "insert_hint T hint r = ok (take pos T @ r # drop pos T, pos)" "pos \<le> length T"
    "sorted (map ar_key (take pos T @ r # drop pos T))"
proof -
  obtain pos where p: "hint_pos T hint r = ok pos" "pos \<le> length T" "0 < pos \<Longrightarrow> ar_key (T ! (pos - 1)) \<le> ar_key r"
    "pos < length T \<Longrightarrow> ar_key r \<le> ar_key (T ! pos)" using hint_pos_ok [OF assms] by blast
  then show ?thesis using that [of pos] sorted_insert_at [OF assms(1) p(2-4)] by (simp add: insert_hint_def insert_at_def)
qed

lemma insert_plain_ok:
  assumes "sorted (map ar_key T)"
  obtains pos where "insert_plain T r = ok (take pos T @ r # drop pos T, pos)" "pos \<le> length T"
    "sorted (map ar_key (take pos T @ r # drop pos T))"
proof -
  let ?pos = "rm_upper_bound T (ar_last r) (ar_subsort r)"
  have k: "ar_key r = (ar_last r, ar_subsort r)" by (simp add: ar_key_def)
  note u = upper_bound_ok [OF assms, where l = "ar_last r" and s = "ar_subsort r"]
  have "sorted (map ar_key (take ?pos T @ r # drop ?pos T))"
    using u by (intro sorted_insert_at assms) (auto simp: k intro: less_imp_le)
  then show ?thesis using that [of ?pos] u(3) by (simp add: insert_plain_def insert_at_def Let_def)
qed

text \<open>A part below some element is inserted at or before it.\<close>

lemma insert_pos_bound:
  assumes "sorted (map f (take pos xs @ x # drop pos xs))" "h < length xs" "f x < f (xs ! h)"
  shows "pos \<le> h"
proof (rule ccontr)
  assume p: "\<not> pos \<le> h"
  then have "xs ! h \<in> set (take pos xs)" using assms(2) by (auto simp: in_set_conv_nth intro!: exI [of _ h])
  then have "f (xs ! h) \<le> f x" using assms(1) by (auto simp: sorted_append)
  then show False using assms(3) by simp
qed

lemma insert_part_ok:
  assumes "tree_ok T" "sorted (map ar_key (take pos T @ r # drop pos T))" "ar_first r \<le> ar_last r" "\<And>s. s \<in> set T \<Longrightarrow> apart r s"
  shows "tree_ok (take pos T @ r # drop pos T)"
    "tags_at (take pos T @ r # drop pos T) x = tags_at T x \<union> (if part_covers r x then {part_tag r} else {})"
proof -
  have m: "mset (take pos T @ r # drop pos T) = add_mset r (mset T)"
    by (metis append_take_drop_id mset.simps(2) mset_append union_mset_add_mset_right)
  then have s: "set (take pos T @ r # drop pos T) = insert r (set T)" by (metis mset.simps(2) mset_eq_setD list.simps(15))
  have "apart r r" by (simp add: apart_def)
  then show "tree_ok (take pos T @ r # drop pos T)"
    using assms unfolding tree_ok_def s by (auto simp: apart_sym)
  have "mset (take pos T @ r # drop pos T) = mset ([r] @ T)" using m by simp
  then have "tags_at (take pos T @ r # drop pos T) x = tags_at ([r] @ T) x" by (rule tags_at_mset)
  then show "tags_at (take pos T @ r # drop pos T) x = tags_at T x \<union> (if part_covers r x then {part_tag r} else {})"
    by (auto simp: tags_at_append tags_at_single simp del: append_Cons)
qed

lemma in_drop_nth:
  assumes "r \<in> set (drop low T)"
  obtains k where "low \<le> k" "k < length T" "r = T ! k"
proof -
  obtain i where "i < length (drop low T)" "r = drop low T ! i" using assms by (metis in_set_conv_nth)
  then show ?thesis using that [of "low + i"] by simp
qed

text \<open>The element an index is on stays there when the index is moved along with an insertion.\<close>

lemma insert_keeps_index:
  assumes "low < length xs" "pos \<le> length xs"
  shows "(take pos xs @ x # drop pos xs) ! (if pos \<le> low then low + 1 else low) = xs ! low"
    "k < (if pos \<le> low then low + 1 else low) \<Longrightarrow>
      (take pos xs @ x # drop pos xs) ! k = x \<or> (\<exists>j<low. (take pos xs @ x # drop pos xs) ! k = xs ! j)"
proof -
  show "(take pos xs @ x # drop pos xs) ! (if pos \<le> low then low + 1 else low) = xs ! low"
    using assms by (auto simp: nth_append nth_Cons' min_def)
  assume k: "k < (if pos \<le> low then low + 1 else low)"
  have n: "(take pos xs @ x # drop pos xs) ! k = (if k < pos then xs ! k else if k = pos then x else xs ! (k - 1))"
    using assms k by (auto simp: nth_append nth_Cons' min_def split: if_splits)
  show "(take pos xs @ x # drop pos xs) ! k = x \<or> (\<exists>j<low. (take pos xs @ x # drop pos xs) ! k = xs ! j)"
  proof (cases "k = pos")
    case False
    let ?j = "if k < pos then k else k - 1"
    have "?j < low" using k False by (auto split: if_splits)
    then show ?thesis using n False by (metis)
  qed (use n in simp)
qed

section \<open>Lines\<close>

text \<open>Steps along the line, as far as there is something on the other side.\<close>

locale range_line =
  fixes R :: "('l::linorder, 's::linorder, 'i, 'r) range_ops"
  assumes plus_le: "x < y \<Longrightarrow> plus_one R x \<le> z \<longleftrightarrow> x < z"
    and le_minus: "x < y \<Longrightarrow> z \<le> minus_one R y \<longleftrightarrow> z < y"
    and first_new: "get_first R (new_record R data a b) = a"
    and last_new: "get_last R (new_record R data a b) = b"
begin

lemma minus_less: "x < y \<Longrightarrow> minus_one R y < y"
  using le_minus [of x y "minus_one R y"] by simp

lemma less_plus: "x < y \<Longrightarrow> x < plus_one R x"
  using plus_le [of x y "plus_one R x"] by simp

lemma plus_minus: "x < y \<Longrightarrow> plus_one R (minus_one R y) = y"
  by (metis le_minus minus_less not_le order_refl plus_le order_antisym)

section \<open>Cutting a piece\<close>

text \<open>
  The vector during a cut: parts that end at or before the line, the upper halves of the pieces that are cut, those
  still to be cut and the rest.
\<close>

lemma unzip_loop_ok:
  assumes "sorted (map ar_key (A @ U @ G @ B))" "\<forall>r\<in>set (U @ G). line < ar_last r" "\<forall>r\<in>set G. ar_first r \<le> line"
    "B = [] \<or> line < ar_first (hd B)"
  shows "\<exists>A'. unzip_loop line plus1 (A @ U @ G @ B) (length A + length U) (length A) n =
      ok (A' @ U @ map (\<lambda>r. r\<lparr>ar_first := plus1\<rparr>) G @ B, n + length G) \<and>
    mset A' = mset A + mset (map (\<lambda>r. r\<lparr>ar_last := line\<rparr>) G) \<and>
    sorted (map ar_key (A' @ U @ map (\<lambda>r. r\<lparr>ar_first := plus1\<rparr>) G @ B))"
  using assms
proof (induction G arbitrary: A U n)
  case Nil
  then show ?case
    by (cases B) (subst unzip_loop.simps, auto simp: idx_def nth_append)+
next
  case (Cons g G)
  let ?u = "g\<lparr>ar_first := plus1\<rparr>" and ?l = "g\<lparr>ar_last := line\<rparr>"
  let ?T = "A @ U @ (g # G) @ B" and ?T1 = "A @ (U @ [?u]) @ G @ B"
  have k: "ar_key ?u = ar_key g" by (simp add: ar_key_def)
  have s1: "sorted (map ar_key ?T1)" using Cons.prems(1) by (simp add: k)
  have upd: "?T[length A + length U := ?u] = ?T1" by (simp add: list_update_append)
  obtain pos where pos: "insert_hint ?T1 (length A) ?l = ok (take pos ?T1 @ ?l # drop pos ?T1, pos)" "pos \<le> length ?T1"
    "sorted (map ar_key (take pos ?T1 @ ?l # drop pos ?T1))"
    using insert_hint_ok [OF s1, of "length A" ?l] by (metis le_add1 length_append)
  have "ar_key ?l < ar_key (?T1 ! length A)"
  proof -
    have "?T1 ! length A \<in> set (U @ [?u])" by (cases U) (simp_all add: nth_append)
    then have "line < ar_last (?T1 ! length A)" using Cons.prems(2) by auto
    then show ?thesis by (simp add: ar_key_def less_prod_def')
  qed
  then have pa: "pos \<le> length A" using insert_pos_bound [OF pos(3)] by simp
  define A1 where "A1 = take pos A @ ?l # drop pos A"
  have T2: "take pos ?T1 @ ?l # drop pos ?T1 = A1 @ (U @ [?u]) @ G @ B" using pa by (simp add: A1_def)
  have len: "length A1 = Suc (length A)" using pa by (simp add: A1_def)
  have m1: "mset A1 = add_mset ?l (mset A)" unfolding A1_def
    by (metis append_take_drop_id mset.simps(2) mset_append union_mset_add_mset_right)
  have step: "unzip_loop line plus1 ?T (length A + length U) (length A) n =
      unzip_loop line plus1 (A1 @ (U @ [?u]) @ G @ B) (length A1 + length (U @ [?u])) (length A1) (n + 1)"
    using Cons.prems(3) pa by (subst unzip_loop.simps) (simp add: idx_def nth_append upd [simplified] pos(1) [simplified] len, simp add: A1_def)
  have "\<exists>A'. unzip_loop line plus1 (A1 @ (U @ [?u]) @ G @ B) (length A1 + length (U @ [?u])) (length A1) (n + 1) =
      ok (A' @ (U @ [?u]) @ map (\<lambda>r. r\<lparr>ar_first := plus1\<rparr>) G @ B, n + 1 + length G) \<and>
    mset A' = mset A1 + mset (map (\<lambda>r. r\<lparr>ar_last := line\<rparr>) G) \<and>
    sorted (map ar_key (A' @ (U @ [?u]) @ map (\<lambda>r. r\<lparr>ar_first := plus1\<rparr>) G @ B))"
    using Cons.prems pos(3) by (intro Cons.IH) (auto simp: T2 [simplified])
  then show ?case using step m1 by (auto simp: algebra_simps)
qed

text \<open>Where the pieces that contain a point of a cut stand in the vector.\<close>

lemma cut_group:
  assumes "tree_ok T" "low < length T" "ar_first (T ! low) \<le> line" "line < ar_last (T ! low)"
  defines "G \<equiv> takeWhile (\<lambda>r. ar_first r \<le> line) (drop low T)" and "B \<equiv> dropWhile (\<lambda>r. ar_first r \<le> line) (drop low T)"
  shows "T = take low T @ G @ B" "\<And>r. r \<in> set G \<Longrightarrow> ar_first r = ar_first (T ! low) \<and> ar_last r = ar_last (T ! low)"
    "\<And>r. r \<in> set B \<Longrightarrow> line < ar_first r" "B = [] \<or> line < ar_first (hd B)" "G \<noteq> []"
proof -
  have c: "T ! low \<in> set T" "part_covers (T ! low) line" using assms(2-4) by (auto simp: part_covers_def)
  have late: "line < ar_last r" if "r \<in> set (drop low T)" for r
  proof -
    obtain k where "low \<le> k" "k < length T" "r = T ! k" using in_drop_nth [OF \<open>r \<in> _\<close>] by blast
    then have "ar_last (T ! low) \<le> ar_last r" using tree_ok_last [OF assms(1), of low k] by simp
    then show ?thesis using assms(4) by simp
  qed
  have same: "ar_first r = ar_first (T ! low) \<and> ar_last r = ar_last (T ! low)" if "r \<in> set (drop low T)" "ar_first r \<le> line" for r
  proof -
    have "part_covers r line" using late [OF that(1)] that(2) by (simp add: part_covers_def)
    then show ?thesis using tree_ok_same [OF assms(1) in_set_dropD [OF that(1)] c(1) _ c(2)] by simp
  qed
  show T: "T = take low T @ G @ B" by (simp add: G_def B_def)
  show "ar_first r = ar_first (T ! low) \<and> ar_last r = ar_last (T ! low)" if "r \<in> set G" for r
    using same [of r] set_takeWhileD [OF that [unfolded G_def]] by simp
  show hd: "B = [] \<or> line < ar_first (hd B)" using hd_dropWhile [of "\<lambda>r. ar_first r \<le> line" "drop low T"] unfolding B_def by (metis not_le)
  show "G \<noteq> []" using assms(2,3) by (simp add: G_def Cons_nth_drop_Suc [symmetric])
  show "line < ar_first r" if r: "r \<in> set B" for r
  proof (rule ccontr)
    assume "\<not> line < ar_first r"
    then have le: "ar_first r \<le> line" by simp
    have rd: "r \<in> set (drop low T)" "B \<noteq> []" using r set_dropWhileD unfolding B_def by fastforce+
    have hB: "hd B \<in> set (drop low T)" using rd(2) unfolding B_def by (metis hd_in_set set_dropWhileD)
    have sB: "sorted (map ar_key B)" using assms(1) T by (metis map_append sorted_append tree_ok_def)
    have "ar_key (hd B) \<le> ar_key r" using sB r by (cases B) auto
    then have "ar_last (hd B) \<le> ar_last r" by (auto simp: ar_key_def less_eq_prod_def)
    moreover have "ar_last r = ar_last (T ! low)" using same [OF rd(1) le] by simp
    moreover have "ar_last (T ! low) \<le> ar_last (hd B)"
    proof -
      obtain k where "low \<le> k" "k < length T" "hd B = T ! k" using in_drop_nth [OF hB] by blast
      then show ?thesis using tree_ok_last [OF assms(1), of low k] by simp
    qed
    ultimately have "ar_last (hd B) = ar_last (T ! low)" by simp
    then have "part_covers (hd B) (ar_last (T ! low))" "part_covers (T ! low) (ar_last (T ! low))"
      using tree_ok_proper [OF assms(1) in_set_dropD [OF hB]] tree_ok_proper [OF assms(1) c(1)] by (simp_all add: part_covers_def)
    then have "ar_first (hd B) = ar_first (T ! low)" using tree_ok_same(1) [OF assms(1) in_set_dropD [OF hB] c(1)] by blast
    then show False using hd rd(2) assms(3) by simp
  qed
qed

end

end
