(* ===== verification/Range_Map_Insert.thy ===== *)
theory Range_Map_Insert
  imports Range_Map_Parts
begin

text \<open>
  Insertion into a range map: cutting the piece at either end of the new range changes nothing at any point, and
  the loop adds the new record to exactly the points of its range.
\<close>

lemma split_at:
  fixes f m l x :: "'l::linorder"
  assumes "f \<le> m" "m < l"
  shows "f \<le> x \<and> x \<le> l \<longleftrightarrow> (f \<le> x \<and> x \<le> m) \<or> (m < x \<and> x \<le> l)"
  using assms by auto

text \<open>During the insertion no piece reaches over the start of what is still to be inserted, and those before \<open>low\<close> are below it.\<close>

definition loop_inv :: "'l::linorder \<Rightarrow> ('l, 's::linorder) addr_range list \<Rightarrow> nat \<Rightarrow> bool" where
  "loop_inv bound T low \<longleftrightarrow> tree_ok T \<and> low \<le> length T \<and> (\<forall>k<low. ar_last (T ! k) < bound) \<and>
     (\<forall>r\<in>set T. ar_last r < bound \<or> bound \<le> ar_first r)"

text \<open>What the loop leaves: the rest of the range is a piece of its own or a gap, and the record holds before it.\<close>

definition loop_result :: "'l::linorder \<Rightarrow> ('l \<times> 'l \<times> 's::linorder \<times> arena_id) \<Rightarrow> 'l \<Rightarrow> ('l, 's) addr_range list \<Rightarrow> ('l, 's) addr_range list \<Rightarrow> 'l \<Rightarrow> bool" where
  "loop_result second P bound T T' b \<longleftrightarrow> tree_ok T' \<and> bound \<le> b \<and> b \<le> second \<and>
     (\<forall>s\<in>set T'. (ar_first s = b \<and> ar_last s = second) \<or> ar_last s < b \<or> second < ar_first s) \<and>
     (\<forall>x. tags_at T x \<union> (if bound \<le> x \<and> x < b then {P} else {}) \<subseteq> tags_at T' x) \<and>
     (\<forall>x. tags_at T' x \<subseteq> tags_at T x \<union> (if bound \<le> x \<and> x \<le> second then {P} else {}))"

lemma size_filter_less:
  assumes "\<And>x. Q x \<Longrightarrow> P x" "c \<in># M" "P c" "\<not> Q c"
  shows "size (filter_mset Q M) < size (filter_mset P M)"
proof -
  have "filter_mset P M = filter_mset Q M + filter_mset (\<lambda>x. P x \<and> \<not> Q x) M" using assms(1) by (induction M) auto
  moreover have "c \<in># filter_mset (\<lambda>x. P x \<and> \<not> Q x) M" using assms(2-4) by simp
  ultimately show ?thesis by (metis less_add_same_cancel1 multi_member_split size_union size_add_mset zero_less_Suc)
qed

context range_line
begin

section \<open>Cuts\<close>

text \<open>A cut leaves the vector in two halves, one on each side of the line.\<close>

lemma unzip_ok:
  assumes "tree_ok T" "low < length T" "ar_first (T ! low) \<le> line" "line < ar_last (T ! low)"
    "\<And>k. k < low \<Longrightarrow> ar_last (T ! k) \<le> line"
  obtains A D where "unzip R T line low = ok (A @ D, length A - low)" "low \<le> length A" "tree_ok (A @ D)"
    "\<And>x. tags_at (A @ D) x = tags_at T x" "\<And>r. r \<in> set A \<Longrightarrow> ar_last r \<le> line" "\<And>r. r \<in> set D \<Longrightarrow> line < ar_first r"
    "\<And>r. r \<in> set A \<Longrightarrow> r \<in> set (take low T) \<or> (ar_first r = ar_first (T ! low) \<and> ar_last r = line)"
proof -
  define G where "G = takeWhile (\<lambda>r. ar_first r \<le> line) (drop low T)"
  define B where "B = dropWhile (\<lambda>r. ar_first r \<le> line) (drop low T)"
  let ?lo = "\<lambda>r. r\<lparr>ar_last := line\<rparr>" and ?up = "\<lambda>r. r\<lparr>ar_first := plus_one R line\<rparr>"
  note g = cut_group [OF assms(1-4), folded G_def B_def]
  let ?f = "ar_first (T ! low)" and ?l = "ar_last (T ! low)"
  have plus: "plus_one R line \<le> z \<longleftrightarrow> line < z" for z using assms(4) by (rule plus_le)
  have Ts: "sorted (map ar_key (take low T @ [] @ G @ B))" using assms(1) g(1) by (simp add: tree_ok_def)
  have len: "length (take low T) = low" using assms(2) by simp
  obtain A where A: "unzip_loop line (plus_one R line) T low low 0 = ok (A @ map ?up G @ B, length G)"
    "mset A = mset (take low T) + mset (map ?lo G)" "sorted (map ar_key (A @ map ?up G @ B))"
    using unzip_loop_ok [OF Ts, of line "plus_one R line" 0] g(2,4) assms(3,4) len g(1) by auto
  have setA: "set A = set (take low T) \<union> ?lo ` set G" using mset_eq_setD [of A "take low T @ map ?lo G"] A(2) by simp
  have low_last: "ar_last r \<le> line" if "r \<in> set (take low T)" for r
    using that assms(5) by (auto simp: in_set_conv_nth)
  have setT: "set T = set (take low T) \<union> set G \<union> set B" using arg_cong [OF g(1), of set] by (simp add: Un_assoc)
  have below: "ar_last r < ?f" if "r \<in> set (take low T)" for r
  proof -
    have r: "r \<in> set T" using that setT by blast
    have "apart r (T ! low)" using tree_ok_apart [OF assms(1) r nth_mem [OF assms(2)]] .
    then show ?thesis using low_last [OF that] assms(3,4) tree_ok_proper [OF assms(1) r] by (auto simp: apart_def)
  qed
  have above: "?l < ar_first r" if "r \<in> set B" for r
  proof -
    have r: "r \<in> set T" using that setT by blast
    have "apart r (T ! low)" using tree_ok_apart [OF assms(1) r nth_mem [OF assms(2)]] .
    then show ?thesis using g(3) [OF that] assms(3,4) tree_ok_proper [OF assms(1) r] by (auto simp: apart_def)
  qed
  have old: "apart r s" if "r \<in> set (take low T) \<union> set B" "s \<in> set (take low T) \<union> set B" for r s
    using tree_ok_apart [OF assms(1), of r s] that setT by blast
  let ?P = "set (take low T) \<union> set B"
  have parts: "set (A @ map ?up G @ B) = ?P \<union> ?lo ` set G \<union> ?up ` set G" using setA by auto
  have "tree_ok (A @ map ?up G @ B)"
    unfolding tree_ok_def parts
  proof (intro conjI ballI A(3))
    fix r assume "r \<in> ?P \<union> ?lo ` set G \<union> ?up ` set G"
    moreover have "ar_first r \<le> ar_last r" if "r \<in> ?P" using tree_ok_proper [OF assms(1), of r] that setT by blast
    ultimately show "ar_first r \<le> ar_last r" using g(2) assms(3,4) plus by auto
  next
    fix r s assume rs: "r \<in> ?P \<union> ?lo ` set G \<union> ?up ` set G" "s \<in> ?P \<union> ?lo ` set G \<union> ?up ` set G"
    have half: "(ar_first s = ?f \<and> ar_last s = line) \<or> (ar_first s = plus_one R line \<and> ar_last s = ?l)"
      if "s \<in> ?lo ` set G \<union> ?up ` set G" for s using that g(2) by auto
    have within: "?f \<le> ar_first s \<and> ar_last s \<le> ?l" if "s \<in> ?lo ` set G \<union> ?up ` set G" for s
      using half [OF that] less_plus [OF assms(4)] assms(3,4) by auto
    have side: "ar_last r < ?f \<or> ?l < ar_first r" if "r \<in> ?P" for r using that below above by blast
    have lu: "apart r s \<and> apart s r" if "r \<in> ?P" "s \<in> ?lo ` set G \<union> ?up ` set G" for r s
      using side [OF that(1)] within [OF that(2)] unfolding apart_def by auto
    have uu: "apart r s" if "r \<in> ?lo ` set G \<union> ?up ` set G" "s \<in> ?lo ` set G \<union> ?up ` set G"
      using half [OF that(1)] half [OF that(2)] less_plus [OF assms(4)] unfolding apart_def by auto
    show "apart r s" using rs old lu uu by blast
  qed
  moreover have "tags_at (A @ map ?up G @ B) x = tags_at T x" for x
  proof -
    have tag: "part_tag (?lo r) = part_tag r" "part_tag (?up r) = part_tag r" for r by (simp_all add: part_tag_def)
    have cov: "part_covers r x \<longleftrightarrow> part_covers (?lo r) x \<or> part_covers (?up r) x" if "r \<in> set G" for r
    proof -
      have r: "ar_first r = ?f" "ar_last r = ?l" using g(2) [OF that] by simp_all
      show ?thesis using split_at [OF assms(3,4), of x] by (simp add: part_covers_def r plus)
    qed
    have "tags_at (A @ map ?up G @ B) x = part_tag ` {r \<in> ?P \<union> ?lo ` set G \<union> ?up ` set G. part_covers r x}"
      unfolding tags_at_def parts ..
    also have "\<dots> = part_tag ` {r \<in> ?P. part_covers r x} \<union> part_tag ` {r \<in> set G. part_covers (?lo r) x \<or> part_covers (?up r) x}"
    proof -
      have "part_tag ` {r \<in> ?lo ` set G \<union> ?up ` set G. part_covers r x} =
        part_tag ` ?lo ` {r \<in> set G. part_covers (?lo r) x} \<union> part_tag ` ?up ` {r \<in> set G. part_covers (?up r) x}" by blast
      also have "\<dots> = part_tag ` {r \<in> set G. part_covers (?lo r) x \<or> part_covers (?up r) x}"
        unfolding image_image tag by blast
      finally show ?thesis by blast
    qed
    also have "\<dots> = part_tag ` {r \<in> ?P \<union> set G. part_covers r x}" using cov by blast
    finally show ?thesis unfolding tags_at_def setT by (simp add: Un_commute Un_left_commute)
  qed
  moreover have "ar_last r \<le> line" if "r \<in> set A" for r using that setA low_last by auto
  moreover have "line < ar_first r" if "r \<in> set (map ?up G @ B)" for r using that g(3) less_plus [OF assms(4)] by auto
  moreover have "r \<in> set (take low T) \<or> (ar_first r = ?f \<and> ar_last r = line)" if "r \<in> set A" for r using that setA g(2) by auto
  moreover have "length A = low + length G" using arg_cong [OF A(2), of size] len by simp
  moreover have "unzip R T line low = ok (A @ map ?up G @ B, length G)" using assms(2,4) A(1) by (auto simp: unzip_def idx_def)
  ultimately show ?thesis using that [of A "map ?up G @ B"] by simp
qed

lemma cut_low_ok:
  assumes "tree_ok T" "\<And>r. r \<in> set T \<Longrightarrow> from_bool R False \<le> ar_subsort r"
  obtains A D where "cut_low R T bound = ok (A @ D, length A)" "tree_ok (A @ D)" "\<And>x. tags_at (A @ D) x = tags_at T x"
    "\<And>r. r \<in> set A \<Longrightarrow> ar_last r < bound" "\<And>r. r \<in> set D \<Longrightarrow> bound \<le> ar_first r"
proof -
  let ?low = "rm_lower_bound T bound (from_bool R False)"
  have s: "sorted (map ar_key T)" using assms(1) by (simp add: tree_ok_def)
  have before: "ar_last (T ! k) < bound" if "k < ?low" for k
  proof -
    have "ar_key (T ! k) < (bound, from_bool R False)" using lower_bound_ok(1) [OF s that] .
    moreover have "k < length T" using that lower_bound_ok(3) [OF s, of bound "from_bool R False"] by simp
    then have "from_bool R False \<le> ar_subsort (T ! k)" using assms(2) by simp
    ultimately show ?thesis by (auto simp: ar_key_def less_prod_def')
  qed
  have after: "bound \<le> ar_last (T ! k)" if "?low \<le> k" "k < length T" for k
    using lower_bound_ok(2) [OF s that] by (auto simp: ar_key_def less_eq_prod_def)
  show ?thesis
  proof (cases "?low \<noteq> length T \<and> ar_first (T ! ?low) < bound")
    case True
    then have low: "?low < length T" using lower_bound_ok(3) [OF s, of bound "from_bool R False"] by simp
    have m: "z \<le> minus_one R bound \<longleftrightarrow> z < bound" for z using le_minus [of "ar_first (T ! ?low)" bound z] True by simp
    have mb: "minus_one R bound < bound" using minus_less True by blast
    obtain A D where u: "unzip R T (minus_one R bound) ?low = ok (A @ D, length A - ?low)" "?low \<le> length A" "tree_ok (A @ D)"
      "\<And>x. tags_at (A @ D) x = tags_at T x" "\<And>r. r \<in> set A \<Longrightarrow> ar_last r \<le> minus_one R bound"
      "\<And>r. r \<in> set D \<Longrightarrow> minus_one R bound < ar_first r"
    proof -
      have pre: "ar_first (T ! ?low) \<le> minus_one R bound" "minus_one R bound < ar_last (T ! ?low)"
        using True m less_le_trans [OF mb after [OF order_refl low]] by auto
      have "ar_last (T ! k) \<le> minus_one R bound" if "k < ?low" for k using before [OF that] m by simp
      note u = unzip_ok [OF assms(1) low pre this]
      show ?thesis by (rule u, assumption, rule that)
    qed
    have "bound \<le> ar_first r" if "r \<in> set D" for r using u(6) [OF that] m [of "ar_first r"] by (simp add: not_le [symmetric])
    then show ?thesis using that [of A D] u True m by (simp add: cut_low_def Let_def)
  next
    case False
    have "bound \<le> ar_first r" if r: "r \<in> set (drop ?low T)" for r
    proof -
      obtain k where k: "?low \<le> k" "k < length T" "r = T ! k" using in_drop_nth [OF r] by blast
      then have first: "bound \<le> ar_first (T ! ?low)" "?low < length T" using False by auto
      have "ar_last (T ! ?low) \<le> ar_last r" using tree_ok_last [OF assms(1) k(1,2)] k(3) by simp
      moreover have "apart r (T ! ?low)" using tree_ok_apart [OF assms(1)] k first(2) by simp
      moreover have "ar_first (T ! ?low) \<le> ar_last (T ! ?low)" using tree_ok_proper [OF assms(1)] first(2) by simp
      ultimately show ?thesis using first(1) by (auto simp: apart_def)
    qed
    moreover have "ar_last r < bound" if "r \<in> set (take ?low T)" for r using that before by (auto simp: in_set_conv_nth)
    moreover have "length (take ?low T) = ?low" using lower_bound_ok(3) [OF s] by simp
    ultimately show ?thesis using that [of "take ?low T" "drop ?low T"] False assms(1) by (auto simp: cut_low_def Let_def)
  qed
qed

section \<open>The loop\<close>

text \<open>A part over the gap before the piece at \<open>low\<close>, or over the piece itself, fits between the others.\<close>

lemma gap_apart:
  assumes "loop_inv bound T low" "low < length T" "bound \<le> ar_first (T ! low)" "s \<in> set T" "ar_first p = bound" "ar_last p < ar_first (T ! low)"
  shows "apart p s"
proof -
  have T: "tree_ok T" using assms(1) by (simp add: loop_inv_def)
  obtain k where k: "k < length T" "s = T ! k" using assms(4) by (auto simp: in_set_conv_nth)
  show ?thesis
  proof (cases "k < low")
    case True
    then show ?thesis using assms(1,5) k by (simp add: loop_inv_def apart_def)
  next
    case False
    then have "ar_last (T ! low) \<le> ar_last s" using tree_ok_last [OF T, of low k] k by simp
    moreover have "apart s (T ! low)" using tree_ok_apart [OF T assms(4)] assms(2) by simp
    moreover have "ar_first (T ! low) \<le> ar_last (T ! low)" using tree_ok_proper [OF T] assms(2) by simp
    ultimately show ?thesis using assms(6) by (auto simp: apart_def)
  qed
qed

lemma hint_step:
  assumes "tree_ok T" "low < length T" "ar_first p \<le> ar_last p" "\<And>s. s \<in> set T \<Longrightarrow> apart p s"
  obtains T1 pos low1 where "insert_hint T low p = ok (T1, pos)" "low1 = (if pos \<le> low then low + 1 else low)"
    "T1 ! low1 = T ! low" "low1 < length T1" "tree_ok T1" "mset T1 = add_mset p (mset T)" "length T1 - low1 \<le> length T - low + 1"
    "\<And>x. tags_at T1 x = tags_at T x \<union> (if part_covers p x then {part_tag p} else {})"
    "\<And>k. k < low1 \<Longrightarrow> T1 ! k = p \<or> (\<exists>j<low. T1 ! k = T ! j)"
proof -
  have s: "sorted (map ar_key T)" using assms(1) by (simp add: tree_ok_def)
  obtain pos where p: "insert_hint T low p = ok (take pos T @ p # drop pos T, pos)" "pos \<le> length T"
    "sorted (map ar_key (take pos T @ p # drop pos T))" using insert_hint_ok [OF s, of low p] assms(2) by auto
  let ?T = "take pos T @ p # drop pos T" and ?low = "if pos \<le> low then low + 1 else low"
  have "mset ?T = add_mset p (mset T)" by (metis append_take_drop_id mset.simps(2) mset_append union_mset_add_mset_right)
  moreover have "?low < length ?T" "length ?T - ?low \<le> length T - low + 1" using p(2) assms(2) by auto
  ultimately show ?thesis
    using that [of ?T pos ?low] p(1) insert_keeps_index [OF assms(2) p(2), where x = p] insert_part_ok [OF assms(1) p(3) assms(3,4)] by simp
qed

lemma gap_step:
  assumes "loop_inv bound T low" "low < length T" "bound \<le> ar_last (T ! low)" "part_tag part = P"
  obtains T1 low1 where
    "(if bound < ar_first (T ! low) then
        run_bind (insert_hint T low (part\<lparr>ar_first := bound, ar_last := minus_one R (ar_first (T ! low))\<rparr>)) (\<lambda>(T, pos).
        let low = (if pos \<le> low then low + 1 else low) in run_bind (idx T low) (\<lambda>cur. ok (T, low, ar_first cur)))
      else ok (T, low, bound)) = ok (T1, low1, ar_first (T ! low))"
    "loop_inv (ar_first (T ! low)) T1 low1" "low1 < length T1" "T1 ! low1 = T ! low" "bound \<le> ar_first (T ! low)"
    "\<And>x. tags_at T1 x = tags_at T x \<union> (if bound \<le> x \<and> x < ar_first (T ! low) then {P} else {})"
    "\<And>z. ar_first (T ! low) \<le> z \<Longrightarrow> filter_mset (\<lambda>r. z \<le> ar_last r) (mset T1) = filter_mset (\<lambda>r. z \<le> ar_last r) (mset T)"
    "length T1 - low1 \<le> length T - low + 1"
proof -
  let ?c = "T ! low"
  have T: "tree_ok T" and c: "?c \<in> set T" using assms(1,2) by (auto simp: loop_inv_def)
  have bc: "bound \<le> ar_first ?c" using assms(1,3) c by (auto simp: loop_inv_def)
  have cc: "ar_first ?c \<le> ar_last ?c" using tree_ok_proper [OF T c] .
  have straddle: "ar_last r < ar_first ?c \<or> ar_first ?c \<le> ar_first r" if "r \<in> set T" for r
    using tree_ok_apart [OF T that c] cc by (auto simp: apart_def)
  have before: "ar_last (T ! k) < ar_first ?c" if "k < low" for k using assms(1) that bc by (auto simp: loop_inv_def)
  show ?thesis
  proof (cases "bound < ar_first ?c")
    case True
    let ?p = "part\<lparr>ar_first := bound, ar_last := minus_one R (ar_first ?c)\<rparr>"
    have m: "z \<le> ar_last ?p \<longleftrightarrow> z < ar_first ?c" for z using le_minus [OF True] by simp
    have pp: "ar_first ?p \<le> ar_last ?p" "ar_last ?p < ar_first ?c" using m [of bound] True minus_less [OF True] by simp_all
    have "apart ?p s" if "s \<in> set T" for s using gap_apart [OF assms(1,2) bc that, of ?p] pp(2) by simp
    from hint_step [OF T assms(2) pp(1) this] obtain T1 pos low1 where h: "insert_hint T low ?p = ok (T1, pos)"
      "low1 = (if pos \<le> low then low + 1 else low)" "T1 ! low1 = ?c" "low1 < length T1" "tree_ok T1" "mset T1 = add_mset ?p (mset T)"
      "length T1 - low1 \<le> length T - low + 1" "\<And>x. tags_at T1 x = tags_at T x \<union> (if part_covers ?p x then {part_tag ?p} else {})"
      "\<And>k. k < low1 \<Longrightarrow> T1 ! k = ?p \<or> (\<exists>j<low. T1 ! k = T ! j)" by blast
    have set1: "set T1 = insert ?p (set T)" using arg_cong [OF h(6), of set_mset] by simp
    have "ar_last (T1 ! k) < ar_first ?c" if "k < low1" for k using h(9) [OF that] pp(2) before by auto
    then have "loop_inv (ar_first ?c) T1 low1" using h(4,5) set1 straddle pp(2) by (auto simp: loop_inv_def)
    moreover have "tags_at T1 x = tags_at T x \<union> (if bound \<le> x \<and> x < ar_first ?c then {P} else {})" for x
      using h(8) [of x] m [of x] assms(4) by (simp add: part_covers_def part_tag_def)
    moreover have "filter_mset (\<lambda>r. z \<le> ar_last r) (mset T1) = filter_mset (\<lambda>r. z \<le> ar_last r) (mset T)" if "ar_first ?c \<le> z" for z
      using h(6) pp(2) that m [of z] by (simp add: not_le)
    ultimately show ?thesis using that [of T1 low1] h(1-4,7) True bc by (simp add: Let_def idx_def)
  next
    case False
    then have e: "ar_first ?c = bound" using bc by simp
    show ?thesis by (rule that [of T low]) (use assms(1,2) False e in auto)
  qed
qed

lemma loop_result_extend:
  assumes "loop_result second P b1 T1 T' b" "bound \<le> b1" "\<And>x. tags_at T1 x = tags_at T x \<union> (if bound \<le> x \<and> x < b1 then {P} else {})"
  shows "loop_result second P bound T T' b"
proof -
  have r: "tree_ok T'" "b1 \<le> b" "b \<le> second" "\<forall>s\<in>set T'. (ar_first s = b \<and> ar_last s = second) \<or> ar_last s < b \<or> second < ar_first s"
    "\<And>x. tags_at T1 x \<union> (if b1 \<le> x \<and> x < b then {P} else {}) \<subseteq> tags_at T' x"
    "\<And>x. tags_at T' x \<subseteq> tags_at T1 x \<union> (if b1 \<le> x \<and> x \<le> second then {P} else {})"
    using assms(1) by (auto simp: loop_result_def)
  have "tags_at T x \<union> (if bound \<le> x \<and> x < b then {P} else {}) \<subseteq> tags_at T' x" for x
    using r(5) [of x] assms(3) [of x] by (cases "x < b1") (auto simp: not_less split: if_splits)
  moreover have "tags_at T' x \<subseteq> tags_at T x \<union> (if bound \<le> x \<and> x \<le> second then {P} else {})" for x
  proof -
    have "tags_at T' x \<subseteq> tags_at T x \<union> (if bound \<le> x \<and> x < b1 then {P} else {}) \<union> (if b1 \<le> x \<and> x \<le> second then {P} else {})"
      using r(6) [of x] assms(3) [of x] by simp
    moreover have "x \<le> second" if "x < b1" using that r(2,3) by simp
    moreover have "bound \<le> x" if "b1 \<le> x" using that assms(2) by simp
    ultimately show ?thesis by (auto split: if_splits)
  qed
  ultimately show ?thesis using r(1-4) assms(2) unfolding loop_result_def by (meson order_trans)
qed

lemma insert_loop_ok:
  assumes "loop_inv bound T low" "bound \<le> second" "part_tag part = P"
  shows "\<exists>T' b. insert_loop R second part bound T low = ok (T', b) \<and> loop_result second P bound T T' b"
  using assms(1,2)
proof (induction "3 * size (filter_mset (\<lambda>r. bound \<le> ar_last r) (mset T)) + (length T - low)" arbitrary: bound T low rule: less_induct)
  case less
  have T: "tree_ok T" and low: "low \<le> length T" using less.prems(1) by (auto simp: loop_inv_def)
  have stop: "loop_result second P bound T T bound" if "low < length T \<Longrightarrow> second < ar_first (T ! low)"
  proof -
    have "(ar_first s = bound \<and> ar_last s = second) \<or> ar_last s < bound \<or> second < ar_first s" if s: "s \<in> set T" for s
    proof (cases "low < length T")
      case True
      let ?p = "\<lparr>ar_first = bound, ar_last = second, ar_a = bound, ar_b = second, ar_subsort = ar_subsort s, ar_value = 0\<rparr>"
      have "apart ?p s" using gap_apart [OF less.prems(1) True _ s, of ?p] \<open>_ \<Longrightarrow> second < _\<close> [OF True] less.prems(2) by simp
      then show ?thesis by (auto simp: apart_def)
    next
      case False
      then show ?thesis using s less.prems(1) low by (auto simp: loop_inv_def in_set_conv_nth)
    qed
    then show ?thesis using T less.prems(2) by (auto simp: loop_result_def)
  qed
  consider "low = length T" | "low < length T" "second < ar_first (T ! low)" | "low < length T" "ar_first (T ! low) \<le> second" "ar_last (T ! low) < bound"
    | "low < length T" "ar_first (T ! low) \<le> second" "bound \<le> ar_last (T ! low)" using low by (meson le_neq_implies_less not_le)
  then show ?case
  proof cases
    case 1
    then show ?thesis using stop by (subst insert_loop.simps) simp
  next
    case 2
    then show ?thesis using stop by (subst insert_loop.simps) (simp add: idx_def not_le)
  next
    case 3
    have "loop_inv bound T (low + 1)" using less.prems(1) 3 by (auto simp: loop_inv_def less_Suc_eq)
    then have "\<exists>T' b. insert_loop R second part bound T (low + 1) = ok (T', b) \<and> loop_result second P bound T T' b"
      using 3 less.prems(2) by (intro less.hyps) auto
    then show ?thesis using 3 by (subst insert_loop.simps) (simp add: idx_def not_le leD)
  next
    case 4
    let ?c = "T ! low"
    obtain T1 low1 where g:
      "(if bound < ar_first ?c then
          run_bind (insert_hint T low (part\<lparr>ar_first := bound, ar_last := minus_one R (ar_first ?c)\<rparr>)) (\<lambda>(T, pos).
          let low = (if pos \<le> low then low + 1 else low) in run_bind (idx T low) (\<lambda>cur. ok (T, low, ar_first cur)))
        else ok (T, low, bound)) = ok (T1, low1, ar_first ?c)"
      "loop_inv (ar_first ?c) T1 low1" "low1 < length T1" "T1 ! low1 = ?c" "bound \<le> ar_first ?c"
      "\<And>x. tags_at T1 x = tags_at T x \<union> (if bound \<le> x \<and> x < ar_first ?c then {P} else {})"
      "\<And>z. ar_first ?c \<le> z \<Longrightarrow> filter_mset (\<lambda>r. z \<le> ar_last r) (mset T1) = filter_mset (\<lambda>r. z \<le> ar_last r) (mset T)"
      "length T1 - low1 \<le> length T - low + 1"
      using gap_step [OF less.prems(1) 4(1,3) assms(3)] by blast
    have T1: "tree_ok T1" "?c \<in> set T1" using g(2,3,4) nth_mem [OF g(3)] by (auto simp: loop_inv_def)
    have cc: "ar_first ?c \<le> ar_last ?c" using tree_ok_proper [OF T1] .
    have code: "insert_loop R second part bound T low =
        (if ar_last ?c \<le> second then
           run_bind (insert_hint T1 low1 (part\<lparr>ar_first := ar_first ?c, ar_last := ar_last ?c\<rparr>)) (\<lambda>r.
           let T = fst r; low = (if snd r \<le> low1 then low1 + 1 else low1) in
           run_bind (idx T low) (\<lambda>cur. if ar_last cur = second then ok (T, ar_first ?c)
             else insert_loop R second part (plus_one R (ar_last cur)) T (low + 1)))
         else run_bind (unzip R T1 second low1) (\<lambda>(T, _). ok (T, ar_first ?c)))"
      using 4 g(3,4) by (subst insert_loop.simps) (simp add: idx_def g(1) not_le leD Let_def, simp cong: if_cong)
    have "\<exists>T' b. insert_loop R second part bound T low = ok (T', b) \<and> loop_result second P (ar_first ?c) T1 T' b"
    proof (cases "ar_last ?c \<le> second")
      case True
      let ?p = "part\<lparr>ar_first := ar_first ?c, ar_last := ar_last ?c\<rparr>"
      have pp: "ar_first ?p \<le> ar_last ?p" using cc by simp
      have ap: "apart ?p s" if "s \<in> set T1" for s using tree_ok_apart [OF T1 that] by (simp add: apart_def)
      note step = hint_step [OF T1(1) g(3) pp ap]
      obtain T2 pos low2 where h: "insert_hint T1 low1 ?p = ok (T2, pos)" "low2 = (if pos \<le> low1 then low1 + 1 else low1)"
        "T2 ! low2 = T1 ! low1" "low2 < length T2" "tree_ok T2" "mset T2 = add_mset ?p (mset T1)" "length T2 - low2 \<le> length T1 - low1 + 1"
        "\<And>x. tags_at T2 x = tags_at T1 x \<union> (if part_covers ?p x then {part_tag ?p} else {})"
        by (rule step, assumption, rule that)
      have h3: "T2 ! low2 = ?c" using h(3) g(4) by simp
      have tags: "tags_at T2 x = tags_at T1 x \<union> (if ar_first ?c \<le> x \<and> x \<le> ar_last ?c then {P} else {})" for x
        using h(8) [of x] assms(3) by (simp add: part_covers_def part_tag_def)
      have c2: "?c \<in> set T2" using h3 h(4) nth_mem by metis
      have piece: "(ar_first s = ar_first ?c \<and> ar_last s = ar_last ?c) \<or> ar_last s < ar_first ?c \<or> ar_last ?c < ar_first s" if "s \<in> set T2" for s
        using tree_ok_apart [OF h(5) that c2] by (auto simp: apart_def)
      show ?thesis
      proof (cases "ar_last ?c = second")
        case eq: True
        have "insert_loop R second part bound T low = ok (T2, ar_first ?c)" using code eq h(1,2,4) h3 by (simp add: Let_def idx_def)
        moreover have "loop_result second P (ar_first ?c) T1 T2 (ar_first ?c)"
          using h(5) piece eq tags cc by (auto simp: loop_result_def)
        ultimately show ?thesis by blast
      next
        case False
        then have lt: "ar_last ?c < second" using True by simp
        let ?b = "plus_one R (ar_last ?c)"
        have pl: "?b \<le> z \<longleftrightarrow> ar_last ?c < z" for z using plus_le [OF lt] .
        have lp: "ar_last ?c < ?b" using less_plus [OF lt] .
        have "ar_last (T2 ! k) < ?b" if "k < low2 + 1" for k
          using tree_ok_last [OF h(5), of k low2] that h3 h(4) lp by (simp add: le_less_trans)
        moreover have "ar_last r < ?b \<or> ?b \<le> ar_first r" if "r \<in> set T2" for r
        proof (cases "ar_last ?c < ar_first r")
          case False
          then have "ar_last r \<le> ar_last ?c" using piece [OF that] cc by auto
          then show ?thesis using lp by (simp add: le_less_trans)
        qed (simp add: pl)
        ultimately have inv2: "loop_inv ?b T2 (low2 + 1)" using h(4,5) by (simp add: loop_inv_def)
        have "size (filter_mset (\<lambda>r. ?b \<le> ar_last r) (mset T2)) < size (filter_mset (\<lambda>r. bound \<le> ar_last r) (mset T))"
        proof -
          have "filter_mset (\<lambda>r. ?b \<le> ar_last r) (mset T2) = filter_mset (\<lambda>r. ?b \<le> ar_last r) (mset T1)" using h(6) lp by simp
          also have "\<dots> = filter_mset (\<lambda>r. ?b \<le> ar_last r) (mset T)" using g(7) [of ?b] cc lp by simp
          finally have e: "filter_mset (\<lambda>r. ?b \<le> ar_last r) (mset T2) = filter_mset (\<lambda>r. ?b \<le> ar_last r) (mset T)" .
          have "bound \<le> ar_last r" if "?b \<le> ar_last r" for r :: "('l, 's) addr_range" using that 4(3) lp by (meson less_imp_le order_trans)
          then show ?thesis unfolding e using 4(1,3) lp by (intro size_filter_less [of _ _ ?c]) auto
        qed
        then have dec: "3 * size (filter_mset (\<lambda>r. ?b \<le> ar_last r) (mset T2)) + (length T2 - (low2 + 1)) <
            3 * size (filter_mset (\<lambda>r. bound \<le> ar_last r) (mset T)) + (length T - low)"
          using g(8) h(4,7) by linarith
        obtain T' b where r: "insert_loop R second part ?b T2 (low2 + 1) = ok (T', b)" "loop_result second P ?b T2 T' b"
          using less.hyps [OF dec inv2] pl lt by auto
        have "loop_result second P (ar_first ?c) T1 T' b"
        proof (rule loop_result_extend [OF r(2)])
          show "ar_first ?c \<le> ?b" using cc lp by simp
          show "tags_at T2 x = tags_at T1 x \<union> (if ar_first ?c \<le> x \<and> x < ?b then {P} else {})" for x
            using tags [of x] pl [of x] by (simp add: not_le [symmetric] not_less)
        qed
        moreover have "insert_loop R second part bound T low = ok (T', b)" using code True False h(1,2,4) h3 r(1) by (simp add: Let_def idx_def)
        ultimately show ?thesis by blast
      qed
    next
      case False
      then have lt: "second < ar_last ?c" by simp
      have u1: "low1 < length T1" "ar_first (T1 ! low1) \<le> second" "second < ar_last (T1 ! low1)" using g(3,4) 4(2) lt by simp_all
      have "ar_last (T1 ! k) \<le> second" if "k < low1" for k using g(2) that 4(2) by (auto simp: loop_inv_def)
      note u = unzip_ok [OF T1(1) u1 this]
      show ?thesis
      proof (rule u, assumption)
        fix A D assume ad: "unzip R T1 second low1 = ok (A @ D, length A - low1)" "tree_ok (A @ D)" "\<And>x. tags_at (A @ D) x = tags_at T1 x"
          "\<And>r. r \<in> set A \<Longrightarrow> ar_last r \<le> second" "\<And>r. r \<in> set D \<Longrightarrow> second < ar_first r"
          "\<And>r. r \<in> set A \<Longrightarrow> r \<in> set (take low1 T1) \<or> (ar_first r = ar_first (T1 ! low1) \<and> ar_last r = second)"
        have "ar_last r < ar_first ?c" if "r \<in> set (take low1 T1)" for r using that g(2) by (auto simp: loop_inv_def in_set_conv_nth)
        then have "(ar_first r = ar_first ?c \<and> ar_last r = second) \<or> ar_last r < ar_first ?c \<or> second < ar_first r" if "r \<in> set (A @ D)" for r
          using that ad(5,6) [of r] g(4) by (metis Un_iff set_append)
        then have "loop_result second P (ar_first ?c) T1 (A @ D) (ar_first ?c)"
          using ad(2,3) 4(2) by (auto simp: loop_result_def)
        moreover have "insert_loop R second part bound T low = ok (A @ D, ar_first ?c)" using code False ad(1) by simp
        ultimately show "\<exists>T' b. insert_loop R second part bound T low = ok (T', b) \<and> loop_result second P (ar_first ?c) T1 T' b" by blast
      qed
    qed
    then show ?thesis using loop_result_extend [OF _ g(5,6)] by blast
  qed
qed

lemma insert_parts_ok:
  assumes "loop_inv bound T low" "bound \<le> second" "part_tag part = P"
  obtains T' where "insert_parts R bound second part T low = ok T'" "tree_ok T'"
    "\<And>x. tags_at T' x = tags_at T x \<union> (if bound \<le> x \<and> x \<le> second then {P} else {})"
proof -
  obtain T1 b where l: "insert_loop R second part bound T low = ok (T1, b)" "loop_result second P bound T T1 b"
    using insert_loop_ok [OF assms] by blast
  have r: "tree_ok T1" "bound \<le> b" "b \<le> second" "\<And>s. s \<in> set T1 \<Longrightarrow> (ar_first s = b \<and> ar_last s = second) \<or> ar_last s < b \<or> second < ar_first s"
    "\<And>x. tags_at T x \<union> (if bound \<le> x \<and> x < b then {P} else {}) \<subseteq> tags_at T1 x"
    "\<And>x. tags_at T1 x \<subseteq> tags_at T x \<union> (if bound \<le> x \<and> x \<le> second then {P} else {})"
    using l(2) by (auto simp: loop_result_def)
  let ?p = "part\<lparr>ar_first := b, ar_last := second\<rparr>"
  have s: "sorted (map ar_key T1)" using r(1) by (simp add: tree_ok_def)
  have ap: "apart ?p s" if "s \<in> set T1" for s using r(4) [OF that] by (auto simp: apart_def)
  note plain = insert_plain_ok [OF s, of ?p]
  obtain pos where p: "insert_plain T1 ?p = ok (take pos T1 @ ?p # drop pos T1, pos)" "sorted (map ar_key (take pos T1 @ ?p # drop pos T1))"
    by (rule plain, rule that)
  let ?T = "take pos T1 @ ?p # drop pos T1"
  have pp: "ar_first ?p \<le> ar_last ?p" using r(3) by simp
  note i = insert_part_ok [OF r(1) p(2) pp ap]
  have "tags_at ?T x = tags_at T x \<union> (if bound \<le> x \<and> x \<le> second then {P} else {})" for x
  proof -
    have e: "tags_at ?T x = tags_at T1 x \<union> (if b \<le> x \<and> x \<le> second then {P} else {})"
      using i(2) [of x] assms(3) by (simp add: part_covers_def part_tag_def)
    have "x < b \<Longrightarrow> x \<le> second" "b \<le> x \<Longrightarrow> bound \<le> x" using r(2,3) by auto
    then show ?thesis unfolding e using r(5) [of x] r(6) [of x] by (cases "x < b") (auto simp: not_less split: if_splits)
  qed
  moreover have "insert_parts R bound second part T low = ok ?T" using l(1) p(1) r(3) by (simp add: insert_parts_def)
  ultimately show ?thesis using that [of ?T] i(1) by blast
qed

end

end
