(* ===== verification/Range_Map_Find.thy ===== *)
theory Range_Map_Find
  imports Range_Map_Insert
begin

text \<open>
  A range map as a set of ranges: what an insertion adds and what a query finds. The parts, the arena of the records
  and the list that links them are kept in step.
\<close>

type_synonym ('l, 's) tag = "'l \<times> 'l \<times> 's \<times> arena_id"

definition tag_covers :: "('l::linorder, 's) tag \<Rightarrow> 'l \<Rightarrow> bool" where
  "tag_covers t x \<longleftrightarrow> fst t \<le> x \<and> x \<le> fst (snd t)"

definition tag_value :: "('l, 's) tag \<Rightarrow> arena_id" where
  "tag_value t = snd (snd (snd t))"

definition tag_subsort :: "('l, 's) tag \<Rightarrow> 's" where
  "tag_subsort t = fst (snd (snd t))"

definition sub_in_bounds :: "('l, 's::linorder, 'i, 'r) range_ops \<Rightarrow> 's \<Rightarrow> bool" where
  "sub_in_bounds R s \<longleftrightarrow> from_bool R False \<le> s \<and> s \<le> from_bool R True"

text \<open>The records the map holds, and that one of them is the record of a range.\<close>

definition rm_data :: "('l, 's, 'r) range_map \<Rightarrow> arena_id \<Rightarrow> 'r option" where
  "rm_data m i = map_option an_payload (objects (rm_records m) i)"

definition holds_record :: "('l, 's, 'i, 'r) range_ops \<Rightarrow> (arena_id \<Rightarrow> 'r option) \<Rightarrow> ('l, 's) tag \<Rightarrow> bool" where
  "holds_record R D t \<longleftrightarrow> (\<exists>rc. D (tag_value t) = Some rc \<and> get_first R rc = fst t \<and> get_last R rc = fst (snd t))"

text \<open>The map holds the ranges \<open>S\<close>; its records are linked in the order \<open>xs\<close>.\<close>

definition rm_rep :: "('l::linorder, 's::linorder, 'i, 'r) range_ops \<Rightarrow> ('l, 's, 'r) range_map \<Rightarrow> ('l, 's) tag set \<Rightarrow> arena_id list \<Rightarrow> bool" where
  "rm_rep R m S xs \<longleftrightarrow> tree_ok (rm_tree m) \<and> (\<forall>x. tags_at (rm_tree m) x = {t \<in> S. tag_covers t x}) \<and>
     (\<forall>t\<in>S. sub_in_bounds R (tag_subsort t) \<and> fst t \<le> fst (snd t) \<and> holds_record R (rm_data m) t) \<and>
     tag_value ` S = set xs \<and> inj_on tag_value S \<and> arena_ok (rm_records m) \<and>
     list_rep array_links (rm_records m) (rm_record m) xs \<and> il_slot (rm_record m) = 0"

lemma rm_rep_new: "rm_rep R rm_new {} []"
  by (simp add: rm_rep_def rm_new_def tree_ok_def tags_at_def list_rep_new list_new_def [of 0] list_rep_def
      arena_ok_def arena_new_def)

lemma part_in_tags: "tree_ok T \<Longrightarrow> r \<in> set T \<Longrightarrow> part_tag r \<in> tags_at T (ar_first r)"
  using tree_ok_proper by (auto simp: tags_at_def part_covers_def)

lemma rep_part:
  assumes "tree_ok T" "\<And>x. tags_at T x = {t \<in> S. tag_covers t x}" "r \<in> set T"
  shows "part_tag r \<in> S"
  using part_in_tags [OF assms(1,3)] assms(2) by auto

section \<open>Queries\<close>

text \<open>The parts a query returns are those over the point.\<close>

lemma find_parts:
  assumes "tree_ok T" "\<And>r. r \<in> set T \<Longrightarrow> sub_in_bounds R (ar_subsort r)" "rm_find R T x = (i, j)"
  shows "i \<le> j" "j \<le> length T" "\<And>k. k < length T \<Longrightarrow> (i \<le> k \<and> k < j) \<longleftrightarrow> part_covers (T ! k) x"
proof -
  have s: "sorted (map ar_key T)" using assms(1) by (simp add: tree_ok_def)
  let ?low = "rm_lower_bound T x (from_bool R False)"
  note l = lower_bound_ok [OF s, where l = x and s = "from_bool R False"]
  have before: "ar_last (T ! k) < x" if "k < ?low" for k
  proof -
    have "sub_in_bounds R (ar_subsort (T ! k))" using that l(3) assms(2) by simp
    then show ?thesis using l(1) [OF that] by (auto simp: ar_key_def less_prod_def' sub_in_bounds_def)
  qed
  have after: "x \<le> ar_last (T ! k)" if "?low \<le> k" "k < length T" for k
    using l(2) [OF that] by (auto simp: ar_key_def less_eq_prod_def)
  have main: "i \<le> j \<and> j \<le> length T \<and> (\<forall>k<length T. (i \<le> k \<and> k < j) \<longleftrightarrow> part_covers (T ! k) x)"
  proof (cases "?low = length T \<or> x < ar_first (T ! ?low)")
    case True
    then have ij: "i = ?low" "j = ?low" using assms(3) by (auto simp: rm_find_def Let_def)
    have "\<not> part_covers (T ! k) x" if k: "k < length T" for k
    proof (cases "k < ?low")
      case False
      then have low: "?low < length T" "x < ar_first (T ! ?low)" using True k by auto
      have "ar_last (T ! ?low) \<le> ar_last (T ! k)" using tree_ok_last [OF assms(1), of ?low k] False k by simp
      moreover have "apart (T ! k) (T ! ?low)" using tree_ok_apart [OF assms(1)] k low(1) by simp
      moreover have "ar_first (T ! ?low) \<le> ar_last (T ! ?low)" using tree_ok_proper [OF assms(1)] low(1) by simp
      ultimately show ?thesis using low(2) by (auto simp: apart_def part_covers_def)
    qed (use before in \<open>auto simp: part_covers_def not_le\<close>)
    then show ?thesis using ij l(3) by auto
  next
    case False
    let ?c = "T ! ?low"
    have low: "?low < length T" "ar_first ?c \<le> x" using False l(3) by auto
    have c: "part_covers ?c x" using after [OF order_refl low(1)] low(2) by (simp add: part_covers_def)
    let ?up = "rm_upper_bound T (ar_last ?c) (from_bool R True)"
    note u = upper_bound_ok [OF s, where l = "ar_last ?c" and s = "from_bool R True"]
    have ij: "i = ?low" "j = ?up" using assms(3) False by (auto simp: rm_find_def Let_def)
    have up: "k < ?up \<longleftrightarrow> ar_last (T ! k) \<le> ar_last ?c" if "k < length T" for k
    proof -
      have "sub_in_bounds R (ar_subsort (T ! k))" using that assms(2) by simp
      then show ?thesis using u(1) [of k] u(2) [of k] that
        by (cases "k < ?up") (auto simp: ar_key_def less_eq_prod_def less_prod_def' sub_in_bounds_def not_less)
    qed
    have "(?low \<le> k \<and> k < ?up) \<longleftrightarrow> part_covers (T ! k) x" if k: "k < length T" for k
    proof
      assume a: "?low \<le> k \<and> k < ?up"
      then have "ar_last (T ! k) = ar_last ?c" using up [OF k] tree_ok_last [OF assms(1), of ?low k] k by simp
      moreover have "apart (T ! k) ?c" using tree_ok_apart [OF assms(1)] k low(1) by simp
      moreover have "ar_first (T ! k) \<le> ar_last (T ! k)" "ar_first ?c \<le> ar_last ?c" using tree_ok_proper [OF assms(1)] k low(1) by simp_all
      ultimately show "part_covers (T ! k) x" using c by (auto simp: apart_def part_covers_def)
    next
      assume p: "part_covers (T ! k) x"
      then have "ar_last (T ! k) = ar_last ?c" using tree_ok_same(2) [OF assms(1) _ _ p c] k low(1) by simp
      then show "?low \<le> k \<and> k < ?up" using up [OF k] before [of k] p by (cases "k < ?low") (auto simp: part_covers_def)
    qed
    moreover have "?low \<le> ?up" using up [OF low(1)] by simp
    ultimately show ?thesis using ij u(3) by auto
  qed
  then show "i \<le> j" "j \<le> length T" "\<And>k. k < length T \<Longrightarrow> (i \<le> k \<and> k < j) \<longleftrightarrow> part_covers (T ! k) x" by auto
qed

text \<open>The tags of the parts a query at a point returns.\<close>

definition found :: "('l::linorder, 's::linorder, 'i, 'r) range_ops \<Rightarrow> ('l, 's, 'r) range_map \<Rightarrow> 'l \<Rightarrow> ('l, 's) tag list" where
  "found R m x = (let (i, j) = rm_find R (rm_tree m) x in map (\<lambda>k. part_tag (rm_tree m ! k)) [i..<j])"

lemma found_rep:
  assumes "rm_rep R m S xs"
  shows "set (found R m x) = {t \<in> S. tag_covers t x}"
proof -
  let ?T = "rm_tree m"
  obtain i j where ij: "rm_find R ?T x = (i, j)" by fastforce
  have T: "tree_ok ?T" "\<And>x. tags_at ?T x = {t \<in> S. tag_covers t x}" using assms by (auto simp: rm_rep_def)
  have "sub_in_bounds R (ar_subsort r)" if "r \<in> set ?T" for r
    using rep_part [OF T that] assms by (auto simp: rm_rep_def part_tag_def tag_subsort_def)
  note f = find_parts [OF T(1) this ij]
  have "set (found R m x) = part_tag ` ((!) ?T) ` {i..<j}" by (auto simp: found_def ij)
  also have "((!) ?T) ` {i..<j} = {r \<in> set ?T. part_covers r x}"
  proof (intro set_eqI iffI)
    fix r assume "r \<in> ((!) ?T) ` {i..<j}"
    then obtain k where k: "i \<le> k" "k < j" "r = ?T ! k" by auto
    then have "k < length ?T" using f(2) by simp
    then show "r \<in> {r \<in> set ?T. part_covers r x}" using k f(3) [of k] by simp
  next
    fix r assume "r \<in> {r \<in> set ?T. part_covers r x}"
    then obtain k where "k < length ?T" "r = ?T ! k" "part_covers (?T ! k) x" by (auto simp: in_set_conv_nth)
    then show "r \<in> ((!) ?T) ` {i..<j}" using f(3) [of k] by auto
  qed
  also have "part_tag ` {r \<in> set ?T. part_covers r x} = {t \<in> S. tag_covers t x}" using T(2) by (simp add: tags_at_def)
  finally show ?thesis .
qed

section \<open>Insertion\<close>

text \<open>A new object has empty links, and the lists of the arena do not see it.\<close>

lemma alloc_view:
  assumes "length (slots recs) < 2 ^ 32" "arena_alloc recs \<lparr>an_payload = p, an_links = [default_links]\<rparr> = ok (recs', i)"
  shows "view array_links recs' 0 i = Some default_links" "y \<noteq> i \<Longrightarrow> view array_links recs' slot y = view array_links recs slot y"
    "view array_links recs slot i = None" "arena_get recs' i = ok \<lparr>an_payload = p, an_links = [default_links]\<rparr>"
  using alloc_ok [OF assms] by (simp_all add: view_def array_links_def idx_def ok_def arena_get_some)

lemma list_rep_alloc:
  assumes "list_rep array_links recs l xs" "length (slots recs) < 2 ^ 32"
    "arena_alloc recs \<lparr>an_payload = p, an_links = [default_links]\<rparr> = ok (recs', i)"
  shows "i \<notin> set xs" "list_rep array_links recs' l xs"
proof -
  note v = alloc_view [OF assms(2,3)]
  show i: "i \<notin> set xs" using assms(1) v(3) chain_dom unfolding list_rep_def by blast
  show "list_rep array_links recs' l xs"
  proof (rule list_rep_frame [OF assms(1)])
    fix x assume "x \<in> set xs"
    then have "x \<noteq> i" using i by blast
    then show "view array_links recs' (il_slot l) x = view array_links recs (il_slot l) x" by (rule v(2))
  qed
qed

context range_line
begin

lemma rm_insert_ok:
  assumes "rm_rep R m S xs" "first_2 \<le> second" "sub_in_bounds R (get_subsort R (new_record R data first_2 second))"
    "length (slots (rm_records m)) < 2 ^ 32"
  obtains m' i ys zs where "rm_insert R m data first_2 second = ok (m', i)" "i \<notin> set xs" "xs = ys @ zs"
    "rm_rep R m' (insert (first_2, second, get_subsort R (new_record R data first_2 second), i) S) (ys @ i # zs)"
    "length (slots (rm_records m')) = Suc (length (slots (rm_records m)))" "rm_data m' = (rm_data m)(i \<mapsto> new_record R data first_2 second)"
proof -
  let ?rec = "new_record R data first_2 second"
  let ?node = "\<lparr>an_payload = ?rec, an_links = [default_links]\<rparr>"
  have T: "tree_ok (rm_tree m)" "\<And>x. tags_at (rm_tree m) x = {t \<in> S. tag_covers t x}" and S: "\<And>t. t \<in> S \<Longrightarrow> sub_in_bounds R (tag_subsort t)"
    and vals: "tag_value ` S = set xs" "inj_on tag_value S" "arena_ok (rm_records m)"
    and recs: "\<And>t. t \<in> S \<Longrightarrow> fst t \<le> fst (snd t) \<and> holds_record R (rm_data m) t" and lr: "list_rep array_links (rm_records m) (rm_record m) xs" "il_slot (rm_record m) = 0"
    using assms(1) by (auto simp: rm_rep_def)
  have sub: "from_bool R False \<le> ar_subsort r" if "r \<in> set (rm_tree m)" for r
    using S [OF rep_part [OF T that]] by (simp add: part_tag_def tag_subsort_def sub_in_bounds_def)
  note cut = cut_low_ok [OF T(1) sub, of first_2]
  obtain A D where c: "cut_low R (rm_tree m) first_2 = ok (A @ D, length A)" "tree_ok (A @ D)"
    "\<And>x. tags_at (A @ D) x = tags_at (rm_tree m) x" "\<And>r. r \<in> set A \<Longrightarrow> ar_last r < first_2" "\<And>r. r \<in> set D \<Longrightarrow> first_2 \<le> ar_first r"
    by (rule cut, assumption, rule that)
  obtain recs i where a: "arena_alloc (rm_records m) ?node = ok (recs, i)" using alloc_total [OF assms(4)] by blast
  note v = alloc_view [OF assms(4) a] and l = list_rep_alloc [OF lr(1) assms(4) a]
  let ?spot = "rm_lower_bound (A @ D) second (get_subsort R ?rec)"
  let ?pos = "if ?spot = length (A @ D) then None else Some (ar_value ((A @ D) ! ?spot))"
  obtain ys zs where yz: "xs = ys @ zs" "?pos = first_or zs None"
  proof (cases "?spot = length (A @ D)")
    case True
    then show ?thesis using that [of xs "[]"] by simp
  next
    case False
    have "sorted (map ar_key (A @ D))" using c(2) by (simp add: tree_ok_def)
    then have "?spot < length (A @ D)" using lower_bound_ok(3) False le_neq_implies_less by blast
    then have "part_tag ((A @ D) ! ?spot) \<in> S" using rep_part [OF c(2), of S] c(3) T(2) nth_mem by metis
    then have "ar_value ((A @ D) ! ?spot) \<in> set xs" using vals(1) by (force simp: part_tag_def tag_value_def)
    then obtain ys zs where "xs = ys @ ar_value ((A @ D) ! ?spot) # zs" by (meson split_list)
    then show ?thesis using that False by auto
  qed
  have lr': "list_rep array_links recs (rm_record m) (ys @ zs)" "i \<notin> set (ys @ zs)" "view array_links recs (il_slot (rm_record m)) i = Some default_links"
    using l yz(1) v(1) lr(2) by simp_all
  note ins = array.insert_ok [OF lr']
  obtain l' recs' where li: "list_insert array_links (rm_record m) recs (first_or zs None) i = ok (l', recs')"
    "list_rep array_links recs' l' (ys @ i # zs)" "il_slot l' = il_slot (rm_record m)" "same_objects an_payload recs recs'"
    by (rule ins, rule that)
  let ?part = "\<lparr>ar_first = second, ar_last = second, ar_a = first_2, ar_b = second, ar_subsort = get_subsort R ?rec, ar_value = i\<rparr>"
  have inv: "loop_inv first_2 (A @ D) (length A)"
    using c(2,4,5) by (auto simp: loop_inv_def nth_append)
  note parts = insert_parts_ok [OF inv assms(2) refl, of ?part]
  obtain T' where p: "insert_parts R first_2 second ?part (A @ D) (length A) = ok T'" "tree_ok T'"
    "\<And>x. tags_at T' x = tags_at (A @ D) x \<union> (if first_2 \<le> x \<and> x \<le> second then {part_tag ?part} else {})"
    by (rule parts, rule that)
  let ?m = "\<lparr>rm_tree = T', rm_records = recs', rm_record = l'\<rparr>"
  let ?t = "(first_2, second, get_subsort R ?rec, i)"
  have run: "rm_insert R m data first_2 second = ok (?m, i)"
    by (simp only: rm_insert_def c(1) run_bind_simps prod.case a v(4) Let_def array_node.simps yz(2) li(1) p(1))
  have "tags_at T' x = {t \<in> insert ?t S. tag_covers t x}" for x
    using p(3) [of x] c(3) T(2) by (auto simp: part_tag_def tag_covers_def)
  moreover have data: "rm_data ?m = (rm_data m)(i \<mapsto> ?rec)"
  proof
    fix k show "rm_data ?m k = ((rm_data m)(i \<mapsto> ?rec)) k"
      using same_objects_payload [OF li(4), of k] alloc_ok(3) [OF assms(4) a] by (auto simp: rm_data_def)
  qed
  moreover have "holds_record R (rm_data ?m) t" if "t \<in> S" for t
  proof -
    have "tag_value t \<noteq> i" using that vals(1) l(1) by blast
    then show ?thesis using recs [OF that] data by (simp add: holds_record_def)
  qed
  moreover have "holds_record R (rm_data ?m) ?t" using data by (simp add: holds_record_def tag_value_def first_new last_new)
  moreover have "i \<notin> tag_value ` S" using l(1) vals(1) by simp
  then have "inj_on tag_value (insert ?t S)" using vals(2) by (auto simp: tag_value_def)
  moreover have "arena_ok recs'" using alloc_ok(5) [OF assms(4) a vals(3)] li(4) by (simp add: same_objects_def)
  ultimately have "rm_rep R ?m (insert ?t S) (ys @ i # zs)"
    using p(2) li(2,3) lr(2) S recs vals(1) yz(1) assms(2,3) by (auto simp: rm_rep_def tag_value_def tag_subsort_def)
  moreover have "length (slots recs') = Suc (length (slots (rm_records m)))"
    using alloc_ok(4) [OF assms(4) a] li(4) by (simp add: same_objects_def)
  ultimately show ?thesis using that [of ?m i ys zs] l(1) yz(1) run data by simp
qed

end

end
