(* ===== verification/Symbol_Ranges.thy ===== *)
theory Symbol_Ranges
  imports Range_Map_Find Address
begin

text \<open>
  The range maps of the symbol database (src/src/database.rs): the second key of a symbol entry, the records of the map
  and that sequences of insertions are the ranges a query finds.
\<close>

section \<open>The second key\<close>

datatype entry_subsort = EntrySubsort (useindex: i32) (useoffset: u64)

text \<open>The derived order compares the fields one after the other.\<close>

instantiation entry_subsort :: linorder
begin

definition less_entry_subsort :: "entry_subsort \<Rightarrow> entry_subsort \<Rightarrow> bool" where
  "less_entry_subsort s t \<longleftrightarrow> useindex s < useindex t \<or> (useindex s = useindex t \<and> useoffset s < useoffset t)"

definition less_eq_entry_subsort :: "entry_subsort \<Rightarrow> entry_subsort \<Rightarrow> bool" where
  "less_eq_entry_subsort s t \<longleftrightarrow> useindex s < useindex t \<or> (useindex s = useindex t \<and> useoffset s \<le> useoffset t)"

instance
  by standard (auto simp: less_entry_subsort_def less_eq_entry_subsort_def entry_subsort.expand)

end

definition subsort_from_addr :: "address \<Rightarrow> entry_subsort run" where
  "subsort_from_addr a = (case ad_space a of None \<Rightarrow> panic | Some spc \<Rightarrow> ok (EntrySubsort (as_index spc) (ad_offset a)))"

definition new_subsort :: entry_subsort where
  "new_subsort = EntrySubsort 0 0"

definition subsort_from_bool :: "bool \<Rightarrow> entry_subsort" where
  "subsort_from_bool val = (if val then EntrySubsort 0xffff 0 else EntrySubsort 0 0)"

section \<open>Records\<close>

record symbol_range_init =
  si_entry :: arena_id
  si_subsort :: entry_subsort

record symbol_range =
  sr_first :: u64
  sr_last :: u64
  sr_entry :: arena_id
  sr_subsort :: entry_subsort

definition new_symbol_range :: "symbol_range_init \<Rightarrow> u64 \<Rightarrow> u64 \<Rightarrow> symbol_range" where
  "new_symbol_range init a b = \<lparr>sr_first = a, sr_last = b, sr_entry = si_entry init, sr_subsort = si_subsort init\<rparr>"

definition symbol_ranges :: "(u64, entry_subsort, symbol_range_init, symbol_range) range_ops" where
  "symbol_ranges = \<lparr>plus_one = \<lambda>x. x + 1, minus_one = \<lambda>x. x - 1, from_bool = subsort_from_bool,
     new_record = new_symbol_range, get_first = sr_first, get_last = sr_last, get_subsort = sr_subsort\<rparr>"

type_synonym entry_map = "(u64, entry_subsort, symbol_range) range_map"

lemma word_step:
  fixes x y z :: u64
  assumes "x < y"
  shows "x + 1 \<le> z \<longleftrightarrow> x < z" "z \<le> y - 1 \<longleftrightarrow> z < y"
proof -
  have b: "uint x < uint y" "uint y < 2 ^ 64" "0 \<le> uint x" using assms uint_lt2p [of y] by (simp_all add: word_less_def)
  have "uint (x + 1) = uint x + 1" using b by (simp add: uint_word_ariths mod_pos_pos_trivial)
  then show "x + 1 \<le> z \<longleftrightarrow> x < z" by (simp add: word_le_def word_less_def) linarith
  have "(uint y - 1) mod 2 ^ 64 = uint y - 1" using b by (intro mod_pos_pos_trivial) linarith+
  then have "uint (y - 1) = uint y - 1" by (simp add: uint_word_ariths)
  then show "z \<le> y - 1 \<longleftrightarrow> z < y" by (simp add: word_le_def word_less_def)
qed

interpretation symbols: range_line symbol_ranges
  by unfold_locales (auto simp: symbol_ranges_def new_symbol_range_def word_step)

section \<open>Sequences of insertions\<close>

type_synonym symbol_insert = "symbol_range_init \<times> u64 \<times> u64"

fun insert_all_ranges :: "entry_map \<Rightarrow> symbol_insert list \<Rightarrow> (entry_map \<times> arena_id list) run" where
  "insert_all_ranges m [] = ok (m, [])"
| "insert_all_ranges m ((data, a, b) # rest) =
     run_bind (rm_insert symbol_ranges m data a b) (\<lambda>(m, i).
     run_bind (insert_all_ranges m rest) (\<lambda>(m, is). ok (m, i # is)))"

definition insert_legal :: "symbol_insert \<Rightarrow> bool" where
  "insert_legal s \<longleftrightarrow> fst (snd s) \<le> snd (snd s) \<and> new_subsort \<le> si_subsort (fst s) \<and> si_subsort (fst s) \<le> subsort_from_bool True"

definition insert_tag :: "symbol_insert \<Rightarrow> arena_id \<Rightarrow> (u64, entry_subsort) tag" where
  "insert_tag s i = (fst (snd s), snd (snd s), si_subsort (fst s), i)"

definition insert_record :: "symbol_insert \<Rightarrow> symbol_range" where
  "insert_record s = new_symbol_range (fst s) (fst (snd s)) (snd (snd s))"

lemma image_pairs: "{t \<in> (\<lambda>(s, i). f s i) ` A. P t} = {f s i |s i. (s, i) \<in> A \<and> P (f s i)}"
  by force

lemma insert_all_rep:
  assumes "rm_rep symbol_ranges m S xs" "\<forall>s\<in>set ops. insert_legal s" "length (slots (rm_records m)) + length ops \<le> 2 ^ 32"
  shows "\<exists>m' is ys. insert_all_ranges m ops = ok (m', is) \<and> length is = length ops \<and> distinct is \<and> set is \<inter> set xs = {} \<and>
    set ys = set xs \<union> set is \<and> rm_rep symbol_ranges m' (S \<union> set (map2 insert_tag ops is)) ys \<and>
    rm_data m' = rm_data m ++ map_of (zip is (map insert_record ops))"
  using assms
proof (induction ops arbitrary: m S xs)
  case (Cons s ops)
  obtain data a b where s: "s = (data, a, b)" by (cases s)
  have sub: "get_subsort symbol_ranges (insert_record s) = si_subsort data" "new_record symbol_ranges data a b = insert_record s"
    by (simp_all add: symbol_ranges_def new_symbol_range_def insert_record_def s)
  have leg: "a \<le> b" "sub_in_bounds symbol_ranges (get_subsort symbol_ranges (new_record symbol_ranges data a b))"
    using Cons.prems(2) by (auto simp: s insert_legal_def sub_in_bounds_def symbol_ranges_def new_subsort_def subsort_from_bool_def new_symbol_range_def)
  have len: "length (slots (rm_records m)) < 2 ^ 32" using Cons.prems(3) by simp
  note ins = symbols.rm_insert_ok [OF Cons.prems(1) leg len]
  obtain m1 i ys zs where i: "rm_insert symbol_ranges m data a b = ok (m1, i)" "i \<notin> set xs" "xs = ys @ zs"
    "rm_rep symbol_ranges m1 (insert (insert_tag s i) S) (ys @ i # zs)"
    "length (slots (rm_records m1)) = Suc (length (slots (rm_records m)))" "rm_data m1 = (rm_data m)(i \<mapsto> insert_record s)"
  proof -
    have tag: "(a, b, get_subsort symbol_ranges (new_record symbol_ranges data a b), i) = insert_tag s i" for i
      unfolding sub by (simp add: insert_tag_def s)
    show ?thesis by (rule ins [unfolded tag, unfolded sub(2)], rule that)
  qed
  have "\<exists>m' is ws. insert_all_ranges m1 ops = ok (m', is) \<and> length is = length ops \<and> distinct is \<and> set is \<inter> set (ys @ i # zs) = {} \<and>
    set ws = set (ys @ i # zs) \<union> set is \<and> rm_rep symbol_ranges m' (insert (insert_tag s i) S \<union> set (map2 insert_tag ops is)) ws \<and>
    rm_data m' = rm_data m1 ++ map_of (zip is (map insert_record ops))"
    using Cons.prems i(5) by (intro Cons.IH [OF i(4)]) auto
  then obtain m' "is" ws where r: "insert_all_ranges m1 ops = ok (m', is)" "length is = length ops" "distinct is"
    "set is \<inter> set (ys @ i # zs) = {}" "set ws = set (ys @ i # zs) \<union> set is"
    "rm_rep symbol_ranges m' (insert (insert_tag s i) S \<union> set (map2 insert_tag ops is)) ws"
    "rm_data m' = rm_data m1 ++ map_of (zip is (map insert_record ops))" by blast
  have "insert_all_ranges m (s # ops) = ok (m', i # is)" by (simp add: s i(1) r(1))
  moreover have "distinct (i # is)" "set (i # is) \<inter> set xs = {}" "set ws = set xs \<union> set (i # is)" using r(3-5) i(2,3) by auto
  moreover have "rm_rep symbol_ranges m' (S \<union> set (map2 insert_tag (s # ops) (i # is))) ws" using r(6) by simp
  moreover have "rm_data m' = rm_data m ++ map_of (zip (i # is) (map insert_record (s # ops)))"
  proof -
    have "i \<notin> dom (map_of (zip is (map insert_record ops)))" using r(2,4) by (auto dest: set_zip_leftD)
    then show ?thesis unfolding r(7) i(6) by (simp add: map_add_upd_left)
  qed
  moreover have "length (i # is) = length (s # ops)" using r(2) by simp
  ultimately show ?case by blast
next
  case Nil
  then show ?case by (intro exI [of _ m] exI [of _ "[]"] exI [of _ xs]) simp
qed

text \<open>
  C3: symbol entries inserted into an empty map, in any order and with any overlaps, are what the map holds: every
  insertion returns an identifier of its own that gives back the entry and its range, and a query at an offset finds
  the entries whose range has the offset and no others.
\<close>

theorem range_map_finds_inserted:
  assumes "\<forall>s\<in>set ops. insert_legal s" "length ops \<le> 2 ^ 32"
  shows "\<exists>m is. insert_all_ranges rm_new ops = ok (m, is) \<and> length is = length ops \<and> distinct is \<and>
    (\<forall>x. set (found symbol_ranges m x) = {insert_tag s i |s i. (s, i) \<in> set (zip ops is) \<and> fst (snd s) \<le> x \<and> x \<le> snd (snd s)}) \<and>
    (\<forall>k < length ops. rm_get_record m (is ! k) = ok (insert_record (ops ! k)))"
proof -
  have no_slots: "length (slots (rm_records rm_new)) + length ops \<le> 2 ^ 32" using assms(2) by (simp add: rm_new_def arena_new_def)
  obtain m "is" xs where m: "insert_all_ranges rm_new ops = ok (m, is)" "length is = length ops" "distinct is"
    "rm_rep symbol_ranges m ({} \<union> set (map2 insert_tag ops is)) xs" "rm_data m = rm_data (rm_new :: entry_map) ++ map_of (zip is (map insert_record ops))"
    using insert_all_rep [OF rm_rep_new assms(1) no_slots] by blast
  have "set (found symbol_ranges m x) = {insert_tag s i |s i. (s, i) \<in> set (zip ops is) \<and> fst (snd s) \<le> x \<and> x \<le> snd (snd s)}" for x
  proof -
    have "set (found symbol_ranges m x) = {insert_tag s i |s i. (s, i) \<in> set (zip ops is) \<and> tag_covers (insert_tag s i) x}"
      unfolding found_rep [OF m(4), of x] by (simp only: Un_empty_left set_map image_pairs)
    then show ?thesis by (simp add: insert_tag_def tag_covers_def)
  qed
  moreover have "rm_get_record m (is ! k) = ok (insert_record (ops ! k))" if k: "k < length ops" for k
  proof -
    have "map_of (zip is (map insert_record ops)) (is ! k) = Some (insert_record (ops ! k))"
      using map_of_zip_nth [of "is" "map insert_record ops" k] m(2,3) k by simp
    then have "rm_data m (is ! k) = Some (insert_record (ops ! k))" unfolding m(5) by simp
    then show ?thesis by (auto simp: rm_data_def rm_get_record_def arena_get_some)
  qed
  ultimately show ?thesis using m(1-3) by blast
qed


theorem range_map_finds_inserted_witness:
  "\<exists>m is. insert_all_ranges rm_new [(\<lparr>si_entry = 7, si_subsort = new_subsort\<rparr>, 10, 19), (\<lparr>si_entry = 8, si_subsort = EntrySubsort 3 4\<rparr>, 15, 24)] = ok (m, is) \<and>
    set (found symbol_ranges m 17) = {(10, 19, new_subsort, is ! 0), (15, 24, EntrySubsort 3 4, is ! 1)} \<and>
    set (found symbol_ranges m 12) = {(10, 19, new_subsort, is ! 0)} \<and> set (found symbol_ranges m 25) = {}"
proof -
  let ?ops = "[(\<lparr>si_entry = 7, si_subsort = new_subsort\<rparr>, 10, 19), (\<lparr>si_entry = 8, si_subsort = EntrySubsort 3 4\<rparr>, 15, 24)]"
  have "\<forall>s\<in>set ?ops. insert_legal s" by (simp add: insert_legal_def new_subsort_def subsort_from_bool_def less_eq_entry_subsort_def)
  from range_map_finds_inserted [OF this] obtain m "is" where m: "insert_all_ranges rm_new ?ops = ok (m, is)" "length is = length ?ops"
    "\<And>x. set (found symbol_ranges m x) = {insert_tag s i |s i. (s, i) \<in> set (zip ?ops is) \<and> fst (snd s) \<le> x \<and> x \<le> snd (snd s)}" by auto
  obtain i j where ij: "is = [i, j]" using m(2) by (auto simp: length_Suc_conv)
  have "set (found symbol_ranges m 17) = {(10, 19, new_subsort, i), (15, 24, EntrySubsort 3 4, j)}"
    "set (found symbol_ranges m 12) = {(10, 19, new_subsort, i)}" "set (found symbol_ranges m 25) = {}"
    unfolding m(3) ij by (auto simp: insert_tag_def)
  then show ?thesis using m(1) ij by (intro exI [of _ m] exI [of _ "is"]) simp
qed

section \<open>Limits of the code\<close>

text \<open>
  A range that ends with an existing piece gets its last part twice: the loop stops at that piece without moving the
  bound, and the insertion behind the loop adds the part again. A query returns the record twice.
\<close>

lemma insert_repeats_last_part:
  "run_bind (insert_all_ranges rm_new [(\<lparr>si_entry = 0, si_subsort = new_subsort\<rparr>, 0, 9), (\<lparr>si_entry = 1, si_subsort = new_subsort\<rparr>, 0, 9)])
     (\<lambda>(m, is). ok (is, found symbol_ranges m 5)) = ok ([0, 1], [(0, 9, new_subsort, 1), (0, 9, new_subsort, 0), (0, 9, new_subsort, 1)])"
  by code_simp

text \<open>
  Removal looks at the first part behind the removed range only to see whether another range starts there. With a wide
  range of a lower second key in front, the pieces are joined all the same, and the range that starts there is
  found at offsets below its start.
\<close>

lemma erase_widens_neighbour:
  "run_bind (insert_all_ranges rm_new
       [(\<lparr>si_entry = 0, si_subsort = new_subsort\<rparr>, 0, 99), (\<lparr>si_entry = 1, si_subsort = EntrySubsort 3 0\<rparr>, 10, 19),
        (\<lparr>si_entry = 2, si_subsort = EntrySubsort 3 0\<rparr>, 20, 29)]) (\<lambda>(m, is).
     run_bind (rm_erase symbol_ranges m (is ! 1)) (\<lambda>m. ok (found symbol_ranges m 15)))
   = ok [(0, 99, new_subsort, 0), (20, 29, EntrySubsort 3 0, 2)]"
  by code_simp

end
