(* ===== verification/Std_Sort.thy ===== *)
theory Std_Sort
  imports Run Bits "HOL-Library.Multiset" "HOL-Library.Signed_Division"
begin

text \<open>
  The sorting routines of src/src/stdsort.rs, which follow the C++ library step by step: an introspective sort that
  partitions around a median of three, falls back to heap sort at its depth limit and ends with an insertion
  sort. A slice is a list, \<open>lt\<close> the comparison; an index out of range, a swap or a rotation out of
  range and a subtraction below 0 panic. Indices of type \<open>isize\<close> are integers and divide by truncation.
\<close>

section \<open>Slices\<close>

definition usub :: "nat \<Rightarrow> nat \<Rightarrow> nat run" where
  "usub a b = (if b \<le> a then ok (a - b) else panic)"

definition swap_at :: "'a list \<Rightarrow> nat \<Rightarrow> nat \<Rightarrow> 'a list run" where
  "swap_at xs i j = (if i < length xs \<and> j < length xs then ok (xs[i := xs ! j, j := xs ! i]) else panic)"

text \<open>\<open>slice[a..=b].rotate_right(1)\<close>: an empty slice cannot be rotated by 1.\<close>

definition rotate_right1 :: "'a list \<Rightarrow> nat \<Rightarrow> nat \<Rightarrow> 'a list run" where
  "rotate_right1 xs a b =
     (if a \<le> b \<and> b < length xs then ok (take a xs @ [xs ! b] @ take (b - a) (drop a xs) @ drop (Suc b) xs) else panic)"

text \<open>\<open>slice[first + i as usize]\<close>.\<close>

definition idx_off :: "'a list \<Rightarrow> nat \<Rightarrow> int \<Rightarrow> 'a run" where
  "idx_off xs first i = (if i < 0 then panic else idx xs (first + nat i))"

definition upd_off :: "'a list \<Rightarrow> nat \<Rightarrow> int \<Rightarrow> 'a \<Rightarrow> 'a list run" where
  "upd_off xs first i x = (if i < 0 then panic else upd xs (first + nat i) x)"

section \<open>Insertion sort\<close>

definition SORT_THRESHOLD :: nat where
  "SORT_THRESHOLD = 16"

fun find_hole :: "('a \<Rightarrow> 'a \<Rightarrow> bool) \<Rightarrow> 'a list \<Rightarrow> 'a \<Rightarrow> nat \<Rightarrow> nat \<Rightarrow> nat run" where
  "find_hole lt xs val lower_bound 0 = ok 0"
| "find_hole lt xs val lower_bound (Suc h) =
     (if Suc h > lower_bound then
        run_bind (idx xs h) (\<lambda>x. if lt val x then find_hole lt xs val lower_bound h else ok (Suc h))
      else ok (Suc h))"

definition unguarded_linear_insert :: "('a \<Rightarrow> 'a \<Rightarrow> bool) \<Rightarrow> 'a list \<Rightarrow> nat \<Rightarrow> nat \<Rightarrow> 'a list run" where
  "unguarded_linear_insert lt xs last_pos lower_bound =
     run_bind (idx xs last_pos) (\<lambda>val.
     run_bind (find_hole lt xs val lower_bound last_pos) (\<lambda>hole. rotate_right1 xs hole last_pos))"

definition insertion_sort :: "('a \<Rightarrow> 'a \<Rightarrow> bool) \<Rightarrow> 'a list \<Rightarrow> nat \<Rightarrow> nat \<Rightarrow> 'a list run" where
  "insertion_sort lt xs first last_pos =
     (if first = last_pos then ok xs
      else run_fold (\<lambda>position xs.
        run_bind (idx xs position) (\<lambda>x. run_bind (idx xs first) (\<lambda>y.
        if lt x y then rotate_right1 xs first position
        else unguarded_linear_insert lt xs position first))) [first + 1..<last_pos] xs)"

definition final_insertion_sort :: "('a \<Rightarrow> 'a \<Rightarrow> bool) \<Rightarrow> 'a list \<Rightarrow> nat \<Rightarrow> nat \<Rightarrow> 'a list run" where
  "final_insertion_sort lt xs first last_pos =
     run_bind (usub last_pos first) (\<lambda>len.
     if len > SORT_THRESHOLD then
       run_bind (insertion_sort lt xs first (first + SORT_THRESHOLD)) (\<lambda>xs.
       run_fold (\<lambda>position xs. unguarded_linear_insert lt xs position first) [first + SORT_THRESHOLD..<last_pos] xs)
     else insertion_sort lt xs first last_pos)"

section \<open>Heap sort\<close>

text \<open>Moving the larger child up into the hole, until the hole has at most one child.\<close>

partial_function (option) sift_down ::
  "('a \<Rightarrow> 'a \<Rightarrow> bool) \<Rightarrow> nat \<Rightarrow> int \<Rightarrow> 'a list \<Rightarrow> int \<Rightarrow> int \<Rightarrow> ('a list \<times> int \<times> int) run" where
  "sift_down lt first len xs hole_index second_child =
     (if second_child < (len - 1) sdiv 2 then
        let second_child = 2 * (second_child + 1) in
        run_bind (idx_off xs first second_child) (\<lambda>x.
        run_bind (idx_off xs first (second_child - 1)) (\<lambda>y.
        let second_child = (if lt x y then second_child - 1 else second_child) in
        run_bind (idx_off xs first second_child) (\<lambda>c.
        run_bind (upd_off xs first hole_index c) (\<lambda>xs. sift_down lt first len xs second_child second_child))))
      else ok (xs, hole_index, second_child))"

declare sift_down.simps [code]

text \<open>Moving parents below the value down into the hole.\<close>

partial_function (option) push_up ::
  "('a \<Rightarrow> 'a \<Rightarrow> bool) \<Rightarrow> nat \<Rightarrow> int \<Rightarrow> 'a \<Rightarrow> 'a list \<Rightarrow> int \<Rightarrow> ('a list \<times> int) run" where
  "push_up lt first top_index val xs hole_index =
     (if hole_index > top_index then
        let parent = (hole_index - 1) sdiv 2 in
        run_bind (idx_off xs first parent) (\<lambda>x.
        if lt x val then
          run_bind (upd_off xs first hole_index x) (\<lambda>xs. push_up lt first top_index val xs parent)
        else ok (xs, hole_index))
      else ok (xs, hole_index))"

declare push_up.simps [code]

definition only_child :: "nat \<Rightarrow> int \<Rightarrow> 'a list \<times> int \<times> int \<Rightarrow> ('a list \<times> int) run" where
  "only_child first len s = (case s of (xs, hole_index, second_child) \<Rightarrow>
     if len AND 1 = 0 \<and> second_child = (len - 2) sdiv 2 then
       let second_child = 2 * (second_child + 1) in
       run_bind (idx_off xs first (second_child - 1)) (\<lambda>c.
       run_bind (upd_off xs first hole_index c) (\<lambda>xs. ok (xs, second_child - 1)))
     else ok (xs, hole_index))"

definition adjust_heap :: "('a \<Rightarrow> 'a \<Rightarrow> bool) \<Rightarrow> 'a list \<Rightarrow> nat \<Rightarrow> int \<Rightarrow> int \<Rightarrow> 'a \<Rightarrow> 'a list run" where
  "adjust_heap lt xs first hole_index len val =
     run_bind (sift_down lt first len xs hole_index hole_index) (\<lambda>s.
     run_bind (only_child first len s) (\<lambda>(xs, hole).
     run_bind (push_up lt first hole_index val xs hole) (\<lambda>(xs, hole).
     upd_off xs first hole val)))"

definition heap_sort_range :: "('a \<Rightarrow> 'a \<Rightarrow> bool) \<Rightarrow> 'a list \<Rightarrow> nat \<Rightarrow> nat \<Rightarrow> 'a list run" where
  "heap_sort_range lt xs first last_pos =
     run_bind (usub last_pos first) (\<lambda>len.
     run_bind (if len \<ge> 2
               then run_fold (\<lambda>parent xs. run_bind (idx_off xs first (int parent)) (\<lambda>val.
                      adjust_heap lt xs first (int parent) (int len) val)) (rev [0..<Suc ((len - 2) div 2)]) xs
               else ok xs) (\<lambda>xs.
     run_fold (\<lambda>stop xs. run_bind (idx xs stop) (\<lambda>val. run_bind (idx xs first) (\<lambda>root.
       run_bind (upd xs stop root) (\<lambda>xs. adjust_heap lt xs first 0 (int (stop - first)) val))))
       (rev [first + 1..<last_pos]) xs))"

section \<open>Introspective sort\<close>

definition move_median_to_first :: "('a \<Rightarrow> 'a \<Rightarrow> bool) \<Rightarrow> 'a list \<Rightarrow> nat \<Rightarrow> nat \<Rightarrow> nat \<Rightarrow> nat \<Rightarrow> 'a list run" where
  "move_median_to_first lt xs result first_pos mid_pos last_pos =
     run_bind (idx xs first_pos) (\<lambda>f. run_bind (idx xs mid_pos) (\<lambda>m. run_bind (idx xs last_pos) (\<lambda>l.
     if lt f m then
       if lt m l then swap_at xs result mid_pos
       else if lt f l then swap_at xs result last_pos
       else swap_at xs result first_pos
     else if lt f l then swap_at xs result first_pos
     else if lt m l then swap_at xs result last_pos
     else swap_at xs result mid_pos)))"

function scan_up :: "('a \<Rightarrow> 'a \<Rightarrow> bool) \<Rightarrow> 'a list \<Rightarrow> 'a \<Rightarrow> nat \<Rightarrow> nat run" where
  "scan_up lt xs p first =
     (if first < length xs then if lt (xs ! first) p then scan_up lt xs p (Suc first) else ok first else panic)"
  by pat_completeness auto
termination by (relation "measure (\<lambda>(_, xs, _, first). length xs - first)") auto

declare scan_up.simps [simp del]

fun scan_down :: "('a \<Rightarrow> 'a \<Rightarrow> bool) \<Rightarrow> 'a list \<Rightarrow> 'a \<Rightarrow> nat \<Rightarrow> nat run" where
  "scan_down lt xs p 0 = run_bind (idx xs 0) (\<lambda>x. if lt p x then panic else ok 0)"
| "scan_down lt xs p (Suc n) = run_bind (idx xs (Suc n)) (\<lambda>x. if lt p x then scan_down lt xs p n else ok (Suc n))"

partial_function (option) unguarded_partition ::
  "('a \<Rightarrow> 'a \<Rightarrow> bool) \<Rightarrow> nat \<Rightarrow> 'a list \<Rightarrow> nat \<Rightarrow> nat \<Rightarrow> ('a list \<times> nat) run" where
  "unguarded_partition lt pivot xs first last_pos =
     run_bind (idx xs pivot) (\<lambda>p.
     run_bind (scan_up lt xs p first) (\<lambda>first.
     run_bind (usub last_pos 1) (\<lambda>last_pos.
     run_bind (scan_down lt xs p last_pos) (\<lambda>last_pos.
     if first \<ge> last_pos then ok (xs, first)
     else run_bind (swap_at xs first last_pos) (\<lambda>xs. unguarded_partition lt pivot xs (first + 1) last_pos)))))"

declare unguarded_partition.simps [code]

definition unguarded_partition_pivot :: "('a \<Rightarrow> 'a \<Rightarrow> bool) \<Rightarrow> 'a list \<Rightarrow> nat \<Rightarrow> nat \<Rightarrow> ('a list \<times> nat) run" where
  "unguarded_partition_pivot lt xs first last_pos =
     run_bind (usub last_pos first) (\<lambda>len. run_bind (usub last_pos 1) (\<lambda>last1.
     run_bind (move_median_to_first lt xs first (first + 1) (first + len div 2) last1) (\<lambda>xs.
     unguarded_partition lt first xs (first + 1) last_pos)))"

text \<open>The loop over the lower part is a second call; both have the smaller depth limit.\<close>

fun introsort_loop :: "('a \<Rightarrow> 'a \<Rightarrow> bool) \<Rightarrow> nat \<Rightarrow> 'a list \<Rightarrow> nat \<Rightarrow> nat \<Rightarrow> 'a list run" where
  "introsort_loop lt 0 xs first last_pos = run_bind (usub last_pos first) (\<lambda>len.
     if len > SORT_THRESHOLD then heap_sort_range lt xs first last_pos else ok xs)"
| "introsort_loop lt (Suc depth_limit) xs first last_pos = run_bind (usub last_pos first) (\<lambda>len.
     if len > SORT_THRESHOLD then
       run_bind (unguarded_partition_pivot lt xs first last_pos) (\<lambda>(xs, cut).
       run_bind (introsort_loop lt depth_limit xs cut last_pos) (\<lambda>xs.
       introsort_loop lt depth_limit xs first cut))
     else ok xs)"

definition std_sort :: "('a \<Rightarrow> 'a \<Rightarrow> bool) \<Rightarrow> 'a list \<Rightarrow> 'a list run" where
  "std_sort lt xs =
     (let len = length xs in
      if len = 0 then ok xs
      else run_bind (introsort_loop lt (2 * nat (64 - 1 - count_leading_zeros (of_nat len))) xs 0 len) (\<lambda>xs.
        final_insertion_sort lt xs 0 len))"

definition std_partial_sort_full :: "('a \<Rightarrow> 'a \<Rightarrow> bool) \<Rightarrow> 'a list \<Rightarrow> 'a list run" where
  "std_partial_sort_full lt xs = heap_sort_range lt xs 0 (length xs)"

end
