(* ===== verification/Sort_Correct.thy ===== *)
theory Sort_Correct
  imports Std_Sort
begin

text \<open>
  The sorting routines on comparisons that are strict weak orders: they return, without a panic, a sorted
  permutation of the slice. The contract of the comparison is the locale \<open>comparator\<close>.
\<close>

section \<open>Segments\<close>

text \<open>Two slices that agree outside \<open>[a, b)\<close> and hold the same elements.\<close>

definition perm_in :: "nat \<Rightarrow> nat \<Rightarrow> 'a list \<Rightarrow> 'a list \<Rightarrow> bool" where
  "perm_in a b xs ys \<longleftrightarrow> mset ys = mset xs \<and> (\<forall>k<length xs. k < a \<or> b \<le> k \<longrightarrow> ys ! k = xs ! k)"

definition seg :: "nat \<Rightarrow> nat \<Rightarrow> 'a list \<Rightarrow> 'a list" where
  "seg a b xs = take (b - a) (drop a xs)"

lemma perm_in_refl [simp]: "perm_in a b xs xs"
  by (simp add: perm_in_def)

lemma perm_in_length: "perm_in a b xs ys \<Longrightarrow> length ys = length xs"
  unfolding perm_in_def by (metis size_mset)

lemma perm_in_trans: "perm_in a b xs ys \<Longrightarrow> perm_in a b ys zs \<Longrightarrow> perm_in a b xs zs"
  using perm_in_length [of a b xs ys] by (simp add: perm_in_def)

lemma perm_in_mono: "perm_in a b xs ys \<Longrightarrow> a' \<le> a \<Longrightarrow> b \<le> b' \<Longrightarrow> perm_in a' b' xs ys"
  by (simp add: perm_in_def)

lemma perm_in_swap:
  assumes "a \<le> i" "i < b" "a \<le> j" "j < b" "b \<le> length xs"
  shows "perm_in a b xs (xs[i := xs ! j, j := xs ! i])"
  using assms mset_swap [of j xs i] by (auto simp: perm_in_def nth_list_update)

lemma seg_map: "b \<le> length xs \<Longrightarrow> seg a b xs = map ((!) xs) [a..<b]"
  by (auto simp: seg_def list_eq_iff_nth_eq)

lemma set_seg: "b \<le> length xs \<Longrightarrow> set (seg a b xs) = (\<lambda>k. xs ! k) ` {a..<b}"
  by (simp add: seg_map)

lemma seg_split: "a \<le> b \<Longrightarrow> b \<le> length xs \<Longrightarrow> xs = take a xs @ seg a b xs @ drop b xs"
  by (metis append_take_drop_id drop_drop le_add_diff_inverse2 seg_def)

lemma perm_in_seg:
  assumes "perm_in a b xs ys" "a \<le> b" "b \<le> length xs"
  shows "mset (seg a b ys) = mset (seg a b xs)"
proof -
  have l: "length ys = length xs" using perm_in_length [OF assms(1)] .
  have "take a ys = take a xs" "drop b ys = drop b xs"
    using assms l by (auto simp: perm_in_def list_eq_iff_nth_eq)
  moreover have "mset ys = mset (take a ys) + mset (seg a b ys) + mset (drop b ys)"
    using seg_split [of a b ys] assms l by (metis mset_append union_assoc)
  moreover have "mset xs = mset (take a xs) + mset (seg a b xs) + mset (drop b xs)"
    using seg_split [of a b xs] assms by (metis mset_append union_assoc)
  ultimately show ?thesis using assms(1) by (simp add: perm_in_def)
qed

lemma perm_in_values:
  assumes "perm_in a b xs ys" "b \<le> length xs" "a \<le> k" "k < b"
  obtains j where "a \<le> j" "j < b" "ys ! k = xs ! j"
proof -
  have "ys ! k \<in> set (seg a b ys)" using assms perm_in_length [OF assms(1)] by (auto simp: set_seg)
  then have "ys ! k \<in> set (seg a b xs)" using perm_in_seg [OF assms(1)] assms by (metis le_trans less_imp_le set_mset_mset)
  then show ?thesis using that assms(2) by (auto simp: set_seg)
qed

section \<open>Strict weak orders\<close>

locale comparator =
  fixes lt :: "'a \<Rightarrow> 'a \<Rightarrow> bool"
  assumes asym: "lt x y \<Longrightarrow> \<not> lt y x"
    and not_trans: "\<not> lt x y \<Longrightarrow> \<not> lt y z \<Longrightarrow> \<not> lt x z"
begin

lemma irrefl [simp]: "\<not> lt x x"
  using asym by blast

lemma lt_trans: "lt x y \<Longrightarrow> lt y z \<Longrightarrow> lt x z"
  using asym not_trans by blast

end

text \<open>No element is below one before it.\<close>

definition sorted_in :: "('a \<Rightarrow> 'a \<Rightarrow> bool) \<Rightarrow> nat \<Rightarrow> nat \<Rightarrow> 'a list \<Rightarrow> bool" where
  "sorted_in lt a b xs \<longleftrightarrow> (\<forall>i j. a \<le> i \<longrightarrow> i < j \<longrightarrow> j < b \<longrightarrow> \<not> lt (xs ! j) (xs ! i))"

lemma sorted_in_all: "sorted_in lt 0 (length xs) xs \<longleftrightarrow> sorted_wrt (\<lambda>x y. \<not> lt y x) xs"
  by (auto simp: sorted_in_def sorted_wrt_iff_nth_less)

section \<open>Insertion\<close>

lemma rotate_nth:
  assumes "a \<le> b" "b < length xs" "rotate_right1 xs a b = ok ys"
  shows "length ys = length xs" "mset ys = mset xs"
    "k < length xs \<Longrightarrow> ys ! k = (if k < a \<or> b < k then xs ! k else if k = a then xs ! b else xs ! (k - 1))"
proof -
  have ys: "ys = take a xs @ [xs ! b] @ take (b - a) (drop a xs) @ drop (Suc b) xs" using assms by (simp add: rotate_right1_def)
  show "length ys = length xs" using assms(1,2) by (simp add: ys)
  have "xs = take a xs @ (take (b - a) (drop a xs) @ [xs ! b] @ drop (Suc b) xs)"
    using assms(1,2) by (metis append_Cons append_Nil append_take_drop_id drop_drop id_take_nth_drop le_add_diff_inverse2
        Cons_nth_drop_Suc add.commute)
  then have "mset xs = mset (take a xs @ (take (b - a) (drop a xs) @ [xs ! b] @ drop (Suc b) xs))" by (rule arg_cong)
  then show "mset ys = mset xs" by (simp add: ys)
  show "ys ! k = (if k < a \<or> b < k then xs ! k else if k = a then xs ! b else xs ! (k - 1))" if "k < length xs"
    using assms(1,2) that by (auto simp: ys nth_append nth_Cons' min_def)
qed

lemma rotate_perm:
  assumes "lo \<le> a" "a \<le> b" "b < hi" "hi \<le> length xs"
  obtains ys where "rotate_right1 xs a b = ok ys" "perm_in lo hi xs ys" "length ys = length xs"
    "\<And>k. k < length xs \<Longrightarrow> ys ! k = (if k < a \<or> b < k then xs ! k else if k = a then xs ! b else xs ! (k - 1))"
proof -
  obtain ys where ys: "rotate_right1 xs a b = ok ys" using assms by (simp add: rotate_right1_def)
  have b: "b < length xs" using assms by simp
  note r = rotate_nth [OF assms(2) b ys]
  have "perm_in lo hi xs ys" using r assms by (auto simp: perm_in_def)
  then show ?thesis using that ys r by blast
qed

lemma find_hole_ok:
  assumes "lo \<le> h" "h \<le> length xs"
  shows "\<exists>h'. find_hole lt xs v lo h = ok h' \<and> lo \<le> h' \<and> h' \<le> h \<and> (\<forall>k. h' \<le> k \<longrightarrow> k < h \<longrightarrow> lt v (xs ! k)) \<and>
    (lo < h' \<longrightarrow> \<not> lt v (xs ! (h' - 1)))"
  using assms
proof (induction h)
  case (Suc h)
  show ?case
  proof (cases "lo < Suc h \<and> lt v (xs ! h)")
    case True
    then have "lo \<le> h" "h < length xs" using Suc.prems by auto
    then show ?thesis using Suc.IH True by (fastforce simp: idx_def less_Suc_eq)
  next
    case False
    then show ?thesis using Suc.prems by (auto simp: idx_def)
  qed
qed simp

context comparator
begin

lemma insert_ok:
  assumes "sorted_in lt lo p xs" "lo \<le> p" "p < length xs"
  obtains ys where "unguarded_linear_insert lt xs p lo = ok ys" "perm_in lo (Suc p) xs ys" "sorted_in lt lo (Suc p) ys"
proof -
  have pl: "p \<le> length xs" using assms(3) by simp
  obtain h where h: "find_hole lt xs (xs ! p) lo p = ok h" "lo \<le> h" "h \<le> p"
    "\<And>k. h \<le> k \<Longrightarrow> k < p \<Longrightarrow> lt (xs ! p) (xs ! k)" "lo < h \<Longrightarrow> \<not> lt (xs ! p) (xs ! (h - 1))"
    using find_hole_ok [OF assms(2) pl] by blast
  obtain ys where ys: "rotate_right1 xs h p = ok ys" "perm_in lo (Suc p) xs ys" "length ys = length xs"
    "\<And>k. k < length xs \<Longrightarrow> ys ! k = (if k < h \<or> p < k then xs ! k else if k = h then xs ! p else xs ! (k - 1))"
    using rotate_perm [OF h(2,3), of "Suc p" xs] assms(3) by auto
  have below: "\<not> lt (xs ! p) (xs ! i)" if "lo \<le> i" "i < h" for i
  proof (cases "i = h - 1")
    case True
    then show ?thesis using h(5) that by simp
  next
    case False
    then have "\<not> lt (xs ! (h - 1)) (xs ! i)" using assms(1) that h(3) by (auto simp: sorted_in_def)
    then show ?thesis using not_trans h(5) that by (metis le_less_trans)
  qed
  have "sorted_in lt lo (Suc p) ys"
    unfolding sorted_in_def
  proof (intro allI impI)
    fix i j assume ij: "lo \<le> i" "i < j" "j < Suc p"
    then have l: "i < length xs" "j < length xs" using assms(3) by auto
    have s: "\<not> lt (xs ! j') (xs ! i')" if "lo \<le> i'" "i' < j'" "j' < p" for i' j' using assms(1) that by (simp add: sorted_in_def)
    consider "j < h" | "j = h" | "i < h" "h < j" | "i = h" | "h < i" using ij by linarith
    then show "\<not> lt (ys ! j) (ys ! i)"
    proof cases
      case 1 then show ?thesis using ij l s h(3) by (simp add: ys(4))
    next
      case 2 then show ?thesis using ij l below by (simp add: ys(4))
    next
      case 3 then show ?thesis using ij l s [of i "j - 1"] by (simp add: ys(4))
    next
      case 4 then show ?thesis using ij l asym [OF h(4) [of "j - 1"]] by (simp add: ys(4))
    next
      case 5 then show ?thesis using ij l s [of "i - 1" "j - 1"] h(2) by (simp add: ys(4))
    qed
  qed
  then show ?thesis using that ys h(1) assms(3) by (simp add: unguarded_linear_insert_def idx_def)
qed

lemma insertion_step:
  assumes "sorted_in lt lo p xs" "lo < p" "p < length xs"
  obtains ys where "run_bind (idx xs p) (\<lambda>x. run_bind (idx xs lo) (\<lambda>y.
        if lt x y then rotate_right1 xs lo p else unguarded_linear_insert lt xs p lo)) = ok ys"
    "perm_in lo (Suc p) xs ys" "sorted_in lt lo (Suc p) ys"
proof (cases "lt (xs ! p) (xs ! lo)")
  case True
  obtain ys where ys: "rotate_right1 xs lo p = ok ys" "perm_in lo (Suc p) xs ys" "length ys = length xs"
    "\<And>k. k < length xs \<Longrightarrow> ys ! k = (if k < lo \<or> p < k then xs ! k else if k = lo then xs ! p else xs ! (k - 1))"
    using rotate_perm [of lo lo p "Suc p" xs] assms(2,3) by auto
  have first: "\<not> lt (xs ! k) (xs ! p)" if "lo \<le> k" "k < p" for k
  proof -
    have "\<not> lt (xs ! k) (xs ! lo)" using assms(1) that by (cases "k = lo") (auto simp: sorted_in_def)
    then show ?thesis using not_trans asym [OF True] by blast
  qed
  have "sorted_in lt lo (Suc p) ys"
    unfolding sorted_in_def
  proof (intro allI impI)
    fix i j assume ij: "lo \<le> i" "i < j" "j < Suc p"
    then have l: "i < length xs" "j < length xs" using assms(3) by auto
    show "\<not> lt (ys ! j) (ys ! i)"
    proof (cases "i = lo")
      case True then show ?thesis using ij l first [of "j - 1"] by (simp add: ys(4))
    next
      case False
      then have "\<not> lt (xs ! (j - 1)) (xs ! (i - 1))" using assms(1) ij by (auto simp: sorted_in_def)
      then show ?thesis using ij l False by (simp add: ys(4))
    qed
  qed
  then show ?thesis using that ys True assms(2,3) by (simp add: idx_def)
next
  case False
  from insert_ok [of lo p xs] assms obtain ys where
    "unguarded_linear_insert lt xs p lo = ok ys" "perm_in lo (Suc p) xs ys" "sorted_in lt lo (Suc p) ys" by auto
  then show ?thesis using that False assms by (simp add: idx_def)
qed

lemma insertion_sort_ok:
  assumes "lo \<le> hi" "hi \<le> length xs"
  shows "\<exists>ys. insertion_sort lt xs lo hi = ok ys \<and> perm_in lo hi xs ys \<and> sorted_in lt lo hi ys"
proof (cases "lo = hi")
  case False
  let ?P = "\<lambda>p ys. perm_in lo hi xs ys \<and> sorted_in lt lo p ys"
  have "\<exists>s'. run_fold (\<lambda>position xs. run_bind (idx xs position) (\<lambda>x. run_bind (idx xs lo) (\<lambda>y.
        if lt x y then rotate_right1 xs lo position else unguarded_linear_insert lt xs position lo))) [lo + 1..<hi] xs = ok s' \<and> ?P hi s'"
  proof (rule run_fold_up [where P = ?P])
    show "?P (lo + 1) xs" by (simp add: sorted_in_def)
    show "lo + 1 \<le> hi" using False assms by simp
    fix i ys assume i: "lo + 1 \<le> i" "i < hi" "?P i ys"
    then have l: "lo < i" "i < length ys" using assms(2) perm_in_length by fastforce+
    from insertion_step [of lo i ys] i l obtain zs where
      "run_bind (idx ys i) (\<lambda>x. run_bind (idx ys lo) (\<lambda>y. if lt x y then rotate_right1 ys lo i else unguarded_linear_insert lt ys i lo)) = ok zs"
      "perm_in lo (Suc i) ys zs" "sorted_in lt lo (Suc i) zs" by auto
    then show "\<exists>s'. run_bind (idx ys i) (\<lambda>x. run_bind (idx ys lo) (\<lambda>y.
        if lt x y then rotate_right1 ys lo i else unguarded_linear_insert lt ys i lo)) = ok s' \<and> ?P (Suc i) s'"
      using i perm_in_mono [of lo "Suc i" ys zs lo hi] perm_in_trans by (metis le_refl Suc_leI)
  qed
  then show ?thesis using False by (simp add: insertion_sort_def)
qed (simp add: insertion_sort_def sorted_in_def)

lemma final_insertion_sort_ok:
  assumes "lo \<le> hi" "hi \<le> length xs"
  shows "\<exists>ys. final_insertion_sort lt xs lo hi = ok ys \<and> perm_in lo hi xs ys \<and> sorted_in lt lo hi ys"
proof (cases "hi - lo > SORT_THRESHOLD")
  case True
  let ?m = "lo + SORT_THRESHOLD"
  have m: "lo \<le> ?m" "?m \<le> length xs" "?m \<le> hi" using True assms by auto
  obtain ys where ys: "insertion_sort lt xs lo ?m = ok ys" "perm_in lo ?m xs ys" "sorted_in lt lo ?m ys"
    using insertion_sort_ok [OF m(1,2)] by blast
  let ?P = "\<lambda>p zs. perm_in lo hi xs zs \<and> sorted_in lt lo p zs"
  have "\<exists>s'. run_fold (\<lambda>position xs. unguarded_linear_insert lt xs position lo) [?m..<hi] ys = ok s' \<and> ?P hi s'"
  proof (rule run_fold_up [where P = ?P])
    show "?P ?m ys" using ys m perm_in_mono by blast
    show "?m \<le> hi" by (rule m)
    fix i zs assume i: "?m \<le> i" "i < hi" "?P i zs"
    then have l: "lo \<le> i" "i < length zs" using assms(2) perm_in_length by fastforce+
    from insert_ok [of lo i zs] i l obtain ws where
      "unguarded_linear_insert lt zs i lo = ok ws" "perm_in lo (Suc i) zs ws" "sorted_in lt lo (Suc i) ws" by auto
    then show "\<exists>s'. unguarded_linear_insert lt zs i lo = ok s' \<and> ?P (Suc i) s'"
      using i perm_in_mono [of lo "Suc i" zs ws lo hi] perm_in_trans by (metis le_refl Suc_leI)
  qed
  then show ?thesis using True assms(1) ys(1) by (simp add: final_insertion_sort_def usub_def)
qed (use insertion_sort_ok [OF assms] assms(1) in \<open>simp add: final_insertion_sort_def usub_def\<close>)

end

end
