(* ===== verification/Sort_Heap.thy ===== *)
theory Sort_Heap
  imports Sort_Correct
begin

text \<open>
  Heap sort: the heap property of a segment of a slice, kept by moving a hole to the bottom and pushing the
  value up from there, and the two phases that build the heap and take its root again and again.
\<close>

section \<open>Heaps in a segment\<close>

text \<open>Every pair of a parent at or after \<open>root\<close> and its child is in order.\<close>

definition heap_in :: "('a \<Rightarrow> 'a \<Rightarrow> bool) \<Rightarrow> 'a list \<Rightarrow> nat \<Rightarrow> nat \<Rightarrow> nat \<Rightarrow> bool" where
  "heap_in lt xs first len root \<longleftrightarrow>
     (\<forall>c. 0 < c \<longrightarrow> c < len \<longrightarrow> root \<le> (c - 1) div 2 \<longrightarrow> \<not> lt (xs ! (first + (c - 1) div 2)) (xs ! (first + c)))"

text \<open>The same while a hole is on its way: at the start nothing is known of the hole's own value.\<close>

definition holed_heap :: "('a \<Rightarrow> 'a \<Rightarrow> bool) \<Rightarrow> 'a list \<Rightarrow> nat \<Rightarrow> nat \<Rightarrow> nat \<Rightarrow> nat \<Rightarrow> bool" where
  "holed_heap lt xs first len root h \<longleftrightarrow> heap_in lt xs first len (if h = root then Suc root else root)"

text \<open>Before each step of the second phase the elements from \<open>stop\<close> on are in their final places.\<close>

definition settled :: "('a \<Rightarrow> 'a \<Rightarrow> bool) \<Rightarrow> nat \<Rightarrow> nat \<Rightarrow> nat \<Rightarrow> 'a list \<Rightarrow> bool" where
  "settled lt first stop last_pos xs \<longleftrightarrow> (\<forall>i j. first \<le> i \<longrightarrow> i < j \<longrightarrow> stop \<le> j \<longrightarrow> j < last_pos \<longrightarrow> \<not> lt (xs ! j) (xs ! i))"

text \<open>Filling the hole with a value gives the same elements, and nothing outside the segment has changed.\<close>

definition same_filled :: "nat \<Rightarrow> nat \<Rightarrow> 'a list \<Rightarrow> nat \<Rightarrow> 'a list \<Rightarrow> nat \<Rightarrow> bool" where
  "same_filled first len xs h ys h' \<longleftrightarrow> (\<forall>v. perm_in first (first + len) (xs[first + h := v]) (ys[first + h' := v]))"

lemma same_filled_refl [simp]: "same_filled first len xs h xs h"
  by (simp add: same_filled_def)

lemma same_filled_trans:
  "same_filled first len xs h ys h' \<Longrightarrow> same_filled first len ys h' zs h'' \<Longrightarrow> same_filled first len xs h zs h''"
  unfolding same_filled_def using perm_in_trans by blast

lemma same_filled_length: "same_filled first len xs h ys h' \<Longrightarrow> length ys = length xs"
  unfolding same_filled_def using perm_in_length by fastforce

lemma same_filled_move:
  assumes "h < len" "m < len" "h \<noteq> m" "first + len \<le> length xs"
  shows "same_filled first len xs h (xs[first + h := xs ! (first + m)]) m"
  unfolding same_filled_def
proof
  fix v
  let ?xs = "xs[first + h := v]"
  have "xs[first + h := xs ! (first + m), first + m := v] = ?xs[first + h := ?xs ! (first + m), first + m := ?xs ! (first + h)]"
    using assms by (simp add: list_update_swap)
  moreover have "perm_in first (first + len) ?xs (?xs[first + h := ?xs ! (first + m), first + m := ?xs ! (first + h)])"
    using assms by (intro perm_in_swap) auto
  ultimately show "perm_in first (first + len) ?xs (xs[first + h := xs ! (first + m), first + m := v])" by simp
qed

text \<open>The nodes below a node of the tree.\<close>

inductive descends :: "nat \<Rightarrow> nat \<Rightarrow> bool" for root where
  here: "descends root root"
| child: "descends root ((c - 1) div 2) \<Longrightarrow> 0 < c \<Longrightarrow> descends root c"

inductive_cases descends_cases: "descends root h"

lemma descends_le: "descends root h \<Longrightarrow> root \<le> h"
  by (induction rule: descends.induct) auto

lemma descends_parent: "descends root h \<Longrightarrow> root < h \<Longrightarrow> descends root ((h - 1) div 2)"
  by (erule descends_cases) auto

lemma half_int: "0 < n \<Longrightarrow> (int n - 1) sdiv 2 = int ((n - 1) div 2)"
proof -
  assume "0 < n"
  then have "int n - 1 = int (n - 1)" by simp
  then show ?thesis by (simp add: signed_divide_int_def sgn_if zdiv_int abs_if del: of_nat_diff)
qed

lemma off_ok:
  "first + i < length xs \<Longrightarrow> idx_off xs first (int i) = ok (xs ! (first + i))"
  "first + i < length xs \<Longrightarrow> upd_off xs first (int i) x = ok (xs[first + i := x])"
  by (simp_all add: idx_off_def idx_def upd_off_def upd_def)

context comparator
begin

lemma heap_root:
  assumes "heap_in lt xs first len 0" "c < len"
  shows "\<not> lt (xs ! first) (xs ! (first + c))"
  using assms(2)
proof (induction c rule: less_induct)
  case (less c)
  show ?case
  proof (cases "c = 0")
    case False
    then have "\<not> lt (xs ! (first + (c - 1) div 2)) (xs ! (first + c))" using assms(1) less.prems by (simp add: heap_in_def)
    moreover have "\<not> lt (xs ! first) (xs ! (first + (c - 1) div 2))" using less.IH [of "(c - 1) div 2"] less.prems False by auto
    ultimately show ?thesis using not_trans by blast
  qed simp
qed

lemma move_child:
  assumes "holed_heap lt xs first len root h" "root \<le> h" "h < len" "(m - 1) div 2 = h" "0 < m" "m < len" "first + len \<le> length xs"
    "\<And>c. 0 < c \<Longrightarrow> c < len \<Longrightarrow> (c - 1) div 2 = h \<Longrightarrow> \<not> lt (xs ! (first + m)) (xs ! (first + c))"
  shows "holed_heap lt (xs[first + h := xs ! (first + m)]) first len root m"
proof -
  let ?ys = "xs[first + h := xs ! (first + m)]"
  have m: "h < m" using assms(4,5) by auto
  have "\<not> lt (?ys ! (first + (c - 1) div 2)) (?ys ! (first + c))" if c: "0 < c" "c < len" "root \<le> (c - 1) div 2" for c
  proof -
    let ?p = "(c - 1) div 2"
    have heap: "\<not> lt (xs ! (first + (k - 1) div 2)) (xs ! (first + k))"
      if "0 < k" "k < len" "root \<le> (k - 1) div 2" "(k - 1) div 2 \<noteq> h \<or> h \<noteq> root" for k
      using assms(1) that by (auto simp: holed_heap_def heap_in_def split: if_splits)
    consider "c = h" | "c \<noteq> h" "?p = h" | "c \<noteq> h" "?p \<noteq> h" by blast
    then show ?thesis
    proof cases
      case 1
      then have h: "?p < h" "h \<noteq> root" using c by auto
      have "\<not> lt (xs ! (first + ?p)) (xs ! (first + h))" using heap [of h] c 1 h by simp
      moreover have "\<not> lt (xs ! (first + h)) (xs ! (first + m))" using heap [of m] assms h by simp
      ultimately show ?thesis using 1 h assms(3,7) not_trans by simp
    next
      case 2
      then show ?thesis using assms c by simp
    next
      case 3
      then show ?thesis using heap [of c] c by simp
    qed
  qed
  then show ?thesis using m assms(2) by (simp add: holed_heap_def heap_in_def)
qed

lemma sift_down_ok:
  assumes "first + len \<le> length xs" "descends root h" "h < len" "holed_heap lt xs first len root h"
  shows "\<exists>ys h'. sift_down lt first (int len) xs (int h) (int h) = ok (ys, int h', int h') \<and> same_filled first len xs h ys h' \<and>
    descends root h' \<and> h' < len \<and> holed_heap lt ys first len root h' \<and> (len - 1) div 2 \<le> h'"
  using assms
proof (induction "len - h" arbitrary: xs h rule: less_induct)
  case less
  have half: "(int len - 1) sdiv 2 = int ((len - 1) div 2)" using less.prems(3) by (simp add: half_int)
  show ?case
  proof (cases "h < (len - 1) div 2")
    case True
    define m where "m = (if lt (xs ! (first + (2 * h + 2))) (xs ! (first + (2 * h + 1))) then 2 * h + 1 else 2 * h + 2)"
    have m: "(m - 1) div 2 = h" "0 < m" "m < len" "h < m" using True by (auto simp: m_def)
    define ys where "ys = xs[first + h := xs ! (first + m)]"
    have c: "\<not> lt (xs ! (first + m)) (xs ! (first + c))" if "0 < c" "c < len" "(c - 1) div 2 = h" for c
    proof -
      have "c = 2 * h + 1 \<or> c = 2 * h + 2" using that by auto
      then show ?thesis using asym by (auto simp: m_def)
    qed
    have ys: "holed_heap lt ys first len root m" unfolding ys_def
      using move_child [OF less.prems(4) descends_le [OF less.prems(2)] less.prems(3) m(1,2,3) less.prems(1) c] .
    have f: "same_filled first len xs h ys m" unfolding ys_def using m less.prems by (intro same_filled_move) auto
    have len: "first + len \<le> length ys" using less.prems(1) by (simp add: ys_def)
    have step: "sift_down lt first (int len) xs (int h) (int h) = sift_down lt first (int len) ys (int m) (int m)"
    proof -
      have e: "2 * (int h + 1) = int (2 * h + 2)" "int (2 * h + 2) - 1 = int (2 * h + 1)" by simp_all
      have i: "first + (2 * h + 2) < length xs" "first + (2 * h + 1) < length xs" "first + m < length xs" "first + h < length xs"
        using True m less.prems(1) by auto
      have "(if lt (xs ! (first + (2 * h + 2))) (xs ! (first + (2 * h + 1))) then int (2 * h + 1) else int (2 * h + 2)) = int m"
        by (simp add: m_def)
      then show ?thesis using True
        by (subst sift_down.simps) (simp only: half Let_def e off_ok [OF i(1)] off_ok [OF i(2)] off_ok [OF i(3)] off_ok [OF i(4)]
            run_bind_simps of_nat_less_iff if_True ys_def)
    qed
    have "len - m < len - h" "descends root m" using m less.prems(2,3) by (auto intro: descends.child)
    from less.hyps [OF this(1) len this(2) m(3) ys] step same_filled_trans [OF f] show ?thesis by auto
  next
    case False
    then show ?thesis using less.prems by (subst sift_down.simps) (auto simp: half)
  qed
qed

lemma only_child_ok:
  assumes "first + len \<le> length xs" "descends root h" "h < len" "holed_heap lt xs first len root h" "(len - 1) div 2 \<le> h"
  shows "\<exists>ys h'. only_child first (int len) (xs, int h, int h) = ok (ys, int h') \<and> same_filled first len xs h ys h' \<and>
    descends root h' \<and> h' < len \<and> holed_heap lt ys first len root h' \<and> len \<le> 2 * h' + 1"
proof (cases "even len \<and> h = (len - 2) div 2")
  case True
  let ?m = "2 * h + 1"
  have l2: "2 \<le> len" using True assms(3) by (auto dest: dvd_imp_le)
  then have m: "?m = len - 1" "h < ?m" "?m < len" using True by presburger+
  have e: "2 * (int h + 1) - 1 = int ?m" by simp
  have sdiv: "(int len - 2) sdiv 2 = int h" using half_int [of "len - 1"] l2 True by (simp add: algebra_simps of_nat_diff numeral_2_eq_2)
  have c: "\<not> lt (xs ! (first + ?m)) (xs ! (first + c))" if "0 < c" "c < len" "(c - 1) div 2 = h" for c
  proof -
    have "c = ?m" using that m by auto
    then show ?thesis by simp
  qed
  have "holed_heap lt (xs[first + h := xs ! (first + ?m)]) first len root ?m"
    by (rule move_child [OF assms(4) descends_le [OF assms(2)] assms(3) _ _ m(3) assms(1) c]) auto
  moreover have "same_filled first len xs h (xs[first + h := xs ! (first + ?m)]) ?m"
    using m assms by (intro same_filled_move) auto
  moreover have "only_child first (int len) (xs, int h, int h) = ok (xs[first + h := xs ! (first + ?m)], int ?m)"
  proof -
    have i: "first + ?m < length xs" "first + h < length xs" using m assms(1,3) by auto
    have "(int len AND 1 = 0) = True" using True by (simp add: and_one_eq)
    then show ?thesis by (simp only: only_child_def prod.case sdiv e Let_def off_ok [OF i(1)] off_ok [OF i(2)] run_bind_simps
          if_True simp_thms refl)
  qed
  moreover have "descends root ?m" using assms(2) by (auto intro: descends.child)
  moreover have "len \<le> 2 * ?m + 1" using m by simp
  ultimately show ?thesis using m(3) by (intro exI conjI)
next
  case False
  have "\<not> (int len AND 1 = 0 \<and> int h = (int len - 2) sdiv 2)"
  proof
    assume a: "int len AND 1 = 0 \<and> int h = (int len - 2) sdiv 2"
    then have "int len mod 2 = 0" by (simp add: and_one_eq)
    then have "even len" by presburger
    moreover have "2 \<le> len" using \<open>even len\<close> assms(3) by (auto dest: dvd_imp_le)
    then have "(int len - 2) sdiv 2 = int ((len - 2) div 2)" using half_int [of "len - 1"] by (simp add: algebra_simps of_nat_diff numeral_2_eq_2)
    ultimately show False using a False by simp
  qed
  moreover have "len \<le> 2 * h + 1"
  proof (rule ccontr)
    assume "\<not> len \<le> 2 * h + 1"
    then have "len = 2 * h + 2" using assms(5) by presburger
    then show False using False by simp
  qed
  ultimately show ?thesis using assms by (auto simp: only_child_def)
qed

lemma push_up_ok:
  assumes "first + len \<le> length xs" "descends root h" "h < len" "heap_in lt xs first len root"
    "\<And>c. 0 < c \<Longrightarrow> c < len \<Longrightarrow> (c - 1) div 2 = h \<Longrightarrow> \<not> lt v (xs ! (first + c))"
  shows "\<exists>ys h'. push_up lt first (int root) v xs (int h) = ok (ys, int h') \<and> same_filled first len xs h ys h' \<and>
    h' < len \<and> heap_in lt (ys[first + h' := v]) first len root"
  using assms
proof (induction h arbitrary: xs rule: less_induct)
  case (less h)
  let ?p = "(h - 1) div 2"
  show ?case
  proof (cases "root < h \<and> lt (xs ! (first + ?p)) v")
    case True
    have half: "(int h - 1) sdiv 2 = int ?p" using True by (simp add: half_int)
    have p: "?p < h" "descends root ?p" "root \<le> ?p"
      using True descends_parent [OF less.prems(2)] descends_le by auto
    define ys where "ys = xs[first + h := xs ! (first + ?p)]"
    have i: "first + ?p < length xs" "first + h < length xs" using less.prems(1,3) p by auto
    have step: "push_up lt first (int root) v xs (int h) = push_up lt first (int root) v ys (int ?p)"
      using True half i by (subst push_up.simps) (simp add: Let_def off_ok ys_def)
    have heap: "\<not> lt (xs ! (first + (k - 1) div 2)) (xs ! (first + k))" if "0 < k" "k < len" "root \<le> (k - 1) div 2" for k
      using less.prems(4) that by (simp add: heap_in_def)
    have "heap_in lt ys first len root" unfolding heap_in_def
    proof (intro allI impI)
      fix c assume c: "0 < c" "c < len" "root \<le> (c - 1) div 2"
      consider "c = h" | "c \<noteq> h" "(c - 1) div 2 = h" | "c \<noteq> h" "(c - 1) div 2 \<noteq> h" by blast
      then show "\<not> lt (ys ! (first + (c - 1) div 2)) (ys ! (first + c))"
      proof cases
        case 1 then show ?thesis using p(1) i by (simp add: ys_def)
      next
        case 2
        then have "\<not> lt (xs ! (first + h)) (xs ! (first + c))" using heap [OF c] by simp
        moreover have "\<not> lt (xs ! (first + ?p)) (xs ! (first + h))" using heap [of h] less.prems(3) True p(3) by simp
        ultimately show ?thesis using 2 not_trans i by (simp add: ys_def)
      next
        case 3 then show ?thesis using heap [OF c] by (simp add: ys_def)
      qed
    qed
    moreover have "\<not> lt v (ys ! (first + c))" if c: "0 < c" "c < len" "(c - 1) div 2 = ?p" for c
    proof -
      have "\<not> lt v (xs ! (first + ?p))" using True asym by blast
      moreover have "\<not> lt (xs ! (first + ?p)) (xs ! (first + c))" using heap [of c] c p(3) by simp
      ultimately show ?thesis using not_trans i by (cases "c = h") (auto simp: ys_def)
    qed
    moreover have "first + len \<le> length ys" using less.prems(1) by (simp add: ys_def)
    ultimately obtain zs h' where "push_up lt first (int root) v ys (int ?p) = ok (zs, int h')" "same_filled first len ys ?p zs h'"
      "h' < len" "heap_in lt (zs[first + h' := v]) first len root"
      using less.IH [of ?p ys] p less.prems(3) by auto
    moreover have "same_filled first len xs h ys ?p" unfolding ys_def using p less.prems by (intro same_filled_move) auto
    ultimately show ?thesis using step same_filled_trans by metis
  next
    case False
    have "push_up lt first (int root) v xs (int h) = ok (xs, int h)"
    proof (cases "root < h")
      case True
      then have half: "(int h - 1) sdiv 2 = int ?p" by (simp add: half_int)
      have "first + ?p < length xs" using less.prems(1,3) by auto
      then show ?thesis using True False half by (subst push_up.simps) (simp add: Let_def off_ok)
    qed (subst push_up.simps, simp)
    moreover have "heap_in lt (xs[first + h := v]) first len root" unfolding heap_in_def
    proof (intro allI impI)
      fix c assume c: "0 < c" "c < len" "root \<le> (c - 1) div 2"
      have i: "first + h < length xs" using less.prems(1,3) by simp
      consider "c = h" | "c \<noteq> h" "(c - 1) div 2 = h" | "c \<noteq> h" "(c - 1) div 2 \<noteq> h" by blast
      then show "\<not> lt (xs[first + h := v] ! (first + (c - 1) div 2)) (xs[first + h := v] ! (first + c))"
      proof cases
        case 1
        then have "root < h" using c by auto
        then show ?thesis using 1 False i c by simp
      next
        case 2 then show ?thesis using less.prems(5) c i by simp
      next
        case 3 then show ?thesis using less.prems(4) c by (simp add: heap_in_def)
      qed
    qed
    ultimately show ?thesis using less.prems(3) by auto
  qed
qed

lemma adjust_heap_ok:
  assumes "first + len \<le> length xs" "root < len" "heap_in lt xs first len (Suc root)"
  shows "\<exists>ys. adjust_heap lt xs first (int root) (int len) v = ok ys \<and>
    perm_in first (first + len) (xs[first + root := v]) ys \<and> heap_in lt ys first len root"
proof -
  have "holed_heap lt xs first len root root" using assms(3) by (simp add: holed_heap_def)
  from sift_down_ok [OF assms(1) descends.here assms(2) this] obtain ys h1 where 1:
    "sift_down lt first (int len) xs (int root) (int root) = ok (ys, int h1, int h1)" "same_filled first len xs root ys h1"
    "descends root h1" "h1 < len" "holed_heap lt ys first len root h1" "(len - 1) div 2 \<le> h1" by blast
  have "first + len \<le> length ys" using assms(1) same_filled_length [OF 1(2)] by simp
  from only_child_ok [OF this 1(3-6)] obtain zs h2 where 2:
    "only_child first (int len) (ys, int h1, int h1) = ok (zs, int h2)" "same_filled first len ys h1 zs h2"
    "descends root h2" "h2 < len" "holed_heap lt zs first len root h2" "len \<le> 2 * h2 + 1" by blast
  have leaf: "(c - 1) div 2 \<noteq> h2" if "0 < c" "c < len" for c using that 2(6) by auto
  have heap: "heap_in lt zs first len root"
    using 2(5) leaf by (auto simp: holed_heap_def heap_in_def split: if_splits) (metis Suc_leI le_neq_implies_less)
  have lz: "first + len \<le> length zs" using assms(1) same_filled_length [OF 1(2)] same_filled_length [OF 2(2)] by simp
  from push_up_ok [OF lz 2(3,4) heap, of v] leaf obtain ws h3 where 3:
    "push_up lt first (int root) v zs (int h2) = ok (ws, int h3)" "same_filled first len zs h2 ws h3"
    "h3 < len" "heap_in lt (ws[first + h3 := v]) first len root" by blast
  have "same_filled first len xs root ws h3" using 1(2) 2(2) 3(2) same_filled_trans by blast
  then have "perm_in first (first + len) (xs[first + root := v]) (ws[first + h3 := v])" by (simp add: same_filled_def)
  moreover have "first + h3 < length ws" using lz 3(3) same_filled_length [OF 3(2)] by simp
  then have "adjust_heap lt xs first (int root) (int len) v = ok (ws[first + h3 := v])"
    by (simp add: adjust_heap_def 1(1) 2(1) 3(1) off_ok)
  ultimately show ?thesis using 3(4) by blast
qed

section \<open>The two phases\<close>

lemma make_heap_ok:
  assumes "first + len \<le> length xs" "2 \<le> len"
  shows "\<exists>ys. run_fold (\<lambda>parent xs. run_bind (idx_off xs first (int parent)) (\<lambda>val.
      adjust_heap lt xs first (int parent) (int len) val)) (rev [0..<Suc ((len - 2) div 2)]) xs = ok ys \<and>
    perm_in first (first + len) xs ys \<and> heap_in lt ys first len 0"
proof (rule run_fold_down [where P = "\<lambda>i ys. perm_in first (first + len) xs ys \<and> heap_in lt ys first len i"])
  show "perm_in first (first + len) xs xs \<and> heap_in lt xs first len (Suc ((len - 2) div 2))"
    by (auto simp: heap_in_def)
  fix i ys assume i: "i < Suc ((len - 2) div 2)" and ys: "perm_in first (first + len) xs ys \<and> heap_in lt ys first len (Suc i)"
  have l: "first + len \<le> length ys" "i < len" using assms i ys perm_in_length by fastforce+
  from adjust_heap_ok [OF l, of "ys ! (first + i)"] ys obtain zs where
    "adjust_heap lt ys first (int i) (int len) (ys ! (first + i)) = ok zs" "perm_in first (first + len) ys zs" "heap_in lt zs first len i"
    by auto
  then show "\<exists>s'. run_bind (idx_off ys first (int i)) (\<lambda>val. adjust_heap lt ys first (int i) (int len) val) = ok s' \<and>
      perm_in first (first + len) xs s' \<and> heap_in lt s' first len i"
    using ys l perm_in_trans by (fastforce simp: off_ok)
qed simp

lemma take_root:
  assumes "heap_in lt xs first (Suc stop - first) 0" "settled lt first (Suc stop) last_pos xs" "first < stop" "stop < last_pos" "last_pos \<le> length xs"
  obtains ys where "run_bind (idx xs stop) (\<lambda>val. run_bind (idx xs first) (\<lambda>root.
       run_bind (upd xs stop root) (\<lambda>xs. adjust_heap lt xs first 0 (int (stop - first)) val))) = ok ys"
    "perm_in first (Suc stop) xs ys" "heap_in lt ys first (stop - first) 0" "settled lt first stop last_pos ys"
proof -
  let ?xs = "xs[stop := xs ! first]" and ?zs = "xs[stop := xs ! first, first := xs ! stop]"
  have "heap_in lt ?xs first (stop - first) (Suc 0)" using assms(1,3) by (auto simp: heap_in_def)
  moreover have "first + (stop - first) \<le> length ?xs" "0 < stop - first" using assms by auto
  ultimately obtain ys where ys: "adjust_heap lt ?xs first (int 0) (int (stop - first)) (xs ! stop) = ok ys"
    "perm_in first (first + (stop - first)) (?xs[first + 0 := xs ! stop]) ys" "heap_in lt ys first (stop - first) 0"
    using adjust_heap_ok by blast
  have swap: "perm_in first (Suc stop) xs ?zs" using assms by (intro perm_in_swap) auto
  have zy: "perm_in first stop ?zs ys" using ys(2) assms(3) by simp
  have root: "\<not> lt (xs ! first) (xs ! k)" if "first \<le> k" "k \<le> stop" for k
    using heap_root [OF assms(1), of "k - first"] that assms(3) by simp
  have old: "\<not> lt (xs ! j) (xs ! i)" if "first \<le> i" "i < j" "stop < j" "j < last_pos" for i j
    using assms(2) that by (simp add: settled_def)
  have low: "\<exists>k. first \<le> k \<and> k \<le> stop \<and> ys ! i = xs ! k" if i: "first \<le> i" "i < stop" for i
  proof -
    have "perm_in first (Suc stop) xs ys" using swap zy perm_in_mono [OF zy, of first "Suc stop"] perm_in_trans by (metis le_SucI order_refl)
    then show ?thesis using perm_in_values [of first "Suc stop" xs ys i] i assms(4,5) by (metis Suc_leI le_trans less_Suc_eq_le less_SucI)
  qed
  have high: "ys ! j = ?zs ! j" if "stop \<le> j" "j < last_pos" for j using zy that assms(5) by (simp add: perm_in_def)
  have "settled lt first stop last_pos ys" unfolding settled_def
  proof (intro allI impI)
    fix i j assume ij: "first \<le> i" "i < j" "stop \<le> j" "j < last_pos"
    obtain k where k: "first \<le> k" "k \<le> stop \<or> k = i" "ys ! i = xs ! k"
    proof (cases "i < stop")
      case True then show ?thesis using low ij that by blast
    next
      case False
      then show ?thesis using that [of "if i = stop then first else i"] high [of i] ij assms(3-5) by (auto simp: nth_list_update)
    qed
    show "\<not> lt (ys ! j) (ys ! i)"
    proof (cases "j = stop")
      case True
      then have "ys ! j = xs ! first" using high [of j] ij assms by (simp add: nth_list_update)
      then show ?thesis using root [of k] k ij True by auto
    next
      case False
      then have "ys ! j = xs ! j" using high [of j] ij assms(3) by (simp add: nth_list_update)
      then show ?thesis using old [of k j] k ij False by auto
    qed
  qed
  moreover have "perm_in first (Suc stop) xs ys" using swap perm_in_mono [OF zy, of first "Suc stop"] perm_in_trans by (metis le_SucI order_refl)
  ultimately show ?thesis using that [of ys] ys assms by (simp add: idx_def upd_def)
qed

lemma heap_sort_ok:
  assumes "first \<le> last_pos" "last_pos \<le> length xs"
  shows "\<exists>ys. heap_sort_range lt xs first last_pos = ok ys \<and> perm_in first last_pos xs ys \<and> sorted_in lt first last_pos ys"
proof -
  let ?len = "last_pos - first"
  let ?make = "if ?len \<ge> 2 then run_fold (\<lambda>parent xs. run_bind (idx_off xs first (int parent)) (\<lambda>val.
      adjust_heap lt xs first (int parent) (int ?len) val)) (rev [0..<Suc ((?len - 2) div 2)]) xs else ok xs"
  obtain ys where ys: "?make = ok ys" "perm_in first last_pos xs ys" "heap_in lt ys first ?len 0"
  proof (cases "2 \<le> ?len")
    case True
    then show ?thesis using that make_heap_ok [of first ?len xs] assms by auto
  next
    case False
    then show ?thesis using that [of xs] by (auto simp: heap_in_def)
  qed
  let ?P = "\<lambda>stop zs. perm_in first last_pos xs zs \<and> heap_in lt zs first (stop - first) 0 \<and> settled lt first stop last_pos zs"
  have "\<exists>s'. run_fold (\<lambda>stop xs. run_bind (idx xs stop) (\<lambda>val. run_bind (idx xs first) (\<lambda>root.
       run_bind (upd xs stop root) (\<lambda>xs. adjust_heap lt xs first 0 (int (stop - first)) val)))) (rev [first + 1..<last_pos]) ys = ok s' \<and>
     ?P (first + 1) s'" if "first < last_pos"
  proof (rule run_fold_down [where P = ?P])
    show "?P last_pos ys" using ys by (simp add: settled_def)
    show "first + 1 \<le> last_pos" using that by simp
    fix i zs assume i: "first + 1 \<le> i" "i < last_pos" "?P (Suc i) zs"
    then have l: "last_pos \<le> length zs" "first < i" using assms(2) perm_in_length by fastforce+
    obtain ws where "run_bind (idx zs i) (\<lambda>val. run_bind (idx zs first) (\<lambda>root.
       run_bind (upd zs i root) (\<lambda>xs. adjust_heap lt xs first 0 (int (i - first)) val))) = ok ws"
      "perm_in first (Suc i) zs ws" "heap_in lt ws first (i - first) 0" "settled lt first i last_pos ws"
      using take_root [of zs first i last_pos] i l by blast
    then show "\<exists>s'. run_bind (idx zs i) (\<lambda>val. run_bind (idx zs first) (\<lambda>root.
       run_bind (upd zs i root) (\<lambda>xs. adjust_heap lt xs first 0 (int (i - first)) val))) = ok s' \<and> ?P i s'"
      using i perm_in_mono [of first "Suc i" zs ws first last_pos] perm_in_trans by (metis le_refl Suc_leI)
  qed
  moreover have "settled lt first (first + 1) last_pos zs \<Longrightarrow> sorted_in lt first last_pos zs" for zs
    by (auto simp: settled_def sorted_in_def)
  moreover have "sorted_in lt first last_pos ys" if "\<not> first < last_pos" using that by (simp add: sorted_in_def)
  ultimately show ?thesis using ys(1,2) assms(1) unfolding heap_sort_range_def
    by (cases "first < last_pos") (auto simp: usub_def)
qed

end

end
