(* ===== verification/Sort_Intro.thy ===== *)
theory Sort_Intro
  imports Sort_Heap
begin

text \<open>
  The partition around a median of three, whose scans have no bounds check of their own and rely on the median to
  stop, the introspective loop, and the sorting functions as a whole.
\<close>

section \<open>The scans\<close>

lemma scan_up_ok:
  "i \<le> k \<Longrightarrow> k < length xs \<Longrightarrow> \<not> lt (xs ! k) p \<Longrightarrow>
   \<exists>i'. scan_up lt xs p i = ok i' \<and> i \<le> i' \<and> i' \<le> k \<and> \<not> lt (xs ! i') p \<and> (\<forall>q. i \<le> q \<longrightarrow> q < i' \<longrightarrow> lt (xs ! q) p)"
proof (induction "k - i" arbitrary: i)
  case 0
  then show ?case by (subst scan_up.simps) auto
next
  case (Suc n)
  show ?case
  proof (cases "lt (xs ! i) p")
    case True
    then have "i \<noteq> k" using Suc.prems(3) by blast
    then have "n = k - Suc i" "Suc i \<le> k" using Suc.hyps(2) Suc.prems(1) by auto
    from Suc.hyps(1) [OF this Suc.prems(2,3)] obtain i' where i':
      "scan_up lt xs p (Suc i) = ok i'" "Suc i \<le> i'" "i' \<le> k" "\<not> lt (xs ! i') p" "\<And>q. Suc i \<le> q \<Longrightarrow> q < i' \<Longrightarrow> lt (xs ! q) p" by blast
    have "lt (xs ! q) p" if "i \<le> q" "q < i'" for q using that True i'(5) by (cases "q = i") auto
    moreover have "scan_up lt xs p i = ok i'" using True Suc.prems i'(1) by (subst scan_up.simps) simp
    ultimately show ?thesis using i'(2-4) by auto
  qed (use Suc.prems in \<open>subst scan_up.simps, auto\<close>)
qed

lemma scan_down_ok:
  "k \<le> j \<Longrightarrow> j < length xs \<Longrightarrow> \<not> lt p (xs ! k) \<Longrightarrow>
   \<exists>j'. scan_down lt xs p j = ok j' \<and> k \<le> j' \<and> j' \<le> j \<and> \<not> lt p (xs ! j') \<and> (\<forall>q. j' < q \<longrightarrow> q \<le> j \<longrightarrow> lt p (xs ! q))"
proof (induction j)
  case (Suc j)
  show ?case
  proof (cases "lt p (xs ! Suc j)")
    case True
    then have "k \<le> j" using Suc.prems by (metis le_Suc_eq)
    then show ?thesis using Suc True by (fastforce simp: idx_def le_Suc_eq)
  qed (use Suc.prems in \<open>auto simp: idx_def\<close>)
qed (auto simp: idx_def)

lemma swap_at_ok:
  assumes "i < length xs" "j < length xs"
  shows "swap_at xs i j = ok (xs[i := xs ! j, j := xs ! i])"
  using assms by (simp add: swap_at_def)

section \<open>The partition\<close>

context comparator
begin

lemma partition_ok:
  assumes "pivot < f" "f \<le> i" "i \<le> j" "j \<le> l" "l \<le> length xs" "p = xs ! pivot"
    "\<And>k. f \<le> k \<Longrightarrow> k < i \<Longrightarrow> \<not> lt p (xs ! k)" "\<And>k. j \<le> k \<Longrightarrow> k < l \<Longrightarrow> \<not> lt (xs ! k) p"
    "\<exists>k. i \<le> k \<and> k < l \<and> \<not> lt (xs ! k) p" "\<exists>k. f \<le> k \<and> k < j \<and> \<not> lt p (xs ! k)"
  shows "\<exists>ys cut. unguarded_partition lt pivot xs i j = ok (ys, cut) \<and> perm_in f l xs ys \<and> f \<le> cut \<and> cut < l \<and>
    (\<forall>k. f \<le> k \<longrightarrow> k < cut \<longrightarrow> \<not> lt p (ys ! k)) \<and> (\<forall>k. cut \<le> k \<longrightarrow> k < l \<longrightarrow> \<not> lt (ys ! k) p)"
  using assms
proof (induction j arbitrary: i xs rule: less_induct)
  case (less j)
  obtain ku where ku: "i \<le> ku" "ku < l" "\<not> lt (xs ! ku) p" using less.prems(9) by blast
  obtain kd where kd: "f \<le> kd" "kd < j" "\<not> lt p (xs ! kd)" using less.prems(10) by blast
  obtain i' where i': "scan_up lt xs p i = ok i'" "i \<le> i'" "i' \<le> ku" "\<not> lt (xs ! i') p" "\<And>q. i \<le> q \<Longrightarrow> q < i' \<Longrightarrow> lt (xs ! q) p"
    using scan_up_ok [where lt = lt and p = p, OF ku(1) less_le_trans [OF ku(2) less.prems(5)] ku(3)] by blast
  have "kd \<le> j - 1" "j - 1 < length xs" using kd less.prems by auto
  then obtain j' where j': "scan_down lt xs p (j - 1) = ok j'" "kd \<le> j'" "j' \<le> j - 1" "\<not> lt p (xs ! j')"
    "\<And>q. j' < q \<Longrightarrow> q \<le> j - 1 \<Longrightarrow> lt p (xs ! q)"
    using scan_down_ok [where lt = lt and p = p, of kd "j - 1" xs, OF _ _ kd(3)] by blast
  have body: "unguarded_partition lt pivot xs i j =
      (if i' \<ge> j' then ok (xs, i') else run_bind (swap_at xs i' j') (\<lambda>xs. unguarded_partition lt pivot xs (i' + 1) j'))"
    using less.prems(1-6) kd(2) i'(1) j'(1) by (subst unguarded_partition.simps) (simp add: idx_def usub_def)
  have low: "\<not> lt p (xs ! k)" if "f \<le> k" "k < i'" for k
    using that less.prems(7) asym [OF i'(5)] by (cases "k < i") auto
  have high: "\<not> lt (xs ! k) p" if "j' < k" "k < l" for k
  proof (cases "k < j")
    case True
    then show ?thesis using that asym [OF j'(5)] by simp
  qed (use that less.prems(8) in simp)
  show ?case
  proof (cases "i' \<ge> j'")
    case True
    have "\<not> lt (xs ! k) p" if "i' \<le> k" "k < l" for k
      using that high i'(4) True by (cases "k = i'") auto
    then show ?thesis using True body low i' ku(2) less.prems(2) by (intro exI [of _ xs] exI [of _ i']) auto
  next
    case False
    let ?ys = "xs[i' := xs ! j', j' := xs ! i']"
    have b: "f \<le> i'" "i' < j'" "j' < j" "j' < l" "i' < length xs" "j' < length xs" "pivot \<noteq> i'" "pivot \<noteq> j'"
      using False less.prems i' j' kd(2) by auto
    have nth: "?ys ! k = (if k = j' then xs ! i' else if k = i' then xs ! j' else xs ! k)" for k
      using b by (simp add: nth_list_update)
    have lows: "\<not> lt p (?ys ! k)" if "f \<le> k" "k < i' + 1" for k using that b low j'(4) by (auto simp: nth less_Suc_eq)
    have highs: "\<not> lt (?ys ! k) p" if "j' \<le> k" "k < l" for k using that b high i'(4) by (auto simp: nth)
    have "\<exists>ys cut. unguarded_partition lt pivot ?ys (i' + 1) j' = ok (ys, cut) \<and> perm_in f l ?ys ys \<and> f \<le> cut \<and> cut < l \<and>
      (\<forall>k. f \<le> k \<longrightarrow> k < cut \<longrightarrow> \<not> lt p (ys ! k)) \<and> (\<forall>k. cut \<le> k \<longrightarrow> k < l \<longrightarrow> \<not> lt (ys ! k) p)"
    proof (rule less.IH [OF b(3)])
      show "\<exists>k\<ge>i' + 1. k < l \<and> \<not> lt (?ys ! k) p" using highs [of j'] b by (intro exI [of _ j']) simp
      show "\<exists>k\<ge>f. k < j' \<and> \<not> lt p (?ys ! k)" using lows [of i'] b by (intro exI [of _ i']) simp
      show "p = ?ys ! pivot" using b less.prems(6) by (simp add: nth)
    qed (use b less.prems lows highs in auto)
    moreover have "perm_in f l xs ?ys" using b less.prems(5) by (intro perm_in_swap) auto
    ultimately show ?thesis using body False b swap_at_ok perm_in_trans by (metis run_bind_simps(1))
  qed
qed

text \<open>The median leaves an element on each side that stops the scans.\<close>

lemma median_ok:
  assumes "first < a" "first < b" "first < c" "a \<noteq> b" "a \<noteq> c" "b \<noteq> c" "a < l" "b < l" "c < l" "l \<le> length xs"
  shows "\<exists>ys. move_median_to_first lt xs first a b c = ok ys \<and> perm_in first l xs ys \<and>
    (\<exists>k. first < k \<and> k < l \<and> \<not> lt (ys ! k) (ys ! first)) \<and> (\<exists>k. first < k \<and> k < l \<and> \<not> lt (ys ! first) (ys ! k))"
proof -
  let ?swap = "\<lambda>m. xs[first := xs ! m, m := xs ! first]"
  have perm: "perm_in first l xs (?swap m)" if "first < m" "m < l" for m using that assms(10) by (intro perm_in_swap) auto
  have nth: "?swap m ! first = xs ! m" "k \<noteq> first \<Longrightarrow> k \<noteq> m \<Longrightarrow> ?swap m ! k = xs ! k" if "first < m" "m < l" for m k
    using that assms(10) by (auto simp: nth_list_update)
  have run: "swap_at xs first m = ok (?swap m)" if "first < m" "m < l" for m using that assms(10) by (intro swap_at_ok) auto
  have use: "?thesis" if m: "first < m" "m < l" and q: "first < q" "q < l" "q \<noteq> m" "\<not> lt (xs ! q) (xs ! m)"
    and r: "first < r" "r < l" "r \<noteq> m" "\<not> lt (xs ! m) (xs ! r)" and "move_median_to_first lt xs first a b c = swap_at xs first m" for m q r
  proof (intro exI conjI)
    show "move_median_to_first lt xs first a b c = ok (?swap m)" using that run by simp
    show "\<not> lt (?swap m ! q) (?swap m ! first)" "\<not> lt (?swap m ! first) (?swap m ! r)" using nth [OF m] q r by auto
  qed (use m q r perm in auto)
  have code: "move_median_to_first lt xs first a b c =
     (if lt (xs ! a) (xs ! b) then
        if lt (xs ! b) (xs ! c) then swap_at xs first b else if lt (xs ! a) (xs ! c) then swap_at xs first c else swap_at xs first a
      else if lt (xs ! a) (xs ! c) then swap_at xs first a else if lt (xs ! b) (xs ! c) then swap_at xs first c else swap_at xs first b)"
    using assms by (simp add: move_median_to_first_def idx_def)
  consider "lt (xs ! a) (xs ! b)" "lt (xs ! b) (xs ! c)" | "lt (xs ! a) (xs ! b)" "\<not> lt (xs ! b) (xs ! c)" "lt (xs ! a) (xs ! c)"
    | "lt (xs ! a) (xs ! b)" "\<not> lt (xs ! b) (xs ! c)" "\<not> lt (xs ! a) (xs ! c)" | "\<not> lt (xs ! a) (xs ! b)" "lt (xs ! a) (xs ! c)"
    | "\<not> lt (xs ! a) (xs ! b)" "\<not> lt (xs ! a) (xs ! c)" "lt (xs ! b) (xs ! c)"
    | "\<not> lt (xs ! a) (xs ! b)" "\<not> lt (xs ! a) (xs ! c)" "\<not> lt (xs ! b) (xs ! c)" by blast
  then show ?thesis
  proof cases
    case 1 then show ?thesis using use [of b c a] assms asym code by simp
  next
    case 2 then show ?thesis using use [of c b a] assms asym code by simp
  next
    case 3 then show ?thesis using use [of a b c] assms asym code by simp
  next
    case 4 then show ?thesis using use [of a c b] assms asym code by simp
  next
    case 5 then show ?thesis using use [of c a b] assms asym code by simp
  next
    case 6 then show ?thesis using use [of b a c] assms code by simp
  qed
qed

lemma partition_pivot_ok:
  assumes "first + SORT_THRESHOLD < l" "l \<le> length xs"
  shows "\<exists>ys cut. unguarded_partition_pivot lt xs first l = ok (ys, cut) \<and> perm_in first l xs ys \<and> first < cut \<and> cut < l \<and>
    (\<exists>p. (\<forall>k. first \<le> k \<longrightarrow> k < cut \<longrightarrow> \<not> lt p (ys ! k)) \<and> (\<forall>k. cut \<le> k \<longrightarrow> k < l \<longrightarrow> \<not> lt (ys ! k) p))"
proof -
  let ?mid = "first + (l - first) div 2"
  have t: "first + 16 < l" using assms(1) by (simp add: SORT_THRESHOLD_def)
  have "first < first + 1" "first < ?mid" "first < l - 1" "first + 1 \<noteq> ?mid" "first + 1 \<noteq> l - 1" "?mid \<noteq> l - 1"
    "first + 1 < l" "?mid < l" "l - 1 < l" using t by auto
  from median_ok [OF this assms(2)] obtain ys where ys: "move_median_to_first lt xs first (first + 1) ?mid (l - 1) = ok ys"
    "perm_in first l xs ys" "\<exists>k. first < k \<and> k < l \<and> \<not> lt (ys ! k) (ys ! first)" "\<exists>k. first < k \<and> k < l \<and> \<not> lt (ys ! first) (ys ! k)"
    by blast
  have len: "l \<le> length ys" using ys(2) assms(2) perm_in_length by fastforce
  have "\<exists>zs cut. unguarded_partition lt first ys (first + 1) l = ok (zs, cut) \<and> perm_in (first + 1) l ys zs \<and> first + 1 \<le> cut \<and> cut < l \<and>
    (\<forall>k. first + 1 \<le> k \<longrightarrow> k < cut \<longrightarrow> \<not> lt (ys ! first) (zs ! k)) \<and> (\<forall>k. cut \<le> k \<longrightarrow> k < l \<longrightarrow> \<not> lt (zs ! k) (ys ! first))"
    by (rule partition_ok) (use t len ys(3,4) in \<open>auto simp: Suc_le_eq\<close>)
  then obtain zs cut where zs: "unguarded_partition lt first ys (first + 1) l = ok (zs, cut)" "perm_in (first + 1) l ys zs" "first + 1 \<le> cut"
    "cut < l" "\<And>k. first + 1 \<le> k \<Longrightarrow> k < cut \<Longrightarrow> \<not> lt (ys ! first) (zs ! k)" "\<And>k. cut \<le> k \<Longrightarrow> k < l \<Longrightarrow> \<not> lt (zs ! k) (ys ! first)"
    by blast
  have "zs ! first = ys ! first" using zs(2) len t by (simp add: perm_in_def)
  then have "\<not> lt (ys ! first) (zs ! k)" if "first \<le> k" "k < cut" for k using that zs(5) by (cases "k = first") auto
  moreover have "unguarded_partition_pivot lt xs first l = ok (zs, cut)"
    using t ys(1) zs(1) by (simp add: unguarded_partition_pivot_def usub_def)
  moreover have "perm_in first l xs zs" using ys(2) perm_in_mono [OF zs(2), of first l] perm_in_trans by (metis le_add1 order_refl)
  ultimately show ?thesis using zs(3,4,6) by (metis Suc_eq_plus1 Suc_le_eq)
qed

section \<open>The sorts\<close>

lemma introsort_ok:
  assumes "first \<le> l" "l \<le> length xs"
  shows "\<exists>ys. introsort_loop lt d xs first l = ok ys \<and> perm_in first l xs ys"
  using assms
proof (induction d arbitrary: xs first l)
  case 0
  then show ?case using heap_sort_ok [of first l xs] by (auto simp: usub_def)
next
  case (Suc d)
  show ?case
  proof (cases "l - first > SORT_THRESHOLD")
    case True
    then have "first + SORT_THRESHOLD < l" by simp
    from partition_pivot_ok [OF this Suc.prems(2)] obtain ys cut where c:
      "unguarded_partition_pivot lt xs first l = ok (ys, cut)" "perm_in first l xs ys" "first < cut" "cut < l" by blast
    have len: "l \<le> length ys" "length ys = length xs" using c(2) Suc.prems(2) perm_in_length by fastforce+
    obtain zs where z: "introsort_loop lt d ys cut l = ok zs" "perm_in cut l ys zs" using Suc.IH [of cut l ys] c(4) len by auto
    have "cut \<le> length zs" using c(4) len perm_in_length [OF z(2)] by simp
    then obtain ws where w: "introsort_loop lt d zs first cut = ok ws" "perm_in first cut zs ws"
      using Suc.IH [of first cut zs] c(3) by auto
    have "perm_in first l ys zs" "perm_in first l zs ws"
      using perm_in_mono [OF z(2), of first l] perm_in_mono [OF w(2), of first l] c(3,4) by simp_all
    then have "perm_in first l xs ws" using c(2) perm_in_trans by blast
    then show ?thesis using True Suc.prems(1) c(1) z(1) w(1) by (simp add: usub_def)
  qed (use Suc.prems(1) in \<open>simp add: usub_def\<close>)
qed

lemma std_sort_ok: "\<exists>ys. std_sort lt xs = ok ys \<and> mset ys = mset xs \<and> sorted_wrt (\<lambda>x y. \<not> lt y x) ys"
proof (cases "xs = []")
  case False
  obtain ys where ys: "introsort_loop lt (2 * nat (64 - 1 - count_leading_zeros (of_nat (length xs)))) xs 0 (length xs) = ok ys"
    "perm_in 0 (length xs) xs ys" using introsort_ok [of 0 "length xs" xs] by auto
  have len: "length ys = length xs" using perm_in_length [OF ys(2)] .
  obtain zs where zs: "final_insertion_sort lt ys 0 (length xs) = ok zs" "perm_in 0 (length xs) ys zs" "sorted_in lt 0 (length xs) zs"
    using final_insertion_sort_ok [of 0 "length xs" ys] len by auto
  have "length zs = length xs" using perm_in_length [OF zs(2)] len by simp
  then have "sorted_wrt (\<lambda>x y. \<not> lt y x) zs" using zs(3) sorted_in_all by metis
  moreover have "mset zs = mset xs" using ys(2) zs(2) by (simp add: perm_in_def)
  ultimately show ?thesis using False ys(1) zs(1) by (auto simp: std_sort_def Let_def)
qed (simp add: std_sort_def)

lemma partial_sort_ok: "\<exists>ys. std_partial_sort_full lt xs = ok ys \<and> mset ys = mset xs \<and> sorted_wrt (\<lambda>x y. \<not> lt y x) ys"
proof -
  obtain ys where ys: "heap_sort_range lt xs 0 (length xs) = ok ys" "perm_in 0 (length xs) xs ys" "sorted_in lt 0 (length xs) ys"
    using heap_sort_ok [of 0 "length xs" xs] by auto
  then show ?thesis using sorted_in_all [of lt ys] perm_in_length [OF ys(2)] by (auto simp: std_partial_sort_full_def perm_in_def)
qed

end

end
