(* ===== verification/Load_Table.thy ===== *)
theory Load_Table
  imports Sort_Intro Address
begin

text \<open>
  The tables of loads of a jump table, src/src/jumptable.rs: entries that say how many items of a size are read from
  an address. They are sorted by address with the sort of src/src/stdsort.rs and runs of adjacent items are
  collapsed into one entry. A sum or product that leaves \<open>i32\<close> panics.
\<close>

record load_table =
  ld_addr :: address
  ld_size :: i32
  ld_num :: i32

definition new_load_table :: "address \<Rightarrow> i32 \<Rightarrow> load_table" where
  "new_load_table ad sz = \<lparr>ld_addr = ad, ld_size = sz, ld_num = 1\<rparr>"

definition load_table_with_count :: "address \<Rightarrow> i32 \<Rightarrow> i32 \<Rightarrow> load_table" where
  "load_table_with_count ad sz nm = \<lparr>ld_addr = ad, ld_size = sz, ld_num = nm\<rparr>"

definition load_table_less :: "load_table \<Rightarrow> load_table \<Rightarrow> bool" where
  "load_table_less a b \<longleftrightarrow> addr_cmp (ld_addr a) (ld_addr b) = Less"

definition end_of_load :: "load_table \<Rightarrow> address run" where
  "end_of_load e = run_bind (i32_checked (ld_size e * ld_num e)) (\<lambda>n. address_add (ld_addr e) (of_int n))"

text \<open>Whether the entries already follow one another, with the sum of their counts.\<close>

fun contiguous_loop :: "i32 \<Rightarrow> load_table list \<Rightarrow> i32 \<Rightarrow> address \<Rightarrow> i32 option run" where
  "contiguous_loop sz [] num nextaddr = ok (Some num)"
| "contiguous_loop sz (e # es) num nextaddr =
     (if addr_eq (ld_addr e) nextaddr \<and> ld_size e = sz then
        run_bind (i32_checked (num + ld_num e)) (\<lambda>num.
        run_bind (address_add (ld_addr e) (of_int (ld_size e))) (contiguous_loop sz es num))
      else ok None)"

definition collapse_step :: "nat \<Rightarrow> load_table list \<times> nat \<times> address \<times> nat \<Rightarrow> (load_table list \<times> nat \<times> address \<times> nat) run" where
  "collapse_step index s = (case s of (table, lastiter, nextaddr, cnt) \<Rightarrow>
     run_bind (idx table index) (\<lambda>current. run_bind (idx table lastiter) (\<lambda>lst.
     if addr_eq (ld_addr current) nextaddr \<and> ld_size current = ld_size lst then
       run_bind (i32_checked (ld_num lst + ld_num current)) (\<lambda>n.
       run_bind (end_of_load current) (\<lambda>nextaddr. ok (table[lastiter := lst\<lparr>ld_num := n\<rparr>], lastiter, nextaddr, cnt)))
     else if addr_cmp nextaddr (ld_addr current) = Less \<or> ld_size current \<noteq> ld_size lst then
       run_bind (upd table (lastiter + 1) current) (\<lambda>table.
       run_bind (end_of_load current) (\<lambda>nextaddr. ok (table, lastiter + 1, nextaddr, cnt + 1)))
     else ok (table, lastiter, nextaddr, cnt))))"

text \<open>\<open>resize\<close> with a count that is never above the length only truncates; above it, it fills with the given entry.\<close>

definition collapse_table :: "load_table list \<Rightarrow> load_table list run" where
  "collapse_table table =
     (case table of [] \<Rightarrow> ok []
      | e # es \<Rightarrow>
        run_bind (address_add (ld_addr e) (of_int (ld_size e))) (\<lambda>nextaddr.
        run_bind (contiguous_loop (ld_size e) es (ld_num e) nextaddr) (\<lambda>r.
        case r of
          Some num \<Rightarrow> ok [e\<lparr>ld_num := num\<rparr>]
        | None \<Rightarrow>
            run_bind (std_sort load_table_less table) (\<lambda>table.
            run_bind (idx table 0) (\<lambda>e. run_bind (end_of_load e) (\<lambda>nextaddr.
            run_bind (run_fold collapse_step [1..<length table] (table, 0, nextaddr, 1)) (\<lambda>(table, _, nextaddr, cnt).
            ok (take cnt table @ replicate (cnt - length table) (load_table_with_count nextaddr 0 1)))))))))"

section \<open>The order of the entries\<close>

lemma load_table_less_key: "load_table_less a b \<longleftrightarrow> addr_key (ld_addr a) < addr_key (ld_addr b)"
  by (auto simp: load_table_less_def addr_cmp_key cmp_of_def)

interpretation loads: comparator load_table_less
  by unfold_locales (auto simp: load_table_less_key not_less intro: order_trans)

text \<open>
  C4: the sort returns, whatever the slice, a permutation of it in which no element is below an earlier one, for every
  comparison that is a strict weak order: neither the unguarded scans of the partition nor the heap
  operations leave the slice, and the partial sort over the whole slice, which is a heap sort, does the same.
\<close>

theorem std_sort_sorts:
  assumes "\<And>x y. lt x y \<Longrightarrow> \<not> lt y x" "\<And>x y z. \<not> lt x y \<Longrightarrow> \<not> lt y z \<Longrightarrow> \<not> lt x z"
  shows "(\<exists>ys. std_sort lt xs = ok ys \<and> mset ys = mset xs \<and> sorted_wrt (\<lambda>x y. \<not> lt y x) ys) \<and>
    (\<exists>ys. std_partial_sort_full lt xs = ok ys \<and> mset ys = mset xs \<and> sorted_wrt (\<lambda>x y. \<not> lt y x) ys)"
proof -
  have "comparator lt" using assms by unfold_locales blast+
  then show ?thesis by (simp add: comparator.std_sort_ok comparator.partial_sort_ok)
qed

lemma std_sort_sorts_witness:
  "\<exists>ys. std_sort (<) (rev [0..<40]) = ok ys \<and> mset ys = mset (rev [0..<40 :: nat]) \<and> sorted_wrt (\<lambda>x y. \<not> y < x) ys"
  using std_sort_sorts [of "(<)" "rev [0..<40 :: nat]"] by auto

section \<open>Collapsing keeps the loads\<close>

text \<open>Positions as a space index and a number, ordered as addresses are.\<close>

definition apos :: "address \<Rightarrow> i32 option \<times> int" where
  "apos a = (space_index (ad_space a), uint (ad_offset a))"

lemma apos_key: "addr_eq a b \<longleftrightarrow> apos a = apos b" "addr_cmp a b = Less \<longleftrightarrow> apos a < apos b"
  by (auto simp: addr_eq_key addr_cmp_key addr_key_def apos_def word_uint_eq_iff cmp_of_def less_prod_def' word_less_def)

abbreviation load_off :: "load_table \<Rightarrow> int" where
  "load_off e \<equiv> uint (ad_offset (ld_addr e))"

text \<open>The position of an item of an entry, and the items of a table: where each starts and its size.\<close>

definition load_pos :: "load_table \<Rightarrow> int \<Rightarrow> i32 option \<times> int" where
  "load_pos e k = (space_index (ad_space (ld_addr e)), load_off e + k * ld_size e)"

definition load_items :: "load_table list \<Rightarrow> ((i32 option \<times> int) \<times> i32) set" where
  "load_items t = (\<Union>e\<in>set t. (\<lambda>k. (load_pos e k, ld_size e)) ` {0..<ld_num e})"

text \<open>A single item that does not reach the end of its space.\<close>

definition single_load :: "load_table \<Rightarrow> bool" where
  "single_load e \<longleftrightarrow> ld_num e = 1 \<and> 0 < ld_size e \<and> ld_size e < 2 ^ 31 \<and>
     (case ad_space (ld_addr e) of None \<Rightarrow> False | Some spc \<Rightarrow> load_off e + ld_size e \<le> uint (as_highest spc))"

text \<open>Single items of any sizes and spaces; of two items with one size in one space none is partly over the other.\<close>

definition single_loads :: "load_table list \<Rightarrow> bool" where
  "single_loads t \<longleftrightarrow> int (length t) < 2 ^ 31 \<and> (\<forall>e\<in>set t. single_load e) \<and>
     (\<forall>e\<in>set t. \<forall>f\<in>set t. ld_size e = ld_size f \<and> load_pos e 0 < load_pos f 0 \<longrightarrow> load_pos e 1 \<le> load_pos f 0)"

text \<open>The entries increase, and of two neighbours with one size the second starts after the end of the first.\<close>

definition unjoined :: "load_table list \<Rightarrow> bool" where
  "unjoined t \<longleftrightarrow> (\<forall>i. Suc i < length t \<longrightarrow> load_pos (t ! i) 0 \<le> load_pos (t ! Suc i) 0 \<and>
     (ld_size (t ! i) = ld_size (t ! Suc i) \<longrightarrow> load_pos (t ! i) (ld_num (t ! i)) < load_pos (t ! Suc i) 0))"

lemma load_pos_start: "load_pos e 0 = apos (ld_addr e)"
  by (simp add: load_pos_def apos_def)

lemma single_loadsD:
  assumes "single_loads t" "e \<in> set t"
  shows "single_load e" "ld_num e = 1" "0 < ld_size e" "ld_size e < 2 ^ 31"
  using assms by (auto simp: single_loads_def single_load_def)

lemma single_add:
  assumes "single_load e"
  obtains na where "address_add (ld_addr e) (of_int (ld_size e)) = ok na" "end_of_load e = ok na" "apos na = load_pos e 1"
proof -
  obtain spc where u: "ld_num e = 1" "0 < ld_size e" "ld_size e < 2 ^ 31" "ad_space (ld_addr e) = Some spc" "load_off e + ld_size e \<le> uint (as_highest spc)"
    using assms by (auto simp: single_load_def split: option.splits)
  let ?na = "(ld_addr e)\<lparr>ad_offset := ad_offset (ld_addr e) + of_int (ld_size e)\<rparr>"
  have b: "uint (as_highest spc) < 2 ^ 64" using uint_bounded [of "as_highest spc"] by simp
  have "0 \<le> load_off e" by simp
  moreover have "uint (of_int (ld_size e) :: u64) = ld_size e" using u(2,3) by (simp add: uint_word_of_int_eq take_bit_int_eq_self)
  ultimately have l: "uint (ad_offset (ld_addr e) + of_int (ld_size e)) = load_off e + ld_size e" using u(5) b by (simp add: uint_plus_if')
  then have "ad_offset (ld_addr e) + of_int (ld_size e) \<le> as_highest spc" using u(5) by (simp add: word_le_def)
  then have "address_add (ld_addr e) (of_int (ld_size e)) = ok ?na"
    using u(4) by (simp add: address_add_def base_space_def wrap_offset_def)
  moreover from this have "end_of_load e = ok ?na" using u(1-3) by (simp add: end_of_load_def i32_checked_def)
  moreover have "apos ?na = load_pos e 1" using l by (simp add: apos_def load_pos_def)
  ultimately show ?thesis by (rule that)
qed

lemma contiguous_ok:
  assumes "single_loads t" "set es \<subseteq> set t" "0 \<le> num" "num + int (length es) < 2 ^ 31"
  shows "\<exists>r. contiguous_loop sz es num na = ok r \<and> (\<forall>m. r = Some m \<longrightarrow> m = num + int (length es) \<and>
    (\<forall>i<length es. ld_size (es ! i) = sz \<and> load_pos (es ! i) 0 = (fst (apos na), snd (apos na) + int i * sz)))"
  using assms(2-4)
proof (induction es arbitrary: num na)
  case (Cons e es)
  have e: "single_load e" "ld_num e = 1" using Cons.prems(1) single_loadsD [OF assms(1)] by auto
  have w: "i32_checked (num + 1) = ok (num + 1)" using Cons.prems(2,3) by (simp add: i32_checked_def)
  show ?case
  proof (cases "addr_eq (ld_addr e) na \<and> ld_size e = sz")
    case True
    then have o: "load_pos e 0 = apos na" by (simp add: apos_key load_pos_start)
    obtain nb where nb: "address_add (ld_addr e) (of_int (ld_size e)) = ok nb" "apos nb = load_pos e 1" by (rule single_add [OF e(1)]) blast
    obtain r where r: "contiguous_loop sz es (num + 1) nb = ok r" "\<And>m. r = Some m \<Longrightarrow> m = num + 1 + int (length es)"
      "\<And>m i. r = Some m \<Longrightarrow> i < length es \<Longrightarrow> ld_size (es ! i) = sz \<and> load_pos (es ! i) 0 = (fst (apos nb), snd (apos nb) + int i * sz)"
      using Cons.IH [of "num + 1" nb] Cons.prems by auto
    have "ld_size ((e # es) ! i) = sz \<and> load_pos ((e # es) ! i) 0 = (fst (apos na), snd (apos na) + int i * sz)"
      if "r = Some m" "i < length (e # es)" for i m
      using that r(3) nb(2) o [symmetric] True by (cases i) (auto simp: algebra_simps load_pos_def)
    then show ?thesis using True e r(1,2) nb(1) w by (intro exI [of _ r]) auto
  next
    case False
    then have "contiguous_loop sz (e # es) num na = ok None" by auto
    then show ?thesis by simp
  qed
qed simp

lemma load_items_append: "load_items (xs @ ys) = load_items xs \<union> load_items ys"
  by (auto simp: load_items_def)

lemma unit_range: "{0..<1 :: int} = {0}"
  by auto

lemma load_items_units: "(\<And>e. e \<in> set t \<Longrightarrow> ld_num e = 1) \<Longrightarrow> load_items t = (\<lambda>e. (load_pos e 0, ld_size e)) ` set t"
  by (simp add: load_items_def unit_range UNION_singleton_eq_range)

lemma load_items_unit: "ld_num e = 1 \<Longrightarrow> load_items [e] = {(load_pos e 0, ld_size e)}"
  using load_items_units [of "[e]"] by simp

lemma load_items_more:
  assumes "0 \<le> ld_num e"
  shows "load_items [e\<lparr>ld_num := ld_num e + 1\<rparr>] = insert (load_pos e (ld_num e), ld_size e) (load_items [e])"
proof -
  have "{0..<ld_num e + 1} = insert (ld_num e) {0..<ld_num e}" using assms by auto
  moreover have "load_pos (e\<lparr>ld_num := ld_num e + 1\<rparr>) = load_pos e" by (simp add: fun_eq_iff load_pos_def)
  ultimately show ?thesis by (simp add: load_items_def)
qed

lemma image_nth: "f ` set xs = (\<lambda>k. f (xs ! k)) ` {0..<length xs}"
  using nth_image [of "length xs" xs] by (metis image_image order_refl take_all)

lemma contiguous_items:
  assumes "\<And>f. f \<in> set (e # es) \<Longrightarrow> ld_num f = 1"
    "\<And>i. i < length es \<Longrightarrow> ld_size (es ! i) = ld_size e \<and> load_pos (es ! i) 0 = load_pos e (1 + int i)"
  shows "load_items [e\<lparr>ld_num := 1 + int (length es)\<rparr>] = load_items (e # es)"
proof -
  let ?n = "Suc (length es)"
  have at: "(load_pos ((e # es) ! k) 0, ld_size ((e # es) ! k)) = (load_pos e (int k), ld_size e)" if "k < ?n" for k
    using that assms(2) by (cases k) auto
  have "load_items (e # es) = (\<lambda>f. (load_pos f 0, ld_size f)) ` set (e # es)" using assms(1) by (rule load_items_units)
  also have "\<dots> = (\<lambda>k. (load_pos ((e # es) ! k) 0, ld_size ((e # es) ! k))) ` {0..<?n}"
    by (simp only: image_nth [of _ "e # es"] length_Cons)
  also have "\<dots> = (\<lambda>k. (load_pos e (int k), ld_size e)) ` {0..<?n}" by (rule image_cong [OF refl at]) simp
  also have "\<dots> = (\<lambda>k. (load_pos e k, ld_size e)) ` int ` {0..<?n}" by (simp add: image_image)
  also have "int ` {0..<?n} = {0..<1 + int (length es)}" by (simp add: image_int_atLeastLessThan)
  finally show ?thesis by (simp add: load_items_def load_pos_def)
qed

lemma unjoined_snoc:
  assumes "unjoined xs" "xs \<noteq> []" "load_pos (last xs) 0 \<le> load_pos x 0"
    "ld_size (last xs) = ld_size x \<Longrightarrow> load_pos (last xs) (ld_num (last xs)) < load_pos x 0"
  shows "unjoined (xs @ [x])"
  unfolding unjoined_def
proof (intro allI impI)
  fix i assume i: "Suc i < length (xs @ [x])"
  show "load_pos ((xs @ [x]) ! i) 0 \<le> load_pos ((xs @ [x]) ! Suc i) 0 \<and> (ld_size ((xs @ [x]) ! i) = ld_size ((xs @ [x]) ! Suc i) \<longrightarrow>
      load_pos ((xs @ [x]) ! i) (ld_num ((xs @ [x]) ! i)) < load_pos ((xs @ [x]) ! Suc i) 0)"
  proof (cases "Suc i < length xs")
    case True
    then show ?thesis using assms(1) by (simp add: unjoined_def nth_append)
  next
    case False
    then have "i = length xs - 1" "Suc i = length xs" using i assms(2) by (cases xs; simp)+
    then show ?thesis using assms(2-4) by (simp add: nth_append last_conv_nth)
  qed
qed

lemma unjoined_grow:
  assumes "unjoined (xs @ [e])" "ld_addr e' = ld_addr e" "ld_size e' = ld_size e"
  shows "unjoined (xs @ [e'])"
proof -
  have "load_pos e' 0 = load_pos e 0" using assms(2) by (simp add: load_pos_start)
  then show ?thesis using assms(1,3) by (auto simp: unjoined_def nth_append less_Suc_eq split: if_splits)
qed

text \<open>
  The state of the collapsing loop after the first \<open>k\<close> entries of the sorted table. The last item of the last run is one of
  these entries.
\<close>

definition collapse_inv :: "load_table list \<Rightarrow> nat \<Rightarrow> load_table list \<times> nat \<times> address \<times> nat \<Rightarrow> bool" where
  "collapse_inv ys k s = (case s of (T, li, na, cnt) \<Rightarrow>
     length T = length ys \<and> li < k \<and> cnt = Suc li \<and> (\<forall>j. k \<le> j \<longrightarrow> j < length ys \<longrightarrow> T ! j = ys ! j) \<and>
     apos na = load_pos (T ! li) (ld_num (T ! li)) \<and> load_items (take (Suc li) T) = load_items (take k ys) \<and>
     1 \<le> ld_num (T ! li) \<and> ld_num (T ! li) \<le> int k \<and> unjoined (take (Suc li) T) \<and>
     (\<exists>i<k. ld_size (ys ! i) = ld_size (T ! li) \<and> load_pos (ys ! i) 0 = load_pos (T ! li) (ld_num (T ! li) - 1)))"

lemma load_pos_mono: "0 \<le> ld_size e \<Longrightarrow> j \<le> k \<Longrightarrow> load_pos e j \<le> load_pos e k"
  by (simp add: load_pos_def mult_right_mono)

lemma collapse_step_ok:
  assumes "single_loads ys" "\<And>i j. i < j \<Longrightarrow> j < length ys \<Longrightarrow> load_pos (ys ! i) 0 \<le> load_pos (ys ! j) 0"
    "1 \<le> k" "k < length ys" "collapse_inv ys k s"
  shows "\<exists>s'. collapse_step k s = ok s' \<and> collapse_inv ys (Suc k) s'"
proof -
  obtain T li na cnt where s: "s = (T, li, na, cnt)" by (cases s) auto
  let ?c = "ys ! k" and ?l = "T ! li"
  have inv: "length T = length ys" "li < k" "cnt = Suc li" "\<And>j. k \<le> j \<Longrightarrow> j < length ys \<Longrightarrow> T ! j = ys ! j"
    "apos na = load_pos ?l (ld_num ?l)" "load_items (take (Suc li) T) = load_items (take k ys)"
    "1 \<le> ld_num ?l" "ld_num ?l \<le> int k" "unjoined (take (Suc li) T)"
    using assms(5) by (auto simp: collapse_inv_def s)
  obtain i where i: "i < k" "ld_size (ys ! i) = ld_size ?l" "load_pos (ys ! i) 0 = load_pos ?l (ld_num ?l - 1)"
    using assms(5) by (auto simp: collapse_inv_def s)
  have mem: "?c \<in> set ys" "ys ! i \<in> set ys" using assms(4) i(1) by auto
  note c = single_loadsD [OF assms(1) mem(1)] and p = single_loadsD [OF assms(1) mem(2)]
  obtain nc where nc: "end_of_load ?c = ok nc" "apos nc = load_pos ?c 1" by (rule single_add [OF c(1)]) blast
  have li: "li < length T" "T ! k = ?c" using inv(1,2,4) assms(4) by auto
  have tk: "take (Suc li) T = take li T @ [?l]" using li by (simp add: take_Suc_conv_app_nth)
  have sk: "load_items (take (Suc k) ys) = insert (load_pos ?c 0, ld_size ?c) (load_items (take k ys))"
    using assms(4) c(2) by (simp add: take_Suc_conv_app_nth load_items_append load_items_unit)
  have ord: "load_pos (ys ! i) 0 \<le> load_pos ?c 0" using assms(2) [OF i(1) assms(4)] .
  have first: "load_pos ?l 0 \<le> load_pos ?c 0"
    using load_pos_mono [of ?l 0 "ld_num ?l - 1"] inv(7) i(2,3) p(3) ord by simp
  have eqs: "addr_eq (ld_addr ?c) na \<longleftrightarrow> load_pos ?c 0 = load_pos ?l (ld_num ?l)"
    "addr_cmp na (ld_addr ?c) = Less \<longleftrightarrow> load_pos ?l (ld_num ?l) < load_pos ?c 0"
    using inv(5) by (simp_all add: apos_key load_pos_start)
  consider "load_pos ?c 0 = load_pos ?l (ld_num ?l)" "ld_size ?c = ld_size ?l"
    | "load_pos ?l (ld_num ?l) < load_pos ?c 0 \<or> ld_size ?c \<noteq> ld_size ?l" "\<not> (load_pos ?c 0 = load_pos ?l (ld_num ?l) \<and> ld_size ?c = ld_size ?l)"
    | "load_pos ?c 0 < load_pos ?l (ld_num ?l)" "ld_size ?c = ld_size ?l" by (meson linorder_less_linear)
  then show ?thesis
  proof cases
    case 1
    let ?e = "?l\<lparr>ld_num := ld_num ?l + 1\<rparr>"
    let ?T = "T[li := ?e]"
    have "i32_checked (ld_num ?l + 1) = ok (ld_num ?l + 1)" using inv(7,8) assms(1,4) by (simp add: i32_checked_def single_loads_def)
    then have "collapse_step k s = ok (?T, li, nc, cnt)"
      using 1 c(2) li nc(1) eqs(1) inv(1) assms(4) by (simp add: collapse_step_def s idx_def)
    moreover have "take (Suc li) ?T = take li T @ [?e]" using li by (simp add: take_Suc_conv_app_nth)
    moreover have "load_items (take li T @ [?e]) = load_items (take (Suc k) ys)"
      using load_items_more [of ?l] inv(6,7) 1 by (simp add: sk tk load_items_append)
    moreover have "unjoined (take li T @ [?e])" using inv(9) unfolding tk by (rule unjoined_grow) simp_all
    moreover have "load_pos ?e n = load_pos ?l n" for n by (simp add: load_pos_def)
    moreover have "load_pos ?c 1 = load_pos ?l (ld_num ?l + 1)" using 1 by (simp add: load_pos_def algebra_simps)
    ultimately show ?thesis using inv(1-4,7,8) nc(2) li(1) 1 by (auto simp: collapse_inv_def intro!: exI [of _ k])
  next
    case 2
    let ?T = "T[Suc li := ?c]"
    have "collapse_step k s = ok (?T, Suc li, nc, Suc cnt)"
      using 2 li nc(1) eqs inv(1,2) assms(4) by (auto simp: collapse_step_def s idx_def upd_def)
    moreover have "take (Suc (Suc li)) ?T = take (Suc li) T @ [?c]" using inv(1,2) assms(4) by (simp add: take_Suc_conv_app_nth)
    moreover have "load_items (take (Suc li) T @ [?c]) = load_items (take (Suc k) ys)"
      using c(2) inv(6) by (simp add: sk load_items_append load_items_unit)
    moreover have "unjoined (take (Suc li) T @ [?c])"
      using inv(9) first 2 by (intro unjoined_snoc) (auto simp: tk)
    ultimately show ?thesis using inv(1-4,8) nc(2) c(2) assms(3,4) by (auto simp: collapse_inv_def intro!: exI [of _ k])
  next
    case 3
    have "\<not> addr_eq (ld_addr ?c) na" "addr_cmp na (ld_addr ?c) \<noteq> Less" unfolding eqs using 3(1) by (simp_all add: less_asym)
    then have "collapse_step k s = ok s" using 3(2) li inv(1) assms(4) by (simp add: collapse_step_def s idx_def)
    moreover have "load_pos ?c 0 = load_pos (ys ! i) 0"
    proof (rule ccontr)
      assume "load_pos ?c 0 \<noteq> load_pos (ys ! i) 0"
      then have "load_pos (ys ! i) 1 \<le> load_pos ?c 0"
        using ord assms(1) mem 3(2) i(2) unfolding single_loads_def by (metis order.not_eq_order_implies_strict)
      moreover have "load_pos (ys ! i) 1 = load_pos ?l (ld_num ?l)" using i(2,3) by (simp add: load_pos_def algebra_simps)
      ultimately show False using 3(1) by simp
    qed
    then have "(load_pos ?c 0, ld_size ?c) \<in> load_items [ys ! i]" using p(2) 3(2) i(2) by (simp add: load_items_unit)
    then have "(load_pos ?c 0, ld_size ?c) \<in> load_items (take k ys)"
      using nth_mem [of i "take k ys"] i(1) assms(4) by (auto simp: load_items_def)
    then have "load_items (take (Suc k) ys) = load_items (take k ys)" by (simp add: sk insert_absorb)
    ultimately show ?thesis using inv i by (auto simp: collapse_inv_def s intro!: exI [of _ i])
  qed
qed

lemma single_loads_cong: "single_loads xs \<Longrightarrow> mset ys = mset xs \<Longrightarrow> single_loads ys"
  unfolding single_loads_def by (metis mset_eq_length mset_eq_setD)

lemma sorted_loads:
  assumes "sorted_wrt (\<lambda>x y. \<not> load_table_less y x) ys" "i < j" "j < length ys"
  shows "load_pos (ys ! i) 0 \<le> load_pos (ys ! j) 0"
  using assms by (simp add: sorted_wrt_iff_nth_less load_table_less_def apos_key load_pos_start not_less)

lemma collapse_loop_ok:
  assumes "single_loads ys" "sorted_wrt (\<lambda>x y. \<not> load_table_less y x) ys" "ys \<noteq> []" "apos na = load_pos (ys ! 0) 1"
  shows "\<exists>T li na' cnt. run_fold collapse_step [1..<length ys] (ys, 0, na, 1) = ok (T, li, na', cnt) \<and>
    collapse_inv ys (length ys) (T, li, na', cnt)"
proof -
  have ne: "0 < length ys" using assms(3) by simp
  have t1: "take (Suc 0) ys = [ys ! 0]" using ne by (cases ys) auto
  have u: "ld_num (ys ! 0) = 1" using single_loadsD(2) [OF assms(1), of "ys ! 0"] ne by simp
  have "\<exists>s. run_fold collapse_step [1..<length ys] (ys, 0, na, 1) = ok s \<and> collapse_inv ys (length ys) s"
  proof (rule run_fold_up [where P = "collapse_inv ys"])
    show "collapse_inv ys 1 (ys, 0, na, 1)" using u assms(4) t1 by (simp add: collapse_inv_def unjoined_def)
    show "1 \<le> length ys" using ne by linarith
  qed (rule collapse_step_ok [OF assms(1) sorted_loads [OF assms(2)]])
  then show ?thesis by auto
qed

text \<open>
  C25: collapsing a table of single loads keeps every load. For entries of one item each, of any sizes and in any
  spaces, in any order and with repetitions, where no item reaches the end of its space and no two items of one size in one
  space partly overlap, the operation returns entries that load exactly the same items, each with the
  same space, address and size. The entries increase, and a neighbour of the same size starts after the end of the one before,
  so no two neighbours could be joined. The table is sorted on the way unless it already is one run.
\<close>

theorem collapse_table_keeps_loads:
  assumes "single_loads t"
  shows "\<exists>t'. collapse_table t = ok t' \<and> load_items t' = load_items t \<and> unjoined t'"
proof (cases t)
  case Nil
  then show ?thesis by (simp add: collapse_table_def unjoined_def)
next
  case (Cons e es)
  have e: "e \<in> set t" using Cons by simp
  note u = single_loadsD [OF assms e]
  obtain na where na: "address_add (ld_addr e) (of_int (ld_size e)) = ok na" "apos na = load_pos e 1" by (rule single_add [OF u(1)]) blast
  have "set es \<subseteq> set t" "1 + int (length es) < 2 ^ 31" using Cons assms by (auto simp: single_loads_def)
  then obtain r where r: "contiguous_loop (ld_size e) es 1 na = ok r" "\<And>m. r = Some m \<Longrightarrow> m = 1 + int (length es)"
    "\<And>m i. r = Some m \<Longrightarrow> i < length es \<Longrightarrow> ld_size (es ! i) = ld_size e \<and> load_pos (es ! i) 0 = load_pos e (1 + int i)"
    using contiguous_ok [OF assms, of es 1 "ld_size e" na] na(2) by (auto simp: load_pos_def algebra_simps)
  show ?thesis
  proof (cases r)
    case (Some m)
    then have "collapse_table t = ok [e\<lparr>ld_num := 1 + int (length es)\<rparr>]"
      using r(1,2) na(1) u(2) by (simp add: collapse_table_def Cons)
    moreover have "load_items [e\<lparr>ld_num := 1 + int (length es)\<rparr>] = load_items t" unfolding Cons
      using single_loadsD(2) [OF assms] r(3) [OF Some] by (intro contiguous_items) (auto simp: Cons)
    ultimately show ?thesis by (simp add: unjoined_def)
  next
    case None
    obtain ys where ys: "std_sort load_table_less t = ok ys" "mset ys = mset t" "sorted_wrt (\<lambda>x y. \<not> load_table_less y x) ys"
      using loads.std_sort_ok by blast
    have uy: "single_loads ys" using assms ys(2) by (rule single_loads_cong)
    have ne: "ys \<noteq> []" using ys(2) Cons by auto
    have "single_load (ys ! 0)" using single_loadsD(1) [OF uy] ne by simp
    then obtain n0 where n0: "end_of_load (ys ! 0) = ok n0" "apos n0 = load_pos (ys ! 0) 1" by (rule single_add) blast
    obtain T li na' cnt where s: "run_fold collapse_step [1..<length ys] (ys, 0, n0, 1) = ok (T, li, na', cnt)"
      "collapse_inv ys (length ys) (T, li, na', cnt)" using collapse_loop_ok [OF uy ys(3) ne n0(2)] by blast
    have "collapse_table t = ok (take (Suc li) T)"
      using r(1) None na(1) u(2) ys(1) ne n0(1) s by (simp add: collapse_table_def Cons idx_def collapse_inv_def)
    moreover have "load_items ys = load_items t" using mset_eq_setD [OF ys(2)] by (simp add: load_items_def)
    moreover have "load_items (take (Suc li) T) = load_items (take (length ys) ys)" "unjoined (take (Suc li) T)"
      using s(2) by (simp_all only: collapse_inv_def prod.case)
    ultimately show ?thesis by simp
  qed
qed

definition ram_load :: "u64 \<Rightarrow> i32 \<Rightarrow> load_table" where
  "ram_load off sz = new_load_table (new_address (new_processor ''ram'' False 4 1 3 0 1 1) off) sz"

definition example_loads :: "load_table list" where
  "example_loads = [ram_load 0x108 4, ram_load 0x100 4, ram_load 0x104 2, ram_load 0x104 4, ram_load 0x100 4]"

lemma collapse_table_keeps_loads_witness:
  "\<exists>t'. collapse_table example_loads = ok t' \<and> unjoined t' \<and>
    load_items t' = {((Some 3, 0x100), 4), ((Some 3, 0x104), 4), ((Some 3, 0x108), 4), ((Some 3, 0x104), 2)}"
proof -
  have "single_loads example_loads" by code_simp
  from collapse_table_keeps_loads [OF this] obtain t' where "collapse_table example_loads = ok t'" "load_items t' = load_items example_loads" "unjoined t'"
    by blast
  moreover have "load_items example_loads = {((Some 3, 0x100), 4), ((Some 3, 0x104), 4), ((Some 3, 0x108), 4), ((Some 3, 0x104), 2)}"
    by code_simp
  ultimately show ?thesis by auto
qed

text \<open>Of two items of one size that partly overlap, the second is lost.\<close>

lemma collapse_loses_overlap:
  "collapse_table [ram_load 0x100 4, ram_load 0x102 4, ram_load 0x110 4] = ok [ram_load 0x100 4, ram_load 0x110 4]"
  by code_simp

text \<open>
  The test whether the table already is one run steps by a single item, whatever the count of an entry: a second
  entry that repeats the last item of the first is taken for its continuation, and the result loads an item that neither has.
\<close>

definition counted_load :: "u64 \<Rightarrow> i32 \<Rightarrow> load_table" where
  "counted_load off n = load_table_with_count (new_address (new_processor ''ram'' False 4 1 3 0 1 1) off) 4 n"

lemma collapse_ignores_counts: "collapse_table [counted_load 0x100 2, counted_load 0x104 1] = ok [counted_load 0x100 3]"
  by code_simp

end
