(* ===== verification/Ordered_Index.thy ===== *)
theory Ordered_Index
  imports BTree
begin

text \<open>
  The ordered index of src/src/orderedindex.rs: a map with a query for the first entry at or after a key and
  the key that follows it. The index answers from a buffer of prefetched entries when it can; a version
  counter tells whether the map has changed since the buffer was filled. The index is compared with the
  query on the map alone, over whole sequences of changes and queries.
\<close>

definition MINIMUM_PREFETCH_LENGTH :: nat where
  "MINIMUM_PREFETCH_LENGTH = 2"

definition MAXIMUM_PREFETCH_LENGTH :: nat where
  "MAXIMUM_PREFETCH_LENGTH = 16"

record ('k, 'v) prefetch =
  pf_version :: u64
  pf_start :: "'k option"
  pf_entries :: "('k \<times> 'v) list"
  pf_complete :: bool
  pf_length :: nat

record ('k, 'v) ordered_index =
  oi_map :: "('k, 'v) btree"
  oi_version :: u64
  oi_prefetch :: "('k, 'v) prefetch"

type_synonym ('k, 'v) entry_answer = "('k \<times> 'v \<times> 'k option) option"

definition oi_default :: "('k, 'v) ordered_index" where
  "oi_default = \<lparr>oi_map = [], oi_version = 0, oi_prefetch =
     \<lparr>pf_version = - 1, pf_start = None, pf_entries = [], pf_complete = False, pf_length = MINIMUM_PREFETCH_LENGTH\<rparr>\<rparr>"

definition oi_insert :: "'k::linorder \<Rightarrow> 'v \<Rightarrow> ('k, 'v) ordered_index \<Rightarrow> ('k, 'v) ordered_index \<times> 'v option" where
  "oi_insert k v ix = (ix\<lparr>oi_version := oi_version ix + 1, oi_map := bt_insert k v (oi_map ix)\<rparr>, bt_get (oi_map ix) k)"

definition oi_remove :: "'k \<Rightarrow> ('k, 'v) ordered_index \<Rightarrow> ('k, 'v) ordered_index \<times> 'v option" where
  "oi_remove k ix = (ix\<lparr>oi_version := oi_version ix + 1, oi_map := bt_remove k (oi_map ix)\<rparr>, bt_get (oi_map ix) k)"

definition oi_clear :: "('k, 'v) ordered_index \<Rightarrow> ('k, 'v) ordered_index" where
  "oi_clear ix = ix\<lparr>oi_version := oi_version ix + 1, oi_map := []\<rparr>"

text \<open>The answer the buffer gives, if it can tell.\<close>

fun buffered_answer :: "('k \<times> 'v) list \<Rightarrow> bool \<Rightarrow> ('k, 'v) entry_answer option" where
  "buffered_answer ((current, v) # (nxt, _) # _) complete = Some (Some (current, v, Some nxt))"
| "buffered_answer [(current, v)] complete = (if complete then Some (Some (current, v, None)) else None)"
| "buffered_answer [] complete = (if complete then Some None else None)"

definition refill :: "bool \<Rightarrow> 'k::linorder \<Rightarrow> ('k, 'v) ordered_index \<Rightarrow> ('k, 'v) prefetch \<Rightarrow> ('k, 'v) prefetch" where
  "refill reusable k ix pf =
     (let len = (if reusable then min (pf_length pf * 2) MAXIMUM_PREFETCH_LENGTH else MINIMUM_PREFETCH_LENGTH);
          entries = take len (bt_from k (oi_map ix)) in
      \<lparr>pf_version = oi_version ix, pf_start = Some k, pf_entries = entries, pf_complete = length entries < len, pf_length = len\<rparr>)"

definition reusable_for :: "('k::linorder, 'v) ordered_index \<Rightarrow> 'k \<Rightarrow> bool" where
  "reusable_for ix k = (pf_version (oi_prefetch ix) = oi_version ix \<and>
     (case pf_start (oi_prefetch ix) of None \<Rightarrow> False | Some start \<Rightarrow> start \<le> k))"

definition entry_from :: "'k::linorder \<Rightarrow> ('k, 'v) ordered_index \<Rightarrow> ('k, 'v) ordered_index \<times> ('k, 'v) entry_answer" where
  "entry_from k ix =
     (let pf = oi_prefetch ix; reusable = reusable_for ix k;
          pf = (if reusable then pf\<lparr>pf_entries := dropWhile (\<lambda>(found, _). found < k) (pf_entries pf), pf_start := Some k\<rparr> else pf) in
      case (if reusable then buffered_answer (pf_entries pf) (pf_complete pf) else None) of
        Some answer \<Rightarrow> (ix\<lparr>oi_prefetch := pf\<rparr>, answer)
      | None \<Rightarrow> let pf = refill reusable k ix pf in
          (ix\<lparr>oi_prefetch := pf\<rparr>, case buffered_answer (pf_entries pf) (pf_complete pf) of Some answer \<Rightarrow> answer | None \<Rightarrow> None))"

section \<open>The query on the map\<close>

definition entry_spec :: "'k::linorder \<Rightarrow> ('k, 'v) btree \<Rightarrow> ('k, 'v) entry_answer" where
  "entry_spec k t = (case bt_from k t of [] \<Rightarrow> None
     | (found, v) # rest \<Rightarrow> Some (found, v, map_option fst (first_of rest)))"

text \<open>A buffer that holds a prefix of the entries from its start, all of them when it is complete.\<close>

definition prefetch_ok :: "('k::linorder, 'v) btree \<Rightarrow> 'k \<Rightarrow> ('k \<times> 'v) list \<Rightarrow> bool \<Rightarrow> bool" where
  "prefetch_ok t k entries complete \<longleftrightarrow> (\<exists>n. entries = take n (bt_from k t)) \<and> (complete \<longrightarrow> entries = bt_from k t)"

lemma buffered_answer_ok:
  "prefetch_ok t k entries complete \<Longrightarrow> buffered_answer entries complete = Some answer \<Longrightarrow> answer = entry_spec k t"
proof (induction entries complete rule: buffered_answer.induct)
  case (1 current v nxt w rest complete)
  then obtain n where "take n (bt_from k t) = (current, v) # (nxt, w) # rest" unfolding prefetch_ok_def by metis
  then obtain ys where "bt_from k t = (current, v) # (nxt, w) # ys"
    using append_take_drop_id [of n "bt_from k t"] by (metis append_Cons)
  then show ?case using 1(2) by (simp add: entry_spec_def)
next
  case (2 current v complete)
  then have "bt_from k t = [(current, v)]" by (simp add: prefetch_ok_def split: if_splits)
  then show ?case using 2(2) by (simp add: entry_spec_def split: if_splits)
next
  case (3 complete)
  then have "bt_from k t = []" by (simp add: prefetch_ok_def split: if_splits)
  then show ?case using 3(2) by (simp add: entry_spec_def split: if_splits)
qed

lemma buffered_answer_total: "2 \<le> length entries \<or> complete \<Longrightarrow> buffered_answer entries complete \<noteq> None"
  by (cases "(entries, complete)" rule: buffered_answer.cases) auto

lemma bt_from_dropWhile: "bt_inv t \<Longrightarrow> s \<le> k \<Longrightarrow> dropWhile (\<lambda>(j, _). j < k) (bt_from s t) = bt_from k t"
proof (induction t)
  case (Cons e t)
  obtain j v where e: "e = (j, v)" by fastforce
  show ?case
  proof (cases "k \<le> j")
    case True
    then have "bt_from s t = t" "bt_from k t = t" using Cons.prems e by (auto simp: bt_from_def filter_id_conv)
    then show ?thesis using True Cons.prems(2) by (auto simp: e bt_from_def)
  qed (use Cons e in \<open>auto simp: bt_from_def\<close>)
qed (simp add: bt_from_def)

lemma dropWhile_take: "\<exists>m. dropWhile P (take n xs) = take m (dropWhile P xs)"
proof (induction xs arbitrary: n)
  case (Cons x xs)
  show ?case
  proof (cases "n = 0 \<or> \<not> P x")
    case True
    then show ?thesis by (cases n) (auto intro: exI [of _ n] exI [of _ 0])
  next
    case False
    then show ?thesis using Cons by (cases n) auto
  qed
qed simp

lemma prefetch_advance:
  assumes "bt_inv t" "s \<le> k" "prefetch_ok t s entries complete"
  shows "prefetch_ok t k (dropWhile (\<lambda>(j, _). j < k) entries) complete"
  using assms bt_from_dropWhile [OF assms(1,2)] dropWhile_take [of "\<lambda>(j, _). j < k" _ "bt_from s t"]
  unfolding prefetch_ok_def by metis

lemma prefetch_refill:
  assumes "2 \<le> pf_length pf"
  shows "prefetch_ok (oi_map ix) k (pf_entries (refill r k ix pf)) (pf_complete (refill r k ix pf))"
    "2 \<le> pf_length (refill r k ix pf)" "pf_start (refill r k ix pf) = Some k" "pf_version (refill r k ix pf) = oi_version ix"
    "buffered_answer (pf_entries (refill r k ix pf)) (pf_complete (refill r k ix pf)) = Some (entry_spec k (oi_map ix))"
proof -
  let ?p = "refill r k ix pf"
  show p: "prefetch_ok (oi_map ix) k (pf_entries ?p) (pf_complete ?p)" "2 \<le> pf_length ?p" "pf_start ?p = Some k" "pf_version ?p = oi_version ix"
    using assms by (auto simp: refill_def prefetch_ok_def Let_def MAXIMUM_PREFETCH_LENGTH_def MINIMUM_PREFETCH_LENGTH_def)
  have "length (pf_entries ?p) < pf_length ?p \<longrightarrow> pf_complete ?p" by (simp add: refill_def Let_def del: length_take)
  then have "2 \<le> length (pf_entries ?p) \<or> pf_complete ?p" using p(2) by linarith
  from buffered_answer_total [OF this] buffered_answer_ok [OF p(1)]
  show "buffered_answer (pf_entries ?p) (pf_complete ?p) = Some (entry_spec k (oi_map ix))" by auto
qed

section \<open>The invariant\<close>

text \<open>
  After \<open>n\<close> changes, the version of the buffer is the number of changes at some earlier time, and when that is now
  the buffer agrees with the map.
\<close>

definition index_inv :: "nat \<Rightarrow> ('k::linorder, 'v) ordered_index \<Rightarrow> bool" where
  "index_inv n ix \<longleftrightarrow> bt_inv (oi_map ix) \<and> oi_version ix = of_nat n \<and> 2 \<le> pf_length (oi_prefetch ix) \<and>
     (\<forall>s. pf_start (oi_prefetch ix) = Some s \<longrightarrow>
       (\<exists>m\<le>n. pf_version (oi_prefetch ix) = of_nat m \<and>
          (m = n \<longrightarrow> prefetch_ok (oi_map ix) s (pf_entries (oi_prefetch ix)) (pf_complete (oi_prefetch ix)))))"

lemma of_nat_version: "m \<le> n \<Longrightarrow> n < 2 ^ 64 \<Longrightarrow> (of_nat m :: u64) = of_nat n \<longleftrightarrow> m = n"
  by (auto simp: word_unat_eq_iff unat_of_nat)

lemma entry_from_correct:
  assumes "index_inv n ix" "n < 2 ^ 64"
  shows "snd (entry_from k ix) = entry_spec k (oi_map ix)" "index_inv n (fst (entry_from k ix))"
    "oi_map (fst (entry_from k ix)) = oi_map ix"
proof -
  let ?t = "oi_map ix" and ?pf = "oi_prefetch ix"
  let ?r = "reusable_for ix k"
  define pf where "pf = (if ?r then ?pf\<lparr>pf_entries := dropWhile (\<lambda>(found, _). found < k) (pf_entries ?pf), pf_start := Some k\<rparr> else ?pf)"
  have inv: "bt_inv ?t" "oi_version ix = of_nat n" "2 \<le> pf_length ?pf" using assms(1) by (auto simp: index_inv_def)
  then have len: "2 \<le> pf_length pf" by (simp add: pf_def)
  have adv: "prefetch_ok ?t k (pf_entries pf) (pf_complete pf) \<and> pf_version pf = of_nat n \<and> pf_start pf = Some k" if re: ?r
  proof -
    obtain s where s: "pf_version ?pf = of_nat n" "pf_start ?pf = Some s" "s \<le> k"
      using re inv(2) by (auto simp: reusable_for_def split: option.splits)
    obtain m where m: "m \<le> n" "pf_version ?pf = of_nat m" "m = n \<longrightarrow> prefetch_ok ?t s (pf_entries ?pf) (pf_complete ?pf)"
      using assms(1) s(2) unfolding index_inv_def by blast
    have "of_nat m = (of_nat n :: u64)" using m(2) s(1) by (rule subst)
    then have "prefetch_ok ?t s (pf_entries ?pf) (pf_complete ?pf)" using m(3) of_nat_version [OF m(1) assms(2)] by blast
    from prefetch_advance [OF inv(1) s(3) this] show ?thesis using re s(1) by (simp add: pf_def)
  qed
  have keep: "index_inv n (ix\<lparr>oi_prefetch := p\<rparr>)"
    if "2 \<le> pf_length p" "pf_start p = Some k" "pf_version p = of_nat n" "prefetch_ok ?t k (pf_entries p) (pf_complete p)" for p
    using that inv by (auto simp: index_inv_def)
  note r = prefetch_refill [OF len, where r = ?r and k = k and ix = ix]
  have "snd (entry_from k ix) = entry_spec k ?t \<and> index_inv n (fst (entry_from k ix)) \<and> oi_map (fst (entry_from k ix)) = ?t"
  proof (cases "if ?r then buffered_answer (pf_entries pf) (pf_complete pf) else None")
    case None
    then have "entry_from k ix = (ix\<lparr>oi_prefetch := refill ?r k ix pf\<rparr>, entry_spec k ?t)"
      using r(5) unfolding entry_from_def Let_def pf_def [symmetric] by simp
    then show ?thesis using keep [OF r(2,3) _ r(1)] r(4) inv(2) by simp
  next
    case (Some answer)
    then have re: ?r and b: "buffered_answer (pf_entries pf) (pf_complete pf) = Some answer" by (simp_all split: if_splits)
    have "entry_from k ix = (ix\<lparr>oi_prefetch := pf\<rparr>, answer)"
      using Some unfolding entry_from_def Let_def pf_def [symmetric] by simp
    then show ?thesis using keep [of pf] len adv [OF re] buffered_answer_ok [OF _ b] by simp
  qed
  then show "snd (entry_from k ix) = entry_spec k ?t" "index_inv n (fst (entry_from k ix))" "oi_map (fst (entry_from k ix)) = ?t"
    by simp_all
qed

lemma index_inv_change:
  assumes "index_inv n ix" "bt_inv t"
  shows "index_inv (Suc n) (ix\<lparr>oi_version := oi_version ix + 1, oi_map := t\<rparr>)"
proof -
  have "\<exists>m\<le>Suc n. pf_version (oi_prefetch ix) = of_nat m \<and> m \<noteq> Suc n" if st: "pf_start (oi_prefetch ix) = Some s" for s
  proof -
    obtain m where "m \<le> n" "pf_version (oi_prefetch ix) = of_nat m" using st assms(1) by (auto simp: index_inv_def)
    then show ?thesis by (intro exI [of _ m]) auto
  qed
  then show ?thesis using assms by (fastforce simp: index_inv_def)
qed

lemma index_inv_default: "index_inv 0 oi_default"
  by (simp add: index_inv_def oi_default_def MINIMUM_PREFETCH_LENGTH_def)

section \<open>Sequences of operations\<close>

datatype ('k, 'v) index_op = Ix_insert 'k 'v | Ix_remove 'k | Ix_clear | Ix_entry 'k

datatype ('k, 'v) index_result = Old "'v option" | Cleared | Entry "('k, 'v) entry_answer"

fun index_step :: "('k::linorder, 'v) index_op \<Rightarrow> ('k, 'v) ordered_index \<Rightarrow> ('k, 'v) ordered_index \<times> ('k, 'v) index_result" where
  "index_step (Ix_insert k v) ix = map_prod id Old (oi_insert k v ix)"
| "index_step (Ix_remove k) ix = map_prod id Old (oi_remove k ix)"
| "index_step Ix_clear ix = (oi_clear ix, Cleared)"
| "index_step (Ix_entry k) ix = map_prod id Entry (entry_from k ix)"

fun index_results :: "('k::linorder, 'v) index_op list \<Rightarrow> ('k, 'v) ordered_index \<Rightarrow> ('k, 'v) index_result list" where
  "index_results [] ix = []"
| "index_results (p # ps) ix = (let (ix', r) = index_step p ix in r # index_results ps ix')"

text \<open>The same operations on the map alone.\<close>

fun map_step :: "('k::linorder, 'v) index_op \<Rightarrow> ('k, 'v) btree \<Rightarrow> ('k, 'v) btree \<times> ('k, 'v) index_result" where
  "map_step (Ix_insert k v) t = (bt_insert k v t, Old (bt_get t k))"
| "map_step (Ix_remove k) t = (bt_remove k t, Old (bt_get t k))"
| "map_step Ix_clear t = ([], Cleared)"
| "map_step (Ix_entry k) t = (t, Entry (entry_spec k t))"

fun map_results :: "('k::linorder, 'v) index_op list \<Rightarrow> ('k, 'v) btree \<Rightarrow> ('k, 'v) index_result list" where
  "map_results [] t = []"
| "map_results (p # ps) t = (let (t', r) = map_step p t in r # map_results ps t')"

lemma index_step_simulates:
  assumes "index_inv n ix" "n < 2 ^ 64"
  shows "map_step p (oi_map ix) = (oi_map (fst (index_step p ix)), snd (index_step p ix))"
    "\<exists>m. n \<le> m \<and> m \<le> Suc n \<and> index_inv m (fst (index_step p ix))"
proof -
  have "bt_inv (oi_map ix)" using assms(1) by (simp add: index_inv_def)
  then have "bt_inv (bt_insert k v (oi_map ix))" "bt_inv (bt_remove k (oi_map ix))" for k v
    by (simp_all add: bt_inv_insert bt_inv_remove)
  then show "\<exists>m. n \<le> m \<and> m \<le> Suc n \<and> index_inv m (fst (index_step p ix))"
    using index_inv_change [OF assms(1)] entry_from_correct(2) [OF assms]
    by (cases p) (auto simp: oi_insert_def oi_remove_def oi_clear_def intro: exI [of _ "Suc n"])
  show "map_step p (oi_map ix) = (oi_map (fst (index_step p ix)), snd (index_step p ix))"
    using entry_from_correct(1,3) [OF assms] by (cases p) (simp_all add: oi_insert_def oi_remove_def oi_clear_def)
qed

lemma index_results_map:
  "index_inv n ix \<Longrightarrow> n + length ps < 2 ^ 64 \<Longrightarrow> index_results ps ix = map_results ps (oi_map ix)"
proof (induction ps arbitrary: n ix)
  case (Cons p ps)
  obtain m where "n \<le> m" "m \<le> Suc n" "index_inv m (fst (index_step p ix))"
    using index_step_simulates(2) [OF Cons.prems(1)] Cons.prems(2) by fastforce
  then have "index_results ps (fst (index_step p ix)) = map_results ps (oi_map (fst (index_step p ix)))"
    using Cons.prems(2) by (intro Cons.IH) auto
  then show ?case using index_step_simulates(1) [OF Cons.prems(1), of p] Cons.prems(2) by (simp add: case_prod_beta Let_def)
qed simp

text \<open>
  C17: a sequence of fewer than \<open>2 ^ 64\<close> insertions, removals, clears and queries on an ordered index gives the results
  of the same sequence on the map alone: the buffer is never used after it has gone stale, and a query
  returns the first entry at or after the key with the key that follows it, whether it is answered from the buffer
  or by filling it. (After \<open>2 ^ 64\<close> changes the version counter would return to its value.)
\<close>

theorem index_equals_map:
  assumes "length ps < 2 ^ 64"
  shows "index_results ps (oi_default :: ('k::linorder, 'v) ordered_index) = map_results ps []"
  using index_results_map [OF index_inv_default, of ps] assms by (simp add: oi_default_def)

theorem index_equals_map_witness:
  "index_results [Ix_insert 5 50, Ix_insert 7 (70 :: nat), Ix_entry 5, Ix_remove 7, Ix_entry (5 :: nat)] oi_default =
   [Old None, Old None, Entry (Some (5, 50, Some 7)), Old (Some 70), Entry (Some (5, 50, None))]"
proof -
  have "map_results [Ix_insert 5 50, Ix_insert 7 (70 :: nat), Ix_entry 5, Ix_remove 7, Ix_entry (5 :: nat)] [] =
   [Old None, Old None, Entry (Some (5, 50, Some 7)), Old (Some 70), Entry (Some (5, 50, None))]"
    by code_simp
  then show ?thesis by (subst index_equals_map) simp_all
qed

end
