(* ===== verification/Pcode_Raw.thy ===== *)
theory Pcode_Raw
  imports Opcodes Address
begin

text \<open>
  Raw p-code, src/src/pcoderaw.rs: storage locations and operations as the translator emits them, and the lookup of a
  space by its index (src/src/translate.rs). Reading from a stream is not modelled.
\<close>

section \<open>Storage locations\<close>

definition vd_get_addr :: "varnode_data \<Rightarrow> address" where
  "vd_get_addr vn = \<lparr>ad_space = vd_space vn, ad_offset = vd_offset vn\<rparr>"

text \<open>The table of spaces of the manager, by index.\<close>

type_synonym space_table = "addr_space option list"

definition get_space :: "space_table \<Rightarrow> i32 \<Rightarrow> addr_space option" where
  "get_space baselist i = (if i < 0 then None else if nat i < length baselist then baselist ! nat i else None)"

definition get_space_from_const :: "space_table \<Rightarrow> varnode_data \<Rightarrow> addr_space option" where
  "get_space_from_const baselist vn = (if vd_offset vn > 0x7fffffff then None else get_space baselist (uint (vd_offset vn)))"

definition vd_contains :: "varnode_data \<Rightarrow> varnode_data \<Rightarrow> bool" where
  "vd_contains a b =
     (if space_index (vd_space a) \<noteq> space_index (vd_space b) then False
      else if vd_offset b < vd_offset a then False
      else let self_end = vd_offset a + (ucast (vd_size a) - 1); op2_end = vd_offset b + (ucast (vd_size b) - 1) in
        \<not> self_end < op2_end)"

definition vd_is_contiguous :: "varnode_data \<Rightarrow> varnode_data \<Rightarrow> bool" where
  "vd_is_contiguous a lo =
     (if space_index (vd_space a) \<noteq> space_index (vd_space lo) then False
      else case vd_space a of None \<Rightarrow> False
        | Some spc \<Rightarrow>
            if is_big_endian spc then wrap_offset spc (vd_offset a + ucast (vd_size a)) = vd_offset lo
            else wrap_offset spc (vd_offset lo + ucast (vd_size lo)) = vd_offset a)"

definition vd_eq :: "varnode_data \<Rightarrow> varnode_data \<Rightarrow> bool" where
  "vd_eq a b \<longleftrightarrow> space_index (vd_space a) = space_index (vd_space b) \<and> vd_offset a = vd_offset b \<and> vd_size a = vd_size b"

text \<open>The order: by space, by offset, then the larger one first.\<close>

definition vd_cmp :: "varnode_data \<Rightarrow> varnode_data \<Rightarrow> ordering" where
  "vd_cmp a b =
     cmp_of (space_index (vd_space a), vd_offset a, - uint (vd_size a)) (space_index (vd_space b), vd_offset b, - uint (vd_size b))"

section \<open>Operations\<close>

record pcode_op_raw =
  po_opcode :: opcode
  po_seq :: seqnum
  po_out :: "varnode_data option"
  po_inputs :: "varnode_data list"

definition new_pcode_op_raw :: "opcode \<Rightarrow> pcode_op_raw" where
  "new_pcode_op_raw opc = \<lparr>po_opcode = opc, po_seq = \<lparr>sq_pc = invalid_address, sq_uniq = 0, sq_order = 0\<rparr>, po_out = None, po_inputs = []\<rparr>"

definition po_set_opcode :: "opcode \<Rightarrow> pcode_op_raw \<Rightarrow> pcode_op_raw" where
  "po_set_opcode opc p = p\<lparr>po_opcode := opc\<rparr>"

definition set_seq_num :: "address \<Rightarrow> u32 \<Rightarrow> pcode_op_raw \<Rightarrow> pcode_op_raw" where
  "set_seq_num addr uniq p = p\<lparr>po_seq := new_seqnum addr uniq\<rparr>"

definition po_get_addr :: "pcode_op_raw \<Rightarrow> address" where
  "po_get_addr p = sq_pc (po_seq p)"

definition set_output :: "varnode_data option \<Rightarrow> pcode_op_raw \<Rightarrow> pcode_op_raw" where
  "set_output out p = p\<lparr>po_out := out\<rparr>"

definition add_input :: "varnode_data \<Rightarrow> pcode_op_raw \<Rightarrow> pcode_op_raw" where
  "add_input vn p = p\<lparr>po_inputs := po_inputs p @ [vn]\<rparr>"

definition clear_inputs :: "pcode_op_raw \<Rightarrow> pcode_op_raw" where
  "clear_inputs p = p\<lparr>po_inputs := []\<rparr>"

definition num_input :: "pcode_op_raw \<Rightarrow> i32" where
  "num_input p = wrap_i32 (int (length (po_inputs p)))"

definition get_input :: "pcode_op_raw \<Rightarrow> i32 \<Rightarrow> varnode_data run" where
  "get_input p i = (if i < 0 then panic else idx (po_inputs p) (nat i))"

section \<open>Lemmas\<close>

text \<open>Containment is that of the bytes, when neither location runs over the end of the offsets.\<close>

lemma vd_contains_bytes:
  assumes "space_index (vd_space a) = space_index (vd_space b)" "vd_size a \<noteq> 0" "vd_size b \<noteq> 0"
    "uint (vd_offset a) + uint (vd_size a) \<le> 2 ^ 64" "uint (vd_offset b) + uint (vd_size b) \<le> 2 ^ 64"
  shows "vd_contains a b \<longleftrightarrow>
    {uint (vd_offset b)..<uint (vd_offset b) + uint (vd_size b)} \<subseteq> {uint (vd_offset a)..<uint (vd_offset a) + uint (vd_size a)}"
proof -
  have pos: "0 < uint (vd_size v)" if "vd_size v \<noteq> 0" for v using that by (simp add: word_neq_0_conv word_less_def)
  have stop: "uint (vd_offset v + (ucast (vd_size v) - 1)) = uint (vd_offset v) + uint (vd_size v) - 1"
    if "vd_size v \<noteq> 0" "uint (vd_offset v) + uint (vd_size v) \<le> 2 ^ 64" for v
  proof -
    have "uint (ucast (vd_size v) :: u64) = uint (vd_size v)" by (simp add: uint_up_ucast is_up)
    then have s: "uint (ucast (vd_size v) - 1 :: u64) = uint (vd_size v) - 1"
      using pos [OF that(1)] uint_lt2p [of "vd_size v"] by (simp add: uint_word_ariths mod_pos_pos_trivial)
    show ?thesis using that(2) pos [OF that(1)] uint_ge_0 [of "vd_offset v"] by (simp add: uint_word_ariths(1) s mod_pos_pos_trivial)
  qed
  show ?thesis using assms stop [of a] stop [of b] pos [of a] pos [of b]
    by (auto simp: vd_contains_def Let_def word_less_def)
qed

lemma foldl_add_input: "foldl (\<lambda>p vn. add_input vn p) p vns = p\<lparr>po_inputs := po_inputs p @ vns\<rparr>"
  by (induction vns arbitrary: p) (simp_all add: add_input_def)

end
