(* ===== verification/Emulate.thy ===== *)
theory Emulate
  imports Pcode_Raw Op_Behavior Memory_State BTree
begin

text \<open>
  The emulator of p-code, src/src/emulate.rs: the trait \<open>Emulate\<close> with the dispatch on the current operation, the
  memory operations over a \<open>MemoryState\<close>, and the emulator that runs the operations of one machine instruction
  after the other. The translator that gives the operations of an instruction and the table of breakpoints
  are parameters.
\<close>

section \<open>The trait\<close>

record emulate_base =
  emu_halted :: bool
  current_behave :: "opcode option"

definition new_emulate_base :: emulate_base where
  "new_emulate_base = \<lparr>emu_halted = True, current_behave = None\<rparr>"

record 's emulate =
  em_base :: "'s \<Rightarrow> emulate_base"
  em_set_base :: "emulate_base \<Rightarrow> 's \<Rightarrow> 's"
  em_get_behavior :: "'s \<Rightarrow> opcode \<Rightarrow> op_behavior option"
  em_unary :: "'s \<Rightarrow> 's \<times> unit run"
  em_binary :: "'s \<Rightarrow> 's \<times> unit run"
  em_load :: "'s \<Rightarrow> 's \<times> unit run"
  em_store :: "'s \<Rightarrow> 's \<times> unit run"
  em_branch :: "'s \<Rightarrow> 's \<times> unit run"
  em_cbranch :: "'s \<Rightarrow> 's \<times> bool run"
  em_branchind :: "'s \<Rightarrow> 's \<times> unit run"
  em_call :: "'s \<Rightarrow> 's \<times> unit run"
  em_callind :: "'s \<Rightarrow> 's \<times> unit run"
  em_callother :: "'s \<Rightarrow> 's \<times> unit run"
  em_multiequal :: "'s \<Rightarrow> 's \<times> unit run"
  em_indirect :: "'s \<Rightarrow> 's \<times> unit run"
  em_segment_op :: "'s \<Rightarrow> 's \<times> unit run"
  em_cpool_ref :: "'s \<Rightarrow> 's \<times> unit run"
  em_new :: "'s \<Rightarrow> 's \<times> unit run"
  em_fallthru :: "'s \<Rightarrow> 's \<times> unit run"

definition set_halt :: "'s emulate \<Rightarrow> 's \<Rightarrow> bool \<Rightarrow> 's" where
  "set_halt D s val = em_set_base D ((em_base D s)\<lparr>emu_halted := val\<rparr>) s"

definition get_halt :: "'s emulate \<Rightarrow> 's \<Rightarrow> bool" where
  "get_halt D s = emu_halted (em_base D s)"

definition special_op :: "'s emulate \<Rightarrow> opcode \<Rightarrow> 's \<Rightarrow> 's \<times> unit run" where
  "special_op D opc s =
     (case opc of
        Load \<Rightarrow> state_bind (em_load D s) (\<lambda>s _. em_fallthru D s)
      | Store \<Rightarrow> state_bind (em_store D s) (\<lambda>s _. em_fallthru D s)
      | Branch \<Rightarrow> em_branch D s
      | Cbranch \<Rightarrow> state_bind (em_cbranch D s) (\<lambda>s taken. if taken then em_branch D s else em_fallthru D s)
      | Branchind \<Rightarrow> em_branchind D s
      | Call \<Rightarrow> em_call D s
      | Callind \<Rightarrow> em_callind D s
      | Callother \<Rightarrow> em_callother D s
      | Return \<Rightarrow> em_branchind D s
      | Multiequal \<Rightarrow> state_bind (em_multiequal D s) (\<lambda>s _. em_fallthru D s)
      | Indirect \<Rightarrow> state_bind (em_indirect D s) (\<lambda>s _. em_fallthru D s)
      | Segmentop \<Rightarrow> state_bind (em_segment_op D s) (\<lambda>s _. em_fallthru D s)
      | Cpoolref \<Rightarrow> state_bind (em_cpool_ref D s) (\<lambda>s _. em_fallthru D s)
      | New \<Rightarrow> state_bind (em_new D s) (\<lambda>s _. em_fallthru D s)
      | _ \<Rightarrow> (s, err (Lowlevel ''Bad special op'')))"

definition execute_current_op :: "'s emulate \<Rightarrow> 's \<Rightarrow> 's \<times> unit run" where
  "execute_current_op D s =
     (case (case current_behave (em_base D s) of None \<Rightarrow> None | Some opc \<Rightarrow> em_get_behavior D s opc) of
        None \<Rightarrow> em_fallthru D s
      | Some behave \<Rightarrow>
          if ob_special behave then special_op D (ob_opcode behave) s
          else if ob_unary behave then state_bind (em_unary D s) (\<lambda>s _. em_fallthru D s)
          else state_bind (em_binary D s) (\<lambda>s _. em_fallthru D s))"

section \<open>Operations on memory\<close>

record emulate_memory =
  mem_base :: emulate_base
  memstate :: memory_state

definition new_emulate_memory :: "memory_state \<Rightarrow> emulate_memory" where
  "new_emulate_memory mem = \<lparr>mem_base = new_emulate_base, memstate = mem\<rparr>"

definition space_from_const :: "space_table \<Rightarrow> varnode_data \<Rightarrow> addr_space run" where
  "space_from_const spaces vn =
     (case get_space_from_const spaces vn of
        None \<Rightarrow> err (Lowlevel ''constant does not encode an address space'') | Some spc \<Rightarrow> ok spc)"

definition output_of :: "pcode_op_raw \<Rightarrow> varnode_data run" where
  "output_of p = (case po_out p of None \<Rightarrow> err (Lowlevel ''p-code op has no output'') | Some vn \<Rightarrow> ok vn)"

definition of_result :: "'a result \<Rightarrow> 'a run" where
  "of_result r = (case r of Inl e \<Rightarrow> err e | Inr x \<Rightarrow> ok x)"

definition size_i32 :: "varnode_data \<Rightarrow> i32" where
  "size_i32 vn = wrap_i32 (uint (vd_size vn))"

text \<open>Writing the result of an operation; what is read before has no effect on the state.\<close>

definition write_output :: "emulate_memory \<Rightarrow> (varnode_data \<times> u64) run \<Rightarrow> emulate_memory \<times> unit run" where
  "write_output m r = state_bind (m, r) (\<lambda>m (out, res).
     case set_value_varnode (memstate m) out res of (st, r) \<Rightarrow> (m\<lparr>memstate := st\<rparr>, r))"

definition mem_unary :: "emulate_memory \<Rightarrow> pcode_op_raw \<Rightarrow> op_behavior \<Rightarrow> emulate_memory \<times> unit run" where
  "mem_unary m p behave = write_output m
     (run_bind (get_input p 0) (\<lambda>vn. run_bind (get_value_varnode (memstate m) vn) (\<lambda>in1.
      run_bind (output_of p) (\<lambda>out.
      run_bind (of_result (evaluate_unary behave (size_i32 out) (size_i32 vn) in1)) (\<lambda>res. ok (out, res))))))"

definition mem_binary :: "emulate_memory \<Rightarrow> pcode_op_raw \<Rightarrow> op_behavior \<Rightarrow> emulate_memory \<times> unit run" where
  "mem_binary m p behave = write_output m
     (run_bind (get_input p 0) (\<lambda>vn1. run_bind (get_value_varnode (memstate m) vn1) (\<lambda>in1.
      run_bind (get_input p 1) (\<lambda>vn2. run_bind (get_value_varnode (memstate m) vn2) (\<lambda>in2.
      run_bind (output_of p) (\<lambda>out.
      run_bind (of_result (evaluate_binary behave (size_i32 out) (size_i32 vn1) in1 in2)) (\<lambda>res. ok (out, res))))))))"

definition mem_load :: "space_table \<Rightarrow> emulate_memory \<Rightarrow> pcode_op_raw \<Rightarrow> emulate_memory \<times> unit run" where
  "mem_load spaces m p = write_output m
     (run_bind (get_input p 1) (\<lambda>ptr. run_bind (get_value_varnode (memstate m) ptr) (\<lambda>off.
      run_bind (get_input p 0) (\<lambda>vn. run_bind (space_from_const spaces vn) (\<lambda>spc.
      let off = address_to_byte off (as_word_size spc) in
      run_bind (output_of p) (\<lambda>out.
      run_bind (state_get_value (memstate m) spc off (size_i32 out)) (\<lambda>res. ok (out, res))))))))"

definition mem_store :: "space_table \<Rightarrow> emulate_memory \<Rightarrow> pcode_op_raw \<Rightarrow> emulate_memory \<times> unit run" where
  "mem_store spaces m p = state_bind (m,
     run_bind (get_input p 2) (\<lambda>src. run_bind (get_value_varnode (memstate m) src) (\<lambda>val.
     run_bind (get_input p 1) (\<lambda>ptr. run_bind (get_value_varnode (memstate m) ptr) (\<lambda>off.
     run_bind (get_input p 0) (\<lambda>vn. run_bind (space_from_const spaces vn) (\<lambda>spc.
     ok (src, val, spc, address_to_byte off (as_word_size spc))))))))) (\<lambda>m (src, val, spc, off).
     case state_set_value (memstate m) spc off (size_i32 src) val of (st, r) \<Rightarrow> (m\<lparr>memstate := st\<rparr>, r))"

definition mem_branch :: "pcode_op_raw \<Rightarrow> address run" where
  "mem_branch p = run_bind (get_input p 0) (\<lambda>vn. ok (vd_get_addr vn))"

definition mem_cbranch :: "emulate_memory \<Rightarrow> pcode_op_raw \<Rightarrow> bool run" where
  "mem_cbranch m p = run_bind (get_input p 1) (\<lambda>vn. run_bind (get_value_varnode (memstate m) vn) (\<lambda>cond. ok (cond \<noteq> 0)))"

definition mem_branchind :: "emulate_memory \<Rightarrow> pcode_op_raw \<Rightarrow> address run" where
  "mem_branchind m p = run_bind (get_input p 0) (\<lambda>vn. run_bind (get_value_varnode (memstate m) vn) (\<lambda>off.
     ok \<lparr>ad_space = ad_space (po_get_addr p), ad_offset = off\<rparr>))"

definition mem_call :: "pcode_op_raw \<Rightarrow> address run" where
  "mem_call p = run_bind (get_input p 0) (\<lambda>vn. ok (vd_get_addr vn))"

definition mem_callind :: "emulate_memory \<Rightarrow> pcode_op_raw \<Rightarrow> address run" where
  "mem_callind m p = run_bind (get_input p 0) (\<lambda>vn. run_bind (get_value_varnode (memstate m) vn) (\<lambda>off.
     ok \<lparr>ad_space = ad_space (po_get_addr p), ad_offset = off\<rparr>))"

definition mem_multiequal :: "unit run" where
  "mem_multiequal = err (Lowlevel ''MULTIEQUAL appearing in unheritaged code?'')"

definition mem_indirect :: "unit run" where
  "mem_indirect = err (Lowlevel ''INDIRECT appearing in unheritaged code?'')"

definition mem_segment_op :: "unit run" where
  "mem_segment_op = err (Lowlevel ''SEGMENTOP emulation not currently supported'')"

definition mem_cpool_ref :: "unit run" where
  "mem_cpool_ref = err (Lowlevel ''Cannot currently emulate cpool operator'')"

definition mem_new :: "unit run" where
  "mem_new = err (Lowlevel ''Cannot currently emulate new operator'')"

section \<open>Collecting operations\<close>

record emit_cache =
  ec_opcache :: "pcode_op_raw list"
  ec_uniq :: u32

definition new_emit_cache :: "pcode_op_raw list \<Rightarrow> u64 \<Rightarrow> emit_cache" where
  "new_emit_cache ocache uniq_reserve = \<lparr>ec_opcache = ocache, ec_uniq = ucast uniq_reserve\<rparr>"

type_synonym emitted = "address \<times> opcode \<times> varnode_data option \<times> varnode_data list"

definition emit_dump :: "emit_cache \<Rightarrow> emitted \<Rightarrow> emit_cache" where
  "emit_dump ec e = (case e of (addr, opc, outvar, vars) \<Rightarrow>
     let p = set_seq_num addr (ec_uniq ec) (new_pcode_op_raw opc);
         p = (case outvar of None \<Rightarrow> p | Some vn \<Rightarrow> set_output (Some vn) p);
         p = foldl (\<lambda>p vn. add_input vn p) p vars in
     ec\<lparr>ec_uniq := ec_uniq ec + 1, ec_opcache := ec_opcache ec @ [p]\<rparr>)"

section \<open>The emulator of instructions\<close>

text \<open>
  The translator: the table of spaces, and for an address the operations that \<open>one_instruction\<close> passes to the emitter
  and the length of the instruction or an error.
\<close>

record translator =
  tr_spaces :: space_table
  one_instruction :: "address \<Rightarrow> emitted list \<times> i32 result"

record 'b pcode_cache =
  pc_memory :: emulate_memory
  pc_opcache :: "pcode_op_raw list"
  pc_inst :: "op_behavior option list"
  pc_breaktable :: "'b option"
  pc_current_address :: address
  pc_instruction_start :: bool
  pc_current_op :: i32
  pc_instruction_length :: i32

text \<open>The methods of a table of breakpoints; the emulator they are given has its table taken out.\<close>

record 'b break_table =
  do_pcode_op_break :: "'b \<Rightarrow> pcode_op_raw \<Rightarrow> 'b pcode_cache \<Rightarrow> 'b \<times> 'b pcode_cache \<times> bool run"
  do_address_break :: "'b \<Rightarrow> address \<Rightarrow> 'b pcode_cache \<Rightarrow> 'b \<times> 'b pcode_cache \<times> bool run"

definition new_pcode_cache :: "'f float_ops \<Rightarrow> 'f list \<Rightarrow> memory_state \<Rightarrow> 'b option \<Rightarrow> 'b pcode_cache" where
  "new_pcode_cache ops formats mem breaktable =
     \<lparr>pc_memory = new_emulate_memory mem, pc_opcache = [], pc_inst = register_instructions [] ops formats,
      pc_breaktable = breaktable, pc_current_address = invalid_address, pc_instruction_start = False,
      pc_current_op = 0, pc_instruction_length = 0\<rparr>"

definition clear_cache :: "'b pcode_cache \<Rightarrow> 'b pcode_cache" where
  "clear_cache c = c\<lparr>pc_opcache := []\<rparr>"

definition create_instruction :: "translator \<Rightarrow> 'b pcode_cache \<Rightarrow> address \<Rightarrow> 'b pcode_cache \<times> unit run" where
  "create_instruction tr c addr =
     (let c = clear_cache c; (dumps, r) = one_instruction tr addr;
          emit = foldl emit_dump (new_emit_cache (pc_opcache c) 0) dumps;
          c = c\<lparr>pc_opcache := ec_opcache emit\<rparr> in
      case r of Inl e \<Rightarrow> (c, err e)
      | Inr len \<Rightarrow> (c\<lparr>pc_instruction_length := len, pc_current_op := 0, pc_instruction_start := True\<rparr>, ok ()))"

definition get_behavior :: "'b pcode_cache \<Rightarrow> opcode \<Rightarrow> op_behavior option" where
  "get_behavior c opc = (if index opc < length (pc_inst c) then pc_inst c ! index opc else None)"

text \<open>\<open>current_op as usize\<close> is below the number of operations.\<close>

definition op_in_range :: "'b pcode_cache \<Rightarrow> bool" where
  "op_in_range c \<longleftrightarrow> 0 \<le> pc_current_op c \<and> nat (pc_current_op c) < length (pc_opcache c)"

definition set_behave :: "opcode option \<Rightarrow> 'b pcode_cache \<Rightarrow> 'b pcode_cache" where
  "set_behave b c = c\<lparr>pc_memory := (pc_memory c)\<lparr>mem_base := (mem_base (pc_memory c))\<lparr>current_behave := b\<rparr>\<rparr>\<rparr>"

definition establish_op :: "'b pcode_cache \<Rightarrow> 'b pcode_cache" where
  "establish_op c =
     (if op_in_range c then
        let opc = po_opcode (pc_opcache c ! nat (pc_current_op c)) in
        set_behave (if get_behavior c opc \<noteq> None then Some opc else None) c
      else set_behave None c)"

definition is_instruction_start :: "'b pcode_cache \<Rightarrow> bool" where
  "is_instruction_start c = pc_instruction_start c"

definition num_current_ops :: "'b pcode_cache \<Rightarrow> i32" where
  "num_current_ops c = wrap_i32 (int (length (pc_opcache c)))"

definition get_op_by_index :: "'b pcode_cache \<Rightarrow> i32 \<Rightarrow> pcode_op_raw run" where
  "get_op_by_index c i = (if i < 0 then panic else idx (pc_opcache c) (nat i))"

definition no_current_op :: error where
  "no_current_op = Lowlevel ''no current p-code op''"

definition current_raw_op :: "'b pcode_cache \<Rightarrow> pcode_op_raw run" where
  "current_raw_op c = (if op_in_range c then ok (pc_opcache c ! nat (pc_current_op c)) else err no_current_op)"

definition current_behavior :: "'b pcode_cache \<Rightarrow> op_behavior run" where
  "current_behavior c =
     (case (case current_behave (mem_base (pc_memory c)) of None \<Rightarrow> None | Some opc \<Rightarrow> get_behavior c opc) of
        None \<Rightarrow> err (Lowlevel ''no current op behavior'') | Some b \<Rightarrow> ok b)"

definition set_execute_address :: "translator \<Rightarrow> 'b pcode_cache \<Rightarrow> address \<Rightarrow> 'b pcode_cache \<times> unit run" where
  "set_execute_address tr c addr =
     state_bind (create_instruction tr (c\<lparr>pc_current_address := addr\<rparr>) addr) (\<lambda>c _. (establish_op c, ok ()))"

definition fallthru_op :: "translator \<Rightarrow> 'b pcode_cache \<Rightarrow> 'b pcode_cache \<times> unit run" where
  "fallthru_op tr c =
     (let c = c\<lparr>pc_instruction_start := False\<rparr> in
      state_bind (c, i32_checked (pc_current_op c + 1)) (\<lambda>c n.
      let c = c\<lparr>pc_current_op := n\<rparr> in
      state_bind (if \<not> op_in_range c then
                    state_bind (c, address_add (pc_current_address c) (of_int (pc_instruction_length c))) (\<lambda>c addr.
                    create_instruction tr (c\<lparr>pc_current_address := addr\<rparr>) addr)
                  else (c, ok ())) (\<lambda>c _. (establish_op c, ok ()))))"

text \<open>A step of a memory operation on the current operation.\<close>

definition on_memory :: "'b pcode_cache \<Rightarrow> (emulate_memory \<Rightarrow> pcode_op_raw \<Rightarrow> emulate_memory \<times> 'a run) \<Rightarrow> 'b pcode_cache \<times> 'a run" where
  "on_memory c f = state_bind (c, current_raw_op c) (\<lambda>c p.
     case f (pc_memory c) p of (m, r) \<Rightarrow> (c\<lparr>pc_memory := m\<rparr>, r))"

definition execute_unary :: "'b pcode_cache \<Rightarrow> 'b pcode_cache \<times> unit run" where
  "execute_unary c = state_bind (c, current_behavior c) (\<lambda>c behave. on_memory c (\<lambda>m p. mem_unary m p behave))"

definition execute_binary :: "'b pcode_cache \<Rightarrow> 'b pcode_cache \<times> unit run" where
  "execute_binary c = state_bind (c, current_behavior c) (\<lambda>c behave. on_memory c (\<lambda>m p. mem_binary m p behave))"

definition execute_load :: "translator \<Rightarrow> 'b pcode_cache \<Rightarrow> 'b pcode_cache \<times> unit run" where
  "execute_load tr c = on_memory c (mem_load (tr_spaces tr))"

definition execute_store :: "translator \<Rightarrow> 'b pcode_cache \<Rightarrow> 'b pcode_cache \<times> unit run" where
  "execute_store tr c = on_memory c (mem_store (tr_spaces tr))"

text \<open>A branch to a constant address is relative to the current operation, in 32-bit arithmetic.\<close>

definition branch_target :: "address \<Rightarrow> i32 \<Rightarrow> i32" where
  "branch_target dest cur = wrap_i32 (uint ((ucast (ad_offset dest) :: u32) + of_int cur))"

definition execute_branch :: "translator \<Rightarrow> 'b pcode_cache \<Rightarrow> 'b pcode_cache \<times> unit run" where
  "execute_branch tr c = state_bind (c, run_bind (current_raw_op c) mem_branch) (\<lambda>c destaddr.
     state_bind (c, is_constant destaddr) (\<lambda>c relative.
     if relative then
       let c = c\<lparr>pc_current_op := branch_target destaddr (pc_current_op c)\<rparr> in
       if 0 \<le> pc_current_op c \<and> nat (pc_current_op c) = length (pc_opcache c) then fallthru_op tr c
       else if \<not> op_in_range c then (c, err (Lowlevel ''Bad intra-instruction branch''))
       else (establish_op c, ok ())
     else set_execute_address tr c destaddr))"

definition execute_cbranch :: "'b pcode_cache \<Rightarrow> 'b pcode_cache \<times> bool run" where
  "execute_cbranch c = on_memory c (\<lambda>m p. (m, mem_cbranch m p))"

definition execute_jump :: "translator \<Rightarrow> 'b pcode_cache \<Rightarrow> (emulate_memory \<Rightarrow> pcode_op_raw \<Rightarrow> address run) \<Rightarrow> 'b pcode_cache \<times> unit run" where
  "execute_jump tr c dest = state_bind (on_memory c (\<lambda>m p. (m, dest m p))) (set_execute_address tr)"

definition execute_branchind :: "translator \<Rightarrow> 'b pcode_cache \<Rightarrow> 'b pcode_cache \<times> unit run" where
  "execute_branchind tr c = execute_jump tr c mem_branchind"

definition execute_call :: "translator \<Rightarrow> 'b pcode_cache \<Rightarrow> 'b pcode_cache \<times> unit run" where
  "execute_call tr c = execute_jump tr c (\<lambda>m. mem_call)"

definition execute_callind :: "translator \<Rightarrow> 'b pcode_cache \<Rightarrow> 'b pcode_cache \<times> unit run" where
  "execute_callind tr c = execute_jump tr c mem_callind"

text \<open>A call of the table of breakpoints, which is taken out of the emulator and put back.\<close>

definition with_breaktable :: "'b pcode_cache \<Rightarrow> ('b \<Rightarrow> 'b pcode_cache \<Rightarrow> 'b \<times> 'b pcode_cache \<times> bool run) \<Rightarrow> 'b pcode_cache \<times> bool run" where
  "with_breaktable c f =
     (case pc_breaktable c of None \<Rightarrow> (c, ok False)
      | Some b \<Rightarrow> (case f b (c\<lparr>pc_breaktable := None\<rparr>) of (b, c, r) \<Rightarrow> (c\<lparr>pc_breaktable := Some b\<rparr>, r)))"

definition execute_callother :: "translator \<Rightarrow> 'b break_table \<Rightarrow> 'b pcode_cache \<Rightarrow> 'b pcode_cache \<times> unit run" where
  "execute_callother tr H c = state_bind (c, current_raw_op c) (\<lambda>c p.
     state_bind (with_breaktable c (\<lambda>b. do_pcode_op_break H b p)) (\<lambda>c hooked.
     if hooked then fallthru_op tr c else (c, err (Lowlevel ''Userop not hooked''))))"

definition cache_emulate :: "translator \<Rightarrow> 'b break_table \<Rightarrow> 'b pcode_cache emulate" where
  "cache_emulate tr H =
     \<lparr>em_base = \<lambda>c. mem_base (pc_memory c), em_set_base = \<lambda>b c. c\<lparr>pc_memory := (pc_memory c)\<lparr>mem_base := b\<rparr>\<rparr>,
      em_get_behavior = get_behavior, em_unary = execute_unary, em_binary = execute_binary,
      em_load = execute_load tr, em_store = execute_store tr, em_branch = execute_branch tr, em_cbranch = execute_cbranch,
      em_branchind = execute_branchind tr, em_call = execute_call tr, em_callind = execute_callind tr,
      em_callother = execute_callother tr H, em_multiequal = \<lambda>c. (c, mem_multiequal), em_indirect = \<lambda>c. (c, mem_indirect),
      em_segment_op = \<lambda>c. (c, mem_segment_op), em_cpool_ref = \<lambda>c. (c, mem_cpool_ref), em_new = \<lambda>c. (c, mem_new),
      em_fallthru = fallthru_op tr\<rparr>"

text \<open>One instruction: operations until the next one starts. A run that does not end has no final state.\<close>

partial_function (option) run_ops :: "translator \<Rightarrow> 'b break_table \<Rightarrow> 'b pcode_cache \<Rightarrow> ('b pcode_cache \<times> (fault + unit)) option" where
  "run_ops tr H c =
     (case execute_current_op (cache_emulate tr H) c of (c, r) \<Rightarrow>
        (case r of None \<Rightarrow> None | Some (Inl e) \<Rightarrow> Some (c, Inl e)
         | Some (Inr _) \<Rightarrow> if pc_instruction_start c then Some (c, Inr ()) else run_ops tr H c))"

declare run_ops.simps [code]

definition execute_instruction :: "translator \<Rightarrow> 'b break_table \<Rightarrow> 'b pcode_cache \<Rightarrow> ('b pcode_cache \<times> (fault + unit)) option" where
  "execute_instruction tr H c =
     (case (if pc_instruction_start c then with_breaktable c (\<lambda>b. do_address_break H b (pc_current_address c)) else (c, ok False)) of (c, r) \<Rightarrow>
        (case r of None \<Rightarrow> None | Some (Inl e) \<Rightarrow> Some (c, Inl e)
         | Some (Inr stop) \<Rightarrow> if stop then Some (c, Inr ()) else run_ops tr H c))"

section \<open>Callbacks at breakpoints\<close>

text \<open>The table of callbacks by address and by user operation; a callback keeps a state of its own.\<close>

record 'k callback_table =
  addresscallback :: "((i32 option \<times> u64) \<times> 'k) list"
  pcodecallback :: "(u64 \<times> 'k) list"

definition new_callback_table :: "'k callback_table" where
  "new_callback_table = \<lparr>addresscallback = [], pcodecallback = []\<rparr>"

fun position :: "string list \<Rightarrow> string \<Rightarrow> nat \<Rightarrow> nat option" where
  "position [] nm i = None"
| "position (u # us) nm i = (if u = nm then Some i else position us nm (Suc i))"

definition register_pcode_callback :: "string list \<Rightarrow> 'k callback_table \<Rightarrow> string \<Rightarrow> 'k \<Rightarrow> 'k callback_table \<times> unit run" where
  "register_pcode_callback userops t nm func =
     (case position userops nm 0 of
        Some i \<Rightarrow> (t\<lparr>pcodecallback := bt_insert (of_nat i) func (pcodecallback t)\<rparr>, ok ())
      | None \<Rightarrow> (t, err (Lowlevel (''Bad userop name: '' @ nm))))"

definition register_address_callback :: "'k callback_table \<Rightarrow> address \<Rightarrow> 'k \<Rightarrow> 'k callback_table" where
  "register_address_callback t addr func = t\<lparr>addresscallback := bt_insert (addr_key addr) func (addresscallback t)\<rparr>"

text \<open>The methods of a callback; the ones the trait gives answer that the breakpoint is handled.\<close>

record 'k break_callback =
  pcode_callback :: "'k \<Rightarrow> pcode_op_raw \<Rightarrow> 'k callback_table pcode_cache \<Rightarrow> 'k \<times> 'k callback_table pcode_cache \<times> bool run"
  address_callback :: "'k \<Rightarrow> address \<Rightarrow> 'k callback_table pcode_cache \<Rightarrow> 'k \<times> 'k callback_table pcode_cache \<times> bool run"

definition default_callback :: "'k break_callback" where
  "default_callback = \<lparr>pcode_callback = \<lambda>k _ c. (k, c, ok True), address_callback = \<lambda>k _ c. (k, c, ok True)\<rparr>"

definition callback_breaks :: "'k break_callback \<Rightarrow> 'k callback_table break_table" where
  "callback_breaks K = \<lparr>do_pcode_op_break = \<lambda>t curop c.
       (case get_input curop 0 of
          Some (Inr vn) \<Rightarrow>
            (case bt_get (pcodecallback t) (vd_offset vn) of
               None \<Rightarrow> (t, c, ok False)
             | Some k \<Rightarrow> (case pcode_callback K k curop c of (k, c, r) \<Rightarrow>
                 (t\<lparr>pcodecallback := bt_insert (vd_offset vn) k (pcodecallback t)\<rparr>, c, r)))
        | _ \<Rightarrow> (t, c, panic)),
     do_address_break = \<lambda>t addr c.
       (case bt_get (addresscallback t) (addr_key addr) of
          None \<Rightarrow> (t, c, ok False)
        | Some k \<Rightarrow> (case address_callback K k addr c of (k, c, r) \<Rightarrow>
            (t\<lparr>addresscallback := bt_insert (addr_key addr) k (addresscallback t)\<rparr>, c, r)))\<rparr>"

end
