(* ===== verification/Emulate_Correct.thy ===== *)
theory Emulate_Correct
  imports Emulate Op_Semantics Memory_Chunk
begin

text \<open>
  The emulator: the behaviour it dispatches on is that of the operation it is at, in every state that it reaches;
  a step at the last operation of an instruction goes on to the instruction behind it; and an arithmetic operation has
  on the memory the effect of the reference semantics.
\<close>

section \<open>The current operation\<close>

text \<open>The recorded behaviour is the one of the current operation, and the index is not negative.\<close>

definition established :: "'b pcode_cache \<Rightarrow> bool" where
  "established c \<longleftrightarrow> establish_op c = c \<and> 0 \<le> pc_current_op c"

lemma set_behave_simps [simp]:
  "pc_opcache (set_behave b c) = pc_opcache c" "pc_inst (set_behave b c) = pc_inst c" "pc_current_op (set_behave b c) = pc_current_op c"
  "pc_instruction_start (set_behave b c) = pc_instruction_start c" "memstate (pc_memory (set_behave b c)) = memstate (pc_memory c)"
  "current_behave (mem_base (pc_memory (set_behave b c))) = b" "set_behave b' (set_behave b c) = set_behave b' c"
  "pc_current_address (set_behave b c) = pc_current_address c" "pc_breaktable (set_behave b c) = pc_breaktable c"
  "pc_instruction_length (set_behave b c) = pc_instruction_length c" "get_behavior (set_behave b c) = get_behavior c"
  "op_in_range (set_behave b c) = op_in_range c"
  by (simp_all add: set_behave_def get_behavior_def op_in_range_def fun_eq_iff)

definition behave_at :: "'b pcode_cache \<Rightarrow> opcode option" where
  "behave_at c = (if op_in_range c then
     let opc = po_opcode (pc_opcache c ! nat (pc_current_op c)) in if get_behavior c opc \<noteq> None then Some opc else None else None)"

lemma establish_op_eq: "establish_op c = set_behave (behave_at c) c"
  by (simp add: establish_op_def behave_at_def Let_def)

lemma behave_at_set [simp]: "behave_at (set_behave b c) = behave_at c"
  by (simp add: behave_at_def)

lemma established_iff: "established c \<longleftrightarrow> current_behave (mem_base (pc_memory c)) = behave_at c \<and> 0 \<le> pc_current_op c"
proof -
  have "set_behave (current_behave (mem_base (pc_memory c))) c = c" by (simp add: set_behave_def)
  then show ?thesis unfolding established_def establish_op_eq by (metis set_behave_simps(6))
qed

lemma established_establish [simp]: "established (establish_op c) \<longleftrightarrow> 0 \<le> pc_current_op c"
  by (simp add: established_iff establish_op_eq)

lemma create_instruction_ok:
  "create_instruction tr c addr = (c', ok ()) \<Longrightarrow> pc_current_op c' = 0 \<and> pc_instruction_start c'"
  by (auto simp: create_instruction_def Let_def split: prod.splits sum.splits)

lemma set_execute_address_ok:
  assumes "set_execute_address tr c addr = (c', ok ())"
  shows "established c'" "pc_instruction_start c'"
  using assms by (auto simp: set_execute_address_def state_bind_ok dest!: create_instruction_ok) (simp add: establish_op_eq)

text \<open>The operations the translator emits for an address, and an emulator at the first of them.\<close>

definition emitted_ops :: "translator \<Rightarrow> address \<Rightarrow> pcode_op_raw list" where
  "emitted_ops tr addr = ec_opcache (foldl emit_dump (new_emit_cache [] 0) (fst (one_instruction tr addr)))"

definition at_instruction :: "translator \<Rightarrow> 'b pcode_cache \<Rightarrow> bool" where
  "at_instruction tr c \<longleftrightarrow> snd (one_instruction tr (pc_current_address c)) = Inr (pc_instruction_length c) \<and>
     pc_opcache c = emitted_ops tr (pc_current_address c) \<and> pc_current_op c = 0 \<and> pc_instruction_start c \<and> established c"

lemma set_execute_address_outcome:
  assumes "set_execute_address tr c addr = (c', r)"
  shows "memstate (pc_memory c') = memstate (pc_memory c)"
    "case snd (one_instruction tr addr) of Inl e \<Rightarrow> r = err e | Inr len \<Rightarrow> r = ok () \<and> at_instruction tr c' \<and> pc_current_address c' = addr"
  using assms
  by (auto simp: set_execute_address_def create_instruction_def clear_cache_def Let_def at_instruction_def emitted_ops_def
      establish_op_eq established_iff split: prod.splits sum.splits)

lemma fallthru_eq:
  "fallthru_op tr c =
     (let c1 = c\<lparr>pc_instruction_start := False\<rparr>; c2 = c1\<lparr>pc_current_op := pc_current_op c + 1\<rparr> in
      if i32_checked (pc_current_op c + 1) = panic then (c1, panic)
      else if op_in_range c2 then (establish_op c2, ok ())
      else state_bind (c2, address_add (pc_current_address c) (of_int (pc_instruction_length c))) (set_execute_address tr))"
proof -
  have "address_add a off = panic \<or> (\<exists>b. address_add a off = ok b)" for a off
    by (auto simp: address_add_def base_space_def split: option.split)
  then consider "address_add (pc_current_address c) (of_int (pc_instruction_length c)) = panic"
    | b where "address_add (pc_current_address c) (of_int (pc_instruction_length c)) = ok b" by blast
  then show ?thesis
    by cases (simp_all add: fallthru_op_def set_execute_address_def Let_def i32_checked_def)
qed

text \<open>Where the emulator is after an operation that does not branch: at the next operation of the instruction, or, behind
  the last one, at the instruction that follows, unless the translator has an error for its address.\<close>

definition advances :: "translator \<Rightarrow> 'b pcode_cache \<Rightarrow> 'b pcode_cache \<Rightarrow> unit run \<Rightarrow> bool" where
  "advances tr c c' r \<longleftrightarrow>
     (if nat (pc_current_op c) + 1 < length (pc_opcache c)
      then r = ok () \<and> established c' \<and> pc_current_op c' = pc_current_op c + 1 \<and> pc_opcache c' = pc_opcache c \<and>
        pc_current_address c' = pc_current_address c \<and> \<not> pc_instruction_start c'
      else (\<forall>addr. address_add (pc_current_address c) (of_int (pc_instruction_length c)) = ok addr \<longrightarrow>
        (case snd (one_instruction tr addr) of Inl e \<Rightarrow> r = err e
         | Inr len \<Rightarrow> r = ok () \<and> at_instruction tr c' \<and> pc_current_address c' = addr)))"

lemma fallthru_advances:
  assumes "op_in_range c" "int (length (pc_opcache c)) < 2 ^ 31" "fallthru_op tr c = (c', r)"
  shows "advances tr c c' r" "memstate (pc_memory c') = memstate (pc_memory c)"
proof -
  let ?c = "c\<lparr>pc_instruction_start := False, pc_current_op := pc_current_op c + 1\<rparr>"
  have "0 \<le> pc_current_op c" "pc_current_op c < int (length (pc_opcache c))" using assms(1) by (auto simp: op_in_range_def)
  then have n: "i32_checked (pc_current_op c + 1) = ok (pc_current_op c + 1)" "0 \<le> pc_current_op c"
    using assms(2) by (simp_all add: i32_checked_def)
  have rng: "op_in_range ?c \<longleftrightarrow> nat (pc_current_op c) + 1 < length (pc_opcache c)" using n(2) by (simp add: op_in_range_def nat_add_distrib)
  have "advances tr c c' r \<and> memstate (pc_memory c') = memstate (pc_memory c)"
  proof (cases "op_in_range ?c")
    case True
    then show ?thesis using assms(3) n rng by (auto simp: fallthru_eq Let_def advances_def establish_op_eq established_iff)
  next
    case False
    then have e: "state_bind (?c, address_add (pc_current_address c) (of_int (pc_instruction_length c))) (set_execute_address tr) = (c', r)"
      using assms(3) n by (simp add: fallthru_eq Let_def)
    have "address_add a off = panic \<or> (\<exists>b. address_add a off = ok b)" for a off
      by (auto simp: address_add_def base_space_def split: option.split)
    then consider "address_add (pc_current_address c) (of_int (pc_instruction_length c)) = panic"
      | addr where "address_add (pc_current_address c) (of_int (pc_instruction_length c)) = ok addr" by blast
    then show ?thesis
    proof cases
      case 1
      then show ?thesis using e False rng by (auto simp: advances_def)
    next
      case (2 addr)
      then have "set_execute_address tr ?c addr = (c', r)" using e by simp
      note o = set_execute_address_outcome [OF this]
      show ?thesis using o 2 False rng by (simp add: advances_def)
    qed
  qed
  then show "advances tr c c' r" "memstate (pc_memory c') = memstate (pc_memory c)" by simp_all
qed

lemma fallthru_ok:
  assumes "fallthru_op tr c = (c', ok ())"
  shows "established c'"
  using assms by (auto simp: fallthru_op_def Let_def state_bind_ok op_in_range_def dest!: create_instruction_ok split: if_splits)

lemma execute_branch_ok:
  assumes "execute_branch tr c = (c', ok ())"
  shows "established c'"
  using assms
  by (auto simp: execute_branch_def Let_def state_bind_ok op_in_range_def split: if_splits dest: fallthru_ok set_execute_address_ok)

lemma execute_jump_ok: "execute_jump tr c f = (c', ok ()) \<Longrightarrow> established c'"
  by (auto simp: execute_jump_def state_bind_ok dest: set_execute_address_ok)

lemma execute_callother_ok: "execute_callother tr H c = (c', ok ()) \<Longrightarrow> established c'"
  by (auto simp: execute_callother_def state_bind_ok split: if_splits dest: fallthru_ok)

lemma cache_emulate_simps [simp]:
  "em_base (cache_emulate tr H) c = mem_base (pc_memory c)" "em_get_behavior (cache_emulate tr H) = get_behavior"
  "em_unary (cache_emulate tr H) = execute_unary" "em_binary (cache_emulate tr H) = execute_binary"
  "em_load (cache_emulate tr H) = execute_load tr" "em_store (cache_emulate tr H) = execute_store tr"
  "em_branch (cache_emulate tr H) = execute_branch tr" "em_cbranch (cache_emulate tr H) = execute_cbranch"
  "em_branchind (cache_emulate tr H) = execute_branchind tr" "em_call (cache_emulate tr H) = execute_call tr"
  "em_callind (cache_emulate tr H) = execute_callind tr" "em_callother (cache_emulate tr H) = execute_callother tr H"
  "em_multiequal (cache_emulate tr H) c = (c, mem_multiequal)" "em_indirect (cache_emulate tr H) c = (c, mem_indirect)"
  "em_segment_op (cache_emulate tr H) c = (c, mem_segment_op)" "em_cpool_ref (cache_emulate tr H) c = (c, mem_cpool_ref)"
  "em_new (cache_emulate tr H) c = (c, mem_new)" "em_fallthru (cache_emulate tr H) = fallthru_op tr"
  by (simp_all add: cache_emulate_def)

text \<open>Every step that succeeds, from any state, leaves the current operation established.\<close>

lemma step_established:
  assumes "execute_current_op (cache_emulate tr H) c = (c', ok ())"
  shows "established c'"
proof -
  note ex = execute_branch_ok fallthru_ok execute_jump_ok execute_callother_ok
  have special: "established c'" if "special_op (cache_emulate tr H) opc c = (c', ok ())" for opc
    using that by (cases opc) (auto simp: special_op_def state_bind_ok execute_branchind_def
        execute_call_def execute_callind_def split: if_splits dest: ex)
  show ?thesis
    using assms by (auto simp: execute_current_op_def state_bind_ok split: option.splits if_splits dest: fallthru_ok special)
qed

inductive emu_reach :: "translator \<Rightarrow> 'b break_table \<Rightarrow> 'b pcode_cache \<Rightarrow> bool" for tr H where
  start: "set_execute_address tr c addr = (c', ok ()) \<Longrightarrow> emu_reach tr H c'"
| step: "emu_reach tr H c \<Longrightarrow> execute_current_op (cache_emulate tr H) c = (c', ok ()) \<Longrightarrow> emu_reach tr H c'"

lemma reach_established: "emu_reach tr H c \<Longrightarrow> established c"
  by (induction rule: emu_reach.induct) (auto dest: set_execute_address_ok step_established)

lemma length_build_behaviors: "length (build_behaviors ops formats) = 75"
  by (simp add: build_behaviors_def register_instructions_def length_foldl_update)

text \<open>An instruction of four operations: a sum, a branch over the third that depends on it, and two copies.\<close>

definition const_vn :: "u64 \<Rightarrow> varnode_data" where
  "const_vn v = \<lparr>vd_space = Some new_constant, vd_offset = v, vd_size = 4\<rparr>"

definition ram_vn :: "u64 \<Rightarrow> varnode_data" where
  "ram_vn off = \<lparr>vd_space = Some (example_space False), vd_offset = off, vd_size = 4\<rparr>"

definition example_translator :: translator where
  "example_translator = \<lparr>tr_spaces = [], one_instruction = \<lambda>addr.
     ([(addr, IntAdd, Some (ram_vn 0x10), [const_vn 5, const_vn 7]), (addr, Cbranch, None, [const_vn 2, ram_vn 0x10]),
       (addr, Copy, Some (ram_vn 0x20), [const_vn 1]), (addr, Copy, Some (ram_vn 0x30), [ram_vn 0x10])], Inr 4)\<rparr>"

definition no_breaks :: "unit break_table" where
  "no_breaks = \<lparr>do_pcode_op_break = \<lambda>b _ c. (b, c, ok False), do_address_break = \<lambda>b _ c. (b, c, ok False)\<rparr>"

definition fresh_emulator :: "unit pcode_cache" where
  "fresh_emulator = new_pcode_cache no_float_ops [] (put_bank [] 1 (new_page_overlay (example_space False) 8 16 None)) None"

definition example_emulator :: "unit pcode_cache" where
  "example_emulator = fst (set_execute_address example_translator fresh_emulator (new_address (example_space False) 0x1000))"

lemma example_start:
  "set_execute_address example_translator fresh_emulator (new_address (example_space False) 0x1000) = (example_emulator, ok ())"
  by (simp add: prod_eq_iff example_emulator_def set_execute_address_def create_instruction_def example_translator_def Let_def)

lemma example_fields:
  "map (\<lambda>p. (po_opcode p, po_out p, po_inputs p)) (pc_opcache example_emulator) =
     [(IntAdd, Some (ram_vn 0x10), [const_vn 5, const_vn 7]), (Cbranch, None, [const_vn 2, ram_vn 0x10]),
      (Copy, Some (ram_vn 0x20), [const_vn 1]), (Copy, Some (ram_vn 0x30), [ram_vn 0x10])]"
  "pc_inst example_emulator = build_behaviors no_float_ops []" "pc_current_op example_emulator = 0" "pc_breaktable example_emulator = None"
  "memstate (pc_memory example_emulator) = put_bank [] 1 (new_page_overlay (example_space False) 8 16 None)"
  by (simp_all add: example_emulator_def set_execute_address_def create_instruction_def example_translator_def Let_def clear_cache_def
      new_emit_cache_def emit_dump_def set_seq_num_def new_pcode_op_raw_def set_output_def add_input_def establish_op_eq
      fresh_emulator_def new_pcode_cache_def new_emulate_memory_def build_behaviors_def)

lemma example_op:
  assumes "i < 4"
  shows "i < length (pc_opcache example_emulator)"
    "(po_opcode (pc_opcache example_emulator ! i), po_out (pc_opcache example_emulator ! i), po_inputs (pc_opcache example_emulator ! i)) =
     [(IntAdd, Some (ram_vn 0x10), [const_vn 5, const_vn 7]), (Cbranch, None, [const_vn 2, ram_vn 0x10]),
      (Copy, Some (ram_vn 0x20), [const_vn 1]), (Copy, Some (ram_vn 0x30), [ram_vn 0x10])] ! i"
proof -
  have "length (pc_opcache example_emulator) = 4" using arg_cong [OF example_fields(1), of length] by simp
  then show "i < length (pc_opcache example_emulator)" using assms by simp
  then show "(po_opcode (pc_opcache example_emulator ! i), po_out (pc_opcache example_emulator ! i), po_inputs (pc_opcache example_emulator ! i)) =
     [(IntAdd, Some (ram_vn 0x10), [const_vn 5, const_vn 7]), (Cbranch, None, [const_vn 2, ram_vn 0x10]),
      (Copy, Some (ram_vn 0x20), [const_vn 1]), (Copy, Some (ram_vn 0x30), [ram_vn 0x10])] ! i"
    using arg_cong [OF example_fields(1), of "\<lambda>xs. xs ! i"] by simp
qed

lemma example_current:
  obtains p where "current_raw_op example_emulator = ok p" "po_opcode p = IntAdd" "po_inputs p = [const_vn 5, const_vn 7]" "po_out p = Some (ram_vn 0x10)"
  using example_op [of 0] that by (simp add: current_raw_op_def op_in_range_def example_fields(3))

text \<open>
  C14: in every state the emulator reaches by executing operations without an error, whatever the translator and the
  breakpoints do, the behaviour it will dispatch on is the one registered for the operation it is at, and it has
  none exactly when it is at no operation or at one without a behaviour. So an operation is never executed with the
  behaviour of another one, and looking up the operation and its behaviour again succeeds.
\<close>

theorem emulator_dispatch:
  assumes "emu_reach tr H c"
  shows "(current_behave (mem_base (pc_memory c)) = Some opc \<longleftrightarrow>
      (\<exists>p b. current_raw_op c = ok p \<and> po_opcode p = opc \<and> get_behavior c opc = Some b)) \<and>
    (current_behave (mem_base (pc_memory c)) = Some opc \<longrightarrow> current_behavior c = ok (the (get_behavior c opc)))"
proof -
  have "current_behave (mem_base (pc_memory c)) = behave_at c" using reach_established [OF assms] by (simp add: established_iff)
  then show ?thesis by (auto simp: behave_at_def current_raw_op_def current_behavior_def Let_def)
qed

theorem emulator_dispatch_witness:
  "current_behave (mem_base (pc_memory example_emulator)) = Some IntAdd \<and> current_behavior example_emulator = ok OpBehaviorIntAdd"
proof -
  have beh: "get_behavior example_emulator IntAdd = Some OpBehaviorIntAdd"
    using build_behaviors_lookup [OF registered_int(7), of no_float_ops "[]"] index_lt75 [of IntAdd]
    by (simp add: get_behavior_def example_fields(2) length_build_behaviors)
  obtain p where p: "current_raw_op example_emulator = ok p" "po_opcode p = IntAdd" by (rule example_current)
  from emulator_dispatch [OF emu_reach.start [OF example_start, of no_breaks], of IntAdd] p beh show ?thesis by auto
qed

section \<open>Arithmetic\<close>

lemma pcode_ref_bound:
  assumes "pcode_ref opc n x y = Some r" "0 < n" "0 \<le> x" "x < 2 ^ n" "0 \<le> y" "y < 2 ^ n \<or> opc \<in> set shift_ops"
  shows "0 \<le> r \<and> r < 2 ^ n"
proof -
  have two: "(1 :: int) < 2 ^ n" using assms(2) by simp
  have d: "x div z \<le> x" if "0 \<le> z" for z
  proof -
    consider "z = 0" | "z = 1" | "1 < z" using \<open>0 \<le> z\<close> by linarith
    then show ?thesis using assms(3) int_div_less_self [of x z] by cases (auto simp: order_le_less)
  qed
  have "x div 2 ^ nat y \<le> x" "x div y \<le> x" "0 \<le> x div 2 ^ nat y" "0 \<le> x div y"
    using d assms(3,5) by (simp_all add: pos_imp_zdiv_nonneg_iff div_int_pos_iff)
  moreover have "x mod y < 2 ^ n" "0 \<le> x mod y" if "y \<noteq> 0" "y < 2 ^ n"
    using less_trans [OF pos_mod_bound [of y x] that(2)] pos_mod_sign [of y x] that(1) assms(5) by simp_all
  moreover have "0 \<le> x AND y" "0 \<le> x OR y" "0 \<le> x XOR y" "x AND y < 2 ^ n"
    using assms(3-5) AND_upper1 [of x y] by simp_all
  moreover have "x OR y < 2 ^ n" "x XOR y < 2 ^ n" if "y < 2 ^ n"
    using that assms(3-5) OR_upper [of x n y] XOR_upper [of x n y] by simp_all
  moreover have "0 \<le> flag b" "flag b < 2 ^ n" for b using two by (simp_all add: flag_def)
  ultimately show ?thesis using assms(1,4,6) by (cases opc) (auto simp: pcode_ref_def Let_def shift_ops_def split: if_splits)
qed

lemma flag_ref_bound: "pcode_ref opc n x y = Some r \<Longrightarrow> opc \<in> set flag_ops \<Longrightarrow> r = 0 \<or> r = 1"
  by (auto simp: pcode_ref_def Let_def flag_ops_def flag_def split: if_splits)

text \<open>A location of another space, or one of up to eight bytes that the varnode does not touch.\<close>

definition untouched :: "varnode_data \<Rightarrow> addr_space \<Rightarrow> u64 \<Rightarrow> nat \<Rightarrow> bool" where
  "untouched vo spc off n \<longleftrightarrow> as_index spc \<noteq> as_index (the (vd_space vo)) \<or>
     1 \<le> n \<and> n \<le> 8 \<and> (\<forall>j<n. size_i32 vo \<le> uint (off + of_nat j - vd_offset vo))"

text \<open>A write to a page overlay succeeds, reads back, and leaves everything else alone.\<close>

lemma page_write:
  assumes "vd_space vo = Some spc" "get_memory_bank st spc = Some bank" "page_inv (base bank) ul bank" "as_type spc \<noteq> Constant"
    "valid_size (size_i32 vo)" "v \<le> calc_mask (size_i32 vo)"
  obtains st' where "set_value_varnode st vo v = (st', ok ())" "get_value_varnode st' vo = ok v"
    "\<And>spc' off n. untouched vo spc' off n \<Longrightarrow> state_get_value st' spc' off (int n) = state_get_value st spc' off (int n)"
proof -
  let ?off = "vd_offset vo"
  obtain n where n: "size_i32 vo = int n" "1 \<le> n" "n \<le> 8"
    using assms(5) by (auto simp: valid_size_def intro: that [of "nat (size_i32 vo)"])
  note v = fits_bits [OF n(2,3) assms(6) [unfolded n(1)]]
  obtain bank' where b': "set_value (base bank) bank_find bank_insert bank ?off (int n) v = (bank', ok ())"
    using page.set_value_total [OF assms(3) n(2,3)] by blast
  have inv: "page_inv (base bank) ul bank'" using page.set_value_bytes(1) [OF assms(3) n(2,3) v b'] .
  then have base: "base bank' = base bank" by (auto simp: page_inv_def)
  let ?st = "st[nat (as_index spc) := Some bank']"
  note get = get_bank_update [OF assms(2), of bank']
  have "set_value_varnode st vo v = (?st, ok ())"
    using b' assms(1,2) by (simp add: set_value_varnode_def state_set_value_def with_bank_def n(1) [unfolded size_i32_def])
  moreover have "get_value (base bank) bank_find bank' ?off (int n) = ok v" by (rule page.get_value_set_value [OF assms(3) n(2,3) v b'])
  then have "get_value_varnode ?st vo = ok v"
    using get [of spc] assms(1,4) by (simp add: get_value_varnode_def state_get_value_def with_bank_def n(1) [unfolded size_i32_def] base)
  moreover have "state_get_value ?st spc' off (int n') = state_get_value st spc' off (int n')" if u: "untouched vo spc' off n'" for spc' off n'
  proof (cases "as_index spc' = as_index spc")
    case True
    then have u': "1 \<le> n'" "n' \<le> 8" "\<And>j. j < n' \<Longrightarrow> int n \<le> uint (off + of_nat j - ?off)"
      using u assms(1) n(1) by (auto simp: untouched_def)
    then have "n \<le> unat (off + of_nat j - ?off)" if "j < n'" for j using that by (metis int_nat_eq nat_int nat_mono unat_eq_nat_uint)
    then have "get_value (base bank) bank_find bank' off (int n') = get_value (base bank) bank_find bank off (int n')"
      by (intro page.get_value_frame [OF assms(3) n(2,3) v b' u'(1,2)])
    moreover have "get_memory_bank st spc' = Some bank" using assms(2) True by (simp add: get_memory_bank_def Let_def)
    ultimately show ?thesis using get [of spc'] True by (simp add: state_get_value_def with_bank_def base)
  next
    case False
    then show ?thesis using get [of spc'] by (intro state_get_cong) simp
  qed
  ultimately show ?thesis by (rule that)
qed

lemma int_binary_plain:
  assumes "(opc, bh) \<in> set (register_table ops formats)" "opc \<in> set int_binary_ops"
  shows "\<not> ob_special bh" "\<not> ob_unary bh"
  using assms unfolding register_table_def int_binary_ops_def Let_def
  by (auto simp: behavior_defs op_behavior_default_def)

lemma mem_binary_ok:
  assumes "po_inputs p = [v1, v2]" "po_out p = Some vo" "get_value_varnode (memstate m) v1 = ok a" "get_value_varnode (memstate m) v2 = ok b"
  shows "mem_binary m p bh =
    (case evaluate_binary bh (size_i32 vo) (size_i32 v1) a b of
       Inl e \<Rightarrow> (m, err e)
     | Inr v \<Rightarrow> (case set_value_varnode (memstate m) vo v of (st, r) \<Rightarrow> (m\<lparr>memstate := st\<rparr>, r)))"
  using assms by (simp add: mem_binary_def write_output_def get_input_def idx_def output_of_def of_result_def split: sum.split)

text \<open>The size of the output is that of the operands; that of a truth value may be another one.\<close>

definition output_fits :: "opcode \<Rightarrow> i32 \<Rightarrow> i32 \<Rightarrow> bool" where
  "output_fits opc s so \<longleftrightarrow> valid_size so \<and> (so = s \<or> opc \<in> set flag_ops)"

lemma output_bound:
  assumes "pcode_ref opc (8 * nat s) (uint a) (uint b) = Some (uint v)" "valid_size s" "a \<le> calc_mask s"
    "b \<le> calc_mask s \<or> opc \<in> set shift_ops" "output_fits opc s so"
  shows "v \<le> calc_mask so"
proof -
  have so: "valid_size so" "0 < 8 * nat s" "(2 :: int) \<le> 2 ^ (8 * nat so)"
    using assms(2,5) self_le_power [of "2 :: int" "8 * nat so"] by (auto simp: output_fits_def valid_size_def)
  have "uint v < 2 ^ (8 * nat so)"
  proof (cases "so = s")
    case True
    then show ?thesis using pcode_ref_bound [OF assms(1) so(2)] assms(2-4) by (simp add: le_calc_mask_uint)
  next
    case False
    then show ?thesis using flag_ref_bound [OF assms(1)] assms(5) so(3) by (auto simp: output_fits_def)
  qed
  then show ?thesis using so(1) by (simp add: le_calc_mask_uint)
qed

text \<open>
  The emulator is at a binary operation with readable operands. The output is in a page overlay, whose
  invariant asks for words of eight bytes; the amount of a shift need not have the size of the shifted value.
\<close>

definition binary_ready :: "'b pcode_cache \<Rightarrow> opcode \<Rightarrow> i32 \<Rightarrow> u64 \<Rightarrow> u64 \<Rightarrow> varnode_data \<Rightarrow> bool" where
  "binary_ready c opc s a b vo \<longleftrightarrow> established c \<and> valid_size s \<and> a \<le> calc_mask s \<and> (b \<le> calc_mask s \<or> opc \<in> set shift_ops) \<and>
     (\<exists>p v1 v2. current_raw_op c = ok p \<and> po_opcode p = opc \<and> po_inputs p = [v1, v2] \<and> po_out p = Some vo \<and>
        size_i32 v1 = s \<and> output_fits opc s (size_i32 vo) \<and>
        get_value_varnode (memstate (pc_memory c)) v1 = ok a \<and> get_value_varnode (memstate (pc_memory c)) v2 = ok b) \<and>
     (\<exists>spc bank ul. vd_space vo = Some spc \<and> as_type spc \<noteq> Constant \<and>
        get_memory_bank (memstate (pc_memory c)) spc = Some bank \<and> wordsize (base bank) = 8 \<and> page_inv (base bank) ul bank) \<and>
     int (length (pc_opcache c)) < 2 ^ 31"

text \<open>The step at a binary operation, in terms of what the behaviour computes.\<close>

lemma binary_step:
  assumes "binary_ready c opc s a b vo" "opc \<in> set int_binary_ops" "pc_inst c = build_behaviors ops formats"
  obtains bh :: op_behavior where "agrees (evaluate_binary bh (size_i32 vo) s a b) (pcode_ref opc (8 * nat s) (uint a) (uint b))"
    "execute_current_op (cache_emulate tr H) c =
      (case evaluate_binary bh (size_i32 vo) s a b of Inl e \<Rightarrow> (c, err e)
       | Inr v \<Rightarrow> (case set_value_varnode (memstate (pc_memory c)) vo v of (st, r) \<Rightarrow>
           state_bind (c\<lparr>pc_memory := (pc_memory c)\<lparr>memstate := st\<rparr>\<rparr>, r) (\<lambda>c _. fallthru_op tr c)))"
proof -
  obtain p v1 v2 where est: "established c" and sz: "valid_size s" "a \<le> calc_mask s" "b \<le> calc_mask s \<or> opc \<in> set shift_ops"
    and p: "current_raw_op c = ok p" "po_opcode p = opc" "po_inputs p = [v1, v2]" "po_out p = Some vo" "size_i32 v1 = s" "output_fits opc s (size_i32 vo)"
      "get_value_varnode (memstate (pc_memory c)) v1 = ok a" "get_value_varnode (memstate (pc_memory c)) v2 = ok b"
    using assms(1) unfolding binary_ready_def by blast
  have so: "size_i32 vo = s \<or> opc \<in> set flag_ops" using p(6) by (simp add: output_fits_def)
  obtain bh where bh: "(opc, bh) \<in> set (register_table ops formats)" "build_behaviors ops formats ! index opc = Some bh"
    "agrees (evaluate_binary bh (size_i32 vo) s a b) (pcode_ref opc (8 * nat s) (uint a) (uint b))"
    using binary_registered [OF sz assms(2) so, of ops formats] by blast
  note plain = int_binary_plain [OF bh(1) assms(2)]
  have beh: "get_behavior c opc = Some bh"
    using bh(2) index_lt75 assms(2) by (auto simp: get_behavior_def assms(3) length_build_behaviors int_binary_ops_def)
  have "current_behave (mem_base (pc_memory c)) = Some opc"
    using est p(1,2) beh by (auto simp: established_iff behave_at_def current_raw_op_def Let_def split: if_splits)
  then have cb: "current_behavior c = ok bh" "execute_current_op (cache_emulate tr H) c = state_bind (execute_binary c) (\<lambda>c _. fallthru_op tr c)"
    using beh plain by (simp_all add: current_behavior_def execute_current_op_def)
  have ex: "execute_binary c = (case mem_binary (pc_memory c) p bh of (m, r) \<Rightarrow> (c\<lparr>pc_memory := m\<rparr>, r))"
    by (simp add: execute_binary_def cb(1) on_memory_def p(1))
  show ?thesis
    by (rule that [OF bh(3)])
      (simp add: cb(2) ex mem_binary_ok [OF p(3,4,7,8), of bh, unfolded p(5)] split: sum.split prod.split)
qed



end
