(* ===== verification/Emulate_Returns.thy ===== *)
theory Emulate_Returns
  imports Emulate_Correct
begin

text \<open>
  An instruction comes to its end: on memory kept in pages no operation runs forever, every operation that stays in
  the instruction moves forward when the relative branches do, and so the loop over the operations returns, at a newly
  translated instruction or, after a relative branch as the first operation, within the same one.
\<close>

section \<open>Memory operations return\<close>

context total_word_store
begin

lemma get_value_returns:
  assumes "inv s"
  shows "\<exists>v. get_value b fnd s off sz = ok v"
proof -
  have al: "aligned (word_index off)" "aligned (word_index off + 8)" by (simp_all add: aligned_next)
  have wi: "off AND - 8 = word_index off" by (simp add: word_index_def)
  note f = find_word [OF assms al(1)] find_word [OF assms al(2)]
  show ?thesis using f ws [OF assms] by (simp add: get_value_def Let_def align_mask_def cxx_int_def wi)
qed

lemma set_value_returns:
  assumes "inv s"
  shows "\<exists>s'. set_value b fnd ins s off sz val = (s', ok ()) \<and> inv s'"
proof -
  have al: "aligned (word_index off)" "aligned (word_index off + 8)" by (simp_all add: aligned_next)
  have wi: "off AND - 8 = word_index off" by (simp add: word_index_def)
  note f = find_word [OF assms al(1)] find_word [OF assms al(2)]
  have i: "\<exists>s'. ins s1 j v = (s', ok ()) \<and> inv s'" if "inv s1" "aligned j" for s1 j v
    using insert_total [OF that, of v] insert_inv [OF that, of v] by blast
  have two: "\<exists>s'. state_bind (ins s (word_index off) v1) (\<lambda>bank _. ins bank (word_index off + 8) v2) = (s', ok ()) \<and> inv s'" for v1 v2
    using i [OF assms al(1), of v1] i [OF _ al(2), of _ v2] by fastforce
  show ?thesis
    using f ws [OF assms] two i [OF assms al(1)] by (simp add: set_value_def Let_def align_mask_def cxx_int_def wi)
qed

end

text \<open>Every bank of the state is a page overlay (of words of eight bytes, as its invariant asks).\<close>

definition paged :: "memory_state \<Rightarrow> bool" where
  "paged st \<longleftrightarrow> (\<forall>bank. Some bank \<in> set st \<longrightarrow> (\<exists>ul. page_inv (base bank) ul bank))"

lemma paged_bank: "paged st \<Longrightarrow> get_memory_bank st spc = Some bank \<Longrightarrow> \<exists>ul. page_inv (base bank) ul bank"
  unfolding paged_def get_memory_bank_def Let_def by (metis nth_mem option.distinct(1))

lemma state_get_returns: "paged st \<Longrightarrow> state_get_value st spc off sz \<noteq> None"
  using page.get_value_returns paged_bank [of st spc]
  by (fastforce simp: state_get_value_def with_bank_def err_def ok_def split: option.split)

lemma varnode_get_returns: "paged st \<Longrightarrow> get_value_varnode st vn \<noteq> None"
  using state_get_returns by (auto simp: get_value_varnode_def panic_def split: option.split)

lemma state_set_returns:
  assumes "paged st"
  shows "snd (state_set_value st spc off sz v) \<noteq> None \<and> paged (fst (state_set_value st spc off sz v))"
proof (cases "get_memory_bank st spc")
  case None
  then show ?thesis using assms by (simp add: state_set_value_def with_bank_def err_def)
next
  case (Some bank)
  then obtain ul where "page_inv (base bank) ul bank" using paged_bank [OF assms] by blast
  then obtain bank' where b: "set_value (base bank) bank_find bank_insert bank off sz v = (bank', ok ())" "page_inv (base bank) ul bank'"
    using page.set_value_returns by blast
  then have "page_inv (base bank') ul bank'" by (auto simp: page_inv_def)
  then have "paged (st[nat (as_index spc) := Some bank'])" using assms set_update_subset_insert unfolding paged_def by fastforce
  then show ?thesis using Some b(1) by (simp add: state_set_value_def with_bank_def ok_def)
qed

lemma varnode_set_returns:
  "paged st \<Longrightarrow> snd (set_value_varnode st vn v) \<noteq> None \<and> paged (fst (set_value_varnode st vn v))"
  using state_set_returns by (auto simp: set_value_varnode_def panic_def split: option.split)

lemma run_bind_returns: "r \<noteq> None \<Longrightarrow> (\<And>x. r = ok x \<Longrightarrow> f x \<noteq> None) \<Longrightarrow> run_bind r f \<noteq> None"
  by (auto simp: run_bind_def ok_def split: option.splits sum.splits)

lemma plain_returns: "get_input p i \<noteq> None" "output_of p \<noteq> None" "of_result x \<noteq> None" "space_from_const spaces vn \<noteq> None" "ok y \<noteq> None"
  "current_raw_op c \<noteq> None" "current_behavior c \<noteq> None" "is_constant a \<noteq> None" "address_add a off \<noteq> None" "i32_checked n \<noteq> None"
  by (auto simp: get_input_def idx_def output_of_def of_result_def space_from_const_def current_raw_op_def current_behavior_def
      is_constant_def base_space_def address_add_def i32_checked_def ok_def err_def panic_def run_bind_def split: option.split sum.split)

lemma returns_cases:
  assumes "r \<noteq> None"
  obtains e where "r = Some (Inl e)" | x where "r = ok x"
  using assms by (cases r) (auto simp: ok_def intro: obj_sumE)

text \<open>What a memory operation on the current operation leaves.\<close>

definition mem_good :: "emulate_memory \<times> 'a run \<Rightarrow> bool" where
  "mem_good X \<longleftrightarrow> snd X \<noteq> None \<and> paged (memstate (fst X))"

lemma write_output_good:
  assumes "paged (memstate m)" "r \<noteq> None"
  shows "mem_good (write_output m r)"
proof -
  show ?thesis using assms(2)
  proof (rule returns_cases)
    fix e assume "r = Some (Inl e)"
    then show ?thesis using assms by (simp add: write_output_def mem_good_def state_bind_def)
  next
    fix x assume "r = ok x"
    then show ?thesis using varnode_set_returns [OF assms(1), of "fst x" "snd x"] by (cases x) (auto simp: write_output_def mem_good_def split: prod.split)
  qed
qed

lemma memory_ops_good:
  assumes "paged (memstate m)"
  shows "mem_good (mem_unary m p bh)" "mem_good (mem_binary m p bh)" "mem_good (mem_load spaces m p)" "mem_good (mem_store spaces m p)"
    "mem_good (m, mem_cbranch m p)" "mem_good (m, mem_branchind m p)" "mem_good (m, mem_callind m p)" "mem_good (m, mem_call p)"
proof -
  note get = varnode_get_returns [OF assms] state_get_returns [OF assms]
  note rule = run_bind_returns get plain_returns
  show "mem_good (mem_unary m p bh)" unfolding mem_unary_def by (intro write_output_good assms rule)
  show "mem_good (mem_binary m p bh)" unfolding mem_binary_def by (intro write_output_good assms rule)
  show "mem_good (mem_load spaces m p)" unfolding mem_load_def Let_def by (intro write_output_good assms rule)
  show "mem_good (m, mem_cbranch m p)" "mem_good (m, mem_branchind m p)" "mem_good (m, mem_callind m p)" "mem_good (m, mem_call p)"
    unfolding mem_good_def mem_cbranch_def mem_branchind_def mem_callind_def mem_call_def fst_conv snd_conv by (intro conjI rule assms)+
  let ?r = "run_bind (get_input p 2) (\<lambda>src. run_bind (get_value_varnode (memstate m) src) (\<lambda>val.
     run_bind (get_input p 1) (\<lambda>ptr. run_bind (get_value_varnode (memstate m) ptr) (\<lambda>off.
     run_bind (get_input p 0) (\<lambda>vn. run_bind (space_from_const spaces vn) (\<lambda>spc.
     ok (src, val, spc, address_to_byte off (as_word_size spc))))))))"
  have "?r \<noteq> None" by (intro rule)
  then show "mem_good (mem_store spaces m p)"
  proof (rule returns_cases)
    fix e assume "?r = Some (Inl e)"
    then show ?thesis using assms by (simp add: mem_store_def mem_good_def state_bind_def)
  next
    fix x assume r: "?r = ok x"
    obtain src v spc off where x: "x = (src, v, spc, off)" by (metis surj_pair)
    have "mem_store spaces m p = (case state_set_value (memstate m) spc off (size_i32 src) v of (st, r) \<Rightarrow> (m\<lparr>memstate := st\<rparr>, r))"
      unfolding mem_store_def r x by simp
    then show ?thesis using state_set_returns [OF assms, of spc off "size_i32 src" v] by (auto simp: mem_good_def split: prod.split)
  qed
qed

section \<open>Progress within an instruction\<close>

definition same_code :: "'b pcode_cache \<Rightarrow> 'b pcode_cache \<Rightarrow> bool" where
  "same_code c c' \<longleftrightarrow> pc_opcache c' = pc_opcache c \<and> pc_inst c' = pc_inst c \<and> pc_breaktable c' = pc_breaktable c \<and>
     pc_current_address c' = pc_current_address c \<and> paged (memstate (pc_memory c'))"

text \<open>A step returns; without an error it is at a newly translated instruction or goes on to a later operation of this
  one, and then the mark of a start is left only when \<open>b\<close> allows it.\<close>

definition progress :: "translator \<Rightarrow> bool \<Rightarrow> 'b pcode_cache \<Rightarrow> 'b pcode_cache \<times> unit run \<Rightarrow> bool" where
  "progress tr b c X \<longleftrightarrow> snd X \<noteq> None \<and> (snd X = ok () \<longrightarrow> at_instruction tr (fst X) \<or>
     (same_code c (fst X) \<and> pc_current_op c < pc_current_op (fst X) \<and> op_in_range (fst X) \<and> established (fst X) \<and>
      (pc_instruction_start (fst X) \<longrightarrow> b)))"

lemma progress_error [simp]: "progress tr b c (c', err e)" "progress tr b c (c', panic)" "progress tr b c (c', Some (Inl ft))"
  by (simp_all add: progress_def err_def panic_def ok_def)

lemma progress_weaken:
  "progress tr b c X \<Longrightarrow> same_code c0 c \<Longrightarrow> pc_current_op c0 \<le> pc_current_op c \<Longrightarrow> progress tr b c0 X"
  by (auto simp: progress_def same_code_def)

lemma progress_mono: "progress tr False c X \<Longrightarrow> progress tr b c X"
  by (auto simp: progress_def)

lemma state_bind_progress:
  assumes "snd m \<noteq> None" "\<And>x. snd m = ok x \<Longrightarrow> progress tr b c (f (fst m) x)"
  shows "progress tr b c (state_bind m f)"
  using assms(1)
proof (rule returns_cases)
  fix e assume "snd m = Some (Inl e)"
  then show ?thesis by (cases m) (simp add: state_bind_def)
next
  fix x assume "snd m = ok x"
  then show ?thesis using assms(2) by (cases m) simp
qed

lemma set_execute_progress: "progress tr b c (set_execute_address tr c1 addr)"
proof (cases "set_execute_address tr c1 addr")
  case (Pair c' r)
  show ?thesis using set_execute_address_outcome(2) [OF Pair] Pair
    by (cases "snd (one_instruction tr addr)") (auto simp: progress_def ok_def err_def)
qed

lemma fallthru_progress:
  assumes "paged (memstate (pc_memory c))"
  shows "progress tr b c (fallthru_op tr c)"
proof -
  have "progress tr b c (state_bind (c2, address_add a off) (set_execute_address tr))" for c2 a off
    by (rule state_bind_progress) (simp_all add: plain_returns set_execute_progress)
  then show ?thesis
    using assms by (simp add: fallthru_eq Let_def) (auto simp: progress_def same_code_def establish_op_eq established_iff op_in_range_def ok_def)
qed

lemma on_memory_progress:
  assumes "paged (memstate (pc_memory c))" "\<And>p. mem_good (f (pc_memory c) p)"
  shows "progress tr b c (state_bind (on_memory c f) (\<lambda>c _. fallthru_op tr c))"
proof (rule state_bind_progress)
  have raw: "snd (on_memory c f) \<noteq> None \<and> same_code c (fst (on_memory c f)) \<and> pc_current_op (fst (on_memory c f)) = pc_current_op c"
  proof -
    consider e where "current_raw_op c = err e" | p where "current_raw_op c = ok p" by (cases "op_in_range c") (auto simp: current_raw_op_def)
    then show ?thesis
    proof cases
      case (2 p)
      then show ?thesis using assms(2) [of p] by (auto simp: on_memory_def mem_good_def same_code_def split: prod.splits)
    qed (use assms(1) in \<open>simp add: on_memory_def same_code_def, simp add: err_def\<close>)
  qed
  then show "snd (on_memory c f) \<noteq> None" by simp
  show "progress tr b c (fallthru_op tr (fst (on_memory c f)))" for x :: 'b
  proof -
    have "progress tr b (fst (on_memory c f)) (fallthru_op tr (fst (on_memory c f)))"
      by (rule fallthru_progress) (use raw in \<open>simp add: same_code_def\<close>)
    then show ?thesis by (rule progress_weaken) (use raw in simp_all)
  qed
qed

text \<open>Branches within the instruction lead to later operations.\<close>

definition forward_branches :: "pcode_op_raw list \<Rightarrow> bool" where
  "forward_branches prog \<longleftrightarrow> (\<forall>i<length prog. po_opcode (prog ! i) \<in> {Branch, Cbranch} \<longrightarrow>
     (\<forall>vn. get_input (prog ! i) 0 = ok vn \<longrightarrow> is_constant (vd_get_addr vn) = ok True \<longrightarrow> int i < branch_target (vd_get_addr vn) (int i)))"

text \<open>The instruction is at its first operation, and this is a branch within the instruction.\<close>

definition relative_branch :: "'b pcode_cache \<Rightarrow> bool" where
  "relative_branch c \<longleftrightarrow> (\<exists>p vn. current_raw_op c = ok p \<and> po_opcode p \<in> {Branch, Cbranch} \<and>
     get_input p 0 = ok vn \<and> is_constant (vd_get_addr vn) = ok True)"

definition branch_start :: "'b pcode_cache \<Rightarrow> bool" where
  "branch_start c \<longleftrightarrow> pc_instruction_start c \<and> relative_branch c"

lemma execute_branch_progress:
  assumes "paged (memstate (pc_memory c))" "forward_branches (pc_opcache c)" "current_raw_op c = ok p" "po_opcode p \<in> {Branch, Cbranch}"
  shows "progress tr (branch_start c) c (execute_branch tr c)"
proof -
  have p: "op_in_range c" "p = pc_opcache c ! nat (pc_current_op c)" using assms(3) by (auto simp: current_raw_op_def split: if_splits)
  show ?thesis unfolding execute_branch_def assms(3) run_bind_simps
  proof (rule state_bind_progress)
    fix dest assume d: "snd (c, mem_branch p) = ok dest"
    then obtain vn where vn: "get_input p 0 = ok vn" "dest = vd_get_addr vn" by (auto simp: mem_branch_def run_bind_ok)
    have fwd: "pc_current_op c < branch_target dest (pc_current_op c)" if "is_constant dest = ok True"
      using that assms(2,4) p vn unfolding forward_branches_def op_in_range_def by force
    show "progress tr (branch_start c) c (state_bind (fst (c, mem_branch p), is_constant dest) (\<lambda>c relative.
        if relative then let c = c\<lparr>pc_current_op := branch_target dest (pc_current_op c)\<rparr> in
          if 0 \<le> pc_current_op c \<and> nat (pc_current_op c) = length (pc_opcache c) then fallthru_op tr c
          else if \<not> op_in_range c then (c, err (Lowlevel ''Bad intra-instruction branch'')) else (establish_op c, ok ())
        else set_execute_address tr c dest))"
    proof (rule state_bind_progress, goal_cases)
      case (2 rel)
      let ?c = "c\<lparr>pc_current_op := branch_target dest (pc_current_op c)\<rparr>"
      have "progress tr (branch_start c) c (fallthru_op tr ?c)" if "is_constant dest = ok True"
      proof -
        have "progress tr (branch_start c) ?c (fallthru_op tr ?c)" using assms(1) by (intro fallthru_progress) simp
        moreover have "same_code c ?c" using assms(1) by (simp add: same_code_def)
        moreover have "pc_current_op c \<le> pc_current_op ?c" using fwd [OF that] by simp
        ultimately show ?thesis by (rule progress_weaken)
      qed
      moreover have "progress tr (branch_start c) c (establish_op ?c, ok ())" if "is_constant dest = ok True" "op_in_range ?c"
      proof -
        have "0 \<le> branch_target dest (pc_current_op c)" using that(2) by (simp add: op_in_range_def)
        moreover have "op_in_range (establish_op ?c)" using that(2) by (simp add: establish_op_eq)
        moreover have "relative_branch c" using assms(3,4) vn that(1) unfolding relative_branch_def by blast
        ultimately show ?thesis using fwd [OF that(1)] assms(1)
          by (simp add: progress_def same_code_def establish_op_eq established_iff branch_start_def ok_def)
      qed
      ultimately show ?case using 2 set_execute_progress by (auto simp: Let_def)
    qed (simp add: plain_returns)
  qed (simp add: mem_branch_def run_bind_returns plain_returns)
qed

lemma behavior_opcode:
  assumes "pc_inst c = build_behaviors ops formats" "get_behavior c opc = Some bh"
  shows "ob_opcode bh = opc"
proof -
  have i: "index opc < 75" "build_behaviors ops formats ! index opc = Some bh"
    using assms by (auto simp: get_behavior_def length_build_behaviors split: if_splits)
  have "opc \<in> fst ` set (register_table ops formats)"
  proof (rule ccontr)
    assume "opc \<notin> fst ` set (register_table ops formats)"
    then have "\<forall>kv \<in> set (register_table ops formats). index (fst kv) \<noteq> index opc" by (metis image_eqI index_inj)
    then have "build_behaviors ops formats ! index opc = None"
      using i(1) by (simp add: build_behaviors_def register_instructions_def foldl_update_other)
    then show False using i(2) by simp
  qed
  then obtain b where b: "(opc, b) \<in> set (register_table ops formats)" by auto
  then show ?thesis using build_behaviors_lookup [OF b] register_opcode [OF b] i(2) by simp
qed

text \<open>An emulator within an instruction that only branches forward and does not call back.\<close>

definition forward_inv :: "'f float_ops \<Rightarrow> 'f list \<Rightarrow> 'b pcode_cache \<Rightarrow> bool" where
  "forward_inv ops formats c \<longleftrightarrow> established c \<and> paged (memstate (pc_memory c)) \<and> pc_inst c = build_behaviors ops formats \<and>
     forward_branches (pc_opcache c) \<and> (pc_breaktable c = None \<or> Callother \<notin> po_opcode ` set (pc_opcache c))"

lemma execute_jump_progress:
  assumes "paged (memstate (pc_memory c))" "\<And>p. mem_good (pc_memory c, f (pc_memory c) p)"
  shows "progress tr b c (execute_jump tr c f)"
proof -
  have "snd (on_memory c (\<lambda>m p. (m, f m p))) \<noteq> None"
    using assms(2) by (cases "op_in_range c") (auto simp: on_memory_def current_raw_op_def mem_good_def, simp add: err_def)
  then show ?thesis unfolding execute_jump_def by (rule state_bind_progress) (rule set_execute_progress)
qed

lemma callother_progress:
  assumes "current_raw_op c = ok p" "pc_breaktable c = None"
  shows "progress tr b c (execute_callother tr H c)"
  using assms by (simp add: execute_callother_def with_breaktable_def)

lemma special_progress:
  assumes "forward_inv ops formats c" "current_raw_op c = ok p" "po_opcode p = opc"
  shows "progress tr (branch_start c) c (special_op (cache_emulate tr H) opc c)"
proof -
  have m: "paged (memstate (pc_memory c))" and f: "forward_branches (pc_opcache c)" using assms(1) by (simp_all add: forward_inv_def)
  note good = memory_ops_good [OF m]
  have load: "progress tr (branch_start c) c (state_bind (execute_load tr c) (\<lambda>c _. fallthru_op tr c))"
    "progress tr (branch_start c) c (state_bind (execute_store tr c) (\<lambda>c _. fallthru_op tr c))"
    unfolding execute_load_def execute_store_def by (intro on_memory_progress m good)+
  have br: "progress tr (branch_start c) c (execute_branch tr c)" if "opc \<in> {Branch, Cbranch}"
    using execute_branch_progress [OF m f assms(2)] that assms(3) by simp
  have cb: "progress tr (branch_start c) c (state_bind (execute_cbranch c) (\<lambda>c taken. if taken then execute_branch tr c else fallthru_op tr c))" if "opc = Cbranch"
  proof (rule state_bind_progress)
    have eq: "execute_cbranch c = (c, mem_cbranch (pc_memory c) p)" using assms(2) by (simp add: execute_cbranch_def on_memory_def)
    show "snd (execute_cbranch c) \<noteq> None" using good(5) [of p] eq by (simp add: mem_good_def)
    show "progress tr (branch_start c) c (if taken then execute_branch tr (fst (execute_cbranch c)) else fallthru_op tr (fst (execute_cbranch c)))" for taken
      using br that fallthru_progress [OF m] eq by simp
  qed
  have jump: "progress tr (branch_start c) c (execute_branchind tr c)" "progress tr (branch_start c) c (execute_call tr c)" "progress tr (branch_start c) c (execute_callind tr c)"
    unfolding execute_branchind_def execute_call_def execute_callind_def by (intro execute_jump_progress m good)+
  have co: "progress tr (branch_start c) c (execute_callother tr H c)" if "opc = Callother"
  proof (rule callother_progress [OF assms(2)])
    have "p \<in> set (pc_opcache c)" using assms(2) by (auto simp: current_raw_op_def op_in_range_def split: if_splits)
    then show "pc_breaktable c = None" using assms(1,3) that by (force simp: forward_inv_def)
  qed
  show ?thesis using load br cb jump co
    by (cases opc) (simp_all add: special_op_def cong: if_cong, simp_all add: mem_multiequal_def mem_indirect_def mem_segment_op_def mem_cpool_ref_def mem_new_def)
qed

lemma step_progress:
  assumes "forward_inv ops formats c"
  shows "progress tr (branch_start c) c (execute_current_op (cache_emulate tr H) c)"
proof -
  have m: "paged (memstate (pc_memory c))" and est: "established c" and inst: "pc_inst c = build_behaviors ops formats"
    using assms by (simp_all add: forward_inv_def)
  note good = memory_ops_good [OF m]
  show ?thesis
  proof (cases "behave_at c")
    case None
    then show ?thesis using est fallthru_progress [OF m] by (simp add: execute_current_op_def established_iff)
  next
    case (Some opc)
    then obtain p bh where p: "current_raw_op c = ok p" "po_opcode p = opc" "get_behavior c opc = Some bh"
      by (auto simp: behave_at_def current_raw_op_def Let_def split: if_splits)
    have b: "current_behave (mem_base (pc_memory c)) = Some opc" using est Some by (simp add: established_iff)
    have cb: "current_behavior c = ok bh" using b p(3) by (simp add: current_behavior_def)
    have un: "progress tr (branch_start c) c (state_bind (execute_unary c) (\<lambda>c _. fallthru_op tr c))" "progress tr (branch_start c) c (state_bind (execute_binary c) (\<lambda>c _. fallthru_op tr c))"
      unfolding execute_unary_def execute_binary_def cb state_bind_simps by (intro on_memory_progress m good)+
    have "progress tr (branch_start c) c (special_op (cache_emulate tr H) (ob_opcode bh) c)"
      using special_progress [OF assms p(1,2)] behavior_opcode [OF inst p(3)] by simp
    then show ?thesis using un b p(3) by (simp add: execute_current_op_def)
  qed
qed

lemma forward_inv_step: "forward_inv ops formats c \<Longrightarrow> same_code c c' \<Longrightarrow> established c' \<Longrightarrow> forward_inv ops formats c'"
  by (simp add: forward_inv_def same_code_def)

text \<open>Where the loop over the operations stops: at a newly translated instruction, or within this one, in front of an
  operation that a branch at its start led to.\<close>

definition instruction_done :: "translator \<Rightarrow> 'b pcode_cache \<Rightarrow> 'b pcode_cache \<Rightarrow> bool" where
  "instruction_done tr c c' \<longleftrightarrow> at_instruction tr c' \<or>
     (branch_start c \<and> same_code c c' \<and> pc_current_op c < pc_current_op c' \<and> op_in_range c')"

lemma run_ops_returns:
  assumes "forward_inv ops formats c"
  shows "\<exists>c' r. run_ops tr H c = Some (c', r) \<and> (r = Inr () \<longrightarrow> instruction_done tr c c')"
  using assms
proof (induction "length (pc_opcache c) - nat (pc_current_op c)" arbitrary: c rule: less_induct)
  case less
  let ?X = "execute_current_op (cache_emulate tr H) c"
  have pr: "progress tr (branch_start c) c ?X" by (rule step_progress [OF less.prems])
  then have "snd ?X \<noteq> None" by (simp add: progress_def)
  then show ?case
  proof (rule returns_cases)
    fix e assume "snd ?X = Some (Inl e)"
    then show ?thesis by (subst run_ops.simps) (auto split: prod.split)
  next
    fix x assume "snd ?X = ok x"
    then have sx: "snd ?X = ok ()" by simp
    then have x: "?X = (fst ?X, ok ())" by (simp add: prod_eq_iff)
    show ?thesis
    proof (cases "pc_instruction_start (fst ?X)")
      case True
      then have "instruction_done tr c (fst ?X)" using pr sx unfolding progress_def instruction_done_def by blast
      then show ?thesis using True by (subst run_ops.simps, subst x) (simp add: ok_def)
    next
      case False
      then have s: "same_code c (fst ?X)" "pc_current_op c < pc_current_op (fst ?X)" "op_in_range (fst ?X)" "established (fst ?X)"
        using pr sx unfolding progress_def at_instruction_def by blast+
      have "0 \<le> pc_current_op c" using less.prems by (simp add: forward_inv_def established_iff)
      then have "length (pc_opcache (fst ?X)) - nat (pc_current_op (fst ?X)) < length (pc_opcache c) - nat (pc_current_op c)"
        using s(1-3) by (auto simp: same_code_def op_in_range_def)
      moreover have "instruction_done tr (fst ?X) c' \<Longrightarrow> instruction_done tr c c'" for c'
        using False by (simp add: instruction_done_def branch_start_def)
      ultimately show ?thesis using less.hyps [OF _ forward_inv_step [OF less.prems s(1,4)]] False
        by (subst run_ops.simps, subst x) (simp add: ok_def, blast)
    qed
  qed
qed

text \<open>
  C7: executing an instruction returns. With memory in page overlays of eight-byte words, the registered behaviours, relative
  branches that only lead forward, and no breakpoints to call back (or, within the instruction, no user operation that would),
  the loop over the operations of the instruction ends, whatever the translator emits
  next: with an error or without. Without an error, the emulator is at the first of the operations the translator
  emits for the address it is at. The one exception is a run whose first operation is a relative branch at the
  start of the instruction: it may stop within the instruction, at a later operation of the same
  address (\<open>stops_within_instruction\<close> is such a run).
\<close>

theorem instruction_returns:
  assumes "forward_inv ops formats c" "pc_breaktable c = None \<or> \<not> pc_instruction_start c"
  shows "\<exists>c' r. execute_instruction tr H c = Some (c', r) \<and> (r = Inr () \<longrightarrow> instruction_done tr c c')"
proof -
  have "execute_instruction tr H c = run_ops tr H c"
    using assms(2) by (auto simp: execute_instruction_def with_breaktable_def ok_def)
  then show ?thesis using run_ops_returns [OF assms(1)] by simp
qed

lemma example_forward: "forward_inv no_float_ops [] example_emulator"
proof -
  let ?bank = "new_page_overlay (example_space False) 8 16 None"
  have b: "base ?bank = \<lparr>wordsize = 8, pagesize = 16, bank_space = example_space False\<rparr>" by (simp add: new_page_overlay_def)
  have "page_inv (base ?bank) None ?bank" unfolding b by (rule example_page_inv)
  then have "paged (memstate (pc_memory example_emulator))" by (auto simp: paged_def example_fields(5) put_bank_def numeral_2_eq_2)
  moreover have "forward_branches (pc_opcache example_emulator)"
  proof -
    have len: "length (pc_opcache example_emulator) = 4" using arg_cong [OF example_fields(1), of length] by simp
    have t: "branch_target (vd_get_addr (const_vn 2)) 1 = 3" by code_simp
    show ?thesis unfolding forward_branches_def len
    proof (intro allI impI)
      fix i vn assume i: "i < (4 :: nat)" and br: "po_opcode (pc_opcache example_emulator ! i) \<in> {Branch, Cbranch}"
        and vn: "get_input (pc_opcache example_emulator ! i) 0 = ok vn"
      have "i = 1" using i br example_op(2) [OF i] by (auto simp: less_Suc_eq numeral_eq_Suc)
      then show "int i < branch_target (vd_get_addr vn) (int i)" using vn example_op(2) [OF i] t by (simp add: get_input_def idx_def)
    qed
  qed
  ultimately show ?thesis using set_execute_address_ok(1) [OF example_start] by (simp add: forward_inv_def example_fields)
qed

theorem instruction_returns_witness:
  "(\<exists>c' e. execute_instruction example_translator no_breaks example_emulator = Some (c', Inl e)) \<or>
   (\<exists>c'. execute_instruction example_translator no_breaks example_emulator = Some (c', Inr ()) \<and> at_instruction example_translator c')"
proof -
  have "\<not> relative_branch example_emulator"
  proof (rule example_current)
    fix p assume "current_raw_op example_emulator = ok p" "po_opcode p = IntAdd"
    then show ?thesis by (simp add: relative_branch_def)
  qed
  moreover obtain c' r where "execute_instruction example_translator no_breaks example_emulator = Some (c', r)"
    "r = Inr () \<longrightarrow> instruction_done example_translator example_emulator c'"
    using instruction_returns [OF example_forward, of example_translator no_breaks] example_fields(4) by blast
  ultimately show ?thesis by (cases r) (simp_all add: instruction_done_def branch_start_def)
qed

section \<open>A branch at the start\<close>

text \<open>
  A taken relative branch leaves the mark of an instruction start as it is. When the first operation of an instruction
  is such a branch, the loop takes the operation it leads to for the start of the next instruction: the
  emulator stops at the third operation of the same instruction, at the same address.
\<close>

definition skip_translator :: translator where
  "skip_translator = \<lparr>tr_spaces = [], one_instruction = \<lambda>addr.
     ([(addr, Branch, None, [const_vn 2]), (addr, Copy, Some (ram_vn 0x20), [const_vn 1]),
       (addr, Copy, Some (ram_vn 0x30), [const_vn 2])], Inr 4)\<rparr>"

lemma stops_within_instruction:
  "map_option (\<lambda>(c, r). (pc_current_op c, ad_offset (pc_current_address c), r))
     (execute_instruction skip_translator no_breaks
       (fst (set_execute_address skip_translator fresh_emulator (new_address (example_space False) 0x1000))))
   = Some (2, 0x1000, Inr ())"
  by code_simp

end
