(* ===== verification/Snippet.thy ===== *)
theory Snippet
  imports Emulate
begin

text \<open>
  Snippets of p-code, src/src/emulateutil.rs: an emulator whose only memory is a map of temporaries, the check that a
  list of operations fits it, and the evaluation of an executable snippet (src/src/pcodeinject.rs). It implements
  the trait of theory \<open>Emulate\<close>. What it uses of the architecture is a parameter: the load image, the table
  of spaces and the behaviours of the inject library.
\<close>

record snippet_context =
  sc_loader :: "(nat \<Rightarrow> address \<Rightarrow> u8 list result) option"
  sc_spaces :: space_table
  sc_behaviors :: "op_behavior option list option"

definition load_image_value :: "snippet_context \<Rightarrow> addr_space \<Rightarrow> u64 \<Rightarrow> i32 \<Rightarrow> u64 run" where
  "load_image_value glb spc off sz =
     (case sc_loader glb of
        None \<Rightarrow> err (Lowlevel ''missing load image'')
      | Some load_fill \<Rightarrow>
          run_bind (of_result (load_fill 8 (new_address spc off))) (\<lambda>bytes.
          let res = le_value bytes; res = (if is_big_endian spc then byte_swap res 8 else res) in
          if is_big_endian spc \<and> sz < 8 then
            run_bind (i32_checked (8 - sz)) (\<lambda>d. run_bind (i32_checked (d * 8)) (\<lambda>sa. ok (wshr res sa)))
          else ok (res AND calc_mask sz)))"

section \<open>The emulator\<close>

record snippet =
  sn_base :: emulate_base
  sn_op_list :: "pcode_op_raw list"
  sn_temp_values :: "(u64, u64) btree"
  sn_current_op :: "i32 option"
  sn_pos :: i32

definition new_snippet :: snippet where
  "new_snippet = \<lparr>sn_base = new_emulate_base, sn_op_list = [], sn_temp_values = [], sn_current_op = None, sn_pos = 0\<rparr>"

definition op_at :: "pcode_op_raw list \<Rightarrow> i32 \<Rightarrow> pcode_op_raw option" where
  "op_at ops i = (if 0 \<le> i \<and> nat i < length ops then Some (ops ! nat i) else None)"

definition set_current_op :: "snippet \<Rightarrow> i32 \<Rightarrow> snippet" where
  "set_current_op s i = s\<lparr>sn_pos := i, sn_current_op := Some i,
     sn_base := (sn_base s)\<lparr>current_behave := map_option po_opcode (op_at (sn_op_list s) i)\<rparr>\<rparr>"

definition sn_halt :: "bool \<Rightarrow> snippet \<Rightarrow> snippet" where
  "sn_halt val s = s\<lparr>sn_base := (sn_base s)\<lparr>emu_halted := val\<rparr>\<rparr>"

definition reset_memory :: "snippet \<Rightarrow> snippet" where
  "reset_memory s = sn_halt False (set_current_op (s\<lparr>sn_temp_values := []\<rparr>) 0)"

definition build_emitter :: "snippet \<Rightarrow> u64 \<Rightarrow> emit_cache" where
  "build_emitter s uniq_reserve = new_emit_cache (sn_op_list s) uniq_reserve"

definition space_type_of :: "varnode_data \<Rightarrow> space_type option" where
  "space_type_of vn = map_option as_type (vd_space vn)"

definition illegal_opcodes :: "opcode list" where
  "illegal_opcodes = [Branchind, Call, Callind, Callother, Store, Segmentop, Cpoolref, New, Multiequal, Indirect]"

definition legal_op :: "pcode_op_raw \<Rightarrow> bool run" where
  "legal_op p =
     (if po_opcode p \<in> set illegal_opcodes then ok False
      else run_bind (if po_opcode p = Branch then run_bind (get_input p 0) (\<lambda>vn. ok (space_type_of vn = Some Constant)) else ok True) (\<lambda>relative.
        if \<not> relative then ok False
        else if (case po_out p of Some vn \<Rightarrow> space_type_of vn \<noteq> Some Internal | None \<Rightarrow> False) then ok False
        else ok (list_all (\<lambda>vn. space_type_of vn \<noteq> Some Processor) (po_inputs p))))"

fun check_ops :: "pcode_op_raw list \<Rightarrow> bool run" where
  "check_ops [] = ok True"
| "check_ops (p # ps) = run_bind (legal_op p) (\<lambda>legal. if legal then check_ops ps else ok False)"

definition check_for_legal_code :: "snippet \<Rightarrow> bool run" where
  "check_for_legal_code s = check_ops (sn_op_list s)"

definition sn_set_value :: "snippet \<Rightarrow> u64 \<Rightarrow> u64 \<Rightarrow> snippet" where
  "sn_set_value s off val = s\<lparr>sn_temp_values := bt_insert off val (sn_temp_values s)\<rparr>"

definition temps_value :: "snippet_context \<Rightarrow> (u64, u64) btree \<Rightarrow> varnode_data \<Rightarrow> u64 run" where
  "temps_value glb temps vn =
     (case vd_space vn of
        None \<Rightarrow> err (Lowlevel ''varnode without space'')
      | Some spc \<Rightarrow>
          if as_type spc = Constant then ok (vd_offset vn)
          else if as_type spc = Internal then
            (case bt_get temps (vd_offset vn) of
               Some val \<Rightarrow> ok val | None \<Rightarrow> err (Lowlevel ''Read before write in snippet emulation''))
          else load_image_value glb spc (vd_offset vn) (size_i32 vn))"

definition sn_get_value :: "snippet_context \<Rightarrow> snippet \<Rightarrow> varnode_data \<Rightarrow> u64 run" where
  "sn_get_value glb s vn = temps_value glb (sn_temp_values s) vn"

definition get_temp_value :: "snippet \<Rightarrow> u64 \<Rightarrow> u64" where
  "get_temp_value s off = (case bt_get (sn_temp_values s) off of None \<Rightarrow> 0 | Some val \<Rightarrow> val)"

definition sn_raw_op :: "snippet \<Rightarrow> pcode_op_raw run" where
  "sn_raw_op s = (case Option.bind (sn_current_op s) (op_at (sn_op_list s)) of None \<Rightarrow> err no_current_op | Some p \<Rightarrow> ok p)"

definition illegal_op_error :: "snippet \<Rightarrow> error" where
  "illegal_op_error s = Lowlevel (''Illegal p-code operation in snippet: '' @
     (case Option.bind (sn_current_op s) (op_at (sn_op_list s)) of None \<Rightarrow> [] | Some p \<Rightarrow> get_opname (po_opcode p)))"

definition sn_get_behavior :: "snippet_context \<Rightarrow> opcode \<Rightarrow> op_behavior option" where
  "sn_get_behavior glb opc =
     (case sc_behaviors glb of None \<Rightarrow> None | Some bs \<Rightarrow> if index opc < length bs then bs ! index opc else None)"

definition sn_behavior :: "snippet_context \<Rightarrow> snippet \<Rightarrow> op_behavior run" where
  "sn_behavior glb s =
     (case Option.bind (current_behave (sn_base s)) (sn_get_behavior glb) of
        None \<Rightarrow> err (Lowlevel ''no current op behavior'') | Some b \<Rightarrow> ok b)"

definition sn_write :: "snippet \<Rightarrow> (varnode_data \<times> u64) run \<Rightarrow> snippet \<times> unit run" where
  "sn_write s r = state_bind (s, r) (\<lambda>s (out, res). (sn_set_value s (vd_offset out) res, ok ()))"

definition sn_unary :: "snippet_context \<Rightarrow> snippet \<Rightarrow> snippet \<times> unit run" where
  "sn_unary glb s = sn_write s
     (run_bind (sn_raw_op s) (\<lambda>p.
      run_bind (get_input p 0) (\<lambda>vn. run_bind (sn_get_value glb s vn) (\<lambda>in1.
      run_bind (output_of p) (\<lambda>out. run_bind (sn_behavior glb s) (\<lambda>behave.
      run_bind (of_result (evaluate_unary behave (size_i32 out) (size_i32 vn) in1)) (\<lambda>res. ok (out, res))))))))"

definition sn_binary :: "snippet_context \<Rightarrow> snippet \<Rightarrow> snippet \<times> unit run" where
  "sn_binary glb s = sn_write s
     (run_bind (sn_raw_op s) (\<lambda>p.
      run_bind (get_input p 0) (\<lambda>vn1. run_bind (sn_get_value glb s vn1) (\<lambda>in1.
      run_bind (get_input p 1) (\<lambda>vn2. run_bind (sn_get_value glb s vn2) (\<lambda>in2.
      run_bind (output_of p) (\<lambda>out. run_bind (sn_behavior glb s) (\<lambda>behave.
      run_bind (of_result (evaluate_binary behave (size_i32 out) (size_i32 vn1) in1 in2)) (\<lambda>res. ok (out, res))))))))))"

definition sn_load :: "snippet_context \<Rightarrow> snippet \<Rightarrow> snippet \<times> unit run" where
  "sn_load glb s = sn_write s
     (run_bind (sn_raw_op s) (\<lambda>p.
      run_bind (get_input p 1) (\<lambda>ptr. run_bind (sn_get_value glb s ptr) (\<lambda>off.
      run_bind (get_input p 0) (\<lambda>vn. run_bind (space_from_const (sc_spaces glb) vn) (\<lambda>spc.
      let off = address_to_byte off (as_word_size spc) in
      run_bind (output_of p) (\<lambda>out.
      run_bind (load_image_value glb spc off (size_i32 out)) (\<lambda>res. ok (out, res)))))))))"

definition sn_branch :: "snippet \<Rightarrow> snippet \<times> unit run" where
  "sn_branch s = state_bind (s, run_bind (sn_raw_op s) (\<lambda>p. get_input p 0)) (\<lambda>s vn.
     if space_type_of vn \<noteq> Some Constant then (s, err (Lowlevel ''Tried to emulate absolute branch in snippet code''))
     else
       let rel = wrap_i32 (uint (vd_offset vn)); s = s\<lparr>sn_pos := wrap_i32 (sn_pos s + rel)\<rparr> in
       if sn_pos s < 0 \<or> nat (sn_pos s) > length (sn_op_list s) then
         (s, err (Lowlevel ''Relative branch out of bounds in snippet code''))
       else if nat (sn_pos s) = length (sn_op_list s) then (sn_halt True s, ok ())
       else (set_current_op s (sn_pos s), ok ()))"

definition sn_cbranch :: "snippet_context \<Rightarrow> snippet \<Rightarrow> snippet \<times> bool run" where
  "sn_cbranch glb s = (s, run_bind (sn_raw_op s) (\<lambda>p.
     run_bind (get_input p 1) (\<lambda>vn. run_bind (sn_get_value glb s vn) (\<lambda>cond. ok (cond \<noteq> 0)))))"

definition sn_illegal :: "snippet \<Rightarrow> snippet \<times> unit run" where
  "sn_illegal s = (s, err (illegal_op_error s))"

definition sn_fallthru :: "snippet \<Rightarrow> snippet \<times> unit run" where
  "sn_fallthru s = state_bind (s, i32_checked (sn_pos s + 1)) (\<lambda>s n.
     let s = s\<lparr>sn_pos := n\<rparr> in
     if 0 \<le> n \<and> nat n = length (sn_op_list s) then (sn_halt True s, ok ())
     else (set_current_op s n, ok ()))"

definition sn_set_execute_address :: "snippet \<Rightarrow> address \<Rightarrow> snippet \<times> unit run" where
  "sn_set_execute_address s addr = (set_current_op s 0, ok ())"

definition sn_get_execute_address :: "snippet \<Rightarrow> address run" where
  "sn_get_execute_address s =
     (case Option.bind (sn_current_op s) (op_at (sn_op_list s)) of None \<Rightarrow> panic | Some p \<Rightarrow> ok (po_get_addr p))"

definition snippet_emulate :: "snippet_context \<Rightarrow> snippet emulate" where
  "snippet_emulate glb =
     \<lparr>em_base = sn_base, em_set_base = \<lambda>b s. s\<lparr>sn_base := b\<rparr>, em_get_behavior = \<lambda>s. sn_get_behavior glb,
      em_unary = sn_unary glb, em_binary = sn_binary glb, em_load = sn_load glb, em_store = sn_illegal,
      em_branch = sn_branch, em_cbranch = sn_cbranch glb, em_branchind = sn_illegal, em_call = sn_illegal,
      em_callind = sn_illegal, em_callother = sn_illegal, em_multiequal = sn_illegal, em_indirect = sn_illegal,
      em_segment_op = sn_illegal, em_cpool_ref = sn_illegal, em_new = sn_illegal, em_fallthru = sn_fallthru\<rparr>"

section \<open>Executable snippets\<close>

text \<open>The loop of \<open>evaluate\<close>.\<close>

partial_function (option) run_snippet :: "snippet_context \<Rightarrow> snippet \<Rightarrow> (snippet \<times> (fault + unit)) option" where
  "run_snippet glb s =
     (if get_halt (snippet_emulate glb) s then Some (s, Inr ())
      else case execute_current_op (snippet_emulate glb) s of (s, r) \<Rightarrow>
        (case r of None \<Rightarrow> None | Some (Inl e) \<Rightarrow> Some (s, Inl e) | Some (Inr _) \<Rightarrow> run_snippet glb s))"

declare run_snippet.simps [code]

text \<open>An executable whose operations were built and checked.\<close>

record executable_pcode =
  ex_emulator :: snippet
  ex_input_list :: "u64 list"
  ex_output_list :: "u64 list"

definition set_inputs :: "u64 list \<Rightarrow> u64 list \<Rightarrow> snippet \<Rightarrow> snippet" where
  "set_inputs offsets input s = foldl (\<lambda>s (off, val). sn_set_value s off val) s (zip offsets input)"

definition evaluate_snippet :: "snippet_context \<Rightarrow> executable_pcode \<Rightarrow> u64 list \<Rightarrow> (executable_pcode \<times> (fault + u64)) option" where
  "evaluate_snippet glb ex input =
     (let s = reset_memory (ex_emulator ex); ex = ex\<lparr>ex_emulator := s\<rparr> in
      if length input \<noteq> length (ex_input_list ex) then
        Some (ex, Inl (Fault (Lowlevel ''Wrong number of input parameters to executable snippet'')))
      else if ex_output_list ex = [] then
        Some (ex, Inl (Fault (Lowlevel ''No registered outputs to executable snippet'')))
      else case run_snippet glb (set_inputs (ex_input_list ex) input s) of
        None \<Rightarrow> None
      | Some (s, r) \<Rightarrow> Some (ex\<lparr>ex_emulator := s\<rparr>,
          case r of Inl e \<Rightarrow> Inl e | Inr _ \<Rightarrow> Inr (get_temp_value s (hd (ex_output_list ex)))))"

end
