(* ===== verification/Snippet_Correct.thy ===== *)
theory Snippet_Correct
  imports Snippet Op_Semantics
begin

text \<open>
  The evaluation of a snippet of data operations is the evaluation of the operations one after the other on the map of
  temporaries.
\<close>

section \<open>The reference\<close>

definition data_result :: "snippet_context \<Rightarrow> op_behavior \<Rightarrow> pcode_op_raw \<Rightarrow> (u64, u64) btree \<Rightarrow> (varnode_data \<times> u64) run" where
  "data_result glb b p temps =
     run_bind (get_input p 0) (\<lambda>vn1. run_bind (temps_value glb temps vn1) (\<lambda>in1.
     if ob_unary b then
       run_bind (output_of p) (\<lambda>out.
       run_bind (of_result (evaluate_unary b (size_i32 out) (size_i32 vn1) in1)) (\<lambda>res. ok (out, res)))
     else
       run_bind (get_input p 1) (\<lambda>vn2. run_bind (temps_value glb temps vn2) (\<lambda>in2.
       run_bind (output_of p) (\<lambda>out.
       run_bind (of_result (evaluate_binary b (size_i32 out) (size_i32 vn1) in1 in2)) (\<lambda>res. ok (out, res)))))))"

text \<open>An operation without a behaviour is skipped.\<close>

definition eval_data :: "snippet_context \<Rightarrow> pcode_op_raw \<Rightarrow> (u64, u64) btree \<Rightarrow> (u64, u64) btree run" where
  "eval_data glb p temps =
     (case sn_get_behavior glb (po_opcode p) of None \<Rightarrow> ok temps
      | Some b \<Rightarrow> run_bind (data_result glb b p temps) (\<lambda>(out, res). ok (bt_insert (vd_offset out) res temps)))"

definition data_op :: "snippet_context \<Rightarrow> pcode_op_raw \<Rightarrow> bool" where
  "data_op glb p = (case sn_get_behavior glb (po_opcode p) of None \<Rightarrow> True | Some b \<Rightarrow> \<not> ob_special b)"

definition input_temps :: "u64 list \<Rightarrow> u64 list \<Rightarrow> (u64, u64) btree" where
  "input_temps offsets input = foldl (\<lambda>t (off, val). bt_insert off val t) [] (zip offsets input)"

section \<open>The loop\<close>

lemma snippet_emulate_simps [simp]:
  "em_base (snippet_emulate glb) s = sn_base s" "em_get_behavior (snippet_emulate glb) s = sn_get_behavior glb"
  "em_unary (snippet_emulate glb) = sn_unary glb" "em_binary (snippet_emulate glb) = sn_binary glb"
  "em_fallthru (snippet_emulate glb) = sn_fallthru" "get_halt (snippet_emulate glb) s = emu_halted (sn_base s)"
  by (simp_all add: snippet_emulate_def get_halt_def)

text \<open>The emulator is at the operation \<open>i\<close> of a list and runs.\<close>

definition sn_at :: "pcode_op_raw list \<Rightarrow> nat \<Rightarrow> snippet \<Rightarrow> bool" where
  "sn_at ops i s \<longleftrightarrow> sn_op_list s = ops \<and> i < length ops \<and> sn_pos s = int i \<and> sn_current_op s = Some (int i) \<and>
     current_behave (sn_base s) = Some (po_opcode (ops ! i)) \<and> \<not> emu_halted (sn_base s)"

definition sn_next :: "pcode_op_raw list \<Rightarrow> nat \<Rightarrow> snippet \<Rightarrow> snippet" where
  "sn_next ops i s = (let s = s\<lparr>sn_pos := int (Suc i)\<rparr> in
     if Suc i = length ops then sn_halt True s else set_current_op s (int (Suc i)))"

lemma sn_next_simps: "sn_temp_values (sn_next ops i s) = sn_temp_values s"
  by (simp add: sn_next_def Let_def sn_halt_def set_current_op_def)

lemma fallthru_at:
  assumes "sn_at ops i s" "length ops < 2 ^ 31"
  shows "sn_fallthru (s\<lparr>sn_temp_values := t\<rparr>) = (sn_next ops i (s\<lparr>sn_temp_values := t\<rparr>), ok ())"
  using assms by (simp add: sn_at_def sn_fallthru_def i32_checked_def sn_next_def Let_def nat_add_distrib add.commute)

lemma sn_write_bind: "sn_write s r = state_bind (s, run_bind r (\<lambda>(out, res). ok (bt_insert (vd_offset out) res (sn_temp_values s))))
    (\<lambda>s t. (s\<lparr>sn_temp_values := t\<rparr>, ok ()))"
  by (auto simp: sn_write_def sn_set_value_def state_bind_def run_bind_def ok_def split: option.split sum.split)

lemma data_step:
  assumes "sn_at ops i s" "data_op glb (ops ! i)" "length ops < 2 ^ 31"
  shows "execute_current_op (snippet_emulate glb) s =
    state_bind (s, eval_data glb (ops ! i) (sn_temp_values s)) (\<lambda>s t. (sn_next ops i (s\<lparr>sn_temp_values := t\<rparr>), ok ()))"
proof (cases "sn_get_behavior glb (po_opcode (ops ! i))")
  case None
  then show ?thesis using assms(1) fallthru_at [OF assms(1,3), of "sn_temp_values s"]
    by (simp add: execute_current_op_def eval_data_def sn_at_def)
next
  case (Some b)
  have cur: "sn_raw_op s = ok (ops ! i)" "sn_behavior glb s = ok b"
    using assms(1) Some by (auto simp: sn_at_def sn_raw_op_def op_at_def sn_behavior_def)
  have "sn_unary glb s = sn_write s (data_result glb b (ops ! i) (sn_temp_values s))" if "ob_unary b"
    using that by (simp add: sn_unary_def cur data_result_def sn_get_value_def)
  moreover have "sn_binary glb s = sn_write s (data_result glb b (ops ! i) (sn_temp_values s))" if "\<not> ob_unary b"
    using that by (simp add: sn_binary_def cur data_result_def sn_get_value_def)
  moreover have "\<not> ob_special b" using assms(2) Some by (simp add: data_op_def)
  ultimately have "execute_current_op (snippet_emulate glb) s =
      state_bind (sn_write s (data_result glb b (ops ! i) (sn_temp_values s))) (\<lambda>s _. sn_fallthru s)"
    using assms(1) Some by (simp add: execute_current_op_def sn_at_def)
  also have "\<dots> = state_bind (s, eval_data glb (ops ! i) (sn_temp_values s)) (\<lambda>s t. (sn_next ops i (s\<lparr>sn_temp_values := t\<rparr>), ok ()))"
    unfolding sn_write_bind eval_data_def Some option.case
    using fallthru_at [OF assms(1,3)] by (auto simp: state_bind_def ok_def split: option.split sum.split)
  finally show ?thesis .
qed

definition final_temps :: "(snippet \<times> (fault + unit)) option \<Rightarrow> (u64, u64) btree run" where
  "final_temps X = map_option (\<lambda>(s, r). case r of Inl e \<Rightarrow> Inl e | Inr _ \<Rightarrow> Inr (sn_temp_values s)) X"

lemma run_snippet_data:
  assumes "sn_at ops i s" "\<forall>p\<in>set ops. data_op glb p" "length ops < 2 ^ 31"
  shows "final_temps (run_snippet glb s) = run_fold (eval_data glb) (drop i ops) (sn_temp_values s)"
  using assms(1)
proof (induction "length ops - i" arbitrary: i s)
  case (Suc n)
  have i: "i < length ops" "\<not> emu_halted (sn_base s)" using Suc.prems by (simp_all add: sn_at_def)
  have step: "execute_current_op (snippet_emulate glb) s =
    state_bind (s, eval_data glb (ops ! i) (sn_temp_values s)) (\<lambda>s t. (sn_next ops i (s\<lparr>sn_temp_values := t\<rparr>), ok ()))"
    using assms(2) i(1) by (intro data_step [OF Suc.prems _ assms(3)]) simp
  have d: "drop i ops = ops ! i # drop (Suc i) ops" using i(1) by (simp add: Cons_nth_drop_Suc)
  consider "eval_data glb (ops ! i) (sn_temp_values s) = None" | e where "eval_data glb (ops ! i) (sn_temp_values s) = Some (Inl e)"
    | t where "eval_data glb (ops ! i) (sn_temp_values s) = ok t" by (metis ok_def option.exhaust sum.exhaust)
  then show ?case
  proof cases
    case 1
    then show ?thesis using i(2) step by (subst run_snippet.simps) (simp add: d final_temps_def)
  next
    case (2 e)
    then show ?thesis using i(2) step by (subst run_snippet.simps) (simp add: d final_temps_def run_bind_def state_bind_def)
  next
    case (3 t)
    let ?s = "sn_next ops i (s\<lparr>sn_temp_values := t\<rparr>)"
    from 3 have "execute_current_op (snippet_emulate glb) s = (?s, ok ())" by (simp add: step)
    then have run: "run_snippet glb s = run_snippet glb ?s" using i(2) by (subst run_snippet.simps) (simp add: ok_def)
    have "final_temps (run_snippet glb ?s) = run_fold (eval_data glb) (drop (Suc i) ops) t"
    proof (cases "Suc i = length ops")
      case True
      then show ?thesis by (subst run_snippet.simps) (simp add: final_temps_def sn_next_def Let_def sn_halt_def ok_def)
    next
      case False
      then have "sn_at ops (Suc i) ?s" using Suc.prems by (simp add: sn_at_def sn_next_def Let_def set_current_op_def op_at_def nat_add_distrib)
      then show ?thesis using Suc.hyps(1) [of "Suc i" ?s] Suc.hyps(2) by (simp add: sn_next_simps)
    qed
    then show ?thesis using run 3 by (simp add: d)
  qed
qed (simp add: sn_at_def)

lemma set_inputs_eq: "set_inputs offsets input s = s\<lparr>sn_temp_values := foldl (\<lambda>t (off, val). bt_insert off val t) (sn_temp_values s) (zip offsets input)\<rparr>"
proof -
  have "foldl (\<lambda>s (off, val). sn_set_value s off val) s ps = s\<lparr>sn_temp_values := foldl (\<lambda>t (off, val). bt_insert off val t) (sn_temp_values s) ps\<rparr>" for ps
    by (induction ps arbitrary: s) (auto simp: sn_set_value_def)
  then show ?thesis by (simp add: set_inputs_def)
qed

section \<open>Evaluation\<close>

definition temp_vn :: "u64 \<Rightarrow> varnode_data" where
  "temp_vn off = \<lparr>vd_space = Some (new_unique False 2 0), vd_offset = off, vd_size = 4\<rparr>"

definition imm_vn :: "u64 \<Rightarrow> varnode_data" where
  "imm_vn v = \<lparr>vd_space = Some new_constant, vd_offset = v, vd_size = 4\<rparr>"

definition raw_op :: "opcode \<Rightarrow> varnode_data option \<Rightarrow> varnode_data list \<Rightarrow> pcode_op_raw" where
  "raw_op opc out vns = (new_pcode_op_raw opc)\<lparr>po_out := out, po_inputs := vns\<rparr>"

definition example_context :: snippet_context where
  "example_context = \<lparr>sc_loader = None, sc_spaces = [], sc_behaviors = Some (build_behaviors no_float_ops [])\<rparr>"

definition executable_of :: "pcode_op_raw list \<Rightarrow> executable_pcode" where
  "executable_of prog = \<lparr>ex_emulator = new_snippet\<lparr>sn_op_list := prog\<rparr>, ex_input_list = [0x10], ex_output_list = [0x30]\<rparr>"

definition example_snippet :: "pcode_op_raw list" where
  "example_snippet = [raw_op IntMult (Some (temp_vn 0x50)) [temp_vn 0x10, imm_vn 6], raw_op IntAdd (Some (temp_vn 0x30)) [temp_vn 0x50, imm_vn 1]]"

text \<open>
  C10: evaluating an executable snippet whose operations are data operations is the same as evaluating the operations in
  order on a map of temporaries that starts with the inputs. The loop, with its position, halting flag and
  dispatch, ends after the last operation and gives the value of the first output (0 when it was
  never written); the first error of an operation, such as a temporary read before it is written, is its result.
\<close>

theorem snippet_evaluates:
  assumes "sn_op_list (ex_emulator ex) = prog" "prog \<noteq> []" "length prog < 2 ^ 31" "\<forall>p\<in>set prog. data_op glb p"
    "length input = length (ex_input_list ex)" "ex_output_list ex = out # outs"
  shows "map_option snd (evaluate_snippet glb ex input) =
    run_bind (run_fold (eval_data glb) prog (input_temps (ex_input_list ex) input))
      (\<lambda>temps. ok (case bt_get temps out of None \<Rightarrow> 0 | Some v \<Rightarrow> v))"
proof -
  let ?s = "set_inputs (ex_input_list ex) input (reset_memory (ex_emulator ex))"
  have "sn_at prog 0 ?s"
    using assms(1,2) by (auto simp: sn_at_def set_inputs_eq reset_memory_def sn_halt_def set_current_op_def op_at_def)
  from run_snippet_data [OF this assms(4,3)]
  have "final_temps (run_snippet glb ?s) = run_fold (eval_data glb) prog (input_temps (ex_input_list ex) input)"
    by (simp add: set_inputs_eq input_temps_def reset_memory_def sn_halt_def set_current_op_def)
  from this [symmetric] show ?thesis using assms(5,6)
    by (cases "run_snippet glb ?s")
      (auto simp: evaluate_snippet_def Let_def final_temps_def run_bind_def get_temp_value_def ok_def split: sum.splits)
qed

theorem snippet_evaluates_witness:
  "map_option snd (evaluate_snippet example_context (executable_of example_snippet) [7]) = ok 43"
proof -
  have data: "\<forall>p\<in>set example_snippet. data_op example_context p" by code_simp
  have run: "run_bind (run_fold (eval_data example_context) example_snippet (input_temps (ex_input_list (executable_of example_snippet)) [7]))
      (\<lambda>temps. ok (case bt_get temps 0x30 of None \<Rightarrow> 0 | Some v \<Rightarrow> v)) = ok 43" by code_simp
  show ?thesis
    using snippet_evaluates [of "executable_of example_snippet" example_snippet example_context "[7]" "0x30" "[]"] data run
    by (simp add: executable_of_def example_snippet_def)
qed

section \<open>What the check lets through\<close>

text \<open>
  The check for legal code rejects operations a snippet cannot run, but not a return, and it looks at the target of a
  branch but not of a conditional branch: both pass and fail when they are executed.
\<close>

lemma first_step_error:
  assumes "length input = length (ex_input_list ex)" "ex_output_list ex \<noteq> []"
    "snd (execute_current_op (snippet_emulate glb) (set_inputs (ex_input_list ex) input (reset_memory (ex_emulator ex)))) = err e"
  shows "map_option snd (evaluate_snippet glb ex input) = err e"
proof -
  let ?s = "set_inputs (ex_input_list ex) input (reset_memory (ex_emulator ex))"
  obtain s' where step: "execute_current_op (snippet_emulate glb) ?s = (s', Some (Inl (Fault e)))"
    using assms(3) by (metis err_def prod.collapse)
  have "\<not> emu_halted (sn_base ?s)" by (simp add: set_inputs_eq reset_memory_def sn_halt_def set_current_op_def)
  then have "run_snippet glb ?s = Some (s', Inl (Fault e))" using step by (subst run_snippet.simps) simp
  then show ?thesis using assms(1,2) by (simp add: evaluate_snippet_def Let_def err_def)
qed

lemma return_passes_check:
  "check_for_legal_code (new_snippet\<lparr>sn_op_list := [raw_op Return None [temp_vn 0x10]]\<rparr>) = ok True \<and>
   map_option snd (evaluate_snippet example_context (executable_of [raw_op Return None [temp_vn 0x10]]) [7]) =
     err (Lowlevel ''Illegal p-code operation in snippet: RETURN'')"
proof (rule conjI, code_simp, rule first_step_error)
  let ?ex = "executable_of [raw_op Return None [temp_vn 0x10]]"
  show "length [7 :: u64] = length (ex_input_list ?ex)" "ex_output_list ?ex \<noteq> []" by (simp_all add: executable_of_def)
  show "snd (execute_current_op (snippet_emulate example_context) (set_inputs (ex_input_list ?ex) [7] (reset_memory (ex_emulator ?ex)))) =
    err (Lowlevel ''Illegal p-code operation in snippet: RETURN'')" by code_simp
qed

lemma absolute_cbranch_passes_check:
  "check_for_legal_code (new_snippet\<lparr>sn_op_list := [raw_op Cbranch None [temp_vn 0x100, temp_vn 0x10]]\<rparr>) = ok True \<and>
   map_option snd (evaluate_snippet example_context (executable_of [raw_op Cbranch None [temp_vn 0x100, temp_vn 0x10]]) [7]) =
     err (Lowlevel ''Tried to emulate absolute branch in snippet code'')"
proof (rule conjI, code_simp, rule first_step_error)
  let ?ex = "executable_of [raw_op Cbranch None [temp_vn 0x100, temp_vn 0x10]]"
  show "length [7 :: u64] = length (ex_input_list ?ex)" "ex_output_list ?ex \<noteq> []" by (simp_all add: executable_of_def)
  show "snd (execute_current_op (snippet_emulate example_context) (set_inputs (ex_input_list ?ex) [7] (reset_memory (ex_emulator ?ex)))) =
    err (Lowlevel ''Tried to emulate absolute branch in snippet code'')" by code_simp
qed

text \<open>
  The end is found by comparing the position after a step with the number of operations, so an empty snippet never
  reaches it: the position runs up to the largest number and overflows.
\<close>

lemma empty_snippet_runs_over:
  assumes "sn_op_list s = []" "\<not> emu_halted (sn_base s)" "current_behave (sn_base s) = None" "0 \<le> sn_pos s" "sn_pos s < 2 ^ 31"
  shows "\<exists>s'. run_snippet glb s = Some (s', Inl Panic)"
  using assms
proof (induction "nat (2 ^ 31 - sn_pos s)" arbitrary: s rule: less_induct)
  case less
  have step: "execute_current_op (snippet_emulate glb) s = sn_fallthru s" using less.prems(3) by (simp add: execute_current_op_def)
  show ?case
  proof (cases "sn_pos s + 1 < 2 ^ 31")
    case True
    let ?s = "set_current_op (s\<lparr>sn_pos := sn_pos s + 1\<rparr>) (sn_pos s + 1)"
    have "sn_fallthru s = (?s, ok ())" using True less.prems(1,4) by (simp add: sn_fallthru_def i32_checked_def Let_def)
    then have "run_snippet glb s = run_snippet glb ?s" using less.prems(2) step by (subst run_snippet.simps) (simp add: ok_def)
    moreover have "\<exists>s'. run_snippet glb ?s = Some (s', Inl Panic)"
      using True less.prems by (intro less.hyps) (simp_all add: set_current_op_def op_at_def)
    ultimately show ?thesis by simp
  next
    case False
    then have "sn_fallthru s = (s, panic)" using less.prems(5) by (simp add: sn_fallthru_def i32_checked_def)
    then show ?thesis using less.prems(2) step by (subst run_snippet.simps) (simp add: panic_def)
  qed
qed

lemma empty_snippet_panics:
  assumes "sn_op_list (ex_emulator ex) = []" "length input = length (ex_input_list ex)" "ex_output_list ex \<noteq> []"
  shows "map_option snd (evaluate_snippet glb ex input) = panic"
proof -
  let ?s = "set_inputs (ex_input_list ex) input (reset_memory (ex_emulator ex))"
  obtain s' where "run_snippet glb ?s = Some (s', Inl Panic)"
    using empty_snippet_runs_over [of ?s glb] assms(1)
    by (auto simp: set_inputs_eq reset_memory_def sn_halt_def set_current_op_def op_at_def)
  then show ?thesis using assms(2,3) by (simp add: evaluate_snippet_def Let_def panic_def)
qed

end
