(* ===== verification/Spec2Isabelle.thy ===== *)
theory Spec2Isabelle
  imports Op_Recover Circle_Forward Memory_Chunk Range_Queries Context_Cache Div_Recover Symbol_Ranges Load_Table Ordered_Index
    Emulate_Returns Snippet_Correct
begin

text \<open>
  A verification library for the decompiler in src/src. The program lifts machine code to p-code, a small
  register-transfer language, and simplifies it. This development models the parts that give p-code its
  meaning and the containers and abstract domains the analyses rest on:

  \<^item> \<^bold>\<open>Bits\<close> (address.rs, the integer helpers): masks by byte size, sign and zero extension, byte order,
    bit scans. Everything below computes with these.
  \<^item> \<^bold>\<open>Opcodes\<close> (opcodes.rs): the operation codes, their names and the lookup by name, and the complement
    of a comparison.
  \<^item> \<^bold>\<open>Op_Behavior, Op_Semantics, Op_Recover\<close> (opbehavior.rs): one record per operation with the four
    methods of \<open>OpBehavior\<close>, the default methods and the table that registers them. \<open>Op_Semantics\<close> states
    the arithmetic meaning of each integer operation on \<open>int\<close> and proves that the registered behaviour
    computes it; \<open>Op_Recover\<close> proves that recovering an input is an inverse where it succeeds.
  \<^item> \<^bold>\<open>Circle_Range, Circle_Sets, Circle_Pull, Circle_Forward\<close> (rangeutil.rs, \<open>CircleRange\<close>): ranges of
    integers modulo a power of two with a stride. A range denotes the set of words it \<open>contains\<close>; union,
    intersection, complement and inclusion are compared with the set operations, the pull-back of an
    operation with the preimage of the behaviour in \<open>Op_Behavior\<close>, the push-forward with its image.
  \<^item> \<^bold>\<open>Space\<close> (space.rs): address spaces, their bounds and the wrapping of offsets.
  \<^item> \<^bold>\<open>Memory_Bank, Memory_State, Memory_Refine, Memory_Overlay, Memory_Chunk\<close> (memstate.rs): the memory of the
    emulator. Banks read and write aligned words; the default methods assemble values of any size at any
    offset. The abstract memory is a function from addresses to bytes; the theorems are for words of eight bytes.
  \<^item> \<^bold>\<open>BTree, Part_Map\<close> (partmap.rs): the standard library's ordered map as a sorted association list, and
    the partition map as a piecewise constant function.
  \<^item> \<^bold>\<open>Address, Range_List, Range_Queries\<close> (address.rs): addresses with their order, arithmetic and containment;
    ranges and lists of disjoint ranges. A list denotes the set of addresses it covers, and insertion,
    removal, union and the queries are compared with the set.
  \<^item> \<^bold>\<open>Global_Context, Context_Region, Context_Cache\<close> (globalcontext.rs): context variables as bits of words, the
    database of contexts as a partition map over addresses, tracked registers, and the cache in front of
    the database. \<open>Context_Region\<close> gives the effect of an update on the context of every address and shows that
    the database refines the history of its writes,
    \<open>Context_Cache\<close> that variables read back and that the cache is transparent to a client of one space.
  \<^item> \<^bold>\<open>Multi_Precision, Multi_Arith, Knuth_Division, Wide_Division\<close> (multiprecision.rs): 128-bit numbers as arrays
    of words. \<open>Knuth_Division\<close> proves the long division digit by digit, \<open>Wide_Division\<close> that \<open>udiv128\<close>
    returns the exact quotient and remainder.
  \<^item> \<^bold>\<open>Div_Recover\<close> (ruleaction/division.rs, \<open>calc_divisor\<close>): the divisor that a multiplication and a shift
    stand for, computed with the 128-bit numbers; a divisor found is right for every dividend.
  \<^item> \<^bold>\<open>Arena, Linked_List, List_Refine, Op_Lists\<close> (arena.rs, oplist.rs; the nodes of op.rs, rangemap.rs and
    blockaction.rs): arenas of objects with identifiers that are never used again, and the intrusive lists whose
    links are stored in the objects. \<open>List_Refine\<close> proves that each list operation is the operation on the
    sequence of identifiers, \<open>Op_Lists\<close> does so for the nodes of the program.
  \<^item> \<^bold>\<open>Ordered_Index\<close> (orderedindex.rs): the ordered map with a buffer of the entries that come next, against
    the map without the buffer.
  \<^item> \<^bold>\<open>Std_Sort, Sort_Correct, Sort_Heap, Sort_Intro, Load_Table\<close> (stdsort.rs; the load tables of jumptable.rs):
    the introspective sort, proved for its insertion sort, its heap sort and its partition in turn, and
    the collapsing of load tables that uses it.
  \<^item> \<^bold>\<open>Range_Map, Range_Map_Parts, Range_Map_Insert, Range_Map_Find, Symbol_Ranges\<close> (rangemap.rs; the entry maps of
    database.rs): maps from overlapping ranges to records. The abstract map is the set of ranges; the parts of the
    vector are compared with it point by point, through cuts, insertion and queries. The records are in an arena and
    in an intrusive list, so these theories rest on the ones for arenas and lists.
  \<^item> \<^bold>\<open>Pcode_Raw, Emulate, Emulate_Correct, Emulate_Returns\<close> (pcoderaw.rs, emulate.rs): raw operations and the
    emulator. The trait \<open>Emulate\<close> is a record of its methods, \<open>execute_current_op\<close> the dispatch over them, and
    \<open>EmulatePcodeCache\<close> an instance: the cache of one instruction, operations on the memory state, branches,
    breakpoints, and the loop over an instruction. \<open>Emulate_Correct\<close> shows that the dispatch always uses the
    behaviour of the operation at hand, where a step goes on, and that integer operations have the effect of the reference
    arithmetic of \<open>Op_Semantics\<close> on memory; \<open>Emulate_Returns\<close> that executing an instruction without backward branches
    returns, and where.
  \<^item> \<^bold>\<open>Snippet, Snippet_Correct\<close> (emulateutil.rs, \<open>EmulateSnippet\<close>; pcodeinject.rs, \<open>evaluate\<close> of an executable that is
    built): the second instance of the trait, on a map of temporaries, against the evaluation of its operations in order.

  \<^bold>\<open>State and effects.\<close> Structures are records, enums are datatypes. A method on \<open>&mut self\<close> returns the
  updated record. \<open>Result\<close> is the sum type \<open>'a result\<close> over the datatype \<open>error\<close>; where code may also panic
  or not return, the outcome is \<open>'a run\<close> of theory \<open>Run\<close>: \<open>None\<close> for a loop that does not end, a fault for
  an error or a panic. A reference \<open>&mut V\<close> into a map is the place it points at. Words of 64, 32 and 8 bits
  wrap; counters of type \<open>i32\<close> are \<open>int\<close> with the casts written out. Indices of type \<open>usize\<close> are \<open>nat\<close>; an
  access out of range or a subtraction below 0 panics. Loops whose end is not evident are
  \<open>partial_function (option)\<close>, and theorems that they return are stated as such; a \<open>for\<close> loop over an index
  range is a fold over the indices; all other recursion is structural or has a measure, so no fuel is used.

  \<^bold>\<open>Interfaces.\<close> Each is a locale, interpreted on the model: \<open>exact_pull_back\<close> and \<open>exact_pull_back_pair\<close>
  (what a pull-back promises, instances for comparison, addition, subtraction, negation and complement),
  \<open>word_store\<close> and \<open>total_word_store\<close> (what the default methods of a memory bank need of \<open>find\<close> and
  \<open>insert\<close>, instances for the page overlay and the hash overlay), \<open>ordered_map\<close> (what partition maps need
  of \<open>BTreeMap\<close>, instance for sorted association lists), \<open>region_update\<close> (the closures that change a context,
  instances for masked words and for variables), \<open>linked_node\<close> and \<open>slotted_node\<close> (what a list needs of the links
  of a node, instances for block traces and for operations and range records), \<open>comparator\<close> (the strict weak
  orders of the sort, instance for load tables), \<open>range_line\<close> (the steps along the line of a range map and its
  records, instance for symbol ranges). Traits are records of functions that the locales speak about.

  \<^bold>\<open>What is shown.\<close> Each theory states its main theorems after its lemmas; a theorem with hypotheses is
  followed by an application to a concrete input. Behaviour that differs from what the code means to do is
  stated too, as lemmas on concrete inputs at the end of the theories: lost and gained elements of
  strided ranges (\<open>Circle_Sets\<close>), wrong pull-backs and push-forwards (\<open>Circle_Pull\<close>, \<open>Circle_Forward\<close>),
  shifts by zero that cannot be recovered (\<open>Op_Recover\<close>), narrow words and the marker address of the hash
  overlay (\<open>Memory_Chunk\<close>), the longest fit of a full space (\<open>Range_Queries\<close>), the window of the context cache
  across spaces and big-endian tracked registers (\<open>Context_Cache\<close>), shifts of 128 bits and more
  (\<open>Multi_Arith\<close>), a divisor that fails instead of being rejected (\<open>Div_Recover\<close>), parts that are stored twice and
  ranges that grow when a neighbour is removed (\<open>Symbol_Ranges\<close>), load tables with counts or with loads that
  overlap in part (\<open>Load_Table\<close>),
  a run that stops within an instruction at a relative branch (\<open>Emulate_Returns\<close>), operations the check of a snippet lets through and
  the empty snippet (\<open>Snippet_Correct\<close>).

  \<^bold>\<open>Parameters.\<close> Code outside the modelled files enters as arguments: the loader of a memory image, the
  register table, the floating-point formats of the float behaviours, the \<open>Clone\<close> instance of map values,
  the translator that emits the operations of an instruction, the callbacks at breakpoints, and of the architecture the
  load image and the behaviours that snippets use.

  \<^bold>\<open>Not modelled.\<close> The data-flow graph of a function (funcdata, varnode, op) and everything that rewrites
  it (actions, rules, heritage, merge, block structuring, prototypes, types, the recovery of jump tables, scopes): these share
  mutable arenas across the whole program and need a model of that graph first. The value-set solver of
  rangeutil.rs works on the same graph. Printing, marshalling, XML, grammar tables, the console and
  the architecture files are input and output. The emulation of operations in the graph (\<open>EmulatePcodeOp\<close>)
  needs that graph. SLEIGH's decoding of instructions and the floating-point formats remain as further work.
\<close>

end
